(* ===== verification/Prelude.thy ===== *)
theory Prelude
  imports Main "HOL-Library.Multiset" "HOL-Library.Product_Lexorder" "HOL-Library.List_Lexorder"
    "HOL-Library.Char_ord"
begin

text \<open>
  Shared ground of the development: the error values that stand for the Python exceptions,
  Python's list idioms (enumerate, index comprehensions, \<open>pop(i)\<close>, slices, stable sorts) as
  executable functions, and the generic list and multiset lemmas that the component
  theories use again and again.  Facts about the idioms are collected in \<open>py_list\<close>.
\<close>

named_theorems py_list "rules about the Python list idioms"

section \<open>Exceptions\<close>

text \<open>
  An exception is a value: a computation that may raise has type \<open>py_error + 'a\<close>,
  \<open>Inl\<close> the exception raised, \<open>Inr\<close> the value returned.  Messages are not modelled.
\<close>

datatype py_error =
    ValueError | KeyError | IndexError | TypeError | AssertionError | RuntimeError
  | ZeroDivisionError | NotImplementedError | AttributeError | PostWriteEnrichmentError
  | ExceptionGroup | CancelledError | NoHealthyShards | TimeoutError | PermissionError
  | OSError | FileNotFoundError

type_synonym 'a res = "py_error + 'a"

definition ok :: "'a res \<Rightarrow> bool" where
  "ok r \<longleftrightarrow> (case r of Inl _ \<Rightarrow> False | Inr _ \<Rightarrow> True)"

lemma ok_simps [simp]: "ok (Inr x)" "\<not> ok (Inl e)"
  by (simp_all add: ok_def)

lemma ok_iff: "ok r \<longleftrightarrow> (\<exists>x. r = Inr x)"
  by (cases r) auto

lemma not_ok_iff: "\<not> ok r \<longleftrightarrow> (\<exists>e. r = Inl e)"
  by (cases r) auto

text \<open>Sequencing, \<open>assert\<close>, and a loop that stops at the first exception.\<close>

definition bindR :: "'a res \<Rightarrow> ('a \<Rightarrow> 'b res) \<Rightarrow> 'b res" where
  "bindR r f = (case r of Inl e \<Rightarrow> Inl e | Inr x \<Rightarrow> f x)"

definition guardR :: "py_error \<Rightarrow> bool \<Rightarrow> unit res" where
  "guardR e b = (if b then Inr () else Inl e)"

abbreviation assertR :: "bool \<Rightarrow> unit res" where
  "assertR \<equiv> guardR AssertionError"

fun mapR :: "('a \<Rightarrow> 'b res) \<Rightarrow> 'a list \<Rightarrow> 'b list res" where
  "mapR f [] = Inr []"
| "mapR f (x # xs) = bindR (f x) (\<lambda>y. bindR (mapR f xs) (\<lambda>ys. Inr (y # ys)))"

lemma bindR_simps [simp]: "bindR (Inr x) f = f x" "bindR (Inl e) f = Inl e"
  by (simp_all add: bindR_def)

lemma bindR_Inr: "bindR r f = Inr y \<longleftrightarrow> (\<exists>x. r = Inr x \<and> f x = Inr y)"
  by (cases r) auto

lemma bindR_Inl: "bindR r f = Inl e \<longleftrightarrow> r = Inl e \<or> (\<exists>x. r = Inr x \<and> f x = Inl e)"
  by (cases r) auto

lemma guardR_simps [simp]:
  "guardR e True = Inr ()" "guardR e False = Inl e"
  by (simp_all add: guardR_def)

lemma guardR_Inr [simp]: "guardR e b = Inr u \<longleftrightarrow> b"
  by (simp add: guardR_def)

lemma guardR_Inl [simp]: "guardR e b = Inl e' \<longleftrightarrow> \<not> b \<and> e' = e"
  by (auto simp: guardR_def)

lemma mapR_Inr: "mapR f xs = Inr ys \<longleftrightarrow> list_all2 (\<lambda>x y. f x = Inr y) xs ys"
  by (induction xs arbitrary: ys) (auto simp: bindR_Inr list_all2_Cons1)

lemma mapR_Inl: "mapR f xs = Inl e \<Longrightarrow> \<exists>x\<in>set xs. f x = Inl e"
  by (induction xs) (auto simp: bindR_Inl)

lemma mapR_total: "(\<And>x. x \<in> set xs \<Longrightarrow> f x = Inr (g x)) \<Longrightarrow> mapR f xs = Inr (map g xs)"
  by (induction xs) auto

lemma mapR_map: "mapR f (map g xs) = mapR (\<lambda>x. f (g x)) xs"
  by (induction xs) auto

lemma mapR_cong: "(\<And>x. x \<in> set xs \<Longrightarrow> f x = g x) \<Longrightarrow> mapR f xs = mapR g xs"
  by (induction xs) auto

section \<open>Python list idioms\<close>

text \<open>\<open>[i for i, v in enumerate(xs) if P v]\<close>\<close>

definition ix_filter :: "('a \<Rightarrow> bool) \<Rightarrow> 'a list \<Rightarrow> nat list" where
  "ix_filter P xs = filter (\<lambda>i. P (xs ! i)) [0..<length xs]"

text \<open>\<open>[xs[i] for i in ixs]\<close>\<close>

definition pick :: "'a list \<Rightarrow> nat list \<Rightarrow> 'a list" where
  "pick xs ixs = map (\<lambda>i. xs ! i) ixs"

text \<open>\<open>del xs[i]\<close>, the list left by \<open>xs.pop(i)\<close>\<close>

definition del_at :: "nat \<Rightarrow> 'a list \<Rightarrow> 'a list" where
  "del_at i xs = take i xs @ drop (Suc i) xs"

text \<open>\<open>xs.insert(i, x)\<close>\<close>

definition insert_at :: "nat \<Rightarrow> 'a \<Rightarrow> 'a list \<Rightarrow> 'a list" where
  "insert_at i x xs = take i xs @ x # drop i xs"

text \<open>\<open>xs[a:b]\<close> for non-negative bounds\<close>

definition slice :: "nat \<Rightarrow> nat \<Rightarrow> 'a list \<Rightarrow> 'a list" where
  "slice a b xs = take (b - a) (drop a xs)"

text \<open>\<open>xs[i::n]\<close>\<close>

definition stride :: "nat \<Rightarrow> nat \<Rightarrow> 'a list \<Rightarrow> 'a list" where
  "stride i n xs = pick xs (filter (\<lambda>j. i \<le> j \<and> (j - i) mod n = 0) [0..<length xs])"

text \<open>
  The first index whose element satisfies \<open>P\<close>, as found by a \<open>for\<close> loop that breaks.
\<close>

fun first_ix :: "('a \<Rightarrow> bool) \<Rightarrow> 'a list \<Rightarrow> nat option" where
  "first_ix P [] = None"
| "first_ix P (x # xs) = (if P x then Some 0 else map_option Suc (first_ix P xs))"

text \<open>
  \<open>xs.sort(key=f, reverse=True)\<close>: Python keeps the sort stable under \<open>reverse\<close>, so
  elements with equal keys stay in their original order.
\<close>

definition sort_desc :: "('a \<Rightarrow> 'b::linorder) \<Rightarrow> 'a list \<Rightarrow> 'a list" where
  "sort_desc f xs = rev (sort_key f (rev xs))"

lemma remdups_single: "remdups xs = [n] \<longleftrightarrow> xs \<noteq> [] \<and> (\<forall>x\<in>set xs. x = n)"
proof
  assume r: "remdups xs = [n]"
  have "set xs = set (remdups xs)" by simp
  also have "\<dots> = {n}" by (simp only: r) simp
  finally have "set xs = {n}" .
  then show "xs \<noteq> [] \<and> (\<forall>x\<in>set xs. x = n)" by fastforce
next
  assume "xs \<noteq> [] \<and> (\<forall>x\<in>set xs. x = n)"
  then have "set xs = {n}" by (cases xs) auto
  then show "remdups xs = [n]"
  proof (induction xs)
    case (Cons x xs)
    then show ?case by (cases xs) auto
  qed simp
qed

lemma pick_simps [simp, py_list]:
  "pick xs [] = []"
  "pick xs (i # ixs) = xs ! i # pick xs ixs"
  "pick xs (ixs @ jxs) = pick xs ixs @ pick xs jxs"
  "length (pick xs ixs) = length ixs"
  by (simp_all add: pick_def)

lemma pick_upt_all [simp, py_list]: "pick xs [0..<length xs] = xs"
  by (simp add: pick_def map_nth)

lemma pick_eq_nil [simp]: "pick xs ixs = [] \<longleftrightarrow> ixs = []"
  by (simp add: pick_def)

lemma nth_pick [simp]: "k < length ixs \<Longrightarrow> pick xs ixs ! k = xs ! (ixs ! k)"
  by (simp add: pick_def)

lemma pick_map: "(\<forall>i\<in>set ixs. i < length xs) \<Longrightarrow> pick (map f xs) ixs = map f (pick xs ixs)"
  by (simp add: pick_def)

lemma pick_concat: "pick xs (concat ixss) = concat (map (pick xs) ixss)"
  by (induction ixss) auto

lemma mset_pick: "mset ixs = mset [0..<length xs] \<Longrightarrow> mset (pick xs ixs) = mset xs"
  unfolding pick_def by (metis map_nth mset_map)

lemma set_pick_subset: "\<forall>i\<in>set ixs. i < length xs \<Longrightarrow> set (pick xs ixs) \<subseteq> set xs"
  by (auto simp: pick_def)

lemma set_nth_concat: "s < length xss \<Longrightarrow> set (xss ! s) \<subseteq> set (concat xss)"
  by (metis concat_append concat.simps(2) id_take_nth_drop le_supI1 set_append sup.cobounded1 sup.coboundedI2)

lemma pick_zip:
  "\<forall>i\<in>set ixs. i < length xs \<and> i < length ys \<Longrightarrow> zip (pick xs ixs) (pick ys ixs) = pick (zip xs ys) ixs"
  by (induction ixs) auto

lemma pick_slice:
  "b \<le> length xs \<Longrightarrow> pick xs [a..<b] = slice a b xs"
  by (rule nth_equalityI) (auto simp: pick_def slice_def)

lemma ix_filter_in [simp]: "i \<in> set (ix_filter P xs) \<longleftrightarrow> i < length xs \<and> P (xs ! i)"
  by (auto simp: ix_filter_def)

lemma ix_filter_sorted [simp]: "sorted (ix_filter P xs)"
  by (simp add: ix_filter_def sorted_filter[where f = id, simplified])

lemma ix_filter_distinct [simp]: "distinct (ix_filter P xs)"
  by (simp add: ix_filter_def)

lemma pick_ix_filter: "pick xs (ix_filter P xs) = filter P xs"
proof -
  have "filter P xs = filter P (map ((!) xs) [0..<length xs])"
    by (simp add: map_nth)
  also have "\<dots> = map ((!) xs) (filter (P \<circ> (!) xs) [0..<length xs])"
    by (simp add: filter_map)
  finally show ?thesis
    by (simp add: pick_def ix_filter_def comp_def)
qed

lemma length_ix_filter: "length (ix_filter P xs) = length (filter P xs)"
  by (metis pick_ix_filter pick_simps(4))

lemma mset_del_at: "i < length xs \<Longrightarrow> mset xs = add_mset (xs ! i) (mset (del_at i xs))"
  by (metis del_at_def id_take_nth_drop mset.simps(2) mset_append union_mset_add_mset_right)

lemma length_del_at [simp]: "i < length xs \<Longrightarrow> length (del_at i xs) = length xs - 1"
  by (simp add: del_at_def)

lemma set_del_at: "set (del_at i xs) \<subseteq> set xs"
  by (auto simp: del_at_def dest: in_set_takeD in_set_dropD)

lemma map_del_at: "map f (del_at i xs) = del_at i (map f xs)"
  by (simp add: del_at_def take_map drop_map)

lemma sorted_del_at:
  assumes "sorted_wrt r xs"
  shows "sorted_wrt r (del_at i xs)"
proof (cases "i < length xs")
  case True
  then have "xs = take i xs @ xs ! i # drop (Suc i) xs"
    by (rule id_take_nth_drop)
  with assms have "sorted_wrt r (take i xs @ xs ! i # drop (Suc i) xs)"
    by simp
  then show ?thesis
    by (simp add: del_at_def sorted_wrt_append)
qed (use assms in \<open>simp add: del_at_def\<close>)

lemma mset_insert_at [simp]: "mset (insert_at i x xs) = add_mset x (mset xs)"
  by (metis append_take_drop_id insert_at_def mset.simps(2) mset_append union_mset_add_mset_right)

lemma length_insert_at [simp]: "length (insert_at i x xs) = Suc (length xs)"
  by (simp add: insert_at_def)

lemma first_ix_Some:
  "first_ix P xs = Some i \<Longrightarrow> i < length xs \<and> P (xs ! i) \<and> (\<forall>j<i. \<not> P (xs ! j))"
  by (induction xs arbitrary: i) (auto simp: less_Suc_eq_0_disj split: if_splits)

lemma first_ix_None: "first_ix P xs = None \<longleftrightarrow> (\<forall>x\<in>set xs. \<not> P x)"
  by (induction xs) auto

lemma mset_sort_desc [simp]: "mset (sort_desc f xs) = mset xs"
  by (simp add: sort_desc_def)

lemma set_sort_desc [simp]: "set (sort_desc f xs) = set xs"
  by (simp add: sort_desc_def)

lemma length_sort_desc [simp]: "length (sort_desc f xs) = length xs"
  by (simp add: sort_desc_def)

lemma sorted_sort_desc: "sorted_wrt (\<lambda>x y. f y \<le> f x) (sort_desc f xs)"
proof -
  have "sorted (map f (sort_key f (rev xs)))"
    by simp
  then show ?thesis
    by (simp add: sort_desc_def sorted_wrt_rev sorted_wrt_map)
qed

lemma enumerate_eq_zip: "List.enumerate 0 xs = zip [0..<length xs] xs"
  by (simp add: enumerate_eq_zip)

lemma map_fst_enumerate0 [simp]: "map fst (List.enumerate 0 xs) = [0..<length xs]"
  by simp

lemma mset_concat_update:
  "i < length xss \<Longrightarrow> mset (concat (xss[i := ys])) + mset (xss ! i) = mset (concat xss) + mset ys"
proof (induction xss arbitrary: i)
  case (Cons xs xss)
  then show ?case
    by (cases i) (auto simp: ac_simps)
qed simp

lemma mset_concat_append:
  "i < length xss \<Longrightarrow> mset (concat (xss[i := xss ! i @ [x]])) = add_mset x (mset (concat xss))"
  using mset_concat_update[of i xss "xss ! i @ [x]"] by simp

lemma sum_list_mset: "mset xs = mset ys \<Longrightarrow> sum_list xs = (sum_list ys :: 'a::comm_monoid_add)"
  by (metis sum_mset_sum_list)

lemma mset_concat_cong: "mset xss = mset yss \<Longrightarrow> mset (concat xss) = mset (concat yss)"
  unfolding mset_concat by (intro sum_list_mset) (simp add: mset_map)

text \<open>
  \<open>(n + m - 1) // m * m\<close>: the least multiple of \<open>m\<close> that is at least \<open>n\<close>.
\<close>

definition round_up :: "int \<Rightarrow> int \<Rightarrow> int" where
  "round_up m n = (n + m - 1) div m * m"

lemma round_up_bounds: "0 < m \<Longrightarrow> n \<le> round_up m n \<and> round_up m n < n + m"
proof -
  assume m: "0 < m"
  have "(n + m - 1) div m * m = n + m - 1 - (n + m - 1) mod m"
    by (simp add: minus_mod_eq_div_mult)
  moreover have "0 \<le> (n + m - 1) mod m" "(n + m - 1) mod m < m"
    using m by simp_all
  ultimately show ?thesis
    by (simp add: round_up_def)
qed

lemma round_up_dvd: "m dvd round_up m n"
  by (simp add: round_up_def)

section \<open>Strides\<close>

lemma stride_mod:
  assumes "i < (n :: nat)"
  shows "(i \<le> j \<and> (j - i) mod n = 0) \<longleftrightarrow> j mod n = i"
proof
  assume a: "i \<le> j \<and> (j - i) mod n = 0"
  then obtain q where "j - i = n * q" by (auto simp: mod_eq_0_iff_dvd)
  with a have "j = i + n * q" by simp
  with assms show "j mod n = i" by simp
next
  assume "j mod n = i"
  moreover have "(j - j mod n) mod n = 0"
    by (simp add: minus_mod_eq_mult_div)
  moreover have "j mod n \<le> j" by simp
  ultimately show "i \<le> j \<and> (j - i) mod n = 0" by blast
qed

lemma mset_filter_classes:
  "distinct ks \<Longrightarrow>
     mset (concat (map (\<lambda>k. filter (\<lambda>x. f x = k) xs) ks)) = mset (filter (\<lambda>x. f x \<in> set ks) xs)"
proof (induction ks)
  case (Cons k ks)
  have "mset (filter (\<lambda>x. f x \<in> set (k # ks)) xs) =
      mset (filter (\<lambda>x. f x = k) xs) + mset (filter (\<lambda>x. f x \<in> set ks) xs)"
    using Cons.prems by (induction xs) auto
  with Cons show ?case by simp
qed simp

lemma mset_filter_compl: "mset (filter P xs) + mset (filter (\<lambda>x. \<not> P x) xs) = mset xs"
  by (induction xs) auto

lemma stride_eq: "i < n \<Longrightarrow> stride i n xs = pick xs (filter (\<lambda>j. j mod n = i) [0..<length xs])"
  unfolding stride_def by (simp add: stride_mod cong: filter_cong)

lemma mset_strides: "0 < n \<Longrightarrow> mset (concat (map (\<lambda>i. stride i n xs) [0..<n])) = mset xs"
proof -
  assume n: "0 < n"
  let ?c = "concat (map (\<lambda>i. filter (\<lambda>j. j mod n = i) [0..<length xs]) [0..<n])"
  have "map (\<lambda>i. stride i n xs) [0..<n] =
      map (pick xs) (map (\<lambda>i. filter (\<lambda>j. j mod n = i) [0..<length xs]) [0..<n])"
    by (simp add: stride_eq)
  then have "concat (map (\<lambda>i. stride i n xs) [0..<n]) = pick xs ?c"
    by (simp only: pick_concat)
  moreover have "mset ?c = mset [0..<length xs]"
    using n by (subst mset_filter_classes) simp_all
  ultimately show ?thesis
    by (simp only: mset_pick)
qed

lemma set_stride: "set (stride i n xs) \<subseteq> set xs"
  by (auto simp: stride_def pick_def)

lemma filter_mod_length:
  assumes "i < n"
  shows "length (filter (\<lambda>j. j mod n = i) [0..<n * m]) = m"
proof (induction m)
  case (Suc m)
  have "[0..<n * Suc m] = [0..<n * m + n]"
    by (simp add: add.commute)
  then have "[0..<n * Suc m] = [0..<n * m] @ map (\<lambda>j. j + n * m) [0..<n]"
    by (simp only: map_add_upt upt_add_eq_append[OF le0] add.commute[of n])
  moreover have "filter (\<lambda>j. j mod n = i) (map (\<lambda>j. j + n * m) [0..<n]) =
      map (\<lambda>j. j + n * m) (filter (\<lambda>j. j = i) [0..<n])"
    by (auto simp: filter_map comp_def intro!: arg_cong[of _ _ "map _"] filter_cong)
  moreover have "length (filter (\<lambda>j. j = i) [0..<n]) = 1"
    using assms by (induction n) (auto simp: less_Suc_eq filter_empty_conv)
  ultimately show ?case
    using Suc by simp
qed simp

lemma length_stride: "i < n \<Longrightarrow> n dvd length xs \<Longrightarrow> length (stride i n xs) = length xs div n"
proof -
  assume i: "i < n" and "n dvd length xs"
  then obtain m where m: "length xs = n * m" by blast
  then have "length (stride i n xs) = length (filter (\<lambda>j. j mod n = i) [0..<n * m])"
    using i by (simp add: stride_eq)
  then show ?thesis
    using i m by (simp only: filter_mod_length) simp
qed

section \<open>Deleting several positions\<close>

text \<open>
  \<open>for i in sorted(ixs, reverse=True): xs.pop(i)\<close>: the largest position first, so that the
  others keep their meaning.
\<close>

definition pop_all :: "nat list \<Rightarrow> 'a list \<Rightarrow> 'a list" where
  "pop_all ixs xs = foldl (\<lambda>ys i. del_at i ys) xs (rev (sort ixs))"

definition others :: "nat list \<Rightarrow> nat \<Rightarrow> nat list" where
  "others ixs n = filter (\<lambda>i. i \<notin> set ixs) [0..<n]"

lemma del_desc:
  "sorted_wrt (>) ds \<Longrightarrow> \<forall>d\<in>set ds. d < length xs \<Longrightarrow>
     foldl (\<lambda>ys i. del_at i ys) xs ds = pick xs (others ds (length xs))"
proof (induction ds arbitrary: xs)
  case Nil
  then show ?case by (simp add: others_def)
next
  case (Cons d ds)
  then have d: "d < length xs" and less: "\<forall>e\<in>set ds. e < d" by auto
  let ?A = "filter (\<lambda>i. i \<notin> set ds) [0..<d]"
  have keep: "filter (\<lambda>i. i \<notin> set ds) [a..<n] = [a..<n]" if "d \<le> a" for a n
    using that less by (intro filter_True) fastforce
  have IH: "foldl (\<lambda>ys i. del_at i ys) (del_at d xs) ds = pick (del_at d xs) (others ds (length xs - 1))"
  proof -
    have "sorted_wrt (>) ds" "\<forall>e\<in>set ds. e < length (del_at d xs)"
      using Cons.prems(1) d less by (simp, fastforce)
    from Cons.IH[OF this] d show ?thesis by simp
  qed
  have s1: "[0..<length xs - 1] = [0..<d] @ [d..<length xs - 1]"
    using d by (metis Suc_pred' le_add_diff_inverse less_Suc_eq_le not_less_zero upt_add_eq_append zero_le
        One_nat_def gr0I)
  have "others ds (length xs - 1) = ?A @ [d..<length xs - 1]"
    unfolding others_def s1 filter_append by (simp add: keep)
  moreover have "pick (del_at d xs) ?A = pick xs ?A"
    using d by (auto simp: pick_def del_at_def nth_append)
  moreover have "pick (del_at d xs) [d..<length xs - 1] = pick xs [Suc d..<length xs]"
    using d by (intro nth_equalityI) (auto simp: pick_def del_at_def nth_append)
  moreover have "others (d # ds) (length xs) = ?A @ [Suc d..<length xs]"
  proof -
    have s2: "[0..<length xs] = [0..<d] @ d # [Suc d..<length xs]"
      using d upt_add_eq_append[OF le0, of d "length xs - d"] by (simp add: upt_conv_Cons)
    have "filter (\<lambda>i. i \<notin> set (d # ds)) [0..<d] = ?A"
      by (intro filter_cong) auto
    moreover have "filter (\<lambda>i. i \<notin> set (d # ds)) [Suc d..<length xs] = [Suc d..<length xs]"
      using less by (intro filter_True) fastforce
    ultimately show ?thesis
      unfolding others_def s2 filter_append by simp
  qed
  ultimately show ?case
    by (simp add: IH)
qed

lemma pop_all_pick:
  assumes "distinct ixs" and "\<forall>i\<in>set ixs. i < length xs"
  shows "pop_all ixs xs = pick xs (others ixs (length xs))"
proof -
  have "sorted_wrt (<) (sort ixs)"
    using assms(1) by (simp add: strict_sorted_iff)
  then have "sorted_wrt (>) (rev (sort ixs))"
    by (simp add: sorted_wrt_rev)
  moreover have "others (rev (sort ixs)) n = others ixs n" for n
    by (simp add: others_def)
  ultimately show ?thesis
    using assms(2) by (simp add: pop_all_def del_desc)
qed

lemma set_others [simp]: "set (others ixs n) = {..<n} - set ixs"
  by (auto simp: others_def)

lemma others_nil [simp]: "others [] n = [0..<n]"
  by (simp add: others_def)

lemma length_others: "distinct ixs \<Longrightarrow> \<forall>i\<in>set ixs. i < n \<Longrightarrow> length (others ixs n) = n - length ixs"
proof -
  assume a: "distinct ixs" "\<forall>i\<in>set ixs. i < n"
  have "distinct (others ixs n)" by (simp add: others_def)
  then have "length (others ixs n) = card ({..<n} - set ixs)"
    by (metis distinct_card set_others)
  also have "\<dots> = n - length ixs"
    using a by (subst card_Diff_subset) (auto simp: distinct_card)
  finally show ?thesis .
qed

lemma mset_split_others:
  "distinct ixs \<Longrightarrow> \<forall>i\<in>set ixs. i < length xs \<Longrightarrow>
     mset (pick xs ixs) + mset (pick xs (others ixs (length xs))) = mset xs"
proof -
  assume a: "distinct ixs" "\<forall>i\<in>set ixs. i < length xs"
  have "mset ixs = mset (filter (\<lambda>i. i \<in> set ixs) [0..<length xs])"
    using a by (intro set_eq_iff_mset_eq_distinct[THEN iffD1]) auto
  then have "mset (ixs @ others ixs (length xs)) = mset [0..<length xs]"
    unfolding others_def mset_append by (simp only: mset_filter_compl)
  then have "mset (pick xs (ixs @ others ixs (length xs))) = mset xs"
    by (rule mset_pick)
  then show ?thesis by simp
qed

lemma pick_others_filter:
  "pick xs (others (ix_filter P xs) (length xs)) = filter (\<lambda>x. \<not> P x) xs"
proof -
  have "others (ix_filter P xs) (length xs) = ix_filter (\<lambda>x. \<not> P x) xs"
    unfolding others_def ix_filter_def[of "\<lambda>x. \<not> P x"] by (intro filter_cong) auto
  then show ?thesis by (simp add: pick_ix_filter)
qed

section \<open>Numbers in decimal\<close>

text \<open>\<open>str(n)\<close> of a non-negative integer\<close>

fun decimal :: "nat \<Rightarrow> string" where
  "decimal n = (if n < 10 then [char_of (48 + n)] else decimal (n div 10) @ [char_of (48 + n mod 10)])"

declare decimal.simps [simp del]

lemma decimal_digits: "c \<in> set (decimal n) \<Longrightarrow> \<exists>k<10. c = char_of (48 + k :: nat)"
proof (induction n rule: decimal.induct)
  case (1 n)
  show ?case
  proof (cases "n < 10")
    case True
    with 1(2) show ?thesis by (auto simp: decimal.simps[of n])
  next
    case False
    with 1(2) have "c \<in> set (decimal (n div 10)) \<or> c = char_of (48 + n mod 10)"
      by (auto simp: decimal.simps[of n])
    with 1(1) False show ?thesis by (metis mod_less_divisor zero_less_numeral)
  qed
qed

lemma digit_eq: "a < 10 \<Longrightarrow> b < 10 \<Longrightarrow> (char_of (48 + a :: nat) = (char_of (48 + b :: nat) :: char)) = (a = b)"
  by simp

lemma decimal_length: "n < 10 \<longleftrightarrow> length (decimal n) = 1"
proof -
  have "decimal k \<noteq> []" for k by (subst decimal.simps) simp
  then show ?thesis by (subst decimal.simps) auto
qed

lemma decimal_inj: "decimal m = decimal n \<Longrightarrow> m = n"
proof (induction m arbitrary: n rule: decimal.induct)
  case (1 m)
  have s: "m < 10 \<longleftrightarrow> n < 10"
    using 1(2) by (metis decimal_length)
  show ?case
  proof (cases "m < 10")
    case True
    with 1(2) s show ?thesis by (simp add: decimal.simps[of m] decimal.simps[of n])
  next
    case False
    with 1(2) s have "decimal (m div 10) = decimal (n div 10)"
      "(char_of (48 + m mod 10) :: char) = char_of (48 + n mod 10)"
      by (simp_all add: decimal.simps[of m] decimal.simps[of n])
    with 1(1) False have "m div 10 = n div 10" "m mod 10 = n mod 10"
      by (auto simp del: char_of_quasi_inj simp: digit_eq)
    then show ?thesis by (metis mod_mult_div_eq)
  qed
qed

lemma no_g_in_decimal: "CHR ''g'' \<notin> set (decimal n)"
proof
  assume "CHR ''g'' \<in> set (decimal n)"
  then obtain k :: nat where "k < 10" "CHR ''g'' = char_of (48 + k)" using decimal_digits by blast
  then have "of_char (CHR ''g'') = (48 + k) mod 256" by (metis of_char_of)
  with \<open>k < 10\<close> show False by simp
qed

end
