(* ===== verification/Batches.thy ===== *)
theory Batches
  imports Prelude
begin

text \<open>
  The row operations of \<open>BatchedDataDict\<close> (\<open>nemo_rl/distributed/batched_data_dict.py\<close>):
  selection, slicing, chunking, reordering, repetition, truncation, stacking, and the
  microbatch iterators.  A batch is an ordered list of named columns with the packing
  metadata the sharding attaches.  A column is a 1-D tensor, a 2-D tensor with its width, a
  \<open>PackedTensor\<close> (its logical rows, as opaque numbers) or a list of Python objects; tensor
  entries are integers.  Device placement, the multimodal views and the gather over a process
  group are not modelled.
\<close>

section \<open>Columns and batches\<close>

datatype pyval = PInt int | PStr string | PObj nat

datatype column =
    Vector "int list" | Matrix nat "int list list" | Packed "nat list" | Objects "pyval list"

record batch =
  columns :: "(string \<times> column) list"
  micro_batch_indices :: "(nat \<times> nat) list list option"
  micro_batch_lengths :: "int list list option"
  elem_counts_per_gb :: "nat list option"

text \<open>\<open>BatchedDataDict(...)\<close>: the metadata attributes start as \<open>None\<close>.\<close>

definition new_batch :: "(string \<times> column) list \<Rightarrow> batch" where
  "new_batch cs = \<lparr>columns = cs, micro_batch_indices = None, micro_batch_lengths = None,
                   elem_counts_per_gb = None\<rparr>"

fun col_len :: "column \<Rightarrow> nat" where
  "col_len (Vector xs) = length xs"
| "col_len (Matrix w rows) = length rows"
| "col_len (Packed xs) = length xs"
| "col_len (Objects xs) = length xs"

fun is_tensor :: "column \<Rightarrow> bool" where
  "is_tensor (Vector xs) = True"
| "is_tensor (Matrix w rows) = True"
| "is_tensor (Packed xs) = False"
| "is_tensor (Objects xs) = False"

fun take_rows :: "column \<Rightarrow> nat list \<Rightarrow> column" where
  "take_rows (Vector xs) ixs = Vector (pick xs ixs)"
| "take_rows (Matrix w rows) ixs = Matrix w (pick rows ixs)"
| "take_rows (Packed xs) ixs = Packed (pick xs ixs)"
| "take_rows (Objects xs) ixs = Objects (pick xs ixs)"

definition get_col :: "batch \<Rightarrow> string \<Rightarrow> column res" where
  "get_col b k = (case map_of (columns b) k of None \<Rightarrow> Inl KeyError | Some c \<Rightarrow> Inr c)"

text \<open>The set of the columns' sizes must have one element.\<close>

definition common_size :: "batch \<Rightarrow> nat res" where
  "common_size b =
     (case remdups (map (\<lambda>(k, c). col_len c) (columns b)) of
        [n] \<Rightarrow> Inr n | _ \<Rightarrow> Inl AssertionError)"

text \<open>The property \<open>size\<close>: that of the first column.\<close>

definition batch_len :: "batch \<Rightarrow> nat" where
  "batch_len b = (case columns b of [] \<Rightarrow> 0 | (k, c) # _ \<Rightarrow> col_len c)"

definition map_columns :: "(column \<Rightarrow> column) \<Rightarrow> batch \<Rightarrow> (string \<times> column) list" where
  "map_columns f b = map (\<lambda>(k, c). (k, f c)) (columns b)"

section \<open>Selecting, slicing, chunking, reordering\<close>

definition select_indices :: "batch \<Rightarrow> nat list \<Rightarrow> batch res" where
  "select_indices b ixs =
     bindR (mapR (\<lambda>(k, c). bindR (guardR IndexError (\<forall>i\<in>set ixs. i < col_len c))
                              (\<lambda>_. Inr (k, take_rows c ixs))) (columns b))
       (\<lambda>cs. Inr (new_batch cs))"

text \<open>A tensor must reach to \<open>end\<close>, a packed column raises out of range, a list is cut off.\<close>

definition slice_col :: "nat \<Rightarrow> nat \<Rightarrow> column \<Rightarrow> column res" where
  "slice_col start stop c =
     (case c of
        Packed xs \<Rightarrow> bindR (guardR IndexError (\<forall>i\<in>set [start..<stop]. i < length xs))
                      (\<lambda>_. Inr (take_rows c [start..<stop]))
      | Objects xs \<Rightarrow> Inr (Objects (slice start stop xs))
      | _ \<Rightarrow> bindR (assertR (stop \<le> col_len c)) (\<lambda>_. Inr (take_rows c [start..<stop])))"

definition slice_batch :: "batch \<Rightarrow> nat \<Rightarrow> nat \<Rightarrow> batch res" where
  "slice_batch b start stop =
     bindR (mapR (\<lambda>(k, c). bindR (slice_col start stop c) (\<lambda>d. Inr (k, d))) (columns b))
       (\<lambda>cs. Inr (new_batch cs))"

text \<open>
  \<open>torch.arange(B).tensor_split(chunks)[rank]\<close> for \<open>chunks\<close> dividing \<open>B\<close>; the list of splits
  raises when \<open>rank\<close> is not below \<open>chunks\<close>.
\<close>

definition chunk :: "batch \<Rightarrow> nat \<Rightarrow> nat \<Rightarrow> batch res" where
  "chunk b rank chunks =
     bindR (common_size b) (\<lambda>B.
     bindR (guardR ZeroDivisionError (chunks \<noteq> 0)) (\<lambda>_.
     bindR (assertR (B mod chunks = 0)) (\<lambda>_.
     bindR (assertR (B div chunks > rank)) (\<lambda>_.
     bindR (guardR IndexError (rank < chunks)) (\<lambda>_.
       let n = B div chunks
       in Inr (new_batch (map_columns (\<lambda>c. take_rows c [rank * n..<(rank + 1) * n]) b)))))))"

definition reorder_data :: "batch \<Rightarrow> nat list \<Rightarrow> batch res" where
  "reorder_data b reordered =
     bindR (common_size b) (\<lambda>n.
       let ixs = map snd (sort_key fst (zip reordered [0..<n]))
       in Inr (b\<lparr>columns := map_columns (\<lambda>c. take_rows c ixs) b\<rparr>))"

definition get_batch :: "batch \<Rightarrow> nat \<Rightarrow> nat \<Rightarrow> batch res" where
  "get_batch b batch_idx batch_size =
     (let attach = (\<lambda>s. case (micro_batch_indices b, micro_batch_lengths b) of
            (Some mi, Some ml) \<Rightarrow>
              bindR (guardR IndexError (batch_idx < length mi \<and> batch_idx < length ml)) (\<lambda>_.
                Inr (s\<lparr>micro_batch_indices := Some [mi ! batch_idx],
                       micro_batch_lengths := Some [ml ! batch_idx]\<rparr>))
          | (None, _) \<Rightarrow> Inr s
          | (Some _, None) \<Rightarrow> Inl TypeError)
      in case elem_counts_per_gb b of
           Some cnt \<Rightarrow>
             bindR (assertR (micro_batch_indices b \<noteq> None)) (\<lambda>_.
             bindR (guardR IndexError (batch_idx < length cnt)) (\<lambda>_.
             bindR (slice_batch b (sum_list (take batch_idx cnt)) (sum_list (take (batch_idx + 1) cnt))) (\<lambda>s.
             bindR (attach s) (\<lambda>s'. Inr (s'\<lparr>elem_counts_per_gb := Some [cnt ! batch_idx]\<rparr>)))))
         | None \<Rightarrow>
             bindR (slice_batch b (batch_size * batch_idx) (batch_size * (batch_idx + 1))) attach)"

section \<open>Repeating and truncating\<close>

definition interleave :: "nat \<Rightarrow> 'a list \<Rightarrow> 'a list" where
  "interleave n xs = concat (map (replicate n) xs)"

fun repeat_col :: "nat \<Rightarrow> column \<Rightarrow> column res" where
  "repeat_col n (Vector xs) = Inr (Vector (interleave n xs))"
| "repeat_col n (Matrix w rows) = Inr (Matrix w (interleave n rows))"
| "repeat_col n (Packed xs) = Inl NotImplementedError"
| "repeat_col n (Objects xs) = Inr (Objects (interleave n xs))"

definition repeat_interleave :: "batch \<Rightarrow> nat \<Rightarrow> batch res" where
  "repeat_interleave b n =
     bindR (mapR (\<lambda>(k, c). bindR (repeat_col n c) (\<lambda>d. Inr (k, d))) (columns b))
       (\<lambda>cs. Inr (new_batch cs))"

text \<open>\<open>torch.narrow\<close> raises when the length exceeds the dimension.\<close>

fun truncate_col :: "nat \<Rightarrow> nat \<Rightarrow> column \<Rightarrow> column res" where
  "truncate_col dim n (Vector xs) =
     (if dim = 0 then bindR (guardR RuntimeError (n \<le> length xs)) (\<lambda>_. Inr (Vector (take n xs)))
      else Inr (Vector xs))"
| "truncate_col dim n (Matrix w rows) =
     (if dim = 0 then bindR (guardR RuntimeError (n \<le> length rows)) (\<lambda>_. Inr (Matrix w (take n rows)))
      else if dim = 1 then bindR (guardR RuntimeError (n \<le> w)) (\<lambda>_. Inr (Matrix n (map (take n) rows)))
      else Inr (Matrix w rows))"
| "truncate_col dim n (Packed xs) = Inr (Packed xs)"
| "truncate_col dim n (Objects xs) = Inr (Objects xs)"

definition truncate_tensors :: "batch \<Rightarrow> nat \<Rightarrow> nat \<Rightarrow> batch res" where
  "truncate_tensors b dim n =
     bindR (mapR (\<lambda>(k, c). bindR (truncate_col dim n c) (\<lambda>d. Inr (k, d))) (columns b))
       (\<lambda>cs. Inr (b\<lparr>columns := cs\<rparr>))"

section \<open>Stacking batches\<close>

text \<open>The rows of a tensor, each flattened.\<close>

fun flat_rows :: "column \<Rightarrow> int list list" where
  "flat_rows (Vector xs) = map (\<lambda>x. [x]) xs"
| "flat_rows (Matrix w rows) = rows"
| "flat_rows _ = []"

definition pad_right :: "int \<Rightarrow> nat \<Rightarrow> int list \<Rightarrow> int list" where
  "pad_right v w xs = xs @ replicate (w - length xs) v"

text \<open>\<open>pad_sequence\<close> refuses an empty list of rows.\<close>

definition pad_sequence :: "int \<Rightarrow> int list list \<Rightarrow> column res" where
  "pad_sequence v rows =
     (if rows = [] then Inl RuntimeError
      else let w = Max (set (map length rows)) in Inr (Matrix w (map (pad_right v w) rows)))"

text \<open>
  The columns of one key.  A key whose columns mix tensors with lists or packed columns is
  rejected with a \<open>TypeError\<close>, whatever the exception the source raises.
\<close>

fun vector_of :: "column \<Rightarrow> int list option" where
  "vector_of (Vector xs) = Some xs"
| "vector_of _ = None"

fun packed_of :: "column \<Rightarrow> nat list option" where
  "packed_of (Packed xs) = Some xs"
| "packed_of _ = None"

fun objects_of :: "column \<Rightarrow> pyval list option" where
  "objects_of (Objects xs) = Some xs"
| "objects_of _ = None"

definition stack_columns :: "int \<Rightarrow> column list \<Rightarrow> column res" where
  "stack_columns v cols =
     (if list_all (\<lambda>c. objects_of c \<noteq> None) cols
        then Inr (Objects (concat (map (the \<circ> objects_of) cols)))
      else if list_all (\<lambda>c. packed_of c \<noteq> None) cols
        then Inr (Packed (concat (map (the \<circ> packed_of) cols)))
      else if list_all (\<lambda>c. vector_of c \<noteq> None) cols
        then Inr (Vector (concat (map (the \<circ> vector_of) cols)))
      else if list_all is_tensor cols then pad_sequence v (concat (map flat_rows cols))
      else Inl TypeError)"

definition from_batches :: "(string \<rightharpoonup> int) \<Rightarrow> batch list \<Rightarrow> batch res" where
  "from_batches pad bs =
     (let keys = sort (remdups (concat (map (map fst \<circ> columns) bs)))
      in bindR (mapR (\<lambda>k.
           bindR (guardR KeyError
               (\<not> list_ex (\<lambda>b. map_of (columns b) k = None \<and> batch_len b \<noteq> 0) bs)) (\<lambda>_.
           bindR (stack_columns (case pad k of None \<Rightarrow> 0 | Some v \<Rightarrow> v)
               (List.map_filter (\<lambda>b. map_of (columns b) k) bs)) (\<lambda>c. Inr (k, c)))) keys)
         (\<lambda>cs. Inr (new_batch cs)))"

section \<open>Microbatch iterators\<close>

definition microbatches :: "batch \<Rightarrow> (int \<times> (nat \<times> nat)) list res" where
  "microbatches b =
     (case (micro_batch_indices b, micro_batch_lengths b) of
        (Some [ixs], Some (lens # _)) \<Rightarrow> Inr (zip lens ixs)
      | (Some [ixs], Some []) \<Rightarrow> Inl IndexError
      | _ \<Rightarrow> Inl AssertionError)"

definition make_microbatch_iterator_with_dynamic_shapes :: "batch \<Rightarrow> nat \<Rightarrow> batch list res" where
  "make_microbatch_iterator_with_dynamic_shapes b dim =
     bindR (microbatches b)
       (mapR (\<lambda>(seqlen, start, stop).
          bindR (slice_batch b start stop) (\<lambda>mb. truncate_tensors mb dim (nat seqlen))))"

definition make_microbatch_iterator_for_packable_sequences :: "batch \<Rightarrow> batch list res" where
  "make_microbatch_iterator_for_packable_sequences b =
     bindR (microbatches b) (mapR (\<lambda>(seqlen, start, stop). slice_batch b start stop))"

definition make_microbatch_iterator :: "batch \<Rightarrow> nat \<Rightarrow> batch list res" where
  "make_microbatch_iterator b m =
     bindR (guardR ZeroDivisionError (m \<noteq> 0)) (\<lambda>_.
     bindR (assertR (batch_len b mod m = 0)) (\<lambda>_.
       mapR (\<lambda>i. slice_batch b (i * m) (i * m + m)) [0..<batch_len b div m]))"

section \<open>Rows\<close>

lemma col_len_take_rows [simp]: "col_len (take_rows c ixs) = length ixs"
  by (cases c) simp_all

lemma take_rows_all [simp]: "take_rows c [0..<col_len c] = c"
  by (cases c) simp_all

lemma take_rows_take_rows [simp]:
  "\<forall>j\<in>set jxs. j < length ixs \<Longrightarrow> take_rows (take_rows c ixs) jxs = take_rows c (pick ixs jxs)"
  by (cases c) (auto simp: pick_def)

text \<open>
  A well-formed batch: distinct keys, at least one column, every column has \<open>n\<close> rows, and
  the rows of a 2-D tensor have its width.
\<close>

fun col_wf :: "column \<Rightarrow> bool" where
  "col_wf (Matrix w rows) = (\<forall>r\<in>set rows. length r = w)"
| "col_wf _ = True"

definition batch_wf :: "batch \<Rightarrow> nat \<Rightarrow> bool" where
  "batch_wf b n \<longleftrightarrow> columns b \<noteq> [] \<and> distinct (map fst (columns b)) \<and>
     (\<forall>(k, c)\<in>set (columns b). col_len c = n \<and> col_wf c)"

lemma common_size_Inr:
  "common_size b = Inr n \<longleftrightarrow> columns b \<noteq> [] \<and> (\<forall>(k, c)\<in>set (columns b). col_len c = n)"
proof -
  have "common_size b = Inr n \<longleftrightarrow> remdups (map (\<lambda>(k, c). col_len c) (columns b)) = [n]"
    by (auto simp: common_size_def split: list.splits)
  then show ?thesis
    by (auto simp: remdups_single)
qed

lemma batch_wf_size: "batch_wf b n \<Longrightarrow> common_size b = Inr n"
  by (auto simp: batch_wf_def common_size_Inr)

lemma batch_wf_len: "batch_wf b n \<Longrightarrow> batch_len b = n"
  by (auto simp: batch_wf_def batch_len_def split: list.splits)

lemma columns_new_batch [simp]: "columns (new_batch cs) = cs"
  by (simp add: new_batch_def)

lemma map_columns_simps [simp]:
  "map fst (map_columns f b) = map fst (columns b)"
  "map_columns f (new_batch (map_columns g b)) = map_columns (f \<circ> g) b"
  by (auto simp: map_columns_def)

lemma map_of_map_columns: "map_of (map_columns f b) k = map_option f (map_of (columns b) k)"
  by (simp add: map_columns_def map_of_map)

lemma map_columns_cong:
  "(\<And>k c. (k, c) \<in> set (columns b) \<Longrightarrow> f c = g c) \<Longrightarrow> map_columns f b = map_columns g b"
  by (auto simp: map_columns_def)

text \<open>A row operation that succeeds on every column maps the columns.\<close>

lemma mapR_columns:
  "(\<And>k c. (k, c) \<in> set cs \<Longrightarrow> f c = Inr (g c)) \<Longrightarrow>
     mapR (\<lambda>(k, c). bindR (f c) (\<lambda>d. Inr (k, d))) cs = Inr (map (\<lambda>(k, c). (k, g c)) cs)"
  by (rule mapR_total[of cs _ "\<lambda>(k, c). (k, g c)"]) auto

lemma select_indices_ok:
  "\<forall>(k, c)\<in>set (columns b). col_len c = n \<Longrightarrow> \<forall>i\<in>set ixs. i < n \<Longrightarrow>
     select_indices b ixs = Inr (new_batch (map_columns (\<lambda>c. take_rows c ixs) b))"
  unfolding select_indices_def map_columns_def
  by (subst mapR_total[where g = "\<lambda>(k, c). (k, take_rows c ixs)"]) auto

lemma slice_col_ok:
  "col_len c = n \<Longrightarrow> b \<le> n \<Longrightarrow> slice_col a b c = Inr (take_rows c [a..<b])"
  by (cases c) (auto simp: slice_col_def pick_slice)

lemma slice_batch_ok:
  "\<forall>(k, c)\<in>set (columns b). col_len c = n \<Longrightarrow> e \<le> n \<Longrightarrow>
     slice_batch b a e = Inr (new_batch (map_columns (\<lambda>c. take_rows c [a..<e]) b))"
  unfolding slice_batch_def map_columns_def
  by (subst mapR_columns[where g = "\<lambda>c. take_rows c [a..<e]"]) (auto simp: slice_col_ok)

lemma col_wf_take_rows: "col_wf c \<Longrightarrow> \<forall>i\<in>set ixs. i < col_len c \<Longrightarrow> col_wf (take_rows c ixs)"
  by (cases c) (auto simp: pick_def)

lemma batch_wf_take_rows:
  "batch_wf b n \<Longrightarrow> \<forall>i\<in>set ixs. i < n \<Longrightarrow>
     batch_wf (new_batch (map_columns (\<lambda>c. take_rows c ixs) b)) (length ixs)"
  by (fastforce simp: batch_wf_def map_columns_def col_wf_take_rows comp_def split_def)

section \<open>Reordering inverts a permutation\<close>

text \<open>
  \<open>reorder_data\<close> sorts the rows by the index given for each: a batch whose row \<open>j\<close> is row
  \<open>ixs[j]\<close> of the original comes back in the original order.
\<close>

lemma sort_key_zip_perm:
  assumes "mset ixs = mset [0..<n]"
  shows "pick ixs (map snd (sort_key fst (zip ixs [0..<n]))) = [0..<n]"
proof -
  have len: "length ixs = n"
    using assms by (metis diff_zero length_upt size_mset)
  let ?ps = "sort_key fst (zip ixs [0..<n])"
  have "\<forall>(a, j)\<in>set ?ps. ixs ! j = a"
    using len by (auto simp: set_zip)
  then have "pick ixs (map snd ?ps) = map fst ?ps"
    by (auto simp: pick_def)
  moreover have "map fst ?ps = sort ixs"
  proof (rule properties_for_sort[symmetric])
    show "mset (map fst ?ps) = mset ixs"
      using len by (metis map_fst_zip length_upt minus_nat.diff_0 mset_map mset_sort)
  qed simp
  moreover have "sort ixs = [0..<n]"
    using assms by (intro properties_for_sort) auto
  ultimately show ?thesis by simp
qed

lemma map_columns_all: "batch_wf b n \<Longrightarrow> map_columns (\<lambda>c. take_rows c [0..<n]) b = columns b"
  unfolding map_columns_def by (rule map_idI) (auto simp: batch_wf_def)

lemma reorder_take_rows:
  assumes wf: "batch_wf b n" and perm: "mset ixs = mset [0..<n]"
    and r: "columns r = map_columns (\<lambda>c. take_rows c ixs) b"
  shows "\<exists>r'. reorder_data r ixs = Inr r' \<and> columns r' = columns b"
proof -
  have len: "length ixs = n"
    using perm by (metis diff_zero length_upt size_mset)
  let ?jxs = "map snd (sort_key fst (zip ixs [0..<n]))"
  have size: "common_size r = Inr n"
    using wf len by (auto simp: common_size_Inr r map_columns_def batch_wf_def)
  have "\<forall>j\<in>set ?jxs. j < length ixs"
    using len by (auto dest: set_zip_rightD)
  then have "take_rows (take_rows c ixs) ?jxs = take_rows c [0..<n]" for c
    using sort_key_zip_perm[OF perm] by simp
  then have "map_columns (\<lambda>c. take_rows c ?jxs) r = map_columns (\<lambda>c. take_rows c [0..<n]) b"
    by (auto simp: map_columns_def r)
  also have "\<dots> = columns b"
    by (rule map_columns_all[OF wf])
  finally show ?thesis
    using size by (simp add: reorder_data_def Let_def del: map_map)
qed

section \<open>Stacking selections\<close>

text \<open>
  Stacking selections of one batch is the selection of all their rows, with the keys sorted.
\<close>

definition sort_columns :: "batch \<Rightarrow> batch" where
  "sort_columns b =
     new_batch (map (\<lambda>k. (k, the (map_of (columns b) k))) (sort (map fst (columns b))))"

abbreviation rows_of :: "batch \<Rightarrow> nat list \<Rightarrow> batch" where
  "rows_of b ixs \<equiv> new_batch (map_columns (\<lambda>c. take_rows c ixs) b)"

lemma set_sort_columns: "distinct (map fst (columns b)) \<Longrightarrow> set (columns (sort_columns b)) = set (columns b)"
  by (auto simp: sort_columns_def image_iff) (force simp: image_iff)+

lemma get_col_rows_of: "get_col (rows_of b ixs) k = bindR (get_col b k) (\<lambda>c. Inr (take_rows c ixs))"
  by (simp add: get_col_def map_of_map_columns split: option.splits)

lemma map_of_sort_columns: "map_of (columns (sort_columns b)) k = map_of (columns b) k"
proof -
  have "map_of (map (\<lambda>k. (k, the (m k))) ks) k = (if k \<in> set ks then Some (the (m k)) else None)"
    for m :: "string \<Rightarrow> column option" and ks
    by (induction ks) auto
  then show ?thesis
    by (auto simp: sort_columns_def map_of_eq_None_iff dom_map_of_conv_image_fst[symmetric] domIff
        simp flip: map_of_eq_None_iff)
qed

lemma get_col_sort_columns [simp]: "get_col (sort_columns b) k = get_col b k"
  by (simp add: get_col_def map_of_sort_columns)

lemma batch_wf_sort_columns: "batch_wf b n \<Longrightarrow> batch_wf (sort_columns b) n"
proof -
  assume wf: "batch_wf b n"
  then have "columns (sort_columns b) \<noteq> []"
    using set_sort_columns[of b] by (auto simp: batch_wf_def)
  moreover have "distinct (map fst (columns (sort_columns b)))"
    using wf by (simp add: sort_columns_def batch_wf_def comp_def)
  ultimately show ?thesis
    using wf by (simp add: batch_wf_def set_sort_columns)
qed

lemma pad_sequence_equal:
  "rows \<noteq> [] \<Longrightarrow> \<forall>r\<in>set rows. length r = w \<Longrightarrow> pad_sequence v rows = Inr (Matrix w rows)"
proof -
  assume ne: "rows \<noteq> []" and len: "\<forall>r\<in>set rows. length r = w"
  then have "length ` set rows = {w}"
    by (cases rows) auto
  moreover have "map (pad_right v w) rows = rows"
    using len by (intro map_idI) (simp add: pad_right_def)
  ultimately show ?thesis
    using ne by (simp add: pad_sequence_def)
qed

lemma stack_take_rows:
  assumes "ixss \<noteq> []" and "concat ixss \<noteq> []" and "col_wf c"
    and "\<forall>i\<in>set (concat ixss). i < col_len c"
  shows "stack_columns v (map (take_rows c) ixss) = Inr (take_rows c (concat ixss))"
proof (cases c)
  case (Matrix w rows)
  have "concat (map flat_rows (map (take_rows c) ixss)) = pick rows (concat ixss)"
    by (simp add: Matrix pick_concat comp_def)
  moreover have "\<forall>r\<in>set (pick rows (concat ixss)). length r = w"
    using assms(3,4) by (auto simp: Matrix pick_def)
  ultimately have "pad_sequence v (concat (map flat_rows (map (take_rows c) ixss))) =
      Inr (Matrix w (pick rows (concat ixss)))"
    using assms(2) by (simp only:) (rule pad_sequence_equal; simp only: pick_eq_nil not_False_eq_True)
  moreover obtain ixs ixss' where "ixss = ixs # ixss'"
    using assms(1) by (cases ixss) auto
  ultimately show ?thesis
    by (simp add: Matrix stack_columns_def list_all_iff)
qed (use assms(1) in \<open>cases ixss; auto simp: stack_columns_def list_all_iff pick_concat comp_def\<close>)+

lemma from_batches_rows:
  assumes wf: "batch_wf b n" and ne: "ixss \<noteq> []" "concat ixss \<noteq> []"
    and ix: "\<forall>i\<in>set (concat ixss). i < n"
  shows "from_batches pad (map (rows_of b) ixss) = Inr (rows_of (sort_columns b) (concat ixss))"
proof -
  let ?bs = "map (rows_of b) ixss" and ?ks = "map fst (columns b)"
  have keys: "sort (remdups (concat (map (map fst \<circ> columns) ?bs))) = sort ?ks"
  proof -
    have "set (concat (map (map fst \<circ> columns) ?bs)) = set ?ks"
      using ne(1) by (cases ixss) (auto simp: comp_def)
    moreover have "sort ?ks = sort (remdups ?ks)"
      using wf by (simp add: batch_wf_def distinct_remdups_id)
    ultimately show ?thesis
      by (simp only: sorted_list_of_set_sort_remdups[symmetric])
  qed
  have key: "bindR (guardR KeyError
        (\<not> list_ex (\<lambda>b. map_of (columns b) k = None \<and> batch_len b \<noteq> 0) ?bs)) (\<lambda>_.
      bindR (stack_columns (case pad k of None \<Rightarrow> 0 | Some v \<Rightarrow> v)
        (List.map_filter (\<lambda>b. map_of (columns b) k) ?bs)) (\<lambda>c. Inr (k, c)))
      = Inr (k, take_rows (the (map_of (columns b) k)) (concat ixss))"
    if k: "k \<in> set (sort ?ks)" for k
  proof -
    from k have "k \<in> fst ` set (columns b)" by simp
    then obtain c where c: "map_of (columns b) k = Some c"
      by (metis map_of_eq_None_iff not_None_eq)
    then have "(k, c) \<in> set (columns b)" by (rule map_of_SomeD)
    with wf have cl: "col_len c = n" "col_wf c" by (auto simp: batch_wf_def)
    have "List.map_filter (\<lambda>b. map_of (columns b) k) ?bs = map (take_rows c) ixss"
      by (induction ixss) (simp_all add: map_of_map_columns c List.map_filter_def)
    with cl ix ne show ?thesis
      by (simp add: stack_take_rows list_ex_iff map_of_map_columns c)
  qed
  show ?thesis
    unfolding from_batches_def Let_def keys
    by (subst mapR_total[OF key]) (simp_all add: sort_columns_def map_columns_def comp_def)
qed

section \<open>Microbatches\<close>

lemma mapR_rows:
  assumes "\<forall>(k, c)\<in>set (columns b). col_len c = n" and "\<forall>(l, s, e)\<in>set xs. e \<le> n"
  shows "mapR (\<lambda>(l, s, e). slice_batch b s e) xs = Inr (map (\<lambda>(l, s, e). rows_of b [s..<e]) xs)"
  using assms slice_batch_ok[OF assms(1)] by (intro mapR_total) auto

end
