(* ===== verification/Packing.thy ===== *)
theory Packing
  imports Prelude
begin

text \<open>
  Sequence packing (\<open>nemo_rl/data/packing/algorithms.py\<close>): the packers' constructor and
  validation, the bin-count adjustment, the concatenative, first-fit and modified
  first-fit-decreasing packers, the driver \<open>pack\<close> and the factory \<open>get_packer\<close>.
  Sequence lengths and the capacity are Python integers (\<open>int\<close>), a bin is a list of indices
  into the lengths.  The packers share the contract \<open>packer_impl\<close>: what they return is a
  partition of the indices into non-empty bins.  The metrics collection of \<open>pack\<close> does not
  influence the bins and is not modelled.
\<close>

section \<open>State and validation\<close>

datatype packing_algorithm =
    CONCATENATIVE | FIRST_FIT_DECREASING | FIRST_FIT_SHUFFLE | MODIFIED_FIRST_FIT_DECREASING

record packer =
  bin_capacity :: int
  min_bin_count :: "int option"
  bin_count_multiple :: "int option"

definition packer_init :: "int \<Rightarrow> int option \<Rightarrow> int option \<Rightarrow> packer res" where
  "packer_init cap mn mlt =
     (if (case mn of None \<Rightarrow> False | Some m \<Rightarrow> m < 0) then Inl ValueError
      else if (case mlt of None \<Rightarrow> False | Some k \<Rightarrow> k < 1) then Inl ValueError
      else Inr \<lparr>bin_capacity = cap, min_bin_count = mn, bin_count_multiple = mlt\<rparr>)"

text \<open>The loop over the lengths raises at the first one that exceeds the capacity.\<close>

fun validate_sequence_lengths :: "int \<Rightarrow> int list \<Rightarrow> unit res" where
  "validate_sequence_lengths cap [] = Inr ()"
| "validate_sequence_lengths cap (l # ls) =
     (if l > cap then Inl ValueError else validate_sequence_lengths cap ls)"

section \<open>Adjusting the number of bins\<close>

definition target_bin_count :: "packer \<Rightarrow> int \<Rightarrow> int" where
  "target_bin_count p cur =
     (let t = (case min_bin_count p of None \<Rightarrow> cur | Some m \<Rightarrow> max cur m)
      in case bin_count_multiple p of
           None \<Rightarrow> t
         | Some k \<Rightarrow> (let r = t mod k in if r \<noteq> 0 then t + (k - r) else t))"

text \<open>
  \<open>source_bin_idx\<close> only moves forward, so the suffix of \<open>bin_sizes\<close> still to be looked at
  stands for it.  The inner \<open>while\<close> skips sources that hold a single sequence.
\<close>

fun advance_source :: "nat list list \<Rightarrow> (nat \<times> nat) list \<Rightarrow> (nat \<times> nat) list" where
  "advance_source adj [] = []"
| "advance_source adj ((sz, i) # srcs) =
     (if 1 < length (adj ! i) then (sz, i) # srcs else advance_source adj srcs)"

fun redistribute :: "nat list \<Rightarrow> (nat \<times> nat) list \<Rightarrow> nat list list \<Rightarrow> nat list list res" where
  "redistribute [] srcs adj = Inr adj"
| "redistribute (nb # nbs) srcs adj =
     (case advance_source adj srcs of
        [] \<Rightarrow> Inl ValueError
      | (sz, ob) # rest \<Rightarrow>
          (let moved = last (adj ! ob);
               adj1 = adj[ob := butlast (adj ! ob)]
           in redistribute nbs ((sz, ob) # rest) (adj1[nb := adj1 ! nb @ [moved]])))"

definition adjust_bin_count :: "packer \<Rightarrow> nat list list \<Rightarrow> nat list list res" where
  "adjust_bin_count p bins =
     (let cur = length bins; target = target_bin_count p (int cur)
      in if target = int cur then Inr bins
         else if int (sum_list (map length bins)) < target then Inl ValueError
         else
           (let extra = nat (target - int cur);
                adj = bins @ replicate extra [];
                bin_sizes = rev (sort (map (\<lambda>(i, b). (length b, i)) (List.enumerate 0 bins)))
            in redistribute [cur..<cur + extra] bin_sizes adj))"

section \<open>The concatenative packer\<close>

text \<open>\<open>lim\<close> is the class variable \<open>max_sequences_per_bin\<close>, -1 in the source.\<close>

fun concat_loop ::
  "int \<Rightarrow> int \<Rightarrow> (nat \<times> int) list \<Rightarrow> nat list list \<Rightarrow> nat list \<Rightarrow> int \<Rightarrow> nat list list" where
  "concat_loop cap lim [] bins cur cur_len = (if cur \<noteq> [] then bins @ [cur] else bins)"
| "concat_loop cap lim ((i, l) # rest) bins cur cur_len =
     (let exceeds_capacity = cur_len + l > cap;
          exceeds_sequence_limit = (lim \<noteq> -1 \<and> int (length cur) \<ge> lim)
      in if exceeds_capacity \<or> exceeds_sequence_limit
         then concat_loop cap lim rest (if cur \<noteq> [] then bins @ [cur] else bins) [i] l
         else concat_loop cap lim rest bins (cur @ [i]) (cur_len + l))"

definition concatenative_pack :: "int \<Rightarrow> packer \<Rightarrow> int list \<Rightarrow> nat list list res" where
  "concatenative_pack lim p ls =
     (case validate_sequence_lengths (bin_capacity p) ls of
        Inl e \<Rightarrow> Inl e
      | Inr _ \<Rightarrow> Inr (concat_loop (bin_capacity p) lim (List.enumerate 0 ls) [] [] 0))"

section \<open>The first-fit packers\<close>

fun ff_loop :: "int \<Rightarrow> (int \<times> nat) list \<Rightarrow> nat list list \<Rightarrow> int list \<Rightarrow> nat list list res" where
  "ff_loop cap [] bins remaining = Inr bins"
| "ff_loop cap ((l, idx) # rest) bins remaining =
     (if l > cap then Inl ValueError
      else case first_ix (\<lambda>r. r \<ge> l) remaining of
             Some i \<Rightarrow> ff_loop cap rest (bins[i := bins ! i @ [idx]]) (remaining[i := remaining ! i - l])
           | None \<Rightarrow> ff_loop cap rest (bins @ [[idx]]) (remaining @ [cap - l]))"

definition first_fit_pack ::
  "(int list \<Rightarrow> (int \<times> nat) list) \<Rightarrow> packer \<Rightarrow> int list \<Rightarrow> nat list list res" where
  "first_fit_pack prepare p ls = ff_loop (bin_capacity p) (prepare ls) [] []"

definition indexed_lengths :: "int list \<Rightarrow> (int \<times> nat) list" where
  "indexed_lengths ls = map (\<lambda>(i, l). (l, i)) (List.enumerate 0 ls)"

definition ffd_prepare :: "int list \<Rightarrow> (int \<times> nat) list" where
  "ffd_prepare ls = rev (sort (indexed_lengths ls))"

text \<open>
  \<open>random.shuffle\<close>: for \<open>i\<close> from the last index down to 1, swap positions \<open>i\<close> and
  \<open>randbelow(i + 1)\<close>.  The generator is the function \<open>draw\<close>.
\<close>

fun shuffle_from :: "(nat \<Rightarrow> nat) \<Rightarrow> nat \<Rightarrow> 'a list \<Rightarrow> 'a list" where
  "shuffle_from draw 0 xs = xs"
| "shuffle_from draw (Suc i) xs =
     (let j = draw (Suc i) mod (Suc i + 1)
      in shuffle_from draw i (xs[Suc i := xs ! j, j := xs ! Suc i]))"

definition ffs_prepare :: "(nat \<Rightarrow> nat) \<Rightarrow> int list \<Rightarrow> (int \<times> nat) list" where
  "ffs_prepare draw ls =
     (let xs = indexed_lengths ls in shuffle_from draw (length xs - 1) xs)"

section \<open>The modified first-fit-decreasing packer\<close>

type_synonym item = "nat \<times> int"

text \<open>
  \<open>size > capacity / 2\<close> compares an integer with a quotient; multiplying out keeps it exact.
\<close>

fun classify_items :: "int \<Rightarrow> item list \<Rightarrow> item list \<times> item list \<times> item list \<times> item list" where
  "classify_items cap [] = ([], [], [], [])"
| "classify_items cap ((i, s) # rest) =
     (case classify_items cap rest of
        (large, medium, small, tiny) \<Rightarrow>
          (if 2 * s > cap then ((i, s) # large, medium, small, tiny)
           else if 3 * s > cap then (large, (i, s) # medium, small, tiny)
           else if 6 * s > cap then (large, medium, (i, s) # small, tiny)
           else (large, medium, small, (i, s) # tiny)))"

definition item_sum :: "item list \<Rightarrow> int" where
  "item_sum b = sum_list (map snd b)"

text \<open>Phase 2: one medium item, the first that fits, to each large bin in order.\<close>

fun mffd_phase2 :: "int \<Rightarrow> item list list \<Rightarrow> item list \<Rightarrow> item list list \<times> item list" where
  "mffd_phase2 cap [] medium = ([], medium)"
| "mffd_phase2 cap (b # bs) medium =
     (case first_ix (\<lambda>x. snd x \<le> cap - item_sum b) medium of
        None \<Rightarrow> (let (bs', m') = mffd_phase2 cap bs medium in (b # bs', m'))
      | Some i \<Rightarrow>
          (let (bs', m') = mffd_phase2 cap bs (del_at i medium)
           in ((b @ [medium ! i]) # bs', m')))"

text \<open>
  Phase 3 runs over the bins in reverse, so the list given here is the reversed bin list.
  \<open>first_small\<close> is popped before the search for its partner; when no partner is found the
  source drops it.
\<close>

definition last_fit :: "int \<Rightarrow> item list \<Rightarrow> nat option" where
  "last_fit r xs = map_option (\<lambda>j. length xs - 1 - j) (first_ix (\<lambda>x. snd x \<le> r) (rev xs))"

fun mffd_phase3 :: "int \<Rightarrow> item list list \<Rightarrow> item list \<Rightarrow> item list list \<times> item list" where
  "mffd_phase3 cap [] small = ([], small)"
| "mffd_phase3 cap (b # bs) small =
     (let has_medium = list_ex (\<lambda>x. cap < 3 * snd x \<and> 2 * snd x \<le> cap) b;
          remaining = cap - item_sum b
      in if has_medium \<or> length small < 2 \<or> snd (small ! 0) + snd (small ! 1) > remaining
         then (let (bs', s') = mffd_phase3 cap bs small in (b # bs', s'))
         else
           (let first_small = small ! 0; small1 = drop 1 small
            in case last_fit (remaining - snd first_small) small1 of
                 None \<Rightarrow> (let (bs', s') = mffd_phase3 cap bs small1 in (b # bs', s'))
               | Some j \<Rightarrow>
                   (let (bs', s') = mffd_phase3 cap bs (del_at j small1)
                    in ((b @ [first_small, small1 ! j]) # bs', s'))))"

text \<open>Phase 4: fill one bin greedily from the remaining items (sorted by decreasing size).\<close>

function fill_bin :: "int \<Rightarrow> item list \<Rightarrow> item list \<Rightarrow> item list \<times> item list" where
  "fill_bin cap b items =
     (if items = [] then (b, items)
      else
        (let rem = cap - item_sum b
         in if rem < snd (last items) then (b, items)
            else case first_ix (\<lambda>x. snd x \<le> rem) items of
                   None \<Rightarrow> (b, items)
                 | Some i \<Rightarrow> fill_bin cap (b @ [items ! i]) (del_at i items)))"
  by pat_completeness auto
termination
  by (relation "measure (\<lambda>(_, _, items). length items)") (auto dest!: first_ix_Some)

declare fill_bin.simps [simp del]

fun mffd_phase4 :: "int \<Rightarrow> item list list \<Rightarrow> item list \<Rightarrow> item list list \<times> item list" where
  "mffd_phase4 cap [] items = ([], items)"
| "mffd_phase4 cap (b # bs) items =
     (let (b', items1) = fill_bin cap b items; (bs', items2) = mffd_phase4 cap bs items1
      in (b' # bs', items2))"

text \<open>
  Phase 5: the leftovers, largest first, always into the bin with the smallest load (the
  list of loads is kept sorted) or into a new bin.  \<open>bisect\<close> on a sorted list returns the
  position after the elements that are at most \<open>x\<close>.
\<close>

definition bisect :: "int list \<Rightarrow> int \<Rightarrow> nat" where
  "bisect xs x = length (takeWhile (\<lambda>y. y \<le> x) xs)"

fun mffd_phase5 :: "int \<Rightarrow> item list \<Rightarrow> item list list \<Rightarrow> int list \<Rightarrow> item list list" where
  "mffd_phase5 cap [] bins sizes = bins"
| "mffd_phase5 cap ((idx, sz) # rest) bins sizes =
     (let fits = sz \<le> cap - hd sizes;
          new_bin = (if fits then hd bins else []) @ [(idx, sz)];
          new_bin_size = (if fits then hd sizes else 0) + sz;
          bins1 = (if fits then tl bins else bins);
          sizes1 = (if fits then tl sizes else sizes);
          k = bisect sizes1 new_bin_size
      in mffd_phase5 cap rest (insert_at k new_bin bins1) (insert_at k new_bin_size sizes1))"

definition mffd_bins :: "int \<Rightarrow> item list \<Rightarrow> item list list" where
  "mffd_bins cap items =
     (case classify_items cap items of
        (large0, medium0, small0, tiny0) \<Rightarrow>
          (let large = sort_desc snd large0; medium = sort_desc snd medium0;
               small = sort_key snd small0; tiny = sort_key snd tiny0;
               bins1 = map (\<lambda>x. [x]) large;
               (bins2, medium2) = mffd_phase2 cap bins1 medium;
               (rbins3, small3) = mffd_phase3 cap (rev bins2) small;
               remaining = sort_desc snd (medium2 @ small3 @ tiny);
               (bins4, leftovers) = mffd_phase4 cap (rev rbins3) remaining
           in bins4 @ mffd_phase5 cap (sort_desc snd leftovers) [[]] [0]))"

definition mffd_pack :: "packer \<Rightarrow> int list \<Rightarrow> nat list list res" where
  "mffd_pack p ls =
     (if bin_capacity p \<le> 0 then Inl ValueError
      else if list_ex (\<lambda>l. l \<le> 0) ls then Inl ValueError
      else case validate_sequence_lengths (bin_capacity p) ls of
             Inl e \<Rightarrow> Inl e
           | Inr _ \<Rightarrow>
               Inr (map (map fst)
                     (filter (\<lambda>b. b \<noteq> []) (mffd_bins (bin_capacity p) (List.enumerate 0 ls)))))"

section \<open>Driver and factory\<close>

definition pack_implementation ::
  "(nat \<Rightarrow> nat) \<Rightarrow> packing_algorithm \<Rightarrow> packer \<Rightarrow> int list \<Rightarrow> nat list list res" where
  "pack_implementation draw alg =
     (case alg of
        CONCATENATIVE \<Rightarrow> concatenative_pack (-1)
      | FIRST_FIT_DECREASING \<Rightarrow> first_fit_pack ffd_prepare
      | FIRST_FIT_SHUFFLE \<Rightarrow> first_fit_pack (ffs_prepare draw)
      | MODIFIED_FIRST_FIT_DECREASING \<Rightarrow> mffd_pack)"

definition pack ::
  "(packer \<Rightarrow> int list \<Rightarrow> nat list list res) \<Rightarrow> packer \<Rightarrow> int list \<Rightarrow> nat list list res" where
  "pack impl p ls =
     (case impl p ls of Inl e \<Rightarrow> Inl e | Inr bins \<Rightarrow> adjust_bin_count p bins)"

text \<open>\<open>algorithm.upper()\<close> on ASCII names, then the lookup in the enumeration.\<close>

definition upper :: "string \<Rightarrow> string" where
  "upper s = map (\<lambda>c. if 97 \<le> (of_char c :: nat) \<and> (of_char c :: nat) \<le> 122
                        then char_of (of_char c - 32 :: nat) else c) s"

definition algorithm_of_name :: "string \<Rightarrow> packing_algorithm res" where
  "algorithm_of_name name =
     (let u = upper name
      in if u = ''CONCATENATIVE'' then Inr CONCATENATIVE
         else if u = ''FIRST_FIT_DECREASING'' then Inr FIRST_FIT_DECREASING
         else if u = ''FIRST_FIT_SHUFFLE'' then Inr FIRST_FIT_SHUFFLE
         else if u = ''MODIFIED_FIRST_FIT_DECREASING'' then Inr MODIFIED_FIRST_FIT_DECREASING
         else Inl ValueError)"

definition get_packer ::
  "string \<Rightarrow> int \<Rightarrow> int option \<Rightarrow> int option \<Rightarrow> (packing_algorithm \<times> packer) res" where
  "get_packer name cap mn mlt =
     (case algorithm_of_name name of
        Inl e \<Rightarrow> Inl e
      | Inr alg \<Rightarrow> map_sum id (Pair alg) (packer_init cap mn mlt))"

section \<open>Validation, ordering and loads\<close>

definition bin_load :: "int list \<Rightarrow> nat list \<Rightarrow> int" where
  "bin_load ls b = sum_list (pick ls b)"

lemma bin_load_simps [simp]:
  "bin_load ls [] = 0"
  "bin_load ls (i # b) = ls ! i + bin_load ls b"
  "bin_load ls (b @ c) = bin_load ls b + bin_load ls c"
  by (simp_all add: bin_load_def)

lemma validate_iff:
  "validate_sequence_lengths cap ls = (if \<forall>l\<in>set ls. l \<le> cap then Inr () else Inl ValueError)"
  by (induction ls) auto

lemma in_enumerate0: "(i, l) \<in> set (List.enumerate 0 ls) \<longleftrightarrow> i < length ls \<and> l = ls ! i"
  by (auto simp: in_set_enumerate_eq)

lemma snd_indexed: "map snd (indexed_lengths ls) = [0..<length ls]"
  by (simp add: indexed_lengths_def comp_def split_def del: upt_Suc)

lemma in_indexed: "(l, i) \<in> set (indexed_lengths ls) \<longleftrightarrow> i < length ls \<and> l = ls ! i"
  by (auto simp: indexed_lengths_def in_enumerate0)

lemma mset_ffd_prepare [simp]: "mset (ffd_prepare ls) = mset (indexed_lengths ls)"
  by (simp add: ffd_prepare_def)

lemma mset_swap:
  "i < length xs \<Longrightarrow> j < length xs \<Longrightarrow> mset (xs[i := xs ! j, j := xs ! i]) = mset xs"
  by (rule mset_swap)

lemma mset_shuffle_from: "i < length xs \<or> i = 0 \<Longrightarrow> mset (shuffle_from draw i xs) = mset xs"
proof (induction draw i xs rule: shuffle_from.induct)
  case (2 draw i xs)
  define j where "j = draw (Suc i) mod (Suc i + 1)"
  have "j \<le> Suc i"
    unfolding j_def by (metis Suc_eq_plus1 less_Suc_eq_le mod_less_divisor zero_less_Suc)
  with 2(2) have "mset (xs[Suc i := xs ! j, j := xs ! Suc i]) = mset xs"
    by (intro mset_swap) auto
  with 2(1)[OF j_def] 2(2) show ?case
    by (auto simp: Let_def j_def)
qed simp

lemma mset_ffs_prepare [simp]: "mset (ffs_prepare draw ls) = mset (indexed_lengths ls)"
  unfolding ffs_prepare_def Let_def by (rule mset_shuffle_from) auto

section \<open>The concatenative packer\<close>

lemma concat_loop_concat:
  "concat (concat_loop cap lim its bins cur cl) = concat bins @ cur @ map fst its"
  by (induction cap lim its bins cur cl rule: concat_loop.induct) (auto simp: Let_def)

lemma concat_loop_nonempty:
  "[] \<notin> set bins \<Longrightarrow> [] \<notin> set (concat_loop cap lim its bins cur cl)"
  by (induction cap lim its bins cur cl rule: concat_loop.induct) (auto simp: Let_def)

lemma concat_loop_fits:
  assumes "\<forall>x\<in>set its. snd x = ls ! fst x \<and> snd x \<le> cap"
    and "\<forall>b\<in>set bins. bin_load ls b \<le> cap"
    and "cl = bin_load ls cur" and "cur \<noteq> [] \<longrightarrow> cl \<le> cap"
  shows "\<forall>b\<in>set (concat_loop cap lim its bins cur cl). bin_load ls b \<le> cap"
  using assms
proof (induction cap lim its bins cur cl rule: concat_loop.induct)
  case (2 cap lim i l rest bins cur cl)
  from 2(3) have l: "l = ls ! i" "l \<le> cap"
    and rest: "\<forall>x\<in>set rest. snd x = ls ! fst x \<and> snd x \<le> cap"
    by auto
  show ?case
  proof (cases "cl + l > cap \<or> (lim \<noteq> -1 \<and> int (length cur) \<ge> lim)")
    case True
    have "\<forall>b\<in>set (concat_loop cap lim rest (if cur \<noteq> [] then bins @ [cur] else bins) [i] l).
        bin_load ls b \<le> cap"
      by (rule 2(1)[OF refl refl True rest]) (use 2(4-6) l in auto)
    with True show ?thesis
      by (simp only: concat_loop.simps Let_def if_True)
  next
    case False
    have "\<forall>b\<in>set (concat_loop cap lim rest bins (cur @ [i]) (cl + l)). bin_load ls b \<le> cap"
      by (rule 2(2)[OF refl refl False rest]) (use 2(4-6) l False in auto)
    with False show ?thesis
      by (simp only: concat_loop.simps Let_def if_False)
  qed
qed simp

section \<open>The first-fit packers\<close>

text \<open>
  The loop invariant: every entry of \<open>bin_remaining\<close> is the capacity left in its bin and is
  not negative, and a bin is only ever opened by a sequence that fits into no earlier bin.
\<close>

definition ff_inv :: "int list \<Rightarrow> int \<Rightarrow> nat list list \<Rightarrow> int list \<Rightarrow> bool" where
  "ff_inv ls cap bins remaining \<longleftrightarrow>
     remaining = map (\<lambda>b. cap - bin_load ls b) bins \<and> (\<forall>r\<in>set remaining. 0 \<le> r) \<and> [] \<notin> set bins"

definition ff_tight :: "int list \<Rightarrow> int \<Rightarrow> nat list list \<Rightarrow> bool" where
  "ff_tight ls cap bins \<longleftrightarrow>
     (\<forall>i j. i < j \<and> j < length bins \<longrightarrow> cap - bin_load ls (bins ! i) < ls ! hd (bins ! j))"

lemma ff_inv_place:
  assumes inv: "ff_inv ls cap bins remaining"
    and ix: "first_ix (\<lambda>r. r \<ge> ls ! idx) remaining = Some i"
  shows "ff_inv ls cap (bins[i := bins ! i @ [idx]]) (remaining[i := remaining ! i - ls ! idx])"
proof -
  from ix have "i < length remaining" and "ls ! idx \<le> remaining ! i"
    by (auto dest: first_ix_Some)
  with inv show ?thesis
    by (auto simp: ff_inv_def map_update diff_diff_eq
             dest!: subsetD[OF set_update_subset_insert])
qed

lemma ff_inv_new:
  "ff_inv ls cap bins remaining \<Longrightarrow> ls ! idx \<le> cap \<Longrightarrow>
     ff_inv ls cap (bins @ [[idx]]) (remaining @ [cap - ls ! idx])"
  by (auto simp: ff_inv_def)

lemma ff_tight_place:
  assumes inv: "ff_inv ls cap bins remaining" and t: "ff_tight ls cap bins" and nn: "0 \<le> ls ! idx"
  shows "ff_tight ls cap (bins[i := bins ! i @ [idx]])"
proof (unfold ff_tight_def, intro allI impI)
  let ?bins = "bins[i := bins ! i @ [idx]]"
  fix a b assume ab: "a < b \<and> b < length ?bins"
  have "bin_load ls (bins ! a) \<le> bin_load ls (?bins ! a)"
    using nn ab by (cases "a = i") auto
  moreover have "hd (?bins ! b) = hd (bins ! b)"
  proof (cases "b = i")
    case True
    have "bins ! b \<noteq> []"
      using inv ab by (metis ff_inv_def length_list_update nth_mem)
    with True ab show ?thesis by simp
  qed simp
  ultimately show "cap - bin_load ls (?bins ! a) < ls ! hd (?bins ! b)"
    using t ab by (auto simp: ff_tight_def) (smt (verit))
qed

lemma ff_tight_new:
  assumes inv: "ff_inv ls cap bins remaining" and t: "ff_tight ls cap bins"
    and none: "first_ix (\<lambda>r. r \<ge> ls ! idx) remaining = None"
  shows "ff_tight ls cap (bins @ [[idx]])"
proof -
  have "cap - bin_load ls (bins ! i) < ls ! idx" if "i < length bins" for i
    using inv none that by (auto simp: ff_inv_def first_ix_None not_le)
  with t show ?thesis
    by (auto simp: ff_tight_def nth_append less_Suc_eq)
qed

lemma ff_loop_result:
  assumes "ff_loop cap its bins remaining = Inr r"
    and "\<forall>(l, i)\<in>set its. l = ls ! i" and "ff_inv ls cap bins remaining"
  shows "mset (concat r) = mset (concat bins) + mset (map snd its) \<and>
    (\<exists>remaining'. ff_inv ls cap r remaining')"
  using assms
proof (induction cap its bins remaining rule: ff_loop.induct)
  case (2 cap l idx rest bins remaining)
  show ?case
  proof (cases "first_ix (\<lambda>r. r \<ge> l) remaining")
    case None
    with 2 show ?thesis
      by (auto simp: ff_inv_new split: if_splits)
  next
    case (Some i)
    then have "i < length bins"
      using 2 by (auto simp: ff_inv_def dest: first_ix_Some)
    with 2 Some show ?thesis
      by (auto simp: mset_concat_append ff_inv_place split: if_splits)
  qed
qed auto

lemma ff_loop_tight:
  assumes "ff_loop cap its bins remaining = Inr r"
    and "\<forall>(l, i)\<in>set its. l = ls ! i \<and> 0 \<le> l" and "ff_inv ls cap bins remaining"
    and "ff_tight ls cap bins"
  shows "ff_tight ls cap r"
  using assms
proof (induction cap its bins remaining rule: ff_loop.induct)
  case (2 cap l idx rest bins remaining)
  show ?case
  proof (cases "first_ix (\<lambda>r. r \<ge> l) remaining")
    case None
    with 2 show ?thesis
      using ff_tight_new by (auto simp: ff_inv_new split: if_splits)
  next
    case (Some i)
    with 2 show ?thesis
      using ff_tight_place by (auto simp: ff_inv_place split: if_splits)
  qed
qed auto

lemma ff_loop_error:
  "ff_loop cap its bins remaining = Inl e \<Longrightarrow> e = ValueError \<and> (\<exists>(l, i)\<in>set its. l > cap)"
  by (induction cap its bins remaining rule: ff_loop.induct)
     (auto split: if_splits option.splits)

lemma ff_loop_ok:
  "ff_loop cap its bins remaining = Inr r \<Longrightarrow> \<forall>(l, i)\<in>set its. l \<le> cap"
  by (induction cap its bins remaining rule: ff_loop.induct)
     (auto split: if_splits option.splits)

section \<open>The modified first-fit-decreasing packer\<close>

text \<open>
  Each phase keeps the items (the bins and the items still to place, together) and never
  overfills a bin.
\<close>

definition fits_all :: "int \<Rightarrow> item list list \<Rightarrow> bool" where
  "fits_all cap bs \<longleftrightarrow> (\<forall>b\<in>set bs. item_sum b \<le> cap)"

lemma fits_all_simps [simp]:
  "fits_all cap []"
  "fits_all cap (b # bs) \<longleftrightarrow> item_sum b \<le> cap \<and> fits_all cap bs"
  "fits_all cap (bs @ cs) \<longleftrightarrow> fits_all cap bs \<and> fits_all cap cs"
  "fits_all cap (rev bs) \<longleftrightarrow> fits_all cap bs"
  by (auto simp: fits_all_def)

lemma item_sum_simps [simp]:
  "item_sum [] = 0"
  "item_sum (x # b) = snd x + item_sum b"
  "item_sum (b @ c) = item_sum b + item_sum c"
  by (simp_all add: item_sum_def)

lemma mset_classify_items:
  "classify_items cap items = (lg, md, sm, ti) \<Longrightarrow>
     mset items = mset lg + mset md + mset sm + mset ti"
  by (induction cap items arbitrary: lg md sm ti rule: classify_items.induct)
     (auto split: prod.splits if_splits)

lemma classify_items_class:
  "classify_items cap items = (lg, md, sm, ti) \<Longrightarrow>
     (\<forall>x\<in>set lg. cap < 2 * snd x) \<and>
     (\<forall>x\<in>set md. cap < 3 * snd x \<and> 2 * snd x \<le> cap) \<and>
     (\<forall>x\<in>set sm. cap < 6 * snd x \<and> 3 * snd x \<le> cap) \<and>
     (\<forall>x\<in>set ti. 6 * snd x \<le> cap)"
  by (induction cap items arbitrary: lg md sm ti rule: classify_items.induct)
     (auto split: prod.splits if_splits)

lemma mffd_phase2_mset:
  "mffd_phase2 cap bs md = (bs', md') \<Longrightarrow>
     mset (concat bs') + mset md' = mset (concat bs) + mset md \<and>
     (fits_all cap bs \<longrightarrow> fits_all cap bs')"
proof (induction cap bs md arbitrary: bs' md' rule: mffd_phase2.induct)
  case (2 cap b bs md)
  show ?case
  proof (cases "first_ix (\<lambda>x. snd x \<le> cap - item_sum b) md")
    case None
    with 2 show ?thesis
      by (auto split: prod.splits)
  next
    case (Some i)
    then have "i < length md" "snd (md ! i) \<le> cap - item_sum b"
      by (auto dest: first_ix_Some)
    with 2 Some mset_del_at[of i md] show ?thesis
      by (auto split: prod.splits)
  qed
qed auto

lemma last_fit_Some: "last_fit r xs = Some j \<Longrightarrow> j < length xs \<and> snd (xs ! j) \<le> r"
  by (auto simp: last_fit_def rev_nth dest!: first_ix_Some)

lemma last_fit_None: "last_fit r xs = None \<longleftrightarrow> (\<forall>x\<in>set xs. r < snd x)"
  by (auto simp: last_fit_def first_ix_None)

text \<open>
  The partner search of phase 3 always succeeds: the guard has just checked that the two
  smallest small items fit together, so the popped item is never lost.
\<close>

lemma phase3_partner:
  assumes "2 \<le> length small" and "snd (small ! 0) + snd (small ! 1) \<le> r"
  shows "\<exists>j. last_fit (r - snd (small ! 0)) (drop 1 small) = Some j"
proof -
  from assms(1) have "small ! 1 \<in> set (drop 1 small)"
    by (cases small; cases "tl small") auto
  with assms(2) have "\<not> (\<forall>x\<in>set (drop 1 small). r - snd (small ! 0) < snd x)"
    by (metis add_diff_cancel_left' diff_right_mono not_less)
  then show ?thesis
    using last_fit_None by fastforce
qed

lemma mffd_phase3_mset:
  "mffd_phase3 cap bs sm = (bs', sm') \<Longrightarrow>
     mset (concat bs') + mset sm' = mset (concat bs) + mset sm \<and>
     (fits_all cap bs \<longrightarrow> fits_all cap bs')"
proof (induction cap bs sm arbitrary: bs' sm' rule: mffd_phase3.induct)
  case (2 cap b bs sm)
  let ?skip = "list_ex (\<lambda>x. cap < 3 * snd x \<and> 2 * snd x \<le> cap) b \<or> length sm < 2 \<or>
    snd (sm ! 0) + snd (sm ! 1) > cap - item_sum b"
  show ?case
  proof (cases ?skip)
    case True
    with 2(1)[OF refl refl True] 2(4) show ?thesis
      by (auto simp: Let_def split: prod.splits)
  next
    case False
    then obtain j where j: "last_fit (cap - item_sum b - snd (sm ! 0)) (drop 1 sm) = Some j"
      using phase3_partner[of sm "cap - item_sum b"] by auto
    then have jlt: "j < length (drop 1 sm)" and jfit: "snd (drop 1 sm ! j) \<le> cap - item_sum b - snd (sm ! 0)"
      by (auto dest: last_fit_Some)
    have "mset sm = add_mset (sm ! 0) (mset (drop 1 sm))"
      using False by (cases sm) auto
    then have sm: "mset sm = {#sm ! 0, drop 1 sm ! j#} + mset (del_at j (drop 1 sm))"
      using mset_del_at[OF jlt] by simp
    obtain bs1 sm1 where rec: "mffd_phase3 cap bs (del_at j (drop 1 sm)) = (bs1, sm1)"
      by fastforce
    have "bs' = (b @ [sm ! 0, drop 1 sm ! j]) # bs1" "sm' = sm1"
      using 2(4) False j rec by (simp_all add: Let_def)
    with 2(3)[OF refl refl False refl refl j rec] sm jfit show ?thesis
      by auto
  qed
qed auto

lemma fill_bin_mset:
  "fill_bin cap b items = (b', items') \<Longrightarrow>
     mset b' + mset items' = mset b + mset items \<and> (item_sum b \<le> cap \<longrightarrow> item_sum b' \<le> cap)"
proof (induction cap b items arbitrary: b' items' rule: fill_bin.induct)
  case (1 cap b items)
  show ?case
  proof (cases "items = [] \<or> cap - item_sum b < snd (last items) \<or>
      first_ix (\<lambda>x. snd x \<le> cap - item_sum b) items = None")
    case True
    with 1(2) show ?thesis
      by (subst (asm) fill_bin.simps) (auto simp: Let_def split: if_splits)
  next
    case False
    then obtain i where ne: "items \<noteq> []" "\<not> cap - item_sum b < snd (last items)"
      and i: "first_ix (\<lambda>x. snd x \<le> cap - item_sum b) items = Some i"
      by auto
    from i have ilt: "i < length items" and ifit: "snd (items ! i) \<le> cap - item_sum b"
      by (auto dest: first_ix_Some)
    have "fill_bin cap (b @ [items ! i]) (del_at i items) = (b', items')"
      using 1(2) ne i by (subst (asm) fill_bin.simps) (simp add: Let_def)
    from 1(1)[OF ne(1) refl ne(2) i this] mset_del_at[OF ilt] ifit show ?thesis
      by auto
  qed
qed

lemma mffd_phase4_mset:
  "mffd_phase4 cap bs items = (bs', items') \<Longrightarrow>
     mset (concat bs') + mset items' = mset (concat bs) + mset items \<and>
     (fits_all cap bs \<longrightarrow> fits_all cap bs')"
proof (induction cap bs items arbitrary: bs' items' rule: mffd_phase4.induct)
  case (2 cap b bs items)
  obtain b1 items1 where f: "fill_bin cap b items = (b1, items1)"
    by fastforce
  obtain bs2 items2 where r: "mffd_phase4 cap bs items1 = (bs2, items2)"
    by fastforce
  have "bs' = b1 # bs2" "items' = items2"
    using 2(2) f r by simp_all
  moreover note fill_bin_mset[OF f] 2(1)[OF f[symmetric] refl r]
  ultimately show ?case
    by (auto simp: add.assoc)
qed auto

text \<open>Phase 5 keeps the list of loads sorted and equal to the loads of its bins.\<close>

definition loads_inv :: "int \<Rightarrow> item list list \<Rightarrow> int list \<Rightarrow> bool" where
  "loads_inv cap bins sizes \<longleftrightarrow>
     bins \<noteq> [] \<and> sizes = map item_sum bins \<and> sorted sizes \<and> fits_all cap bins"

lemma map_insert_at: "map f (insert_at k x xs) = insert_at k (f x) (map f xs)"
  by (simp add: insert_at_def take_map drop_map)

lemma sorted_insert_bisect: "sorted xs \<Longrightarrow> sorted (insert_at (bisect xs x) x xs)"
proof (induction xs)
  case (Cons y ys)
  show ?case
  proof (cases "y \<le> x")
    case True
    with Cons show ?thesis
      by (auto simp: bisect_def insert_at_def dest: in_set_takeD in_set_dropD)
  next
    case False
    with Cons show ?thesis
      by (fastforce simp: bisect_def insert_at_def)
  qed
qed (simp add: bisect_def insert_at_def)

lemma set_insert_at [simp]: "set (insert_at k x xs) = insert x (set xs)"
  by (metis mset_insert_at set_mset_add_mset_insert set_mset_mset)

lemma insert_at_not_Nil [simp]: "insert_at k x xs \<noteq> []"
  by (simp add: insert_at_def)

lemma mset_concat_insert_at: "mset (concat (insert_at k x xs)) = mset x + mset (concat xs)"
proof -
  have "mset (concat xs) = mset (concat (take k xs)) + mset (concat (drop k xs))"
    by (metis append_take_drop_id concat_append mset_append)
  then show ?thesis
    by (simp add: insert_at_def)
qed

lemma fits_all_insert_at [simp]:
  "fits_all cap (insert_at k b bs) \<longleftrightarrow> item_sum b \<le> cap \<and> fits_all cap bs"
  by (simp add: fits_all_def)

lemma mffd_phase5_mset:
  assumes "\<forall>x\<in>set items. snd x \<le> cap" and "loads_inv cap bins sizes"
  shows "mset (concat (mffd_phase5 cap items bins sizes)) = mset (concat bins) + mset items \<and>
    fits_all cap (mffd_phase5 cap items bins sizes)"
  using assms
proof (induction cap items bins sizes rule: mffd_phase5.induct)
  case (2 cap idx sz rest bins sizes)
  from 2(3) obtain b bs where bins: "bins = b # bs" and sizes: "sizes = item_sum b # map item_sum bs"
    and srt: "sorted sizes" and fits: "fits_all cap bins"
    by (auto simp: loads_inv_def neq_Nil_conv)
  define fit where "fit \<longleftrightarrow> sz \<le> cap - hd sizes"
  define nb where "nb = (if fit then hd bins else []) @ [(idx, sz)]"
  define ns where "ns = (if fit then hd sizes else 0) + sz"
  define bins1 where "bins1 = (if fit then tl bins else bins)"
  define sizes1 where "sizes1 = (if fit then tl sizes else sizes)"
  let ?k = "bisect sizes1 ns"
  have sizes1: "sizes1 = map item_sum bins1" "sorted sizes1"
    using srt by (auto simp: sizes1_def bins1_def bins sizes)
  have ns: "ns = item_sum nb"
    by (simp add: ns_def nb_def bins sizes)
  have "loads_inv cap (insert_at ?k nb bins1) (insert_at ?k ns sizes1)"
    unfolding loads_inv_def
    using sizes1 ns fits 2(2) sorted_insert_bisect[OF sizes1(2), of ns]
    by (auto simp: map_insert_at fit_def nb_def bins1_def bins sizes)
  moreover have "mset (concat (insert_at ?k nb bins1)) = mset (concat bins) + {#(idx, sz)#}"
    by (simp add: mset_concat_insert_at nb_def bins1_def bins)
  moreover have "mffd_phase5 cap ((idx, sz) # rest) bins sizes =
      mffd_phase5 cap rest (insert_at ?k nb bins1) (insert_at ?k ns sizes1)"
    by (simp add: Let_def fit_def nb_def ns_def bins1_def sizes1_def)
  ultimately show ?case
    using 2(1)[OF fit_def nb_def ns_def bins1_def sizes1_def refl] 2(2) by auto
qed (simp add: loads_inv_def)

lemma mffd_bins_mset:
  assumes cap: "0 \<le> cap" and le: "\<forall>x\<in>set items. snd x \<le> cap"
  shows "mset (concat (mffd_bins cap items)) = mset items \<and> fits_all cap (mffd_bins cap items)"
proof -
  obtain lg0 md0 sm0 ti0 where cl: "classify_items cap items = (lg0, md0, sm0, ti0)"
    by (cases "classify_items cap items") auto
  define lg where "lg = map (\<lambda>x. [x]) (sort_desc snd lg0)"
  obtain bs2 md2 where p2: "mffd_phase2 cap lg (sort_desc snd md0) = (bs2, md2)"
    by fastforce
  obtain bs3 sm3 where p3: "mffd_phase3 cap (rev bs2) (sort_key snd sm0) = (bs3, sm3)"
    by fastforce
  define rem where "rem = sort_desc snd (md2 @ sm3 @ sort_key snd ti0)"
  obtain bs4 lo where p4: "mffd_phase4 cap (rev bs3) rem = (bs4, lo)"
    by fastforce
  note m0 = mset_classify_items[OF cl]
  have cm: "mset (concat (rev xs)) = mset (concat xs)" for xs :: "item list list"
    by (induction xs) auto
  have "set lg0 \<subseteq> set items"
    by (metis m0 mset_append set_append set_mset_mset Un_upper1 sup_assoc)
  then have fl: "fits_all cap lg"
    using le by (auto simp: fits_all_def lg_def)
  have mlg: "mset (concat lg) = mset lg0"
    by (simp add: lg_def concat_map_singleton[where f = id, simplified])
  note m2 = mffd_phase2_mset[OF p2] and m3 = mffd_phase3_mset[OF p3] and m4 = mffd_phase4_mset[OF p4]
  have tot: "mset (concat bs4) + mset lo = mset items"
    using m0 mlg m2 m3 m4 by (simp add: cm rem_def) (metis add.assoc add.commute)
  then have "set lo \<subseteq> set items"
    by (metis mset_subset_eq_add_right set_mset_mono set_mset_mset)
  then have lo: "\<forall>x\<in>set (sort_desc snd lo). snd x \<le> cap"
    using le by auto
  have "loads_inv cap [[]] [0]"
    using cap by (simp add: loads_inv_def)
  note m5 = mffd_phase5_mset[OF lo this]
  have "mffd_bins cap items = bs4 @ mffd_phase5 cap (sort_desc snd lo) [[]] [0]"
    using cl p2 p3 p4 by (simp add: mffd_bins_def Let_def lg_def rem_def)
  then show ?thesis
    using m5 tot fl m2 m3 m4 by simp
qed

section \<open>Adjusting the number of bins\<close>

lemma target_bin_count_props:
  assumes "case bin_count_multiple p of None \<Rightarrow> True | Some k \<Rightarrow> 1 \<le> k"
  shows "cur \<le> target_bin_count p cur \<and>
    (\<forall>m. min_bin_count p = Some m \<longrightarrow> m \<le> target_bin_count p cur) \<and>
    (\<forall>k. bin_count_multiple p = Some k \<longrightarrow> k dvd target_bin_count p cur)"
proof -
  have up: "k dvd t + (k - t mod k)" if "1 \<le> k" for t k :: int
    by (metis add.commute add_diff_eq diff_add_eq_diff_diff_swap dvd_add_triv_left_iff
        minus_mod_eq_mult_div dvd_triv_left add_diff_cancel_left' diff_add_cancel)
  have le: "t mod k \<le> k" if "1 \<le> k" for t k :: int
    using that by (simp add: order_less_imp_le)
  show ?thesis
    using assms up le
    by (auto simp: target_bin_count_def Let_def mod_eq_0_iff_dvd split: option.splits)
       (smt (verit))+
qed

lemma advance_source_Nil:
  "advance_source adj srcs = [] \<longleftrightarrow> (\<forall>s\<in>set srcs. length (adj ! snd s) \<le> 1)"
  by (induction adj srcs rule: advance_source.induct) auto

lemma advance_source_Cons:
  "advance_source adj srcs = (sz, ob) # rest \<Longrightarrow>
     1 < length (adj ! ob) \<and> set ((sz, ob) # rest) \<subseteq> set srcs \<and>
     (\<forall>s\<in>set srcs - set ((sz, ob) # rest). length (adj ! snd s) \<le> 1)"
  by (induction adj srcs rule: advance_source.induct) (auto split: if_splits)

text \<open>
  The redistribution invariant with \<open>cur\<close> old bins, the new bins \<open>k, \<dots>, n - 1\<close> still empty:
  the old bins are non-empty and still hold enough sequences, every old bin that can give
  one is still in the list of sources, and each non-empty bin is part of an original one.
\<close>

definition redist_inv ::
  "nat list list \<Rightarrow> nat \<Rightarrow> nat \<Rightarrow> nat \<Rightarrow> (nat \<times> nat) list \<Rightarrow> nat list list \<Rightarrow> bool" where
  "redist_inv orig cur k n srcs adj \<longleftrightarrow>
     length adj = n \<and> cur \<le> k \<and> k \<le> n \<and>
     (\<forall>i<k. adj ! i \<noteq> []) \<and> (\<forall>i. k \<le> i \<and> i < n \<longrightarrow> adj ! i = []) \<and>
     snd ` set srcs \<subseteq> {..<cur} \<and>
     (\<forall>i<cur. i \<notin> snd ` set srcs \<longrightarrow> length (adj ! i) \<le> 1) \<and>
     cur + (n - k) \<le> (\<Sum>i<cur. length (adj ! i)) \<and>
     mset (concat adj) = mset (concat orig) \<and>
     (\<forall>i<k. \<exists>b\<in>set orig. mset (adj ! i) \<subseteq># mset b)"

lemma sum_update_length:
  "ob < cur \<Longrightarrow> 1 < length (adj ! ob) \<Longrightarrow> cur \<le> length adj \<Longrightarrow>
     (\<Sum>i<cur. length (adj[ob := butlast (adj ! ob)] ! i)) + 1 = (\<Sum>i<cur. length (adj ! i))"
proof -
  assume ob: "ob < cur" and len: "1 < length (adj ! ob)" and le: "cur \<le> length adj"
  have "(\<Sum>i\<in>{..<cur} - {ob}. length (adj[ob := butlast (adj ! ob)] ! i)) =
        (\<Sum>i\<in>{..<cur} - {ob}. length (adj ! i))"
    by (rule sum.cong) auto
  then show ?thesis
    using ob len le by (simp add: sum.remove[of "{..<cur}" ob])
qed

lemma mset_move: "M1 + X = M + B \<Longrightarrow> X = add_mset x B \<Longrightarrow> add_mset x M1 = (M :: 'a multiset)"
  by simp

lemma sub_of: "X = add_mset x B \<Longrightarrow> B \<subseteq># X \<and> {#x#} \<subseteq># (X :: 'a multiset)"
  by simp

lemma redist_step:
  assumes inv: "redist_inv orig cur k n srcs adj" and k: "k < n"
    and adv: "advance_source adj srcs = (sz, ob) # rest"
    and adj1: "adj1 = adj[ob := butlast (adj ! ob)]"
  shows "redist_inv orig cur (Suc k) n ((sz, ob) # rest) (adj1[k := adj1 ! k @ [last (adj ! ob)]])"
proof -
  from advance_source_Cons[OF adv]
  have len: "1 < length (adj ! ob)" and sub: "set ((sz, ob) # rest) \<subseteq> set srcs"
    and dn: "\<forall>s\<in>set srcs - set ((sz, ob) # rest). length (adj ! snd s) \<le> 1" by auto
  from inv have n: "length adj = n" "cur \<le> k" and src: "snd ` set srcs \<subseteq> {..<cur}"
    by (auto simp: redist_inv_def)
  from image_mono[OF sub, of snd] src have src': "snd ` set ((sz, ob) # rest) \<subseteq> {..<cur}"
    by (rule order_trans)
  then have ob: "ob < cur" by simp
  have bl: "adj ! ob = butlast (adj ! ob) @ [last (adj ! ob)]"
    using len by (metis append_butlast_last_id length_0_conv less_nat_zero_code)
  have obk: "ob \<noteq> k" and obn: "ob < length adj" using ob n k by auto
  let ?new = "adj1[k := adj1 ! k @ [last (adj ! ob)]]"
  have ne: "butlast (adj ! ob) \<noteq> []" using len by (cases "adj ! ob" rule: rev_cases) auto
  have kth: "adj1 ! k = []" using inv k obk by (simp add: redist_inv_def adj1)
  have ith: "?new ! i = (if i = k then [last (adj ! ob)] else if i = ob then butlast (adj ! ob)
      else adj ! i)" if "i < n" for i
    using that n obk kth by (auto simp: adj1 nth_list_update)
  have m1: "mset (concat adj1) + mset (adj ! ob) = mset (concat adj) + mset (butlast (adj ! ob))"
    unfolding adj1 using obn by (rule mset_concat_update)
  have new: "mset (concat ?new) = add_mset (last (adj ! ob)) (mset (concat adj1))"
    using k n by (intro mset_concat_append) (simp add: adj1)
  have e: "mset (adj ! ob) = add_mset (last (adj ! ob)) (mset (butlast (adj ! ob)))"
    by (subst bl) simp
  have m2: "mset (concat ?new) = mset (concat adj)"
    using new mset_move[OF m1 e] by (rule trans)
  have "(\<Sum>i<cur. length (?new ! i)) = (\<Sum>i<cur. length (adj1 ! i))"
    using n by (intro sum.cong) auto
  then have s: "(\<Sum>i<cur. length (?new ! i)) + 1 = (\<Sum>i<cur. length (adj ! i))"
    using sum_update_length[OF ob len] n k by (simp add: adj1)
  have subm: "mset (butlast (adj ! ob)) \<subseteq># mset (adj ! ob)" "{#last (adj ! ob)#} \<subseteq># mset (adj ! ob)"
    using sub_of[OF e] by blast+
  obtain b where b: "b \<in> set orig" "mset (adj ! ob) \<subseteq># mset b"
    using inv ob n unfolding redist_inv_def by (meson less_le_trans)
  have orig: "\<exists>b\<in>set orig. mset (?new ! i) \<subseteq># mset b" if "i < Suc k" for i
  proof -
    from that have "i = k \<or> i < k" by (simp add: less_Suc_eq disj_commute)
    then consider "i = k" | "i = ob" "i \<noteq> k" | "i < k" "i \<noteq> ob" by blast
    then show ?thesis
    proof cases
      case 3
      with inv ith[of i] k show ?thesis by (auto simp: redist_inv_def)
    next
      case 1
      with ith[of i] k have "mset (?new ! i) \<subseteq># mset (adj ! ob)" using subm by simp
      with b show ?thesis using subset_mset.order_trans by blast
    next
      case 2
      with ith[of i] obn n have "mset (?new ! i) \<subseteq># mset (adj ! ob)" using subm by simp
      with b show ?thesis using subset_mset.order_trans by blast
    qed
  qed
  show ?thesis
    unfolding redist_inv_def
  proof (intro conjI)
    show "\<forall>i<cur. i \<notin> snd ` set ((sz, ob) # rest) \<longrightarrow> length (?new ! i) \<le> 1"
    proof (intro allI impI)
      fix i assume i: "i < cur" "i \<notin> snd ` set ((sz, ob) # rest)"
      then have "i \<noteq> k" "i \<noteq> ob" "i < n" using n k by auto
      moreover have "length (adj ! i) \<le> 1"
      proof (cases "i \<in> snd ` set srcs")
        case True
        with dn i show ?thesis by (auto simp del: set_simps)
      next
        case False
        with inv i show ?thesis by (auto simp: redist_inv_def)
      qed
      ultimately show "length (?new ! i) \<le> 1" by (simp add: adj1)
    qed
  next
    show "snd ` set ((sz, ob) # rest) \<subseteq> {..<cur}" by (rule src')
  next
    show "\<forall>i. Suc k \<le> i \<and> i < n \<longrightarrow> ?new ! i = []"
      using inv ob n by (auto simp: redist_inv_def adj1)
  qed (use inv k n s m2 orig ith ne in \<open>auto simp: redist_inv_def adj1\<close>)
qed

lemma redistribute_ok:
  "redist_inv orig cur k n srcs adj \<Longrightarrow>
     \<exists>r srcs'. redistribute [k..<n] srcs adj = Inr r \<and> redist_inv orig cur n n srcs' r"
proof (induction "n - k" arbitrary: k srcs adj)
  case 0
  then have "k = n" by (auto simp: redist_inv_def)
  with 0 show ?case by auto
next
  case (Suc m)
  then have k: "k < n" by simp
  have "advance_source adj srcs \<noteq> []"
  proof
    assume "advance_source adj srcs = []"
    then have "\<forall>s\<in>set srcs. length (adj ! snd s) \<le> 1"
      by (simp add: advance_source_Nil)
    with Suc.prems have "\<forall>i<cur. length (adj ! i) \<le> 1"
      unfolding redist_inv_def by (metis imageE)
    then have "(\<Sum>i<cur. length (adj ! i)) \<le> (\<Sum>i<cur. 1)"
      by (intro sum_mono) auto
    with Suc.prems k show False
      unfolding redist_inv_def by simp linarith
  qed
  then obtain sz ob rest where adv: "advance_source adj srcs = (sz, ob) # rest"
    by (metis neq_Nil_conv prod.exhaust)
  from Suc.hyps(1)[OF _ redist_step[OF Suc.prems k adv refl]] Suc.hyps(2)
  show ?case
    using k adv by (simp add: upt_conv_Cons Let_def)
qed

text \<open>What the adjustment promises about the bins it is given.\<close>

definition non_empty_bins :: "nat list list \<Rightarrow> bool" where
  "non_empty_bins bins \<longleftrightarrow> [] \<notin> set bins"

definition refines_bins :: "nat list list \<Rightarrow> nat list list \<Rightarrow> bool" where
  "refines_bins bins r \<longleftrightarrow> (\<forall>c\<in>set r. \<exists>b\<in>set bins. mset c \<subseteq># mset b)"

lemma sum_list_length_ge: "non_empty_bins bins \<Longrightarrow> length bins \<le> sum_list (map length bins)"
proof (induction bins)
  case (Cons b bins)
  then show ?case
    by (cases b) (auto simp: non_empty_bins_def)
qed simp

lemma redist_inv_start:
  assumes "non_empty_bins bins" and "length bins + extra \<le> sum_list (map length bins)"
    and "srcs = rev (sort (map (\<lambda>(i, b). (length b, i)) (List.enumerate 0 bins)))"
  shows "redist_inv bins (length bins) (length bins) (length bins + extra) srcs
    (bins @ replicate extra [])"
proof -
  have "snd ` set srcs = {..<length bins}"
    unfolding assms(3) by (force simp: in_set_enumerate_eq image_iff)
  moreover have "(\<Sum>i<length bins. length (bins ! i)) = sum_list (map length bins)"
    by (simp add: sum_list_sum_nth atLeast0LessThan)
  moreover have "(\<Sum>i<length bins. length ((bins @ replicate extra []) ! i)) =
      (\<Sum>i<length bins. length (bins ! i))"
    by (intro sum.cong) (auto simp: nth_append)
  ultimately show ?thesis
    using assms(1,2) by (auto simp: redist_inv_def non_empty_bins_def nth_append) (metis nth_mem)+
qed

lemma adjust_bin_count_ok:
  assumes ne: "non_empty_bins bins" and t: "int (length bins) \<le> target_bin_count p (int (length bins))"
    and enough: "target_bin_count p (int (length bins)) \<le> int (sum_list (map length bins))"
  shows "\<exists>r. adjust_bin_count p bins = Inr r \<and> mset (concat r) = mset (concat bins) \<and>
    non_empty_bins r \<and> refines_bins bins r \<and>
    int (length r) = target_bin_count p (int (length bins))"
proof (cases "target_bin_count p (int (length bins)) = int (length bins)")
  case True
  then show ?thesis
    using ne by (auto simp: adjust_bin_count_def Let_def refines_bins_def)
next
  case False
  define extra where "extra = nat (target_bin_count p (int (length bins)) - int (length bins))"
  define srcs where "srcs = rev (sort (map (\<lambda>(i, b). (length b, i)) (List.enumerate 0 bins)))"
  have "length bins + extra \<le> sum_list (map length bins)"
    using t enough by (simp add: extra_def)
  from redistribute_ok[OF redist_inv_start[OF ne this srcs_def]]
  obtain r srcs' where r: "redistribute [length bins..<length bins + extra] srcs
      (bins @ replicate extra []) = Inr r"
    and inv: "redist_inv bins (length bins) (length bins + extra) (length bins + extra) srcs' r"
    by blast
  have "adjust_bin_count p bins = Inr r"
    using False enough r by (simp add: adjust_bin_count_def Let_def extra_def srcs_def)
  moreover have "non_empty_bins r" "refines_bins bins r"
    using inv by (auto simp: redist_inv_def non_empty_bins_def refines_bins_def in_set_conv_nth)
  ultimately show ?thesis
    using inv t by (auto simp: redist_inv_def extra_def)
qed

lemma adjust_bin_count_error:
  assumes ne: "non_empty_bins bins" and t: "int (length bins) \<le> target_bin_count p (int (length bins))"
  shows "adjust_bin_count p bins = Inl e \<longleftrightarrow>
    e = ValueError \<and> int (sum_list (map length bins)) < target_bin_count p (int (length bins))"
proof (cases "target_bin_count p (int (length bins)) \<le> int (sum_list (map length bins))")
  case True
  with adjust_bin_count_ok[OF ne t True] show ?thesis by auto
next
  case False
  moreover have "int (length bins) \<le> int (sum_list (map length bins))"
    using sum_list_length_ge[OF ne] by simp
  ultimately show ?thesis
    by (auto simp: adjust_bin_count_def Let_def)
qed

lemma sum_mset_nonneg_int: "(\<And>x. x \<in># M \<Longrightarrow> 0 \<le> f x) \<Longrightarrow> (0 :: int) \<le> sum_mset (image_mset f M)"
  by (induction M) auto

section \<open>The packer contract\<close>

text \<open>
  What \<open>pack\<close> relies on: an implementation returns a partition of the indices into
  non-empty bins, none of them over capacity.
\<close>

locale packer_impl =
  fixes impl :: "packer \<Rightarrow> int list \<Rightarrow> nat list list res"
  assumes impl_partition: "impl p ls = Inr bins \<Longrightarrow> mset (concat bins) = mset [0..<length ls]"
    and impl_non_empty: "impl p ls = Inr bins \<Longrightarrow> non_empty_bins bins"
    and impl_fits: "impl p ls = Inr bins \<Longrightarrow> b \<in> set bins \<Longrightarrow> bin_load ls b \<le> bin_capacity p"
begin

lemma total_sequences: "impl p ls = Inr bins \<Longrightarrow> sum_list (map length bins) = length ls"
  using impl_partition[of p ls bins] by (metis length_concat length_upt minus_nat.diff_0 size_mset)

lemma pack_result:
  assumes "pack impl p ls = Inr r" and "packer_init cap mn mlt = Inr p"
  shows "\<exists>bins. impl p ls = Inr bins \<and> mset (concat r) = mset [0..<length ls] \<and>
    non_empty_bins r \<and> refines_bins bins r \<and> int (length r) = target_bin_count p (int (length bins))"
proof -
  from assms(1) obtain bins where bins: "impl p ls = Inr bins" and adj: "adjust_bin_count p bins = Inr r"
    by (auto simp: pack_def split: sum.splits)
  have "case bin_count_multiple p of None \<Rightarrow> True | Some k \<Rightarrow> 1 \<le> k"
    using assms(2) by (auto simp: packer_init_def split: if_splits option.splits)
  then have t: "int (length bins) \<le> target_bin_count p (int (length bins))"
    using target_bin_count_props by blast
  note ne = impl_non_empty[OF bins]
  have "\<not> (int (sum_list (map length bins)) < target_bin_count p (int (length bins)))"
    using adjust_bin_count_error[OF ne t] adj by auto
  with adjust_bin_count_ok[OF ne t] adj impl_partition[OF bins] bins show ?thesis
    by auto
qed

lemma pack_fits:
  assumes "pack impl p ls = Inr r" and "packer_init cap mn mlt = Inr p"
    and nn: "\<forall>l\<in>set ls. 0 \<le> l" and c: "c \<in> set r"
  shows "bin_load ls c \<le> bin_capacity p"
proof -
  from pack_result[OF assms(1,2)] obtain bins where bins: "impl p ls = Inr bins"
    and ref: "refines_bins bins r" by blast
  from ref c obtain b where b: "b \<in> set bins" and sub: "mset c \<subseteq># mset b"
    by (auto simp: refines_bins_def)
  from sub obtain d where d: "mset b = mset c + d"
    by (auto simp: subset_mset.le_iff_add)
  have idx: "set b \<subseteq> {..<length ls}"
    using b impl_partition[OF bins] by (metis UnionI image_eqI list.set_map lessThan_atLeast0
        mset_eq_setD set_concat set_upt subsetI)
  have "set_mset d \<subseteq> set b"
    using d by (metis set_mset_mset set_mset_union Un_upper2)
  then have "0 \<le> sum_mset (image_mset ((!) ls) d)"
    using idx nn by (intro sum_mset_nonneg_int) (auto simp: subset_iff)
  moreover have "bin_load ls x = sum_mset (image_mset ((!) ls) (mset x))" for x
    by (simp add: bin_load_def pick_def flip: sum_mset_sum_list)
  ultimately have "bin_load ls c \<le> bin_load ls b"
    by (simp add: d)
  with impl_fits[OF bins b] show ?thesis by simp
qed

lemma pack_error:
  assumes "packer_init cap mn mlt = Inr p"
  shows "pack impl p ls = Inl e \<longleftrightarrow> impl p ls = Inl e \<or>
    (\<exists>bins. impl p ls = Inr bins \<and> e = ValueError \<and>
       int (length ls) < target_bin_count p (int (length bins)))"
proof (cases "impl p ls")
  case (Inr bins)
  have "case bin_count_multiple p of None \<Rightarrow> True | Some k \<Rightarrow> 1 \<le> k"
    using assms by (auto simp: packer_init_def split: if_splits option.splits)
  then have "int (length bins) \<le> target_bin_count p (int (length bins))"
    using target_bin_count_props by blast
  from adjust_bin_count_error[OF impl_non_empty[OF Inr] this] show ?thesis
    by (simp add: pack_def Inr total_sequences[OF Inr])
qed (simp add: pack_def)

end

section \<open>The packers keep the contract\<close>

interpretation concatenative: packer_impl "concatenative_pack lim" for lim
proof unfold_locales
  fix p ls bins
  assume "concatenative_pack lim p ls = Inr bins"
  then have bins: "bins = concat_loop (bin_capacity p) lim (List.enumerate 0 ls) [] [] 0"
    and le: "\<forall>l\<in>set ls. l \<le> bin_capacity p"
    by (auto simp: concatenative_pack_def validate_iff split: if_splits)
  show "mset (concat bins) = mset [0..<length ls]"
    by (simp add: bins concat_loop_concat)
  show "non_empty_bins bins"
    by (simp add: bins non_empty_bins_def concat_loop_nonempty)
  have "\<forall>x\<in>set (List.enumerate 0 ls). snd x = ls ! fst x \<and> snd x \<le> bin_capacity p"
    using le by (auto simp: in_set_enumerate_eq)
  from concat_loop_fits[OF this, of "[]" 0 "[]" lim]
  show "bin_load ls b \<le> bin_capacity p" if "b \<in> set bins" for b
    using that by (simp add: bins)
qed

lemma first_fit_result:
  assumes "first_fit_pack prepare p ls = Inr bins"
    and "mset (prepare ls) = mset (indexed_lengths ls)"
  shows "mset (concat bins) = mset [0..<length ls] \<and> (\<exists>rem. ff_inv ls (bin_capacity p) bins rem)"
proof -
  have "\<forall>(l, i)\<in>set (prepare ls). l = ls ! i"
    using mset_eq_setD[OF assms(2)] by (auto simp: in_indexed)
  moreover have "ff_inv ls (bin_capacity p) [] []"
    by (simp add: ff_inv_def)
  ultimately have "mset (concat bins) = mset (map snd (prepare ls)) \<and>
      (\<exists>rem. ff_inv ls (bin_capacity p) bins rem)"
    using ff_loop_result[of "bin_capacity p" "prepare ls" "[]" "[]" bins ls] assms(1)
    by (simp add: first_fit_pack_def)
  moreover have "mset (map snd (prepare ls)) = mset [0..<length ls]"
    using assms(2) snd_indexed[of ls] by (metis mset_map)
  ultimately show ?thesis by simp
qed

lemma first_fit_packer_impl:
  assumes "\<And>ls. mset (prepare ls) = mset (indexed_lengths ls)"
  shows "packer_impl (first_fit_pack prepare)"
proof unfold_locales
  fix p ls bins
  assume a: "first_fit_pack prepare p ls = Inr bins"
  note r = first_fit_result[OF a assms]
  show "mset (concat bins) = mset [0..<length ls]"
    using r by blast
  show "non_empty_bins bins"
    using r by (auto simp: ff_inv_def non_empty_bins_def)
  show "bin_load ls b \<le> bin_capacity p" if "b \<in> set bins" for b
    using r that by (fastforce simp: ff_inv_def in_set_conv_nth)
qed

interpretation ffd: packer_impl "first_fit_pack ffd_prepare"
  by (rule first_fit_packer_impl) (rule mset_ffd_prepare)

interpretation ffs: packer_impl "first_fit_pack (ffs_prepare draw)" for draw
  by (rule first_fit_packer_impl) (rule mset_ffs_prepare)

lemma mffd_pack_ok:
  assumes "mffd_pack p ls = Inr bins"
  defines "its \<equiv> mffd_bins (bin_capacity p) (List.enumerate 0 ls)"
  shows "bins = map (map fst) (filter (\<lambda>b. b \<noteq> []) its)"
    and "mset (concat its) = mset (List.enumerate 0 ls)" and "fits_all (bin_capacity p) its"
proof -
  from assms(1) have "0 \<le> bin_capacity p" "\<forall>x\<in>set (List.enumerate 0 ls). snd x \<le> bin_capacity p"
    and b: "bins = map (map fst) (filter (\<lambda>b. b \<noteq> []) its)"
    by (auto simp: mffd_pack_def validate_iff its_def in_set_enumerate_eq split: if_splits)
  from mffd_bins_mset[OF this(1,2)]
  show "mset (concat its) = mset (List.enumerate 0 ls)" and "fits_all (bin_capacity p) its"
    by (simp_all add: its_def)
  from b show "bins = map (map fst) (filter (\<lambda>b. b \<noteq> []) its)" .
qed

interpretation mffd: packer_impl mffd_pack
proof unfold_locales
  fix p ls bins
  assume a: "mffd_pack p ls = Inr bins"
  define its where "its = mffd_bins (bin_capacity p) (List.enumerate 0 ls)"
  note o = mffd_pack_ok[OF a, folded its_def]
  have "concat (filter (\<lambda>b. b \<noteq> []) its) = concat its"
    by (induction its) auto
  then have "concat bins = map fst (concat its)"
    by (simp add: o(1) map_concat[symmetric])
  with o(2) show "mset (concat bins) = mset [0..<length ls]"
    by (metis map_fst_enumerate0 mset_map)
  show "non_empty_bins bins"
    by (auto simp: o(1) non_empty_bins_def)
  fix b assume "b \<in> set bins"
  then obtain its_b where ib: "its_b \<in> set its" "b = map fst its_b"
    by (auto simp: o(1))
  have "set its_b \<subseteq> set (List.enumerate 0 ls)"
    using ib(1) mset_eq_setD[OF o(2)] by auto
  then have "map ((!) ls) b = map snd its_b"
    by (auto simp: ib(2) in_set_enumerate_eq)
  with o(3) ib(1) show "bin_load ls b \<le> bin_capacity p"
    by (simp add: bin_load_def pick_def fits_all_def item_sum_def)
qed

interpretation packers: packer_impl "pack_implementation draw alg" for draw alg
  by (cases alg)
     (simp_all add: pack_implementation_def concatenative.packer_impl_axioms
        ffd.packer_impl_axioms ffs.packer_impl_axioms mffd.packer_impl_axioms)

section \<open>Errors, order and bin counts\<close>

text \<open>Which inputs an algorithm rejects; every rejection is a \<open>ValueError\<close>.\<close>

definition rejects :: "packing_algorithm \<Rightarrow> int \<Rightarrow> int list \<Rightarrow> bool" where
  "rejects alg cap ls \<longleftrightarrow> (\<exists>l\<in>set ls. cap < l) \<or>
     alg = MODIFIED_FIRST_FIT_DECREASING \<and> (cap \<le> 0 \<or> (\<exists>l\<in>set ls. l \<le> 0))"

lemma first_fit_error:
  assumes "mset (prepare ls) = mset (indexed_lengths ls)"
  shows "first_fit_pack prepare p ls = Inl e \<longleftrightarrow>
    e = ValueError \<and> (\<exists>l\<in>set ls. bin_capacity p < l)"
proof -
  have "(\<exists>(l, i)\<in>set (prepare ls). bin_capacity p < l) \<longleftrightarrow> (\<exists>l\<in>set ls. bin_capacity p < l)"
  proof -
    have "map fst (indexed_lengths ls) = ls"
      by (simp add: indexed_lengths_def comp_def split_def)
    then have "set ls = fst ` set (prepare ls)"
      unfolding mset_eq_setD[OF assms] by (metis list.set_map)
    then show ?thesis by (auto intro: rev_bexI)
  qed
  then show ?thesis
    using ff_loop_error[of "bin_capacity p" "prepare ls" "[]" "[]"]
      ff_loop_ok[of "bin_capacity p" "prepare ls" "[]" "[]"]
    by (cases "first_fit_pack prepare p ls") (fastforce simp: first_fit_pack_def)+
qed

lemma pack_implementation_error:
  "pack_implementation draw alg p ls = Inl e \<longleftrightarrow> e = ValueError \<and> rejects alg (bin_capacity p) ls"
proof (cases alg)
  case CONCATENATIVE
  then show ?thesis
    by (auto simp: pack_implementation_def rejects_def concatenative_pack_def validate_iff
        simp flip: not_less)
next
  case MODIFIED_FIRST_FIT_DECREASING
  then show ?thesis
    by (auto simp: pack_implementation_def rejects_def mffd_pack_def validate_iff list_ex_iff
        simp flip: not_less)
qed (simp_all add: pack_implementation_def rejects_def first_fit_error)

lemma target_bin_count_least:
  assumes "cur \<le> n" and "case min_bin_count p of None \<Rightarrow> True | Some m \<Rightarrow> m \<le> n"
    and "case bin_count_multiple p of None \<Rightarrow> True | Some k \<Rightarrow> 1 \<le> k \<and> k dvd n"
  shows "target_bin_count p cur \<le> n"
proof -
  define t where "t = (case min_bin_count p of None \<Rightarrow> cur | Some m \<Rightarrow> max cur m)"
  have t: "t \<le> n"
    using assms(1,2) by (auto simp: t_def split: option.splits)
  show ?thesis
  proof (cases "bin_count_multiple p")
    case (Some k)
    with assms(3) obtain q where k: "1 \<le> k" and n: "n = k * q" by auto
    have tk: "t = k * (t div k) + t mod k" by simp
    have "t + (k - t mod k) \<le> n" if "t mod k \<noteq> 0"
    proof -
      have "0 < t mod k"
        using that k by (simp add: order_le_neq_trans)
      then have "k * (t div k) < k * q"
        using t n tk by linarith
      then have "t div k + 1 \<le> q"
        using k by (simp add: mult_less_cancel_left)
      then have "k * (t div k + 1) \<le> n"
        using k n by (simp add: mult_left_mono)
      then show ?thesis
        using tk by (simp only: distrib_left mult_1_right)
    qed
    with t Some show ?thesis
      by (simp add: target_bin_count_def Let_def t_def)
  qed (use t in \<open>simp add: target_bin_count_def Let_def t_def\<close>)
qed

text \<open>Any two bins of a first-fit packing together exceed the capacity.\<close>

lemma first_fit_tight:
  assumes "first_fit_pack prepare p ls = Inr bins"
    and perm: "mset (prepare ls) = mset (indexed_lengths ls)" and nn: "\<forall>l\<in>set ls. 0 \<le> l"
    and ij: "i < j" "j < length bins"
  shows "bin_capacity p < bin_load ls (bins ! i) + bin_load ls (bins ! j)"
proof -
  have "\<forall>(l, i)\<in>set (prepare ls). l = ls ! i \<and> 0 \<le> l"
    using nn unfolding mset_eq_setD[OF perm] by (auto simp: in_indexed)
  then have t: "ff_tight ls (bin_capacity p) bins"
    using ff_loop_tight[of "bin_capacity p" "prepare ls" "[]" "[]" bins ls] assms(1)
    by (simp add: first_fit_pack_def ff_inv_def ff_tight_def)
  note res = first_fit_result[OF assms(1) perm]
  have idx: "set (bins ! j) \<subseteq> {..<length ls}"
    using res ij by (metis lessThan_atLeast0 mset_eq_setD nth_mem set_concat set_upt UN_upper)
  obtain x b where b: "bins ! j = x # b"
    using res ij by (metis ff_inv_def neq_Nil_conv nth_mem)
  have "0 \<le> bin_load ls b"
    using idx nn b by (auto simp: bin_load_def pick_def subset_iff intro!: sum_list_nonneg)
  with t ij b show ?thesis
    by (force simp: ff_tight_def)
qed

lemma sum_adjacent:
  assumes "\<forall>i j. i < j \<and> j < length xs \<longrightarrow> (c :: int) < xs ! i + xs ! j" and "2 \<le> length xs"
  shows "int (length xs) * c < 2 * sum_list xs"
proof -
  let ?n = "length xs"
  let ?s = "\<lambda>i. (i + 1) mod ?n"
  have pair: "c < xs ! i + xs ! ?s i" if i: "i < ?n" for i
  proof (cases "i + 1 = ?n")
    case True
    then have "0 < i" "?s i = 0" using assms(2) by auto
    with assms(1) i show ?thesis by (metis add.commute)
  next
    case False
    then have "?s i = i + 1" using i by simp
    with assms(1) i False show ?thesis by simp
  qed
  have bij: "bij_betw ?s {..<?n} {..<?n}"
  proof -
    have "?s ` {..<?n} = {..<?n}"
    proof
      show "{..<?n} \<subseteq> ?s ` {..<?n}"
      proof
        fix k assume k: "k \<in> {..<?n}"
        show "k \<in> ?s ` {..<?n}"
        proof (cases k)
          case 0
          moreover have "?n - 1 + 1 = ?n" using assms(2) by simp
          ultimately show ?thesis
            by (intro image_eqI[of _ _ "?n - 1"]) (use assms(2) in \<open>simp_all only: mod_self, simp\<close>)
        next
          case (Suc m)
          then show ?thesis using k by (intro image_eqI[of _ _ m]) auto
        qed
      qed
    qed (use assms(2) in \<open>auto intro!: mod_less_divisor\<close>)
    then show ?thesis
      by (simp add: bij_betw_def eq_card_imp_inj_on)
  qed
  have "(\<Sum>i<?n. xs ! ?s i) = (\<Sum>i<?n. xs ! i)"
    using sum.reindex_bij_betw[OF bij, of "\<lambda>i. xs ! i"] .
  then have "(\<Sum>i<?n. xs ! i + xs ! ?s i) = 2 * sum_list xs"
    by (simp add: sum.distrib sum_list_sum_nth atLeast0LessThan)
  moreover have "(\<Sum>i<?n. c) < (\<Sum>i<?n. xs ! i + xs ! ?s i)"
    using pair assms(2) by (intro sum_strict_mono) (auto simp: lessThan_empty_iff)
  ultimately show ?thesis
    by simp
qed

lemma sum_bin_loads:
  assumes "mset (concat bins) = mset [0..<length ls]"
  shows "sum_list (map (bin_load ls) bins) = sum_list ls"
proof -
  have "sum_list (map (bin_load ls) bins) = sum_list (pick ls (concat bins))"
    by (induction bins) (simp_all add: bin_load_def)
  then show ?thesis
    using mset_pick[OF assms] by (metis sum_list_mset)
qed

lemma first_fit_two_approx:
  assumes ff: "first_fit_pack prepare p ls = Inr bins"
    and perm: "mset (prepare ls) = mset (indexed_lengths ls)" and nn: "\<forall>l\<in>set ls. 0 \<le> l"
    and opt: "mset (concat opt) = mset [0..<length ls]"
    and fits: "\<forall>b\<in>set opt. bin_load ls b \<le> bin_capacity p"
  shows "bins = [] \<or> length bins < 2 * length opt"
proof (cases "2 \<le> length bins")
  case True
  let ?c = "bin_capacity p"
  have part: "mset (concat bins) = mset [0..<length ls]"
    using first_fit_result[OF ff perm] by blast
  have "int (length bins) * ?c < 2 * sum_list ls"
    using sum_adjacent[of "map (bin_load ls) bins" ?c] first_fit_tight[OF ff perm nn] True
    by (simp add: sum_bin_loads[OF part])
  moreover have "sum_list ls \<le> int (length opt) * ?c"
    using sum_list_mono[of opt "bin_load ls" "\<lambda>_. ?c"] fits
    by (simp add: sum_bin_loads[OF opt] sum_list_triv)
  ultimately have "int (length bins) * ?c < int (2 * length opt) * ?c"
    by (simp add: algebra_simps)
  moreover have "0 \<le> ?c"
  proof -
    have "bins \<noteq> []" "[] \<notin> set bins"
      using True first_fit_result[OF ff perm] by (auto simp: ff_inv_def)
    then have "ls \<noteq> []"
      using part by (cases bins) auto
    with first_fit_error[of prepare ls p, OF perm] ff nn show ?thesis
      by (metis Inl_Inr_False list.set_intros(1) neq_Nil_conv order.trans not_less)
  qed
  ultimately show ?thesis
    by (simp add: mult_less_cancel_right)
next
  case False
  have "opt \<noteq> []" if "bins \<noteq> []"
  proof
    assume "opt = []"
    with opt have "mset (concat bins) = {#}"
      using first_fit_result[OF ff perm] by simp
    with that first_fit_result[OF ff perm] show False
      by (cases bins) (auto simp: ff_inv_def)
  qed
  with False show ?thesis
    by (cases opt) auto
qed

section \<open>Properties\<close>

text \<open>
  C36: Whatever algorithm is chosen (and whatever the shuffle draws), a successful \<open>pack\<close>
  uses every sequence exactly once and returns no empty bin.
\<close>

theorem pack_is_partition:
  assumes "packer_init cap mn mlt = Inr p"
    and "pack (pack_implementation draw alg) p ls = Inr bins"
  shows "mset (concat bins) = mset [0..<length ls] \<and> non_empty_bins bins"
  using packers.pack_result[OF assms(2,1)] by blast

theorem pack_is_partition_witness:
  "mset (concat [[0, 1, 3], [2, 4], [5, 6, 7], [8 :: nat]]) = mset [0..<9] \<and>
   non_empty_bins [[0, 1, 3], [2, 4], [5, 6, 7], [8]]"
  using pack_is_partition[of 100 "Some 3" "Some 4"
      "\<lparr>bin_capacity = 100, min_bin_count = Some 3, bin_count_multiple = Some 4\<rparr>" id
      MODIFIED_FIRST_FIT_DECREASING "[45, 40, 35, 12, 60, 20, 21, 22, 9]"
      "[[0, 1, 3], [2, 4], [5, 6, 7], [8]]"]
  by code_simp

text \<open>
  C10: When no length is negative, no bin that \<open>pack\<close> returns holds more than the capacity,
  also after the redistribution to the required number of bins.
\<close>

theorem pack_bins_fit:
  assumes "packer_init cap mn mlt = Inr p"
    and "pack (pack_implementation draw alg) p ls = Inr bins" and "\<forall>l\<in>set ls. 0 \<le> l"
  shows "\<forall>b\<in>set bins. bin_load ls b \<le> cap"
proof -
  have "bin_capacity p = cap"
    using assms(1) by (auto simp: packer_init_def split: if_splits)
  then show ?thesis
    using packers.pack_fits[OF assms(2,1,3)] by auto
qed

theorem pack_bins_fit_witness:
  "list_all (\<lambda>b. bin_load [4, 3, 5, 6] b \<le> 10) [[3, 0], [2], [1]]"
  using pack_bins_fit[of 10 None "Some 3" "\<lparr>bin_capacity = 10, min_bin_count = None, bin_count_multiple = Some 3\<rparr>"
      id FIRST_FIT_DECREASING "[4, 3, 5, 6]" "[[3, 0], [2], [1]]"]
  by code_simp

text \<open>
  The number of bins of a successful \<open>pack\<close> is the least number that is at least what the
  algorithm produced, at least \<open>min_bin_count\<close>, and a multiple of \<open>bin_count_multiple\<close>.
\<close>

theorem pack_bin_count:
  assumes "packer_init cap mn mlt = Inr p"
    and "pack (pack_implementation draw alg) p ls = Inr r"
  shows "\<exists>bins. pack_implementation draw alg p ls = Inr bins \<and>
    (let good = (\<lambda>n. length bins \<le> n \<and> (case mn of None \<Rightarrow> True | Some m \<Rightarrow> m \<le> int n) \<and>
                     (case mlt of None \<Rightarrow> True | Some k \<Rightarrow> k dvd int n))
     in good (length r) \<and> (\<forall>n. good n \<longrightarrow> length r \<le> n))"
proof -
  from packers.pack_result[OF assms(2,1)] obtain bins
    where b: "pack_implementation draw alg p ls = Inr bins"
      and n: "int (length r) = target_bin_count p (int (length bins))" by blast
  have p: "min_bin_count p = mn" "bin_count_multiple p = mlt"
    "case bin_count_multiple p of None \<Rightarrow> True | Some k \<Rightarrow> 1 \<le> k"
    using assms(1) by (auto simp: packer_init_def split: if_splits option.splits)
  have "length r \<le> m" if "length bins \<le> m" "case mn of None \<Rightarrow> True | Some x \<Rightarrow> x \<le> int m"
    "case mlt of None \<Rightarrow> True | Some k \<Rightarrow> k dvd int m" for m
    using target_bin_count_least[of "int (length bins)" "int m" p] that p n
    by (auto split: option.splits)
  with b n p target_bin_count_props[OF p(3), of "int (length bins)"] show ?thesis
    by (auto simp: Let_def split: option.splits)
qed

theorem pack_bin_count_witness:
  "\<exists>bins. pack_implementation id FIRST_FIT_DECREASING
      \<lparr>bin_capacity = 10, min_bin_count = None, bin_count_multiple = Some 3\<rparr> [4, 3, 5, 6] = Inr bins \<and>
    length bins \<le> length [[3, 0], [2], [1 :: nat]] \<and> 3 dvd int (length [[3, 0], [2], [1 :: nat]])"
proof -
  have "packer_init 10 None (Some 3) =
      Inr \<lparr>bin_capacity = 10, min_bin_count = None, bin_count_multiple = Some 3\<rparr>"
    and "pack (pack_implementation id FIRST_FIT_DECREASING)
      \<lparr>bin_capacity = 10, min_bin_count = None, bin_count_multiple = Some 3\<rparr> [4, 3, 5, 6] =
      Inr [[3, 0], [2], [1]]"
    by code_simp+
  from pack_bin_count[OF this] show ?thesis
    unfolding Let_def option.case by blast
qed

text \<open>
  \<open>pack\<close> raises exactly when the algorithm rejects the lengths (one exceeds the capacity,
  or the modified packer is given a non-positive length or capacity) or when the required
  number of bins exceeds the number of sequences; always a \<open>ValueError\<close>.  So the branch of
  the redistribution that reports a bug is never reached.
\<close>

theorem pack_raises_iff:
  assumes "packer_init cap mn mlt = Inr p"
  shows "pack (pack_implementation draw alg) p ls = Inl e \<longleftrightarrow>
    e = ValueError \<and>
    (rejects alg cap ls \<or>
     (\<exists>bins. pack_implementation draw alg p ls = Inr bins \<and>
        int (length ls) < target_bin_count p (int (length bins))))"
proof -
  have "bin_capacity p = cap"
    using assms by (auto simp: packer_init_def split: if_splits)
  then show ?thesis
    using packers.pack_error[OF assms, of draw alg ls e]
      pack_implementation_error[of draw alg p ls] by auto
qed

theorem pack_raises_iff_witness:
  "pack (pack_implementation id CONCATENATIVE)
     \<lparr>bin_capacity = 10, min_bin_count = Some 3, bin_count_multiple = None\<rparr> [4, 3] = Inl ValueError"
proof -
  have "int (length [4, 3 :: int]) < target_bin_count
     \<lparr>bin_capacity = 10, min_bin_count = Some 3, bin_count_multiple = None\<rparr> (int (length [[0, 1 :: nat]]))"
    "pack_implementation id CONCATENATIVE
      \<lparr>bin_capacity = 10, min_bin_count = Some 3, bin_count_multiple = None\<rparr> [4, 3] = Inr [[0, 1]]"
    "packer_init 10 (Some 3) None = Inr \<lparr>bin_capacity = 10, min_bin_count = Some 3, bin_count_multiple = None\<rparr>"
    by code_simp+
  with pack_raises_iff[of 10 "Some 3" None] show ?thesis by blast
qed

text \<open>
  First-fit (decreasing or shuffled) is a 2-approximation: for non-negative lengths it
  uses fewer than twice as many bins as any packing whose bins respect the capacity.
\<close>

theorem first_fit_near_optimal:
  assumes "alg = FIRST_FIT_DECREASING \<or> alg = FIRST_FIT_SHUFFLE"
    and "pack_implementation draw alg p ls = Inr bins" and "\<forall>l\<in>set ls. 0 \<le> l"
    and "mset (concat opt) = mset [0..<length ls]" and "\<forall>b\<in>set opt. bin_load ls b \<le> bin_capacity p"
  shows "bins = [] \<or> length bins < 2 * length opt"
  using assms first_fit_two_approx[of ffd_prepare p ls bins opt]
    first_fit_two_approx[of "ffs_prepare draw" p ls bins opt]
  by (elim disjE) (simp_all add: pack_implementation_def)

theorem first_fit_near_optimal_witness:
  "length [[3 :: nat, 0], [2, 1]] < 2 * length [[0 :: nat, 2], [1, 3]]"
  using first_fit_near_optimal[of FIRST_FIT_DECREASING id
      "\<lparr>bin_capacity = 10, min_bin_count = None, bin_count_multiple = None\<rparr>"
      "[4, 3, 5, 6]" "[[3, 0], [2, 1]]" "[[0, 2], [1, 3]]"]
  by code_simp

text \<open>
  The concatenative packer keeps the sequences in their original order: its bins, one
  after the other, are \<open>0, 1, 2, \<dots>\<close>.
\<close>

theorem concatenative_keeps_order:
  assumes "concatenative_pack lim p ls = Inr bins"
  shows "concat bins = [0..<length ls]"
  using assms concat_loop_concat[of "bin_capacity p" lim "List.enumerate 0 ls" "[]" "[]" 0]
  by (auto simp: concatenative_pack_def split: sum.splits)

theorem concatenative_keeps_order_witness:
  "concat [[0, 1], [2], [3 :: nat]] = [0..<length [4, 3, 5, 6 :: int]]"
  by (rule concatenative_keeps_order[of "-1"
        "\<lparr>bin_capacity = 10, min_bin_count = None, bin_count_multiple = None\<rparr>"]) code_simp

text \<open>
  The last phase of the modified packer is not first-fit decreasing, as its comments say:
  it fills the least loaded bin.  On seven lengths, none above half the capacity (so that
  only the last phase places items), it needs three bins where first-fit decreasing needs two.
\<close>

theorem mffd_last_phase_is_not_ffd:
  "\<exists>p ls a b. list_all (\<lambda>l. 2 * l \<le> bin_capacity p) ls \<and>
     pack_implementation draw MODIFIED_FIRST_FIT_DECREASING p ls = Inr a \<and>
     pack_implementation draw FIRST_FIT_DECREASING p ls = Inr b \<and> length b < length a"
proof -
  let ?p = "\<lparr>bin_capacity = 20, min_bin_count = None, bin_count_multiple = None\<rparr>"
  let ?ls = "[9, 8, 8, 8, 3, 2, 2 :: int]"
  have "list_all (\<lambda>l. 2 * l \<le> bin_capacity ?p) ?ls"
    and "case mffd_pack ?p ?ls of Inl _ \<Rightarrow> False | Inr a \<Rightarrow> length a = 3"
    and "case first_fit_pack ffd_prepare ?p ?ls of Inl _ \<Rightarrow> False | Inr b \<Rightarrow> length b = 2"
    by code_simp+
  then show ?thesis
    by (intro exI[of _ ?p] exI[of _ ?ls])
       (auto simp: pack_implementation_def split: sum.splits)
qed

end
