(* ===== verification/Sharding.thy ===== *)
theory Sharding
  imports Batches Packing
begin

text \<open>
  \<open>BatchedDataDict.shard_by_batch_size\<close> (\<open>nemo_rl/distributed/batched_data_dict.py\<close>): splitting
  a batch over the data-parallel ranks, plainly, with dynamic batching (sorting by length and
  planning microbatches of one padded length) or with sequence packing (one bin per
  microbatch).  The random shuffle of a packer is the parameter \<open>draw\<close>, one generator per chunk.
\<close>

section \<open>Arguments and validation\<close>

record dynamic_args =
  dyn_max_tokens :: int
  dyn_round :: int
  dyn_input_key :: string
  dyn_lengths_key :: string

record packing_args =
  pk_max_tokens :: int
  pk_lengths_key :: string
  pk_algorithm :: string
  pk_order :: "string option"
  pk_pad_multiple :: int

record layout =
  total_size :: nat
  chunk_size :: nat
  num_chunks :: nat
  shard_size :: nat

definition validate_shards ::
  "batch \<Rightarrow> nat \<Rightarrow> nat option \<Rightarrow> bool \<Rightarrow> bool \<Rightarrow> bool \<Rightarrow> layout res" where
  "validate_shards b shards batch_size uneven has_dyn has_pack =
     bindR (assertR (\<not> (uneven \<and> batch_size \<noteq> None))) (\<lambda>_.
     bindR (assertR (\<not> (has_dyn \<and> has_pack))) (\<lambda>_.
     bindR (common_size b) (\<lambda>total.
       let bs = (case batch_size of None \<Rightarrow> total | Some n \<Rightarrow> n)
       in bindR (guardR ZeroDivisionError (bs \<noteq> 0)) (\<lambda>_.
          bindR (assertR (total mod bs = 0)) (\<lambda>_.
          bindR (guardR ZeroDivisionError (shards \<noteq> 0)) (\<lambda>_.
          bindR (assertR (uneven \<or> bs mod shards = 0)) (\<lambda>_.
            Inr \<lparr>total_size = total, chunk_size = bs, num_chunks = total div bs,
                 shard_size = (if uneven then (bs + shards - 1) div shards else bs div shards)\<rparr>)))))))"

section \<open>Plain shards\<close>

text \<open>The ranges of rows of shard \<open>s\<close>, one per chunk, empty ones left out.\<close>

definition shard_ranges :: "layout \<Rightarrow> bool \<Rightarrow> nat \<Rightarrow> (nat \<times> nat) list" where
  "shard_ranges lay uneven s =
     filter (\<lambda>(a, z). a < z)
       (map (\<lambda>c. let start = c * chunk_size lay + s * shard_size lay;
                     stop = c * chunk_size lay + (s + 1) * shard_size lay
                 in if uneven then (min start (total_size lay), min stop (total_size lay))
                    else (start, stop))
         [0..<num_chunks lay])"

definition range_rows :: "(nat \<times> nat) list \<Rightarrow> nat list" where
  "range_rows rs = concat (map (\<lambda>(a, z). [a..<z]) rs)"

definition plain_shard :: "layout \<Rightarrow> bool \<Rightarrow> batch \<Rightarrow> nat \<Rightarrow> batch" where
  "plain_shard lay uneven b s =
     new_batch (map_columns (\<lambda>c. take_rows c (range_rows (shard_ranges lay uneven s))) b)"

section \<open>Dynamic batching\<close>

text \<open>A column of sequence lengths must be a 1-D tensor (\<open>.item()\<close> is called on its entries).\<close>

fun length_tensor :: "column \<Rightarrow> int list res" where
  "length_tensor (Vector xs) = Inr xs"
| "length_tensor _ = Inl TypeError"

text \<open>One chunk's rows, sorted by length (stably), then dealt out to the shards by strides.\<close>

definition dyn_chunk_order :: "nat \<Rightarrow> nat \<Rightarrow> int list \<Rightarrow> nat \<Rightarrow> nat list" where
  "dyn_chunk_order shards bs lens start =
     (let ixs = map (\<lambda>i. i + start) (sort_key (\<lambda>i. lens ! (start + i)) [0..<bs])
      in concat (map (\<lambda>i. stride i shards ixs) [0..<shards]))"

definition dyn_sorted_indices :: "layout \<Rightarrow> nat \<Rightarrow> int list \<Rightarrow> nat list" where
  "dyn_sorted_indices lay shards lens =
     concat (map (\<lambda>c. dyn_chunk_order shards (chunk_size lay) lens (c * chunk_size lay))
                 [0..<num_chunks lay])"

text \<open>The longest of the shards' rows at one position, starting from 0.\<close>

definition max_at :: "int list list \<Rightarrow> nat \<Rightarrow> int res" where
  "max_at lenss i =
     bindR (mapR (\<lambda>ls. bindR (guardR IndexError (i < length ls)) (\<lambda>_. Inr (ls ! i))) lenss)
       (\<lambda>xs. Inr (foldl max 0 xs))"

type_synonym mb_state = "(nat \<times> nat) list \<times> int list \<times> int"

definition dyn_step :: "int \<Rightarrow> nat \<Rightarrow> int \<Rightarrow> mb_state \<Rightarrow> mb_state" where
  "dyn_step cap i seqlen st =
     (case st of (ixs, lens, mx) \<Rightarrow>
        (let (s, e) = last ixs;
             curr_mbs_size = e - s + 1;
             mx' = max mx seqlen
         in if int curr_mbs_size * mx' \<le> cap
            then (butlast ixs @ [(s, e + 1)], butlast lens @ [mx'], mx')
            else (ixs @ [(i, i + 1)], lens @ [seqlen], seqlen)))"

fun dyn_loop ::
  "int \<Rightarrow> int \<Rightarrow> nat \<Rightarrow> int list list \<Rightarrow> nat list \<Rightarrow> mb_state \<Rightarrow> mb_state res" where
  "dyn_loop cap rnd width lenss [] st = Inr st"
| "dyn_loop cap rnd width lenss (i # is) st =
     bindR (max_at lenss i) (\<lambda>m.
     bindR (guardR ZeroDivisionError (rnd \<noteq> 0)) (\<lambda>_.
       let seqlen = min (round_up rnd m) (int width)
       in bindR (assertR (seqlen \<le> cap)) (\<lambda>_.
            dyn_loop cap rnd width lenss is (dyn_step cap i seqlen st))))"

definition dyn_plan ::
  "layout \<Rightarrow> int \<Rightarrow> int \<Rightarrow> nat \<Rightarrow> int list list \<Rightarrow> ((nat \<times> nat) list \<times> int list) list res" where
  "dyn_plan lay cap rnd width shard_lens =
     mapR (\<lambda>c.
       bindR (dyn_loop cap rnd width
                (map (slice (c * shard_size lay) ((c + 1) * shard_size lay)) shard_lens)
                [0..<shard_size lay] ([(0, 0)], [0], 0))
         (\<lambda>(ixs, lens, mx). Inr (ixs, lens)))
       [0..<num_chunks lay]"

fun width_of :: "column \<Rightarrow> nat res" where
  "width_of (Matrix w rows) = Inr w"
| "width_of (Vector xs) = Inl IndexError"
| "width_of _ = Inl AttributeError"

definition shard_dynamic ::
  "layout \<Rightarrow> bool \<Rightarrow> dynamic_args \<Rightarrow> batch \<Rightarrow> nat \<Rightarrow> (batch list \<times> nat list) res" where
  "shard_dynamic lay uneven args b shards =
     bindR (if num_chunks lay = 0 then Inr []
            else bindR (get_col b (dyn_lengths_key args)) length_tensor) (\<lambda>lens.
       let order = dyn_sorted_indices lay shards lens;
           data = new_batch (map_columns (\<lambda>c. take_rows c order) b);
           parts = map (plain_shard lay uneven data) [0..<shards]
       in bindR (if num_chunks lay = 0 then Inr []
                 else mapR (\<lambda>p. bindR (get_col p (dyn_lengths_key args)) length_tensor) parts) (\<lambda>plens.
          bindR (if num_chunks lay = 0 then Inr 0
                 else bindR (get_col data (dyn_input_key args)) width_of) (\<lambda>width.
          bindR (dyn_plan lay (dyn_max_tokens args) (dyn_round args) width plens) (\<lambda>plan.
            Inr (map (\<lambda>p. p\<lparr>micro_batch_indices := Some (map fst plan),
                             micro_batch_lengths := Some (map snd plan)\<rparr>) parts,
                 order)))))"

section \<open>Sequence packing\<close>

text \<open>\<open>torch.tensor(input_lens)\<close> when the lengths are a list of integers.\<close>

fun length_values :: "column \<Rightarrow> int list res" where
  "length_values (Vector xs) = Inr xs"
| "length_values (Objects xs) = mapR (\<lambda>v. case v of PInt n \<Rightarrow> Inr n | _ \<Rightarrow> Inl TypeError) xs"
| "length_values _ = Inl TypeError"

definition padded_chunk :: "int \<Rightarrow> int list \<Rightarrow> nat \<Rightarrow> nat \<Rightarrow> int list" where
  "padded_chunk pad lens start bs = map (round_up pad) (slice start (start + bs) lens)"

definition pack_chunks ::
  "(nat \<Rightarrow> nat \<Rightarrow> nat) \<Rightarrow> packing_algorithm \<Rightarrow> packer \<Rightarrow> int list list \<Rightarrow> nat list list list res" where
  "pack_chunks draw alg p chunks =
     mapR (\<lambda>(c, lens). pack (pack_implementation (draw c) alg) p lens) (List.enumerate 0 chunks)"

definition order_bins :: "bool \<Rightarrow> int list \<Rightarrow> nat list list \<Rightarrow> nat list list" where
  "order_bins largest_first lens bins =
     (if largest_first then sort_desc (\<lambda>b. sum_list (pick lens b)) bins else bins)"

text \<open>\<open>[[0, n0], [n0, n0 + n1], \<dots>]\<close>, each entry read off the end of the previous one.\<close>

definition add_micro :: "(nat \<times> nat) list \<Rightarrow> nat list \<Rightarrow> (nat \<times> nat) list" where
  "add_micro acc bin =
     (if acc = [] then [(0, length bin)]
      else acc @ [(snd (last acc), snd (last acc) + length bin)])"

definition micro_indices :: "nat list list \<Rightarrow> (nat \<times> nat) list" where
  "micro_indices bins = foldl add_micro [] bins"

text \<open>The bins of shard \<open>s\<close> in every chunk, in execution order.\<close>

definition shard_bins ::
  "bool \<Rightarrow> nat \<Rightarrow> int list list \<Rightarrow> nat list list list \<Rightarrow> nat \<Rightarrow> nat list list list" where
  "shard_bins largest_first shards chunks bins s =
     map (\<lambda>(lens, bs). order_bins largest_first lens (stride s shards bs)) (zip chunks bins)"

definition global_bins :: "nat \<Rightarrow> nat list list list \<Rightarrow> nat list list" where
  "global_bins bs cbins =
     concat (map (\<lambda>(c, bins). map (map (\<lambda>i. i + c * bs)) bins) (List.enumerate 0 cbins))"

definition packed_shard ::
  "batch \<Rightarrow> nat \<Rightarrow> int list list \<Rightarrow> nat list list list \<Rightarrow> batch res" where
  "packed_shard b bs chunks cbins =
     bindR (mapR (select_indices b) (global_bins bs cbins)) (\<lambda>parts.
     bindR (guardR IndexError (list_all (\<lambda>bins. bins \<noteq> []) cbins)) (\<lambda>_.
     bindR (from_batches (\<lambda>_. None) parts) (\<lambda>sh.
       Inr (sh\<lparr>micro_batch_indices := Some (map micro_indices cbins),
               micro_batch_lengths :=
                 Some (map (\<lambda>(lens, bins). map (\<lambda>b. sum_list (pick lens b)) bins) (zip chunks cbins)),
               elem_counts_per_gb :=
                 Some (map (\<lambda>bins. snd (last (micro_indices bins))) cbins)\<rparr>))))"

definition shard_packed ::
  "(nat \<Rightarrow> nat \<Rightarrow> nat) \<Rightarrow> layout \<Rightarrow> packing_args \<Rightarrow> batch \<Rightarrow> nat \<Rightarrow> (batch list \<times> nat list) res" where
  "shard_packed draw lay args b shards =
     bindR (guardR ValueError (pk_order args \<in> {None, Some ''packer'', Some ''largest_first''})) (\<lambda>_.
     bindR (get_packer (pk_algorithm args) (pk_max_tokens args) (Some (int shards)) (Some (int shards)))
       (\<lambda>(alg, p).
     bindR (bindR (get_col b (pk_lengths_key args)) length_values) (\<lambda>lens.
     bindR (guardR ZeroDivisionError (pk_pad_multiple args \<noteq> 0 \<or> num_chunks lay = 0)) (\<lambda>_.
       let chunks = map (\<lambda>c. padded_chunk (pk_pad_multiple args) lens (c * chunk_size lay) (chunk_size lay))
                        [0..<num_chunks lay]
       in bindR (pack_chunks draw alg p chunks) (\<lambda>bins.
          let cbins = map (shard_bins (pk_order args = Some ''largest_first'') shards chunks bins) [0..<shards]
          in bindR (mapR (packed_shard b (chunk_size lay) chunks) cbins) (\<lambda>parts.
               Inr (parts, concat (map (\<lambda>cb. concat (global_bins (chunk_size lay) cb)) cbins))))))))"

section \<open>The entry point\<close>

definition shard_by_batch_size ::
  "(nat \<Rightarrow> nat \<Rightarrow> nat) \<Rightarrow> batch \<Rightarrow> nat \<Rightarrow> nat option \<Rightarrow> bool \<Rightarrow> dynamic_args option \<Rightarrow>
   packing_args option \<Rightarrow> (batch list \<times> nat list option) res" where
  "shard_by_batch_size draw b shards batch_size uneven dyn pk =
     bindR (validate_shards b shards batch_size uneven (dyn \<noteq> None) (pk \<noteq> None)) (\<lambda>lay.
       case dyn of
         Some args \<Rightarrow> bindR (shard_dynamic lay uneven args b shards) (\<lambda>(ps, ixs). Inr (ps, Some ixs))
       | None \<Rightarrow>
           (case pk of
              Some args \<Rightarrow> bindR (shard_packed draw lay args b shards) (\<lambda>(ps, ixs). Inr (ps, Some ixs))
            | None \<Rightarrow> Inr (map (plain_shard lay uneven b) [0..<shards], None)))"

section \<open>Validated layouts\<close>

lemma validate_shards_Inr:
  assumes "validate_shards b shards batch_size uneven dy pk = Inr lay"
  shows "common_size b = Inr (total_size lay) \<and> 0 < chunk_size lay \<and> 0 < shards \<and>
    total_size lay = num_chunks lay * chunk_size lay \<and>
    (\<not> uneven \<longrightarrow> chunk_size lay = shards * shard_size lay) \<and>
    (uneven \<longrightarrow> shard_size lay = (chunk_size lay + shards - 1) div shards \<and>
       num_chunks lay = 1 \<and> chunk_size lay = total_size lay) \<and>
    chunk_size lay = (case batch_size of None \<Rightarrow> total_size lay | Some n \<Rightarrow> n)"
proof -
  from assms obtain total where t: "common_size b = Inr total" and u: "\<not> (uneven \<and> batch_size \<noteq> None)"
    and rest: "(let bs = (case batch_size of None \<Rightarrow> total | Some n \<Rightarrow> n)
       in bs \<noteq> 0 \<and> total mod bs = 0 \<and> shards \<noteq> 0 \<and> (uneven \<or> bs mod shards = 0) \<and>
          lay = \<lparr>total_size = total, chunk_size = bs, num_chunks = total div bs,
            shard_size = (if uneven then (bs + shards - 1) div shards else bs div shards)\<rparr>)"
    unfolding validate_shards_def bindR_Inr Let_def by auto
  define bs where "bs = (case batch_size of None \<Rightarrow> total | Some n \<Rightarrow> n)"
  from rest have r: "bs \<noteq> 0" "total mod bs = 0" "shards \<noteq> 0" "uneven \<or> bs mod shards = 0"
    and lay: "lay = \<lparr>total_size = total, chunk_size = bs, num_chunks = total div bs,
            shard_size = (if uneven then (bs + shards - 1) div shards else bs div shards)\<rparr>"
    by (simp_all add: bs_def Let_def)
  have "total div bs * bs = total" "bs mod shards = 0 \<Longrightarrow> shards * (bs div shards) = bs"
    using r(2) by (simp_all add: mod_0_imp_dvd)
  moreover have "uneven \<Longrightarrow> bs = total"
    using u by (simp add: bs_def)
  ultimately show ?thesis
    using r(1,3,4) t by (auto simp: lay bs_def[symmetric]) (simp_all add: bs_def lay split: option.splits)
qed

section \<open>Row ranges\<close>

lemma concat_ranges: "concat (map (\<lambda>s. [a + s * z..<a + (s + 1) * z]) [0..<n]) = [a..<a + n * (z :: nat)]"
proof (induction n)
  case (Suc n)
  have e: "a + (n + 1) * z = a + n * z + z" "Suc n = n + 1"
    by simp_all
  have "concat (map (\<lambda>s. [a + s * z..<a + (s + 1) * z]) [0..<Suc n]) =
      [a..<a + n * z] @ [a + n * z..<a + n * z + z]"
    using Suc by (simp add: add.assoc add.commute[of z])
  also have "\<dots> = [a..<a + Suc n * z]"
    by (simp only: e upt_add_eq_append[OF le_add1])
  finally show ?case .
qed simp

lemma mset_concat_sum: "mset (concat (map f [0..<n])) = (\<Sum>i<n. mset (f i))"
  by (induction n) (simp_all add: add.commute)

lemma range_rows_filter: "range_rows (filter (\<lambda>(a, z). a < z) rs) = range_rows rs"
  by (induction rs) (auto simp: range_rows_def)

lemma range_rows_even:
  "range_rows (shard_ranges lay False s) =
     concat (map (\<lambda>c. [c * chunk_size lay + s * shard_size lay..<c * chunk_size lay + (s + 1) * shard_size lay])
       [0..<num_chunks lay])"
  by (simp add: shard_ranges_def range_rows_filter) (simp add: range_rows_def comp_def Let_def)

lemma even_rows_perm:
  assumes "chunk_size lay = shards * shard_size lay" and "total_size lay = num_chunks lay * chunk_size lay"
  shows "mset (concat (map (\<lambda>s. range_rows (shard_ranges lay False s)) [0..<shards])) = mset [0..<total_size lay]"
proof -
  let ?r = "\<lambda>s c. [c * chunk_size lay + s * shard_size lay..<c * chunk_size lay + (s + 1) * shard_size lay]"
  have "mset (concat (map (\<lambda>s. range_rows (shard_ranges lay False s)) [0..<shards])) =
      (\<Sum>s<shards. \<Sum>c<num_chunks lay. mset (?r s c))"
    by (simp only: mset_concat_sum range_rows_even)
  also have "\<dots> = (\<Sum>c<num_chunks lay. \<Sum>s<shards. mset (?r s c))"
    by (rule sum.swap)
  also have "\<dots> = (\<Sum>c<num_chunks lay. mset [0 + c * chunk_size lay..<0 + (c + 1) * chunk_size lay])"
  proof (rule sum.cong[OF refl])
    fix c
    have "(\<Sum>s<shards. mset (?r s c)) = mset [c * chunk_size lay..<c * chunk_size lay + shards * shard_size lay]"
      by (simp only: mset_concat_sum[symmetric] concat_ranges)
    then show "(\<Sum>s<shards. mset (?r s c)) = mset [0 + c * chunk_size lay..<0 + (c + 1) * chunk_size lay]"
      by (simp add: assms(1) add.commute)
  qed
  also have "\<dots> = mset [0..<total_size lay]"
    by (simp only: mset_concat_sum[symmetric] concat_ranges assms(2)) simp
  finally show ?thesis .
qed

lemma even_rows_length:
  "length (range_rows (shard_ranges lay False s)) = num_chunks lay * shard_size lay"
  by (simp add: range_rows_even length_concat comp_def sum_list_triv)

lemma even_rows_less:
  assumes "chunk_size lay = shards * shard_size lay" and "total_size lay = num_chunks lay * chunk_size lay"
    and "s < shards" and "i \<in> set (range_rows (shard_ranges lay False s))"
  shows "i < total_size lay"
proof -
  have "i \<in># mset (concat (map (\<lambda>s. range_rows (shard_ranges lay False s)) [0..<shards]))"
    using assms(3,4) by auto
  then show ?thesis
    unfolding even_rows_perm[OF assms(1,2)] by simp
qed

lemma concat_capped_ranges:
  "concat (map (\<lambda>s. [min (s * z) t..<min ((s + 1) * z) t]) [0..<n]) = [0..<min (n * z) (t :: nat)]"
proof (induction n)
  case (Suc n)
  have "min (n * z) t \<le> min (Suc n * z) t"
    by (simp add: min_def)
  then have "[0..<min (n * z) t] @ [min (n * z) t..<min (Suc n * z) t] = [0..<min (Suc n * z) t]"
    by (metis le_add_diff_inverse upt_add_eq_append zero_le)
  with Suc show ?case by simp
qed simp

lemma uneven_rows:
  assumes "num_chunks lay = 1"
  shows "range_rows (shard_ranges lay True s) =
    [min (s * shard_size lay) (total_size lay)..<min ((s + 1) * shard_size lay) (total_size lay)]"
  using assms by (simp add: shard_ranges_def range_rows_def Let_def min_def)

lemma ceil_div_mult:
  assumes "0 < (n :: nat)"
  shows "t \<le> n * ((t + n - 1) div n)"
proof -
  have "n * ((t + n - 1) div n) + (t + n - 1) mod n = t + n - 1"
    by (rule mult_div_mod_eq)
  moreover have "(t + n - 1) mod n < n"
    using assms by simp
  ultimately show ?thesis by linarith
qed

section \<open>Bins of the shards\<close>

lemma mset_concat_perm: "mset xss = mset yss \<Longrightarrow> mset (concat xss) = mset (concat yss)"
  by (metis mset_concat mset_map sum_mset_sum_list)

lemma order_bins_perm [simp]:
  "mset (order_bins lf lens bins) = mset bins"
  "mset (concat (order_bins lf lens bins)) = mset (concat bins)"
  "length (order_bins lf lens bins) = length bins"
  "set (order_bins lf lens bins) = set bins"
  by (auto simp: order_bins_def intro: mset_concat_perm)

lemma order_bins_eq_nil [simp]: "order_bins lf lens bins = [] \<longleftrightarrow> bins = []"
  by (metis length_0_conv order_bins_perm(3))

text \<open>What the packer guarantees of the bins of one chunk.\<close>

definition bins_ok :: "nat \<Rightarrow> nat \<Rightarrow> int \<Rightarrow> int list \<Rightarrow> nat list list \<Rightarrow> bool" where
  "bins_ok shards bs cap lens bins \<longleftrightarrow>
     mset (concat bins) = mset [0..<bs] \<and> [] \<notin> set bins \<and> shards dvd length bins \<and>
     shards \<le> length bins \<and> ((\<forall>l\<in>set lens. 0 \<le> l) \<longrightarrow> (\<forall>b\<in>set bins. sum_list (pick lens b) \<le> cap))"

lemma pack_bins_ok:
  assumes "get_packer name cap (Some (int shards)) (Some (int shards)) = Inr (alg, p)"
    and "pack (pack_implementation draw alg) p lens = Inr bins" and "length lens = bs"
  shows "bins_ok shards bs cap lens bins"
proof -
  from assms(1) have init: "packer_init cap (Some (int shards)) (Some (int shards)) = Inr p"
    by (auto simp: get_packer_def map_sum_def split: sum.splits)
  then have p: "p = \<lparr>bin_capacity = cap, min_bin_count = Some (int shards),
      bin_count_multiple = Some (int shards)\<rparr>" "1 \<le> int shards"
    by (auto simp: packer_init_def split: if_splits)
  from packers.pack_result[OF assms(2) init] obtain bs0 :: "nat list list"
    where r: "mset (concat bins) = mset [0..<length lens]" "non_empty_bins bins"
      "int (length bins) = target_bin_count p (int (length bs0))"
    by blast
  have "int shards \<le> int (length bins)" "int shards dvd int (length bins)"
    using target_bin_count_props[of p "int (length bs0)"] p r(3) by auto
  then have "shards \<le> length bins" "shards dvd length bins"
    by simp_all
  moreover have "\<forall>b\<in>set bins. sum_list (pick lens b) \<le> cap" if "\<forall>l\<in>set lens. 0 \<le> l"
    using packers.pack_fits[OF assms(2) init that] p(1) by (auto simp: bin_load_def)
  ultimately show ?thesis
    using r assms(3) by (auto simp: bins_ok_def non_empty_bins_def)
qed

lemma micro_indices_snoc:
  "micro_indices (bins @ [b]) = add_micro (micro_indices bins) b"
  by (simp add: micro_indices_def)

text \<open>The microbatch ranges are consecutive, one per bin, each as long as its bin.\<close>

lemma micro_indices_eq:
  "micro_indices bins =
     map (\<lambda>k. (length (concat (take k bins)), length (concat (take (Suc k) bins)))) [0..<length bins]"
proof (induction bins rule: rev_induct)
  case (snoc b bins)
  have "micro_indices (bins @ [b]) =
      micro_indices bins @ [(length (concat bins), length (concat bins) + length b)]"
  proof (cases "bins = []")
    case False
    then have "snd (last (micro_indices bins)) = length (concat bins)" "micro_indices bins \<noteq> []"
      by (simp_all add: snoc.IH last_map last_upt)
    then show ?thesis
      by (simp add: micro_indices_snoc add_micro_def)
  qed (simp add: micro_indices_def add_micro_def)
  then show ?case
    by (simp add: snoc.IH)
qed (simp add: micro_indices_def)

lemma length_micro_indices [simp]: "length (micro_indices bins) = length bins"
  by (simp add: micro_indices_eq)

lemma last_micro_indices: "bins \<noteq> [] \<Longrightarrow> snd (last (micro_indices bins)) = length (concat bins)"
  by (simp add: micro_indices_eq last_map last_upt)

lemma pick_micro_range:
  assumes "k < length bins"
  shows "pick (concat bins) [length (concat (take k bins))..<length (concat (take (Suc k) bins))] = bins ! k"
proof -
  have "concat bins = concat (take k bins) @ bins ! k @ concat (drop (Suc k) bins)"
    using assms by (metis concat.simps(2) concat_append id_take_nth_drop)
  moreover have "concat (take (Suc k) bins) = concat (take k bins) @ bins ! k"
    using assms by (simp add: take_Suc_conv_app_nth)
  ultimately show ?thesis
    by (simp add: pick_slice slice_def)
qed

section \<open>Packed shards\<close>

lemma concat_concat_map: "concat (concat xsss) = concat (map concat xsss)"
  by (induction xsss) simp_all

lemma concat_global_bins:
  "concat (global_bins bs cbins) =
     concat (map (\<lambda>c. map (\<lambda>i. i + c * bs) (concat (cbins ! c))) [0..<length cbins])"
proof -
  have "List.enumerate 0 cbins = map (\<lambda>c. (c, cbins ! c)) [0..<length cbins]"
    by (simp add: enumerate_eq_zip zip_map_fst_snd) (rule nth_equalityI; simp)
  then show ?thesis
    by (simp add: global_bins_def concat_concat_map comp_def map_concat)
qed

lemma shard_bins_nth:
  "length chunks = nc \<Longrightarrow> length bins = nc \<Longrightarrow> c < nc \<Longrightarrow>
     shard_bins lf shards chunks bins s ! c = order_bins lf (chunks ! c) (stride s shards (bins ! c))"
  by (simp add: shard_bins_def)

lemma length_shard_bins [simp]:
  "length (shard_bins lf shards chunks bins s) = min (length chunks) (length bins)"
  by (simp add: shard_bins_def)

lemma image_mset_sums: "(\<Sum>s<n. image_mset f (g s)) = image_mset f (\<Sum>s<(n :: nat). g s)"
  by (induction n) simp_all

lemma packed_rows_perm:
  assumes len: "length chunks = nc" "length bins = nc" and sh: "0 < shards"
    and part: "\<forall>c<nc. mset (concat (bins ! c)) = mset [0..<bs]"
  shows "mset (concat (map (\<lambda>s. concat (global_bins bs (shard_bins lf shards chunks bins s))) [0..<shards])) =
    mset [0..<nc * bs]"
proof -
  let ?f = "\<lambda>c i. i + c * bs"
  let ?cb = "\<lambda>s c. mset (concat (stride s shards (bins ! c)))"
  have "mset (concat (map (\<lambda>s. concat (global_bins bs (shard_bins lf shards chunks bins s))) [0..<shards])) =
      (\<Sum>s<shards. \<Sum>c<nc. image_mset (?f c) (?cb s c))"
    by (simp only: mset_concat_sum concat_global_bins length_shard_bins len min.idem mset_map)
       (intro sum.cong refl, simp add: shard_bins_nth[OF len])
  also have "\<dots> = (\<Sum>c<nc. \<Sum>s<shards. image_mset (?f c) (?cb s c))"
    by (rule sum.swap)
  also have "\<dots> = (\<Sum>c<nc. mset [0 + c * bs..<0 + (c + 1) * bs])"
  proof (rule sum.cong[OF refl])
    fix c assume c: "c \<in> {..<nc}"
    have "(\<Sum>s<shards. ?cb s c) = mset (concat (map (\<lambda>s. concat (stride s shards (bins ! c))) [0..<shards]))"
      by (simp only: mset_concat_sum)
    also have "\<dots> = mset (concat (concat (map (\<lambda>s. stride s shards (bins ! c)) [0..<shards])))"
      by (simp add: concat_concat_map comp_def)
    also have "\<dots> = mset (concat (bins ! c))"
      by (rule mset_concat_perm, rule mset_strides[OF sh])
    finally have "(\<Sum>s<shards. ?cb s c) = mset [0..<bs]"
      using part c by simp
    then have "(\<Sum>s<shards. image_mset (?f c) (?cb s c)) = image_mset (?f c) (mset [0..<bs])"
      by (simp only: image_mset_sums)
    also have "\<dots> = mset (map (?f c) [0..<bs])"
      by simp
    also have "\<dots> = mset [0 + c * bs..<0 + (c + 1) * bs]"
      by (simp only: map_add_upt) (simp add: add.commute)
    finally show "(\<Sum>s<shards. image_mset (?f c) (?cb s c)) = mset [0 + c * bs..<0 + (c + 1) * bs]" .
  qed
  also have "\<dots> = mset [0..<nc * bs]"
    by (simp only: mset_concat_sum[symmetric] concat_ranges) simp
  finally show ?thesis .
qed

text \<open>The batch of a packed shard, with its metadata, as the source assembles it.\<close>

definition packed_form :: "batch \<Rightarrow> nat \<Rightarrow> int list list \<Rightarrow> nat list list list \<Rightarrow> batch" where
  "packed_form b bs chunks cbins =
     (rows_of (sort_columns b) (concat (global_bins bs cbins)))
       \<lparr>micro_batch_indices := Some (map micro_indices cbins),
        micro_batch_lengths :=
          Some (map (\<lambda>(lens, bins). map (\<lambda>b. sum_list (pick lens b)) bins) (zip chunks cbins)),
        elem_counts_per_gb := Some (map (\<lambda>bins. length (concat bins)) cbins)\<rparr>"

lemma mapR_select:
  assumes "batch_wf b n" and "\<forall>i\<in>set (concat ixss). i < n"
  shows "mapR (select_indices b) ixss = Inr (map (rows_of b) ixss)"
  using assms by (intro mapR_total select_indices_ok[where n = n]) (auto simp: batch_wf_def)

lemma packed_shard_eq:
  assumes wf: "batch_wf b n" and ne: "cbins \<noteq> []" "\<forall>bins\<in>set cbins. bins \<noteq> [] \<and> [] \<notin> set bins"
    and ix: "\<forall>i\<in>set (concat (global_bins bs cbins)). i < n"
  shows "packed_shard b bs chunks cbins = Inr (packed_form b bs chunks cbins)"
proof -
  obtain x y xs ys cs where c: "cbins = ((x # xs) # ys) # cs"
    using ne by (metis list.set_intros(1) neq_Nil_conv)
  then have "global_bins bs cbins \<noteq> []" "concat (global_bins bs cbins) \<noteq> []"
    by (simp_all add: global_bins_def)
  note from_batches_rows[OF wf this ix]
  moreover have "list_all (\<lambda>bins. bins \<noteq> []) cbins"
    using ne(2) by (simp add: list_all_iff)
  moreover have "map (\<lambda>bins. snd (last (micro_indices bins))) cbins = map (\<lambda>bins. length (concat bins)) cbins"
    using ne(2) by (simp add: last_micro_indices)
  ultimately show ?thesis
    by (simp only: packed_shard_def mapR_select[OF wf ix] bindR_simps guardR_simps packed_form_def)
qed

lemma length_of_values: "length_values c = Inr xs \<Longrightarrow> length xs = col_len c"
  by (cases c) (auto simp: mapR_Inr dest: list_all2_lengthD)

lemma get_col_wf: "get_col b k = Inr c \<Longrightarrow> batch_wf b n \<Longrightarrow> col_len c = n \<and> (k, c) \<in> set (columns b)"
  by (auto simp: get_col_def batch_wf_def dest!: map_of_SomeD split: option.splits)

lemma pack_chunks_nth:
  assumes "pack_chunks draw alg p chunks = Inr bins"
  shows "length bins = length chunks \<and>
    (\<forall>c<length chunks. pack (pack_implementation (draw c) alg) p (chunks ! c) = Inr (bins ! c))"
proof -
  have e: "List.enumerate 0 chunks ! c = (c, chunks ! c)" if "c < length chunks" for c
    using that by (simp add: nth_enumerate_eq)
  show ?thesis
    using assms by (auto simp: pack_chunks_def mapR_Inr list_all2_conv_all_nth e)
qed

lemma stride_bins_ok:
  assumes "bins_ok shards bs cap lens bins" and "s < shards"
  shows "stride s shards bins \<noteq> [] \<and> [] \<notin> set (stride s shards bins) \<and>
    length (stride s shards bins) = length bins div shards"
proof -
  have "length (stride s shards bins) = length bins div shards"
    using assms by (intro length_stride) (auto simp: bins_ok_def)
  moreover have "0 < length bins div shards"
    using assms by (simp add: bins_ok_def div_greater_zero_iff)
  ultimately show ?thesis
    using assms set_stride[of s shards bins] by (auto simp: bins_ok_def)
qed

lemma shard_packed_Inr:
  assumes run: "shard_packed draw lay args b shards = Inr (ps, ixs)"
    and wf: "batch_wf b n" and n: "0 < n" "total_size lay = n" "n = num_chunks lay * chunk_size lay"
    and sh: "0 < shards"
  defines "lf \<equiv> pk_order args = Some ''largest_first''" and "bs \<equiv> chunk_size lay"
  obtains lens chunks bins where
    "bindR (get_col b (pk_lengths_key args)) length_values = Inr lens" "length lens = n"
    "chunks = map (\<lambda>c. padded_chunk (pk_pad_multiple args) lens (c * bs) bs) [0..<num_chunks lay]"
    "length bins = num_chunks lay" "pk_pad_multiple args \<noteq> 0"
    "\<forall>c<num_chunks lay. bins_ok shards bs (pk_max_tokens args) (chunks ! c) (bins ! c)"
    "ixs = concat (map (\<lambda>s. concat (global_bins bs (shard_bins lf shards chunks bins s))) [0..<shards])"
    "mset ixs = mset [0..<n]"
    "ps = map (\<lambda>s. packed_form b bs chunks (shard_bins lf shards chunks bins s)) [0..<shards]"
proof -
  let ?nc = "num_chunks lay"
  from run obtain alg p lens bins parts where
    gp: "get_packer (pk_algorithm args) (pk_max_tokens args) (Some (int shards)) (Some (int shards)) = Inr (alg, p)"
    and lens: "bindR (get_col b (pk_lengths_key args)) length_values = Inr lens"
    and pad: "pk_pad_multiple args \<noteq> 0 \<or> ?nc = 0"
    and pc: "pack_chunks draw alg p
      (map (\<lambda>c. padded_chunk (pk_pad_multiple args) lens (c * bs) bs) [0..<?nc]) = Inr bins"
    and parts: "mapR (packed_shard b bs (map (\<lambda>c. padded_chunk (pk_pad_multiple args) lens (c * bs) bs) [0..<?nc]))
      (map (shard_bins lf shards (map (\<lambda>c. padded_chunk (pk_pad_multiple args) lens (c * bs) bs) [0..<?nc]) bins)
        [0..<shards]) = Inr ps"
    and ixs: "ixs = concat (map (\<lambda>cb. concat (global_bins bs cb)) (map (shard_bins lf shards
      (map (\<lambda>c. padded_chunk (pk_pad_multiple args) lens (c * bs) bs) [0..<?nc]) bins) [0..<shards]))"
    by (auto simp: shard_packed_def bindR_Inr Let_def lf_def bs_def split: prod.splits)
  define chunks where "chunks = map (\<lambda>c. padded_chunk (pk_pad_multiple args) lens (c * bs) bs) [0..<?nc]"
  have ll: "length lens = n"
    using lens get_col_wf[OF _ wf] by (auto simp: bindR_Inr dest: length_of_values)
  have cl: "length (chunks ! c) = bs" if "c < ?nc" for c
  proof -
    have "c * bs + bs \<le> ?nc * bs"
      using that by (metis Suc_leI mult_Suc add.commute mult_le_mono1)
    then show ?thesis
      using that ll n(3) by (simp add: chunks_def padded_chunk_def slice_def bs_def)
  qed
  note pn = pack_chunks_nth[OF pc[folded chunks_def]]
  have lb: "length bins = ?nc" and lc: "length chunks = ?nc"
    using pn by (simp_all add: chunks_def)
  have ok: "\<forall>c<?nc. bins_ok shards bs (pk_max_tokens args) (chunks ! c) (bins ! c)"
  proof (intro allI impI)
    fix c assume "c < ?nc"
    then show "bins_ok shards bs (pk_max_tokens args) (chunks ! c) (bins ! c)"
      using pn lc cl by (intro pack_bins_ok[OF gp, of "draw c"]) auto
  qed
  have ix: "ixs = concat (map (\<lambda>s. concat (global_bins bs (shard_bins lf shards chunks bins s))) [0..<shards])"
    by (simp add: ixs chunks_def comp_def)
  have perm: "mset ixs = mset [0..<n]"
  proof -
    have "\<forall>c<?nc. mset (concat (bins ! c)) = mset [0..<bs]"
      using ok by (simp add: bins_ok_def)
    from packed_rows_perm[OF lc lb sh this] show ?thesis
      by (simp only: ix n(3) bs_def)
  qed
  have "packed_shard b bs chunks (shard_bins lf shards chunks bins s) =
      Inr (packed_form b bs chunks (shard_bins lf shards chunks bins s))" if s: "s < shards" for s
  proof (rule packed_shard_eq[OF wf])
    show "shard_bins lf shards chunks bins s \<noteq> []"
      using lb lc n by (auto simp flip: length_0_conv)
    show "\<forall>bins\<in>set (shard_bins lf shards chunks bins s). bins \<noteq> [] \<and> [] \<notin> set bins"
    proof
      fix x assume "x \<in> set (shard_bins lf shards chunks bins s)"
      then obtain c where c: "c < ?nc" "x = shard_bins lf shards chunks bins s ! c"
        using lb lc by (auto simp: in_set_conv_nth)
      with ok stride_bins_ok[OF _ s] have "stride s shards (bins ! c) \<noteq> [] \<and> [] \<notin> set (stride s shards (bins ! c))"
        by blast
      then show "x \<noteq> [] \<and> [] \<notin> set x"
        by (simp add: c(2) shard_bins_nth[OF lc lb c(1)])
    qed
    have "set (concat (global_bins bs (shard_bins lf shards chunks bins s))) \<subseteq> set ixs"
      using s by (auto simp: ix)
    then show "\<forall>i\<in>set (concat (global_bins bs (shard_bins lf shards chunks bins s))). i < n"
      using mset_eq_setD[OF perm] by auto
  qed
  then have "mapR (packed_shard b bs chunks) (map (shard_bins lf shards chunks bins) [0..<shards]) =
      Inr (map (packed_form b bs chunks) (map (shard_bins lf shards chunks bins) [0..<shards]))"
    by (intro mapR_total) auto
  then have "ps = map (\<lambda>s. packed_form b bs chunks (shard_bins lf shards chunks bins s)) [0..<shards]"
    unfolding parts[folded chunks_def] by (simp only: sum.inject map_map comp_def)
  moreover have "pk_pad_multiple args \<noteq> 0"
    using pad n by auto
  ultimately show thesis
    using that[OF lens ll chunks_def lb _ ok ix perm] by blast
qed

section \<open>Consuming a packed shard\<close>

lemma rows_of_rows_of:
  "\<forall>j\<in>set jxs. j < length ixs \<Longrightarrow> rows_of (rows_of b ixs) jxs = rows_of b (pick ixs jxs)"
  by (simp add: comp_def)

lemma slice_rows_of:
  assumes "e \<le> length ixs" and "columns p = columns (rows_of b ixs)"
  shows "slice_batch p a e = Inr (rows_of b (pick ixs [a..<e]))"
proof -
  have "\<forall>(k, c)\<in>set (columns p). col_len c = length ixs"
    by (auto simp: assms(2) map_columns_def)
  from slice_batch_ok[OF this assms(1)]
  have "slice_batch p a e = Inr (rows_of p [a..<e])" .
  also have "rows_of p [a..<e] = rows_of (rows_of b ixs) [a..<e]"
    by (simp only: map_columns_def assms(2))
  also have "\<dots> = rows_of b (pick ixs [a..<e])"
    using assms(1) by (intro rows_of_rows_of) auto
  finally show ?thesis .
qed

lemma length_concat_take_le: "k < length xss \<Longrightarrow> length (concat (take (Suc k) xss)) \<le> length (concat xss)"
  by (metis append_take_drop_id concat_append length_append le_add1)

text \<open>The microbatches of global batch \<open>c\<close> are its bins, with the rows the packer chose.\<close>

lemma packed_microbatches:
  assumes c: "c < length cbins" and "length chunks = length cbins"
  shows "bindR (get_batch (packed_form b bs chunks cbins) c sz)
      make_microbatch_iterator_for_packable_sequences =
    Inr (map (\<lambda>bin. rows_of (sort_columns b) (map (\<lambda>i. i + c * bs) bin)) (cbins ! c))"
proof -
  let ?p = "packed_form b bs chunks cbins" and ?b = "sort_columns b" and ?f = "map (\<lambda>i. i + c * bs)"
  define xss where "xss = map (\<lambda>c. map (\<lambda>i. i + c * bs) (concat (cbins ! c))) [0..<length cbins]"
  have cols: "columns ?p = columns (rows_of ?b (concat xss))"
    by (simp add: packed_form_def concat_global_bins xss_def)
  have cnt: "sum_list (take k (map (\<lambda>bins. length (concat bins)) cbins)) = length (concat (take k xss))" for k
  proof -
    have "map length xss = map (\<lambda>bins. length (concat bins)) cbins"
      by (simp add: xss_def) (rule nth_equalityI; simp)
    then show ?thesis
      by (metis length_concat take_map)
  qed
  have xc: "c < length xss" "xss ! c = concat (map ?f (cbins ! c))"
    using c by (simp_all add: xss_def map_concat)
  define s where "s = rows_of ?b (xss ! c)"
  have "slice_batch ?p (length (concat (take c xss))) (length (concat (take (Suc c) xss))) = Inr s"
    unfolding s_def pick_micro_range[OF xc(1), symmetric]
    by (rule slice_rows_of[OF length_concat_take_le[OF xc(1)] cols])
  moreover have "micro_batch_lengths ?p = Some (map (\<lambda>(lens, bins). map (\<lambda>b. sum_list (pick lens b)) bins)
      (zip chunks cbins))"
    by (simp add: packed_form_def)
  ultimately have "get_batch ?p c sz =
      Inr (s\<lparr>micro_batch_indices := Some [micro_indices (cbins ! c)],
             micro_batch_lengths := Some [map (\<lambda>b. sum_list (pick (chunks ! c) b)) (cbins ! c)],
             elem_counts_per_gb := Some [length (concat (cbins ! c))]\<rparr>)" (is "_ = Inr ?s")
    using c assms(2) by (simp add: get_batch_def packed_form_def cnt flip: take_Suc)
  moreover have "make_microbatch_iterator_for_packable_sequences ?s =
      Inr (map (\<lambda>bin. rows_of ?b (?f bin)) (cbins ! c))"
  proof -
    have "mapR (\<lambda>(l, a, e). slice_batch ?s a e)
        (zip (map (\<lambda>b. sum_list (pick (chunks ! c) b)) (cbins ! c)) (micro_indices (cbins ! c))) =
      Inr (map (\<lambda>bin. rows_of ?b (?f bin)) (cbins ! c))"
      unfolding mapR_Inr
    proof (rule list_all2_all_nthI)
      fix k assume "k < length (zip (map (\<lambda>b. sum_list (pick (chunks ! c) b)) (cbins ! c))
          (micro_indices (cbins ! c)))"
      then have k: "k < length (cbins ! c)" by simp
      let ?bins = "map ?f (cbins ! c)"
      have kb: "k < length ?bins" using k by simp
      have len: "length (concat (take j ?bins)) = length (concat (take j (cbins ! c)))" for j
        by (simp add: length_concat take_map comp_def)
      have "slice_batch ?s (length (concat (take k ?bins))) (length (concat (take (Suc k) ?bins))) =
          Inr (rows_of ?b (?bins ! k))"
        unfolding pick_micro_range[OF kb, symmetric]
        by (rule slice_rows_of[OF length_concat_take_le[OF kb]]) (simp add: s_def xc(2))
      then show "(case zip (map (\<lambda>b. sum_list (pick (chunks ! c) b)) (cbins ! c)) (micro_indices (cbins ! c)) ! k of
            (l, a, e) \<Rightarrow> slice_batch ?s a e) = Inr (map (\<lambda>bin. rows_of ?b (?f bin)) (cbins ! c) ! k)"
        using k by (simp add: micro_indices_eq len)
    qed simp
    then show ?thesis
      by (simp add: make_microbatch_iterator_for_packable_sequences_def microbatches_def)
  qed
  ultimately show ?thesis by simp
qed

section \<open>Planning dynamic microbatches\<close>

text \<open>
  After \<open>i\<close> positions: the ranges cover \<open>0, \<dots>, i - 1\<close> in order, no microbatch holds more than
  \<open>cap\<close> tokens when padded to its length, and no position is longer than its microbatch.
\<close>

definition mb_ok :: "int \<Rightarrow> (nat \<Rightarrow> int) \<Rightarrow> (nat \<times> nat) list \<Rightarrow> int list \<Rightarrow> bool" where
  "mb_ok cap P ixs lens \<longleftrightarrow> length lens = length ixs \<and>
     (\<forall>((a, z), l)\<in>set (zip ixs lens). int (z - a) * l \<le> cap \<and> (\<forall>j. a \<le> j \<and> j < z \<longrightarrow> P j \<le> l))"

definition dyn_inv :: "int \<Rightarrow> (nat \<Rightarrow> int) \<Rightarrow> nat \<Rightarrow> mb_state \<Rightarrow> bool" where
  "dyn_inv cap P i st \<longleftrightarrow> (case st of (ixs, lens, mx) \<Rightarrow>
     mb_ok cap P ixs lens \<and> range_rows ixs = [0..<i] \<and>
     ixs \<noteq> [] \<and> mx = last lens \<and> snd (last ixs) = i \<and> fst (last ixs) \<le> i)"

lemma range_rows_snoc [simp]: "range_rows (xs @ [(a, z)]) = range_rows xs @ [a..<z]"
  by (simp add: range_rows_def)

lemma dyn_step_inv:
  assumes inv: "dyn_inv cap P i st" and p: "P i \<le> cap" and l: "l = P i"
  shows "dyn_inv cap P (Suc i) (dyn_step cap i l st)"
proof -
  obtain ixs lens mx where st: "st = (ixs, lens, mx)" by (cases st)
  with inv have mb: "mb_ok cap P ixs lens" and rr: "range_rows ixs = [0..<i]" and ne: "ixs \<noteq> []"
    and mx: "mx = last lens" and la: "snd (last ixs) = i" "fst (last ixs) \<le> i"
    by (auto simp: dyn_inv_def)
  obtain ys s where ixs: "ixs = ys @ [(s, i)]"
    using ne la by (metis append_butlast_last_id prod.collapse)
  with mb obtain ls where lens: "lens = ls @ [mx]"
    using mx by (metis append_butlast_last_id length_0_conv mb_ok_def snoc_eq_iff_butlast)
  have len: "length ls = length ys" and si: "s \<le> i"
    using mb la ixs lens by (auto simp: mb_ok_def)
  have old: "\<forall>((a, z), l)\<in>set (zip ys ls). int (z - a) * l \<le> cap \<and> (\<forall>j. a \<le> j \<and> j < z \<longrightarrow> P j \<le> l)"
    and cur: "\<forall>j. s \<le> j \<and> j < i \<longrightarrow> P j \<le> mx"
    using mb ixs lens len by (auto simp: mb_ok_def)
  show ?thesis
  proof (cases "int (i - s + 1) * max mx l \<le> cap")
    case True
    then have "dyn_step cap i l st = (ys @ [(s, Suc i)], ls @ [max mx l], max mx l)"
      by (simp add: dyn_step_def st ixs lens Let_def)
    moreover have "mb_ok cap P (ys @ [(s, Suc i)]) (ls @ [max mx l])"
    proof -
      have "int (Suc i - s) * max mx l \<le> cap"
        using True si by (simp add: Suc_diff_le add.commute)
      moreover have "\<forall>j. s \<le> j \<and> j < Suc i \<longrightarrow> P j \<le> max mx l"
        using cur l by (auto simp: less_Suc_eq le_max_iff_disj)
      ultimately show ?thesis
        using old len by (auto simp: mb_ok_def)
    qed
    ultimately show ?thesis
      using rr ixs si by (simp add: dyn_inv_def)
  next
    case False
    then have "dyn_step cap i l st = (ixs @ [(i, Suc i)], lens @ [l], l)"
      by (simp add: dyn_step_def st ixs lens Let_def)
    moreover have "mb_ok cap P (ixs @ [(i, Suc i)]) (lens @ [l])"
      using mb p l by (auto simp: mb_ok_def less_Suc_eq)
    ultimately show ?thesis
      using rr by (simp add: dyn_inv_def)
  qed
qed

definition position_len :: "int \<Rightarrow> nat \<Rightarrow> int list list \<Rightarrow> nat \<Rightarrow> int" where
  "position_len rnd width lenss i =
     min (round_up rnd (foldl max 0 (map (\<lambda>ls. ls ! i) lenss))) (int width)"

lemma max_at_Inr:
  "max_at lenss i = Inr m \<Longrightarrow> m = foldl max 0 (map (\<lambda>ls. ls ! i) lenss) \<and> (\<forall>ls\<in>set lenss. i < length ls)"
proof -
  assume "max_at lenss i = Inr m"
  then obtain xs where "list_all2 (\<lambda>ls x. i < length ls \<and> ls ! i = x) lenss xs" and m: "m = foldl max 0 xs"
    by (auto simp: max_at_def bindR_Inr mapR_Inr)
  then have "xs = map (\<lambda>ls. ls ! i) lenss \<and> (\<forall>ls\<in>set lenss. i < length ls)"
    by (induction lenss xs arbitrary: m rule: list_all2_induct) auto
  with m show ?thesis by simp
qed

lemma dyn_loop_inv:
  assumes "dyn_loop cap rnd width lenss [i..<n] st = Inr st'" and "i \<le> n"
    and "dyn_inv cap (position_len rnd width lenss) i st"
  shows "dyn_inv cap (position_len rnd width lenss) n st'"
  using assms
proof (induction "n - i" arbitrary: i st)
  case (Suc m)
  then have "[i..<n] = i # [Suc i..<n]"
    by (simp add: upt_conv_Cons)
  with Suc.prems(1) have "position_len rnd width lenss i \<le> cap"
    and next_st: "dyn_loop cap rnd width lenss [Suc i..<n]
      (dyn_step cap i (position_len rnd width lenss i) st) = Inr st'"
    by (auto simp: bindR_Inr Let_def position_len_def dest!: max_at_Inr)
  from dyn_step_inv[OF Suc.prems(3) this(1) refl]
  show ?case
    using Suc.hyps Suc.prems(2) by (intro Suc.hyps(1)[OF _ next_st]) auto
qed simp

lemma foldl_max_ge: "x = a \<or> x \<in> set xs \<Longrightarrow> (x :: int) \<le> foldl max a xs"
proof (induction xs arbitrary: a x)
  case (Cons y xs)
  have "max a y \<le> foldl max (max a y) xs" by (rule Cons.IH) simp
  with Cons show ?case by fastforce
qed simp

text \<open>A real length that fits the width is never above the padded length of its position.\<close>

lemma position_len_ge:
  assumes "0 < rnd" and "ls \<in> set lenss" and "ls ! i \<le> int width"
  shows "ls ! i \<le> position_len rnd width lenss i"
proof -
  have "ls ! i \<le> foldl max 0 (map (\<lambda>ls. ls ! i) lenss)"
    using assms(2) by (intro foldl_max_ge) auto
  also have "\<dots> \<le> round_up rnd \<dots>"
    using round_up_bounds[OF assms(1)] by blast
  finally show ?thesis
    using assms(3) by (simp add: position_len_def)
qed

lemma dyn_chunk_order_perm:
  assumes "0 < shards"
  shows "mset (dyn_chunk_order shards bs lens start) = mset [start..<start + bs]"
proof -
  have "mset (dyn_chunk_order shards bs lens start) =
      mset (map (\<lambda>i. i + start) (sort_key (\<lambda>i. lens ! (start + i)) [0..<bs]))"
    by (simp only: dyn_chunk_order_def Let_def mset_strides[OF assms])
  also have "\<dots> = mset (map (\<lambda>i. i + start) [0..<bs])"
    by (simp only: mset_map mset_sort)
  also have "\<dots> = mset [start..<start + bs]"
    by (simp only: map_add_upt) (simp add: add.commute)
  finally show ?thesis .
qed

lemma dyn_sorted_indices_perm:
  assumes "0 < shards" and "total_size lay = num_chunks lay * chunk_size lay"
  shows "mset (dyn_sorted_indices lay shards lens) = mset [0..<total_size lay]"
proof -
  have "mset (dyn_sorted_indices lay shards lens) =
      (\<Sum>c<num_chunks lay. mset [0 + c * chunk_size lay..<0 + (c + 1) * chunk_size lay])"
    by (simp only: dyn_sorted_indices_def mset_concat_sum dyn_chunk_order_perm[OF assms(1)])
       (simp add: add.commute)
  also have "\<dots> = mset [0..<total_size lay]"
    by (simp only: mset_concat_sum[symmetric] concat_ranges assms(2)) simp
  finally show ?thesis .
qed

section \<open>Dynamic and plain shards\<close>

lemma width_of_take_rows [simp]: "width_of (take_rows c ixs) = width_of c"
  by (cases c) simp_all

lemma dyn_inv_start: "0 \<le> cap \<Longrightarrow> dyn_inv cap P 0 ([(0, 0)], [0], 0)"
  by (simp add: dyn_inv_def mb_ok_def range_rows_def)

lemma dyn_plan_ok:
  assumes "dyn_plan lay cap rnd width plens = Inr plan" and "0 \<le> cap"
  shows "length plan = num_chunks lay \<and> (\<forall>c<num_chunks lay.
    mb_ok cap (position_len rnd width (map (slice (c * shard_size lay) ((c + 1) * shard_size lay)) plens))
      (fst (plan ! c)) (snd (plan ! c)) \<and>
    range_rows (fst (plan ! c)) = [0..<shard_size lay])"
proof -
  have step: "mb_ok cap (position_len rnd width ls) (fst r) (snd r) \<and> range_rows (fst r) = [0..<n]"
    if run: "bindR (dyn_loop cap rnd width ls [0..<n] ([(0, 0)], [0], 0)) (\<lambda>(ixs, lens, mx). Inr (ixs, lens)) = Inr r"
    for ls n r
  proof -
    from run obtain ixs lens mx
      where l: "dyn_loop cap rnd width ls [0..<n] ([(0, 0)], [0], 0) = Inr (ixs, lens, mx)" "r = (ixs, lens)"
      by (auto simp: bindR_Inr)
    from dyn_loop_inv[OF l(1) _ dyn_inv_start[OF assms(2)]] show ?thesis
      by (simp add: dyn_inv_def l(2))
  qed
  from assms(1) have all: "list_all2 (\<lambda>c r. bindR (dyn_loop cap rnd width
        (map (slice (c * shard_size lay) ((c + 1) * shard_size lay)) plens)
        [0..<shard_size lay] ([(0, 0)], [0], 0)) (\<lambda>(ixs, lens, mx). Inr (ixs, lens)) = Inr r)
      [0..<num_chunks lay] plan"
    by (simp only: dyn_plan_def mapR_Inr)
  then have len: "length plan = num_chunks lay"
    by (auto dest: list_all2_lengthD)
  have "bindR (dyn_loop cap rnd width
        (map (slice (c * shard_size lay) ((c + 1) * shard_size lay)) plens)
        [0..<shard_size lay] ([(0, 0)], [0], 0)) (\<lambda>(ixs, lens, mx). Inr (ixs, lens)) = Inr (plan ! c)"
    if "c < num_chunks lay" for c
    using list_all2_nthD[OF all, of c] that by simp
  with step len show ?thesis by blast
qed

lemma shard_dynamic_Inr:
  assumes run: "shard_dynamic lay False args b shards = Inr (ps, ixs)"
    and n: "0 < total_size lay" "total_size lay = num_chunks lay * chunk_size lay"
    and even: "chunk_size lay = shards * shard_size lay"
  obtains lens plens width plan where
    "bindR (get_col b (dyn_lengths_key args)) length_tensor = Inr lens"
    "bindR (get_col b (dyn_input_key args)) width_of = Inr width"
    "ixs = dyn_sorted_indices lay shards lens"
    "ps = map (\<lambda>s. (rows_of b (pick ixs (range_rows (shard_ranges lay False s))))
            \<lparr>micro_batch_indices := Some (map fst plan), micro_batch_lengths := Some (map snd plan)\<rparr>)
          [0..<shards]"
    "list_all2 (\<lambda>p l. get_col p (dyn_lengths_key args) = Inr (Vector l)) ps plens"
    "dyn_plan lay (dyn_max_tokens args) (dyn_round args) width plens = Inr plan"
proof -
  let ?rows = "\<lambda>s. range_rows (shard_ranges lay False s)"
  have nc: "num_chunks lay \<noteq> 0" using n by auto
  from run obtain lens plens width plan where
    lens: "bindR (get_col b (dyn_lengths_key args)) length_tensor = Inr lens"
    and ixs: "ixs = dyn_sorted_indices lay shards lens"
    and pl: "mapR (\<lambda>p. bindR (get_col p (dyn_lengths_key args)) length_tensor)
        (map (plain_shard lay False (rows_of b ixs)) [0..<shards]) = Inr plens"
    and width: "bindR (get_col (rows_of b ixs) (dyn_input_key args)) width_of = Inr width"
    and plan: "dyn_plan lay (dyn_max_tokens args) (dyn_round args) width plens = Inr plan"
    and ps: "ps = map (\<lambda>p. p\<lparr>micro_batch_indices := Some (map fst plan), micro_batch_lengths := Some (map snd plan)\<rparr>)
      (map (plain_shard lay False (rows_of b ixs)) [0..<shards])"
    using nc by (auto simp: shard_dynamic_def Let_def bindR_Inr)
  have perm: "0 < shards \<Longrightarrow> length ixs = total_size lay"
    using dyn_sorted_indices_perm[of shards lay lens] n(2) by (metis ixs length_upt minus_nat.diff_0 size_mset)
  have part: "plain_shard lay False (rows_of b ixs) s = rows_of b (pick ixs (?rows s))" if "s < shards" for s
  proof -
    have "\<forall>i\<in>set (?rows s). i < length ixs"
      using even_rows_less[OF even n(2) that] perm that by auto
    then show ?thesis
      unfolding plain_shard_def by (rule rows_of_rows_of)
  qed
  have ps': "ps = map (\<lambda>s. (rows_of b (pick ixs (?rows s)))
      \<lparr>micro_batch_indices := Some (map fst plan), micro_batch_lengths := Some (map snd plan)\<rparr>) [0..<shards]"
    using part by (simp add: ps comp_def)
  have lt: "length_tensor c = Inr l \<longleftrightarrow> c = Vector l" for c l
    by (cases c) auto
  have upd: "get_col (p\<lparr>micro_batch_indices := x, micro_batch_lengths := y\<rparr>) k = get_col p k" for p x y k
    by (simp add: get_col_def)
  have "list_all2 (\<lambda>p l. get_col p (dyn_lengths_key args) = Inr (Vector l)) ps plens"
    using pl by (simp add: mapR_Inr bindR_Inr lt ps list_all2_map1 upd)
  moreover have "bindR (get_col b (dyn_input_key args)) width_of = Inr width"
    using width by (auto simp: get_col_rows_of bindR_Inr)
  ultimately show thesis
    using that lens ixs ps' plan by blast
qed

text \<open>A microbatch of \<open>plan\<close> never cuts a sequence that fits the width of the input.\<close>

lemma dyn_no_cut:
  assumes ok: "mb_ok cap (position_len rnd width lenss) ixs ls" and rnd: "0 < rnd"
    and l: "l \<in> set lenss" "\<forall>j<length l. l ! j \<le> int width" and j: "j < length l"
    and mb: "((a, z), m) \<in> set (zip ixs ls)" "a \<le> j" "j < z"
  shows "l ! j \<le> m"
  using position_len_ge[OF rnd l(1), of j width] l(2) j ok mb
  by (fastforce simp: mb_ok_def)

text \<open>
  Every mode cuts the batch into one list of rows per rank; where the call also returns the
  sorted indices and there is one chunk (or bins), these lists one after the other are them.
\<close>

definition shard_rows :: "batch \<Rightarrow> nat list \<Rightarrow> batch \<Rightarrow> bool" where
  "shard_rows b ixs p \<longleftrightarrow> batch_wf p (length ixs) \<and>
     (\<forall>k. get_col p k = bindR (get_col b k) (\<lambda>c. Inr (take_rows c ixs)))"

definition cut_into :: "batch \<Rightarrow> batch list \<Rightarrow> nat list list \<Rightarrow> bool" where
  "cut_into b ps parts \<longleftrightarrow> length ps = length parts \<and>
     (\<forall>s<length parts. shard_rows b (parts ! s) (ps ! s))"

lemma batch_wf_cong: "columns p = columns q \<Longrightarrow> batch_wf p n = batch_wf q n"
  by (simp add: batch_wf_def)

lemma shard_rows_of:
  assumes "batch_wf b n" and "\<forall>i\<in>set ixs. i < n"
    and "columns p = columns (rows_of b ixs) \<or> columns p = columns (rows_of (sort_columns b) ixs)"
  shows "shard_rows b ixs p"
proof -
  have wf: "batch_wf (rows_of b ixs) (length ixs)" "batch_wf (rows_of (sort_columns b) ixs) (length ixs)"
    using batch_wf_take_rows[of _ n ixs] assms(1,2) batch_wf_sort_columns by blast+
  have col: "get_col p k = bindR (get_col b k) (\<lambda>c. Inr (take_rows c ixs))" for k
  proof -
    have "get_col p k = get_col (rows_of b ixs) k \<or> get_col p k = get_col (rows_of (sort_columns b) ixs) k"
      using assms(3) by (auto simp: get_col_def)
    then show ?thesis by (auto simp: get_col_rows_of)
  qed
  have "batch_wf p (length ixs)"
    using assms(3) wf batch_wf_cong by blast
  with col show ?thesis by (simp add: shard_rows_def)
qed

lemma cut_intoI:
  assumes "batch_wf b n" and "mset (concat parts) = mset [0..<n]" and "length ps = length parts"
    and "\<And>s. s < length parts \<Longrightarrow> columns (ps ! s) = columns (rows_of b (parts ! s)) \<or>
      columns (ps ! s) = columns (rows_of (sort_columns b) (parts ! s))"
  shows "cut_into b ps parts"
  unfolding cut_into_def
proof (intro conjI allI impI)
  fix s assume s: "s < length parts"
  have "set (parts ! s) \<subseteq> set (concat parts)" using s by (rule set_nth_concat)
  also have "\<dots> = {..<n}" using mset_eq_setD[OF assms(2)] by (simp add: lessThan_atLeast0)
  finally show "shard_rows b (parts ! s) (ps ! s)"
    using shard_rows_of[OF assms(1) _ assms(4)[OF s]] by blast
qed (rule assms(3))

lemma get_col_in: "batch_wf b n \<Longrightarrow> (k, c) \<in> set (columns b) \<Longrightarrow> get_col b k = Inr c"
  by (simp add: batch_wf_def get_col_def)

lemma get_col_update [simp]:
  "get_col (p\<lparr>micro_batch_indices := x\<rparr>) k = get_col p k"
  "get_col (p\<lparr>micro_batch_lengths := y\<rparr>) k = get_col p k"
  "get_col (p\<lparr>elem_counts_per_gb := z\<rparr>) k = get_col p k"
  by (simp_all add: get_col_def)

lemma get_col_packed_form:
  "get_col (packed_form b bs chunks cbins) k =
     bindR (get_col b k) (\<lambda>c. Inr (take_rows c (concat (global_bins bs cbins))))"
  unfolding packed_form_def by (simp add: get_col_rows_of del: get_col_def)

lemma pick_parts: "concat (map (\<lambda>s. pick xs (f s)) ks) = pick xs (concat (map f ks))"
  by (simp add: pick_concat comp_def)

lemma shard_parts:
  assumes run: "shard_by_batch_size draw b shards batch_size False dyn pk = Inr (ps, r)"
    and wf: "batch_wf b n" and n: "0 < n"
  obtains parts where "length parts = shards" "mset (concat parts) = mset [0..<n]" "cut_into b ps parts"
    "r \<noteq> None \<longrightarrow> dyn = None \<or> batch_size = None \<longrightarrow> r = Some (concat parts)"
    "r = None \<longrightarrow> batch_size = None \<longrightarrow> concat parts = [0..<n]"
proof -
  from run obtain lay where lay: "validate_shards b shards batch_size False (dyn \<noteq> None) (pk \<noteq> None) = Inr lay"
    by (auto simp: shard_by_batch_size_def bindR_Inr)
  note v = validate_shards_Inr[OF lay]
  have size: "total_size lay = n"
    using v batch_wf_size[OF wf] by simp
  have tot: "total_size lay = num_chunks lay * chunk_size lay" and sh: "0 < shards"
    and even: "chunk_size lay = shards * shard_size lay"
    using v by blast+
  let ?rows = "\<lambda>s. range_rows (shard_ranges lay False s)"
  note perm = even_rows_perm[OF even tot]
  have one: "concat (map ?rows [0..<shards]) = [0..<n]" if "batch_size = None"
  proof -
    have "chunk_size lay = n" "num_chunks lay = 1"
      using v that size tot n by auto
    then show ?thesis
      using concat_ranges[of 0 "shard_size lay" shards] even
      by (simp add: range_rows_even comp_def)
  qed
  consider (plain) "dyn = None" "pk = None" | (dyn) a where "dyn = Some a" | (pack) a where "dyn = None" "pk = Some a"
    by (cases dyn; cases pk) auto
  then show thesis
  proof cases
    case plain
    with run lay have "ps = map (plain_shard lay False b) [0..<shards]" "r = None"
      by (auto simp: shard_by_batch_size_def)
    then have "cut_into b ps (map ?rows [0..<shards])"
      using perm size by (intro cut_intoI[OF wf]) (simp_all add: plain_shard_def)
    then show thesis
      using that[of "map ?rows [0..<shards]"] perm size one \<open>r = None\<close> by simp
  next
    case (dyn a)
    with run lay obtain ixs where sd: "shard_dynamic lay False a b shards = Inr (ps, ixs)" and r: "r = Some ixs"
      by (auto simp: shard_by_batch_size_def bindR_Inr)
    have t0: "0 < total_size lay" using size n by simp
    obtain lens plan where ixs: "ixs = dyn_sorted_indices lay shards lens"
      and ps: "ps = map (\<lambda>s. (rows_of b (pick ixs (?rows s)))
            \<lparr>micro_batch_indices := Some (map fst plan), micro_batch_lengths := Some (map snd plan)\<rparr>)
          [0..<shards]"
      by (rule shard_dynamic_Inr[OF sd t0 tot even]) blast
    have mi: "mset ixs = mset [0..<n]"
      unfolding ixs using dyn_sorted_indices_perm[OF sh tot] size by simp
    then have len: "length ixs = n"
      by (metis diff_zero length_upt size_mset)
    let ?parts = "map (\<lambda>s. pick ixs (?rows s)) [0..<shards]"
    have perm': "mset (concat ?parts) = mset [0..<n]"
      unfolding pick_parts using perm size len mi by (metis mset_pick)
    then have cut: "cut_into b ps ?parts"
      by (intro cut_intoI[OF wf]) (simp_all add: ps)
    have "batch_size = None \<longrightarrow> r = Some (concat ?parts)"
      unfolding pick_parts using one len r by (metis pick_upt_all)
    then show thesis
      by (intro that[of ?parts, OF _ perm' cut]) (simp_all add: dyn r)
  next
    case (pack a)
    with run lay obtain ixs where sp: "shard_packed draw lay a b shards = Inr (ps, ixs)" and r: "r = Some ixs"
      by (auto simp: shard_by_batch_size_def bindR_Inr)
    obtain chunks cb where ixs: "ixs = concat (map (\<lambda>s. concat (global_bins (chunk_size lay) (cb s))) [0..<shards])"
      and perm: "mset ixs = mset [0..<n]"
      and ps: "ps = map (\<lambda>s. packed_form b (chunk_size lay) chunks (cb s)) [0..<shards]"
      by (rule shard_packed_Inr[OF sp wf n size tot[unfolded size] sh]) blast
    let ?parts = "map (\<lambda>s. concat (global_bins (chunk_size lay) (cb s))) [0..<shards]"
    have cut: "cut_into b ps ?parts"
      using perm ixs by (intro cut_intoI[OF wf]) (simp_all add: ps packed_form_def)
    show thesis
      by (rule that[of ?parts, OF _ _ cut]) (simp_all add: r perm flip: ixs)
  qed
qed

section \<open>Properties\<close>

text \<open>
  Whatever the mode (plain, dynamic or packed), with even shards the ranks together hold
  every row of the batch exactly once, and all columns of a rank are cut from the same rows.
\<close>

theorem shards_partition_rows:
  assumes "shard_by_batch_size draw b shards batch_size False dyn pk = Inr (ps, r)"
    and "batch_wf b n" and "0 < n"
  shows "\<exists>parts. length parts = shards \<and> mset (concat parts) = mset [0..<n] \<and> cut_into b ps parts"
  by (rule shard_parts[OF assms]) blast

text \<open>A batch of five sequences padded to width 8, used by the witnesses.\<close>

definition demo_batch :: batch where
  "demo_batch = new_batch
     [(''input_ids'', Matrix 8 [[1,1,1,0,0,0,0,0], [2,2,2,2,2,0,0,0], [3,3,0,0,0,0,0,0], [4,4,4,4,4,4,0,0]]),
      (''input_lengths'', Vector [3, 5, 2, 6]),
      (''text'', Objects [PStr ''a'', PStr ''b'', PStr ''c'', PInt 4])]"

definition demo_packing :: packing_args where
  "demo_packing = \<lparr>pk_max_tokens = 8, pk_lengths_key = ''input_lengths'',
     pk_algorithm = ''first_fit_decreasing'', pk_order = Some ''largest_first'', pk_pad_multiple = 2\<rparr>"

definition demo_dynamic :: dynamic_args where
  "demo_dynamic = \<lparr>dyn_max_tokens = 8, dyn_round = 2, dyn_input_key = ''input_ids'',
     dyn_lengths_key = ''input_lengths''\<rparr>"

lemma demo_wf: "batch_wf demo_batch 4"
  by code_simp

lemma ok_obtain: "ok r \<Longrightarrow> \<exists>x y. r = Inr (x, y)"
  by (auto simp: ok_iff)

theorem shards_partition_rows_witness:
  "\<exists>ps r parts. shard_by_batch_size (\<lambda>_. id) demo_batch 2 None False None (Some demo_packing) = Inr (ps, r) \<and>
     length parts = 2 \<and> mset (concat parts) = mset [0..<4] \<and> cut_into demo_batch ps parts"
proof -
  have "ok (shard_by_batch_size (\<lambda>_. id) demo_batch 2 None False None (Some demo_packing))"
    by code_simp
  then show ?thesis
    using shards_partition_rows[OF _ demo_wf] ok_obtain by fastforce
qed



lemma packed_form_counts:
  assumes "length chunks = length cb"
  shows "map_option (map length) (micro_batch_indices (packed_form b bs chunks cb)) = Some (map length cb) \<and>
    map_option (map length) (micro_batch_lengths (packed_form b bs chunks cb)) = Some (map length cb)"
proof -
  have "map (\<lambda>x. length (snd x)) (zip chunks cb) = map length (map snd (zip chunks cb))"
    by simp
  also have "map snd (zip chunks cb) = cb"
    using assms by simp
  finally show ?thesis
    by (simp add: packed_form_def comp_def split_def)
qed

text \<open>
  C9: With sequence packing every rank runs the same positive number of microbatches in every
  global batch, so the ranks meet at each collective.
\<close>

theorem packed_ranks_in_step:
  assumes run: "shard_by_batch_size draw b shards batch_size False None (Some args) = Inr (ps, r)"
    and wf: "batch_wf b n" and n: "0 < n"
  shows "\<exists>counts. counts \<noteq> [] \<and> 0 \<notin> set counts \<and>
    (\<forall>p\<in>set ps. map_option (map length) (micro_batch_indices p) = Some counts \<and>
       map_option (map length) (micro_batch_lengths p) = Some counts)"
proof -
  from run obtain lay ixs where lay: "validate_shards b shards batch_size False False True = Inr lay"
    and sp: "shard_packed draw lay args b shards = Inr (ps, ixs)"
    by (auto simp: shard_by_batch_size_def bindR_Inr)
  note v = validate_shards_Inr[OF lay]
  have size: "total_size lay = n" using v batch_wf_size[OF wf] by simp
  have tot: "n = num_chunks lay * chunk_size lay" and sh: "0 < shards" using v size by auto
  let ?lf = "pk_order args = Some ''largest_first''"
  obtain lens chunks bins where ch: "chunks = map (\<lambda>c. padded_chunk (pk_pad_multiple args) lens
        (c * chunk_size lay) (chunk_size lay)) [0..<num_chunks lay]"
    and lb: "length bins = num_chunks lay"
    and ok: "\<forall>c<num_chunks lay. bins_ok shards (chunk_size lay) (pk_max_tokens args) (chunks ! c) (bins ! c)"
    and ps: "ps = map (\<lambda>s. packed_form b (chunk_size lay) chunks (shard_bins ?lf shards chunks bins s)) [0..<shards]"
    by (rule shard_packed_Inr[OF sp wf n size tot sh]) blast
  define counts where "counts = map (\<lambda>c. length (bins ! c) div shards) [0..<num_chunks lay]"
  have lc: "length chunks = num_chunks lay" by (simp add: ch)
  have len: "length (shard_bins ?lf shards chunks bins s ! c) = length (bins ! c) div shards"
    if "s < shards" "c < num_chunks lay" for s c
    using stride_bins_ok[OF ok[rule_format, OF that(2)] that(1)]
    by (simp add: shard_bins_nth[OF lc lb that(2)])
  have "map length (shard_bins ?lf shards chunks bins s) = counts" if "s < shards" for s
    using len[OF that] by (intro nth_equalityI) (simp_all add: counts_def lc lb)
  then have "map_option (map length) (micro_batch_indices (ps ! s)) = Some counts"
    "map_option (map length) (micro_batch_lengths (ps ! s)) = Some counts" if "s < shards" for s
    using that packed_form_counts[of chunks "shard_bins ?lf shards chunks bins s" b "chunk_size lay"]
    by (simp_all add: ps lc lb)
  moreover have "0 < length (bins ! c) div shards" if "c < num_chunks lay" for c
    using ok that sh by (simp add: bins_ok_def div_greater_zero_iff)
  then have "0 \<notin> set counts"
    by (fastforce simp: counts_def)
  moreover have "counts \<noteq> []"
    using tot n by (auto simp: counts_def)
  ultimately show ?thesis
    by (intro exI[of _ counts]) (auto simp: ps in_set_conv_nth)
qed

theorem packed_ranks_in_step_witness:
  "\<exists>ps r counts. shard_by_batch_size (\<lambda>_. id) demo_batch 2 None False None (Some demo_packing) = Inr (ps, r) \<and>
     counts \<noteq> [] \<and> 0 \<notin> set counts \<and>
     list_all (\<lambda>p. map_option (map length) (micro_batch_indices p) = Some counts) ps"
proof -
  have "ok (shard_by_batch_size (\<lambda>_. id) demo_batch 2 None False None (Some demo_packing))"
    by code_simp
  then obtain ps r where
    "shard_by_batch_size (\<lambda>_. id) demo_batch 2 None False None (Some demo_packing) = Inr (ps, r)"
    using ok_obtain by blast
  with packed_ranks_in_step[OF this demo_wf] show ?thesis by (auto simp: list_all_iff)
qed

lemma nonneg_round_up: "0 < m \<Longrightarrow> 0 \<le> l \<Longrightarrow> 0 \<le> round_up m l"
  using round_up_bounds[of m l] by linarith

text \<open>
  What a rank trains on with sequence packing: the microbatches of global batch \<open>c\<close> are
  the rows of non-empty bins of that batch, and the padded lengths of a bin's sequences add up
  to at most \<open>max_tokens_per_microbatch\<close>.
\<close>

theorem packed_microbatches_fit:
  assumes run: "shard_by_batch_size draw b shards batch_size False None (Some args) = Inr (ps, r)"
    and wf: "batch_wf b n" and n: "0 < n" and pad: "0 < pk_pad_multiple args"
    and col: "get_col b (pk_lengths_key args) = Inr (Vector lens)" and nn: "\<forall>l\<in>set lens. 0 \<le> l"
    and p: "p \<in> set ps" and bs: "bs = (case batch_size of None \<Rightarrow> n | Some m \<Rightarrow> m)" and c: "c < n div bs"
  shows "\<exists>bins. bindR (get_batch p c sz) make_microbatch_iterator_for_packable_sequences =
      Inr (map (rows_of (sort_columns b)) bins) \<and>
    (\<forall>bin\<in>set bins. bin \<noteq> [] \<and> set bin \<subseteq> {c * bs..<(c + 1) * bs} \<and>
       (\<Sum>i\<leftarrow>bin. round_up (pk_pad_multiple args) (lens ! i)) \<le> pk_max_tokens args)"
proof -
  from run obtain lay ixs where lay: "validate_shards b shards batch_size False False True = Inr lay"
    and sp: "shard_packed draw lay args b shards = Inr (ps, ixs)"
    by (auto simp: shard_by_batch_size_def bindR_Inr)
  note v = validate_shards_Inr[OF lay]
  have size: "total_size lay = n" using v batch_wf_size[OF wf] by simp
  have tot: "n = num_chunks lay * chunk_size lay" and sh: "0 < shards"
    using v size by auto
  have bs': "chunk_size lay = bs"
    using v unfolding size bs by blast
  have nc: "c < num_chunks lay" and b0: "0 < bs"
    using c tot bs' v by auto
  let ?lf = "pk_order args = Some ''largest_first''"
  obtain lens' chunks bins where l': "bindR (get_col b (pk_lengths_key args)) length_values = Inr lens'"
    "length lens' = n"
    and ch: "chunks = map (\<lambda>c. padded_chunk (pk_pad_multiple args) lens'
        (c * chunk_size lay) (chunk_size lay)) [0..<num_chunks lay]"
    and lb: "length bins = num_chunks lay"
    and ok: "\<forall>c<num_chunks lay. bins_ok shards (chunk_size lay) (pk_max_tokens args) (chunks ! c) (bins ! c)"
    and ps: "ps = map (\<lambda>s. packed_form b (chunk_size lay) chunks (shard_bins ?lf shards chunks bins s)) [0..<shards]"
    by (rule shard_packed_Inr[OF sp wf n size tot sh]) blast
  have lens: "lens' = lens" using l'(1) col by simp
  have lc: "length chunks = num_chunks lay" by (simp add: ch)
  from p obtain s where s: "s < shards"
    and ps': "p = packed_form b bs chunks (shard_bins ?lf shards chunks bins s)"
    by (auto simp: ps bs')
  define cb where "cb = shard_bins ?lf shards chunks bins s ! c"
  have "c * bs + bs \<le> n"
    using nc unfolding tot bs' by (metis Suc_leI mult_Suc add.commute mult_le_mono1)
  then have chc: "chunks ! c = map (\<lambda>i. round_up (pk_pad_multiple args) (lens ! (i + c * bs))) [0..<bs]"
    using nc l'(2) lens by (intro nth_equalityI)
      (simp_all add: ch bs' padded_chunk_def slice_def add.commute)
  have bok: "bins_ok shards bs (pk_max_tokens args) (chunks ! c) (bins ! c)"
    using ok nc bs' by blast
  have cbs: "set cb \<subseteq> set (bins ! c)"
    using set_stride[of s shards "bins ! c"] by (simp add: cb_def shard_bins_nth[OF lc lb nc])
  have nonneg: "\<forall>l\<in>set (chunks ! c). 0 \<le> l"
    unfolding chc using nn nonneg_round_up[OF pad] l'(2) lens \<open>c * bs + bs \<le> n\<close> by auto
  have bin: "bin \<noteq> [] \<and> set bin \<subseteq> {..<bs} \<and> sum_list (pick (chunks ! c) bin) \<le> pk_max_tokens args"
    if "bin \<in> set cb" for bin
  proof -
    have m: "bin \<in> set (bins ! c)" using that cbs by blast
    then have "set bin \<subseteq> set (concat (bins ! c))" by auto
    also have "\<dots> = {..<bs}"
      using bok by (metis bins_ok_def mset_eq_setD set_upt lessThan_atLeast0)
    finally show ?thesis using m bok nonneg by (auto simp: bins_ok_def)
  qed
  have "(\<Sum>i\<leftarrow>map (\<lambda>i. i + c * bs) bin. round_up (pk_pad_multiple args) (lens ! i)) =
      sum_list (pick (chunks ! c) bin)" if "bin \<in> set cb" for bin
    using bin[OF that] by (auto simp: pick_def chc comp_def subset_iff intro!: arg_cong[of _ _ sum_list])
  with bin have "\<forall>b\<in>set (map (map (\<lambda>i. i + c * bs)) cb). b \<noteq> [] \<and> set b \<subseteq> {c * bs..<(c + 1) * bs} \<and>
      (\<Sum>i\<leftarrow>b. round_up (pk_pad_multiple args) (lens ! i)) \<le> pk_max_tokens args"
    by (fastforce simp: add.commute)
  moreover have "bindR (get_batch p c sz) make_microbatch_iterator_for_packable_sequences =
      Inr (map (rows_of (sort_columns b)) (map (map (\<lambda>i. i + c * bs)) cb))"
    using packed_microbatches[of c "shard_bins ?lf shards chunks bins s" chunks b bs sz] nc lb lc
    by (simp add: ps' cb_def comp_def)
  ultimately show ?thesis by blast
qed

theorem packed_microbatches_fit_witness:
  "\<exists>ps r. shard_by_batch_size (\<lambda>_. id) demo_batch 2 None False None (Some demo_packing) = Inr (ps, r) \<and>
     (\<exists>bins. bindR (get_batch (hd ps) 0 0) make_microbatch_iterator_for_packable_sequences =
        Inr (map (rows_of (sort_columns demo_batch)) bins) \<and>
      list_all (\<lambda>bin. bin \<noteq> [] \<and> (\<Sum>i\<leftarrow>bin. round_up 2 ([3, 5, 2, 6] ! i)) \<le> 8) bins)"
proof -
  have "case shard_by_batch_size (\<lambda>_. id) demo_batch 2 None False None (Some demo_packing) of
      Inr (ps, r) \<Rightarrow> ps \<noteq> [] | _ \<Rightarrow> False"
    by code_simp
  then obtain ps r where run:
    "shard_by_batch_size (\<lambda>_. id) demo_batch 2 None False None (Some demo_packing) = Inr (ps, r)" "ps \<noteq> []"
    by (auto split: sum.splits)
  have "0 < pk_pad_multiple demo_packing" "pk_pad_multiple demo_packing = 2" "pk_max_tokens demo_packing = 8"
    "get_col demo_batch (pk_lengths_key demo_packing) = Inr (Vector [3, 5, 2, 6])"
    by code_simp+
  with packed_microbatches_fit[OF run(1) demo_wf _ this(1,4) _ hd_in_set[OF run(2)] refl, of 0 0] run
  show ?thesis by (auto simp: list_all_iff)
qed

text \<open>
  With dynamic batching all ranks get one and the same plan.  In every global batch its
  ranges cover a rank's rows in order, and a microbatch padded to its length has at most
  \<open>max_tokens_per_microbatch\<close> tokens.
\<close>

theorem dynamic_plan_within_budget:
  assumes run: "shard_by_batch_size draw b shards batch_size False (Some args) None = Inr (ps, r)"
    and wf: "batch_wf b n" and n: "0 < n" and cap: "0 \<le> dyn_max_tokens args"
  shows "\<exists>plan sz. sz * shards = (case batch_size of None \<Rightarrow> n | Some m \<Rightarrow> m) \<and>
    (\<forall>p\<in>set ps. micro_batch_indices p = Some (map fst plan) \<and> micro_batch_lengths p = Some (map snd plan)) \<and>
    (\<forall>(ixs, lens)\<in>set plan. length lens = length ixs \<and> range_rows ixs = [0..<sz] \<and>
       (\<forall>((a, z), l)\<in>set (zip ixs lens). int (z - a) * l \<le> dyn_max_tokens args))"
proof -
  from run obtain lay ixs where lay: "validate_shards b shards batch_size False True False = Inr lay"
    and sd: "shard_dynamic lay False args b shards = Inr (ps, ixs)"
    by (auto simp: shard_by_batch_size_def bindR_Inr)
  note v = validate_shards_Inr[OF lay]
  have size: "total_size lay = n" using v batch_wf_size[OF wf] by simp
  have t0: "0 < total_size lay" and tot: "total_size lay = num_chunks lay * chunk_size lay"
    and even: "chunk_size lay = shards * shard_size lay"
    and bs: "chunk_size lay = (case batch_size of None \<Rightarrow> n | Some m \<Rightarrow> m)"
    using v size n by blast+
  obtain plens width plan where
    ps: "ps = map (\<lambda>s. (rows_of b (pick ixs (range_rows (shard_ranges lay False s))))
            \<lparr>micro_batch_indices := Some (map fst plan), micro_batch_lengths := Some (map snd plan)\<rparr>)
          [0..<shards]"
    and plan: "dyn_plan lay (dyn_max_tokens args) (dyn_round args) width plens = Inr plan"
    by (rule shard_dynamic_Inr[OF sd t0 tot even]) blast
  from dyn_plan_ok[OF plan cap]
  have "\<forall>x\<in>set plan. length (snd x) = length (fst x) \<and> range_rows (fst x) = [0..<shard_size lay] \<and>
      (\<forall>((a, z), l)\<in>set (zip (fst x) (snd x)). int (z - a) * l \<le> dyn_max_tokens args)"
    by (fastforce simp: in_set_conv_nth mb_ok_def)
  then have "\<forall>(ixs, lens)\<in>set plan. length lens = length ixs \<and> range_rows ixs = [0..<shard_size lay] \<and>
      (\<forall>((a, z), l)\<in>set (zip ixs lens). int (z - a) * l \<le> dyn_max_tokens args)"
    by (simp add: case_prod_beta')
  moreover have "shard_size lay * shards = (case batch_size of None \<Rightarrow> n | Some m \<Rightarrow> m)"
    using even bs by (simp add: mult.commute)
  moreover have "\<forall>p\<in>set ps. micro_batch_indices p = Some (map fst plan) \<and> micro_batch_lengths p = Some (map snd plan)"
    by (auto simp: ps)
  ultimately show ?thesis
    by blast
qed

theorem dynamic_plan_within_budget_witness:
  "\<exists>ps r plan sz. shard_by_batch_size (\<lambda>_. id) demo_batch 2 None False (Some demo_dynamic) None = Inr (ps, r) \<and>
     sz * 2 = 4 \<and> list_all (\<lambda>p. micro_batch_lengths p = Some (map snd plan)) ps \<and>
     list_all (\<lambda>(ixs, lens). range_rows ixs = [0..<sz] \<and>
        list_all (\<lambda>((a, z), l). int (z - a) * l \<le> 8) (zip ixs lens)) plan"
proof -
  have "ok (shard_by_batch_size (\<lambda>_. id) demo_batch 2 None False (Some demo_dynamic) None)"
    by code_simp
  then obtain ps r where
    run: "shard_by_batch_size (\<lambda>_. id) demo_batch 2 None False (Some demo_dynamic) None = Inr (ps, r)"
    using ok_obtain by blast
  have "dyn_max_tokens demo_dynamic = 8" by code_simp
  with dynamic_plan_within_budget[OF run demo_wf] obtain plan sz where
    "sz * 2 = 4" "\<forall>p\<in>set ps. micro_batch_indices p = Some (map fst plan) \<and> micro_batch_lengths p = Some (map snd plan)"
    "\<forall>(ixs, lens)\<in>set plan. length lens = length ixs \<and> range_rows ixs = [0..<sz] \<and>
       (\<forall>((a, z), l)\<in>set (zip ixs lens). int (z - a) * l \<le> 8)"
    by auto
  with run show ?thesis
    by (intro exI[of _ ps] exI[of _ r] exI[of _ plan] exI[of _ sz])
       (auto simp: list_all_iff case_prod_beta')
qed

text \<open>
  A dynamic microbatch is never narrower than the sequences in it: when every sequence
  fits the width of the input, truncating the microbatch to its planned length cuts no token.
\<close>

theorem dynamic_plan_cuts_nothing:
  assumes run: "shard_by_batch_size draw b shards batch_size False (Some args) None = Inr (ps, r)"
    and wf: "batch_wf b n" and n: "0 < n" and cap: "0 \<le> dyn_max_tokens args" and rnd: "0 < dyn_round args"
    and width: "get_col b (dyn_input_key args) = Inr (Matrix width rows)"
    and fit: "get_col b (dyn_lengths_key args) = Inr (Vector lens)" "\<forall>l\<in>set lens. l \<le> int width"
    and p: "p \<in> set ps" "get_col p (dyn_lengths_key args) = Inr (Vector plens)"
    and bs: "bs = (case batch_size of None \<Rightarrow> n | Some m \<Rightarrow> m)" and c: "c < n div bs"
    and mb: "((a, z), m) \<in> set (zip (the (micro_batch_indices p) ! c) (the (micro_batch_lengths p) ! c))"
    and j: "a \<le> j" "j < z"
  shows "plens ! (c * (bs div shards) + j) \<le> m"
proof -
  from run obtain lay ixs where lay: "validate_shards b shards batch_size False True False = Inr lay"
    and sd: "shard_dynamic lay False args b shards = Inr (ps, ixs)"
    by (auto simp: shard_by_batch_size_def bindR_Inr)
  note v = validate_shards_Inr[OF lay]
  have size: "total_size lay = n" using v batch_wf_size[OF wf] by simp
  have t0: "0 < total_size lay" and tot: "total_size lay = num_chunks lay * chunk_size lay"
    and even: "chunk_size lay = shards * shard_size lay" and sh: "0 < shards"
    using v size n by blast+
  have cbs: "chunk_size lay = bs" using v unfolding size bs by blast
  have sz: "bs div shards = shard_size lay" using even cbs sh by auto
  have nc: "c < num_chunks lay" using c tot size cbs n by (cases "bs = 0") auto
  obtain lens' plenss w plan where
    w: "bindR (get_col b (dyn_input_key args)) width_of = Inr w"
    and ixs: "ixs = dyn_sorted_indices lay shards lens'"
    and ps: "ps = map (\<lambda>s. (rows_of b (pick ixs (range_rows (shard_ranges lay False s))))
            \<lparr>micro_batch_indices := Some (map fst plan), micro_batch_lengths := Some (map snd plan)\<rparr>)
          [0..<shards]"
    and pl: "list_all2 (\<lambda>p l. get_col p (dyn_lengths_key args) = Inr (Vector l)) ps plenss"
    and plan: "dyn_plan lay (dyn_max_tokens args) (dyn_round args) w plenss = Inr plan"
    by (rule shard_dynamic_Inr[OF sd t0 tot even]) blast
  have ww: "w = width" using w width by simp
  from p(1) obtain s where s: "s < shards" and ps': "p = ps ! s" and "s < length ps"
    by (auto simp: ps in_set_conv_nth)
  then have "plenss ! s = plens" and inp: "s < length plenss"
    using list_all2_nthD[OF pl, of s] list_all2_lengthD[OF pl] p(2) by auto
  then have pin: "plens \<in> set plenss" by auto
  let ?rows = "range_rows (shard_ranges lay False s)"
  have perm: "mset ixs = mset [0..<n]"
    unfolding ixs using dyn_sorted_indices_perm[OF sh tot] size by simp
  then have lixs: "length ixs = n" by (metis diff_zero length_upt size_mset)
  have len: "length lens = n" using get_col_wf[OF fit(1) wf] by simp
  have plens: "plens = pick lens (pick ixs ?rows)"
    using p(2) s fit(1) by (simp add: ps' ps get_col_rows_of)
  then have lp: "length plens = num_chunks lay * shard_size lay"
    by (simp add: even_rows_length)
  have "set (pick ixs ?rows) \<subseteq> set ixs"
  proof (rule set_pick_subset, rule ballI)
    fix i assume "i \<in> set ?rows"
    from even_rows_less[OF even tot s this] show "i < length ixs"
      unfolding lixs size .
  qed
  also have "set ixs = {..<n}" unfolding mset_eq_setD[OF perm] by (simp add: lessThan_atLeast0)
  finally have sub: "set (pick ixs ?rows) \<subseteq> {..<n}" .
  have "set plens = (!) lens ` set (pick ixs ?rows)"
    by (subst plens) (simp only: pick_def[of lens] list.set_map)
  moreover have "(!) lens ` set (pick ixs ?rows) \<subseteq> set lens"
  proof (rule image_subsetI)
    fix i assume "i \<in> set (pick ixs ?rows)"
    with sub len show "lens ! i \<in> set lens" by (intro nth_mem) blast
  qed
  ultimately have "set plens \<subseteq> set lens" by (simp only:)
  with fit(2) have pw: "\<forall>l\<in>set plens. l \<le> int width" by blast
  let ?sl = "slice (c * shard_size lay) ((c + 1) * shard_size lay)"
  note ok = dyn_plan_ok[OF plan cap]
  have mb': "((a, z), m) \<in> set (zip (fst (plan ! c)) (snd (plan ! c)))"
    using mb nc ok s by (simp add: ps' ps)
  have "[a..<z] \<noteq> []" using j by simp
  have "set [a..<z] \<subseteq> set (range_rows (fst (plan ! c)))"
    using set_zip_leftD[OF mb'] by (auto simp: range_rows_def)
  then have jz: "j < shard_size lay"
    using ok nc j by auto
  have cz: "c * shard_size lay + shard_size lay \<le> length plens"
    using nc lp by (metis Suc_leI mult_Suc add.commute mult_le_mono1)
  have sl: "length (?sl plens) = shard_size lay" "?sl plens ! j = plens ! (c * shard_size lay + j)"
    using cz jz by (simp_all add: slice_def)
  have "\<forall>j<length (?sl plens). ?sl plens ! j \<le> int width"
    using pw cz by (auto simp: slice_def)
  moreover have "mb_ok (dyn_max_tokens args) (position_len (dyn_round args) width (map ?sl plenss))
      (fst (plan ! c)) (snd (plan ! c))"
    using ok nc ww by blast
  moreover have "?sl plens \<in> set (map ?sl plenss)" "j < length (?sl plens)"
    using pin jz sl(1) by simp_all
  ultimately have "?sl plens ! j \<le> m"
    using dyn_no_cut[OF _ rnd _ _ _ mb' j] by blast
  then show ?thesis
    unfolding sl(2) sz .
qed

theorem dynamic_plan_cuts_nothing_witness:
  "\<exists>p a z m pl. p \<in> set (case shard_by_batch_size (\<lambda>_. id) demo_batch 2 None False (Some demo_dynamic) None of
        Inr (ps, r) \<Rightarrow> ps | _ \<Rightarrow> []) \<and> get_col p ''input_lengths'' = Inr (Vector pl) \<and>
     ((a, z), m) \<in> set (zip (the (micro_batch_indices p) ! 0) (the (micro_batch_lengths p) ! 0)) \<and>
     a < z \<and> pl ! a \<le> m"
proof -
  define run where "run = shard_by_batch_size (\<lambda>_. id) demo_batch 2 None False (Some demo_dynamic) None"
  have "case run of Inr (p # ps, r) \<Rightarrow>
      (case zip (the (micro_batch_indices p) ! 0) (the (micro_batch_lengths p) ! 0) of
         ((a, z), m) # _ \<Rightarrow> a < z | [] \<Rightarrow> False) \<and>
      (case get_col p ''input_lengths'' of Inr (Vector pl) \<Rightarrow> True | _ \<Rightarrow> False) | _ \<Rightarrow> False"
    unfolding run_def by code_simp
  then obtain p ps r a z m rest pl where run: "run = Inr (p # ps, r)"
    and mb: "zip (the (micro_batch_indices p) ! 0) (the (micro_batch_lengths p) ! 0) = ((a, z), m) # rest"
    and az: "a < z" and pl: "get_col p ''input_lengths'' = Inr (Vector pl)"
    by (auto split: sum.splits list.splits prod.splits column.splits)
  have args: "0 \<le> dyn_max_tokens demo_dynamic" "0 < dyn_round demo_dynamic"
    "\<exists>rows. get_col demo_batch (dyn_input_key demo_dynamic) = Inr (Matrix 8 rows)"
    "get_col demo_batch (dyn_lengths_key demo_dynamic) = Inr (Vector [3, 5, 2, 6])"
    "dyn_lengths_key demo_dynamic = ''input_lengths''"
    by (simp_all add: demo_dynamic_def demo_batch_def new_batch_def get_col_def)
  from args(3) obtain rows where rows: "get_col demo_batch (dyn_input_key demo_dynamic) = Inr (Matrix 8 rows)"
    by blast
  have "((a, z), m) \<in> set (zip (the (micro_batch_indices p) ! 0) (the (micro_batch_lengths p) ! 0))"
    by (simp add: mb)
  from dynamic_plan_cuts_nothing[OF run[unfolded run_def] demo_wf _ args(1,2) rows args(4) _ _ _ refl _ this _ az, of pl]
  have "pl ! a \<le> m"
    using pl args(5) by simp
  with run mb az pl show ?thesis
    unfolding run_def by (intro exI[of _ p] exI[of _ a] exI[of _ z] exI[of _ m] exI[of _ pl]) simp
qed

text \<open>
  With uneven shards allowed, the ranks hold consecutive ranges of the batch, in order and
  together all of it; no rank gets more than the rounded-up share.
\<close>

theorem uneven_shards_cover:
  assumes run: "shard_by_batch_size draw b shards None True None None = Inr (ps, r)"
    and wf: "batch_wf b n"
  shows "\<exists>parts. concat parts = [0..<n] \<and> length parts = shards \<and> cut_into b ps parts \<and>
    (\<forall>part\<in>set parts. length part \<le> (n + shards - 1) div shards)"
proof -
  from run obtain lay where lay: "validate_shards b shards None True False False = Inr lay"
    and ps: "ps = map (plain_shard lay True b) [0..<shards]"
    by (auto simp: shard_by_batch_size_def bindR_Inr)
  note v = validate_shards_Inr[OF lay]
  have "common_size b = Inr (total_size lay)"
    using v by blast
  then have size: "total_size lay = n"
    using batch_wf_size[OF wf] by simp
  have one: "num_chunks lay = 1" and sh: "0 < shards"
    and sz: "shard_size lay = (n + shards - 1) div shards"
    using v unfolding size by (blast, blast, metis)
  define parts where "parts = map (\<lambda>s. [min (s * shard_size lay) n..<min ((s + 1) * shard_size lay) n]) [0..<shards]"
  have "n \<le> shards * shard_size lay"
    unfolding sz by (rule ceil_div_mult[OF sh])
  then have "concat parts = [0..<n]"
    unfolding parts_def concat_capped_ranges by (simp add: min_absorb2)
  moreover from this have "cut_into b ps parts"
    using uneven_rows[OF one] by (intro cut_intoI[OF wf]) (simp_all add: parts_def ps plain_shard_def size)
  moreover have "\<forall>part\<in>set parts. length part \<le> shard_size lay"
    by (auto simp: parts_def min_def)
  ultimately show ?thesis
    using sz by (intro exI[of _ parts]) (simp add: parts_def)
qed

theorem uneven_shards_cover_witness:
  "\<exists>ps r parts. shard_by_batch_size (\<lambda>_. id) demo_batch 3 None True None None = Inr (ps, r) \<and>
     concat parts = [0..<4] \<and> length parts = 3 \<and> cut_into demo_batch ps parts"
proof -
  have "ok (shard_by_batch_size (\<lambda>_. id) demo_batch 3 None True None None)"
    by code_simp
  then obtain ps r where run: "shard_by_batch_size (\<lambda>_. id) demo_batch 3 None True None None = Inr (ps, r)"
    using ok_obtain by blast
  from uneven_shards_cover[OF run demo_wf] run show ?thesis by blast
qed

text \<open>
  \<open>chunk\<close> rejects valid ranks: it compares the rank with the number of rows per chunk
  instead of the number of chunks, so with more chunks than rows per chunk the last ranks
  raise, although their chunk exists.  Every rank below both gets its rows.
\<close>

theorem chunk_result:
  assumes "batch_wf b n" and "0 < chunks" and "n mod chunks = 0" and "rank < chunks"
  shows "chunk b rank chunks =
    (if rank < n div chunks
     then Inr (rows_of b [rank * (n div chunks)..<(rank + 1) * (n div chunks)])
     else Inl AssertionError)"
  using assms batch_wf_size[OF assms(1)] by (simp add: chunk_def Let_def)

theorem chunk_result_witness:
  "chunk demo_batch 3 4 = Inl AssertionError \<and> chunk demo_batch 0 4 = Inr (rows_of demo_batch [0..<1])"
  using chunk_result[OF demo_wf, of 4 3] chunk_result[OF demo_wf, of 4 0] by simp

end
