(* ===== verification/Metas.thy ===== *)
theory Metas
  imports Sharding "HOL-Library.AList"
begin

text \<open>
  The control-plane metadata of a batch: \<open>KVBatchMeta\<close> and its pure transforms
  (\<open>nemo_rl/data_plane/interfaces.py\<close>) and the key-list split over the data-parallel ranks,
  \<open>shard_meta_for_dp\<close> (\<open>nemo_rl/data_plane/preshard.py\<close>), which runs
  \<open>shard_by_batch_size\<close> on a skeleton batch.  A Python dictionary is an association list in
  insertion order: \<open>AList.update\<close> keeps the place of a present key and appends a new one.
\<close>

section \<open>State\<close>

type_synonym tag = "(string \<times> pyval) list"

datatype extra_val =
    XIndices "(nat \<times> nat) list list" | XLengths "int list list" | XCounts "nat list" | XOther pyval

record meta =
  partition_id :: string
  task_name :: "string option"
  sample_ids :: "string list"
  field_names :: "string list option"
  sequence_lengths :: "int list option"
  extra_info :: "(string \<times> extra_val) list"
  tags :: "tag list option"

text \<open>The dataclass constructor with its \<open>__post_init__\<close> check.\<close>

definition aligned :: "'a list option \<Rightarrow> nat \<Rightarrow> bool" where
  "aligned xs n \<longleftrightarrow> (case xs of None \<Rightarrow> True | Some ys \<Rightarrow> length ys = n)"

definition mk_meta :: "meta \<Rightarrow> meta res" where
  "mk_meta m = (if aligned (tags m) (length (sample_ids m)) then Inr m else Inl ValueError)"

definition meta_size :: "meta \<Rightarrow> nat" where
  "meta_size m = length (sample_ids m)"

section \<open>Transforms\<close>

text \<open>\<open>stamp_tags\<close> writes one scalar column after the other, so an exception leaves the earlier ones.\<close>

fun stamp_columns :: "nat \<Rightarrow> (string \<times> pyval list) list \<Rightarrow> tag list \<Rightarrow> tag list \<times> unit res" where
  "stamp_columns n [] ts = (ts, Inr ())"
| "stamp_columns n ((name, vs) # rest) ts =
     (if length vs \<noteq> n then (ts, Inl ValueError)
      else stamp_columns n rest (map2 (\<lambda>t v. AList.update name v t) ts vs))"

definition stamp_tags :: "(string \<times> pyval list) list \<Rightarrow> meta \<Rightarrow> meta \<times> unit res" where
  "stamp_tags scalars m =
     (let ts = (case tags m of None \<Rightarrow> replicate (meta_size m) [] | Some ts \<Rightarrow> ts);
          (ts', r) = stamp_columns (meta_size m) scalars ts
      in (m\<lparr>tags := Some ts'\<rparr>, r))"

text \<open>\<open>_replace\<close>: new rows, the same partition, task, fields and extra information.\<close>

definition replace_rows ::
  "meta \<Rightarrow> string list \<Rightarrow> int list option \<Rightarrow> tag list option \<Rightarrow> meta res" where
  "replace_rows m ids lens ts =
     mk_meta (m\<lparr>sample_ids := ids, sequence_lengths := lens, tags := ts\<rparr>)"

definition pickR :: "'a list \<Rightarrow> nat list \<Rightarrow> 'a list res" where
  "pickR xs ixs = bindR (guardR IndexError (\<forall>i\<in>set ixs. i < length xs)) (\<lambda>_. Inr (pick xs ixs))"

definition pick_optR :: "'a list option \<Rightarrow> nat list \<Rightarrow> 'a list option res" where
  "pick_optR xs ixs =
     (case xs of None \<Rightarrow> Inr None | Some ys \<Rightarrow> bindR (pickR ys ixs) (\<lambda>zs. Inr (Some zs)))"

definition meta_subset :: "meta \<Rightarrow> nat list \<Rightarrow> meta res" where
  "meta_subset m ixs =
     bindR (pickR (sample_ids m) ixs) (\<lambda>ids.
     bindR (pick_optR (sequence_lengths m) ixs) (\<lambda>lens.
     bindR (pick_optR (tags m) ixs) (\<lambda>ts. replace_rows m ids lens ts)))"

definition meta_slice :: "meta \<Rightarrow> nat \<Rightarrow> nat \<Rightarrow> meta res" where
  "meta_slice m start stop =
     replace_rows m (slice start stop (sample_ids m))
       (map_option (slice start stop) (sequence_lengths m)) (map_option (slice start stop) (tags m))"

definition concat_opt :: "'a list option list \<Rightarrow> 'a list option" where
  "concat_opt xs = (if None \<in> set xs then None else Some (concat (map the xs)))"

definition meta_concat :: "meta \<Rightarrow> meta list \<Rightarrow> meta res" where
  "meta_concat m metas =
     (if list_ex (\<lambda>n. partition_id n \<noteq> partition_id m) metas then Inl ValueError
      else let all = m # metas
           in replace_rows m (concat (map sample_ids all)) (concat_opt (map sequence_lengths all))
                (concat_opt (map tags all)))"

definition meta_drop :: "meta \<Rightarrow> nat list \<Rightarrow> meta option res" where
  "meta_drop m ixs =
     (let keep = filter (\<lambda>i. i \<notin> set ixs) [0..<meta_size m]
      in if keep = [] then Inr None else bindR (meta_subset m keep) (\<lambda>r. Inr (Some r)))"

text \<open>\<open>list(dict.fromkeys(xs))\<close> keeps the first occurrence of each element.\<close>

definition dedup :: "'a list \<Rightarrow> 'a list" where
  "dedup xs = rev (remdups (rev xs))"

definition with_fields :: "meta \<Rightarrow> string list \<Rightarrow> meta res" where
  "with_fields m names =
     mk_meta (m\<lparr>field_names := Some (dedup ((case field_names m of None \<Rightarrow> [] | Some fs \<Rightarrow> fs) @ names))\<rparr>)"

section \<open>Splitting over the ranks\<close>

text \<open>
  The skeleton batch: placeholder token ids, the real lengths, a mask and the row numbers.
  The column names are the constants of \<open>nemo_rl/data_plane/schema.py\<close>.
\<close>

definition skeleton :: "nat \<Rightarrow> nat \<Rightarrow> int list \<Rightarrow> batch" where
  "skeleton n width lens = new_batch
     [(''input_ids'', Matrix width (replicate n (replicate width 0))),
      (''input_lengths'', Vector lens),
      (''sample_mask'', Vector (replicate n 1)),
      (''meta_idx'', Vector (map int [0..<n]))]"

definition attach_packing :: "batch \<Rightarrow> (string \<times> extra_val) list \<Rightarrow> (string \<times> extra_val) list" where
  "attach_packing shard base =
     (let put = (\<lambda>k v xs. case v of None \<Rightarrow> xs | Some x \<Rightarrow> AList.update k x xs)
      in put ''elem_counts_per_gb'' (map_option XCounts (elem_counts_per_gb shard))
          (put ''micro_batch_lengths'' (map_option XLengths (micro_batch_lengths shard))
            (put ''micro_batch_indices'' (map_option XIndices (micro_batch_indices shard)) base)))"

fun row_numbers :: "column \<Rightarrow> nat list res" where
  "row_numbers (Vector xs) = Inr (map nat xs)"
| "row_numbers _ = Inl AttributeError"

definition rank_meta :: "meta \<Rightarrow> int list \<Rightarrow> batch \<Rightarrow> nat list \<Rightarrow> meta" where
  "rank_meta m lens shard idx =
     \<lparr>partition_id = partition_id m, task_name = task_name m, sample_ids = pick (sample_ids m) idx,
      field_names = field_names m, sequence_lengths = Some (pick lens idx),
      extra_info = attach_packing shard (extra_info m), tags = None\<rparr>"

text \<open>\<open>unsorted[old_idx] = new_pos\<close> for every position, in order.\<close>

fun invert_onto :: "nat \<Rightarrow> nat list \<Rightarrow> nat list \<Rightarrow> nat list" where
  "invert_onto pos [] acc = acc"
| "invert_onto pos (i # is) acc = invert_onto (Suc pos) is (acc[i := pos])"

definition shard_meta_for_dp ::
  "(nat \<Rightarrow> nat \<Rightarrow> nat) \<Rightarrow> meta \<Rightarrow> nat \<Rightarrow> nat option \<Rightarrow> packing_args option \<Rightarrow> dynamic_args option \<Rightarrow>
   (meta list \<times> nat list option) res" where
  "shard_meta_for_dp draw m dp_world batch_size pk dyn =
     (let n = length (sample_ids m)
      in if n = 0 then Inl ValueError
         else case sequence_lengths m of
           None \<Rightarrow> Inl ValueError
         | Some lens \<Rightarrow>
            (if length lens \<noteq> n then Inl ValueError
             else if pk \<noteq> None \<and> dyn \<noteq> None then Inl ValueError
             else if (case dyn of None \<Rightarrow> False | Some a \<Rightarrow> dyn_max_tokens a < 0) then Inl RuntimeError
             else
               (let width = (case dyn of None \<Rightarrow> 1 | Some a \<Rightarrow> nat (dyn_max_tokens a))
                in bindR (shard_by_batch_size draw (skeleton n width lens) dp_world batch_size False dyn pk)
                  (\<lambda>(shards, _).
                  bindR (mapR (\<lambda>s. bindR (get_col s ''meta_idx'') row_numbers) shards) (\<lambda>idxs.
                    let flat = concat idxs
                    in Inr (map2 (rank_meta m lens) shards idxs,
                            if flat \<noteq> [0..<n] then Some (invert_onto 0 flat (replicate n 0)) else None))))))"

section \<open>Aligned rows\<close>

text \<open>A meta is well formed when its per-row sequences have one entry per sample.\<close>

definition meta_wf :: "meta \<Rightarrow> bool" where
  "meta_wf m \<longleftrightarrow> aligned (sequence_lengths m) (meta_size m) \<and> aligned (tags m) (meta_size m)"

lemma aligned_simps [simp]: "aligned None n" "aligned (Some xs) n \<longleftrightarrow> length xs = n"
  by (simp_all add: aligned_def)

lemma mk_meta_Inr [simp]: "mk_meta m = Inr r \<longleftrightarrow> r = m \<and> aligned (tags m) (length (sample_ids m))"
  by (auto simp: mk_meta_def)

lemma mk_meta_Inl [simp]: "mk_meta m = Inl e \<longleftrightarrow> e = ValueError \<and> \<not> aligned (tags m) (length (sample_ids m))"
  by (auto simp: mk_meta_def)

lemma pickR_Inr [simp]: "pickR xs ixs = Inr ys \<longleftrightarrow> (\<forall>i\<in>set ixs. i < length xs) \<and> ys = pick xs ixs"
  by (auto simp: pickR_def bindR_Inr)

lemma pick_optR_ok:
  "aligned xs n \<Longrightarrow> \<forall>i\<in>set ixs. i < n \<Longrightarrow>
     pick_optR xs ixs = Inr (map_option (\<lambda>ys. pick ys ixs) xs)"
  by (cases xs) (auto simp: pick_optR_def pickR_def)

lemma aligned_map: "aligned xs n \<Longrightarrow> (\<And>ys. length ys = n \<Longrightarrow> length (f ys) = k) \<Longrightarrow> aligned (map_option f xs) k"
  by (cases xs) auto

abbreviation rows_meta :: "meta \<Rightarrow> nat list \<Rightarrow> meta" where
  "rows_meta m ixs \<equiv> m\<lparr>sample_ids := pick (sample_ids m) ixs,
     sequence_lengths := map_option (\<lambda>ys. pick ys ixs) (sequence_lengths m),
     tags := map_option (\<lambda>ys. pick ys ixs) (tags m)\<rparr>"

lemma meta_subset_ok:
  assumes "meta_wf m" and "\<forall>i\<in>set ixs. i < meta_size m"
  shows "meta_subset m ixs = Inr (rows_meta m ixs)"
  using assms by (auto simp: meta_subset_def meta_wf_def meta_size_def pickR_def pick_optR_ok
      replace_rows_def mk_meta_def intro!: aligned_map)

lemma meta_subset_error: "\<not> (\<forall>i\<in>set ixs. i < meta_size m) \<Longrightarrow> meta_subset m ixs = Inl IndexError"
  by (auto simp: meta_subset_def pickR_def meta_size_def guardR_def)

lemma slice_opt: "aligned xs n \<Longrightarrow> e \<le> n \<Longrightarrow> map_option (slice a e) xs = map_option (\<lambda>ys. pick ys [a..<e]) xs"
  by (cases xs) (auto simp: pick_slice)

lemma meta_slice_ok:
  assumes "meta_wf m" and "e \<le> meta_size m"
  shows "meta_slice m a e = Inr (rows_meta m [a..<e])"
proof -
  have "slice a e (sample_ids m) = pick (sample_ids m) [a..<e]"
    using assms(2) by (simp add: pick_slice meta_size_def)
  moreover have "aligned (map_option (\<lambda>ys. pick ys [a..<e]) (tags m)) (e - a)"
    using assms(1) by (auto simp: meta_wf_def intro: aligned_map)
  ultimately show ?thesis
    using assms by (simp add: meta_slice_def replace_rows_def mk_meta_def meta_wf_def
        slice_opt[OF _ assms(2)])
qed

lemma rows_meta_wf: "meta_wf m \<Longrightarrow> meta_wf (rows_meta m ixs) \<and> meta_size (rows_meta m ixs) = length ixs"
  by (auto simp: meta_wf_def meta_size_def intro!: aligned_map)

lemma concat_opt_aligned:
  "list_all2 aligned xss ns \<Longrightarrow> aligned (concat_opt xss) (sum_list ns)"
proof (induction xss ns rule: list_all2_induct)
  case (Cons x xs n ns)
  then show ?case
    by (cases x) (auto simp: concat_opt_def aligned_def split: if_splits)
qed (simp add: concat_opt_def)

lemma meta_concat_wf:
  assumes "\<forall>x\<in>set (m # ms). meta_wf x" and "\<forall>x\<in>set ms. partition_id x = partition_id m"
  shows "\<exists>r. meta_concat m ms = Inr r \<and> meta_wf r \<and>
    sample_ids r = concat (map sample_ids (m # ms)) \<and> partition_id r = partition_id m"
proof -
  have len: "length (concat (map sample_ids (m # ms))) = sum_list (map meta_size (m # ms))"
    by (simp add: length_concat meta_size_def[abs_def] comp_def)
  have "list_all2 aligned (map tags (m # ms)) (map meta_size (m # ms))"
    "list_all2 aligned (map sequence_lengths (m # ms)) (map meta_size (m # ms))"
    using assms(1) by (auto simp: meta_wf_def list_all2_map1 list_all2_map2 list_all2_same)
  from this[THEN concat_opt_aligned]
  show ?thesis
    using assms(2) unfolding meta_concat_def Let_def replace_rows_def mk_meta_def
    by (auto simp: list_ex_iff meta_wf_def meta_size_def[abs_def] comp_def length_concat simp del: list.map)
qed

lemma pick_join: "length ys = n \<Longrightarrow> k \<le> n \<Longrightarrow> pick ys [0..<k] @ pick ys [k..<n] = ys"
  by (simp add: pick_slice slice_def)

lemma concat_opt_join:
  "aligned xs n \<Longrightarrow> k \<le> n \<Longrightarrow>
     concat_opt [map_option (\<lambda>ys. pick ys [0..<k]) xs, map_option (\<lambda>ys. pick ys [k..<n]) xs] = xs"
  by (cases xs) (auto simp: concat_opt_def pick_join)

lemma slice_then_concat:
  assumes wf: "meta_wf m" and k: "k \<le> meta_size m"
  shows "bindR (meta_slice m 0 k) (\<lambda>a. bindR (meta_slice m k (meta_size m)) (\<lambda>b. meta_concat a [b])) = Inr m"
proof -
  have "concat [pick (sample_ids m) [0..<k], pick (sample_ids m) [k..<meta_size m]] = sample_ids m"
    using k by (simp add: pick_join meta_size_def)
  with wf k show ?thesis
    by (simp add: meta_slice_ok meta_concat_def Let_def replace_rows_def mk_meta_def meta_wf_def
        concat_opt_join meta_size_def)
qed

section \<open>Inverting the assignment\<close>

lemma length_invert_onto [simp]: "length (invert_onto pos is acc) = length acc"
  by (induction pos "is" acc rule: invert_onto.induct) simp_all

lemma invert_onto_other: "i \<notin> set is \<Longrightarrow> invert_onto pos is acc ! i = acc ! i"
  by (induction pos "is" acc rule: invert_onto.induct) auto

lemma invert_onto_nth:
  "distinct is \<Longrightarrow> \<forall>i\<in>set is. i < length acc \<Longrightarrow> j < length is \<Longrightarrow>
     invert_onto pos is acc ! (is ! j) = pos + j"
proof (induction pos "is" acc arbitrary: j rule: invert_onto.induct)
  case (2 pos i "is" acc)
  then show ?case
    by (cases j) (simp_all add: invert_onto_other)
qed simp

lemma perm_inverse:
  assumes perm: "mset flat = mset [0..<n]"
  defines "u \<equiv> invert_onto 0 flat (replicate n 0)"
  shows "length u = n" "pick u flat = [0..<n]" "pick flat u = [0..<n]" "mset u = mset [0..<n]"
proof -
  have len: "length flat = n"
    using perm by (metis diff_zero length_upt size_mset)
  have set: "set flat = {..<n}" and dist: "distinct flat"
    using mset_eq_setD[OF perm] mset_eq_imp_distinct_iff[OF perm] by (simp_all add: lessThan_atLeast0)
  show lu: "length u = n" by (simp add: u_def)
  have nth: "u ! (flat ! j) = j" if "j < n" for j
    using invert_onto_nth[OF dist, of "replicate n 0" j 0] that set len by (simp add: u_def)
  then show uf: "pick u flat = [0..<n]"
    by (intro nth_equalityI) (simp_all add: len)
  have "flat ! (u ! i) = i" "u ! i < n" if i: "i < n" for i
  proof -
    from i set len obtain j where "j < n" "i = flat ! j"
      by (metis in_set_conv_nth lessThan_iff)
    with nth show "flat ! (u ! i) = i" "u ! i < n" by auto
  qed
  then show fu: "pick flat u = [0..<n]"
    by (intro nth_equalityI) (simp_all add: lu)
  have "mset u = image_mset (\<lambda>i. u ! i) (mset [0..<n])"
    using lu by (metis map_nth mset_map)
  also have "\<dots> = mset (pick u flat)"
    by (simp only: pick_def mset_map perm)
  finally show "mset u = mset [0..<n]" by (simp add: uf)
qed

text \<open>Sorting by the inverse permutation yields the permutation again, not the identity.\<close>

lemma sort_key_zip_inverse:
  assumes perm: "mset flat = mset [0..<n]"
  defines "u \<equiv> invert_onto 0 flat (replicate n 0)"
  shows "map snd (sort_key fst (zip u [0..<n])) = flat"
proof -
  note inv = perm_inverse[OF perm, folded u_def]
  let ?j = "map snd (sort_key fst (zip u [0..<n]))"
  have uj: "pick u ?j = [0..<n]"
    by (rule sort_key_zip_perm[OF inv(4)])
  have len: "length ?j = n" "length flat = n"
    using inv(1) perm by (simp, metis diff_zero length_upt size_mset)
  have jl: "\<forall>i\<in>set ?j. i < n"
    by (auto dest: set_zip_rightD)
  have "pick flat (pick u ?j) = pick flat [0..<length flat]"
    by (simp only: uj len)
  also have "\<dots> = flat" by (rule pick_upt_all)
  finally have "pick flat (pick u ?j) = flat" .
  moreover have "pick flat (pick u ?j) = pick (pick flat u) ?j"
    using jl inv(1) by (auto simp: pick_def)
  moreover have "pick (pick flat u) ?j = ?j"
    unfolding inv(3) using jl by (auto simp: pick_def intro!: map_idI)
  ultimately show ?thesis by simp
qed

section \<open>The split\<close>

lemma skeleton_wf: "0 < n \<Longrightarrow> length lens = n \<Longrightarrow> batch_wf (skeleton n w lens) n"
  by (auto simp: batch_wf_def skeleton_def)

lemma shard_meta_Inr:
  assumes run: "shard_meta_for_dp draw m dp bs pk dyn = Inr (ms, u)"
  obtains lens shards parts where "sequence_lengths m = Some lens" "length lens = meta_size m"
    "length parts = dp" "length shards = dp" "mset (concat parts) = mset [0..<meta_size m]"
    "ms = map2 (rank_meta m lens) shards parts"
    "u = (if concat parts \<noteq> [0..<meta_size m]
          then Some (invert_onto 0 (concat parts) (replicate (meta_size m) 0)) else None)"
proof -
  define n where "n = meta_size m"
  from run obtain lens where lens: "sequence_lengths m = Some lens" "length lens = n" and n: "0 < n"
    by (auto simp: shard_meta_for_dp_def Let_def n_def meta_size_def split: if_splits option.splits)
  define w where "w = (case dyn of None \<Rightarrow> 1 | Some a \<Rightarrow> nat (dyn_max_tokens a))"
  from run n lens obtain shards r idxs
    where sh: "shard_by_batch_size draw (skeleton n w lens) dp bs False dyn pk = Inr (shards, r)"
      and idx: "mapR (\<lambda>s. bindR (get_col s ''meta_idx'') row_numbers) shards = Inr idxs"
      and ms: "ms = map2 (rank_meta m lens) shards idxs"
      and u: "u = (if concat idxs \<noteq> [0..<n] then Some (invert_onto 0 (concat idxs) (replicate n 0)) else None)"
    by (auto simp: shard_meta_for_dp_def Let_def n_def meta_size_def w_def bindR_Inr split: if_splits)
  obtain parts where p: "length parts = dp" "mset (concat parts) = mset [0..<n]"
      "cut_into (skeleton n w lens) shards parts"
    by (rule shard_parts[OF sh skeleton_wf[OF n lens(2)] n]) blast
  then have len: "length shards = dp" by (simp add: cut_into_def)
  have "bindR (get_col (shards ! s) ''meta_idx'') row_numbers = Inr (parts ! s)" if s: "s < dp" for s
  proof -
    have "set (parts ! s) \<subseteq> set (concat parts)" using s p(1) by (intro set_nth_concat) simp
    also have "\<dots> = {..<n}" using mset_eq_setD[OF p(2)] by (simp add: lessThan_atLeast0)
    finally have "map (nat \<circ> (!) (map int [0..<n])) (parts ! s) = parts ! s"
      by (intro map_idI) (auto simp: subset_iff)
    moreover have "(''meta_idx'', Vector (map int [0..<n])) \<in> set (columns (skeleton n w lens))"
      by (simp add: skeleton_def)
    then have "get_col (skeleton n w lens) ''meta_idx'' = Inr (Vector (map int [0..<n]))"
      by (rule get_col_in[OF skeleton_wf[OF n lens(2)]])
    then have "get_col (shards ! s) ''meta_idx'' = Inr (take_rows (Vector (map int [0..<n])) (parts ! s))"
      using p s by (simp add: cut_into_def shard_rows_def)
    ultimately show ?thesis
      by (simp add: pick_def)
  qed
  then have "idxs = parts"
    using idx len p(1) by (auto simp: mapR_Inr list_all2_conv_all_nth intro!: nth_equalityI)
  then show thesis
    using that lens p(1,2) len ms u by (simp add: n_def)
qed

section \<open>Properties\<close>

definition demo_meta :: meta where
  "demo_meta = \<lparr>partition_id = ''train'', task_name = None, sample_ids = [''a'', ''b'', ''c'', ''d'', ''e'', ''f''],
     field_names = Some [''input_ids''], sequence_lengths = Some [6, 3, 5, 2, 4, 1], extra_info = [],
     tags = Some [[(''r'', PInt 1)], [], [], [], [], []]\<rparr>"

definition demo_dp_packing :: packing_args where
  "demo_dp_packing = \<lparr>pk_max_tokens = 8, pk_lengths_key = ''input_lengths'',
     pk_algorithm = ''modified_first_fit_decreasing'', pk_order = None, pk_pad_multiple = 1\<rparr>"

lemma demo_meta_wf: "meta_wf demo_meta \<and> meta_size demo_meta = 6"
  by code_simp

text \<open>
  The ranks' key lists are a partition of the batch's sample ids, and every rank's lengths
  belong to its samples, whatever the packing mode.
\<close>

theorem shard_meta_partitions:
  assumes run: "shard_meta_for_dp draw m dp bs pk dyn = Inr (ms, u)"
  shows "length ms = dp \<and> mset (concat (map sample_ids ms)) = mset (sample_ids m) \<and>
    (\<forall>r\<in>set ms. partition_id r = partition_id m \<and> meta_wf r \<and>
       (\<exists>lens. sequence_lengths r = Some lens \<and>
          set (zip (sample_ids r) lens) \<subseteq> set (zip (sample_ids m) (the (sequence_lengths m)))))"
proof (rule shard_meta_Inr[OF run])
  fix lens shards parts
  assume l: "sequence_lengths m = Some lens" "length lens = meta_size m" "length parts = dp" "length shards = dp"
    and perm: "mset (concat parts) = mset [0..<meta_size m]" and ms: "ms = map2 (rank_meta m lens) shards parts"
  have "map sample_ids ms = map (pick (sample_ids m)) parts"
    using l by (intro nth_equalityI) (simp_all add: ms rank_meta_def)
  then have "concat (map sample_ids ms) = pick (sample_ids m) (concat parts)"
    by (simp add: pick_concat)
  then have "mset (concat (map sample_ids ms)) = mset (sample_ids m)"
    using mset_pick[of "concat parts" "sample_ids m"] perm by (simp add: meta_size_def)
  moreover have "partition_id r = partition_id m \<and> meta_wf r \<and>
       (\<exists>lens. sequence_lengths r = Some lens \<and>
          set (zip (sample_ids r) lens) \<subseteq> set (zip (sample_ids m) (the (sequence_lengths m))))"
    if "r \<in> set ms" for r
  proof -
    from that obtain s where s: "s < dp" and r: "r = rank_meta m lens (shards ! s) (parts ! s)"
      using l by (auto simp: ms in_set_conv_nth)
    have "set (parts ! s) \<subseteq> set (concat parts)" using s l by (intro set_nth_concat) simp
    also have "\<dots> = {..<meta_size m}" using mset_eq_setD[OF perm] by (simp add: lessThan_atLeast0)
    finally have "\<forall>i\<in>set (parts ! s). i < length (sample_ids m) \<and> i < length lens"
      using l(2) by (auto simp: meta_size_def)
    then have "set (zip (pick (sample_ids m) (parts ! s)) (pick lens (parts ! s))) \<subseteq> set (zip (sample_ids m) lens)"
      by (simp add: pick_zip set_pick_subset)
    then show ?thesis
      by (simp add: r rank_meta_def meta_wf_def meta_size_def l(1))
  qed
  moreover have "length ms = dp"
    using l by (simp add: ms)
  ultimately show ?thesis
    by blast
qed

theorem shard_meta_partitions_witness:
  "\<exists>ms u. shard_meta_for_dp (\<lambda>_. id) demo_meta 2 None (Some demo_dp_packing) None = Inr (ms, u) \<and>
     length ms = 2 \<and> mset (concat (map sample_ids ms)) = mset (sample_ids demo_meta)"
proof -
  have "ok (shard_meta_for_dp (\<lambda>_. id) demo_meta 2 None (Some demo_dp_packing) None)"
    by code_simp
  then obtain ms u where run: "shard_meta_for_dp (\<lambda>_. id) demo_meta 2 None (Some demo_dp_packing) None = Inr (ms, u)"
    using ok_obtain by blast
  from shard_meta_partitions[OF run] run show ?thesis by blast
qed

text \<open>
  The returned indices are the inverse permutation: indexing the outputs, concatenated in
  rank order, with them restores the original order, and no indices are returned when it holds
  already.  Given to \<open>reorder_data\<close>, as the documentation asks, they do not: the result holds
  row \<open>p(p(k))\<close> at place \<open>k\<close> for the assignment \<open>p\<close>, because \<open>reorder_data\<close> inverts its argument.
\<close>

theorem shard_meta_unsorted:
  assumes run: "shard_meta_for_dp draw m dp bs pk dyn = Inr (ms, u)"
  shows "\<exists>p. mset p = mset [0..<meta_size m] \<and> concat (map sample_ids ms) = pick (sample_ids m) p \<and>
    (case u of
       None \<Rightarrow> p = [0..<meta_size m]
     | Some v \<Rightarrow> pick (concat (map sample_ids ms)) v = sample_ids m \<and>
        (\<forall>out orig. batch_wf orig (meta_size m) \<and> columns out = map_columns (\<lambda>c. take_rows c p) orig \<longrightarrow>
          map_columns (\<lambda>c. take_rows c v) out = columns orig \<and>
          (\<exists>r. reorder_data out v = Inr r \<and> columns r = map_columns (\<lambda>c. take_rows c (pick p p)) orig)))"
proof (rule shard_meta_Inr[OF run])
  fix lens shards parts
  let ?n = "meta_size m"
  assume l: "sequence_lengths m = Some lens" "length lens = ?n" "length parts = dp" "length shards = dp"
    and perm: "mset (concat parts) = mset [0..<?n]" and ms: "ms = map2 (rank_meta m lens) shards parts"
    and u: "u = (if concat parts \<noteq> [0..<?n] then Some (invert_onto 0 (concat parts) (replicate ?n 0)) else None)"
  define p where "p = concat parts"
  define v where "v = invert_onto 0 p (replicate ?n 0)"
  note inv = perm_inverse[OF perm[folded p_def], folded v_def]
  have lp: "length p = ?n" using perm by (metis p_def diff_zero length_upt size_mset)
  have pl: "\<forall>i\<in>set p. i < ?n" and vl: "\<forall>i\<in>set v. i < ?n"
    using mset_eq_setD[OF perm] mset_eq_setD[OF inv(4)] by (simp_all add: p_def)
  have "map sample_ids ms = map (pick (sample_ids m)) parts"
    using l by (intro nth_equalityI) (simp_all add: ms rank_meta_def)
  then have ids: "concat (map sample_ids ms) = pick (sample_ids m) p"
    by (simp add: pick_concat p_def)
  have pp: "pick (pick xs p) v = pick xs [0..<?n]" for xs :: "string list"
    using vl lp inv(3) by (auto simp: pick_def[of "pick xs p"]) (auto simp: pick_def simp flip: inv(3))
  have restore: "map_columns (\<lambda>c. take_rows c v) out = columns orig \<and>
      (\<exists>r. reorder_data out v = Inr r \<and> columns r = map_columns (\<lambda>c. take_rows c (pick p p)) orig)"
    if wf: "batch_wf orig ?n" and out: "columns out = map_columns (\<lambda>c. take_rows c p) orig" for out orig
  proof -
    have t: "take_rows (take_rows c p) v = take_rows c [0..<?n]"
      "take_rows (take_rows c p) p = take_rows c (pick p p)" for c
      using vl pl lp inv(3) by simp_all
    have "map_columns (\<lambda>c. take_rows c v) out = map_columns (\<lambda>c. take_rows c [0..<?n]) orig"
      by (auto simp: map_columns_def out t)
    also have "\<dots> = columns orig"
      by (rule map_columns_all[OF wf])
    finally have "map_columns (\<lambda>c. take_rows c v) out = columns orig" .
    moreover have "common_size out = Inr ?n"
      using wf lp by (auto simp: common_size_Inr out map_columns_def batch_wf_def)
    then have "reorder_data out v = Inr (out\<lparr>columns := map_columns (\<lambda>c. take_rows c p) out\<rparr>)"
      using sort_key_zip_inverse[OF perm[folded p_def], folded v_def]
      by (simp add: reorder_data_def Let_def)
    moreover have "map_columns (\<lambda>c. take_rows c p) out = map_columns (\<lambda>c. take_rows c (pick p p)) orig"
      by (auto simp: map_columns_def out t)
    ultimately show ?thesis by simp
  qed
  show ?thesis
  proof (cases "p = [0..<?n]")
    case True
    with perm ids u show ?thesis by (intro exI[of _ p]) (simp add: p_def)
  next
    case False
    have "pick (concat (map sample_ids ms)) v = sample_ids m"
      unfolding ids pp by (simp add: meta_size_def)
    with False perm ids u restore show ?thesis
      by (intro exI[of _ p]) (simp add: p_def v_def)
  qed
qed

theorem shard_meta_unsorted_witness:
  "\<exists>ms. shard_meta_for_dp (\<lambda>_. id) demo_meta 2 None (Some demo_dp_packing) None = Inr (ms, Some [0, 4, 3, 1, 2, 5]) \<and>
     pick (concat (map sample_ids ms)) [0, 4, 3, 1, 2, 5] = sample_ids demo_meta \<and>
     reorder_data (new_batch [(''row'', Vector [0, 3, 4, 2, 1, 5])]) [0, 4, 3, 1, 2, 5] =
       Inr (new_batch [(''row'', Vector [0, 2, 1, 4, 3, 5])])"
proof -
  have "case shard_meta_for_dp (\<lambda>_. id) demo_meta 2 None (Some demo_dp_packing) None of
      Inr (ms, Some v) \<Rightarrow> v = [0, 4, 3, 1, 2, 5] | _ \<Rightarrow> False"
    by code_simp
  then obtain ms where run:
    "shard_meta_for_dp (\<lambda>_. id) demo_meta 2 None (Some demo_dp_packing) None = Inr (ms, Some [0, 4, 3, 1, 2, 5])"
    by (auto split: sum.splits option.splits)
  moreover have "reorder_data (new_batch [(''row'', Vector [0, 3, 4, 2, 1, 5])]) [0, 4, 3, 1, 2, 5] =
       Inr (new_batch [(''row'', Vector [0, 2, 1, 4, 3, 5])])"
    by code_simp
  ultimately show ?thesis
    using shard_meta_unsorted[OF run] by auto
qed

text \<open>
  The pure transforms keep the rows aligned and lose none: a meta cut in two by
  \<open>slice\<close> is put together again by \<open>concat\<close>, and \<open>subset\<close> and \<open>drop\<close> of the same rows
  partition the samples (\<open>drop\<close> gives \<open>None\<close> when nothing is left).
\<close>

theorem meta_transforms:
  assumes wf: "meta_wf m" and k: "k \<le> meta_size m"
    and ixs: "distinct ixs" "\<forall>i\<in>set ixs. i < meta_size m"
  shows "bindR (meta_slice m 0 k) (\<lambda>a. bindR (meta_slice m k (meta_size m)) (\<lambda>b. meta_concat a [b])) = Inr m \<and>
    (\<exists>s d. meta_subset m ixs = Inr s \<and> meta_drop m ixs = Inr d \<and> meta_wf s \<and>
       (case d of None \<Rightarrow> mset (sample_ids s) = mset (sample_ids m)
        | Some r \<Rightarrow> meta_wf r \<and> mset (sample_ids s) + mset (sample_ids r) = mset (sample_ids m)))"
proof
  show "bindR (meta_slice m 0 k) (\<lambda>a. bindR (meta_slice m k (meta_size m)) (\<lambda>b. meta_concat a [b])) = Inr m"
    by (rule slice_then_concat[OF wf k])
next
  let ?n = "meta_size m" and ?keep = "filter (\<lambda>i. i \<notin> set ixs) [0..<meta_size m]"
  have "mset ixs = mset (filter (\<lambda>i. i \<in> set ixs) [0..<?n])"
    using ixs by (intro set_eq_iff_mset_eq_distinct[THEN iffD1]) auto
  then have "mset ixs + mset ?keep = mset [0..<?n]"
    by (simp only: mset_filter_compl)
  then have "mset (pick (sample_ids m) (ixs @ ?keep)) = mset (sample_ids m)"
    by (intro mset_pick) (simp add: meta_size_def)
  then show "\<exists>s d. meta_subset m ixs = Inr s \<and> meta_drop m ixs = Inr d \<and> meta_wf s \<and>
       (case d of None \<Rightarrow> mset (sample_ids s) = mset (sample_ids m)
        | Some r \<Rightarrow> meta_wf r \<and> mset (sample_ids s) + mset (sample_ids r) = mset (sample_ids m))"
    using meta_subset_ok[OF wf ixs(2)] meta_subset_ok[OF wf, of ?keep] rows_meta_wf[OF wf]
    by (cases "?keep = []") (auto simp: meta_drop_def Let_def)
qed

theorem meta_transforms_witness:
  "bindR (meta_slice demo_meta 0 2) (\<lambda>a. bindR (meta_slice demo_meta 2 6) (\<lambda>b. meta_concat a [b])) = Inr demo_meta \<and>
   (\<exists>s r. meta_subset demo_meta [4, 1] = Inr s \<and> meta_drop demo_meta [4, 1] = Inr (Some r) \<and>
      mset (sample_ids s) + mset (sample_ids r) = mset (sample_ids demo_meta))"
proof -
  have "case meta_drop demo_meta [4, 1] of Inr (Some r) \<Rightarrow> True | _ \<Rightarrow> False"
    by code_simp
  then obtain r where "meta_drop demo_meta [4, 1] = Inr (Some r)"
    by (auto split: sum.splits option.splits)
  with meta_transforms[of demo_meta 2 "[4, 1]"] demo_meta_wf show ?thesis
    by (simp add: demo_meta_def[symmetric]) auto
qed

end
