(* ===== verification/NoopClient.thy ===== *)
theory NoopClient
  imports Metas
begin

text \<open>
  The in-memory data plane \<open>NoOpDataPlaneClient\<close> (\<open>nemo_rl/data_plane/adapters/noop.py\<close>), the
  reference implementation of \<open>DataPlaneClient\<close>: partitions of rows, tags and per-task
  consumption cursors.  A tensor is known by its contents, one integer per row; a dictionary is
  an association list in insertion order, a cursor (a Python set of keys) a list without
  duplicates.  An operation returns the client it leaves, also when it raises, and its result.
  The contract \<open>sample_store\<close> states what a producer and a consumer rely on.
\<close>

section \<open>State\<close>

datatype leaf = TensorLeaf "int list" | OtherLeaf

type_synonym row = "(string \<times> int) list"
type_synonym tensor_dict = "(string \<times> leaf) list"

record partition =
  p_fields :: "string list"
  p_num_samples :: int
  p_consumer_tasks :: "string list"
  p_group_size :: "int option"
  p_enums :: "(string \<times> string list) list"
  p_rows :: "(string \<times> row) list"
  p_tags :: "(string \<times> tag) list"
  p_consumed :: "(string \<times> string list) list"

record client =
  partitions :: "(string \<times> partition) list"
  closed :: bool

definition new_client :: client where
  "new_client = \<lparr>partitions = [], closed = False\<rparr>"

type_synonym 'r outcome = "client \<times> 'r res"

definition with_partition :: "client \<Rightarrow> string \<Rightarrow> (partition \<Rightarrow> partition \<times> 'r res) \<Rightarrow> 'r outcome" where
  "with_partition c pid f =
     (case map_of (partitions c) pid of
        None \<Rightarrow> (c, Inl KeyError)
      | Some rec \<Rightarrow> (case f rec of (rec', r) \<Rightarrow> (c\<lparr>partitions := AList.update pid rec' (partitions c)\<rparr>, r)))"

definition get_or :: "'b \<Rightarrow> ('a \<times> 'b) list \<Rightarrow> 'a \<Rightarrow> 'b" where
  "get_or d xs k = (case map_of xs k of None \<Rightarrow> d | Some v \<Rightarrow> v)"

section \<open>Partitions\<close>

definition register_partition ::
  "client \<Rightarrow> string \<Rightarrow> string list \<Rightarrow> int \<Rightarrow> string list \<Rightarrow> int option \<Rightarrow>
   (string \<times> string list) list option \<Rightarrow> unit outcome" where
  "register_partition c pid fs n tasks grp enums =
     (c\<lparr>partitions := AList.update pid
          \<lparr>p_fields = fs, p_num_samples = n, p_consumer_tasks = tasks, p_group_size = grp,
           p_enums = (case enums of None \<Rightarrow> [] | Some e \<Rightarrow> e), p_rows = [], p_tags = [],
           p_consumed = map (\<lambda>t. (t, [])) (dedup tasks)\<rparr> (partitions c)\<rparr>, Inr ())"

section \<open>Claiming\<close>

text \<open>\<open>int(tag.get("input_lengths", 0))\<close>\<close>

definition tag_length :: "tag \<Rightarrow> int res" where
  "tag_length t =
     (case map_of t ''input_lengths'' of
        None \<Rightarrow> Inr 0 | Some (PInt n) \<Rightarrow> Inr n | Some (PStr s) \<Rightarrow> Inl ValueError | Some (PObj n) \<Rightarrow> Inl TypeError)"

text \<open>The scan over the rows stops once the batch is full, after the row that filled it.\<close>

fun claim_scan ::
  "string list \<Rightarrow> int \<Rightarrow> string list \<Rightarrow> (string \<times> tag) list \<Rightarrow> (string \<times> row) list \<Rightarrow>
   string list \<Rightarrow> int list \<Rightarrow> (string list \<times> int list) res" where
  "claim_scan req bs used ts [] ready seqs = Inr (ready, seqs)"
| "claim_scan req bs used ts ((key, row) # rows) ready seqs =
     (if key \<in> set used then claim_scan req bs used ts rows ready seqs
      else if \<not> list_all (\<lambda>f. map_of row f \<noteq> None) req then claim_scan req bs used ts rows ready seqs
      else bindR (tag_length (get_or [] ts key)) (\<lambda>n.
             if int (length (ready @ [key])) \<ge> bs then Inr (ready @ [key], seqs @ [n])
             else claim_scan req bs used ts rows (ready @ [key]) (seqs @ [n])))"

definition set_update :: "'a list \<Rightarrow> 'a list \<Rightarrow> 'a list" where
  "set_update s xs = s @ filter (\<lambda>x. x \<notin> set s) (dedup xs)"

definition claim_meta :: "client \<Rightarrow> string \<Rightarrow> string \<Rightarrow> string list \<Rightarrow> int \<Rightarrow> meta outcome" where
  "claim_meta c pid task req bs =
     with_partition c pid (\<lambda>rec.
       case map_of (p_consumed rec) task of
         None \<Rightarrow> (rec, Inl KeyError)
       | Some used \<Rightarrow>
           (case claim_scan req bs used (p_tags rec) (p_rows rec) [] [] of
              Inl e \<Rightarrow> (rec, Inl e)
            | Inr (ready, seqs) \<Rightarrow>
                (rec\<lparr>p_consumed := AList.update task (set_update used ready) (p_consumed rec)\<rparr>,
                 Inr \<lparr>partition_id = pid, task_name = Some task, sample_ids = ready,
                      field_names = Some req,
                      sequence_lengths = (if list_ex (\<lambda>n. n \<noteq> 0) seqs then Some seqs else None),
                      extra_info = [], tags = None\<rparr>)))"

definition check_consumption_status :: "client \<Rightarrow> string \<Rightarrow> string list \<Rightarrow> bool outcome" where
  "check_consumption_status c pid tasks =
     with_partition c pid (\<lambda>rec.
       (rec, Inr (list_all (\<lambda>t. case map_of (p_consumed rec) t of
            None \<Rightarrow> False | Some used \<Rightarrow> \<not> length used < length (p_rows rec)) tasks)))"

section \<open>Writing\<close>

fun put_row :: "nat \<Rightarrow> tensor_dict \<Rightarrow> row \<Rightarrow> row \<times> unit res" where
  "put_row i [] row = (row, Inr ())"
| "put_row i ((f, OtherLeaf) # td) row = (row, Inl TypeError)"
| "put_row i ((f, TensorLeaf xs) # td) row =
     (if i < length xs then put_row i td (AList.update f (xs ! i) row) else (row, Inl IndexError))"

fun put_rows :: "tensor_dict \<Rightarrow> nat \<Rightarrow> string list \<Rightarrow> (string \<times> row) list \<Rightarrow> (string \<times> row) list \<times> unit res" where
  "put_rows td i [] rows = (rows, Inr ())"
| "put_rows td i (sid # sids) rows =
     (case put_row i td (get_or [] rows sid) of
        (row, Inl e) \<Rightarrow> (AList.update sid row rows, Inl e)
      | (row, Inr _) \<Rightarrow> put_rows td (Suc i) sids (AList.update sid row rows))"

definition merge_tag :: "tag \<Rightarrow> tag \<Rightarrow> tag" where
  "merge_tag t new = foldl (\<lambda>t (k, v). AList.update k v t) t new"

definition put_tags :: "string list \<Rightarrow> tag list \<Rightarrow> (string \<times> tag) list \<Rightarrow> (string \<times> tag) list" where
  "put_tags sids ts old =
     foldl (\<lambda>acc (sid, t). AList.update sid (merge_tag (get_or [] acc sid) t) acc) old (zip sids ts)"

definition reject_non_tensor_leaves :: "tensor_dict \<Rightarrow> unit res" where
  "reject_non_tensor_leaves td = guardR TypeError (OtherLeaf \<notin> set (map snd td))"

definition put_samples ::
  "client \<Rightarrow> string list \<Rightarrow> string \<Rightarrow> tensor_dict option \<Rightarrow> tag list option \<Rightarrow> meta outcome" where
  "put_samples c sids pid td ts =
     with_partition c pid (\<lambda>rec.
       let (rec1, r1) = (case td of
             None \<Rightarrow> (rec, Inr ())
           | Some d \<Rightarrow>
               (case reject_non_tensor_leaves d of
                  Inl e \<Rightarrow> (rec, Inl e)
                | Inr _ \<Rightarrow> (case put_rows d 0 sids (p_rows rec) of (rows, r) \<Rightarrow> (rec\<lparr>p_rows := rows\<rparr>, r))))
       in case r1 of
            Inl e \<Rightarrow> (rec1, Inl e)
          | Inr _ \<Rightarrow>
              (case ts of None \<Rightarrow> rec1 | Some xs \<Rightarrow> rec1\<lparr>p_tags := put_tags sids xs (p_tags rec1)\<rparr>,
               mk_meta \<lparr>partition_id = pid, task_name = None, sample_ids = sids,
                 field_names = map_option (map fst) td, sequence_lengths = None, extra_info = [], tags = ts\<rparr>))"

section \<open>Reading\<close>

text \<open>
  One list of values per requested field; a field requested twice is appended to its list twice,
  so that the rows no longer match the batch size.
\<close>

fun fetch_row :: "string list \<Rightarrow> row \<Rightarrow> row res" where
  "fetch_row [] row = Inr []"
| "fetch_row (f # fs) row =
     (case map_of row f of
        None \<Rightarrow> Inl KeyError
      | Some v \<Rightarrow> bindR (fetch_row fs row) (\<lambda>r. Inr ((f, v) # r)))"

definition get_samples :: "client \<Rightarrow> string list \<Rightarrow> string \<Rightarrow> string list \<Rightarrow> (string \<times> int list) list outcome" where
  "get_samples c sids pid fs =
     with_partition c pid (\<lambda>rec. (rec,
       if sids = [] then Inr []
       else bindR (mapR (\<lambda>sid. case map_of (p_rows rec) sid of
                      None \<Rightarrow> Inl KeyError | Some row \<Rightarrow> fetch_row fs row) sids) (\<lambda>rows.
              bindR (guardR RuntimeError (distinct fs)) (\<lambda>_.
                Inr (map (\<lambda>f. (f, map (\<lambda>r. the (map_of r f)) rows)) fs)))))"

definition get_data :: "client \<Rightarrow> meta \<Rightarrow> string list option \<Rightarrow> (string \<times> int list) list outcome" where
  "get_data c m select =
     (case (case select of None \<Rightarrow> field_names m | Some fs \<Rightarrow> Some fs) of
        None \<Rightarrow> (c, Inl ValueError)
      | Some fs \<Rightarrow> get_samples c (sample_ids m) (partition_id m) fs)"

section \<open>Clearing\<close>

definition forget :: "string \<Rightarrow> partition \<Rightarrow> partition" where
  "forget sid rec = rec\<lparr>p_rows := AList.delete sid (p_rows rec), p_tags := AList.delete sid (p_tags rec),
     p_consumed := map (\<lambda>(t, s). (t, removeAll sid s)) (p_consumed rec)\<rparr>"

definition clear_samples :: "client \<Rightarrow> string list option \<Rightarrow> string \<Rightarrow> unit outcome" where
  "clear_samples c sids pid =
     (case map_of (partitions c) pid of
        None \<Rightarrow> (c, Inr ())
      | Some rec \<Rightarrow>
          (case sids of
             None \<Rightarrow> (c\<lparr>partitions := AList.delete pid (partitions c)\<rparr>, Inr ())
           | Some ids \<Rightarrow>
               (c\<lparr>partitions := AList.update pid (foldl (\<lambda>r sid. forget sid r) rec ids) (partitions c)\<rparr>, Inr ())))"

definition close :: "client \<Rightarrow> unit outcome" where
  "close c = (if closed c then (c, Inr ()) else (c\<lparr>partitions := [], closed := True\<rparr>, Inr ()))"

section \<open>Dictionaries\<close>

lemma update_same: "map_of al k = Some v \<Longrightarrow> AList.update k v al = al"
  by (induction al) (auto split: if_splits)

lemma map_of_update [simp]: "map_of (AList.update k v al) j = (if j = k then Some v else map_of al j)"
  by (simp add: update_conv')

lemma map_of_delete [simp]: "map_of (AList.delete k al) j = (if j = k then None else map_of al j)"
  by (simp add: delete_conv')

lemma get_or_update [simp]: "get_or d (AList.update k v al) j = (if j = k then v else get_or d al j)"
  by (simp add: get_or_def)

lemma with_partition_read:
  "map_of (partitions c) pid = Some rec \<Longrightarrow> with_partition c pid (\<lambda>r. (r, g r)) = (c, g rec)"
  by (simp add: with_partition_def update_same)

section \<open>The store contract\<close>

text \<open>
  \<open>read s p k f\<close> is the value of field \<open>f\<close> of sample \<open>k\<close> in partition \<open>p\<close>, if produced.
  \<open>put\<close> gives the new store, or \<open>None\<close> when it raises.
\<close>

locale sample_store =
  fixes read :: "'s \<Rightarrow> 'p \<Rightarrow> 'k \<Rightarrow> 'f \<Rightarrow> 'v option"
    and put :: "'s \<Rightarrow> 'p \<Rightarrow> 'k list \<Rightarrow> ('f \<times> 'v list) list \<Rightarrow> 's option"
    and clear :: "'s \<Rightarrow> 'p \<Rightarrow> 'k list \<Rightarrow> 's"
  assumes put_read: "put s p ks cols = Some s' \<Longrightarrow> distinct ks \<Longrightarrow> distinct (map fst cols) \<Longrightarrow>
      i < length ks \<Longrightarrow> (f, xs) \<in> set cols \<Longrightarrow> read s' p (ks ! i) f = Some (xs ! i)"
    and put_other: "put s p ks cols = Some s' \<Longrightarrow> distinct ks \<Longrightarrow> distinct (map fst cols) \<Longrightarrow>
      p' \<noteq> p \<or> k \<notin> set ks \<or> f \<notin> fst ` set cols \<Longrightarrow> read s' p' k f = read s p' k f"
    and clear_read: "read (clear s p ks) p' k f = (if p' = p \<and> k \<in> set ks then None else read s p' k f)"
begin

definition produced :: "'s \<Rightarrow> 'p \<Rightarrow> 'k \<Rightarrow> 'f list \<Rightarrow> bool" where
  "produced s p k fs \<longleftrightarrow> (\<forall>f\<in>set fs. read s p k f \<noteq> None)"

lemma stage_done:
  assumes "put s p ks cols = Some s'" and "distinct ks" and "distinct (map fst cols)" and "k \<in> set ks"
  shows "produced s' p k (map fst cols)"
  using assms put_read[OF assms(1-3)] by (fastforce simp: produced_def in_set_conv_nth)

lemma produced_kept:
  assumes "put s p ks cols = Some s'" and "distinct ks" and "distinct (map fst cols)" and "produced s p' k fs"
  shows "produced s' p' k fs"
  unfolding produced_def
proof
  fix f assume f: "f \<in> set fs"
  show "read s' p' k f \<noteq> None"
  proof (cases "p' = p \<and> k \<in> set ks \<and> f \<in> fst ` set cols")
    case True
    with stage_done[OF assms(1-3)] show ?thesis by (auto simp: produced_def)
  next
    case False
    with put_other[OF assms(1-3)] assms(4) f show ?thesis by (auto simp: produced_def)
  qed
qed

text \<open>Two stages that write different fields of the same samples leave both readable.\<close>

lemma stages_compose:
  assumes "put s p ks cols = Some s1" and "put s1 p ks cols' = Some s2" and "distinct ks"
    and "distinct (map fst (cols @ cols'))" and "i < length ks" and "(f, xs) \<in> set (cols @ cols')"
  shows "read s2 p (ks ! i) f = Some (xs ! i)"
proof (cases "(f, xs) \<in> set cols'")
  case True
  with put_read[OF assms(2)] assms(3-5) show ?thesis by simp
next
  case False
  with assms(6) have "(f, xs) \<in> set cols" by simp
  moreover from this have "f \<notin> fst ` set cols'" using assms(4) by force
  ultimately show ?thesis
    using put_other[OF assms(2)] put_read[OF assms(1)] assms(3-5) by simp
qed

lemma cleared:
  "k \<in> set ks \<Longrightarrow> fs \<noteq> [] \<Longrightarrow> \<not> produced (clear s p ks) p k fs"
  by (cases fs) (auto simp: produced_def clear_read)

end

section \<open>The client keeps the contract\<close>

definition read_cell :: "client \<Rightarrow> string \<Rightarrow> string \<Rightarrow> string \<Rightarrow> int option" where
  "read_cell c pid sid f =
     (case map_of (partitions c) pid of
        None \<Rightarrow> None | Some rec \<Rightarrow> map_of (get_or [] (p_rows rec) sid) f)"

definition tensors :: "(string \<times> int list) list \<Rightarrow> tensor_dict" where
  "tensors cols = map (\<lambda>(f, xs). (f, TensorLeaf xs)) cols"

definition put_columns :: "client \<Rightarrow> string \<Rightarrow> string list \<Rightarrow> (string \<times> int list) list \<Rightarrow> client option" where
  "put_columns c pid sids cols =
     (case put_samples c sids pid (Some (tensors cols)) None of
        (c', Inl e) \<Rightarrow> None | (c', Inr m) \<Rightarrow> Some c')"

definition clear_ids :: "client \<Rightarrow> string \<Rightarrow> string list \<Rightarrow> client" where
  "clear_ids c pid sids = fst (clear_samples c (Some sids) pid)"

lemma tensors_simps [simp]:
  "tensors [] = []" "tensors ((f, xs) # cols) = (f, TensorLeaf xs) # tensors cols"
  "map fst (tensors cols) = map fst cols" "OtherLeaf \<notin> snd ` set (tensors cols)"
  by (auto simp: tensors_def)

lemma put_row_tensors:
  "put_row i (tensors cols) row = (row', Inr u) \<Longrightarrow> distinct (map fst cols) \<Longrightarrow>
     map_of row' f = (case map_of cols f of None \<Rightarrow> map_of row f | Some xs \<Rightarrow> Some (xs ! i)) \<and>
     (\<forall>(f, xs)\<in>set cols. i < length xs)"
proof (induction cols arbitrary: row)
  case (Cons a cols)
  obtain g ys where a: "a = (g, ys)" by (cases a)
  from Cons.prems have i: "i < length ys"
    and rest: "put_row i (tensors cols) (AList.update g (ys ! i) row) = (row', Inr u)"
    by (auto simp: a split: if_splits)
  have g: "map_of cols g = None" and d: "distinct (map fst cols)"
    using Cons.prems(2) by (auto simp: a map_of_eq_None_iff)
  from Cons.IH[OF rest d] i g show ?case
    by (cases "f = g") (simp_all add: a cong: option.case_cong)
qed simp

lemma put_rows_tensors:
  assumes "put_rows (tensors cols) i sids rows = (rows', Inr u)" and "distinct (map fst cols)" and "distinct sids"
  shows "(\<forall>j<length sids. map_of (get_or [] rows' (sids ! j)) f =
      (case map_of cols f of None \<Rightarrow> map_of (get_or [] rows (sids ! j)) f | Some xs \<Rightarrow> Some (xs ! (i + j)))) \<and>
    (\<forall>sid. sid \<notin> set sids \<longrightarrow> map_of rows' sid = map_of rows sid) \<and>
    (\<forall>sid\<in>set sids. map_of rows' sid \<noteq> None) \<and>
    (\<forall>j<length sids. \<forall>(f, xs)\<in>set cols. i + j < length xs)"
  using assms
proof (induction sids arbitrary: i rows)
  case (Cons sid sids)
  from Cons.prems(1) obtain row v where r: "put_row i (tensors cols) (get_or [] rows sid) = (row, Inr v)"
    and rest: "put_rows (tensors cols) (Suc i) sids (AList.update sid row rows) = (rows', Inr u)"
    by (auto split: prod.splits sum.splits)
  note row = put_row_tensors[OF r Cons.prems(2)]
  have d: "sid \<notin> set sids" "distinct sids" using Cons.prems(3) by auto
  note IH = Cons.IH[OF rest Cons.prems(2) d(2)]
  have head: "map_of rows' sid = Some row" using IH d(1) by simp
  have old: "sids ! j \<noteq> sid" if "j < length sids" for j using d(1) that nth_mem by blast
  show ?case
  proof (intro conjI allI impI)
    fix j assume j: "j < length (sid # sids)"
    show "map_of (get_or [] rows' ((sid # sids) ! j)) f =
      (case map_of cols f of None \<Rightarrow> map_of (get_or [] rows ((sid # sids) ! j)) f | Some xs \<Rightarrow> Some (xs ! (i + j)))"
    proof (cases j)
      case 0
      then show ?thesis using row head by (simp add: get_or_def[of "[]" rows'] cong: option.case_cong)
    next
      case (Suc k)
      then show ?thesis using IH j old[of k] by (simp cong: option.case_cong)
    qed
    show "\<forall>(f, xs)\<in>set cols. i + j < length xs"
      using j row IH by (cases j) auto
  qed (use IH head in auto)
qed simp

lemma put_columns_Some:
  assumes "put_columns c pid sids cols = Some c'"
  obtains rec rows u where "map_of (partitions c) pid = Some rec"
    "put_rows (tensors cols) 0 sids (p_rows rec) = (rows, Inr u)"
    "c' = c\<lparr>partitions := AList.update pid (rec\<lparr>p_rows := rows\<rparr>) (partitions c)\<rparr>"
  using assms
  by (auto simp: put_columns_def put_samples_def with_partition_def reject_non_tensor_leaves_def
      mk_meta_def split: option.splits prod.splits sum.splits)

lemma read_forget:
  "map_of (get_or [] (p_rows (foldl (\<lambda>r sid. forget sid r) rec ids)) k) f =
     (if k \<in> set ids then None else map_of (get_or [] (p_rows rec) k) f)"
  by (induction ids arbitrary: rec) (auto simp: forget_def get_or_def)

interpretation noop: sample_store read_cell put_columns clear_ids
proof
  fix s p ks cols s' i f xs
  assume put: "put_columns s p ks cols = Some s'" and d: "distinct ks" "distinct (map fst cols)"
    and i: "i < length ks" and f: "(f, xs) \<in> set cols"
  then show "read_cell s' p (ks ! i) f = Some (xs ! i)"
    by (elim put_columns_Some) (use put_rows_tensors[OF _ d(2,1)] in \<open>fastforce simp: read_cell_def\<close>)
next
  fix s p ks cols s' p' k f
  assume put: "put_columns s p ks cols = Some s'" and d: "distinct ks" "distinct (map fst cols)"
    and other: "p' \<noteq> p \<or> k \<notin> set ks \<or> f \<notin> fst ` set cols"
  from put obtain rec rows u where r: "map_of (partitions s) p = Some rec"
    "put_rows (tensors cols) 0 ks (p_rows rec) = (rows, Inr u)"
    "s' = s\<lparr>partitions := AList.update p (rec\<lparr>p_rows := rows\<rparr>) (partitions s)\<rparr>"
    by (rule put_columns_Some)
  note w = put_rows_tensors[OF r(2) d(2,1), of f]
  have "map_of (get_or [] rows k) f = map_of (get_or [] (p_rows rec) k) f" if "k \<notin> set ks \<or> f \<notin> fst ` set cols"
  proof (cases "k \<in> set ks")
    case True
    with that have "map_of cols f = None" by (simp add: map_of_eq_None_iff)
    with True w show ?thesis by (auto simp: in_set_conv_nth)
  next
    case False
    with w show ?thesis by (simp add: get_or_def)
  qed
  with other show "read_cell s' p' k f = read_cell s p' k f"
    by (auto simp: read_cell_def r)
next
  show "read_cell (clear_ids s p ks) p' k f = (if p' = p \<and> k \<in> set ks then None else read_cell s p' k f)"
    for s p ks p' k f
    by (auto simp: read_cell_def clear_ids_def clear_samples_def read_forget split: option.splits)
qed

section \<open>Claims\<close>

text \<open>The samples a task may claim, in insertion order: not yet claimed, all fields produced.\<close>

definition eligible :: "string list \<Rightarrow> string list \<Rightarrow> (string \<times> row) list \<Rightarrow> string list" where
  "eligible req used rows =
     map fst (filter (\<lambda>(key, row). key \<notin> set used \<and> list_all (\<lambda>f. map_of row f \<noteq> None) req) rows)"

lemma claim_scan_Inr:
  assumes "claim_scan req bs used ts rows ready seqs = Inr (r, q)" and "int (length ready) < max 1 bs"
  shows "r = ready @ take (nat (max 1 bs) - length ready) (eligible req used rows)"
  using assms
proof (induction req bs used ts rows ready seqs rule: claim_scan.induct)
  case (2 req bs used ts key row rows ready seqs)
  let ?ok = "key \<notin> set used \<and> list_all (\<lambda>f. map_of row f \<noteq> None) req"
  show ?case
  proof (cases ?ok)
    case False
    then have "claim_scan req bs used ts rows ready seqs = Inr (r, q)"
      using 2(4) by (auto split: if_splits)
    moreover have "eligible req used ((key, row) # rows) = eligible req used rows"
      using False by (auto simp: eligible_def)
    ultimately show ?thesis
      using 2(1,2) 2(5) False by (cases "key \<in> set used") auto
  next
    case True
    then have e: "eligible req used ((key, row) # rows) = key # eligible req used rows"
      by (simp add: eligible_def)
    from True 2(4) obtain n where n: "tag_length (get_or [] ts key) = Inr n"
      and run: "(if int (length (ready @ [key])) \<ge> bs then Inr (ready @ [key], seqs @ [n])
        else claim_scan req bs used ts rows (ready @ [key]) (seqs @ [n])) = Inr (r, q)"
      by (auto simp: bindR_Inr)
    obtain d where d: "nat (max 1 bs) - length ready = Suc d"
      using 2(5) by (metis Suc_pred' diff_is_0_eq' gr0I nat_le_iff not_le zero_less_diff)
    show ?thesis
    proof (cases "int (length (ready @ [key])) \<ge> bs")
      case True
      then have "d = 0" using d 2(5) by auto
      with run True e d show ?thesis by simp
    next
      case False
      then have "r = (ready @ [key]) @ take (nat (max 1 bs) - length (ready @ [key])) (eligible req used rows)"
        using 2(3)[OF _ _ False] \<open>?ok\<close> run by auto
      moreover have "nat (max 1 bs) - length (ready @ [key]) = d"
        using d by simp
      ultimately show ?thesis using e d by simp
    qed
  qed
qed (simp add: eligible_def)

definition part_wf :: "partition \<Rightarrow> bool" where
  "part_wf rec \<longleftrightarrow> distinct (map fst (p_rows rec))"

definition client_wf :: "client \<Rightarrow> bool" where
  "client_wf c \<longleftrightarrow> (\<forall>pid rec. map_of (partitions c) pid = Some rec \<longrightarrow> part_wf rec)"

definition used_by :: "client \<Rightarrow> string \<Rightarrow> string \<Rightarrow> string set" where
  "used_by c pid task =
     (case map_of (partitions c) pid of None \<Rightarrow> {} | Some rec \<Rightarrow> set (get_or [] (p_consumed rec) task))"

lemma with_partition_cases:
  assumes "with_partition c pid f = (c', r)"
  obtains "map_of (partitions c) pid = None" "c' = c" "r = Inl KeyError"
  | rec rec' where "map_of (partitions c) pid = Some rec" "f rec = (rec', r)"
      "c' = c\<lparr>partitions := AList.update pid rec' (partitions c)\<rparr>"
  using assms by (auto simp: with_partition_def split: option.splits prod.splits)

lemma with_partition_wf:
  assumes "client_wf c" and "\<And>rec. part_wf rec \<Longrightarrow> part_wf (fst (f rec))"
  shows "client_wf (fst (with_partition c pid f))"
proof (cases "map_of (partitions c) pid")
  case (Some rec)
  then have "part_wf rec" using assms(1) by (simp add: client_wf_def)
  then have "part_wf (fst (f rec))" by (rule assms(2))
  then show ?thesis
    using assms(1) by (simp add: with_partition_def Some client_wf_def split_def)
qed (use assms(1) in \<open>simp add: with_partition_def\<close>)

lemma with_partition_used:
  assumes "\<And>rec. set (get_or [] (p_consumed rec) task) \<subseteq> set (get_or [] (p_consumed (fst (f rec))) task)"
  shows "used_by c p task \<subseteq> used_by (fst (with_partition c pid f)) p task"
proof (cases "map_of (partitions c) pid")
  case (Some rec)
  then show ?thesis
    using assms[of rec] by (simp add: with_partition_def used_by_def split_def)
qed (simp add: with_partition_def)

lemma put_rows_distinct:
  "distinct (map fst rows) \<Longrightarrow> distinct (map fst (fst (put_rows td i sids rows)))"
  by (induction td i sids rows rule: put_rows.induct)
     (auto split: prod.splits sum.splits simp: distinct_update)

lemma set_dedup [simp]: "set (dedup xs) = set xs"
  by (simp add: dedup_def)

lemma set_set_update [simp]: "set (set_update s xs) = set s \<union> set xs"
  by (auto simp: set_update_def)

text \<open>One claim: what it returns, and what it leaves claimed.\<close>

lemma claim_meta_Inr:
  assumes "claim_meta c pid task req bs = (c', Inr m)"
  obtains rec where "map_of (partitions c) pid = Some rec"
    "sample_ids m = take (nat (max 1 bs)) (eligible req (get_or [] (p_consumed rec) task) (p_rows rec))"
    "partition_id m = pid" "task_name m = Some task"
    "used_by c' pid task = used_by c pid task \<union> set (sample_ids m)"
    "\<forall>t. t \<noteq> task \<longrightarrow> used_by c' pid t = used_by c pid t"
    "map_of (partitions c') pid = Some (rec\<lparr>p_consumed := p_consumed (the (map_of (partitions c') pid))\<rparr>)"
proof -
  from assms obtain rec rec' where rec: "map_of (partitions c) pid = Some rec"
    and f: "(case map_of (p_consumed rec) task of
         None \<Rightarrow> (rec, Inl KeyError)
       | Some used \<Rightarrow>
           (case claim_scan req bs used (p_tags rec) (p_rows rec) [] [] of
              Inl e \<Rightarrow> (rec, Inl e)
            | Inr (ready, seqs) \<Rightarrow>
                (rec\<lparr>p_consumed := AList.update task (set_update used ready) (p_consumed rec)\<rparr>,
                 Inr \<lparr>partition_id = pid, task_name = Some task, sample_ids = ready,
                      field_names = Some req,
                      sequence_lengths = (if list_ex (\<lambda>n. n \<noteq> 0) seqs then Some seqs else None),
                      extra_info = [], tags = None\<rparr>))) = (rec', Inr m)"
    and c': "c' = c\<lparr>partitions := AList.update pid rec' (partitions c)\<rparr>"
    unfolding claim_meta_def by (elim with_partition_cases) auto
  from f obtain used ready seqs where used: "map_of (p_consumed rec) task = Some used"
    and scan: "claim_scan req bs used (p_tags rec) (p_rows rec) [] [] = Inr (ready, seqs)"
    and rec': "rec' = rec\<lparr>p_consumed := AList.update task (set_update used ready) (p_consumed rec)\<rparr>"
    and m: "m = \<lparr>partition_id = pid, task_name = Some task, sample_ids = ready, field_names = Some req,
                 sequence_lengths = (if list_ex (\<lambda>n. n \<noteq> 0) seqs then Some seqs else None),
                 extra_info = [], tags = None\<rparr>"
    by (auto split: option.splits sum.splits prod.splits)
  have "ready = take (nat (max 1 bs)) (eligible req used (p_rows rec))"
    using claim_scan_Inr[OF scan] by simp
  then show thesis
    using that[OF rec] used by (simp add: m c' rec' used_by_def rec get_or_def)
qed

section \<open>Sequences of operations\<close>

datatype client_op =
    Register string "string list" int "string list" "int option" "(string \<times> string list) list option"
  | Claim string string "string list" int
  | Status string "string list"
  | Put "string list" string "tensor_dict option" "tag list option"
  | Get "string list" string "string list"
  | Clear "string list option" string
  | Close

text \<open>One operation: the client it leaves and the claims it makes.\<close>

fun exec :: "client \<Rightarrow> client_op \<Rightarrow> client \<times> meta list" where
  "exec c (Register pid fs n tasks g e) = (fst (register_partition c pid fs n tasks g e), [])"
| "exec c (Claim pid task req bs) =
     (case claim_meta c pid task req bs of (c', Inl e) \<Rightarrow> (c', []) | (c', Inr m) \<Rightarrow> (c', [m]))"
| "exec c (Status pid tasks) = (fst (check_consumption_status c pid tasks), [])"
| "exec c (Put sids pid td ts) = (fst (put_samples c sids pid td ts), [])"
| "exec c (Get sids pid fs) = (fst (get_samples c sids pid fs), [])"
| "exec c (Clear sids pid) = (fst (clear_samples c sids pid), [])"
| "exec c Close = (fst (close c), [])"

fun claims :: "client \<Rightarrow> client_op list \<Rightarrow> meta list" where
  "claims c [] = []"
| "claims c (p # ps) = (case exec c p of (c', ms) \<Rightarrow> ms @ claims c' ps)"

text \<open>The operations that reset the cursors of a partition.\<close>

fun resets :: "string \<Rightarrow> client_op \<Rightarrow> bool" where
  "resets pid (Register p fs n tasks g e) = (p = pid)"
| "resets pid (Clear sids p) = (p = pid)"
| "resets pid Close = True"
| "resets pid _ = False"

lemma part_wf_put: "part_wf rec \<Longrightarrow> part_wf (fst (
     let (rec1, r1) = (case td of
             None \<Rightarrow> (rec, Inr ())
           | Some d \<Rightarrow>
               (case reject_non_tensor_leaves d of
                  Inl e \<Rightarrow> (rec, Inl e)
                | Inr _ \<Rightarrow> (case put_rows d 0 sids (p_rows rec) of (rows, r) \<Rightarrow> (rec\<lparr>p_rows := rows\<rparr>, r))))
       in case r1 of
            Inl e \<Rightarrow> (rec1, Inl e)
          | Inr _ \<Rightarrow>
              (case ts of None \<Rightarrow> rec1 | Some xs \<Rightarrow> rec1\<lparr>p_tags := put_tags sids xs (p_tags rec1)\<rparr>, res)))"
  using put_rows_distinct[of "p_rows rec"]
  by (auto simp: part_wf_def Let_def split: option.splits sum.splits prod.splits) (metis fst_conv)+

lemma p_rows_forget: "p_rows (foldl (\<lambda>r sid. forget sid r) rec ids) =
    foldl (\<lambda>rs sid. AList.delete sid rs) (p_rows rec) ids"
  by (induction ids arbitrary: rec) (simp_all add: forget_def)

lemma distinct_deletes:
  "distinct (map fst rows) \<Longrightarrow> distinct (map fst (foldl (\<lambda>rs sid. AList.delete sid rs) rows ids))"
  by (induction ids arbitrary: rows) (simp_all add: distinct_delete)

lemma exec_wf: "client_wf c \<Longrightarrow> client_wf (fst (exec c p))"
proof (cases p)
  case (Claim pid task req bs)
  assume wf: "client_wf c"
  have "client_wf (fst (claim_meta c pid task req bs))"
    unfolding claim_meta_def
    by (rule with_partition_wf[OF wf]) (auto simp: part_wf_def split: option.splits sum.splits)
  then show ?thesis
    by (auto simp: Claim split: prod.splits sum.splits)
next
  case (Put sids pid td ts)
  assume wf: "client_wf c"
  show ?thesis
    unfolding Put exec.simps put_samples_def fst_conv
    by (rule with_partition_wf[OF wf]) (rule part_wf_put)
next
  case (Clear sids pid)
  assume wf: "client_wf c"
  then show ?thesis
    by (auto simp: Clear clear_samples_def client_wf_def part_wf_def p_rows_forget distinct_deletes
        split: option.splits)
next
  case (Register pid fs n tasks grp enums)
  assume "client_wf c"
  then show ?thesis
    by (auto simp: Register register_partition_def client_wf_def part_wf_def)
next
  case Close
  assume "client_wf c"
  then show ?thesis
    by (auto simp: Close close_def client_wf_def)
qed (auto simp: check_consumption_status_def get_samples_def intro!: with_partition_wf)

lemma used_after:
  assumes "\<not> resets pid p"
  shows "used_by c pid task \<subseteq> used_by (fst (exec c p)) pid task"
proof (cases p)
  case (Claim q t req bs)
  have "used_by c pid task \<subseteq> used_by (fst (claim_meta c q t req bs)) pid task"
    unfolding claim_meta_def
    by (rule with_partition_used) (auto split: option.splits sum.splits prod.splits simp: get_or_def)
  then show ?thesis
    by (auto simp: Claim split: prod.splits sum.splits)
next
  case (Put sids q td ts)
  show ?thesis
    unfolding Put exec.simps put_samples_def fst_conv
    by (rule with_partition_used) (auto simp: Let_def split: option.splits sum.splits prod.splits)
next
  case (Register q fs n tasks grp enums)
  with assms show ?thesis
    by (auto simp: register_partition_def used_by_def)
next
  case (Clear sids q)
  with assms show ?thesis
    by (auto simp: clear_samples_def used_by_def split: option.splits)
next
  case (Status q ts)
  show ?thesis
    unfolding Status exec.simps check_consumption_status_def fst_conv
    by (rule with_partition_used) simp
next
  case (Get sids q fs)
  show ?thesis
    unfolding Get exec.simps get_samples_def fst_conv
    by (rule with_partition_used) simp
qed (use assms in simp)

lemma exec_claims:
  assumes "client_wf c" and "exec c p = (c', ms)"
  shows "distinct (concat (map sample_ids (filter (\<lambda>m. partition_id m = pid \<and> task_name m = Some task) ms))) \<and>
    used_by c pid task \<inter> set (concat (map sample_ids (filter (\<lambda>m. partition_id m = pid \<and> task_name m = Some task) ms))) = {} \<and>
    set (concat (map sample_ids (filter (\<lambda>m. partition_id m = pid \<and> task_name m = Some task) ms))) \<subseteq> used_by c' pid task"
proof (cases "\<exists>m. ms = [m]")
  case True
  then obtain m where ms: "ms = [m]" ..
  with assms(2) obtain q t req bs where p: "p = Claim q t req bs" and cl: "claim_meta c q t req bs = (c', Inr m)"
    by (cases p) (auto split: prod.splits sum.splits)
  show ?thesis
  proof (cases "q = pid \<and> t = task")
    case True
    from cl obtain rec where rec: "map_of (partitions c) q = Some rec"
      and ids: "sample_ids m = take (nat (max 1 bs)) (eligible req (get_or [] (p_consumed rec) t) (p_rows rec))"
      and id: "partition_id m = q" "task_name m = Some t"
      and used: "used_by c' q t = used_by c q t \<union> set (sample_ids m)"
      by (rule claim_meta_Inr)
    have "distinct (map fst (p_rows rec))"
      using assms(1) rec by (auto simp: client_wf_def part_wf_def)
    then have "distinct (sample_ids m)"
      unfolding ids eligible_def by (intro distinct_take distinct_map_filter)
    moreover have "set (sample_ids m) \<inter> used_by c q t = {}"
      unfolding ids by (auto simp: eligible_def used_by_def rec dest!: in_set_takeD)
    ultimately show ?thesis
      using True id used by (auto simp: ms)
  next
    case False
    with cl have "\<not> (partition_id m = pid \<and> task_name m = Some task)"
      by (auto elim!: claim_meta_Inr)
    then show ?thesis by (auto simp: ms)
  qed
next
  case False
  with assms(2) have "ms = []"
    by (cases p) (auto split: prod.splits sum.splits)
  then show ?thesis by simp
qed

lemma claims_distinct:
  assumes "client_wf c" and "list_all (\<lambda>p. \<not> resets pid p) ps"
  shows "distinct (concat (map sample_ids (filter (\<lambda>m. partition_id m = pid \<and> task_name m = Some task) (claims c ps)))) \<and>
    used_by c pid task \<inter> set (concat (map sample_ids
      (filter (\<lambda>m. partition_id m = pid \<and> task_name m = Some task) (claims c ps)))) = {}"
  using assms
proof (induction ps arbitrary: c)
  case (Cons p ps)
  obtain c' ms where e: "exec c p = (c', ms)" by fastforce
  have c': "client_wf c'" "used_by c pid task \<subseteq> used_by c' pid task"
    using exec_wf[OF Cons.prems(1), of p] used_after[of pid p c task] Cons.prems(2) e by auto
  from Cons.IH[OF c'(1)] Cons.prems(2) exec_claims[OF Cons.prems(1) e, of pid task] c'(2)
  show ?case
    by (simp add: e) blast
qed simp

section \<open>Properties\<close>

definition demo_ops :: "client_op list" where
  "demo_ops = [Register ''train'' [''x'', ''y''] 4 [''lp'', ''ref''] None None,
     Put [''a'', ''b'', ''c''] ''train'' (Some [(''x'', TensorLeaf [10, 11, 12])]) None,
     Claim ''train'' ''lp'' [''x''] 2, Put [''d''] ''train'' (Some [(''x'', TensorLeaf [13])]) None,
     Claim ''train'' ''lp'' [''x''] 2, Claim ''train'' ''ref'' [''x''] 9, Claim ''train'' ''lp'' [''x''] 2]"

text \<open>
  What a producer puts is what a consumer gets: after a \<open>put_samples\<close> that did not
  raise, \<open>get_samples\<close> of the same samples and fields returns the written rows, and reading
  does not change the store.
\<close>

theorem put_then_get:
  assumes put: "put_columns c pid sids cols = Some c'" and d: "distinct sids" "distinct (map fst cols)" and ne: "sids \<noteq> []"
  shows "get_samples c' sids pid (map fst cols) = (c', Inr (map (\<lambda>(f, xs). (f, take (length sids) xs)) cols))"
proof -
  from put obtain rec rows u where r: "map_of (partitions c) pid = Some rec"
    "put_rows (tensors cols) 0 sids (p_rows rec) = (rows, Inr u)"
    "c' = c\<lparr>partitions := AList.update pid (rec\<lparr>p_rows := rows\<rparr>) (partitions c)\<rparr>"
    by (rule put_columns_Some)
  note w = put_rows_tensors[OF r(2) d(2,1)]
  have fetch: "fetch_row fs row = Inr (map (\<lambda>f. (f, the (map_of row f))) fs)"
    if "\<forall>f\<in>set fs. map_of row f \<noteq> None" for fs row
    using that by (induction fs) auto
  define row where "row = (\<lambda>j. map (\<lambda>(f, xs). (f, xs ! j)) cols)"
  have cell: "map_of (get_or [] rows (sids ! j)) f = Some (xs ! j)" "j < length xs"
    if "j < length sids" "(f, xs) \<in> set cols" for j f xs
  proof -
    have "\<forall>(f, xs)\<in>set cols. 0 + j < length xs"
      using w that(1) by blast
    with that(2) show "j < length xs" by auto
    show "map_of (get_or [] rows (sids ! j)) f = Some (xs ! j)"
      using w[of f] that d(2) by simp
  qed
  have each: "(case map_of rows sid of None \<Rightarrow> Inl KeyError | Some row \<Rightarrow> fetch_row (map fst cols) row) =
      Inr (map (\<lambda>f. (f, the (map_of (get_or [] rows sid) f))) (map fst cols))" if "sid \<in> set sids" for sid
  proof -
    from that obtain j where j: "j < length sids" "sid = sids ! j" by (auto simp: in_set_conv_nth)
    from w that obtain rw where rw: "map_of rows sid = Some rw" by fastforce
    then have "\<forall>f\<in>set (map fst cols). map_of rw f \<noteq> None"
      using cell(1)[OF j(1)] by (auto simp: j(2) get_or_def)
    then show ?thesis
      by (simp add: rw fetch get_or_def)
  qed
  have lookup: "map_of (map (\<lambda>f. (f, g f)) fs) f = Some (g f)" if "f \<in> set fs" for fs g and f :: string
    using that by (induction fs) auto
  have col: "map (\<lambda>sid. the (map_of (map (\<lambda>f. (f, the (map_of (get_or [] rows sid) f))) (map fst cols)) f)) sids =
      take (length sids) xs" if "(f, xs) \<in> set cols" for f xs
  proof (rule nth_equalityI)
    show "length (map (\<lambda>sid. the (map_of (map (\<lambda>f. (f, the (map_of (get_or [] rows sid) f))) (map fst cols)) f)) sids) =
        length (take (length sids) xs)"
      using cell(2)[OF _ that, of "length sids - 1"] ne by (auto simp: neq_Nil_conv)
    fix j assume "j < length (map (\<lambda>sid. the (map_of (map (\<lambda>f. (f, the (map_of (get_or [] rows sid) f))) (map fst cols)) f)) sids)"
    then have j: "j < length sids" by simp
    have "f \<in> set (map fst cols)" using that by force
    then show "map (\<lambda>sid. the (map_of (map (\<lambda>f. (f, the (map_of (get_or [] rows sid) f))) (map fst cols)) f)) sids ! j =
        take (length sids) xs ! j"
      using j cell(1)[OF j that] by (simp only: nth_map lookup) simp
  qed
  show ?thesis
    using r ne d(2) col
    by (simp add: get_samples_def with_partition_read mapR_total[OF each] comp_def update_same split_def)
qed

theorem put_then_get_witness:
  "\<exists>c'. put_columns (fst (register_partition new_client ''train'' [''x''] 2 [''lp''] None None)) ''train''
       [''b'', ''a''] [(''x'', [5, 6, 7]), (''y'', [8, 9])] = Some c' \<and>
     get_samples c' [''b'', ''a''] ''train'' [''x'', ''y''] = (c', Inr [(''x'', [5, 6]), (''y'', [8, 9])])"
proof -
  have "put_columns (fst (register_partition new_client ''train'' [''x''] 2 [''lp''] None None)) ''train''
       [''b'', ''a''] [(''x'', [5, 6, 7]), (''y'', [8, 9])] \<noteq> None"
    by code_simp
  then obtain c' where "put_columns (fst (register_partition new_client ''train'' [''x''] 2 [''lp''] None None)) ''train''
       [''b'', ''a''] [(''x'', [5, 6, 7]), (''y'', [8, 9])] = Some c'"
    by blast
  with put_then_get[OF this] show ?thesis by simp
qed

text \<open>
  A claim returns, in insertion order, the first \<open>batch_size\<close> samples that are complete and
  not yet claimed by the task (but at least one, if there is one, even for a batch size of
  zero), and it advances that task's cursor by exactly these, no other task's.
\<close>

theorem claim_meta_result:
  assumes "claim_meta c pid task req bs = (c', Inr m)"
  shows "\<exists>rec. map_of (partitions c) pid = Some rec \<and>
    sample_ids m = take (nat (max 1 bs)) (eligible req (get_or [] (p_consumed rec) task) (p_rows rec)) \<and>
    used_by c' pid task = used_by c pid task \<union> set (sample_ids m) \<and>
    (\<forall>t. t \<noteq> task \<longrightarrow> used_by c' pid t = used_by c pid t)"
  by (rule claim_meta_Inr[OF assms]) blast

definition demo_client :: client where
  "demo_client = fst (exec (fst (exec new_client
     (Register ''train'' [''x''] 2 [''lp'', ''ref''] None None)))
     (Put [''b'', ''a''] ''train'' (Some [(''x'', TensorLeaf [5, 6])]) None))"

theorem claim_meta_result_witness:
  "\<exists>c' m. claim_meta demo_client ''train'' ''lp'' [''x''] 0 = (c', Inr m) \<and>
     used_by c' ''train'' ''lp'' = used_by demo_client ''train'' ''lp'' \<union> set (sample_ids m) \<and> sample_ids m = [''b'']"
proof -
  have "case claim_meta demo_client ''train'' ''lp'' [''x''] 0 of
      (c', Inr m) \<Rightarrow> sample_ids m = [''b''] | _ \<Rightarrow> False"
    by code_simp
  then obtain c' m where "claim_meta demo_client ''train'' ''lp'' [''x''] 0 = (c', Inr m)" "sample_ids m = [''b'']"
    by (auto split: prod.splits sum.splits)
  with claim_meta_result[OF this(1)] show ?thesis by blast
qed

text \<open>
  C7: No sample is handed to a task twice: over any sequence of operations that does not
  re-register, clear or close the partition, all claims of one task on it are disjoint.
\<close>

theorem claimed_at_most_once:
  assumes "client_wf c" and "list_all (\<lambda>p. \<not> resets pid p) ps"
  shows "distinct (concat (map sample_ids
    (filter (\<lambda>m. partition_id m = pid \<and> task_name m = Some task) (claims c ps))))"
  using claims_distinct[OF assms] by blast

theorem claimed_at_most_once_witness:
  "distinct (concat (map sample_ids (filter (\<lambda>m. partition_id m = ''train'' \<and> task_name m = Some ''lp'')
     (claims (fst (exec new_client (hd demo_ops))) (tl demo_ops))))) \<and>
   concat (map sample_ids (filter (\<lambda>m. task_name m = Some ''lp'') (claims new_client demo_ops))) =
     [''a'', ''b'', ''c'', ''d'']"
proof -
  have "client_wf (fst (exec new_client (hd demo_ops)))"
    by (rule exec_wf) (simp add: client_wf_def new_client_def)
  moreover have "list_all (\<lambda>p. \<not> resets ''train'' p) (tl demo_ops)"
    by (simp add: demo_ops_def)
  moreover have "concat (map sample_ids (filter (\<lambda>m. task_name m = Some ''lp'') (claims new_client demo_ops))) =
     [''a'', ''b'', ''c'', ''d'']"
    by code_simp
  ultimately show ?thesis
    using claimed_at_most_once by blast
qed

text \<open>
  The contract of the store, on the client: a value put for one field survives later puts
  of other fields and other samples, a later stage's fields are added beside it, and clearing
  removes exactly the cleared samples' values.
\<close>

theorem store_stages:
  assumes "put_columns c pid sids cols = Some c1" and "put_columns c1 pid sids cols' = Some c2"
    and "distinct sids" and "distinct (map fst (cols @ cols'))" and "i < length sids"
    and "(f, xs) \<in> set (cols @ cols')"
  shows "read_cell c2 pid (sids ! i) f = Some (xs ! i) \<and>
    read_cell (clear_ids c2 pid ids) pid (sids ! i) f = (if sids ! i \<in> set ids then None else Some (xs ! i))"
  using noop.stages_compose[OF assms] by (simp add: noop.clear_read)

theorem store_stages_witness:
  "\<exists>c1 c2. put_columns demo_client ''train'' [''a'', ''c''] [(''y'', [1, 2])] = Some c1 \<and>
     put_columns c1 ''train'' [''a'', ''c''] [(''z'', [3, 4])] = Some c2 \<and>
     read_cell c2 ''train'' ''a'' ''y'' = Some 1 \<and> read_cell (clear_ids c2 ''train'' [''a'']) ''train'' ''a'' ''y'' = None"
proof -
  have "case put_columns demo_client ''train'' [''a'', ''c''] [(''y'', [1, 2])] of None \<Rightarrow> False
    | Some c1 \<Rightarrow> put_columns c1 ''train'' [''a'', ''c''] [(''z'', [3, 4])] \<noteq> None"
    by code_simp
  then obtain c1 c2 where p: "put_columns demo_client ''train'' [''a'', ''c''] [(''y'', [1, 2])] = Some c1"
    "put_columns c1 ''train'' [''a'', ''c''] [(''z'', [3, 4])] = Some c2"
    by (auto split: option.splits)
  from store_stages[OF p, of 0 "''y''" "[1, 2]" "[''a'']"] p show ?thesis by simp
qed

end
