(* ===== verification/ReplayBuffer.thy ===== *)
theory ReplayBuffer
  imports Prelude Complex_Main
begin

text \<open>
  The per-prompt replay buffer of the asynchronous loop, \<open>ReplayBufferImpl\<close>
  (\<open>nemo_rl/algorithms/async_utils/replay_buffer.py\<close>): three parallel lists (trajectory,
  version that generated it, trainer version it is meant for) and the last target already
  consumed.  The lock makes each operation atomic, so an operation is a function on the state.
  A trajectory is its task index, when it carries one, and an opaque payload.  Logging and the
  starvation diagnostics are not modelled.
\<close>

section \<open>State\<close>

record trajectory =
  task_index :: "int option"
  payload :: nat

record replay_buffer =
  max_size :: int
  drop_incomplete :: bool
  trajectories :: "trajectory list"
  trajectory_versions :: "int list"
  target_weight_versions :: "int list"
  last_target :: int

definition replay_init :: "int \<Rightarrow> bool \<Rightarrow> replay_buffer res" where
  "replay_init mx drp =
     (if mx \<le> 0 then Inl ValueError
      else Inr \<lparr>max_size = mx, drop_incomplete = drp, trajectories = [], trajectory_versions = [],
                target_weight_versions = [], last_target = -1\<rparr>)"

datatype add_result = Full | Success

definition add :: "replay_buffer \<Rightarrow> trajectory \<Rightarrow> int \<Rightarrow> int \<Rightarrow> replay_buffer \<times> add_result" where
  "add b t version target =
     (if int (length (trajectories b)) \<ge> max_size b then (b, Full)
      else (b\<lparr>trajectories := trajectories b @ [t],
              trajectory_versions := trajectory_versions b @ [version],
              target_weight_versions := target_weight_versions b @ [target]\<rparr>, Success))"

definition get_existing_target_weights :: "replay_buffer \<Rightarrow> int set" where
  "get_existing_target_weights b = set (target_weight_versions b)"

definition buffer_size :: "replay_buffer \<Rightarrow> nat" where
  "buffer_size b = length (trajectories b)"

definition clear_buffer :: "replay_buffer \<Rightarrow> replay_buffer" where
  "clear_buffer b = b\<lparr>trajectories := [], trajectory_versions := [], target_weight_versions := []\<rparr>"

text \<open>Rows kept by index, as in the list comprehensions over \<open>indices_to_keep\<close>.\<close>

definition keep_rows :: "replay_buffer \<Rightarrow> nat list \<Rightarrow> replay_buffer" where
  "keep_rows b ixs = b\<lparr>trajectories := pick (trajectories b) ixs,
     trajectory_versions := pick (trajectory_versions b) ixs,
     target_weight_versions := pick (target_weight_versions b) ixs\<rparr>"

definition remove_indices :: "replay_buffer \<Rightarrow> nat list \<Rightarrow> replay_buffer" where
  "remove_indices b ixs = b\<lparr>trajectories := pop_all ixs (trajectories b),
     trajectory_versions := pop_all ixs (trajectory_versions b),
     target_weight_versions := pop_all ixs (target_weight_versions b)\<rparr>"

section \<open>Sampling\<close>

text \<open>Indices of the versions at least \<open>lo\<close>, at most \<open>hi\<close> and meant for step \<open>hi\<close>.\<close>

definition sample ::
  "replay_buffer \<Rightarrow> nat \<Rightarrow> int \<Rightarrow> int \<Rightarrow> replay_buffer \<times> (trajectory list \<times> rat) option res" where
  "sample b num current max_age =
     (if trajectories b = [] then (b, Inr None)
      else
        (let lo = max 0 (current - max_age);
             old = ix_filter (\<lambda>v. v < lo) (trajectory_versions b);
             b1 = (if old \<noteq> [] then remove_indices b old else b);
             valid = ix_filter (\<lambda>v. lo \<le> v \<and> v \<le> current) (trajectory_versions b1)
         in if valid = [] then (b1, Inr None)
            else if length valid < num then (b1, Inr None)
            else
              (let intended = filter (\<lambda>i. target_weight_versions b1 ! i = current) valid
               in if length intended < num then (b1, Inr None)
                  else
                    (let selected = take num intended;
                         weights = pick (trajectory_versions b1) selected
                     in if weights = [] then (b1, Inl ZeroDivisionError)
                        else
                          ((remove_indices b1 selected)\<lparr>last_target := max (last_target b1) current\<rparr>,
                           Inr (Some (pick (trajectories b1) selected,
                             of_int current - of_int (sum_list weights) / of_nat (length weights)))))))) "

definition get_held_task_indices :: "replay_buffer \<Rightarrow> int list" where
  "get_held_task_indices b = sort (List.map_filter task_index (trajectories b))"

section \<open>Checkpointing\<close>

text \<open>The saved dictionary, with \<open>None\<close> for a missing key.\<close>

record saved_buffer =
  s_trajectories :: "trajectory list option"
  s_versions :: "int list option"
  s_targets :: "int list option"
  s_last_target :: "int option"
  s_max_size :: "int option"

definition state_dict :: "replay_buffer \<Rightarrow> saved_buffer" where
  "state_dict b = \<lparr>s_trajectories = Some (trajectories b), s_versions = Some (trajectory_versions b),
     s_targets = Some (target_weight_versions b), s_last_target = Some (last_target b),
     s_max_size = Some (max_size b)\<rparr>"

definition is_valid_for_target :: "int \<Rightarrow> int \<Rightarrow> int option \<Rightarrow> bool" where
  "is_valid_for_target version target max_age =
     (case max_age of None \<Rightarrow> True
      | Some a \<Rightarrow> max 0 (target - a) \<le> version \<and> version \<le> target)"

definition remove_stale_trajectories :: "int \<Rightarrow> replay_buffer \<Rightarrow> replay_buffer" where
  "remove_stale_trajectories max_age b =
     (let ixs = ix_filter (\<lambda>(v, t). \<not> is_valid_for_target v t (Some max_age))
                  (zip (trajectory_versions b) (target_weight_versions b))
      in if ixs = [] then b else remove_indices b ixs)"

text \<open>Targets present with fewer than \<open>n\<close> rows (\<open>Counter\<close> of the target versions).\<close>

definition incomplete_targets :: "int \<Rightarrow> replay_buffer \<Rightarrow> int set" where
  "incomplete_targets n b =
     set (filter (\<lambda>t. int (count_list (target_weight_versions b) t) < n) (target_weight_versions b))"

definition drop_targets :: "int set \<Rightarrow> replay_buffer \<Rightarrow> replay_buffer" where
  "drop_targets ts b = keep_rows b (ix_filter (\<lambda>t. t \<notin> ts) (target_weight_versions b))"

definition prepare_for_training_step :: "int \<Rightarrow> int \<Rightarrow> replay_buffer \<Rightarrow> replay_buffer" where
  "prepare_for_training_step current n b =
     (let keep = ix_filter (\<lambda>t. t \<ge> current) (target_weight_versions b);
          b1 = (if length keep < length (trajectories b) then keep_rows b keep else b)
      in if trajectories b1 = [] then b1\<lparr>last_target := current - 1\<rparr>
         else
           (let bad = incomplete_targets n b1;
                b2 = (if bad \<noteq> {} \<and> drop_incomplete b1 then drop_targets bad b1 else b1)
            in b2\<lparr>last_target := current - 1\<rparr>))"

definition remove_incomplete_target_steps :: "int \<Rightarrow> replay_buffer \<Rightarrow> replay_buffer" where
  "remove_incomplete_target_steps n b =
     (let bad = incomplete_targets n b
      in if bad = {} then b
         else
           (let b1 = drop_targets bad b
            in if target_weight_versions b1 \<noteq> []
               then b1\<lparr>last_target := min (last_target b1) (Min (set (target_weight_versions b1)) - 1)\<rparr>
               else b1\<lparr>last_target := -1\<rparr>))"

definition truncate_to_max_size :: "int option \<Rightarrow> replay_buffer \<Rightarrow> replay_buffer" where
  "truncate_to_max_size step b =
     (let n = length (trajectories b); mx = nat (max_size b)
      in if int n \<le> max_size b then b
         else keep_rows b
           (case step of
              None \<Rightarrow> [n - mx..<n]
            | Some _ \<Rightarrow> sort (take mx (sort_key (\<lambda>i. (target_weight_versions b ! i, i)) [0..<n]))))"

definition restore_fields :: "replay_buffer \<Rightarrow> saved_buffer \<Rightarrow> replay_buffer res" where
  "restore_fields b s =
     (case (s_trajectories s, s_versions s, s_targets s, s_last_target s) of
        (Some ts, Some vs, Some gs, Some l) \<Rightarrow>
          (if length ts = length vs \<and> length vs = length gs
           then Inr (b\<lparr>trajectories := ts, trajectory_versions := vs, target_weight_versions := gs, last_target := l\<rparr>)
           else Inl ValueError)
      | _ \<Rightarrow> Inl ValueError)"

definition load_state_dict ::
  "replay_buffer \<Rightarrow> saved_buffer \<Rightarrow> int option \<Rightarrow> int option \<Rightarrow> int option \<Rightarrow> replay_buffer res" where
  "load_state_dict b s prompts step max_age =
     bindR (restore_fields b s) (\<lambda>b1.
       let b2 = (case max_age of
                   Some a \<Rightarrow> if trajectories b1 \<noteq> [] then remove_stale_trajectories a b1 else b1
                 | None \<Rightarrow> b1);
           b3 = (case (step, prompts) of
                   (Some c, Some n) \<Rightarrow> prepare_for_training_step c n b2
                 | (None, Some n) \<Rightarrow> if trajectories b2 \<noteq> [] then remove_incomplete_target_steps n b2 else b2
                 | (_, None) \<Rightarrow> b2)
       in Inr (truncate_to_max_size step b3))"

record load_report =
  num_trajectories :: nat
  next_task_index :: int
  retained_task_indices :: "int list"

definition load_from_path ::
  "replay_buffer \<Rightarrow> saved_buffer \<Rightarrow> int option \<Rightarrow> int option \<Rightarrow> int option \<Rightarrow> (replay_buffer \<times> load_report) res" where
  "load_from_path b s prompts step max_age =
     (case s_trajectories s of
        None \<Rightarrow> Inl KeyError
      | Some ts \<Rightarrow>
          (let saved = List.map_filter task_index ts;
               nxt = (if saved = [] then -1 else Max (set saved)) + 1
           in bindR (load_state_dict b s prompts step max_age) (\<lambda>b'.
                Inr (b', \<lparr>num_trajectories = length ts, next_task_index = nxt,
                          retained_task_indices = get_held_task_indices b'\<rparr>))))"

section \<open>Counting for a target\<close>

definition count_for_target :: "replay_buffer \<Rightarrow> int \<Rightarrow> int option \<Rightarrow> nat" where
  "count_for_target b target max_age =
     length (filter (\<lambda>(v, t). t = target \<and> is_valid_for_target v target max_age)
       (zip (trajectory_versions b) (target_weight_versions b)))"

definition get_trajectories_needed :: "replay_buffer \<Rightarrow> int \<Rightarrow> int \<Rightarrow> int option \<Rightarrow> int" where
  "get_trajectories_needed b target n max_age = max 0 (n - int (count_for_target b target max_age))"

definition has_complete_batch :: "replay_buffer \<Rightarrow> int \<Rightarrow> int \<Rightarrow> int option \<Rightarrow> bool" where
  "has_complete_batch b target n max_age \<longleftrightarrow> int (count_for_target b target max_age) \<ge> n"


section \<open>The buffer as a list of rows\<close>

text \<open>The three lists read as one list of rows (trajectory, version, target).\<close>

type_synonym row = "trajectory \<times> int \<times> int"

definition rows :: "replay_buffer \<Rightarrow> row list" where
  "rows b = zip (trajectories b) (zip (trajectory_versions b) (target_weight_versions b))"

abbreviation row_version :: "row \<Rightarrow> int" where "row_version r \<equiv> fst (snd r)"
abbreviation row_target :: "row \<Rightarrow> int" where "row_target r \<equiv> snd (snd r)"

definition parallel :: "replay_buffer \<Rightarrow> bool" where
  "parallel b \<longleftrightarrow> length (trajectories b) = length (trajectory_versions b)
     \<and> length (trajectory_versions b) = length (target_weight_versions b)"

definition buffer_ok :: "replay_buffer \<Rightarrow> bool" where
  "buffer_ok b \<longleftrightarrow> parallel b \<and> 0 < max_size b \<and> int (length (trajectories b)) \<le> max_size b"

named_theorems row_view "an operation on the three lists as an operation on the rows"

lemma length_rows [row_view]: "parallel b \<Longrightarrow> length (rows b) = length (trajectories b)"
  by (simp add: rows_def parallel_def)

lemma columns_of_rows:
  assumes "parallel b"
  shows "trajectories b = map fst (rows b)" "trajectory_versions b = map row_version (rows b)"
    "target_weight_versions b = map row_target (rows b)"
  using assms by (auto simp: rows_def parallel_def zip_map_fst_snd intro!: nth_equalityI)

lemma ix_filter_map: "ix_filter P (map f xs) = ix_filter (\<lambda>x. P (f x)) xs"
  by (auto simp: ix_filter_def intro: filter_cong)

lemma rows_keep:
  assumes "parallel b" and "\<forall>i\<in>set ixs. i < length (trajectories b)"
  shows "rows (keep_rows b ixs) = pick (rows b) ixs" "parallel (keep_rows b ixs)"
  using assms by (auto simp: rows_def keep_rows_def parallel_def pick_zip)

lemma remove_as_keep:
  assumes "parallel b" and "distinct ixs" and "\<forall>i\<in>set ixs. i < length (trajectories b)"
  shows "remove_indices b ixs = keep_rows b (others ixs (length (trajectories b)))"
  using assms by (simp add: remove_indices_def keep_rows_def parallel_def pop_all_pick)

lemma rows_remove:
  assumes "parallel b" and "distinct ixs" and "\<forall>i\<in>set ixs. i < length (trajectories b)"
  shows "rows (remove_indices b ixs) = pick (rows b) (others ixs (length (rows b)))"
    "parallel (remove_indices b ixs)"
  using assms by (simp_all add: remove_as_keep rows_keep length_rows)

lemma keep_rows_fields [simp]:
  "max_size (keep_rows b ixs) = max_size b" "drop_incomplete (keep_rows b ixs) = drop_incomplete b"
  "last_target (keep_rows b ixs) = last_target b"
  by (simp_all add: keep_rows_def)

lemma remove_fields [simp]:
  "max_size (remove_indices b ixs) = max_size b" "drop_incomplete (remove_indices b ixs) = drop_incomplete b"
  "last_target (remove_indices b ixs) = last_target b"
  by (simp_all add: remove_indices_def)

lemma last_target_irrelevant [simp]:
  "rows (b\<lparr>last_target := x\<rparr>) = rows b" "parallel (b\<lparr>last_target := x\<rparr>) = parallel b"
  by (simp_all add: rows_def parallel_def)

text \<open>Dropping the first rows that satisfy a condition.\<close>

fun drop_first :: "nat \<Rightarrow> ('a \<Rightarrow> bool) \<Rightarrow> 'a list \<Rightarrow> 'a list" where
  "drop_first n P [] = []"
| "drop_first n P (x # xs) =
     (if P x \<and> 0 < n then drop_first (n - 1) P xs else x # drop_first n P xs)"

lemma drop_first_0 [simp]: "drop_first 0 P xs = xs"
  by (induction xs) auto

lemma mset_drop_first: "mset (take n (filter P xs)) + mset (drop_first n P xs) = mset xs"
proof (induction xs arbitrary: n)
  case (Cons x xs)
  then show ?case by (cases n) auto
qed simp

lemma drop_first_order: "\<exists>ixs. sorted_wrt (<) ixs \<and> (\<forall>i\<in>set ixs. i < length xs) \<and> drop_first n P xs = pick xs ixs"
proof (induction xs arbitrary: n)
  case (Cons x xs)
  let ?n = "if P x \<and> 0 < n then n - 1 else n"
  obtain ixs where i: "sorted_wrt (<) ixs" "\<forall>i\<in>set ixs. i < length xs" "drop_first ?n P xs = pick xs ixs"
    using Cons by metis
  show ?case
  proof (cases "P x \<and> 0 < n")
    case True
    with i show ?thesis
      by (intro exI[of _ "map Suc ixs"]) (auto simp: pick_def sorted_wrt_map)
  next
    case False
    with i show ?thesis
      by (intro exI[of _ "0 # map Suc ixs"]) (auto simp: pick_def sorted_wrt_map)
  qed
qed (auto intro: exI[of _ "[]"])

lemma ix_filter_Cons: "ix_filter P (x # xs) = (if P x then [0] else []) @ map Suc (ix_filter P xs)"
proof -
  have "[0..<length (x # xs)] = 0 # map Suc [0..<length xs]"
    by (simp add: map_Suc_upt upt_conv_Cons del: upt_Suc)
  then show ?thesis by (simp add: ix_filter_def filter_map o_def)
qed

lemma others_Suc:
  "others (map Suc js) (Suc n) = 0 # map Suc (others js n)"
  "others (0 # map Suc js) (Suc n) = map Suc (others js n)"
proof -
  have "[0..<Suc n] = 0 # map Suc [0..<n]"
    by (simp add: map_Suc_upt upt_conv_Cons del: upt_Suc)
  then show "others (map Suc js) (Suc n) = 0 # map Suc (others js n)"
    "others (0 # map Suc js) (Suc n) = map Suc (others js n)"
    by (auto simp: others_def filter_map o_def intro: filter_cong)
qed

lemma pick_map_Suc [simp]: "pick (x # xs) (map Suc js) = pick xs js"
  by (simp add: pick_def)

lemma pick_take: "pick xs (take n ixs) = take n (pick xs ixs)"
  by (simp add: pick_def take_map)

lemma pick_drop_first:
  "pick xs (others (take n (ix_filter P xs)) (length xs)) = drop_first n P xs"
proof (induction xs arbitrary: n)
  case (Cons x xs)
  show ?case
  proof (cases "P x \<and> 0 < n")
    case True
    then obtain m where "n = Suc m" by (cases n) auto
    with True Cons[of m] show ?thesis by (simp add: ix_filter_Cons take_map others_Suc)
  next
    case False
    then have "take n (ix_filter P (x # xs)) = map Suc (take n (ix_filter P xs))"
      by (cases n) (auto simp: ix_filter_Cons take_map)
    with False Cons[of n] show ?thesis by (auto simp: others_Suc)
  qed
qed (simp add: ix_filter_def others_def)


section \<open>What sampling promises\<close>

text \<open>
  The specification of \<open>sample\<close> on rows: rows older than the window are evicted; if enough of the
  others are meant for the current step and not from the future, the first ones are handed out.
\<close>

definition in_window :: "int \<Rightarrow> int \<Rightarrow> row \<Rightarrow> bool" where
  "in_window current max_age r \<longleftrightarrow> max 0 (current - max_age) \<le> row_version r"

definition usable :: "int \<Rightarrow> row \<Rightarrow> bool" where
  "usable current r \<longleftrightarrow> row_version r \<le> current \<and> row_target r = current"

definition sample_rows :: "nat \<Rightarrow> int \<Rightarrow> int \<Rightarrow> row list \<Rightarrow> row list \<times> row list option" where
  "sample_rows num current max_age rs =
     (let live = filter (in_window current max_age) rs in
      if length (filter (usable current) live) < num then (live, None)
      else (drop_first num (usable current) live, Some (take num (filter (usable current) live))))"

lemma sample_evicts:
  fixes current max_age :: int
  assumes "parallel b"
  defines "old \<equiv> ix_filter (\<lambda>v. v < max 0 (current - max_age)) (trajectory_versions b)"
  defines "b1 \<equiv> if old \<noteq> [] then remove_indices b old else b"
  shows "rows b1 = filter (in_window current max_age) (rows b)" "parallel b1"
    "max_size b1 = max_size b" "last_target b1 = last_target b"
proof -
  have old: "old = ix_filter (\<lambda>r. \<not> in_window current max_age r) (rows b)"
    unfolding old_def columns_of_rows(2)[OF assms(1)] ix_filter_map in_window_def
    by (simp only: not_le)
  have len: "length (rows b) = length (trajectories b)"
    by (rule length_rows[OF assms(1)])
  have rm: "rows (remove_indices b old) = filter (in_window current max_age) (rows b)"
    "parallel (remove_indices b old)"
    using rows_remove[OF assms(1), of old] pick_others_filter[of "rows b" "\<lambda>r. \<not> in_window current max_age r"]
    by (simp_all add: old len)
  have "rows b = filter (in_window current max_age) (rows b)" if "old = []"
  proof -
    have "filter (\<lambda>r. \<not> in_window current max_age r) (rows b) = []"
      using that length_ix_filter[of "\<lambda>r. \<not> in_window current max_age r" "rows b"] by (simp add: old)
    then show ?thesis by (simp add: filter_empty_conv)
  qed
  with rm assms(1) show "rows b1 = filter (in_window current max_age) (rows b)" "parallel b1"
    by (auto simp: b1_def)
  show "max_size b1 = max_size b" "last_target b1 = last_target b"
    by (simp_all add: b1_def)
qed

lemma intended_as_rows:
  assumes "parallel b" and "\<forall>r\<in>set (rows b). in_window current max_age r"
  shows "filter (\<lambda>i. target_weight_versions b ! i = current)
      (ix_filter (\<lambda>v. max 0 (current - max_age) \<le> v \<and> v \<le> current) (trajectory_versions b))
    = ix_filter (usable current) (rows b)"
proof -
  have c: "trajectory_versions b = map row_version (rows b)" "target_weight_versions b = map row_target (rows b)"
    using columns_of_rows[OF assms(1)] by blast+
  show ?thesis
    unfolding c ix_filter_map
    using assms(2) by (auto simp: ix_filter_def usable_def in_window_def intro!: filter_cong)
qed

lemma sample_refines_rows:
  assumes b: "parallel b" and num: "0 < num" and s: "sample b num current max_age = (b', out)"
  shows "parallel b' \<and> max_size b' = max_size b
    \<and> (\<exists>r. out = Inr r \<and> sample_rows num current max_age (rows b) = (rows b', map_option (\<lambda>_. take num
            (filter (usable current) (filter (in_window current max_age) (rows b)))) r)
         \<and> (case r of None \<Rightarrow> last_target b' = last_target b
            | Some (ts, avg) \<Rightarrow> last_target b' = max (last_target b) current
                \<and> ts = map fst (take num (filter (usable current) (filter (in_window current max_age) (rows b))))
                \<and> avg = of_int current - of_int (sum_list (map row_version
                    (take num (filter (usable current) (filter (in_window current max_age) (rows b)))))) / of_nat num))"
proof (cases "trajectories b = []")
  case True
  with b have "rows b = []" by (simp add: rows_def)
  with True s num b show ?thesis by (auto simp: sample_def sample_rows_def)
next
  case False
  let ?lo = "max 0 (current - max_age)"
  let ?w = "in_window current max_age"
  define old where "old = ix_filter (\<lambda>v. v < ?lo) (trajectory_versions b)"
  define b1 where "b1 = (if old \<noteq> [] then remove_indices b old else b)"
  define valid where "valid = ix_filter (\<lambda>v. ?lo \<le> v \<and> v \<le> current) (trajectory_versions b1)"
  define intended where "intended = filter (\<lambda>i. target_weight_versions b1 ! i = current) valid"
  note ev = sample_evicts[OF b, of current max_age, folded old_def, folded b1_def]
  have ints: "intended = ix_filter (usable current) (rows b1)"
    unfolding intended_def valid_def by (rule intended_as_rows) (auto simp: ev)
  have lints: "length intended = length (filter (usable current) (filter ?w (rows b)))"
    by (simp add: ints length_ix_filter ev)
  have sub: "length intended \<le> length valid"
    by (simp add: intended_def)
  show ?thesis
  proof (cases "length intended < num")
    case True
    with False s sub num have "b' = b1 \<and> out = Inr None"
      by (auto simp: sample_def Let_def old_def b1_def valid_def intended_def split: if_splits)
    with True lints ev b show ?thesis by (simp add: sample_rows_def)
  next
    case enough: False
    let ?sel = "take num intended"
    have ne: "valid \<noteq> []" "\<not> length valid < num" "?sel \<noteq> []"
      using enough num sub by auto
    have rs: "sample b num current max_age =
        ((remove_indices b1 ?sel)\<lparr>last_target := max (last_target b1) current\<rparr>,
         Inr (Some (pick (trajectories b1) ?sel, of_int current -
           of_int (sum_list (pick (trajectory_versions b1) ?sel)) / of_nat (length (pick (trajectory_versions b1) ?sel)))))"
      unfolding sample_def Let_def old_def[symmetric] b1_def[symmetric] valid_def[symmetric] intended_def[symmetric]
      using False ne enough by (simp del: take_eq_Nil)
    have p1: "parallel b1" by (rule ev(2))
    have bnd: "\<forall>i\<in>set ?sel. i < length (rows b1)"
      unfolding ints by (auto dest: in_set_takeD)
    have dis: "distinct ?sel" by (simp add: ints)
    have picked: "pick (rows b1) ?sel = take num (filter (usable current) (filter ?w (rows b)))"
      by (simp only: ints pick_take pick_ix_filter ev(1))
    have cols: "pick (trajectories b1) ?sel = map fst (pick (rows b1) ?sel)"
      "pick (trajectory_versions b1) ?sel = map row_version (pick (rows b1) ?sel)"
      unfolding columns_of_rows(1,2)[OF p1] by (simp_all add: pick_map bnd)
    have rem: "rows (remove_indices b1 ?sel) = drop_first num (usable current) (filter ?w (rows b))"
      "parallel (remove_indices b1 ?sel)"
      using rows_remove[OF p1 dis] bnd length_rows[OF p1] pick_drop_first[of "rows b1" num "usable current"]
      by (simp_all add: ints ev)
    have len: "length (pick (rows b1) ?sel) = num"
      using enough by simp
    have res: "b' = (remove_indices b1 ?sel)\<lparr>last_target := max (last_target b) current\<rparr>"
      "out = Inr (Some (map fst (take num (filter (usable current) (filter ?w (rows b)))),
         of_int current - of_int (sum_list (map row_version (take num (filter (usable current) (filter ?w (rows b)))))) / of_nat num))"
      using s rs[unfolded cols picked] len[unfolded picked] ev(4) by simp_all
    have spec: "sample_rows num current max_age (rows b) =
        (drop_first num (usable current) (filter ?w (rows b)), Some (take num (filter (usable current) (filter ?w (rows b)))))"
      using enough lints by (simp add: sample_rows_def)
    show ?thesis
      unfolding res spec by (simp add: rem ev)
  qed
qed


lemma length_drop_first: "length (drop_first n P xs) \<le> length xs"
  using mset_drop_first[of n P xs] by (metis le_add2 mset_append size_mset length_append size_union)

lemma sample_rows_shrinks: "length (fst (sample_rows num current max_age rs)) \<le> length rs"
proof -
  have "length (drop_first num (usable current) (filter (in_window current max_age) rs)) \<le> length rs"
    using length_drop_first[of num "usable current" "filter (in_window current max_age) rs"]
      length_filter_le[of "in_window current max_age" rs] by linarith
  then show ?thesis by (simp add: sample_rows_def Let_def)
qed

lemma buffer_ok_shrink:
  assumes "buffer_ok b" and "parallel b'" and "max_size b' = max_size b" and "length (rows b') \<le> length (rows b)"
  shows "buffer_ok b'"
  using assms by (auto simp: buffer_ok_def length_rows)

definition mean_age :: "int \<Rightarrow> row list \<Rightarrow> rat" where
  "mean_age current rs = of_int current - of_int (sum_list (map row_version rs)) / of_nat (length rs)"

definition demo_buffer :: replay_buffer where
  "demo_buffer = \<lparr>max_size = 6, drop_incomplete = True,
     trajectories = [\<lparr>task_index = Some 4, payload = 0\<rparr>, \<lparr>task_index = None, payload = 1\<rparr>,
       \<lparr>task_index = Some 5, payload = 2\<rparr>, \<lparr>task_index = Some 6, payload = 3\<rparr>],
     trajectory_versions = [0, 2, 3, 3], target_weight_versions = [1, 3, 4, 3], last_target = 2\<rparr>"

text \<open>
  C35: \<open>sample\<close> implements its specification on rows: it only evicts rows older than the window,
  and when enough rows are meant for the current step it hands out exactly the first of them,
  with their mean age, removes nothing else and records the step as consumed; otherwise it hands
  out nothing.  The buffer invariant is kept and no exception is raised.
\<close>

theorem sample_implements_spec:
  assumes "buffer_ok b" and "0 < num" and "sample b num current max_age = (b', out)"
  shows "buffer_ok b' \<and>
    (case sample_rows num current max_age (rows b) of
       (left, None) \<Rightarrow> rows b' = left \<and> out = Inr None \<and> last_target b' = last_target b
     | (left, Some taken) \<Rightarrow> rows b' = left \<and> length taken = num
          \<and> out = Inr (Some (map fst taken, mean_age current taken))
          \<and> last_target b' = max (last_target b) current)"
proof -
  let ?t = "take num (filter (usable current) (filter (in_window current max_age) (rows b)))"
  have p: "parallel b" using assms(1) by (simp add: buffer_ok_def)
  note r = sample_refines_rows[OF p assms(2,3)]
  then obtain o' where o: "out = Inr o'" "sample_rows num current max_age (rows b) = (rows b', map_option (\<lambda>_. ?t) o')"
    by blast
  have "length (rows b') \<le> length (rows b)"
    using sample_rows_shrinks[of num current max_age "rows b"] o by simp
  then have ok: "buffer_ok b'" using buffer_ok_shrink assms(1) r by blast
  show ?thesis
  proof (cases o')
    case None
    with r o ok show ?thesis by simp
  next
    case (Some a)
    have "length ?t = num"
      using o Some by (auto simp: sample_rows_def Let_def split: if_splits)
    with r o ok Some show ?thesis by (auto simp: mean_age_def)
  qed
qed

theorem sample_implements_spec_witness:
  "\<exists>b' out. sample demo_buffer 2 3 1 = (b', out) \<and> buffer_ok b'
     \<and> rows b' = [(\<lparr>task_index = Some 5, payload = 2\<rparr>, 3, 4)] \<and> last_target b' = 3"
proof -
  obtain b' out where s: "sample demo_buffer 2 3 1 = (b', out)" by fastforce
  have ok: "buffer_ok demo_buffer" by code_simp
  have "sample_rows 2 3 1 (rows demo_buffer) =
      ([(\<lparr>task_index = Some 5, payload = 2\<rparr>, 3, 4)],
       Some [(\<lparr>task_index = None, payload = 1\<rparr>, 2, 3), (\<lparr>task_index = Some 6, payload = 3\<rparr>, 3, 3)])"
    by code_simp
  moreover have "last_target demo_buffer = 2" by code_simp
  ultimately show ?thesis
    using sample_implements_spec[OF ok _ s] s by auto
qed

text \<open>
  C5: What \<open>sample\<close> hands out is trainable at this step: exactly the requested number of groups,
  all meant for the current step, generated by weights no older than the window and never newer
  than the trainer, so that their mean age is between 0 and the maximum age; a row is either
  handed out, or still in the buffer, or was outside the window.
\<close>

theorem sample_only_fresh:
  assumes "buffer_ok b" and "0 < num" and "sample b num current max_age = (b', Inr (Some (ts, age)))"
  shows "\<exists>taken. ts = map fst taken \<and> length taken = num
    \<and> list_all (\<lambda>r. row_target r = current \<and> max 0 (current - max_age) \<le> row_version r \<and> row_version r \<le> current) taken
    \<and> 0 \<le> age \<and> age \<le> of_int max_age
    \<and> mset (rows b') + mset taken + mset (filter (\<lambda>r. row_version r < max 0 (current - max_age)) (rows b)) = mset (rows b)"
proof -
  let ?live = "filter (in_window current max_age) (rows b)"
  define taken where "taken = take num (filter (usable current) ?live)"
  have sr: "sample_rows num current max_age (rows b) = (drop_first num (usable current) ?live, Some taken)"
    "length taken = num" "rows b' = drop_first num (usable current) ?live"
    "ts = map fst taken" "age = mean_age current taken"
    using sample_implements_spec[OF assms]
    by (auto simp: sample_rows_def Let_def taken_def split: if_splits)
  have mem: "row_target r = current \<and> max 0 (current - max_age) \<le> row_version r \<and> row_version r \<le> current"
    if "r \<in> set taken" for r
    using that by (auto simp: taken_def usable_def in_window_def dest!: in_set_takeD)
  have acc: "mset (rows b') + mset taken = mset ?live"
    using mset_drop_first[of num "usable current" ?live] sr by (simp add: taken_def add.commute)
  have "(\<lambda>r :: row. row_version r < max 0 (current - max_age)) = (\<lambda>r. \<not> in_window current max_age r)"
    by (simp only: in_window_def not_le)
  with acc have part: "mset (rows b') + mset taken
      + mset (filter (\<lambda>r. row_version r < max 0 (current - max_age)) (rows b)) = mset (rows b)"
    by (simp only: mset_filter_compl)
  have up: "sum_list (map row_version taken) \<le> int num * current"
    using sum_list_mono[of taken row_version "\<lambda>_. current"] mem sr(2) by (simp add: sum_list_triv)
  have lo: "int num * (current - max_age) \<le> sum_list (map row_version taken)"
    using sum_list_mono[of taken "\<lambda>_. current - max_age" row_version] mem sr(2) by (auto simp: sum_list_triv)
  have "(of_int (sum_list (map row_version taken)) :: rat) \<le> of_nat num * of_int current"
    using up of_int_le_iff[where 'a = rat] by (metis of_int_mult of_int_of_nat_eq)
  then have "0 \<le> age"
    unfolding sr(5) mean_age_def sr(2) using assms(2) by (simp add: field_simps)
  moreover have "(of_nat num * (of_int current - of_int max_age) :: rat) \<le> of_int (sum_list (map row_version taken))"
    using lo of_int_le_iff[where 'a = rat] by (metis of_int_diff of_int_mult of_int_of_nat_eq)
  then have "age \<le> of_int max_age"
    unfolding sr(5) mean_age_def sr(2) using assms(2) by (simp add: field_simps)
  moreover have "list_all (\<lambda>r. row_target r = current \<and> max 0 (current - max_age) \<le> row_version r
      \<and> row_version r \<le> current) taken"
    using mem by (simp add: list_all_iff)
  ultimately show ?thesis
    using sr(2,4) part by blast
qed

theorem sample_only_fresh_witness:
  "\<exists>b' ts age. sample demo_buffer 2 3 1 = (b', Inr (Some (ts, age))) \<and> 0 \<le> age \<and> age \<le> 1"
proof -
  have ok: "buffer_ok demo_buffer" by code_simp
  have "case snd (sample demo_buffer 2 3 1) of Inr (Some _) \<Rightarrow> True | _ \<Rightarrow> False" by code_simp
  then obtain b' ts age where s: "sample demo_buffer 2 3 1 = (b', Inr (Some (ts, age)))"
    by (cases "sample demo_buffer 2 3 1") (auto split: sum.splits option.splits)
  then show ?thesis using sample_only_fresh[OF ok _ s] by auto
qed


section \<open>Completeness of a target\<close>

lemma count_rows:
  "parallel b \<Longrightarrow> count_for_target b target max_age =
     length (filter (\<lambda>r. row_target r = target \<and> is_valid_for_target (row_version r) target max_age) (rows b))"
proof -
  assume p: "parallel b"
  have "zip (trajectory_versions b) (target_weight_versions b) = map snd (rows b)"
    using p by (simp add: rows_def parallel_def)
  then show ?thesis
    by (simp add: count_for_target_def filter_map o_def case_prod_unfold)
qed

lemma add_rows:
  assumes "buffer_ok b" and "add b t v g = (b', res)"
  shows "buffer_ok b'" "rows b' = rows b @ (if res = Success then [(t, v, g)] else [])"
    "res = Success \<longleftrightarrow> int (length (rows b)) < max_size b" "max_size b' = max_size b" "last_target b' = last_target b"
  using assms by (auto simp: add_def buffer_ok_def parallel_def rows_def split: if_splits)

text \<open>The collector adding one group after the other for a target.\<close>

fun add_all :: "int \<Rightarrow> (trajectory \<times> int) list \<Rightarrow> replay_buffer \<Rightarrow> replay_buffer" where
  "add_all g [] b = b"
| "add_all g ((t, v) # ts) b = add_all g ts (fst (add b t v g))"

lemma add_all_rows:
  "buffer_ok b \<Longrightarrow> int (length (rows b) + length ts) \<le> max_size b \<Longrightarrow>
     buffer_ok (add_all g ts b) \<and> rows (add_all g ts b) = rows b @ map (\<lambda>(t, v). (t, v, g)) ts"
proof (induction ts arbitrary: b)
  case (Cons tv ts)
  obtain t v where tv: "tv = (t, v)" by (cases tv)
  obtain b' res where a: "add b t v g = (b', res)" by fastforce
  note r = add_rows[OF Cons.prems(1) a]
  have res: "res = Success" using r(3) Cons.prems(2) by simp
  have "buffer_ok (add_all g ts b') \<and> rows (add_all g ts b') = rows b' @ map (\<lambda>(t, v). (t, v, g)) ts"
    using Cons.IH[of b'] r res Cons.prems(2) by simp
  with a r res show ?case by (simp add: tv)
qed simp

lemma usable_iff_valid:
  "(in_window g a r \<and> usable g r) \<longleftrightarrow> (row_target r = g \<and> is_valid_for_target (row_version r) g (Some a))"
  by (auto simp: in_window_def usable_def is_valid_for_target_def)

lemma sample_success_count:
  assumes "buffer_ok b" and "0 < num"
  shows "(\<exists>b' r. sample b num current max_age = (b', Inr (Some r))) \<longleftrightarrow> num \<le> count_for_target b current (Some max_age)"
proof -
  obtain b' out where s: "sample b num current max_age = (b', out)" by fastforce
  have p: "parallel b" using assms by (simp add: buffer_ok_def)
  have c: "length (filter (usable current) (filter (in_window current max_age) (rows b))) = count_for_target b current (Some max_age)"
    by (simp add: count_rows[OF p] usable_iff_valid)
  show ?thesis
    using sample_implements_spec[OF assms s] s c
    by (auto simp: sample_rows_def Let_def simp del: filter_filter split: if_splits)
qed

text \<open>
  The collector and the trainer agree on when a step is ready: \<open>sample\<close> hands out a batch
  exactly when \<open>has_complete_batch\<close> holds for that step under the same age window, that is, when
  \<open>get_trajectories_needed\<close> is 0.
\<close>

theorem sample_ready_iff_complete:
  assumes "buffer_ok b" and "0 < num"
  shows "((\<exists>b' r. sample b num current max_age = (b', Inr (Some r)))
            = has_complete_batch b current (int num) (Some max_age))
       \<and> (has_complete_batch b current (int num) (Some max_age)
            = (get_trajectories_needed b current (int num) (Some max_age) = 0))"
  unfolding sample_success_count[OF assms]
  by (auto simp: has_complete_batch_def get_trajectories_needed_def)

theorem sample_ready_iff_complete_witness:
  "(\<exists>b' r. sample demo_buffer 2 3 1 = (b', Inr (Some r))) \<and> get_trajectories_needed demo_buffer 3 2 (Some 1) = 0
     \<and> \<not> (\<exists>b' r. sample demo_buffer 2 4 1 = (b', Inr (Some r))) \<and> get_trajectories_needed demo_buffer 4 2 (Some 1) = 1"
proof -
  have ok: "buffer_ok demo_buffer" by code_simp
  have "get_trajectories_needed demo_buffer 3 2 (Some 1) = 0" "get_trajectories_needed demo_buffer 4 2 (Some 1) = 1"
    by code_simp+
  then show ?thesis
    using sample_ready_iff_complete[OF ok, of 2 3 1] sample_ready_iff_complete[OF ok, of 2 4 1] by simp
qed

text \<open>
  Filling the gap: adding the number of groups \<open>get_trajectories_needed\<close> asks for, each with a
  version valid for the target, to a buffer with room for them makes the next \<open>sample\<close> of that
  target succeed.
\<close>

theorem gap_fill_completes:
  assumes "buffer_ok b" and "0 < num"
    and "int (length ts) = get_trajectories_needed b g (int num) (Some a)"
    and "list_all (\<lambda>(t, v). is_valid_for_target v g (Some a)) ts"
    and "int (buffer_size b + length ts) \<le> max_size b"
  shows "\<exists>b' r. sample (add_all g ts b) num g a = (b', Inr (Some r))"
proof -
  have p: "parallel b" using assms(1) by (simp add: buffer_ok_def)
  have r: "buffer_ok (add_all g ts b)" "rows (add_all g ts b) = rows b @ map (\<lambda>(t, v). (t, v, g)) ts"
    using add_all_rows[OF assms(1), of ts g] assms(5) by (auto simp: buffer_size_def length_rows[OF p])
  have p': "parallel (add_all g ts b)" using r by (simp add: buffer_ok_def)
  have "filter (\<lambda>r. row_target r = g \<and> is_valid_for_target (row_version r) g (Some a))
      (map (\<lambda>(t, v). (t, v, g)) ts) = map (\<lambda>(t, v). (t, v, g)) ts"
    using assms(4) by (auto simp: list_all_iff filter_id_conv)
  then have "count_for_target (add_all g ts b) g (Some a) = count_for_target b g (Some a) + length ts"
    by (simp add: count_rows[OF p] count_rows[OF p'] r)
  then show ?thesis
    using sample_success_count[OF r(1) assms(2), of g a] assms(3) by (simp add: get_trajectories_needed_def)
qed

theorem gap_fill_completes_witness:
  "\<exists>b' r. sample (add_all 4 [(\<lparr>task_index = Some 7, payload = 9\<rparr>, 4)] demo_buffer) 2 4 1 = (b', Inr (Some r))"
proof -
  have "buffer_ok demo_buffer" by code_simp
  moreover have "int (length [(\<lparr>task_index = Some 7, payload = 9 :: nat\<rparr>, 4 :: int)]) = get_trajectories_needed demo_buffer 4 (int 2) (Some 1)"
    by code_simp
  moreover have "list_all (\<lambda>(t, v). is_valid_for_target v 4 (Some 1)) [(\<lparr>task_index = Some 7, payload = 9 :: nat\<rparr>, 4)]"
    by code_simp
  moreover have "int (buffer_size demo_buffer + length [(\<lparr>task_index = Some 7, payload = 9 :: nat\<rparr>, 4 :: int)]) \<le> max_size demo_buffer"
    by code_simp
  ultimately show ?thesis by (rule gap_fill_completes[OF _ zero_less_numeral])
qed

section \<open>Histories\<close>

datatype buffer_call = Add trajectory int int | Sample nat int int

text \<open>The buffer, what was accepted and what was handed out.\<close>

fun serve :: "buffer_call \<Rightarrow> replay_buffer \<times> trajectory list \<times> trajectory list
    \<Rightarrow> replay_buffer \<times> trajectory list \<times> trajectory list" where
  "serve (Add t v g) (b, acc, given) =
     (case add b t v g of (b', Success) \<Rightarrow> (b', acc @ [t], given) | (b', Full) \<Rightarrow> (b', acc, given))"
| "serve (Sample num current max_age) (b, acc, given) =
     (case sample b num current max_age of
        (b', Inr (Some (ts, _))) \<Rightarrow> (b', acc, given @ ts)
      | (b', _) \<Rightarrow> (b', acc, given))"

definition serves :: "buffer_call list \<Rightarrow> replay_buffer \<Rightarrow> replay_buffer \<times> trajectory list \<times> trajectory list" where
  "serves cs b = foldl (\<lambda>s c. serve c s) (b, [], []) cs"

lemma sample_zero:
  assumes "buffer_ok b" and "sample b 0 current max_age = (b', out)"
  shows "(\<not> (\<exists>r. out = Inr (Some r))) \<and> buffer_ok b' \<and> max_size b' = max_size b \<and> rows b' = filter (in_window current max_age) (rows b)"
proof (cases "trajectories b = []")
  case True
  with assms show ?thesis by (auto simp: sample_def rows_def)
next
  case False
  have p: "parallel b" using assms by (simp add: buffer_ok_def)
  define old where "old = ix_filter (\<lambda>v. v < max 0 (current - max_age)) (trajectory_versions b)"
  define b1 where "b1 = (if old \<noteq> [] then remove_indices b old else b)"
  note ev = sample_evicts[OF p, of current max_age, folded old_def, folded b1_def]
  have "b' = b1 \<and> \<not> (\<exists>r. out = Inr (Some r))"
    using assms(2) False unfolding sample_def Let_def old_def[symmetric] b1_def[symmetric]
    by (auto split: if_splits)
  moreover have "buffer_ok b1"
    using buffer_ok_shrink[OF assms(1), of b1] ev by simp
  ultimately show ?thesis using ev by simp
qed

definition handed :: "(trajectory list \<times> rat) option res \<Rightarrow> trajectory list" where
  "handed out = (case out of Inr (Some (ts, _)) \<Rightarrow> ts | _ \<Rightarrow> [])"

lemma handed_simps [simp]: "handed (Inr (Some (ts, a))) = ts" "handed (Inr None) = []" "handed (Inl e) = []"
  by (simp_all add: handed_def)

lemma sample_delivers:
  assumes "buffer_ok b" and s: "sample b num current max_age = (b', out)"
  shows "buffer_ok b' \<and> max_size b' = max_size b
    \<and> mset (map fst (rows b')) + mset (handed out) = mset (map fst (filter (in_window current max_age) (rows b)))"
proof (cases "num = 0")
  case True
  with sample_zero[OF assms(1), of current max_age b' out] s show ?thesis
    by (cases out) (auto simp: handed_def split: option.splits)
next
  case False
  let ?live = "filter (in_window current max_age) (rows b)"
  let ?u = "filter (usable current) ?live"
  have m: "mset (map fst (drop_first num (usable current) ?live)) + mset (map fst (take num ?u)) = mset (map fst ?live)"
    using mset_drop_first[of num "usable current" ?live] by (metis add.commute image_mset_union mset_map)
  have "max_size b' = max_size b"
    using sample_refines_rows[OF _ _ s] False assms(1) by (simp add: buffer_ok_def)
  moreover have "buffer_ok b'"
    using sample_implements_spec[OF assms(1) _ s] False by blast
  moreover have "mset (map fst (rows b')) + mset (handed out) = mset (map fst ?live)"
  proof (cases "length ?u < num")
    case True
    with sample_implements_spec[OF assms(1) _ s] False show ?thesis
      by (simp add: sample_rows_def Let_def del: filter_filter)
  next
    case enough: False
    with sample_implements_spec[OF assms(1) _ s] False m show ?thesis
      by (simp add: sample_rows_def Let_def del: filter_filter mset_map)
  qed
  ultimately show ?thesis by blast
qed

lemma serve_sample:
  "sample b num current max_age = (b', out) \<Longrightarrow>
     serve (Sample num current max_age) (b, acc, given) = (b', acc, given @ handed out)"
  by (auto simp: handed_def split: sum.splits option.splits)

lemma serve_accounts:
  assumes "serve c (b, acc, given) = (b', acc', given')" and "buffer_ok b"
    and "mset (map fst (rows b)) + mset given \<subseteq># mset acc"
  shows "buffer_ok b' \<and> max_size b' = max_size b \<and> mset (map fst (rows b')) + mset given' \<subseteq># mset acc'"
proof (cases c)
  case (Add t v g)
  obtain b2 res where a: "add b t v g = (b2, res)" by fastforce
  from a assms Add add_rows[OF assms(2) a] show ?thesis by (cases res) auto
next
  case (Sample num current max_age)
  obtain b2 out where s: "sample b num current max_age = (b2, out)" by fastforce
  note d = sample_delivers[OF assms(2) s]
  have e: "b' = b2" "acc' = acc" "given' = given @ handed out"
    using assms(1) serve_sample[OF s] Sample by simp_all
  have "mset (map fst (filter (in_window current max_age) (rows b))) \<subseteq># mset (map fst (rows b))"
    by (metis image_mset_subseteq_mono mset_filter mset_map multiset_filter_subset)
  then have "mset (map fst (rows b2)) + mset (handed out) + mset given \<subseteq># mset acc"
    using d assms(3) subset_mset.add_right_mono subset_mset.order_trans by metis
  then show ?thesis
    using d by (simp add: e ac_simps)
qed

lemma serves_accounts:
  assumes "buffer_ok b" and "rows b = []"
  shows "\<exists>b' acc given. serves cs b = (b', acc, given) \<and> buffer_ok b' \<and> max_size b' = max_size b \<and> mset (map fst (rows b')) + mset given \<subseteq># mset acc"
proof (induction cs rule: rev_induct)
  case Nil
  then show ?case using assms by (simp add: serves_def)
next
  case (snoc c cs)
  then obtain b' acc given where s: "serves cs b = (b', acc, given)" "buffer_ok b'" "max_size b' = max_size b"
    "mset (map fst (rows b')) + mset given \<subseteq># mset acc" by blast
  obtain b2 acc2 given2 where n: "serve c (b', acc, given) = (b2, acc2, given2)" by (metis prod_cases3)
  with serve_accounts[OF n s(2,4)] s(1,3) show ?case by (simp add: serves_def)
qed

text \<open>
  C6: Starting from a fresh buffer, whatever sequence of additions and sampling requests is
  served, the groups handed out so far together with those still held are among the groups
  accepted, each counted once: no group is trained on twice, and none is trained on that was
  refused as "full".
\<close>

theorem delivered_at_most_once:
  assumes "replay_init mx drp = Inr b" and "serves cs b = (b', acc, given)"
  shows "mset given + mset (trajectories b') \<subseteq># mset acc \<and> int (buffer_size b') \<le> mx \<and> parallel b'"
proof -
  have b: "buffer_ok b" "rows b = []" "max_size b = mx"
    using assms(1) by (auto simp: replay_init_def buffer_ok_def parallel_def rows_def split: if_splits)
  have s: "buffer_ok b'" "max_size b' = mx" "mset (map fst (rows b')) + mset given \<subseteq># mset acc"
    using serves_accounts[OF b(1,2), of cs] assms(2) b(3) by auto
  have p: "parallel b'" using s by (simp add: buffer_ok_def)
  show ?thesis
    using s p columns_of_rows(1)[OF p] by (simp add: buffer_ok_def buffer_size_def add.commute)
qed

theorem delivered_at_most_once_witness:
  "\<exists>b' acc given. serves [Add \<lparr>task_index = Some 0, payload = 3\<rparr> 0 0, Add \<lparr>task_index = Some 1, payload = 4\<rparr> 0 1,
      Sample 1 0 1, Sample 1 0 1] \<lparr>max_size = 2, drop_incomplete = False, trajectories = [],
      trajectory_versions = [], target_weight_versions = [], last_target = -1\<rparr> = (b', acc, given)
     \<and> given = [\<lparr>task_index = Some 0, payload = 3\<rparr>] \<and> mset given + mset (trajectories b') \<subseteq># mset acc"
proof -
  let ?b = "\<lparr>max_size = 2, drop_incomplete = False, trajectories = [],
      trajectory_versions = [], target_weight_versions = [], last_target = -1\<rparr>"
  let ?cs = "[Add \<lparr>task_index = Some 0, payload = 3\<rparr> 0 0, Add \<lparr>task_index = Some 1, payload = 4\<rparr> 0 1,
      Sample 1 0 1, Sample 1 0 1]"
  have i: "replay_init 2 False = Inr ?b" by (simp add: replay_init_def)
  obtain b' acc given where s: "serves ?cs ?b = (b', acc, given)" by (metis prod_cases3)
  have "snd (snd (serves ?cs ?b)) = [\<lparr>task_index = Some 0, payload = 3\<rparr>]" by code_simp
  with s delivered_at_most_once[OF i s] show ?thesis by auto
qed

section \<open>What restoring promises\<close>

definition saved_rows :: "saved_buffer \<Rightarrow> row list" where
  "saved_rows s = (case (s_trajectories s, s_versions s, s_targets s) of
     (Some ts, Some vs, Some gs) \<Rightarrow> zip ts (zip vs gs) | _ \<Rightarrow> [])"

definition complete_in :: "int \<Rightarrow> row list \<Rightarrow> row \<Rightarrow> bool" where
  "complete_in n rs r \<longleftrightarrow> n \<le> int (length (filter (\<lambda>r'. row_target r' = row_target r) rs))"

definition fresh_rows :: "int option \<Rightarrow> row list \<Rightarrow> row list" where
  "fresh_rows max_age rs = filter (\<lambda>r. is_valid_for_target (row_version r) (row_target r) max_age) rs"

text \<open>The rows a restore keeps, before the size limit.\<close>

definition restore_rows :: "bool \<Rightarrow> int option \<Rightarrow> int option \<Rightarrow> int option \<Rightarrow> row list \<Rightarrow> row list" where
  "restore_rows drp prompts step max_age rs =
     (let fresh = fresh_rows max_age rs in
      case (step, prompts) of
        (Some c, Some n) \<Rightarrow>
          (let live = filter (\<lambda>r. c \<le> row_target r) fresh in if drp then filter (complete_in n live) live else live)
      | (None, Some n) \<Rightarrow> filter (complete_in n fresh) fresh
      | (_, None) \<Rightarrow> fresh)"

lemma count_list_filter: "count_list (map f xs) y = length (filter (\<lambda>x. f x = y) xs)"
  by (induction xs) auto

lemma rows_stale:
  assumes "parallel b"
  shows "rows (remove_stale_trajectories a b) = fresh_rows (Some a) (rows b)"
    "parallel (remove_stale_trajectories a b)"
    "max_size (remove_stale_trajectories a b) = max_size b"
    "drop_incomplete (remove_stale_trajectories a b) = drop_incomplete b"
    "last_target (remove_stale_trajectories a b) = last_target b"
proof -
  let ?P = "\<lambda>r :: row. \<not> is_valid_for_target (row_version r) (row_target r) (Some a)"
  define ixs where "ixs = ix_filter ?P (rows b)"
  have z: "zip (trajectory_versions b) (target_weight_versions b) = map snd (rows b)"
    using assms by (simp add: rows_def parallel_def)
  have def_eq: "remove_stale_trajectories a b = (if ixs = [] then b else remove_indices b ixs)"
    by (simp add: remove_stale_trajectories_def z ix_filter_map case_prod_unfold ixs_def Let_def)
  have rm: "rows (remove_indices b ixs) = fresh_rows (Some a) (rows b)" "parallel (remove_indices b ixs)"
    using rows_remove[OF assms, of ixs] pick_others_filter[of "rows b" ?P] length_rows[OF assms]
    by (simp_all add: ixs_def fresh_rows_def)
  have "rows b = fresh_rows (Some a) (rows b)" if "ixs = []"
  proof -
    have "filter ?P (rows b) = []"
      using that length_ix_filter[of ?P "rows b"] by (simp add: ixs_def)
    then show ?thesis by (simp add: fresh_rows_def filter_empty_conv)
  qed
  with rm assms show "rows (remove_stale_trajectories a b) = fresh_rows (Some a) (rows b)"
    "parallel (remove_stale_trajectories a b)"
    by (auto simp: def_eq)
qed (simp_all add: remove_stale_trajectories_def Let_def)

lemma rows_keep_filter:
  assumes "parallel b"
  shows "rows (keep_rows b (ix_filter P (target_weight_versions b))) = filter (\<lambda>r. P (row_target r)) (rows b)"
    "parallel (keep_rows b (ix_filter P (target_weight_versions b)))"
proof -
  have i: "ix_filter P (target_weight_versions b) = ix_filter (\<lambda>r. P (row_target r)) (rows b)"
    unfolding columns_of_rows(3)[OF assms] by (rule ix_filter_map)
  show "rows (keep_rows b (ix_filter P (target_weight_versions b))) = filter (\<lambda>r. P (row_target r)) (rows b)"
    "parallel (keep_rows b (ix_filter P (target_weight_versions b)))"
    using rows_keep[OF assms, of "ix_filter P (target_weight_versions b)"] length_rows[OF assms]
    by (auto simp: i pick_ix_filter)
qed

lemma incomplete_rows:
  assumes "parallel b"
  shows "incomplete_targets n b = row_target ` {r \<in> set (rows b). \<not> complete_in n (rows b) r}"
  unfolding incomplete_targets_def columns_of_rows(3)[OF assms] count_list_filter
  by (auto simp: complete_in_def not_le image_iff)

lemma rows_drop_incomplete:
  assumes "parallel b"
  shows "rows (drop_targets (incomplete_targets n b) b) = filter (complete_in n (rows b)) (rows b)"
    "parallel (drop_targets (incomplete_targets n b) b)"
proof -
  have same: "complete_in n (rows b) r = complete_in n (rows b) r'" if "row_target r = row_target r'" for r r'
    using that by (simp add: complete_in_def)
  have "(row_target r \<notin> incomplete_targets n b) = complete_in n (rows b) r" if "r \<in> set (rows b)" for r
    unfolding incomplete_rows[OF assms] using that same by blast
  then show "rows (drop_targets (incomplete_targets n b) b) = filter (complete_in n (rows b)) (rows b)"
    unfolding drop_targets_def rows_keep_filter(1)[OF assms] by (intro filter_cong refl)
  show "parallel (drop_targets (incomplete_targets n b) b)"
    unfolding drop_targets_def by (rule rows_keep_filter(2)[OF assms])
qed

lemma drop_targets_fields [simp]:
  "max_size (drop_targets ts b) = max_size b" "drop_incomplete (drop_targets ts b) = drop_incomplete b"
  "last_target (drop_targets ts b) = last_target b"
  by (simp_all add: drop_targets_def)

lemma no_incomplete:
  "parallel b \<Longrightarrow> incomplete_targets n b = {} \<Longrightarrow> filter (complete_in n (rows b)) (rows b) = rows b"
  by (auto simp: incomplete_rows filter_id_conv)

lemma rows_prepare:
  fixes c :: int
  assumes "parallel b"
  defines "live \<equiv> filter (\<lambda>r. c \<le> row_target r) (rows b)"
  shows "rows (prepare_for_training_step c n b) = (if drop_incomplete b then filter (complete_in n live) live else live)"
    "parallel (prepare_for_training_step c n b)"
    "max_size (prepare_for_training_step c n b) = max_size b"
    "last_target (prepare_for_training_step c n b) = c - 1"
proof -
  define keep where "keep = ix_filter (\<lambda>t. t \<ge> c) (target_weight_versions b)"
  define b1 where "b1 = (if length keep < length (trajectories b) then keep_rows b keep else b)"
  note k = rows_keep_filter[OF assms(1), of "\<lambda>t. t \<ge> c", folded keep_def live_def]
  have len: "length keep = length live"
    unfolding keep_def live_def columns_of_rows(3)[OF assms(1)] ix_filter_map
    by (rule length_ix_filter)
  have "rows b = live" if "\<not> length live < length (rows b)"
    using that unfolding live_def by (metis length_filter_less filter_id_conv)
  then have b1: "rows b1 = live" "parallel b1" "max_size b1 = max_size b" "drop_incomplete b1 = drop_incomplete b"
    using k assms(1) len length_rows[OF assms(1)] by (auto simp: b1_def)
  let ?bad = "incomplete_targets n b1"
  have e: "prepare_for_training_step c n b =
      (if trajectories b1 = [] then b1 else if ?bad \<noteq> {} \<and> drop_incomplete b1 then drop_targets ?bad b1 else b1)
        \<lparr>last_target := c - 1\<rparr>"
    by (simp add: prepare_for_training_step_def Let_def keep_def[symmetric] b1_def[symmetric])
  have "live = []" if "trajectories b1 = []"
    using that b1(1) by (simp add: rows_def)
  then show "rows (prepare_for_training_step c n b) = (if drop_incomplete b then filter (complete_in n live) live else live)"
    using rows_drop_incomplete[OF b1(2), of n] no_incomplete[OF b1(2), of n] b1 by (auto simp: e)
  show "parallel (prepare_for_training_step c n b)" "max_size (prepare_for_training_step c n b) = max_size b"
    "last_target (prepare_for_training_step c n b) = c - 1"
    using rows_drop_incomplete[OF b1(2), of n] b1 by (auto simp: e)
qed

lemma rows_remove_incomplete:
  assumes "parallel b"
  shows "rows (remove_incomplete_target_steps n b) = filter (complete_in n (rows b)) (rows b)"
    "parallel (remove_incomplete_target_steps n b)"
    "max_size (remove_incomplete_target_steps n b) = max_size b"
  using rows_drop_incomplete[OF assms, of n] no_incomplete[OF assms, of n] assms
  by (auto simp: remove_incomplete_target_steps_def Let_def)

lemma sort_key_same:
  assumes "\<forall>x\<in>set xs. f x = g x"
  shows "sort_key f xs = sort_key g xs"
proof (rule properties_for_sort_key)
  show "sorted (map f (sort_key g xs))"
  proof -
    have e: "map f (sort_key g xs) = map g (sort_key g xs)" using assms by simp
    show ?thesis unfolding e by simp
  qed
  fix k assume "k \<in> set (sort_key g xs)"
  then have k: "f k = g k" using assms by simp
  have "filter (\<lambda>x. f k = f x) (sort_key g xs) = filter (\<lambda>x. g k = g x) (sort_key g xs)"
    using assms k by (auto intro: filter_cong)
  also have "\<dots> = filter (\<lambda>x. g k = g x) xs"
    using sort_key_stable[of g "g k" xs] by (simp add: eq_commute)
  also have "\<dots> = filter (\<lambda>x. f k = f x) xs"
    using assms k by (auto intro: filter_cong)
  finally show "filter (\<lambda>x. f k = f x) (sort_key g xs) = filter (\<lambda>x. f k = f x) xs" .
qed simp

lemma rows_truncate:
  assumes "parallel b" and "0 < max_size b"
  defines "m \<equiv> nat (max_size b)"
  shows "parallel (truncate_to_max_size step b)"
    "max_size (truncate_to_max_size step b) = max_size b"
    "last_target (truncate_to_max_size step b) = last_target b"
    "length (rows b) \<le> m \<Longrightarrow> truncate_to_max_size step b = b"
    "m < length (rows b) \<Longrightarrow> rows (truncate_to_max_size None b) = drop (length (rows b) - m) (rows b)"
    "m < length (rows b) \<Longrightarrow> rows (truncate_to_max_size (Some c) b) =
       pick (rows b) (sort (take m (sort_key (\<lambda>i. (row_target (rows b ! i), i)) [0..<length (rows b)])))"
proof -
  note len = length_rows[OF assms(1)]
  show "length (rows b) \<le> m \<Longrightarrow> truncate_to_max_size step b = b"
    using assms(2) by (simp add: truncate_to_max_size_def len m_def Let_def)
  have s: "set (sort (take m (sort_key (\<lambda>i. (target_weight_versions b ! i, i)) [0..<length (trajectories b)])))
      \<subseteq> {..<length (trajectories b)}"
    by (auto dest: in_set_takeD)
  show "parallel (truncate_to_max_size step b)"
    using s assms(1) rows_keep(2)[OF assms(1)]
    by (auto simp: truncate_to_max_size_def Let_def m_def[symmetric] subset_eq split: option.splits)
  show "max_size (truncate_to_max_size step b) = max_size b"
    "last_target (truncate_to_max_size step b) = last_target b"
    by (simp_all add: truncate_to_max_size_def Let_def)
  assume "m < length (rows b)"
  then have big: "\<not> int (length (trajectories b)) \<le> max_size b"
    using assms(2) by (simp add: len m_def)
  have "rows (truncate_to_max_size None b) = pick (rows b) [length (trajectories b) - m..<length (trajectories b)]"
    using big rows_keep(1)[OF assms(1), of "[length (trajectories b) - m..<length (trajectories b)]"]
    by (simp add: truncate_to_max_size_def m_def Let_def)
  then show "rows (truncate_to_max_size None b) = drop (length (rows b) - m) (rows b)"
    using pick_slice[of "length (rows b)" "rows b" "length (rows b) - m"] by (simp add: len slice_def)
  have "sort_key (\<lambda>i. (target_weight_versions b ! i, i)) [0..<length (trajectories b)]
      = sort_key (\<lambda>i. (row_target (rows b ! i), i)) [0..<length (rows b)]"
    unfolding columns_of_rows(3)[OF assms(1)] len by (rule sort_key_same) (simp add: len)
  then show "rows (truncate_to_max_size (Some c) b) =
       pick (rows b) (sort (take m (sort_key (\<lambda>i. (row_target (rows b ! i), i)) [0..<length (rows b)])))"
    using big s rows_keep(1)[OF assms(1)] by (simp add: truncate_to_max_size_def m_def[symmetric] subset_eq Let_def)
qed

lemma restore_fields_rows:
  assumes "restore_fields b s = Inr b'"
  shows "parallel b'" "rows b' = saved_rows s" "max_size b' = max_size b" "drop_incomplete b' = drop_incomplete b"
    "s_last_target s = Some (last_target b')"
  using assms
  by (auto simp: restore_fields_def parallel_def rows_def saved_rows_def split: option.splits if_splits)

lemma load_rows:
  assumes "load_state_dict b s prompts step max_age = Inr b'" and "0 < max_size b"
  shows "\<exists>b3. b' = truncate_to_max_size step b3 \<and> parallel b3 \<and> max_size b3 = max_size b
    \<and> rows b3 = restore_rows (drop_incomplete b) prompts step max_age (saved_rows s)
    \<and> (\<forall>c n. step = Some c \<longrightarrow> prompts = Some n \<longrightarrow> last_target b3 = c - 1)"
proof -
  obtain b1 where r: "restore_fields b s = Inr b1"
    using assms(1) by (auto simp: load_state_dict_def bindR_Inr)
  note f = restore_fields_rows[OF r]
  define b2 where "b2 = (case max_age of
      Some a \<Rightarrow> if trajectories b1 \<noteq> [] then remove_stale_trajectories a b1 else b1 | None \<Rightarrow> b1)"
  have empty: "rows b0 = []" if "trajectories b0 = []" for b0
    using that by (simp add: rows_def)
  have b2: "parallel b2" "rows b2 = fresh_rows max_age (saved_rows s)" "max_size b2 = max_size b"
    "drop_incomplete b2 = drop_incomplete b"
    using f rows_stale[OF f(1)] empty[of b1]
    by (auto simp: b2_def fresh_rows_def is_valid_for_target_def split: option.splits)
  define b3 where "b3 = (case (step, prompts) of
      (Some c, Some n) \<Rightarrow> prepare_for_training_step c n b2
    | (None, Some n) \<Rightarrow> if trajectories b2 \<noteq> [] then remove_incomplete_target_steps n b2 else b2
    | (_, None) \<Rightarrow> b2)"
  have "b' = truncate_to_max_size step b3"
    using assms(1) r unfolding load_state_dict_def Let_def b3_def b2_def by simp
  moreover have "rows b3 = restore_rows (drop_incomplete b) prompts step max_age (saved_rows s)"
    using b2 rows_prepare(1)[OF b2(1)] rows_remove_incomplete(1)[OF b2(1)] empty[of b2]
    by (auto simp: b3_def restore_rows_def Let_def split: option.splits)
  moreover have "parallel b3" "max_size b3 = max_size b"
    using b2 rows_prepare(2,3)[OF b2(1)] rows_remove_incomplete(2,3)[OF b2(1)]
    by (auto simp: b3_def split: option.splits)
  moreover have "last_target b3 = c - 1" if "step = Some c" "prompts = Some n" for c n
    using that rows_prepare(4)[OF b2(1)] by (simp add: b3_def)
  ultimately show ?thesis by blast
qed

lemma buffer_ok_truncate:
  assumes "parallel b" and "0 < max_size b"
  shows "buffer_ok (truncate_to_max_size step b)"
proof (cases "length (rows b) \<le> nat (max_size b)")
  case True
  then show ?thesis
    using assms rows_truncate(4)[OF assms] by (simp add: buffer_ok_def length_rows)
next
  case False
  then have "length (rows (truncate_to_max_size step b)) = nat (max_size b)"
    using rows_truncate(5,6)[OF assms] by (cases step) auto
  then show ?thesis
    using assms rows_truncate(1,2)[OF assms, of step] by (auto simp: buffer_ok_def length_rows)
qed

definition demo_saved :: saved_buffer where
  "demo_saved = \<lparr>s_trajectories = Some [\<lparr>task_index = Some 1, payload = 0\<rparr>, \<lparr>task_index = Some 2, payload = 1\<rparr>,
       \<lparr>task_index = Some 3, payload = 2\<rparr>, \<lparr>task_index = Some 4, payload = 3\<rparr>, \<lparr>task_index = None, payload = 4\<rparr>],
     s_versions = Some [1, 3, 1, 3, 3], s_targets = Some [1, 3, 4, 3, 4],
     s_last_target = Some 2, s_max_size = Some 9\<rparr>"

text \<open>
  Restoring within the size limit keeps exactly the rows the resume policy asks for, in their
  order: those fresh for their target, of the step being resumed or a later one, and, when
  incomplete targets are dropped, of targets that still have a full batch after that filtering.
  The buffer invariant holds afterwards, and the next target to generate is the resumed step.
\<close>

theorem restore_keeps:
  assumes "load_state_dict b s prompts step max_age = Inr b'" and "0 < max_size b"
    and "int (length (restore_rows (drop_incomplete b) prompts step max_age (saved_rows s))) \<le> max_size b"
  shows "rows b' = restore_rows (drop_incomplete b) prompts step max_age (saved_rows s)
    \<and> buffer_ok b' \<and> (step \<noteq> None \<and> prompts \<noteq> None \<longrightarrow> last_target b' = the step - 1)"
proof -
  obtain b3 where b3: "b' = truncate_to_max_size step b3" "parallel b3" "max_size b3 = max_size b"
    "rows b3 = restore_rows (drop_incomplete b) prompts step max_age (saved_rows s)"
    "\<forall>c n. step = Some c \<longrightarrow> prompts = Some n \<longrightarrow> last_target b3 = c - 1"
    using load_rows[OF assms(1,2)] by blast
  have "length (rows b3) \<le> nat (max_size b3)"
    using assms(3) b3(3,4) by simp
  then have "b' = b3"
    using rows_truncate(4)[of b3 step] b3 assms(2) by simp
  with b3 buffer_ok_truncate[of b3 step] assms(2) show ?thesis by auto
qed

theorem restore_keeps_witness:
  "\<exists>b'. load_state_dict demo_buffer demo_saved (Some 2) (Some 2) (Some 1) = Inr b'
     \<and> rows b' = [(\<lparr>task_index = Some 2, payload = 1\<rparr>, 3, 3), (\<lparr>task_index = Some 4, payload = 3\<rparr>, 3, 3)]
     \<and> last_target b' = 1"
proof -
  have "ok (load_state_dict demo_buffer demo_saved (Some 2) (Some 2) (Some 1))" by code_simp
  then obtain b' where l: "load_state_dict demo_buffer demo_saved (Some 2) (Some 2) (Some 1) = Inr b'"
    by (auto simp: ok_iff)
  have m: "0 < max_size demo_buffer" by code_simp
  have r: "restore_rows (drop_incomplete demo_buffer) (Some 2) (Some 2) (Some 1) (saved_rows demo_saved)
      = [(\<lparr>task_index = Some 2, payload = 1\<rparr>, 3, 3), (\<lparr>task_index = Some 4, payload = 3\<rparr>, 3, 3)]"
    by code_simp
  have s: "int (length (restore_rows (drop_incomplete demo_buffer) (Some 2) (Some 2) (Some 1) (saved_rows demo_saved)))
      \<le> max_size demo_buffer"
    by code_simp
  show ?thesis using restore_keeps[OF l m s] l r by auto
qed

lemma prioritised:
  fixes f :: "nat \<Rightarrow> 'a::linorder"
  assumes "m \<le> n" and "ixs = sort (take m (sort_key (\<lambda>i. (f i, i)) [0..<n]))"
  shows "sorted_wrt (<) ixs" "set ixs \<subseteq> {..<n}" "length ixs = m"
    "i \<in> set ixs \<Longrightarrow> j < n \<Longrightarrow> j \<notin> set ixs \<Longrightarrow> f i \<le> f j"
proof -
  let ?all = "sort_key (\<lambda>i. (f i, i)) [0..<n]"
  have d: "distinct ?all" by simp
  have "distinct ixs" unfolding assms(2) using d by simp
  then show "sorted_wrt (<) ixs"
    using assms(2) by (simp add: strict_sorted_iff)
  show "set ixs \<subseteq> {..<n}"
    unfolding assms(2) by (auto dest: in_set_takeD)
  show "length ixs = m" unfolding assms(2) using assms(1) by simp
  assume i: "i \<in> set ixs" and j: "j < n" "j \<notin> set ixs"
  have srt: "sorted (map (\<lambda>i. (f i, i)) (take m ?all @ drop m ?all))" by simp
  have "j \<in> set (take m ?all @ drop m ?all)" using j(1) by simp
  then have "j \<in> set (drop m ?all)" using j(2) unfolding assms(2) set_append by simp
  moreover have "i \<in> set (take m ?all)" using i unfolding assms(2) by simp
  ultimately have "(f i, i) \<le> (f j, j)"
    using srt unfolding map_append sorted_append by auto
  then show "f i \<le> f j" by auto
qed

text \<open>
  Restoring above the size limit (a smaller \<open>max_size\<close> after the resume) fills the buffer exactly
  to the limit: without a resume step it keeps the newest rows; with one it keeps, in their
  order, rows of the earliest targets, so that no kept row has a later target than a dropped one.
\<close>

theorem restore_truncates:
  assumes "load_state_dict b s prompts step max_age = Inr b'" and "0 < max_size b"
    and "kept = restore_rows (drop_incomplete b) prompts step max_age (saved_rows s)"
    and "max_size b < int (length kept)"
  shows "int (buffer_size b') = max_size b \<and> buffer_ok b' \<and>
    (case step of
       None \<Rightarrow> rows b' = drop (length kept - nat (max_size b)) kept
     | Some _ \<Rightarrow> \<exists>ixs. rows b' = pick kept ixs \<and> sorted_wrt (<) ixs \<and> set ixs \<subseteq> {..<length kept}
         \<and> (\<forall>i\<in>set ixs. \<forall>j<length kept. j \<notin> set ixs \<longrightarrow> row_target (kept ! i) \<le> row_target (kept ! j)))"
proof -
  obtain b3 where b3: "b' = truncate_to_max_size step b3" "parallel b3" "max_size b3 = max_size b" "rows b3 = kept"
    using load_rows[OF assms(1,2)] assms(3) by blast
  have pos: "0 < max_size b3" using assms(2) b3 by simp
  have big: "nat (max_size b3) < length (rows b3)" using assms(2,4) b3 by simp
  note tr = rows_truncate(1)[OF b3(2) pos, of step]
  have okb: "buffer_ok b'" using buffer_ok_truncate[OF b3(2) pos] b3(1) by simp
  have sz: "buffer_size b' = length (rows b')"
    using tr b3(1) by (simp add: buffer_size_def length_rows)
  show ?thesis
  proof (cases step)
    case None
    then have "rows b' = drop (length kept - nat (max_size b)) kept"
      using rows_truncate(5)[OF b3(2) pos big] b3 by simp
    with okb sz big b3 assms(2,4) None show ?thesis by simp
  next
    case (Some c)
    define ixs where "ixs = sort (take (nat (max_size b)) (sort_key (\<lambda>i. (row_target (kept ! i), i)) [0..<length kept]))"
    have le: "nat (max_size b) \<le> length kept" using assms(4) by simp
    note pr = prioritised[OF le ixs_def]
    have "rows b' = pick kept ixs"
      using rows_truncate(6)[OF b3(2) pos big] b3 Some by (simp add: ixs_def)
    then show ?thesis
      using pr okb sz Some assms(2) by auto
  qed
qed

theorem restore_truncates_witness:
  "\<exists>b'. load_state_dict (demo_buffer\<lparr>max_size := 2, drop_incomplete := False\<rparr>) demo_saved (Some 2) (Some 2) None = Inr b'
     \<and> buffer_size b' = 2 \<and> buffer_ok b'"
proof -
  let ?b = "demo_buffer\<lparr>max_size := 2, drop_incomplete := False\<rparr>"
  have "ok (load_state_dict ?b demo_saved (Some 2) (Some 2) None)" by code_simp
  then obtain b' where l: "load_state_dict ?b demo_saved (Some 2) (Some 2) None = Inr b'"
    by (auto simp: ok_iff)
  have m: "0 < max_size ?b" by simp
  have g: "max_size ?b < int (length (restore_rows (drop_incomplete ?b) (Some 2) (Some 2) None (saved_rows demo_saved)))"
    by code_simp
  show ?thesis using restore_truncates[OF l m refl g] l by auto
qed

text \<open>
  The size limit is applied after incomplete targets are dropped, so it can reintroduce what
  that filter removes: with \<open>drop_incomplete_targets_on_restore\<close> set and every saved target
  complete, a restore into a smaller buffer keeps a part of a target's batch.
\<close>

theorem truncation_leaves_partial_target:
  "let s = \<lparr>s_trajectories = Some (replicate 4 \<lparr>task_index = None, payload = 0\<rparr>), s_versions = Some [3, 3, 3, 3],
            s_targets = Some [3, 3, 4, 4], s_last_target = Some 2, s_max_size = Some 4\<rparr>;
       b = \<lparr>max_size = 3, drop_incomplete = True, trajectories = [], trajectory_versions = [],
            target_weight_versions = [], last_target = -1\<rparr>
   in (case load_state_dict b s (Some 2) (Some 3) (Some 1) of
         Inr b' \<Rightarrow> target_weight_versions b' = [3, 3, 4] \<and> incomplete_targets 2 b' = {4}
       | Inl _ \<Rightarrow> False)"
  by code_simp

text \<open>
  Saving and restoring is the identity: loading the saved state of a buffer into a buffer of
  the same configuration, with no filtering requested, gives back the buffer.
\<close>

theorem save_restore_roundtrip:
  assumes "buffer_ok b" and "max_size b0 = max_size b" and "drop_incomplete b0 = drop_incomplete b"
  shows "load_state_dict b0 (state_dict b) None None None = Inr b"
  using assms
  by (simp add: load_state_dict_def restore_fields_def state_dict_def buffer_ok_def parallel_def truncate_to_max_size_def)

theorem save_restore_roundtrip_witness:
  "load_state_dict (demo_buffer\<lparr>trajectories := [], trajectory_versions := [], target_weight_versions := []\<rparr>)
     (state_dict demo_buffer) None None None = Inr demo_buffer"
proof -
  have "buffer_ok demo_buffer" by code_simp
  then show ?thesis by (intro save_restore_roundtrip) simp_all
qed

end
