(* ===== verification/TQBuffer.thy ===== *)
theory TQBuffer
  imports NoopClient
begin

text \<open>
  The buffer of the single-controller loop, \<open>TQReplayBuffer\<close>
  (\<open>nemo_rl/algorithms/async_utils/replay_buffer.py\<close>): six parallel lists, one entry per
  prompt group, over a data plane that holds the rows of the committed groups.  The data
  plane is reached through three calls (put, clear, get), which are arguments of the
  definitions.  The awaits of a commit are separate steps of \<open>tq_step\<close>, so that other operations
  run in between; the synchronous part of an operation is one step.
\<close>

section \<open>State\<close>

record tq_buffer =
  part :: string
  require_routed :: bool
  meta_list :: "meta option list"
  start_weight_list :: "int list"
  end_weight_list :: "int list"
  target_step_list :: "int option list"
  ready_list :: "bool list"
  group_ids :: "string list"

definition new_tq :: "string \<Rightarrow> bool \<Rightarrow> tq_buffer" where
  "new_tq pid routed = \<lparr>part = pid, require_routed = routed, meta_list = [], start_weight_list = [],
     end_weight_list = [], target_step_list = [], ready_list = [], group_ids = []\<rparr>"

definition tq_size :: "tq_buffer \<Rightarrow> nat" where
  "tq_size b = length (meta_list b)"

definition reserve :: "tq_buffer \<Rightarrow> int \<Rightarrow> int option \<Rightarrow> string \<Rightarrow> tq_buffer" where
  "reserve b w target gid = b\<lparr>meta_list := meta_list b @ [None],
     start_weight_list := start_weight_list b @ [w], end_weight_list := end_weight_list b @ [-1],
     target_step_list := target_step_list b @ [target], ready_list := ready_list b @ [False],
     group_ids := group_ids b @ [gid]\<rparr>"

section \<open>Sample ids\<close>

text \<open>\<open>f"{group_id}_g{i}"\<close>\<close>

definition sample_id :: "string \<Rightarrow> nat \<Rightarrow> string" where
  "sample_id gid i = gid @ ''_g'' @ decimal i"

text \<open>
  The tensorised record: the fields that are sent and the length of each row
  (\<open>record_to_train_batch\<close> and the jagged packing produce it from the rollout).
\<close>

record 'td train_batch =
  tb_fields :: 'td
  tb_names :: "string list"
  tb_lengths :: "int list"

definition pack_payload :: "'td train_batch \<Rightarrow> int \<Rightarrow> string \<Rightarrow> string list \<times> 'td \<times> tag list" where
  "pack_payload tb w gid =
     (let n = length (tb_lengths tb)
      in (map (sample_id gid) [0..<n], tb_fields tb, replicate n [(''weight_version'', PInt w)]))"

section \<open>Commit\<close>

text \<open>A commit between its awaits: what it wrote or is about to write, and how far it got.\<close>

datatype phase = Putting | Written meta | Failing py_error

record 'td flight =
  f_ids :: "string list"
  f_fields :: 'td
  f_tags :: "tag list"
  f_names :: "string list"
  f_lengths :: "int list"
  f_end :: int
  f_phase :: phase

text \<open>The synchronous part before the first write.\<close>

definition begin_commit :: "tq_buffer \<Rightarrow> string \<Rightarrow> 'td train_batch \<Rightarrow> int \<Rightarrow> int \<Rightarrow> 'td flight res" where
  "begin_commit b gid tb start stop =
     (if gid \<notin> set (group_ids b) then Inl ValueError
      else (case pack_payload tb start gid of (ids, td, ts) \<Rightarrow>
        if require_routed b \<and> ''routed_experts'' \<notin> set (tb_names tb) then Inl RuntimeError
        else Inr \<lparr>f_ids = ids, f_fields = td, f_tags = ts, f_names = tb_names tb,
               f_lengths = tb_lengths tb, f_end = stop, f_phase = Putting\<rparr>))"

text \<open>The metadata of the rows just written.\<close>

definition written_meta :: "tq_buffer \<Rightarrow> 'td flight \<Rightarrow> meta res" where
  "written_meta b f = mk_meta \<lparr>partition_id = part b, task_name = Some ''train'', sample_ids = f_ids f,
     field_names = Some (f_names f), sequence_lengths = Some (f_lengths f), extra_info = [],
     tags = Some (f_tags f)\<rparr>"

text \<open>The slot is looked up again after the awaits: it may have moved or gone.\<close>

definition finish_commit :: "tq_buffer \<Rightarrow> string \<Rightarrow> meta \<Rightarrow> int \<Rightarrow> tq_buffer res" where
  "finish_commit b gid m stop =
     (case first_ix (\<lambda>g. g = gid) (group_ids b) of
        None \<Rightarrow> Inl ValueError
      | Some i \<Rightarrow> Inr (b\<lparr>meta_list := (meta_list b)[i := Some m], end_weight_list := (end_weight_list b)[i := stop],
                        ready_list := (ready_list b)[i := True]\<rparr>))"

text \<open>
  A commit that nothing interrupts.  \<open>put\<close> and \<open>clear\<close> are the data plane's calls, \<open>enrich\<close> the
  post-write stage, if one is installed.
\<close>

definition roll_back :: "('dp \<Rightarrow> string list \<Rightarrow> 'dp \<times> unit res) \<Rightarrow> 'dp \<Rightarrow> string list \<Rightarrow> py_error \<Rightarrow> 'dp \<times> py_error" where
  "roll_back clear d ids e =
     (case clear d ids of (d', Inr _) \<Rightarrow> (d', e) | (d', Inl _) \<Rightarrow> (d', if e = CancelledError then e else ExceptionGroup))"

definition commit ::
  "('dp \<Rightarrow> string list \<Rightarrow> 'td \<Rightarrow> tag list \<Rightarrow> 'dp \<times> unit res) \<Rightarrow> ('dp \<Rightarrow> string list \<Rightarrow> 'dp \<times> unit res) \<Rightarrow>
   (meta \<Rightarrow> meta res) option \<Rightarrow> tq_buffer \<Rightarrow> 'dp \<Rightarrow> string \<Rightarrow> 'td train_batch \<Rightarrow> int \<Rightarrow> int \<Rightarrow>
   (tq_buffer \<times> 'dp) \<times> meta res" where
  "commit put clear enrich b d gid tb start stop =
     (case begin_commit b gid tb start stop of
        Inl e \<Rightarrow> ((b, d), Inl e)
      | Inr f \<Rightarrow>
         (let (d1, r1) = put d (f_ids f) (f_fields f) (f_tags f);
              m1 = bindR r1 (\<lambda>_. written_meta b f);
              m2 = bindR m1 (\<lambda>m. case enrich of None \<Rightarrow> Inr m
                     | Some g \<Rightarrow> (case g m of Inl _ \<Rightarrow> Inl PostWriteEnrichmentError | Inr m' \<Rightarrow> Inr m'));
              r = bindR m2 (\<lambda>m. bindR (finish_commit b gid m stop) (\<lambda>b'. Inr (b', m)))
          in case r of
               Inr (b', m) \<Rightarrow> ((b', d1), Inr m)
             | Inl e \<Rightarrow> (case roll_back clear d1 (f_ids f) e of (d2, e') \<Rightarrow> ((b, d2), Inl e'))))"

section \<open>Removal\<close>

definition del_slot :: "nat \<Rightarrow> tq_buffer \<Rightarrow> tq_buffer" where
  "del_slot i b = b\<lparr>meta_list := del_at i (meta_list b), start_weight_list := del_at i (start_weight_list b),
     end_weight_list := del_at i (end_weight_list b), target_step_list := del_at i (target_step_list b),
     ready_list := del_at i (ready_list b), group_ids := del_at i (group_ids b)\<rparr>"

fun drop_slots :: "nat list \<Rightarrow> tq_buffer \<Rightarrow> string list \<Rightarrow> tq_buffer \<times> string list res" where
  "drop_slots [] b ids = (b, Inr ids)"
| "drop_slots (i # is) b ids =
     (if i < length (meta_list b)
      then drop_slots is (del_slot i b) (case meta_list b ! i of None \<Rightarrow> ids | Some m \<Rightarrow> ids @ sample_ids m)
      else (b, Inl IndexError))"

text \<open>The synchronous part of \<open>remove\<close>: the buffer left and the ids of the rows dropped.\<close>

definition remove_slots :: "tq_buffer \<Rightarrow> nat list \<Rightarrow> tq_buffer \<times> string list res" where
  "remove_slots b idxs =
     (case rev (sort idxs) of
        [] \<Rightarrow> (b, Inr [])
      | i # is \<Rightarrow> if i \<ge> length (meta_list b) then (b, Inl IndexError) else drop_slots (i # is) b [])"

definition remove ::
  "('dp \<Rightarrow> string list \<Rightarrow> 'dp \<times> unit res) \<Rightarrow> tq_buffer \<Rightarrow> 'dp \<Rightarrow> nat list \<Rightarrow> bool \<Rightarrow> (tq_buffer \<times> 'dp) \<times> nat res" where
  "remove clear b d idxs in_dp =
     (if idxs = [] then ((b, d), Inr 0)
      else case remove_slots b idxs of
        (b', Inl e) \<Rightarrow> ((b', d), Inl e)
      | (b', Inr ids) \<Rightarrow>
          (if in_dp then (case clear d ids of
               (d', Inl e) \<Rightarrow> ((b', d'), Inl e)
             | (d', Inr _) \<Rightarrow> ((b', d'), Inr (length idxs)))
           else ((b', d), Inr (length idxs))))"

definition remove_group ::
  "('dp \<Rightarrow> string list \<Rightarrow> 'dp \<times> unit res) \<Rightarrow> tq_buffer \<Rightarrow> 'dp \<Rightarrow> string \<Rightarrow> bool \<Rightarrow> (tq_buffer \<times> 'dp) \<times> nat res" where
  "remove_group clear b d gid in_dp =
     (case first_ix (\<lambda>g. g = gid) (group_ids b) of
        None \<Rightarrow> ((b, d), Inl ValueError)
      | Some i \<Rightarrow> remove clear b d [i] in_dp)"

section \<open>Target steps\<close>

definition count_for_target_step :: "tq_buffer \<Rightarrow> int \<Rightarrow> nat" where
  "count_for_target_step b target = count_list (target_step_list b) (Some target)"

text \<open>The scan keeps the first slot of the furthest later step seen so far.\<close>

fun lender_scan :: "int \<Rightarrow> nat \<Rightarrow> (int option \<times> bool) list \<Rightarrow> (nat \<times> int) option \<Rightarrow> (nat \<times> int) option" where
  "lender_scan to i [] best = best"
| "lender_scan to i ((target, ready) # xs) best =
     lender_scan to (Suc i) xs
       (case target of
          None \<Rightarrow> best
        | Some t \<Rightarrow>
            if t \<le> to \<or> \<not> ready then best
            else (case best of None \<Rightarrow> Some (i, t) | Some (j, u) \<Rightarrow> if t > u then Some (i, t) else best))"

definition promote_ready_group :: "tq_buffer \<Rightarrow> int \<Rightarrow> tq_buffer \<times> int option" where
  "promote_ready_group b to =
     (case lender_scan to 0 (zip (target_step_list b) (ready_list b)) None of
        None \<Rightarrow> (b, None)
      | Some (i, t) \<Rightarrow> (b\<lparr>target_step_list := (target_step_list b)[i := Some to]\<rparr>, Some t))"

section \<open>Checkpointing\<close>

record 'td saved_group =
  g_meta :: meta
  g_start :: int
  g_end :: int
  g_target :: "int option"
  g_group :: string
  g_data :: 'td

record 'td saved_tq =
  sv_partition :: "string option"
  sv_capacity :: "int option"
  sv_groups :: "'td saved_group option list option"

text \<open>
  The ready slots are read first, then their rows are fetched group by group.  A missing key of
  the saved state is \<open>None\<close>; a group with a missing key is \<open>None\<close> in the list.
\<close>

definition ready_snapshot :: "tq_buffer \<Rightarrow> (meta \<times> int \<times> int \<times> int option \<times> string) list res" where
  "ready_snapshot b =
     mapR (\<lambda>i. case meta_list b ! i of
             None \<Rightarrow> Inl AssertionError
           | Some m \<Rightarrow> Inr (m, start_weight_list b ! i, end_weight_list b ! i, target_step_list b ! i, group_ids b ! i))
       (ix_filter (\<lambda>r. r) (ready_list b))"

definition tq_state_dict ::
  "('dp \<Rightarrow> string list \<Rightarrow> string list option \<Rightarrow> 'td res) \<Rightarrow> tq_buffer \<Rightarrow> 'dp \<Rightarrow> int \<Rightarrow> 'td saved_tq res" where
  "tq_state_dict get b d cap =
     bindR (ready_snapshot b) (\<lambda>snap.
     bindR (mapR (\<lambda>(m, s, e, t, g). bindR (get d (sample_ids m) (field_names m)) (\<lambda>x.
              Inr (Some \<lparr>g_meta = m, g_start = s, g_end = e, g_target = t, g_group = g, g_data = x\<rparr>))) snap) (\<lambda>gs.
       Inr \<lparr>sv_partition = Some (part b), sv_capacity = Some cap, sv_groups = Some gs\<rparr>))"

fun check_groups :: "int \<Rightarrow> string list \<Rightarrow> 'td saved_group option list \<Rightarrow> 'td saved_group list res" where
  "check_groups n seen [] = Inr []"
| "check_groups n seen (None # gs) = Inl ValueError"
| "check_groups n seen (Some g # gs) =
     (let ids = sample_ids (g_meta g);
          len = (\<lambda>xs. case xs of None \<Rightarrow> -1 | Some k \<Rightarrow> int k)
      in if \<not> (int (length ids) = len (map_option length (tags (g_meta g)))
               \<and> len (map_option length (tags (g_meta g))) = len (map_option length (sequence_lengths (g_meta g)))
               \<and> len (map_option length (sequence_lengths (g_meta g))) = n) then Inl ValueError
         else if \<not> distinct ids \<or> set ids \<inter> set seen \<noteq> {} then Inl ValueError
         else bindR (check_groups n (seen @ ids) gs) (\<lambda>r. Inr (g # r)))"

definition truncate_groups :: "int \<Rightarrow> 'td saved_group list \<Rightarrow> 'td saved_group list res" where
  "truncate_groups mx gs =
     (if int (length gs) > mx
      then if list_ex (\<lambda>g. g_target g \<noteq> None) gs then Inl ValueError
           else (let cut = nat (int (length gs) - mx);
                     order = sort_key (\<lambda>i. (g_start (gs ! i), i)) [0..<length gs]
                 in Inr (pick gs (sort (drop cut order))))
      else Inr gs)"

definition append_group :: "tq_buffer \<Rightarrow> 'td saved_group \<Rightarrow> tq_buffer" where
  "append_group b g = b\<lparr>meta_list := meta_list b @ [Some (g_meta g)],
     start_weight_list := start_weight_list b @ [g_start g], end_weight_list := end_weight_list b @ [g_end g],
     target_step_list := target_step_list b @ [g_target g], ready_list := ready_list b @ [True],
     group_ids := group_ids b @ [g_group g]\<rparr>"

fun put_groups ::
  "('dp \<Rightarrow> string list \<Rightarrow> 'td \<Rightarrow> tag list \<Rightarrow> 'dp \<times> unit res) \<Rightarrow> 'td saved_group list \<Rightarrow> tq_buffer \<Rightarrow> 'dp \<Rightarrow>
   (tq_buffer \<times> 'dp) \<times> unit res" where
  "put_groups put [] b d = ((b, d), Inr ())"
| "put_groups put (g # gs) b d =
     (case put d (sample_ids (g_meta g)) (g_data g) (case tags (g_meta g) of None \<Rightarrow> [] | Some ts \<Rightarrow> ts) of
        (d', Inl e) \<Rightarrow> ((b, d'), Inl e)
      | (d', Inr _) \<Rightarrow> put_groups put gs (append_group b g) d')"

definition tq_load_state_dict ::
  "('dp \<Rightarrow> string list \<Rightarrow> 'td \<Rightarrow> tag list \<Rightarrow> 'dp \<times> unit res) \<Rightarrow> tq_buffer \<Rightarrow> 'dp \<Rightarrow> 'td saved_tq \<Rightarrow>
   int \<Rightarrow> string \<Rightarrow> int \<Rightarrow> (tq_buffer \<times> 'dp) \<times> nat res" where
  "tq_load_state_dict put b d s mx pid n =
     (case (sv_partition s, sv_capacity s, sv_groups s) of
        (Some p, Some c, Some gs) \<Rightarrow>
          (if p \<noteq> pid then ((b, d), Inl ValueError)
           else case bindR (check_groups n [] gs) (truncate_groups mx) of
                  Inl e \<Rightarrow> ((b, d), Inl e)
                | Inr kept \<Rightarrow> (case put_groups put kept b d of (bd, r) \<Rightarrow> (bd, bindR r (\<lambda>_. Inr (length kept)))))
      | _ \<Rightarrow> ((b, d), Inl ValueError))"

section \<open>Sample ids never collide\<close>

lemma sample_id_inj: "sample_id g i = sample_id h j \<longleftrightarrow> g = h \<and> i = j"
proof
  assume e: "sample_id g i = sample_id h j"
  have split: "takeWhile (\<lambda>c. c \<noteq> CHR ''g'') (rev (sample_id x k)) = rev (decimal k)" for x k
    by (simp add: sample_id_def takeWhile_append2 no_g_in_decimal takeWhile_tail) (metis no_g_in_decimal)
  from e split[of g i] split[of h j] have "decimal i = decimal j" by simp
  with e show "g = h \<and> i = j" by (auto simp: sample_id_def dest: decimal_inj)
qed simp
section \<open>The buffer as a list of slots\<close>

record slot =
  sl_meta :: "meta option"
  sl_start :: int
  sl_end :: int
  sl_target :: "int option"
  sl_ready :: bool
  sl_group :: string

definition slot_at :: "tq_buffer \<Rightarrow> nat \<Rightarrow> slot" where
  "slot_at b i = \<lparr>sl_meta = meta_list b ! i, sl_start = start_weight_list b ! i, sl_end = end_weight_list b ! i,
     sl_target = target_step_list b ! i, sl_ready = ready_list b ! i, sl_group = group_ids b ! i\<rparr>"

definition slots :: "tq_buffer \<Rightarrow> slot list" where
  "slots b = map (slot_at b) [0..<tq_size b]"

definition tq_parallel :: "tq_buffer \<Rightarrow> bool" where
  "tq_parallel b \<longleftrightarrow> list_all (\<lambda>n. n = tq_size b) [length (start_weight_list b), length (end_weight_list b),
     length (target_step_list b), length (ready_list b), length (group_ids b)]"

lemma tq_parallelD:
  assumes "tq_parallel b"
  shows "length (start_weight_list b) = length (meta_list b)"
    "length (end_weight_list b) = length (meta_list b)" "length (target_step_list b) = length (meta_list b)"
    "length (ready_list b) = length (meta_list b)" "length (group_ids b) = length (meta_list b)"
  using assms by (simp_all add: tq_parallel_def tq_size_def)

lemma length_slots [simp]: "length (slots b) = tq_size b"
  by (simp add: slots_def)

lemma nth_slots [simp]: "i < tq_size b \<Longrightarrow> slots b ! i = slot_at b i"
  by (simp add: slots_def)

lemma slot_at_simps [simp]:
  "sl_meta (slot_at b i) = meta_list b ! i" "sl_start (slot_at b i) = start_weight_list b ! i"
  "sl_end (slot_at b i) = end_weight_list b ! i" "sl_target (slot_at b i) = target_step_list b ! i"
  "sl_ready (slot_at b i) = ready_list b ! i" "sl_group (slot_at b i) = group_ids b ! i"
  by (simp_all add: slot_at_def)

lemma columns_of_slots:
  assumes "tq_parallel b"
  shows "meta_list b = map sl_meta (slots b)" "start_weight_list b = map sl_start (slots b)"
    "end_weight_list b = map sl_end (slots b)" "target_step_list b = map sl_target (slots b)"
    "ready_list b = map sl_ready (slots b)" "group_ids b = map sl_group (slots b)"
  using tq_parallelD[OF assms] by (auto simp: tq_size_def intro!: nth_equalityI)

lemma slots_cong:
  assumes "tq_parallel b" and "tq_size b = length xs" and "\<And>i. i < length xs \<Longrightarrow> slot_at b i = xs ! i"
  shows "slots b = xs"
  using assms by (auto intro!: nth_equalityI)

lemma slots_new [simp]: "slots (new_tq pid r) = []" "tq_parallel (new_tq pid r)"
  by (simp_all add: slots_def new_tq_def tq_size_def tq_parallel_def)

lemma slots_reserve:
  assumes "tq_parallel b"
  shows "slots (reserve b w t g) = slots b @ [\<lparr>sl_meta = None, sl_start = w, sl_end = -1, sl_target = t,
      sl_ready = False, sl_group = g\<rparr>]" "tq_parallel (reserve b w t g)"
proof -
  note l = tq_parallelD[OF assms]
  show p: "tq_parallel (reserve b w t g)"
    using l by (simp add: tq_parallel_def reserve_def tq_size_def)
  show "slots (reserve b w t g) = slots b @ [\<lparr>sl_meta = None, sl_start = w, sl_end = -1, sl_target = t,
      sl_ready = False, sl_group = g\<rparr>]"
    by (rule slots_cong[OF p]) (use l in \<open>auto simp: reserve_def tq_size_def slot_at_def nth_append less_Suc_eq\<close>)
qed

lemma slots_append_group:
  assumes "tq_parallel b"
  shows "slots (append_group b g) = slots b @ [\<lparr>sl_meta = Some (g_meta g), sl_start = g_start g, sl_end = g_end g,
      sl_target = g_target g, sl_ready = True, sl_group = g_group g\<rparr>]" "tq_parallel (append_group b g)"
proof -
  note l = tq_parallelD[OF assms]
  show p: "tq_parallel (append_group b g)"
    using l by (simp add: tq_parallel_def append_group_def tq_size_def)
  show "slots (append_group b g) = slots b @ [\<lparr>sl_meta = Some (g_meta g), sl_start = g_start g, sl_end = g_end g,
      sl_target = g_target g, sl_ready = True, sl_group = g_group g\<rparr>]"
    by (rule slots_cong[OF p]) (use l in \<open>auto simp: append_group_def tq_size_def slot_at_def nth_append less_Suc_eq\<close>)
qed

lemma slots_finish:
  assumes "tq_parallel b" and "finish_commit b g m e = Inr b'"
  obtains i where "i < tq_size b" "sl_group (slots b ! i) = g" "tq_parallel b'"
    "slots b' = (slots b)[i := (slots b ! i)\<lparr>sl_meta := Some m, sl_end := e, sl_ready := True\<rparr>]"
proof -
  note l = tq_parallelD[OF assms(1)]
  from assms(2) obtain i where i: "first_ix (\<lambda>h. h = g) (group_ids b) = Some i"
    and b': "b' = b\<lparr>meta_list := (meta_list b)[i := Some m], end_weight_list := (end_weight_list b)[i := e],
      ready_list := (ready_list b)[i := True]\<rparr>"
    by (auto simp: finish_commit_def split: option.splits)
  from first_ix_Some[OF i] l have li: "i < tq_size b" "group_ids b ! i = g" by (auto simp: tq_size_def)
  have p: "tq_parallel b'" using l by (simp add: b' tq_parallel_def tq_size_def)
  have "slots b' = (slots b)[i := (slots b ! i)\<lparr>sl_meta := Some m, sl_end := e, sl_ready := True\<rparr>]"
    by (rule slots_cong[OF p]) (use l li in \<open>auto simp: b' tq_size_def slot_at_def nth_list_update\<close>)
  with that li p show ?thesis by simp
qed

lemma finish_fails: "finish_commit b g m e = Inl err \<longleftrightarrow> err = ValueError \<and> g \<notin> set (group_ids b)"
proof (cases "first_ix (\<lambda>h. h = g) (group_ids b)")
  case None
  then have "g \<notin> set (group_ids b)" by (auto simp: first_ix_None)
  with None show ?thesis by (auto simp: finish_commit_def)
next
  case (Some i)
  then have "g \<in> set (group_ids b)" using first_ix_Some[OF Some] by (metis nth_mem)
  with Some show ?thesis by (simp add: finish_commit_def)
qed

lemma groups_of_slots: "tq_parallel b \<Longrightarrow> set (group_ids b) = sl_group ` set (slots b)"
  using columns_of_slots(6)[of b] by (metis list.set_map)

lemma nth_del_at:
  "i < length xs \<Longrightarrow> j < length xs - 1 \<Longrightarrow> del_at i xs ! j = (if j < i then xs ! j else xs ! Suc j)"
  by (auto simp: del_at_def nth_append)

lemma slots_del:
  assumes "tq_parallel b" and "i < tq_size b"
  shows "slots (del_slot i b) = del_at i (slots b)" "tq_parallel (del_slot i b)"
proof -
  note l = tq_parallelD[OF assms(1)]
  show p: "tq_parallel (del_slot i b)"
    using l assms(2) by (simp add: tq_parallel_def del_slot_def tq_size_def)
  have sz: "tq_size (del_slot i b) = tq_size b - 1"
    using l assms(2) by (simp add: del_slot_def tq_size_def)
  show "slots (del_slot i b) = del_at i (slots b)"
  proof (rule slots_cong[OF p])
    show "tq_size (del_slot i b) = length (del_at i (slots b))" using sz assms(2) by simp
    fix j assume "j < length (del_at i (slots b))"
    then have j: "j < tq_size b - 1" using assms(2) by simp
    then have "slot_at (del_slot i b) j = (if j < i then slot_at b j else slot_at b (Suc j))"
      using l assms(2) by (simp add: slot_at_def del_slot_def nth_del_at tq_size_def)
    with j assms(2) show "slot_at (del_slot i b) j = del_at i (slots b) ! j"
      by (simp add: nth_del_at)
  qed
qed

definition slot_ids :: "slot \<Rightarrow> string list" where
  "slot_ids s = (case sl_meta s of None \<Rightarrow> [] | Some m \<Rightarrow> sample_ids m)"

lemma drop_slots_spec:
  "sorted_wrt (>) ds \<Longrightarrow> \<forall>d\<in>set ds. d < tq_size b \<Longrightarrow> tq_parallel b \<Longrightarrow>
     \<exists>b'. drop_slots ds b ids = (b', Inr (ids @ concat (map slot_ids (pick (slots b) ds))))
       \<and> tq_parallel b' \<and> slots b' = foldl (\<lambda>ys i. del_at i ys) (slots b) ds \<and> part b' = part b"
proof (induction ds arbitrary: b ids)
  case (Cons d ds)
  have d: "d < tq_size b" using Cons.prems(2) by simp
  note del = slots_del[OF Cons.prems(3) d]
  have sz: "tq_size (del_slot d b) = tq_size b - 1" using del(1) d by (metis length_del_at length_slots)
  have lt: "\<forall>j\<in>set ds. j < d" using Cons.prems(1) by simp
  have "slots (del_slot d b) ! j = slots b ! j" if "j \<in> set ds" for j
    using that lt d by (auto simp: del(1) nth_del_at)
  then have same: "pick (slots (del_slot d b)) ds = pick (slots b) ds"
    by (simp add: pick_def)
  have "\<forall>j\<in>set ds. j < tq_size (del_slot d b)" using lt d sz by fastforce
  moreover have "sorted_wrt (>) ds" using Cons.prems(1) by simp
  ultimately obtain b' where b': "drop_slots ds (del_slot d b) (ids @ slot_ids (slots b ! d))
      = (b', Inr ((ids @ slot_ids (slots b ! d)) @ concat (map slot_ids (pick (slots b) ds))))"
    "tq_parallel b'" "slots b' = foldl (\<lambda>ys i. del_at i ys) (slots (del_slot d b)) ds" "part b' = part (del_slot d b)"
    using Cons.IH[of "del_slot d b" "ids @ slot_ids (slots b ! d)"] del(2) same by auto
  have "drop_slots (d # ds) b ids = drop_slots ds (del_slot d b) (ids @ slot_ids (slots b ! d))"
    using d by (simp add: tq_size_def slot_ids_def split: option.splits)
  with b' del show ?case by (simp add: del_slot_def)
qed simp

lemma sorted_desc:
  fixes xs :: "nat list"
  assumes "distinct xs"
  shows "sorted_wrt (>) (rev (sort xs))"
  using assms by (simp add: sorted_wrt_rev strict_sorted_iff)

lemma remove_slots_spec:
  assumes "tq_parallel b" and "distinct idxs" and "\<forall>i\<in>set idxs. i < tq_size b"
  obtains b' ids where "remove_slots b idxs = (b', Inr ids)" "tq_parallel b'" "part b' = part b"
    "slots b' = pick (slots b) (others idxs (tq_size b))"
    "set ids = (\<Union>s\<in>set (pick (slots b) idxs). set (slot_ids s))"
proof -
  let ?d = "rev (sort idxs)"
  have bnd: "\<forall>d\<in>set ?d. d < tq_size b" using assms(3) by simp
  obtain b' where b': "drop_slots ?d b [] = (b', Inr (concat (map slot_ids (pick (slots b) ?d))))"
    "tq_parallel b'" "slots b' = foldl (\<lambda>ys i. del_at i ys) (slots b) ?d" "part b' = part b"
    using drop_slots_spec[OF sorted_desc[OF assms(2)] bnd assms(1), of "[]"] by auto
  have "remove_slots b idxs = (b', Inr (concat (map slot_ids (pick (slots b) ?d))))"
  proof (cases ?d)
    case Nil
    with b'(1) show ?thesis by (simp add: remove_slots_def del: rev_is_Nil_conv)
  next
    case (Cons i js)
    with b'(1) bnd show ?thesis by (simp add: remove_slots_def tq_size_def)
  qed
  moreover have "slots b' = pick (slots b) (others idxs (tq_size b))"
    using pop_all_pick[OF assms(2), of "slots b"] assms(3) b'(3) by (simp add: pop_all_def)
  ultimately show ?thesis
    using that b'(2,4) by (auto simp: pick_def)
qed

lemma remove_False:
  assumes "tq_parallel b" and "distinct ixs" and "\<forall>i\<in>set ixs. i < tq_size b"
  obtains b' where "remove clear b d ixs False = ((b', d), Inr (length ixs))" "tq_parallel b'"
    "slots b' = pick (slots b) (others ixs (tq_size b))"
proof (cases "ixs = []")
  case True
  have "slots b = pick (slots b) (others ixs (tq_size b))" using True pick_upt_all[of "slots b"] by simp
  with that[of b] assms(1) True show ?thesis by (simp add: remove_def)
next
  case False
  obtain b' ids where "remove_slots b ixs = (b', Inr ids)" "tq_parallel b'"
    "slots b' = pick (slots b) (others ixs (tq_size b))"
    using remove_slots_spec[OF assms] by metis
  with that False show ?thesis by (simp add: remove_def)
qed

lemma remove_group_slots:
  assumes "tq_parallel b" and "distinct (group_ids b)"
  obtains b' r where "remove_group clear b d g False = ((b', d), r)" "tq_parallel b'" "distinct (group_ids b')"
    "slots b' = filter (\<lambda>x. sl_group x \<noteq> g) (slots b)"
proof (cases "first_ix (\<lambda>h. h = g) (group_ids b)")
  case None
  then have "g \<notin> set (group_ids b)" by (auto simp: first_ix_None)
  then have "filter (\<lambda>x. sl_group x \<noteq> g) (slots b) = slots b"
    using groups_of_slots[OF assms(1)] by (intro filter_True) auto
  with None assms that show ?thesis by (simp add: remove_group_def)
next
  case (Some i)
  note l = tq_parallelD[OF assms(1)]
  have i: "i < tq_size b" "group_ids b ! i = g" using first_ix_Some[OF Some] l by (simp_all add: tq_size_def)
  obtain b' where b': "remove clear b d [i] False = ((b', d), Inr (length [i]))" "tq_parallel b'"
    "slots b' = pick (slots b) (others [i] (tq_size b))"
    by (rule remove_False[OF assms(1), of "[i]"]) (use i(1) in simp_all)
  have "ix_filter (\<lambda>x. sl_group x = g) (slots b) = [i]"
  proof (rule sorted_distinct_set_unique)
    have "j = i" if "j < tq_size b" "group_ids b ! j = g" for j
      using assms(2) i that l(5) nth_eq_iff_index_eq[of "group_ids b" j i] by (simp add: tq_size_def)
    then have "j < tq_size b \<and> group_ids b ! j = g \<longleftrightarrow> j = i" for j using i by blast
    moreover have "j \<in> set (ix_filter (\<lambda>x. sl_group x = g) (slots b)) \<longleftrightarrow> j < tq_size b \<and> group_ids b ! j = g" for j
      by auto
    ultimately show "set (ix_filter (\<lambda>x. sl_group x = g) (slots b)) = set [i]"
      by (intro set_eqI) (simp only: list.set singleton_iff)
  qed simp_all
  then have sl: "slots b' = filter (\<lambda>x. sl_group x \<noteq> g) (slots b)"
    using b'(3) pick_others_filter[of "slots b" "\<lambda>x. sl_group x = g"] by simp
  have "distinct (group_ids b')"
    using assms(2) columns_of_slots(6)[OF assms(1)] columns_of_slots(6)[OF b'(2)] by (simp add: sl distinct_map_filter)
  with Some b' sl that show ?thesis by (simp add: remove_group_def)
qed

lemma commit_slots:
  assumes "tq_parallel b" and "commit put clear enrich b d g tb start stop = ((b', d'), r)"
  shows "case r of
      Inl _ \<Rightarrow> b' = b
    | Inr m \<Rightarrow> tq_parallel b' \<and> group_ids b' = group_ids b \<and>
        (\<exists>x\<in>set (slots b'). sl_group x = g \<and> sl_ready x \<and> sl_meta x = Some m)"
proof (cases r)
  case (Inl e)
  with assms(2) show ?thesis
    by (auto simp: commit_def Let_def split: sum.splits prod.splits)
next
  case (Inr m)
  then have "finish_commit b g m stop = Inr b'"
    using assms(2) by (auto simp: commit_def Let_def bindR_Inr split: sum.splits prod.splits)
  moreover from slots_finish[OF assms(1) this] obtain i where i: "i < tq_size b" "sl_group (slots b ! i) = g" "tq_parallel b'"
    "slots b' = (slots b)[i := (slots b ! i)\<lparr>sl_meta := Some m, sl_end := stop, sl_ready := True\<rparr>]" .
  ultimately have "group_ids b' = group_ids b" by (auto simp: finish_commit_def split: option.splits)
  moreover have "(slots b ! i)\<lparr>sl_meta := Some m, sl_end := stop, sl_ready := True\<rparr> \<in> set (slots b')"
    unfolding i(4) using i(1) by (simp add: set_update_memI)
  ultimately show ?thesis using i(2,3) Inr by (simp, intro bexI) auto
qed

lemma slots_promote:
  assumes "tq_parallel b" and "i < tq_size b"
  shows "slots (b\<lparr>target_step_list := (target_step_list b)[i := Some t]\<rparr>) = (slots b)[i := (slots b ! i)\<lparr>sl_target := Some t\<rparr>]"
    "tq_parallel (b\<lparr>target_step_list := (target_step_list b)[i := Some t]\<rparr>)"
proof -
  let ?b = "b\<lparr>target_step_list := (target_step_list b)[i := Some t]\<rparr>"
  note l = tq_parallelD[OF assms(1)]
  show p: "tq_parallel ?b" using l by (simp add: tq_parallel_def tq_size_def)
  show "slots ?b = (slots b)[i := (slots b ! i)\<lparr>sl_target := Some t\<rparr>]"
    by (rule slots_cong[OF p]) (use l assms(2) in \<open>auto simp: tq_size_def slot_at_def nth_list_update\<close>)
qed

lemma lender_scan_spec:
  assumes "lender_scan to k xs best = Some (i, t)"
  shows "best = Some (i, t) \<or> (k \<le> i \<and> i < k + length xs \<and> xs ! (i - k) = (Some t, True) \<and> to < t)"
  using assms
proof (induction to k xs best rule: lender_scan.induct)
  case (2 to k target ready xs best)
  let ?best = "case target of None \<Rightarrow> best | Some t \<Rightarrow> if t \<le> to \<or> \<not> ready then best
      else (case best of None \<Rightarrow> Some (k, t) | Some (j, u) \<Rightarrow> if t > u then Some (k, t) else best)"
  have "?best = Some (i, t) \<or> (Suc k \<le> i \<and> i < Suc k + length xs \<and> xs ! (i - Suc k) = (Some t, True) \<and> to < t)"
    using 2 by simp
  moreover have "best = Some (i, t) \<or> (i = k \<and> target = Some t \<and> ready \<and> to < t)" if "?best = Some (i, t)"
    using that by (auto split: option.splits if_splits prod.splits)
  ultimately show ?case by (auto simp: nth_Cons')
qed simp

text \<open>No later step has a ready slot that is further away than the lender, or equally far and earlier.\<close>

lemma lender_scan_best:
  assumes "lender_scan to k xs best = r"
  shows "(case best of None \<Rightarrow> True | Some (j, u) \<Rightarrow> \<exists>i t. r = Some (i, t) \<and> u \<le> t)
    \<and> (\<forall>j < length xs. case xs ! j of (Some u, True) \<Rightarrow> u \<le> to \<or> (\<exists>i t. r = Some (i, t) \<and> u \<le> t) | _ \<Rightarrow> True)"
  using assms
proof (induction to k xs best rule: lender_scan.induct)
  case (1 to i best)
  then show ?case by (auto split: option.splits)
next
  case (2 to k target ready xs best)
  let ?best = "case target of None \<Rightarrow> best | Some t \<Rightarrow> if t \<le> to \<or> \<not> ready then best
      else (case best of None \<Rightarrow> Some (k, t) | Some (j, u) \<Rightarrow> if t > u then Some (k, t) else best)"
  have IH: "(case ?best of None \<Rightarrow> True | Some (j, u) \<Rightarrow> \<exists>i t. r = Some (i, t) \<and> u \<le> t)"
    "\<forall>j < length xs. case xs ! j of (Some u, True) \<Rightarrow> u \<le> to \<or> (\<exists>i t. r = Some (i, t) \<and> u \<le> t) | _ \<Rightarrow> True"
    using 2 by simp_all
  have b: "case best of None \<Rightarrow> True | Some (j, u) \<Rightarrow> \<exists>i t. r = Some (i, t) \<and> u \<le> t"
    using IH(1) by (cases best) (auto split: option.splits if_splits)
  have h: "case (target, ready) of (Some u, True) \<Rightarrow> u \<le> to \<or> (\<exists>i t. r = Some (i, t) \<and> u \<le> t) | _ \<Rightarrow> True"
    using IH(1) by (cases best) (auto split: option.splits if_splits bool.splits)
  show ?case
    using b h IH(2) by (auto simp: nth_Cons split: nat.splits)
qed

section \<open>The buffer among concurrent commits\<close>

text \<open>
  What the buffer needs of a data plane, with \<open>keys\<close> the ids of the rows it holds: a put adds only
  its own rows, all of them when it succeeds; a clear removes at most its own rows, exactly them
  when it succeeds.
\<close>

locale row_plane =
  fixes put :: "'dp \<Rightarrow> string list \<Rightarrow> 'td \<Rightarrow> tag list \<Rightarrow> 'dp \<times> unit res"
    and clear :: "'dp \<Rightarrow> string list \<Rightarrow> 'dp \<times> unit res"
    and keys :: "'dp \<Rightarrow> string set"
  assumes put_grows: "put d ids td ts = (d', r) \<Longrightarrow> keys d \<subseteq> keys d' \<and> keys d' \<subseteq> keys d \<union> set ids"
    and put_done: "put d ids td ts = (d', Inr u) \<Longrightarrow> set ids \<subseteq> keys d'"
    and clear_shrinks: "clear d ids = (d', r) \<Longrightarrow> keys d - set ids \<subseteq> keys d' \<and> keys d' \<subseteq> keys d"
    and clear_done: "clear d ids = (d', Inr u) \<Longrightarrow> keys d' = keys d - set ids"
begin
end

text \<open>
  The buffer, the data plane and the operations in flight.  \<open>handed\<close>, \<open>stuck\<close>, \<open>reserved\<close> and
  \<open>started\<close> record the history: rows given to the trainer, rows whose rollback failed, group ids
  reserved and group ids whose commit has begun.
\<close>

record ('dp, 'td) tq_system =
  buf :: tq_buffer
  plane :: 'dp
  flights :: "(string \<times> 'td flight) list"
  clearing :: "string list list"
  handed :: "string list"
  stuck :: "string list"
  reserved :: "string list"
  started :: "string list"

datatype 'td tq_event =
    Reserve int "int option" string
  | Begin string "'td train_batch" int int
  | Put string
  | Enrich string "meta res"
  | Finish string
  | Rollback string
  | Cancel string bool
  | Remove "nat list" bool
  | Cleared
  | Promote int

text \<open>
  One step, \<open>None\<close> when it is not enabled.  A rollout attempt reserves a fresh group id and commits
  it once, \<open>remove\<close> is called with distinct indices of the buffer, and the post-write stage keeps
  the sample ids, as in \<open>generate_and_push\<close>, the samplers and the teacher stage.  A cancelled
  write may have landed.
\<close>

definition set_phase :: "('dp, 'td) tq_system \<Rightarrow> string \<Rightarrow> 'td flight \<Rightarrow> phase \<Rightarrow> ('dp, 'td) tq_system" where
  "set_phase s g f ph = s\<lparr>flights := AList.update g (f\<lparr>f_phase := ph\<rparr>) (flights s)\<rparr>"

fun tq_step ::
  "('dp \<Rightarrow> string list \<Rightarrow> 'td \<Rightarrow> tag list \<Rightarrow> 'dp \<times> unit res) \<Rightarrow> ('dp \<Rightarrow> string list \<Rightarrow> 'dp \<times> unit res) \<Rightarrow>
   'td tq_event \<Rightarrow> ('dp, 'td) tq_system \<Rightarrow> ('dp, 'td) tq_system option" where
  "tq_step put clear (Reserve w t g) s =
     (if g \<in> set (reserved s) then None
      else Some (s\<lparr>buf := reserve (buf s) w t g, reserved := g # reserved s\<rparr>))"
| "tq_step put clear (Begin g tb start stop) s =
     (if g \<notin> set (reserved s) \<or> g \<in> set (started s) then None
      else case begin_commit (buf s) g tb start stop of
        Inl e \<Rightarrow> Some (s\<lparr>started := g # started s\<rparr>)
      | Inr f \<Rightarrow> Some (s\<lparr>started := g # started s, flights := AList.update g f (flights s)\<rparr>))"
| "tq_step put clear (Put g) s =
     (case map_of (flights s) g of
        None \<Rightarrow> None
      | Some f \<Rightarrow>
          if f_phase f \<noteq> Putting then None
          else (case put (plane s) (f_ids f) (f_fields f) (f_tags f) of (d', r) \<Rightarrow>
            Some (set_phase (s\<lparr>plane := d'\<rparr>) g f
              (case bindR r (\<lambda>_. written_meta (buf s) f) of Inl e \<Rightarrow> Failing e | Inr m \<Rightarrow> Written m))))"
| "tq_step put clear (Enrich g r) s =
     (case map_of (flights s) g of
        None \<Rightarrow> None
      | Some f \<Rightarrow>
          (case (f_phase f, r) of
             (Written m, Inl e) \<Rightarrow> Some (set_phase s g f (Failing PostWriteEnrichmentError))
           | (Written m, Inr m') \<Rightarrow> if sample_ids m' = sample_ids m then Some (set_phase s g f (Written m')) else None
           | _ \<Rightarrow> None))"
| "tq_step put clear (Finish g) s =
     (case map_of (flights s) g of
        None \<Rightarrow> None
      | Some f \<Rightarrow>
          (case f_phase f of
             Written m \<Rightarrow>
               (case finish_commit (buf s) g m (f_end f) of
                  Inl e \<Rightarrow> Some (set_phase s g f (Failing e))
                | Inr b' \<Rightarrow> Some (s\<lparr>buf := b', flights := AList.delete g (flights s)\<rparr>))
           | _ \<Rightarrow> None))"
| "tq_step put clear (Rollback g) s =
     (case map_of (flights s) g of
        None \<Rightarrow> None
      | Some f \<Rightarrow>
          (case f_phase f of
             Failing e \<Rightarrow>
               (case clear (plane s) (f_ids f) of
                  (d', Inr _) \<Rightarrow> Some (s\<lparr>plane := d', flights := AList.delete g (flights s)\<rparr>)
                | (d', Inl _) \<Rightarrow> Some (s\<lparr>plane := d', flights := AList.delete g (flights s), stuck := stuck s @ f_ids f\<rparr>))
           | _ \<Rightarrow> None))"
| "tq_step put clear (Cancel g landed) s =
     (case map_of (flights s) g of
        None \<Rightarrow> None
      | Some f \<Rightarrow>
          (case f_phase f of
             Putting \<Rightarrow>
               Some (set_phase (if landed then s\<lparr>plane := fst (put (plane s) (f_ids f) (f_fields f) (f_tags f))\<rparr> else s)
                 g f (Failing CancelledError))
           | Written m \<Rightarrow> Some (set_phase s g f (Failing CancelledError))
           | Failing e \<Rightarrow>
               Some (s\<lparr>plane := (if landed then fst (clear (plane s) (f_ids f)) else plane s),
                       flights := AList.delete g (flights s), stuck := stuck s @ f_ids f\<rparr>)))"
| "tq_step put clear (Remove idxs in_dp) s =
     (if \<not> (distinct idxs \<and> list_all (\<lambda>i. i < tq_size (buf s)) idxs) then None
      else case remove_slots (buf s) idxs of
        (b', Inl e) \<Rightarrow> Some (s\<lparr>buf := b'\<rparr>)
      | (b', Inr ids) \<Rightarrow>
          Some (if in_dp then s\<lparr>buf := b', clearing := clearing s @ [ids]\<rparr>
                else s\<lparr>buf := b', handed := handed s @ ids\<rparr>))"
| "tq_step put clear Cleared s =
     (case clearing s of
        [] \<Rightarrow> None
      | ids # rest \<Rightarrow>
          (case clear (plane s) ids of
             (d', Inr _) \<Rightarrow> Some (s\<lparr>plane := d', clearing := rest\<rparr>)
           | (d', Inl _) \<Rightarrow> Some (s\<lparr>plane := d', clearing := rest, stuck := stuck s @ ids\<rparr>)))"
| "tq_step put clear (Promote t) s = Some (s\<lparr>buf := fst (promote_ready_group (buf s) t)\<rparr>)"

definition tq_start :: "string \<Rightarrow> bool \<Rightarrow> 'dp \<Rightarrow> ('dp, 'td) tq_system" where
  "tq_start pid routed d = \<lparr>buf = new_tq pid routed, plane = d, flights = [], clearing = [], handed = [],
     stuck = [], reserved = [], started = []\<rparr>"

inductive tq_reach for put clear s0 where
  start: "tq_reach put clear s0 s0"
| step: "tq_reach put clear s0 s \<Longrightarrow> tq_step put clear e s = Some s' \<Longrightarrow> tq_reach put clear s0 s'"

text \<open>The invariants: slots and groups, flights, rows about to be cleared, and who accounts for a row.\<close>

definition live_groups :: "('dp, 'td) tq_system \<Rightarrow> string set" where
  "live_groups s = sl_group ` set (slots (buf s))"

definition inv_groups :: "('dp, 'td) tq_system \<Rightarrow> bool" where
  "inv_groups s \<longleftrightarrow> tq_parallel (buf s) \<and> distinct (map sl_group (slots (buf s)))
     \<and> live_groups s \<subseteq> set (reserved s) \<and> set (started s) \<subseteq> set (reserved s)
     \<and> (\<forall>g f. map_of (flights s) g = Some f \<longrightarrow> g \<in> set (started s))"

definition inv_slots :: "('dp \<Rightarrow> string set) \<Rightarrow> ('dp, 'td) tq_system \<Rightarrow> bool" where
  "inv_slots keys s \<longleftrightarrow> (\<forall>x\<in>set (slots (buf s)). sl_ready x = (sl_meta x \<noteq> None)
     \<and> (sl_meta x \<noteq> None \<longrightarrow> sl_group x \<in> set (started s) \<and> map_of (flights s) (sl_group x) = None)
     \<and> set (slot_ids x) \<subseteq> range (sample_id (sl_group x)) \<inter> keys (plane s))"

definition inv_flights :: "('dp \<Rightarrow> string set) \<Rightarrow> ('dp, 'td) tq_system \<Rightarrow> bool" where
  "inv_flights keys s \<longleftrightarrow> (\<forall>g f. map_of (flights s) g = Some f \<longrightarrow> set (f_ids f) \<subseteq> range (sample_id g)
     \<and> (\<forall>m. f_phase f = Written m \<longrightarrow> sample_ids m = f_ids f \<and> set (f_ids f) \<subseteq> keys (plane s)))"

definition inv_clearing :: "('dp, 'td) tq_system \<Rightarrow> bool" where
  "inv_clearing s \<longleftrightarrow> (\<forall>ids\<in>set (clearing s). \<forall>i\<in>set ids. \<exists>g. i \<in> range (sample_id g) \<and> g \<in> set (started s)
     \<and> map_of (flights s) g = None \<and> g \<notin> live_groups s)"

definition flight_rows :: "('dp, 'td) tq_system \<Rightarrow> string set" where
  "flight_rows s = {i. \<exists>g f. map_of (flights s) g = Some f \<and> i \<in> set (f_ids f)}"

definition accounted :: "('dp, 'td) tq_system \<Rightarrow> string set" where
  "accounted s = (\<Union>x\<in>set (slots (buf s)). set (slot_ids x)) \<union> flight_rows s \<union> (\<Union>ids\<in>set (clearing s). set ids) \<union> set (handed s) \<union> set (stuck s)"

definition inv_cover :: "('dp \<Rightarrow> string set) \<Rightarrow> ('dp, 'td) tq_system \<Rightarrow> bool" where
  "inv_cover keys s \<longleftrightarrow> keys (plane s) \<subseteq> accounted s"

lemmas tq_inv_defs = inv_groups_def inv_slots_def inv_flights_def inv_clearing_def inv_cover_def accounted_def live_groups_def

definition tq_inv :: "('dp \<Rightarrow> string set) \<Rightarrow> ('dp, 'td) tq_system \<Rightarrow> bool" where
  "tq_inv keys s \<longleftrightarrow> inv_groups s \<and> inv_slots keys s \<and> inv_flights keys s \<and> inv_clearing s \<and> inv_cover keys s"

section \<open>Preservation\<close>

lemma range_sample_id: "i \<in> range (sample_id g) \<Longrightarrow> i \<in> range (sample_id h) \<Longrightarrow> g = h"
  by (auto simp: sample_id_inj)

text \<open>Nobody relies on row \<open>i\<close>: its group has neither a committed slot nor a written commit in flight.\<close>

definition free_row :: "('dp, 'td) tq_system \<Rightarrow> string \<Rightarrow> bool" where
  "free_row s i \<longleftrightarrow> (\<exists>g. i \<in> range (sample_id g) \<and> (\<forall>x\<in>set (slots (buf s)). sl_meta x \<noteq> None \<longrightarrow> sl_group x \<noteq> g)
     \<and> (\<forall>f m. map_of (flights s) g = Some f \<longrightarrow> f_phase f \<noteq> Written m))"

lemma slot_ids_None [simp]: "sl_meta x = None \<Longrightarrow> slot_ids x = []"
  by (simp add: slot_ids_def)

lemma clearing_mono:
  assumes "inv_clearing s" and "set (clearing s') \<subseteq> set (clearing s)" and "set (started s) \<subseteq> set (started s')"
    and "\<And>h. h \<in> set (started s) \<Longrightarrow> map_of (flights s) h = None \<Longrightarrow> map_of (flights s') h = None"
    and "\<And>h. h \<in> set (started s) \<Longrightarrow> h \<notin> live_groups s \<Longrightarrow> h \<notin> live_groups s'"
  shows "inv_clearing s'"
  unfolding inv_clearing_def
proof (intro ballI)
  fix ids i assume "ids \<in> set (clearing s')" "i \<in> set ids"
  then obtain h where h: "i \<in> range (sample_id h)" "h \<in> set (started s)" "map_of (flights s) h = None" "h \<notin> live_groups s"
    using assms(1,2) unfolding inv_clearing_def by blast
  then show "\<exists>h. i \<in> range (sample_id h) \<and> h \<in> set (started s') \<and> map_of (flights s') h = None \<and> h \<notin> live_groups s'"
    using assms(3-5) by (intro exI[of _ h]) auto
qed

lemma set_phase_inv:
  assumes "tq_inv keys s" and "map_of (flights s) g = Some f"
    and "\<And>m. ph = Written m \<Longrightarrow> sample_ids m = f_ids f \<and> set (f_ids f) \<subseteq> keys (plane s)"
  shows "tq_inv keys (set_phase s g f ph)"
proof -
  let ?s = "set_phase s g f ph"
  have same: "buf ?s = buf s" "plane ?s = plane s" "clearing ?s = clearing s" "handed ?s = handed s"
    "stuck ?s = stuck s" "reserved ?s = reserved s" "started ?s = started s"
    and fl: "map_of (flights ?s) h = (if h = g then Some (f\<lparr>f_phase := ph\<rparr>) else map_of (flights s) h)" for h
    by (simp_all add: set_phase_def)
  have inv: "inv_groups s" "inv_slots keys s" "inv_flights keys s" "inv_clearing s" "inv_cover keys s"
    using assms(1) by (simp_all add: tq_inv_def)
  have "inv_groups ?s" using inv(1) assms(2) by (auto simp: inv_groups_def live_groups_def same fl)
  moreover have "inv_slots keys ?s" using inv(2) assms(2) by (auto simp: inv_slots_def same fl)
  moreover have "inv_flights keys ?s"
    using inv(3) assms(2,3) by (auto simp: inv_flights_def same fl)
  moreover have "inv_clearing ?s"
    by (rule clearing_mono[OF inv(4)]) (use assms(2) in \<open>auto simp: live_groups_def same fl\<close>)
  moreover have "flight_rows ?s = flight_rows s"
  proof -
    have "(\<exists>h f'. map_of (flights ?s) h = Some f' \<and> i \<in> set (f_ids f'))
        = (\<exists>h f'. map_of (flights s) h = Some f' \<and> i \<in> set (f_ids f'))" for i
    proof
      assume "\<exists>h f'. map_of (flights ?s) h = Some f' \<and> i \<in> set (f_ids f')"
      then show "\<exists>h f'. map_of (flights s) h = Some f' \<and> i \<in> set (f_ids f')"
        using assms(2) by (auto simp: fl split: if_splits)
    next
      assume "\<exists>h f'. map_of (flights s) h = Some f' \<and> i \<in> set (f_ids f')"
      then obtain h f' where h: "map_of (flights s) h = Some f'" "i \<in> set (f_ids f')" by blast
      have "\<exists>f'. map_of (flights ?s) h = Some f' \<and> i \<in> set (f_ids f')"
        unfolding fl using h assms(2) by auto
      then show "\<exists>h f'. map_of (flights ?s) h = Some f' \<and> i \<in> set (f_ids f')" by blast
    qed
    then show ?thesis unfolding flight_rows_def same by presburger
  qed
  then have "inv_cover keys ?s" using inv(5) by (simp add: inv_cover_def accounted_def same)
  ultimately show ?thesis by (simp add: tq_inv_def)
qed

lemma plane_grows_inv:
  assumes "tq_inv keys s" and "keys (plane s) \<subseteq> keys d" and "keys d \<subseteq> keys (plane s) \<union> set (f_ids f)"
    and "map_of (flights s) g = Some f"
  shows "tq_inv keys (s\<lparr>plane := d\<rparr>)"
proof -
  have inv: "inv_groups s" "inv_slots keys s" "inv_flights keys s" "inv_clearing s" "inv_cover keys s"
    using assms(1) by (simp_all add: tq_inv_def)
  have "set (f_ids f) \<subseteq> flight_rows s" using assms(4) by (auto simp: flight_rows_def)
  moreover have "flight_rows (s\<lparr>plane := d\<rparr>) = flight_rows s" by (simp add: flight_rows_def)
  ultimately have "inv_cover keys (s\<lparr>plane := d\<rparr>)"
    using inv(5) assms(3) by (auto simp: inv_cover_def accounted_def)
  moreover have "inv_groups (s\<lparr>plane := d\<rparr>)" "inv_clearing (s\<lparr>plane := d\<rparr>)"
    using inv(1,4) by (simp_all add: inv_groups_def inv_clearing_def live_groups_def)
  moreover have "inv_slots keys (s\<lparr>plane := d\<rparr>)"
    using inv(2) assms(2) unfolding inv_slots_def by (simp, blast)
  moreover have "inv_flights keys (s\<lparr>plane := d\<rparr>)"
    using inv(3) assms(2) unfolding inv_flights_def by (simp, blast)
  ultimately show ?thesis by (simp add: tq_inv_def)
qed

lemma plane_shrinks_inv:
  assumes "tq_inv keys s" and "keys (plane s) - set ids \<subseteq> keys d" and "keys d \<subseteq> keys (plane s)"
    and "\<forall>i\<in>set ids. free_row s i"
  shows "tq_inv keys (s\<lparr>plane := d\<rparr>)"
proof -
  have inv: "inv_groups s" "inv_slots keys s" "inv_flights keys s" "inv_clearing s" "inv_cover keys s"
    using assms(1) by (simp_all add: tq_inv_def)
  have keep: "i \<in> keys d" if "i \<in> keys (plane s)" "\<not> free_row s i" for i
    using that assms(2,4) by blast
  have "inv_slots keys (s\<lparr>plane := d\<rparr>)"
    unfolding inv_slots_def
  proof (intro ballI)
    fix x assume x: "x \<in> set (slots (buf (s\<lparr>plane := d\<rparr>)))"
    have "set (slot_ids x) \<subseteq> keys d"
    proof
      fix i assume i: "i \<in> set (slot_ids x)"
      then have "sl_meta x \<noteq> None" by (cases "sl_meta x") auto
      moreover have "i \<in> range (sample_id (sl_group x))" "i \<in> keys (plane s)"
        using inv(2) x i by (auto simp: inv_slots_def)
      moreover have "\<not> free_row s i"
        using x range_sample_id[OF \<open>i \<in> range (sample_id (sl_group x))\<close>] \<open>sl_meta x \<noteq> None\<close>
        unfolding free_row_def by (simp, blast)
      ultimately show "i \<in> keys d" using keep by blast
    qed
    with inv(2)[unfolded inv_slots_def, rule_format, of x] x show "sl_ready x = (sl_meta x \<noteq> None) \<and> (sl_meta x \<noteq> None \<longrightarrow> sl_group x \<in> set (started (s\<lparr>plane := d\<rparr>))
        \<and> map_of (flights (s\<lparr>plane := d\<rparr>)) (sl_group x) = None)
      \<and> set (slot_ids x) \<subseteq> range (sample_id (sl_group x)) \<inter> keys (plane (s\<lparr>plane := d\<rparr>))"
      by simp
  qed
  moreover have "inv_flights keys (s\<lparr>plane := d\<rparr>)"
    unfolding inv_flights_def
  proof (intro allI impI conjI)
    fix g f m assume f: "map_of (flights (s\<lparr>plane := d\<rparr>)) g = Some f"
    show "set (f_ids f) \<subseteq> range (sample_id g)" using inv(3) f by (simp add: inv_flights_def)
    assume w: "f_phase f = Written m"
    show "sample_ids m = f_ids f" using inv(3) f w by (simp add: inv_flights_def)
    show "set (f_ids f) \<subseteq> keys (plane (s\<lparr>plane := d\<rparr>))"
    proof
      fix i assume i: "i \<in> set (f_ids f)"
      then have "i \<in> range (sample_id g)" "i \<in> keys (plane s)"
        using inv(3) f w unfolding inv_flights_def by (simp, blast)+
      moreover have "\<not> free_row s i"
        using f w range_sample_id[OF \<open>i \<in> range (sample_id g)\<close>] unfolding free_row_def by (simp, blast)
      ultimately show "i \<in> keys (plane (s\<lparr>plane := d\<rparr>))" using keep by simp
    qed
  qed
  moreover have "inv_groups (s\<lparr>plane := d\<rparr>)" "inv_clearing (s\<lparr>plane := d\<rparr>)"
    "inv_cover keys (s\<lparr>plane := d\<rparr>)"
    using inv(1,4,5) assms(3) by (auto simp: inv_groups_def inv_clearing_def live_groups_def inv_cover_def accounted_def flight_rows_def)
  ultimately show ?thesis by (simp add: tq_inv_def)
qed

text \<open>A flight ends: its rows are gone or counted as stuck.\<close>

lemma flight_ends_inv:
  assumes "tq_inv keys s" and "map_of (flights s) g = Some f"
    and "keys (plane s) \<inter> set (f_ids f) \<subseteq> set st"
  shows "tq_inv keys (s\<lparr>flights := AList.delete g (flights s), stuck := stuck s @ st\<rparr>)"
proof -
  let ?s = "s\<lparr>flights := AList.delete g (flights s), stuck := stuck s @ st\<rparr>"
  have inv: "inv_groups s" "inv_slots keys s" "inv_flights keys s" "inv_clearing s" "inv_cover keys s"
    using assms(1) by (simp_all add: tq_inv_def)
  have fl: "map_of (flights ?s) h = (if h = g then None else map_of (flights s) h)" for h
    by simp
  have "inv_groups ?s"
    using inv(1) unfolding inv_groups_def live_groups_def fl by simp
  moreover have "inv_slots keys ?s"
    using inv(2) unfolding inv_slots_def fl by simp
  moreover have "inv_flights keys ?s"
    using inv(3) unfolding inv_flights_def fl by simp
  moreover have "inv_clearing ?s"
    by (rule clearing_mono[OF inv(4)]) (auto simp: live_groups_def)
  moreover have "flight_rows s \<subseteq> flight_rows ?s \<union> set (f_ids f)"
  proof
    fix i assume "i \<in> flight_rows s"
    then obtain h f' where h: "map_of (flights s) h = Some f'" "i \<in> set (f_ids f')"
      by (auto simp: flight_rows_def)
    show "i \<in> flight_rows ?s \<union> set (f_ids f)"
    proof (cases "h = g")
      case True
      with h assms(2) show ?thesis by simp
    next
      case False
      then have "map_of (flights ?s) h = Some f'" using h fl by simp
      with h(2) show ?thesis unfolding flight_rows_def by blast
    qed
  qed
  then have "inv_cover keys ?s"
    using inv(5) assms(3) unfolding inv_cover_def accounted_def by (simp, blast)
  ultimately show ?thesis by (simp add: tq_inv_def)
qed

lemma failing_rows_free:
  assumes "tq_inv keys s" and "map_of (flights s) g = Some f" and "\<And>m. f_phase f \<noteq> Written m"
  shows "\<forall>i\<in>set (f_ids f). free_row s i"
proof
  fix i assume i: "i \<in> set (f_ids f)"
  have inv: "inv_slots keys s" "inv_flights keys s" using assms(1) by (simp_all add: tq_inv_def)
  have "i \<in> range (sample_id g)" using inv(2) assms(2) i unfolding inv_flights_def by blast
  moreover have "\<forall>x\<in>set (slots (buf s)). sl_meta x \<noteq> None \<longrightarrow> sl_group x \<noteq> g"
    using inv(1) assms(2) by (auto simp: inv_slots_def)
  moreover have "\<forall>f m. map_of (flights s) g = Some f \<longrightarrow> f_phase f \<noteq> Written m"
    using assms(2,3) by auto
  ultimately show "free_row s i" unfolding free_row_def by blast
qed

lemma clearing_rows_free:
  assumes "tq_inv keys s" and "ids \<in> set (clearing s)"
  shows "\<forall>i\<in>set ids. free_row s i"
proof
  fix i assume "i \<in> set ids"
  then obtain g where "i \<in> range (sample_id g)" "map_of (flights s) g = None" "g \<notin> live_groups s"
    using assms unfolding tq_inv_def inv_clearing_def by blast
  then show "free_row s i" by (auto simp: free_row_def live_groups_def)
qed

text \<open>A slot list with the same groups, metadata and flags carries the same invariants.\<close>

lemma slots_change_inv:
  assumes "tq_inv keys s" and "tq_parallel b" and "map sl_group (slots b) = map sl_group (slots (buf s))"
    and "map sl_meta (slots b) = map sl_meta (slots (buf s))" and "map sl_ready (slots b) = map sl_ready (slots (buf s))"
  shows "tq_inv keys (s\<lparr>buf := b\<rparr>)"
proof -
  have inv: "inv_groups s" "inv_slots keys s" "inv_flights keys s" "inv_clearing s" "inv_cover keys s"
    using assms(1) by (simp_all add: tq_inv_def)
  have len: "length (slots b) = length (slots (buf s))" using assms(3) by (metis length_map)
  have nth: "sl_group (slots b ! i) = sl_group (slots (buf s) ! i)" "sl_meta (slots b ! i) = sl_meta (slots (buf s) ! i)"
    "sl_ready (slots b ! i) = sl_ready (slots (buf s) ! i)" if "i < length (slots b)" for i
    using that assms(3-5) len by (metis nth_map)+
  have live: "sl_group ` set (slots b) = sl_group ` set (slots (buf s))"
    using assms(3) by (metis list.set_map)
  have ids: "slot_ids (slots b ! i) = slot_ids (slots (buf s) ! i)" if "i < length (slots b)" for i
    using nth(2)[OF that] by (simp add: slot_ids_def)
  have "inv_groups (s\<lparr>buf := b\<rparr>)"
    using inv(1) assms(2,3) live by (simp add: inv_groups_def live_groups_def)
  moreover have "inv_slots keys (s\<lparr>buf := b\<rparr>)"
    unfolding inv_slots_def all_set_conv_all_nth
  proof (intro allI impI)
    fix i assume i: "i < length (slots (buf (s\<lparr>buf := b\<rparr>)))"
    then have "i < length (slots (buf s))" using len by simp
    with inv(2)[unfolded inv_slots_def all_set_conv_all_nth, rule_format, OF this] nth[of i] ids[of i] i
    show "sl_ready (slots (buf (s\<lparr>buf := b\<rparr>)) ! i) = (sl_meta (slots (buf (s\<lparr>buf := b\<rparr>)) ! i) \<noteq> None)
      \<and> (sl_meta (slots (buf (s\<lparr>buf := b\<rparr>)) ! i) \<noteq> None \<longrightarrow>
           sl_group (slots (buf (s\<lparr>buf := b\<rparr>)) ! i) \<in> set (started (s\<lparr>buf := b\<rparr>))
           \<and> map_of (flights (s\<lparr>buf := b\<rparr>)) (sl_group (slots (buf (s\<lparr>buf := b\<rparr>)) ! i)) = None)
      \<and> set (slot_ids (slots (buf (s\<lparr>buf := b\<rparr>)) ! i)) \<subseteq> range (sample_id (sl_group (slots (buf (s\<lparr>buf := b\<rparr>)) ! i)))
          \<inter> keys (plane (s\<lparr>buf := b\<rparr>))"
      by (simp del: nth_slots)
  qed
  moreover have "inv_flights keys (s\<lparr>buf := b\<rparr>)" "inv_clearing (s\<lparr>buf := b\<rparr>)"
    using inv(3,4) live by (simp_all add: inv_flights_def inv_clearing_def live_groups_def)
  moreover have "inv_cover keys (s\<lparr>buf := b\<rparr>)"
  proof -
  have "map slot_ids (slots b) = map slot_ids (slots (buf s))"
    using ids len by (auto intro: nth_equalityI simp del: nth_slots length_slots)
  moreover have "(\<Union>x\<in>set xs. set (slot_ids x)) = \<Union> (set ` set (map slot_ids xs))" for xs
    by simp
  ultimately have "(\<Union>x\<in>set (slots b). set (slot_ids x)) = (\<Union>x\<in>set (slots (buf s)). set (slot_ids x))"
    by (simp only:)
  then show ?thesis
    using inv(5) by (simp add: inv_cover_def accounted_def flight_rows_def)
  qed
  ultimately show ?thesis by (simp add: tq_inv_def)
qed

lemma reserve_inv:
  assumes "tq_inv keys s" and "g \<notin> set (reserved s)"
  shows "tq_inv keys (s\<lparr>buf := reserve (buf s) w t g, reserved := g # reserved s\<rparr>)"
proof -
  let ?s = "s\<lparr>buf := reserve (buf s) w t g, reserved := g # reserved s\<rparr>"
  have inv: "inv_groups s" "inv_slots keys s" "inv_flights keys s" "inv_clearing s" "inv_cover keys s"
    using assms(1) by (simp_all add: tq_inv_def)
  have p: "tq_parallel (buf s)" using inv(1) by (simp add: inv_groups_def)
  note r = slots_reserve[OF p, of w t g]
  have live: "sl_group ` set (slots (buf ?s)) = insert g (sl_group ` set (slots (buf s)))" by (simp add: r)
  have "inv_groups ?s"
    using inv(1) assms(2) r unfolding inv_groups_def live_groups_def by auto
  moreover have "inv_slots keys ?s"
    using inv(2) unfolding inv_slots_def by (simp add: r slot_ids_def)
  moreover have "inv_flights keys ?s" using inv(3) by (simp add: inv_flights_def)
  moreover have "inv_clearing ?s"
    by (rule clearing_mono[OF inv(4)]) (use assms(2) inv(1) live in \<open>auto simp: live_groups_def inv_groups_def\<close>)
  moreover have "inv_cover keys ?s"
    using inv(5) by (simp add: inv_cover_def accounted_def flight_rows_def r slot_ids_def)
  ultimately show ?thesis by (simp add: tq_inv_def)
qed

lemma begin_flight:
  "begin_commit b g tb u v = Inr f \<Longrightarrow> set (f_ids f) \<subseteq> range (sample_id g) \<and> f_phase f = Putting"
  by (auto simp: begin_commit_def pack_payload_def Let_def split: if_splits)

lemma begin_inv:
  assumes "tq_inv keys s" and "g \<in> set (reserved s)" and "g \<notin> set (started s)"
    and "set (f_ids f) \<subseteq> range (sample_id g)" and "f_phase f = Putting"
  shows "tq_inv keys (s\<lparr>started := g # started s, flights := AList.update g f (flights s)\<rparr>)"
    "tq_inv keys (s\<lparr>started := g # started s\<rparr>)"
proof -
  let ?s = "s\<lparr>started := g # started s, flights := AList.update g f (flights s)\<rparr>"
  let ?t = "s\<lparr>started := g # started s\<rparr>"
  have inv: "inv_groups s" "inv_slots keys s" "inv_flights keys s" "inv_clearing s" "inv_cover keys s"
    using assms(1) by (simp_all add: tq_inv_def)
  have none: "map_of (flights s) g = None" using inv(1) assms(3) by (auto simp: inv_groups_def)
  have fl: "map_of (flights ?s) h = (if h = g then Some f else map_of (flights s) h)" for h by simp
  have "inv_groups ?s" using inv(1) assms(2) unfolding inv_groups_def live_groups_def fl by auto
  moreover have "inv_slots keys ?s"
    using inv(2) assms(3) unfolding inv_slots_def fl by auto
  moreover have "inv_flights keys ?s"
    using inv(3) assms(4,5) unfolding inv_flights_def fl by simp
  moreover have clr: "inv_clearing ?s" "inv_clearing ?t"
    by (rule clearing_mono[OF inv(4)]; use assms(3) in \<open>auto simp: live_groups_def\<close>)+
  moreover have "flight_rows s \<subseteq> flight_rows ?s"
  proof
    fix i assume "i \<in> flight_rows s"
    then obtain h f' where h: "map_of (flights s) h = Some f'" "i \<in> set (f_ids f')"
      by (auto simp: flight_rows_def)
    then have "map_of (flights ?s) h = Some f'" using none unfolding fl by auto
    with h(2) show "i \<in> flight_rows ?s" unfolding flight_rows_def by blast
  qed
  then have "inv_cover keys ?s" using inv(5) by (auto simp: inv_cover_def accounted_def)
  ultimately show "tq_inv keys ?s" by (simp add: tq_inv_def)
  have "inv_groups ?t" using inv(1) assms(2) by (auto simp: inv_groups_def live_groups_def)
  moreover have "inv_slots keys ?t" using inv(2) by (auto simp: inv_slots_def)
  moreover have "inv_flights keys ?t" "inv_cover keys ?t"
    using inv(3,5) by (simp_all add: inv_flights_def inv_cover_def accounted_def flight_rows_def)
  ultimately show "tq_inv keys ?t" using clr by (simp add: tq_inv_def)
qed

lemma map_update_same: "i < length xs \<Longrightarrow> f y = f (xs ! i) \<Longrightarrow> map f (xs[i := y]) = map f xs"
  by (metis list_update_id map_update)

lemma finish_inv:
  assumes "tq_inv keys s" and "map_of (flights s) g = Some f" and "f_phase f = Written m"
    and "finish_commit (buf s) g m (f_end f) = Inr b"
  shows "tq_inv keys (s\<lparr>buf := b, flights := AList.delete g (flights s)\<rparr>)"
proof -
  let ?s = "s\<lparr>buf := b, flights := AList.delete g (flights s)\<rparr>"
  have inv: "inv_groups s" "inv_slots keys s" "inv_flights keys s" "inv_clearing s" "inv_cover keys s"
    using assms(1) by (simp_all add: tq_inv_def)
  have p: "tq_parallel (buf s)" using inv(1) by (simp add: inv_groups_def)
  obtain i where i: "i < tq_size (buf s)" "sl_group (slots (buf s) ! i) = g" "tq_parallel b"
    "slots b = (slots (buf s))[i := (slots (buf s) ! i)\<lparr>sl_meta := Some m, sl_end := f_end f, sl_ready := True\<rparr>]"
    by (rule slots_finish[OF p assms(4)])
  let ?new = "(slots (buf s) ! i)\<lparr>sl_meta := Some m, sl_end := f_end f, sl_ready := True\<rparr>"
  have fl: "map_of (flights ?s) h = (if h = g then None else map_of (flights s) h)" for h by simp
  have f: "sample_ids m = f_ids f" "set (f_ids f) \<subseteq> keys (plane s)" "set (f_ids f) \<subseteq> range (sample_id g)"
    using inv(3) assms(2,3) unfolding inv_flights_def by blast+
  have groups: "map sl_group (slots b) = map sl_group (slots (buf s))"
    unfolding i(4) by (rule map_update_same) (use i(1) in simp_all)
  have live: "live_groups ?s = live_groups s"
    using groups unfolding live_groups_def by (simp, metis list.set_map)
  have new_ids: "slot_ids ?new = f_ids f" by (simp add: slot_ids_def f(1))
  have old: "slots (buf s) ! i \<in> set (slots (buf s))" using i(1) by (metis length_slots nth_mem)
  have old_none: "sl_meta (slots (buf s) ! i) = None"
    using inv(2) old i(2) assms(2) unfolding inv_slots_def by fastforce
  have mem: "x = ?new \<or> x \<in> set (slots (buf s))" if "x \<in> set (slots b)" for x
    using that set_update_subset_insert[of "slots (buf s)" i ?new] by (auto simp: i(4))
  have gs: "g \<in> set (started s)" using inv(1) assms(2) by (auto simp: inv_groups_def)
  have "inv_groups ?s"
    using inv(1) i(3) groups live unfolding inv_groups_def by simp
  moreover have "inv_slots keys ?s"
    unfolding inv_slots_def
  proof (intro ballI)
    fix x assume "x \<in> set (slots (buf ?s))"
    then consider "x = ?new" | "x \<in> set (slots (buf s))" using mem by auto
    then show "sl_ready x = (sl_meta x \<noteq> None) \<and> (sl_meta x \<noteq> None \<longrightarrow> sl_group x \<in> set (started ?s)
        \<and> map_of (flights ?s) (sl_group x) = None) \<and> set (slot_ids x) \<subseteq> range (sample_id (sl_group x)) \<inter> keys (plane ?s)"
    proof cases
      case 1
      have "set (slot_ids x) \<subseteq> range (sample_id (sl_group x)) \<inter> keys (plane ?s)"
        unfolding 1 new_ids using f i(2) by simp
      moreover have "sl_group x = g" "sl_ready x" "sl_meta x \<noteq> None" using 1 i(2) by simp_all
      ultimately show ?thesis using gs by simp
    next
      case 2
      with inv(2)[unfolded inv_slots_def, rule_format, OF 2] show ?thesis by simp
    qed
  qed
  moreover have "inv_flights keys ?s"
    using inv(3) unfolding inv_flights_def fl by simp
  moreover have "inv_clearing ?s"
    by (rule clearing_mono[OF inv(4)]) (use live in auto)
  moreover have "inv_cover keys ?s"
  proof -
    have slot_rows: "set (slot_ids x) \<subseteq> (\<Union>x\<in>set (slots b). set (slot_ids x))" if x: "x \<in> set (slots (buf s))" for x
    proof (cases "x = slots (buf s) ! i")
      case True
      with old_none show ?thesis by simp
    next
      case False
      from x obtain j where j: "j < tq_size (buf s)" "x = slots (buf s) ! j" by (auto simp: in_set_conv_nth)
      have ne: "i \<noteq> j" using False j(2) by blast
      have "slots b ! j = x"
        unfolding i(4) j(2) by (rule nth_list_update_neq[OF ne])
      moreover have "j < length (slots b)" using j(1) arg_cong[OF i(4), of length] by simp
      ultimately have "x \<in> set (slots b)" using nth_mem by blast
      then show ?thesis by blast
    qed
    have "?new \<in> set (slots b)" unfolding i(4) by (rule set_update_memI) (simp add: i(1))
    then have "set (slot_ids ?new) \<subseteq> (\<Union>x\<in>set (slots b). set (slot_ids x))" by (rule UN_upper)
    then have new: "set (f_ids f) \<subseteq> (\<Union>x\<in>set (slots b). set (slot_ids x))" by (simp only: new_ids)
    have fr: "flight_rows s \<subseteq> flight_rows ?s \<union> set (f_ids f)"
    proof
      fix j assume "j \<in> flight_rows s"
      then obtain h f' where h: "map_of (flights s) h = Some f'" "j \<in> set (f_ids f')" by (auto simp: flight_rows_def)
      show "j \<in> flight_rows ?s \<union> set (f_ids f)"
      proof (cases "h = g")
        case True
        with h assms(2) show ?thesis by simp
      next
        case False
        then have "map_of (flights ?s) h = Some f'" using h fl by simp
        with h(2) show ?thesis unfolding flight_rows_def by blast
      qed
    qed
    have "accounted s \<subseteq> accounted ?s"
      using slot_rows new fr unfolding accounted_def by (simp, blast)
    then show ?thesis using inv(5) by (simp add: inv_cover_def)
  qed
  ultimately show ?thesis by (simp add: tq_inv_def)
qed

lemma remove_inv:
  assumes "tq_inv keys s" and "distinct idxs" and "\<forall>i\<in>set idxs. i < tq_size (buf s)"
    and "remove_slots (buf s) idxs = (b, Inr ids)"
  shows "tq_inv keys (s\<lparr>buf := b, clearing := clearing s @ [ids]\<rparr>)"
    "tq_inv keys (s\<lparr>buf := b, handed := handed s @ ids\<rparr>)"
proof -
  let ?c = "s\<lparr>buf := b, clearing := clearing s @ [ids]\<rparr>" and ?h = "s\<lparr>buf := b, handed := handed s @ ids\<rparr>"
  have inv: "inv_groups s" "inv_slots keys s" "inv_flights keys s" "inv_clearing s" "inv_cover keys s"
    using assms(1) by (simp_all add: tq_inv_def)
  have p: "tq_parallel (buf s)" using inv(1) by (simp add: inv_groups_def)
  let ?gone = "pick (slots (buf s)) idxs" and ?left = "pick (slots (buf s)) (others idxs (tq_size (buf s)))"
  have r: "tq_parallel b" "slots b = ?left" "set ids = (\<Union>x\<in>set ?gone. set (slot_ids x))"
    using remove_slots_spec[OF p assms(2,3)] assms(4) by auto
  have ms: "mset ?gone + mset ?left = mset (slots (buf s))"
    using mset_split_others[OF assms(2), of "slots (buf s)"] assms(3) by simp
  then have un: "set (slots (buf s)) = set ?gone \<union> set ?left"
    by (metis set_mset_mset set_mset_union)
  have "mset (map sl_group ?gone @ map sl_group ?left) = mset (map sl_group (slots (buf s)))"
    using ms by (metis image_mset_union mset_append mset_map)
  then have d: "distinct (map sl_group ?gone @ map sl_group ?left)"
    using inv(1) by (metis inv_groups_def mset_eq_imp_distinct_iff)
  have live: "sl_group ` set ?left \<subseteq> live_groups s" "sl_group ` set ?gone \<inter> sl_group ` set ?left = {}"
    using d un by (auto simp: live_groups_def)
  have "live_groups s \<subseteq> set (reserved s)" using inv(1) by (simp add: inv_groups_def)
  then have "sl_group ` set (slots b) \<subseteq> set (reserved s)" "distinct (map sl_group (slots b))"
    using live(1) d unfolding r(2) by (blast, simp)
  then have groups: "inv_groups ?c" "inv_groups ?h"
    using inv(1) r(1) unfolding inv_groups_def live_groups_def by simp_all
  have left_in: "x \<in> set (slots (buf s))" if "x \<in> set ?left" for x using that un by blast
  have slots: "inv_slots keys ?c" "inv_slots keys ?h"
    using inv(2) left_in unfolding inv_slots_def by (simp_all add: r(2))
  have fl: "inv_flights keys ?c" "inv_flights keys ?h"
    using inv(3) by (simp_all add: inv_flights_def)
  have clr: "inv_clearing ?h"
    by (rule clearing_mono[OF inv(4)]) (use live r(2) in \<open>auto simp: live_groups_def\<close>)
  have fresh: "\<exists>g. i \<in> range (sample_id g) \<and> g \<in> set (started s) \<and> map_of (flights s) g = None \<and> g \<notin> live_groups ?c"
    if i: "i \<in> set ids" for i
  proof -
    obtain x where x: "x \<in> set ?gone" "i \<in> set (slot_ids x)" using i r(3) by blast
    then have "sl_meta x \<noteq> None" by (cases "sl_meta x") auto
    with x inv(2) un have "i \<in> range (sample_id (sl_group x))" "sl_group x \<in> set (started s)"
      "map_of (flights s) (sl_group x) = None"
      unfolding inv_slots_def by blast+
    moreover have "sl_group x \<notin> live_groups ?c" using x(1) live(2) by (auto simp: live_groups_def r(2))
    ultimately show ?thesis by blast
  qed
  have "inv_clearing ?c"
    using clr fresh unfolding inv_clearing_def live_groups_def by simp
  moreover have "accounted s \<subseteq> accounted ?c" "accounted s \<subseteq> accounted ?h"
    unfolding accounted_def flight_rows_def un by (simp_all add: r(2,3)) blast+
  then have "inv_cover keys ?c" "inv_cover keys ?h"
    using inv(5) by (auto simp: inv_cover_def)
  ultimately show "tq_inv keys ?c" "tq_inv keys ?h"
    using groups slots fl clr by (simp_all add: tq_inv_def)
qed

lemma cleared_inv:
  assumes "tq_inv keys s" and "clearing s = ids # rest" and "keys (plane s) \<inter> set ids \<subseteq> set st"
  shows "tq_inv keys (s\<lparr>clearing := rest, stuck := stuck s @ st\<rparr>)"
proof -
  let ?s = "s\<lparr>clearing := rest, stuck := stuck s @ st\<rparr>"
  have inv: "inv_groups s" "inv_slots keys s" "inv_flights keys s" "inv_clearing s" "inv_cover keys s"
    using assms(1) by (simp_all add: tq_inv_def)
  have "inv_groups ?s" "inv_slots keys ?s" "inv_flights keys ?s"
    using inv(1-3) by (simp_all add: inv_groups_def live_groups_def inv_slots_def inv_flights_def)
  moreover have "inv_clearing ?s"
    by (rule clearing_mono[OF inv(4)]) (auto simp: assms(2) live_groups_def)
  moreover have "inv_cover keys ?s"
    using inv(5) assms(3) unfolding inv_cover_def accounted_def flight_rows_def assms(2) by (simp, blast)
  ultimately show ?thesis by (simp add: tq_inv_def)
qed

lemma promote_inv:
  assumes "tq_inv keys s"
  shows "tq_inv keys (s\<lparr>buf := fst (promote_ready_group (buf s) t)\<rparr>)"
proof (cases "lender_scan t 0 (zip (target_step_list (buf s)) (ready_list (buf s))) None")
  case None
  then show ?thesis using assms by (simp add: promote_ready_group_def)
next
  case (Some iu)
  obtain i u where iu: "iu = (i, u)" by (cases iu)
  have p: "tq_parallel (buf s)" using assms by (simp add: tq_inv_def inv_groups_def)
  have i: "i < tq_size (buf s)"
    using lender_scan_spec[OF Some[unfolded iu]] tq_parallelD[OF p] by (simp add: tq_size_def)
  let ?b = "(buf s)\<lparr>target_step_list := (target_step_list (buf s))[i := Some t]\<rparr>"
  note sp = slots_promote[OF p i, of t]
  have "tq_inv keys (s\<lparr>buf := ?b\<rparr>)"
    by (rule slots_change_inv[OF assms sp(2)]; unfold sp(1); rule map_update_same) (use i in simp_all)
  then show ?thesis using Some iu by (simp add: promote_ready_group_def)
qed

context row_plane
begin

lemma put_inv:
  assumes "tq_inv keys s" and f: "map_of (flights s) g = Some f" and "put (plane s) (f_ids f) (f_fields f) (f_tags f) = (d, r)"
    and "ph = (case bindR r (\<lambda>_. written_meta (buf s) f) of Inl e \<Rightarrow> Failing e | Inr m \<Rightarrow> Written m)"
  shows "tq_inv keys (set_phase (s\<lparr>plane := d\<rparr>) g f ph)"
proof (rule set_phase_inv)
  show "tq_inv keys (s\<lparr>plane := d\<rparr>)"
    using plane_grows_inv[OF assms(1)] put_grows[OF assms(3)] f by blast
  show "map_of (flights (s\<lparr>plane := d\<rparr>)) g = Some f" using f by simp
  fix m assume "ph = Written m"
  then obtain u where "r = Inr u" "written_meta (buf s) f = Inr m"
    using assms(4) by (cases r) (auto split: sum.splits)
  then show "sample_ids m = f_ids f \<and> set (f_ids f) \<subseteq> keys (plane (s\<lparr>plane := d\<rparr>))"
    using put_done assms(3) by (auto simp: written_meta_def)
qed

lemma clear_flight_inv:
  assumes "tq_inv keys s" and "map_of (flights s) g = Some f" and "\<And>m. f_phase f \<noteq> Written m"
    and "clear (plane s) (f_ids f) = (d, r)" and "set st = set (f_ids f) \<or> (\<exists>u. r = Inr u) \<and> st = []"
  shows "tq_inv keys (s\<lparr>plane := d, flights := AList.delete g (flights s), stuck := stuck s @ st\<rparr>)"
proof -
  have "tq_inv keys (s\<lparr>plane := d\<rparr>)"
    using plane_shrinks_inv[OF assms(1)] clear_shrinks[OF assms(4)] failing_rows_free[OF assms(1-3)] by blast
  moreover have "keys (plane (s\<lparr>plane := d\<rparr>)) \<inter> set (f_ids f) \<subseteq> set st"
    using assms(4,5) clear_done by auto
  ultimately have "tq_inv keys ((s\<lparr>plane := d\<rparr>)\<lparr>flights := AList.delete g (flights (s\<lparr>plane := d\<rparr>)),
      stuck := stuck (s\<lparr>plane := d\<rparr>) @ st\<rparr>)"
    using assms(2) by (intro flight_ends_inv) auto
  then show ?thesis by simp
qed

lemma step_inv:
  assumes "tq_inv keys s" and "tq_step put clear e s = Some s'"
  shows "tq_inv keys s'"
proof (cases e)
  case (Reserve w t g)
  with assms reserve_inv[OF assms(1)] show ?thesis by (auto split: if_splits)
next
  case (Begin g tb u v)
  with assms begin_inv[OF assms(1)] begin_inv(2)[OF assms(1), of g "\<lparr>f_ids = [], f_fields = undefined, f_tags = [],
      f_names = [], f_lengths = [], f_end = 0, f_phase = Putting\<rparr>"] show ?thesis
    by (auto split: if_splits sum.splits dest: begin_flight)
next
  case (Put g)
  with assms put_inv[OF assms(1)] show ?thesis by (auto split: option.splits if_splits prod.splits)
next
  case (Enrich g r)
  then obtain f m where f: "map_of (flights s) g = Some f" "f_phase f = Written m"
    using assms(2) by (auto split: option.splits phase.splits)
  have w: "sample_ids m = f_ids f \<and> set (f_ids f) \<subseteq> keys (plane s)"
    using assms(1) f unfolding tq_inv_def inv_flights_def by blast
  from Enrich assms(2) f have "\<exists>ph. s' = set_phase s g f ph \<and> (\<forall>m'. ph = Written m' \<longrightarrow> sample_ids m' = sample_ids m)"
    by (auto split: sum.splits if_splits)
  with set_phase_inv[OF assms(1) f(1)] w show ?thesis by auto
next
  case (Finish g)
  then obtain f m where f: "map_of (flights s) g = Some f" "f_phase f = Written m"
    using assms(2) by (auto split: option.splits phase.splits)
  with Finish assms(2) finish_inv[OF assms(1) f] set_phase_inv[OF assms(1) f(1)] show ?thesis
    by (auto split: sum.splits)
next
  case (Rollback g)
  then obtain f err where f: "map_of (flights s) g = Some f" "f_phase f = Failing err"
    using assms(2) by (auto split: option.splits phase.splits)
  obtain d r where c: "clear (plane s) (f_ids f) = (d, r)" by fastforce
  have s': "s' = s\<lparr>plane := d, flights := AList.delete g (flights s), stuck := stuck s @ (case r of Inr _ \<Rightarrow> [] | Inl _ \<Rightarrow> f_ids f)\<rparr>"
    using Rollback assms(2) f c by (auto split: sum.splits)
  show ?thesis unfolding s'
    by (rule clear_flight_inv[OF assms(1) f(1) _ c]) (auto simp: f(2) split: sum.splits)
next
  case (Cancel g landed)
  then obtain f where f: "map_of (flights s) g = Some f"
    using assms(2) by (auto split: option.splits)
  show ?thesis
  proof (cases "f_phase f")
    case Putting
    obtain d r where c: "put (plane s) (f_ids f) (f_fields f) (f_tags f) = (d, r)" by fastforce
    have "tq_inv keys (s\<lparr>plane := d\<rparr>)"
      using plane_grows_inv[OF assms(1)] put_grows[OF c] f by blast
    then have "tq_inv keys (set_phase (s\<lparr>plane := d\<rparr>) g f (Failing CancelledError))"
      by (rule set_phase_inv) (use f in simp_all)
    moreover have "tq_inv keys (set_phase s g f (Failing CancelledError))"
      by (rule set_phase_inv[OF assms(1) f]) simp
    ultimately show ?thesis using Cancel assms(2) f Putting c by (auto split: if_splits)
  next
    case (Written m)
    have "tq_inv keys (set_phase s g f (Failing CancelledError))"
      by (rule set_phase_inv[OF assms(1) f]) simp
    then show ?thesis using Cancel assms(2) f Written by auto
  next
    case (Failing err)
    obtain d r where c: "clear (plane s) (f_ids f) = (d, r)" by fastforce
    have "tq_inv keys (s\<lparr>plane := d, flights := AList.delete g (flights s), stuck := stuck s @ f_ids f\<rparr>)"
      by (rule clear_flight_inv[OF assms(1) f _ c]) (simp_all add: Failing)
    moreover have "tq_inv keys (s\<lparr>flights := AList.delete g (flights s), stuck := stuck s @ f_ids f\<rparr>)"
      by (rule flight_ends_inv[OF assms(1) f]) simp
    ultimately show ?thesis using Cancel assms(2) f Failing c by (auto split: if_splits)
  qed
next
  case (Remove idxs in_dp)
  then have i: "distinct idxs" "\<forall>i\<in>set idxs. i < tq_size (buf s)"
    using assms(2) by (auto simp: list_all_iff split: if_splits)
  have p: "tq_parallel (buf s)" using assms(1) by (simp add: tq_inv_def inv_groups_def)
  obtain b ids where r: "remove_slots (buf s) idxs = (b, Inr ids)"
    using remove_slots_spec[OF p i] by metis
  show ?thesis
    using Remove assms(2) i remove_inv[OF assms(1) i r] by (auto simp: r list_all_iff)
next
  case Cleared
  then obtain ids rest where cl: "clearing s = ids # rest"
    using assms(2) by (auto split: list.splits)
  obtain d r where c: "clear (plane s) ids = (d, r)" by fastforce
  have "tq_inv keys (s\<lparr>plane := d\<rparr>)"
    using plane_shrinks_inv[OF assms(1)] clear_shrinks[OF c] clearing_rows_free[OF assms(1), of ids] cl by auto
  moreover have "keys (plane (s\<lparr>plane := d\<rparr>)) \<inter> set ids \<subseteq> set (case r of Inr _ \<Rightarrow> [] | Inl _ \<Rightarrow> ids)"
    using clear_done c by (cases r) auto
  ultimately have "tq_inv keys ((s\<lparr>plane := d\<rparr>)\<lparr>clearing := rest, stuck := stuck (s\<lparr>plane := d\<rparr>) @ (case r of Inr _ \<Rightarrow> [] | Inl _ \<Rightarrow> ids)\<rparr>)"
    using cl by (intro cleared_inv) auto
  then show ?thesis using Cleared assms(2) cl c by (auto split: sum.splits)
next
  case (Promote t)
  with assms(2) have "s' = s\<lparr>buf := fst (promote_ready_group (buf s) t)\<rparr>" by simp
  then show ?thesis using promote_inv[OF assms(1)] by (simp only:)
qed

lemma start_inv: "keys d = {} \<Longrightarrow> tq_inv keys (tq_start pid routed d)"
  by (simp add: tq_inv_def tq_inv_defs tq_start_def)

lemma reach_inv:
  assumes "tq_reach put clear s0 s" and "tq_inv keys s0"
  shows "tq_inv keys s"
  using assms by (induction rule: tq_reach.induct) (auto intro: step_inv)

lemma quiet_rows:
  assumes "tq_reach put clear (tq_start pid routed d) s" and "keys d = {}" and "flights s = []" and "clearing s = []"
  shows "keys (plane s) \<subseteq> (\<Union>x\<in>set (slots (buf s)). set (slot_ids x)) \<union> set (handed s) \<union> set (stuck s)"
  using reach_inv[OF assms(1) start_inv[OF assms(2)]] assms(3,4)
  by (auto simp: tq_inv_def inv_cover_def accounted_def flight_rows_def)

lemma ready_rows:
  assumes "tq_reach put clear (tq_start pid routed d) s" and "keys d = {}" and "x \<in> set (slots (buf s))" and "sl_ready x"
  shows "\<exists>m. sl_meta x = Some m \<and> set (sample_ids m) \<subseteq> keys (plane s)"
  using reach_inv[OF assms(1) start_inv[OF assms(2)]] assms(3,4)
  by (auto simp: tq_inv_def inv_slots_def slot_ids_def)

end

section \<open>On the in-memory data plane\<close>

definition noop_put :: "string \<Rightarrow> client \<Rightarrow> string list \<Rightarrow> tensor_dict \<Rightarrow> tag list \<Rightarrow> client \<times> unit res" where
  "noop_put pid c ids td ts = (case put_samples c ids pid (Some td) (Some ts) of (c', r) \<Rightarrow> (c', bindR r (\<lambda>_. Inr ())))"

definition noop_clear :: "string \<Rightarrow> client \<Rightarrow> string list \<Rightarrow> client \<times> unit res" where
  "noop_clear pid c ids = clear_samples c (Some ids) pid"

definition noop_keys :: "string \<Rightarrow> client \<Rightarrow> string set" where
  "noop_keys pid c = (case map_of (partitions c) pid of None \<Rightarrow> {} | Some rec \<Rightarrow> fst ` set (p_rows rec))"

lemma put_rows_keys:
  "put_rows td i sids rows = (rows', r) \<Longrightarrow>
     fst ` set rows \<subseteq> fst ` set rows' \<and> fst ` set rows' \<subseteq> fst ` set rows \<union> set sids
     \<and> (\<forall>u. r = Inr u \<longrightarrow> set sids \<subseteq> fst ` set rows')"
proof (induction sids arbitrary: i rows)
  case (Cons sid sids)
  obtain row v where r: "put_row i td (get_or [] rows sid) = (row, v)" by fastforce
  show ?case
  proof (cases v)
    case (Inl e)
    with Cons.prems r have "rows' = AList.update sid row rows" "r = Inl e" by simp_all
    then show ?thesis using dom_update[of sid row rows] by (simp; blast)
  next
    case (Inr u)
    with Cons.prems r have "put_rows td (Suc i) sids (AList.update sid row rows) = (rows', r)" by simp
    from Cons.IH[OF this] show ?thesis unfolding dom_update by (simp; blast)
  qed
qed simp

lemma noop_put_keys:
  assumes "noop_put pid c ids td ts = (c', r)"
  shows "noop_keys pid c \<subseteq> noop_keys pid c' \<and> noop_keys pid c' \<subseteq> noop_keys pid c \<union> set ids
    \<and> (\<forall>u. r = Inr u \<longrightarrow> set ids \<subseteq> noop_keys pid c')"
proof (cases "map_of (partitions c) pid")
  case None
  with assms show ?thesis by (auto simp: noop_put_def put_samples_def with_partition_def noop_keys_def)
next
  case (Some rec)
  show ?thesis
  proof (cases "reject_non_tensor_leaves td")
    case (Inl e)
    with assms Some have "c' = c\<lparr>partitions := AList.update pid rec (partitions c)\<rparr>" "r = Inl e"
      by (simp_all add: noop_put_def put_samples_def with_partition_def)
    with Some have "noop_keys pid c' = noop_keys pid c" "r = Inl e"
      by (simp_all add: noop_keys_def)
    then show ?thesis by simp
  next
    case (Inr u)
    obtain rows w where w: "put_rows td 0 ids (p_rows rec) = (rows, w)" by fastforce
    obtain rec' where c': "map_of (partitions c') pid = Some rec'" "p_rows rec' = rows"
      "(\<exists>v. r = Inr v) \<Longrightarrow> (\<exists>v. w = Inr v)"
      using assms Some Inr w
      by (auto simp: noop_put_def put_samples_def with_partition_def bindR_Inr split: sum.splits prod.splits)
    have k: "noop_keys pid c = fst ` set (p_rows rec)" "noop_keys pid c' = fst ` set rows"
      using Some c'(1,2) by (simp_all add: noop_keys_def)
    show ?thesis unfolding k using put_rows_keys[OF w] c'(3) by blast
  qed
qed

lemma deletes_keys:
  "fst ` set (foldl (\<lambda>rs sid. AList.delete sid rs) rows ids) = fst ` set rows - set ids"
  by (induction ids arbitrary: rows) (auto simp: AList.delete_eq)

lemma noop_clear_keys:
  assumes "noop_clear pid c ids = (c', r)"
  shows "noop_keys pid c' = noop_keys pid c - set ids \<and> r = Inr ()"
proof (cases "map_of (partitions c) pid")
  case None
  with assms show ?thesis by (auto simp: noop_clear_def clear_samples_def noop_keys_def)
next
  case (Some rec)
  with assms have "map_of (partitions c') pid = Some (foldl (\<lambda>r sid. forget sid r) rec ids)" "r = Inr ()"
    by (auto simp: noop_clear_def clear_samples_def)
  with Some show ?thesis by (simp add: noop_keys_def p_rows_forget deletes_keys)
qed

interpretation noop_plane: row_plane "noop_put pid" "noop_clear pid" "noop_keys pid" for pid
proof
  show "noop_keys pid d \<subseteq> noop_keys pid d' \<and> noop_keys pid d' \<subseteq> noop_keys pid d \<union> set ids"
    if "noop_put pid d ids td ts = (d', r)" for d d' ids td ts r
    using noop_put_keys[OF that] by blast
  show "set ids \<subseteq> noop_keys pid d'" if "noop_put pid d ids td ts = (d', Inr u)" for d d' ids td ts u
    using noop_put_keys[OF that] by blast
  show "noop_keys pid d - set ids \<subseteq> noop_keys pid d' \<and> noop_keys pid d' \<subseteq> noop_keys pid d"
    if "noop_clear pid d ids = (d', r)" for d d' ids r
    using noop_clear_keys[OF that] by blast
  show "noop_keys pid d' = noop_keys pid d - set ids" if "noop_clear pid d ids = (d', Inr u)" for d d' ids u
    using noop_clear_keys[OF that] by blast
qed

section \<open>Properties\<close>

definition demo_plane :: client where
  "demo_plane = fst (register_partition new_client ''p'' [''x''] 4 [''train''] None None)"

definition demo_tb :: "tensor_dict train_batch" where
  "demo_tb = \<lparr>tb_fields = [(''x'', TensorLeaf [7, 8])], tb_names = [''x''], tb_lengths = [3, 4]\<rparr>"

fun tq_run :: "tensor_dict tq_event list \<Rightarrow> (client, tensor_dict) tq_system \<Rightarrow> (client, tensor_dict) tq_system option" where
  "tq_run [] s = Some s"
| "tq_run (e # es) s = (case tq_step (noop_put ''p'') (noop_clear ''p'') e s of None \<Rightarrow> None | Some s' \<Rightarrow> tq_run es s')"

lemma tq_run_reach:
  "tq_run es s = Some s' \<Longrightarrow> tq_reach (noop_put ''p'') (noop_clear ''p'') s0 s \<Longrightarrow>
     tq_reach (noop_put ''p'') (noop_clear ''p'') s0 s'"
  by (induction es arbitrary: s) (auto split: option.splits intro: tq_reach.step)

text \<open>Two groups: one is committed, the other is cancelled while its rows are being written.\<close>

definition demo_events :: "tensor_dict tq_event list" where
  "demo_events = [Reserve 0 (Some 1) ''a'', Reserve 0 (Some 2) ''b'', Begin ''a'' demo_tb 0 0, Begin ''b'' demo_tb 0 0,
     Put ''a'', Cancel ''b'' True, Finish ''a'', Rollback ''b'', Remove [1] False]"

text \<open>
  C1: No row is lost track of: in every state the buffer, its concurrent commits (cancelled or
  failing at any await) and removals can reach from an empty data plane, once no commit and no
  clear is pending, each row still in the data plane belongs to a slot of the buffer, was handed
  to the trainer, or is one whose rollback or clear itself failed.
\<close>

theorem no_orphan_rows:
  assumes "row_plane put clear keys" and "tq_reach put clear (tq_start pid routed d) s" and "keys d = {}"
    and "flights s = []" and "clearing s = []"
  shows "keys (plane s) \<subseteq> (\<Union>x\<in>set (slots (buf s)). set (slot_ids x)) \<union> set (handed s) \<union> set (stuck s)"
  by (rule row_plane.quiet_rows[OF assms])

theorem no_orphan_rows_witness:
  "\<exists>s. tq_run demo_events (tq_start ''p'' False demo_plane) = Some s \<and> stuck s = [] \<and> handed s = []
     \<and> map slot_ids (slots (buf s)) = [[''a_g0'', ''a_g1'']]
     \<and> noop_keys ''p'' (plane s) \<subseteq> {''a_g0'', ''a_g1''}"
proof -
  have run: "case tq_run demo_events (tq_start ''p'' False demo_plane) of None \<Rightarrow> False
      | Some s \<Rightarrow> flights s = [] \<and> clearing s = [] \<and> stuck s = [] \<and> handed s = []
          \<and> map slot_ids (slots (buf s)) = [[''a_g0'', ''a_g1'']]"
    by code_simp
  then obtain s where s: "tq_run demo_events (tq_start ''p'' False demo_plane) = Some s"
    and q: "flights s = []" "clearing s = []" "stuck s = []" "handed s = []"
      "map slot_ids (slots (buf s)) = [[''a_g0'', ''a_g1'']]"
    by (auto split: option.splits)
  have e: "noop_keys ''p'' demo_plane = {}" by code_simp
  have "(\<Union>x\<in>set (slots (buf s)). set (slot_ids x)) = \<Union> (set ` set (map slot_ids (slots (buf s))))" by simp
  also have "\<dots> = {''a_g0'', ''a_g1''}" by (simp only: q(5)) simp
  finally have "(\<Union>x\<in>set (slots (buf s)). set (slot_ids x)) = {''a_g0'', ''a_g1''}" .
  with no_orphan_rows[OF noop_plane.row_plane_axioms tq_run_reach[OF s tq_reach.start] e q(1,2)] s q
  show ?thesis by auto
qed

text \<open>
  C2: What a sampler may select is there: in every reachable state, whatever commits, rollbacks
  and removals run concurrently, a slot marked ready has its metadata, and every row the metadata
  names is in the data plane.
\<close>

theorem ready_rows_present:
  assumes "row_plane put clear keys" and "tq_reach put clear (tq_start pid routed d) s" and "keys d = {}"
    and "x \<in> set (slots (buf s))" and "sl_ready x"
  shows "\<exists>m. sl_meta x = Some m \<and> set (sample_ids m) \<subseteq> keys (plane s)"
  by (rule row_plane.ready_rows[OF assms])

theorem ready_rows_present_witness:
  "\<exists>s m. tq_run demo_events (tq_start ''p'' False demo_plane) = Some s \<and> sl_meta (slots (buf s) ! 0) = Some m
     \<and> set (sample_ids m) \<subseteq> noop_keys ''p'' (plane s)"
proof -
  have run: "case tq_run demo_events (tq_start ''p'' False demo_plane) of None \<Rightarrow> False
      | Some s \<Rightarrow> (case slots (buf s) of [x] \<Rightarrow> sl_ready x | _ \<Rightarrow> False)"
    by code_simp
  then obtain s x where s: "tq_run demo_events (tq_start ''p'' False demo_plane) = Some s"
    and x: "slots (buf s) = [x]" "sl_ready x"
    by (auto split: option.splits list.splits)
  have e: "noop_keys ''p'' demo_plane = {}" by code_simp
  have "x \<in> set (slots (buf s))" using x by simp
  from ready_rows_present[OF noop_plane.row_plane_axioms tq_run_reach[OF s tq_reach.start] e this x(2)] s x(1)
  show ?thesis by (simp del: nth_slots)
qed

section \<open>Checkpoints and promotions\<close>

lemma pick_ready:
  assumes "tq_parallel b"
  shows "pick (slots b) (ix_filter (\<lambda>r. r) (ready_list b)) = filter sl_ready (slots b)"
proof -
  have "ix_filter (\<lambda>r. r) (ready_list b) = ix_filter sl_ready (slots b)"
    unfolding columns_of_slots(5)[OF assms] by (auto simp: ix_filter_def intro: filter_cong)
  then show ?thesis by (simp add: pick_ix_filter)
qed

definition saved_slot :: "'td saved_group \<Rightarrow> slot" where
  "saved_slot g = \<lparr>sl_meta = Some (g_meta g), sl_start = g_start g, sl_end = g_end g, sl_target = g_target g,
     sl_ready = True, sl_group = g_group g\<rparr>"

lemma state_dict_slots:
  assumes p: "tq_parallel b" and s: "tq_state_dict get b d cap = Inr s"
  shows "\<exists>gs. sv_groups s = Some (map Some gs) \<and> sv_partition s = Some (part b) \<and> sv_capacity s = Some cap
    \<and> map saved_slot gs = filter sl_ready (slots b)"
proof -
  let ?ixs = "ix_filter (\<lambda>r. r) (ready_list b)"
  obtain snap gs where snap: "ready_snapshot b = Inr snap"
    and gs: "mapR (\<lambda>(m, s, e, t, g). bindR (get d (sample_ids m) (field_names m)) (\<lambda>x.
        Inr (Some \<lparr>g_meta = m, g_start = s, g_end = e, g_target = t, g_group = g, g_data = x\<rparr>))) snap = Inr gs"
    and sv: "sv_groups s = Some gs" "sv_partition s = Some (part b)" "sv_capacity s = Some cap"
    using s by (auto simp: tq_state_dict_def bindR_Inr)
  have a1: "list_all2 (\<lambda>i r. (case meta_list b ! i of None \<Rightarrow> Inl AssertionError | Some m \<Rightarrow>
      Inr (m, start_weight_list b ! i, end_weight_list b ! i, target_step_list b ! i, group_ids b ! i)) = Inr r) ?ixs snap"
    using snap unfolding ready_snapshot_def mapR_Inr .
  have a2: "list_all2 (\<lambda>(m, s, e, t, g) r. \<exists>x. r = Some \<lparr>g_meta = m, g_start = s, g_end = e, g_target = t, g_group = g, g_data = x\<rparr>)
      snap gs"
    using gs unfolding mapR_Inr by (rule list_all2_mono) (auto simp: bindR_Inr)
  have "list_all2 (\<lambda>i r. \<exists>g. r = Some g \<and> (i < tq_size b \<and> ready_list b ! i \<longrightarrow> saved_slot g = slots b ! i)) ?ixs gs"
    by (rule list_all2_trans[OF _ a1 a2]) (auto simp: saved_slot_def slot_at_def split: option.splits)
  then obtain fs where fs: "gs = map Some fs" "length fs = length ?ixs"
    "\<forall>k<length fs. ?ixs ! k < tq_size b \<and> ready_list b ! (?ixs ! k) \<longrightarrow> saved_slot (fs ! k) = slots b ! (?ixs ! k)"
    by (auto simp: list_all2_conv_all_nth intro!: that[of "map the gs"] nth_equalityI)
  have "?ixs ! k < tq_size b \<and> ready_list b ! (?ixs ! k)" if "k < length ?ixs" for k
    using nth_mem[OF that] tq_parallelD[OF p] by (auto simp: tq_size_def)
  then have "map saved_slot fs = pick (slots b) ?ixs"
    using fs(2,3) by (auto simp: pick_def intro!: nth_equalityI simp del: nth_slots)
  with fs(1) sv pick_ready[OF p] show ?thesis by auto
qed

lemma check_groups_Inr: "check_groups n seen gs = Inr ks \<Longrightarrow> gs = map Some ks"
  by (induction n seen gs arbitrary: ks rule: check_groups.induct)
    (auto simp: Let_def bindR_Inr split: if_splits)

lemma put_groups_slots:
  "put_groups put gs b d = ((b', d'), Inr u) \<Longrightarrow> tq_parallel b \<Longrightarrow>
     tq_parallel b' \<and> slots b' = slots b @ map saved_slot gs"
proof (induction put gs b d rule: put_groups.induct)
  case (2 put g gs b d)
  obtain d1 r where p: "put d (sample_ids (g_meta g)) (g_data g) (case tags (g_meta g) of None \<Rightarrow> [] | Some ts \<Rightarrow> ts) = (d1, r)"
    by fastforce
  with 2(2) obtain v where r: "r = Inr v" and rest: "put_groups put gs (append_group b g) d1 = ((b', d'), Inr u)"
    by (cases r) auto
  from 2(1)[OF p[symmetric] r rest] slots_append_group[OF 2(3), of g] show ?case
    by (simp add: saved_slot_def)
qed simp

lemma load_slots:
  assumes "tq_load_state_dict put b d s mx pid n = ((b', d'), Inr k)" and "tq_parallel b"
  obtains gs kept where "sv_groups s = Some (map Some gs)" "truncate_groups mx gs = Inr kept"
    "tq_parallel b'" "slots b' = slots b @ map saved_slot kept" "k = length kept"
proof -
  obtain p c os where sv: "sv_partition s = Some p" "sv_capacity s = Some c" "sv_groups s = Some os" "p = pid"
    using assms(1) by (auto simp: tq_load_state_dict_def split: option.splits if_splits)
  obtain kept where kept: "bindR (check_groups n [] os) (truncate_groups mx) = Inr kept"
    using assms(1) sv by (auto simp: tq_load_state_dict_def split: sum.splits)
  then obtain gs where gs: "check_groups n [] os = Inr gs" "truncate_groups mx gs = Inr kept"
    by (auto simp: bindR_Inr)
  obtain bd r where pg: "put_groups put kept b d = (bd, r)" by fastforce
  then have "bd = (b', d')" "bindR r (\<lambda>_. Inr (length kept)) = Inr k"
    using assms(1) sv kept by (auto simp: tq_load_state_dict_def)
  then obtain u where u: "put_groups put kept b d = ((b', d'), Inr u)" "k = length kept"
    using pg by (auto simp: bindR_Inr)
  with that[of gs kept] put_groups_slots[OF u(1) assms(2)] gs sv check_groups_Inr show ?thesis by blast
qed

lemma truncate_groups_Inr:
  assumes "truncate_groups mx gs = Inr kept"
  shows "kept = gs \<and> int (length gs) \<le> mx \<or>
    (mx < int (length gs) \<and> list_all (\<lambda>g. g_target g = None) gs \<and> int (length kept) = max 0 mx \<and>
     (\<exists>ixs. kept = pick gs ixs \<and> sorted_wrt (<) ixs \<and> set ixs \<subseteq> {..<length gs} \<and>
        (\<forall>i\<in>set ixs. \<forall>j<length gs. j \<notin> set ixs \<longrightarrow> g_start (gs ! j) \<le> g_start (gs ! i))))"
proof (cases "int (length gs) > mx")
  case True
  let ?cut = "nat (int (length gs) - mx)" and ?all = "sort_key (\<lambda>i. (g_start (gs ! i), i)) [0..<length gs]"
  let ?ixs = "sort (drop ?cut ?all)"
  have k: "kept = pick gs ?ixs" and t: "list_all (\<lambda>g. g_target g = None) gs"
    using assms True by (auto simp: truncate_groups_def Let_def list_ex_iff list_all_iff split: if_splits)
  have "distinct ?ixs" by simp
  then have srt: "sorted_wrt (<) ?ixs" by (simp add: strict_sorted_iff)
  have sub: "set ?ixs \<subseteq> {..<length gs}" by (auto dest: in_set_dropD)
  have best: "g_start (gs ! j) \<le> g_start (gs ! i)" if "i \<in> set ?ixs" "j < length gs" "j \<notin> set ?ixs" for i j
  proof -
    have "sorted (map (\<lambda>i. (g_start (gs ! i), i)) (take ?cut ?all @ drop ?cut ?all))" by simp
    moreover have "j \<in> set (take ?cut ?all @ drop ?cut ?all)" using that(2) by simp
    then have "j \<in> set (take ?cut ?all)" using that(3) unfolding set_append by simp
    moreover have "i \<in> set (drop ?cut ?all)" using that(1) by simp
    ultimately have "(g_start (gs ! j), j) \<le> (g_start (gs ! i), i)"
      unfolding map_append sorted_append by auto
    then show ?thesis by auto
  qed
  have "int (length kept) = max 0 mx" using True by (simp add: k)
  with True k t srt sub best show ?thesis by blast
next
  case False
  with assms show ?thesis by (simp add: truncate_groups_def)
qed

text \<open>
  C34: A checkpoint brings the finished work back: when the buffer is saved and the state is loaded
  into an empty buffer with room for it, the slots are exactly the ready slots, in their order,
  with their metadata, versions, target steps and group ids; reservations in flight are dropped.
\<close>

theorem checkpoint_restores_ready:
  assumes "tq_parallel b" and "tq_state_dict get b d cap = Inr s"
    and "tq_load_state_dict put (new_tq pid routed) d0 s mx pid n = ((b', d'), Inr k)"
    and "int (length (filter sl_ready (slots b))) \<le> mx"
  shows "slots b' = filter sl_ready (slots b) \<and> k = length (filter sl_ready (slots b)) \<and> tq_parallel b'"
proof -
  obtain gs where gs: "sv_groups s = Some (map Some gs)" "map saved_slot gs = filter sl_ready (slots b)"
    using state_dict_slots[OF assms(1,2)] by blast
  obtain gs' kept where l: "sv_groups s = Some (map Some gs')" "truncate_groups mx gs' = Inr kept"
    "tq_parallel b'" "slots b' = slots (new_tq pid routed) @ map saved_slot kept" "k = length kept"
    by (rule load_slots[OF assms(3) slots_new(2)])
  have same: "gs' = gs" using gs(1) l(1) by (simp add: inj_map_eq_map)
  have "length gs = length (filter sl_ready (slots b))" using gs(2) by (metis length_map)
  then have "kept = gs" using l(2) same assms(4) by (simp add: truncate_groups_def)
  with l gs(2) show ?thesis by (simp, metis length_map)
qed

definition demo_saved_system :: "(client, tensor_dict) tq_system" where
  "demo_saved_system = the (tq_run
     [Reserve 0 (Some 1) ''a'', Reserve 0 (Some 2) ''b'', Begin ''a'' demo_tb 0 0, Put ''a'', Finish ''a''] (tq_start ''p'' False demo_plane))"

definition noop_get :: "string \<Rightarrow> client \<Rightarrow> string list \<Rightarrow> string list option \<Rightarrow> tensor_dict res" where
  "noop_get pid c ids fs = (case fs of None \<Rightarrow> Inl ValueError
     | Some names \<Rightarrow> bindR (snd (get_samples c ids pid names)) (\<lambda>cols. Inr (tensors cols)))"

theorem checkpoint_restores_ready_witness:
  "\<exists>s b' d' k. tq_state_dict (noop_get ''p'') (buf demo_saved_system) (plane demo_saved_system) 4 = Inr s
     \<and> tq_load_state_dict (noop_put ''p'') (new_tq ''p'' False) demo_plane s 4 ''p'' 2 = ((b', d'), Inr k)
     \<and> slots b' = filter sl_ready (slots (buf demo_saved_system)) \<and> k = 1"
proof -
  let ?b = "buf demo_saved_system"
  have "ok (tq_state_dict (noop_get ''p'') ?b (plane demo_saved_system) 4)" by code_simp
  then obtain s where s: "tq_state_dict (noop_get ''p'') ?b (plane demo_saved_system) 4 = Inr s" by (auto simp: ok_iff)
  have "case tq_state_dict (noop_get ''p'') ?b (plane demo_saved_system) 4 of Inl _ \<Rightarrow> False
      | Inr s \<Rightarrow> ok (snd (tq_load_state_dict (noop_put ''p'') (new_tq ''p'' False) demo_plane s 4 ''p'' 2))"
    by code_simp
  then obtain b' d' k where l: "tq_load_state_dict (noop_put ''p'') (new_tq ''p'' False) demo_plane s 4 ''p'' 2 = ((b', d'), Inr k)"
    using s by (auto simp: ok_iff) (metis prod.collapse)
  have p: "tq_parallel ?b" by code_simp
  have n: "length (filter sl_ready (slots ?b)) = 1" by code_simp
  then have "int (length (filter sl_ready (slots ?b))) \<le> 4" by simp
  from checkpoint_restores_ready[OF p s l this] n s l show ?thesis by auto
qed

text \<open>
  Loading more groups than the buffer may hold keeps the freshest, in their order, exactly up to
  the limit, and never drops a group stamped for a training step: such a checkpoint is refused.
\<close>

theorem load_keeps_freshest:
  assumes "tq_load_state_dict put (new_tq pid routed) d s mx pid n = ((b', d'), Inr k)" and "0 \<le> mx"
    and "sv_groups s = Some (map Some gs)"
  shows "int k \<le> mx \<and> tq_size b' = k \<and> (int (length gs) \<le> mx \<longrightarrow> slots b' = map saved_slot gs)
    \<and> (mx < int (length gs) \<longrightarrow> int k = mx \<and> list_all (\<lambda>g. g_target g = None) gs
        \<and> (\<exists>ixs. slots b' = map saved_slot (pick gs ixs) \<and> sorted_wrt (<) ixs \<and> set ixs \<subseteq> {..<length gs}
             \<and> (\<forall>i\<in>set ixs. \<forall>j<length gs. j \<notin> set ixs \<longrightarrow> g_start (gs ! j) \<le> g_start (gs ! i))))"
proof -
  obtain gs' kept where l: "sv_groups s = Some (map Some gs')" "truncate_groups mx gs' = Inr kept"
    "tq_parallel b'" "slots b' = slots (new_tq pid routed) @ map saved_slot kept" "k = length kept"
    by (rule load_slots[OF assms(1) slots_new(2)])
  have same: "gs' = gs" using assms(3) l(1) by (simp add: inj_map_eq_map)
  have sl: "slots b' = map saved_slot kept" using l(4) by simp
  then have "tq_size b' = k" using l(5) by (metis length_map length_slots)
  with truncate_groups_Inr[OF l(2)[unfolded same]] sl l(5) assms(2) show ?thesis by auto
qed

theorem load_keeps_freshest_witness:
  "\<exists>s b' d' k. tq_load_state_dict (noop_put ''p'') (new_tq ''p'' False) demo_plane s 1 ''p'' 2 = ((b', d'), Inr k) \<and> k \<le> 1"
proof -
  let ?m = "\<lambda>g. \<lparr>partition_id = ''p'', task_name = None, sample_ids = [sample_id g 0, sample_id g 1], field_names = Some [''x''],
      sequence_lengths = Some [1, 2], extra_info = [], tags = Some [[], []]\<rparr>"
  let ?g = "\<lambda>g w. \<lparr>g_meta = ?m g, g_start = w, g_end = w, g_target = None, g_group = g, g_data = [(''x'', TensorLeaf [3, 4])]\<rparr>"
  let ?s = "\<lparr>sv_partition = Some ''p'', sv_capacity = Some 9, sv_groups = Some (map Some [?g ''a'' 5, ?g ''b'' 3])\<rparr>"
  have "ok (snd (tq_load_state_dict (noop_put ''p'') (new_tq ''p'' False) demo_plane ?s 1 ''p'' 2))" by code_simp
  then obtain b' d' k where l: "tq_load_state_dict (noop_put ''p'') (new_tq ''p'' False) demo_plane ?s 1 ''p'' 2 = ((b', d'), Inr k)"
    by (auto simp: ok_iff) (metis prod.collapse)
  have "sv_groups ?s = Some (map Some [?g ''a'' 5, ?g ''b'' 3])" by simp
  from load_keeps_freshest[OF l _ this] l show ?thesis by auto
qed

text \<open>
  Borrowing from a later step: \<open>promote_ready_group\<close> finds a lender exactly when some ready slot is
  stamped for a later step; it takes a slot of the furthest such step, re-stamps only that slot,
  and so moves one group from the lender's step to the given step.
\<close>

theorem promote_takes_furthest:
  assumes "tq_parallel b" and "promote_ready_group b to = (b', r)"
  shows "tq_parallel b' \<and> (case r of
      None \<Rightarrow> b' = b \<and> list_all (\<lambda>x. case sl_target x of Some u \<Rightarrow> sl_ready x \<longrightarrow> u \<le> to | None \<Rightarrow> True) (slots b)
    | Some t \<Rightarrow> to < t
        \<and> list_all (\<lambda>x. case sl_target x of Some u \<Rightarrow> sl_ready x \<longrightarrow> u \<le> t | None \<Rightarrow> True) (slots b)
        \<and> (\<exists>i<tq_size b. sl_target (slots b ! i) = Some t \<and> sl_ready (slots b ! i)
             \<and> slots b' = (slots b)[i := (slots b ! i)\<lparr>sl_target := Some to\<rparr>]))"
proof -
  let ?xs = "zip (target_step_list b) (ready_list b)"
  have xs: "length ?xs = tq_size b" "i < tq_size b \<Longrightarrow> ?xs ! i = (sl_target (slots b ! i), sl_ready (slots b ! i))" for i
    using tq_parallelD[OF assms(1)] by (simp_all add: tq_size_def)
  have xl: "length (target_step_list b) = tq_size b" "length (ready_list b) = tq_size b"
    using tq_parallelD[OF assms(1)] by (simp_all add: tq_size_def)
  have best: "list_all (\<lambda>x. case sl_target x of Some u \<Rightarrow> sl_ready x \<longrightarrow> u \<le> to \<or> (\<exists>i t. res = Some (i, t) \<and> u \<le> t) | None \<Rightarrow> True) (slots b)"
    if "lender_scan to 0 ?xs None = res" for res
    using lender_scan_best[OF that] xs xl
    by (auto simp: list_all_length split: option.splits bool.splits simp del: nth_slots)
  show ?thesis
  proof (cases "lender_scan to 0 ?xs None")
    case None
    with assms best[OF None] show ?thesis
      by (auto simp: promote_ready_group_def list_all_iff split: option.splits)
  next
    case (Some it)
    obtain i t where it: "it = (i, t)" by (cases it)
    have sp: "i < tq_size b" "?xs ! i = (Some t, True)" "to < t"
      using lender_scan_spec[OF Some[unfolded it]] xs(1) by auto
    note pr = slots_promote[OF assms(1) sp(1), of to]
    have b': "b' = b\<lparr>target_step_list := (target_step_list b)[i := Some to]\<rparr>" "r = Some t"
      using assms(2) Some it by (auto simp: promote_ready_group_def)
    have "list_all (\<lambda>x. case sl_target x of Some u \<Rightarrow> sl_ready x \<longrightarrow> u \<le> t | None \<Rightarrow> True) (slots b)"
      using best[OF Some] sp(3) it by (fastforce simp: list_all_iff split: option.splits)
    moreover have "sl_target (slots b ! i) = Some t \<and> sl_ready (slots b ! i)"
      using sp(1,2) xs(2)[OF sp(1)] by simp
    ultimately show ?thesis
      using pr sp(1,3) unfolding b' by (auto simp del: nth_slots)
  qed
qed

theorem promote_takes_furthest_witness:
  "\<exists>b'. promote_ready_group (reserve (buf demo_saved_system) 0 (Some 5) ''c'') 0 = (b', Some 1)
     \<and> map sl_target (slots b') = [Some 0, Some 2, Some 5]"
proof -
  let ?b = "reserve (buf demo_saved_system) 0 (Some 5) ''c''"
  have p: "tq_parallel ?b" by code_simp
  have r: "snd (promote_ready_group ?b 0) = Some 1" "map sl_target (slots (fst (promote_ready_group ?b 0))) = [Some 0, Some 2, Some 5]"
    by code_simp+
  obtain b' where b': "promote_ready_group ?b 0 = (b', Some 1)" using r(1) by (metis prod.collapse)
  from promote_takes_furthest[OF p b'] b' r show ?thesis by simp
qed

text \<open>
  The sample ids of one group are pairwise distinct, and no id is shared by two groups, whatever
  characters the group ids contain: rows written by one attempt never collide with another's.
\<close>

theorem sample_ids_distinct:
  "(case (pack_payload tb w g, pack_payload tb' w' h) of
      ((ids, _, ts), (ids', _, _)) \<Rightarrow> distinct ids \<and> length ids = length (tb_lengths tb) \<and> length ts = length ids
        \<and> (g = h \<or> set ids \<inter> set ids' = {}))"
  by (auto simp: pack_payload_def Let_def distinct_map inj_on_def sample_id_inj)

end
