(* ===== verification/Samplers.thy ===== *)
theory Samplers
  imports TQBuffer
begin

text \<open>
  The staleness policies of the single-controller loop
  (\<open>nemo_rl/algorithms/async_utils/staleness_sampler.py\<close>): when the rollout side may dispatch the
  next batch (\<open>admit\<close>), which groups the trainer takes (\<open>select\<close>) and which are dropped (\<open>evict\<close>).
  A policy is a value of \<open>policy\<close>, one constructor per class, with its parameters; the state is the
  dispatch cursor, the gate window and the buffer.  \<open>select\<close> and \<open>evict\<close> end in \<open>remove\<close> of the buffer.
\<close>

section \<open>Policies\<close>

datatype policy =
    Windowed (max_staleness: int) (freshest_first: bool)
  | ReadyFirst int
  | WeightFifo int
  | InOrder (max_lookahead: int) (warmup_lookahead: "int option")

record sampler =
  policy :: policy
  dispatch_index :: int
  gate_window :: int

definition set_dispatch_index :: "sampler \<Rightarrow> int \<Rightarrow> sampler res" where
  "set_dispatch_index s step =
     (if step < 0 then Inl ValueError else Inr (s\<lparr>dispatch_index := step - 1\<rparr>))"

definition set_gate_window :: "sampler \<Rightarrow> int \<Rightarrow> sampler res" where
  "set_gate_window s w = (if w < 0 then Inl ValueError else Inr (s\<lparr>gate_window := w\<rparr>))"

definition base_sampler :: "policy \<Rightarrow> sampler" where
  "base_sampler p = \<lparr>policy = p, dispatch_index = -1, gate_window = 0\<rparr>"

definition new_sampler :: "policy \<Rightarrow> sampler res" where
  "new_sampler p =
     (case p of
        Windowed m fresh \<Rightarrow> if m < 0 then Inl ValueError else Inr (base_sampler p)
      | ReadyFirst m \<Rightarrow> set_gate_window (base_sampler p) m
      | WeightFifo m \<Rightarrow> set_gate_window (base_sampler p) m
      | InOrder l warm \<Rightarrow> set_gate_window (base_sampler p) l)"

section \<open>Derived facts\<close>

definition eviction_window :: "sampler \<Rightarrow> int" where
  "eviction_window s = (case policy s of Windowed m _ \<Rightarrow> m | _ \<Rightarrow> gate_window s)"

definition is_on_policy :: "sampler \<Rightarrow> bool" where
  "is_on_policy s \<longleftrightarrow> eviction_window s = 0"

definition should_abort_inflight :: "sampler \<Rightarrow> int \<Rightarrow> int \<Rightarrow> bool" where
  "should_abort_inflight s start current =
     (case policy s of Windowed m _ \<Rightarrow> start < max 0 (current - m) | _ \<Rightarrow> False)"

definition gated_capacity :: "int \<Rightarrow> int \<Rightarrow> int" where
  "gated_capacity groups window = groups * (window + 1)"

definition required_buffer_capacity :: "sampler \<Rightarrow> int \<Rightarrow> int option" where
  "required_buffer_capacity s groups =
     (case policy s of
        Windowed _ _ \<Rightarrow> None
      | InOrder l warm \<Rightarrow> Some (gated_capacity groups (case warm of None \<Rightarrow> l | Some w \<Rightarrow> w))
      | _ \<Rightarrow> Some (gated_capacity groups (gate_window s)))"

section \<open>Admission\<close>

text \<open>
  One poll of the gate at trainer version \<open>v\<close>: \<open>None\<close> when the pump sleeps and polls again, otherwise the
  sampler and the stamp of the admitted batch.
\<close>

definition poll_gate :: "sampler \<Rightarrow> int \<Rightarrow> (sampler \<times> int option) option" where
  "poll_gate s v =
     (case policy s of
        Windowed _ _ \<Rightarrow> Some (s, None)
      | p \<Rightarrow>
          if dispatch_index s \<ge> v + gate_window s then None
          else (let s' = s\<lparr>dispatch_index := dispatch_index s + 1\<rparr>
                in Some (s', case p of InOrder _ _ \<Rightarrow> Some (dispatch_index s') | _ \<Rightarrow> None)))"

text \<open>\<open>admit\<close> over the versions its polls see; it has not returned when they run out.\<close>

fun admit :: "sampler \<Rightarrow> int list \<Rightarrow> (sampler \<times> int option) option" where
  "admit s [] = None"
| "admit s (v # vs) = (case poll_gate s v of None \<Rightarrow> admit s vs | Some r \<Rightarrow> Some r)"

section \<open>Selection\<close>

definition validate_group_bounds :: "int \<Rightarrow> int \<Rightarrow> unit res" where
  "validate_group_bounds mn mx =
     (if mn < 1 then Inl ValueError else if mx < mn then Inl ValueError else Inr ())"

text \<open>
  The chosen groups are capped, dropped from the buffer without clearing their rows, and their
  metadata concatenated.  A chosen slot without metadata is an attribute error.
\<close>

definition concat_metas :: "meta option list \<Rightarrow> meta res" where
  "concat_metas ms =
     (case ms of
        [] \<Rightarrow> Inl IndexError
      | None # _ \<Rightarrow> Inl AttributeError
      | Some m # rest \<Rightarrow>
          (if None \<in> set rest then Inl AttributeError else meta_concat m (map the rest)))"

definition finalize_selection ::
  "('dp \<Rightarrow> string list \<Rightarrow> 'dp \<times> unit res) \<Rightarrow> tq_buffer \<Rightarrow> 'dp \<Rightarrow> nat list \<Rightarrow> int \<Rightarrow> int \<Rightarrow>
   (tq_buffer \<times> 'dp) \<times> (meta option \<times> nat) res" where
  "finalize_selection clear b d valid mn mx =
     (if int (length valid) < mn then ((b, d), Inr (None, 0))
      else (let chosen = take (nat (min (int (length valid)) mx)) valid;
                metas = pick (meta_list b) chosen
            in case remove clear b d chosen False of
                 (bd, Inl e) \<Rightarrow> (bd, Inl e)
               | (bd, Inr _) \<Rightarrow> (bd, bindR (concat_metas metas) (\<lambda>m. Inr (Some m, length chosen)))))"

definition slot_rows :: "tq_buffer \<Rightarrow> (int \<times> int option \<times> bool) list" where
  "slot_rows b = zip (start_weight_list b) (zip (target_step_list b) (ready_list b))"

text \<open>The indices each policy may select from at trainer version \<open>v\<close>, in its order of preference.\<close>

definition windowed_indices :: "int \<Rightarrow> bool \<Rightarrow> tq_buffer \<Rightarrow> int \<Rightarrow> nat list" where
  "windowed_indices m fresh b v =
     (let ixs = ix_filter (\<lambda>(w, _, r). max 0 (v - m) \<le> w \<and> w \<le> v \<and> r) (slot_rows b)
      in if fresh then sort_key (\<lambda>i. (v - start_weight_list b ! i, i)) ixs else ixs)"

definition ready_first_indices :: "tq_buffer \<Rightarrow> int \<Rightarrow> nat list" where
  "ready_first_indices b v = ix_filter (\<lambda>(w, _, r). w \<le> v \<and> r) (slot_rows b)"

definition weights_in_window :: "int \<Rightarrow> tq_buffer \<Rightarrow> int \<Rightarrow> int list" where
  "weights_in_window m b v = filter (\<lambda>w. max 0 (v - m) \<le> w \<and> w \<le> v) (start_weight_list b)"

definition weight_fifo_indices :: "int \<Rightarrow> tq_buffer \<Rightarrow> int \<Rightarrow> nat list" where
  "weight_fifo_indices m b v =
     (if weights_in_window m b v = [] then []
      else ix_filter (\<lambda>(w, _, r). w = Min (set (weights_in_window m b v)) \<and> r) (slot_rows b))"

definition in_order_indices :: "tq_buffer \<Rightarrow> int \<Rightarrow> nat list" where
  "in_order_indices b v = ix_filter (\<lambda>(_, t, r). t = Some v \<and> r) (slot_rows b)"

definition selectable :: "policy \<Rightarrow> tq_buffer \<Rightarrow> int \<Rightarrow> nat list" where
  "selectable p b v =
     (case p of
        Windowed m fresh \<Rightarrow> windowed_indices m fresh b v
      | ReadyFirst m \<Rightarrow> ready_first_indices b v
      | WeightFifo m \<Rightarrow> weight_fifo_indices m b v
      | InOrder _ _ \<Rightarrow> in_order_indices b v)"

lemmas selectable_defs = selectable_def windowed_indices_def ready_first_indices_def weight_fifo_indices_def
  weights_in_window_def in_order_indices_def

definition select ::
  "('dp \<Rightarrow> string list \<Rightarrow> 'dp \<times> unit res) \<Rightarrow> sampler \<Rightarrow> tq_buffer \<Rightarrow> 'dp \<Rightarrow> int \<Rightarrow> int \<Rightarrow> int \<Rightarrow>
   (tq_buffer \<times> 'dp) \<times> (meta option \<times> nat) res" where
  "select clear s b d v mn mx =
     (case validate_group_bounds mn mx of
        Inl e \<Rightarrow> ((b, d), Inl e)
      | Inr _ \<Rightarrow>
          (case policy s of
             WeightFifo m \<Rightarrow>
               (if weights_in_window m b v = [] then ((b, d), Inr (None, 0))
                else finalize_selection clear b d (selectable (policy s) b v) mn mx)
           | p \<Rightarrow> finalize_selection clear b d (selectable p b v) mn mx))"

section \<open>Eviction\<close>

definition below_window :: "int \<Rightarrow> tq_buffer \<Rightarrow> int \<Rightarrow> nat list" where
  "below_window window b v = ix_filter (\<lambda>(w, _, r). w < max 0 (v - window) \<and> r) (slot_rows b)"

definition passed_targets :: "tq_buffer \<Rightarrow> int \<Rightarrow> nat list" where
  "passed_targets b v = ix_filter (\<lambda>(_, t, r). (case t of None \<Rightarrow> False | Some u \<Rightarrow> u < v) \<and> r) (slot_rows b)"

definition stale :: "sampler \<Rightarrow> tq_buffer \<Rightarrow> int \<Rightarrow> nat list" where
  "stale s b v =
     (case policy s of
        ReadyFirst _ \<Rightarrow> []
      | InOrder _ _ \<Rightarrow> passed_targets b v
      | _ \<Rightarrow> below_window (eviction_window s) b v)"

definition evict ::
  "('dp \<Rightarrow> string list \<Rightarrow> 'dp \<times> unit res) \<Rightarrow> sampler \<Rightarrow> tq_buffer \<Rightarrow> 'dp \<Rightarrow> int \<Rightarrow> (tq_buffer \<times> 'dp) \<times> nat res" where
  "evict clear s b d v = (if stale s b v = [] then ((b, d), Inr 0) else remove clear b d (stale s b v) True)"

section \<open>Configurations\<close>

text \<open>
  The validated configurations; a custom sampler is code outside the repository, \<open>load\<close> its import
  and construction, with whether the object implements the interface.
\<close>

datatype sampler_config =
    WindowedCfg int bool
  | ReadyFirstCfg int
  | WeightFifoCfg int
  | InOrderCfg int "int option"
  | CustomCfg string

definition valid_config :: "sampler_config \<Rightarrow> bool" where
  "valid_config c =
     (case c of
        WindowedCfg m _ \<Rightarrow> 0 \<le> m
      | ReadyFirstCfg m \<Rightarrow> 0 \<le> m
      | WeightFifoCfg m \<Rightarrow> 0 \<le> m
      | InOrderCfg l warm \<Rightarrow> 0 \<le> l \<and> (case warm of None \<Rightarrow> True | Some w \<Rightarrow> 0 \<le> w \<and> l \<le> w)
      | CustomCfg _ \<Rightarrow> True)"

definition peak_lookahead :: "int \<Rightarrow> int option \<Rightarrow> int" where
  "peak_lookahead l warm = (case warm of None \<Rightarrow> l | Some w \<Rightarrow> w)"

definition required_buffer_capacity_for_config :: "sampler_config \<Rightarrow> int \<Rightarrow> int option" where
  "required_buffer_capacity_for_config c groups =
     (case c of
        ReadyFirstCfg m \<Rightarrow> Some (gated_capacity groups m)
      | WeightFifoCfg m \<Rightarrow> Some (gated_capacity groups m)
      | InOrderCfg l warm \<Rightarrow> Some (gated_capacity groups (peak_lookahead l warm))
      | _ \<Rightarrow> None)"

definition create_sampler :: "(string \<Rightarrow> ('x \<times> bool) res) \<Rightarrow> sampler_config \<Rightarrow> ('x + sampler) res" where
  "create_sampler load c =
     (case c of
        WindowedCfg m fresh \<Rightarrow> bindR (new_sampler (Windowed m fresh)) (\<lambda>s. Inr (Inr s))
      | ReadyFirstCfg m \<Rightarrow> bindR (new_sampler (ReadyFirst m)) (\<lambda>s. Inr (Inr s))
      | WeightFifoCfg m \<Rightarrow> bindR (new_sampler (WeightFifo m)) (\<lambda>s. Inr (Inr s))
      | InOrderCfg l warm \<Rightarrow> bindR (new_sampler (InOrder l warm)) (\<lambda>s. Inr (Inr s))
      | CustomCfg target \<Rightarrow>
          (if CHR '':'' \<notin> set target then Inl ValueError
           else bindR (load target) (\<lambda>(x, implements). if implements then Inr (Inl x) else Inl TypeError)))"

section \<open>The policies on slots\<close>

text \<open>Whether a policy may give slot \<open>x\<close> of a buffer to the trainer at version \<open>v\<close>.\<close>

definition eligible :: "policy \<Rightarrow> int \<Rightarrow> slot list \<Rightarrow> slot \<Rightarrow> bool" where
  "eligible p v xs x \<longleftrightarrow> sl_ready x \<and>
     (case p of
        Windowed m _ \<Rightarrow> max 0 (v - m) \<le> sl_start x \<and> sl_start x \<le> v
      | ReadyFirst _ \<Rightarrow> sl_start x \<le> v
      | WeightFifo m \<Rightarrow> max 0 (v - m) \<le> sl_start x \<and> sl_start x \<le> v
          \<and> list_all (\<lambda>y. max 0 (v - m) \<le> sl_start y \<and> sl_start y \<le> v \<longrightarrow> sl_start x \<le> sl_start y) xs
      | InOrder _ _ \<Rightarrow> sl_target x = Some v)"

lemma slot_rows_nth:
  assumes "tq_parallel b"
  shows "length (slot_rows b) = tq_size b"
    "i < tq_size b \<Longrightarrow> slot_rows b ! i = (sl_start (slots b ! i), sl_target (slots b ! i), sl_ready (slots b ! i))"
  using tq_parallelD[OF assms] by (simp_all add: slot_rows_def tq_size_def)

lemma starts_of_slots: "tq_parallel b \<Longrightarrow> set (start_weight_list b) = sl_start ` set (slots b)"
  using columns_of_slots(2)[of b] by (metis list.set_map)

lemma set_slot_filter:
  assumes "tq_parallel b"
  shows "i \<in> set (ix_filter P (slot_rows b)) \<longleftrightarrow>
     i < tq_size b \<and> P (sl_start (slots b ! i), sl_target (slots b ! i), sl_ready (slots b ! i))"
  using slot_rows_nth[OF assms] by auto

lemma selectable_indices:
  assumes "tq_parallel b"
  shows "distinct (selectable p b v)"
    "i \<in> set (selectable p b v) \<longleftrightarrow> i < tq_size b \<and> eligible p v (slots b) (slots b ! i)"
proof -
  show "distinct (selectable p b v)"
    by (cases p) (simp_all add: selectable_defs Let_def)
  show "i \<in> set (selectable p b v) \<longleftrightarrow> i < tq_size b \<and> eligible p v (slots b) (slots b ! i)"
  proof (cases p)
    case (WeightFifo m)
    let ?in = "\<lambda>w. max 0 (v - m) \<le> w \<and> w \<le> v"
    let ?ws = "filter ?in (start_weight_list b)"
    have ws: "set ?ws = {w \<in> sl_start ` set (slots b). ?in w}" using starts_of_slots[OF assms] by auto
    have fifo: "w = Min (set ?ws) \<longleftrightarrow> ?in w \<and> (\<forall>y\<in>set (slots b). ?in (sl_start y) \<longrightarrow> w \<le> sl_start y)"
      if "w \<in> sl_start ` set (slots b)" "?ws \<noteq> []" for w
    proof
      assume "w = Min (set ?ws)"
      moreover have "set ?ws \<noteq> {}" using that(2) by (simp only: set_empty not_False_eq_True)
      then have "Min (set ?ws) \<in> set ?ws" by (rule Min_in[OF finite_set])
      moreover have "Min (set ?ws) \<le> y" if "y \<in> set ?ws" for y using that by (intro Min_le) simp_all
      ultimately show "?in w \<and> (\<forall>y\<in>set (slots b). ?in (sl_start y) \<longrightarrow> w \<le> sl_start y)"
        unfolding ws by blast
    next
      assume r: "?in w \<and> (\<forall>y\<in>set (slots b). ?in (sl_start y) \<longrightarrow> w \<le> sl_start y)"
      show "w = Min (set ?ws)"
      proof (rule Min_eqI[symmetric])
        show "w \<in> set ?ws" unfolding ws using r that(1) by blast
        show "w \<le> y" if "y \<in> set ?ws" for y using that r unfolding ws by blast
      qed (rule finite_set)
    qed
    show ?thesis
    proof (cases "?ws = []")
      case True
      have none: "\<not> ?in (sl_start (slots b ! i))" if "i < tq_size b"
      proof -
        have "slots b ! i \<in> set (slots b)" using that by (metis length_slots nth_mem)
        then show ?thesis using True ws by (auto simp: filter_empty_conv)
      qed
      have "selectable p b v = []" using True by (simp only: WeightFifo selectable_defs policy.case if_True simp_thms)
      with none show ?thesis unfolding eligible_def WeightFifo by auto
    next
      case False
      have "sl_start (slots b ! i) \<in> sl_start ` set (slots b)" if "i < tq_size b"
        using that by (metis imageI length_slots nth_mem)
      note fi = fifo[OF this False]
      have "selectable p b v = ix_filter (\<lambda>(w, _, r). w = Min (set ?ws) \<and> r) (slot_rows b)"
        using False by (simp only: WeightFifo selectable_defs policy.case if_False)
      then have "i \<in> set (selectable p b v) \<longleftrightarrow>
          i < tq_size b \<and> sl_start (slots b ! i) = Min (set ?ws) \<and> sl_ready (slots b ! i)"
        by (simp only: set_slot_filter[OF assms] prod.case)
      moreover have "eligible p v (slots b) (slots b ! i) \<longleftrightarrow> sl_ready (slots b ! i) \<and> ?in (sl_start (slots b ! i))
          \<and> (\<forall>y\<in>set (slots b). ?in (sl_start y) \<longrightarrow> sl_start (slots b ! i) \<le> sl_start y)"
        by (simp only: eligible_def WeightFifo policy.case list_all_iff conj_assoc)
      ultimately show ?thesis using fi by blast
    qed
  qed (auto simp: selectable_defs Let_def set_slot_filter[OF assms] eligible_def simp del: ix_filter_in nth_slots)
qed

text \<open>The slots a policy drops at version \<open>v\<close>.\<close>

definition droppable :: "sampler \<Rightarrow> int \<Rightarrow> slot \<Rightarrow> bool" where
  "droppable s v x \<longleftrightarrow> sl_ready x \<and>
     (case policy s of
        ReadyFirst _ \<Rightarrow> False
      | InOrder _ _ \<Rightarrow> (case sl_target x of None \<Rightarrow> False | Some u \<Rightarrow> u < v)
      | _ \<Rightarrow> sl_start x < max 0 (v - eviction_window s))"

lemma stale_indices:
  assumes "tq_parallel b"
  shows "distinct (stale s b v)" "i \<in> set (stale s b v) \<longleftrightarrow> i < tq_size b \<and> droppable s v (slots b ! i)"
proof -
  show "distinct (stale s b v)" by (cases "policy s") (simp_all add: stale_def below_window_def passed_targets_def)
  show "i \<in> set (stale s b v) \<longleftrightarrow> i < tq_size b \<and> droppable s v (slots b ! i)"
    by (cases "policy s") (auto simp: stale_def below_window_def passed_targets_def set_slot_filter[OF assms] droppable_def simp del: ix_filter_in nth_slots)
qed

text \<open>The invariant the samplers rely on: a ready slot has metadata of the buffer's partition.\<close>

definition slots_ok :: "tq_buffer \<Rightarrow> bool" where
  "slots_ok b \<longleftrightarrow> tq_parallel b \<and>
     list_all (\<lambda>x. sl_ready x \<longrightarrow> (case sl_meta x of None \<Rightarrow> False | Some m \<Rightarrow> partition_id m = part b \<and> meta_wf m)) (slots b)"

lemma ready_metas:
  assumes "slots_ok b" and "\<forall>i\<in>set ixs. i < tq_size b \<and> sl_ready (slots b ! i)"
  obtains ms where "pick (meta_list b) ixs = map Some ms" "map sample_ids ms = map slot_ids (pick (slots b) ixs)"
    "\<forall>m\<in>set ms. partition_id m = part b \<and> meta_wf m"
proof -
  have p: "tq_parallel b" using assms(1) by (simp add: slots_ok_def)
  have ok: "sl_ready x \<Longrightarrow> \<exists>m. sl_meta x = Some m \<and> partition_id m = part b \<and> meta_wf m" if "x \<in> set (slots b)" for x
    using assms(1) that by (auto simp: slots_ok_def list_all_iff split: option.splits)
  have each: "\<exists>m. meta_list b ! i = Some m \<and> sample_ids m = slot_ids (slots b ! i) \<and> partition_id m = part b \<and> meta_wf m"
    if "i \<in> set ixs" for i
  proof -
    have "slots b ! i \<in> set (slots b)" using assms(2) that by (metis length_slots nth_mem)
    with ok[OF this] assms(2) that obtain m where "sl_meta (slots b ! i) = Some m" "partition_id m = part b" "meta_wf m"
      by blast
    then show ?thesis using assms(2) that by (auto simp: slot_ids_def)
  qed
  let ?ms = "map (\<lambda>i. the (meta_list b ! i)) ixs"
  have "pick (meta_list b) ixs = map Some ?ms" using each by (force simp: pick_def)
  moreover have "map sample_ids ?ms = map slot_ids (pick (slots b) ixs)"
    using each by (force simp: pick_def simp del: nth_slots)
  moreover have "\<forall>m\<in>set ?ms. partition_id m = part b \<and> meta_wf m" using each by force
  ultimately show ?thesis by (rule that)
qed

lemma concat_metas_ok:
  assumes "ms \<noteq> []" and "\<forall>m\<in>set ms. partition_id m = pid \<and> meta_wf m"
  shows "\<exists>m. concat_metas (map Some ms) = Inr m \<and> sample_ids m = concat (map sample_ids ms) \<and> partition_id m = pid"
proof -
  obtain m0 rest where ms: "ms = m0 # rest" using assms(1) by (cases ms) auto
  have "aligned (concat_opt (map tags ms)) (length (concat (map sample_ids ms)))"
    using concat_opt_aligned[of "map tags ms" "map (\<lambda>m. length (sample_ids m)) ms"] assms(2)
    by (auto simp: meta_wf_def meta_size_def list_all2_conv_all_nth length_concat comp_def)
  moreover have "\<not> list_ex (\<lambda>n. partition_id n \<noteq> partition_id m0) rest"
    using assms(2) by (auto simp: ms list_ex_iff)
  ultimately show ?thesis
    using assms(2)
    by (auto simp: ms concat_metas_def meta_concat_def replace_rows_def mk_meta_def Let_def comp_def)
qed

lemma finalize_ok:
  assumes b: "slots_ok b" and valid: "distinct valid" "\<forall>i\<in>set valid. i < tq_size b \<and> sl_ready (slots b ! i)"
    and bounds: "1 \<le> mn" "mn \<le> mx"
  defines "chosen \<equiv> take (nat (min (int (length valid)) mx)) valid"
  shows "int (length valid) < mn \<Longrightarrow> finalize_selection clear b d valid mn mx = ((b, d), Inr (None, 0))"
    "\<not> int (length valid) < mn \<Longrightarrow> \<exists>b' m. finalize_selection clear b d valid mn mx = ((b', d), Inr (Some m, length chosen))
       \<and> tq_parallel b' \<and> slots b' = pick (slots b) (others chosen (tq_size b))
       \<and> sample_ids m = concat (map slot_ids (pick (slots b) chosen))"
proof -
  show "int (length valid) < mn \<Longrightarrow> finalize_selection clear b d valid mn mx = ((b, d), Inr (None, 0))"
    by (simp add: finalize_selection_def)
  assume enough: "\<not> int (length valid) < mn"
  have p: "tq_parallel b" using b by (simp add: slots_ok_def)
  have ch: "distinct chosen" "\<forall>i\<in>set chosen. i < tq_size b \<and> sl_ready (slots b ! i)" "chosen \<noteq> []"
    using valid enough bounds by (auto simp: chosen_def dest: in_set_takeD)
  obtain b' where r: "remove clear b d chosen False = ((b', d), Inr (length chosen))" "tq_parallel b'"
    "slots b' = pick (slots b) (others chosen (tq_size b))"
    using remove_False[OF p ch(1)] ch(2) by metis
  obtain ms where ms: "pick (meta_list b) chosen = map Some ms" "map sample_ids ms = map slot_ids (pick (slots b) chosen)"
    "\<forall>m\<in>set ms. partition_id m = part b \<and> meta_wf m"
    using ready_metas[OF b ch(2)] by metis
  have "ms \<noteq> []" using ms(1) ch(3) by auto
  then obtain m where m: "concat_metas (map Some ms) = Inr m" "sample_ids m = concat (map sample_ids ms)"
    using concat_metas_ok ms(3) by blast
  have "finalize_selection clear b d valid mn mx = ((b', d), Inr (Some m, length chosen))"
    using enough r(1) ms(1) m(1) by (simp add: finalize_selection_def Let_def chosen_def[symmetric])
  with r m ms(2) show "\<exists>b' m. finalize_selection clear b d valid mn mx = ((b', d), Inr (Some m, length chosen))
       \<and> tq_parallel b' \<and> slots b' = pick (slots b) (others chosen (tq_size b))
       \<and> sample_ids m = concat (map slot_ids (pick (slots b) chosen))"
    by auto
qed

lemma select_finalizes:
  assumes "1 \<le> mn" "mn \<le> mx"
  shows "select clear s b d v mn mx = finalize_selection clear b d (selectable (policy s) b v) mn mx"
proof (cases "policy s")
  case (WeightFifo m)
  have "finalize_selection clear b d [] mn mx = ((b, d), Inr (None, 0))"
    using assms by (simp add: finalize_selection_def)
  with assms WeightFifo show ?thesis
    by (simp add: select_def validate_group_bounds_def selectable_def weight_fifo_indices_def)
qed (use assms in \<open>simp_all add: select_def validate_group_bounds_def\<close>)

section \<open>Properties\<close>

text \<open>A policy object as the constructors leave it: the gate of the weight-FIFO policy is its window.\<close>

definition sampler_ok :: "sampler \<Rightarrow> bool" where
  "sampler_ok s \<longleftrightarrow> 0 \<le> gate_window s \<and>
     (case policy s of Windowed m _ \<Rightarrow> 0 \<le> m | WeightFifo m \<Rightarrow> gate_window s = m | _ \<Rightarrow> True)"

lemma new_sampler_ok: "new_sampler p = Inr s \<Longrightarrow> sampler_ok s \<and> policy s = p"
  by (cases p) (auto simp: new_sampler_def set_gate_window_def base_sampler_def sampler_ok_def split: if_splits)

definition demo_slots :: tq_buffer where
  "demo_slots =
     (let m = (\<lambda>g. Some \<lparr>partition_id = ''p'', task_name = None, sample_ids = [sample_id g 0], field_names = None,
                sequence_lengths = Some [1], extra_info = [], tags = None\<rparr>)
      in \<lparr>part = ''p'', require_routed = False, meta_list = [m ''a'', m ''b'', None, m ''c''],
          start_weight_list = [0, 2, 2, 3], end_weight_list = [0, 2, -1, 3], target_step_list = [Some 1, Some 3, Some 3, Some 4],
          ready_list = [True, True, False, True], group_ids = [''a'', ''b'', ''d'', ''c'']\<rparr>)"

text \<open>
  C30: What the trainer gets: whatever the policy, a selection hands out between the minimum and the
  maximum number of groups, each once, all ready and eligible under the policy at this trainer
  version; their metadata is the concatenation over exactly these slots, the other slots stay in
  their order, and no row of the data plane is touched.  Nothing is selected only when fewer than
  the minimum are eligible.
\<close>

theorem select_takes_eligible:
  assumes "slots_ok b" and "1 \<le> mn" and "mn \<le> mx" and "select clear s b d v mn mx = ((b', d'), r)"
  shows "d' = d \<and> (case r of
      Inl e \<Rightarrow> False
    | Inr (None, k) \<Rightarrow> b' = b \<and> k = 0 \<and> int (length (filter (eligible (policy s) v (slots b)) (slots b))) < mn
    | Inr (Some m, k) \<Rightarrow> mn \<le> int k \<and> int k \<le> mx \<and>
        (\<exists>ixs. length ixs = k \<and> distinct ixs \<and> set ixs \<subseteq> {..<tq_size b}
          \<and> list_all (eligible (policy s) v (slots b)) (pick (slots b) ixs)
          \<and> sample_ids m = concat (map slot_ids (pick (slots b) ixs))
          \<and> slots b' = pick (slots b) (others ixs (tq_size b)) \<and> tq_parallel b'))"
proof -
  let ?valid = "selectable (policy s) b v"
  have p: "tq_parallel b" using assms(1) by (simp add: slots_ok_def)
  have si: "distinct ?valid" "i \<in> set ?valid \<longleftrightarrow> i < tq_size b \<and> eligible (policy s) v (slots b) (slots b ! i)" for i
    using selectable_indices[OF p] by blast+
  have valid: "\<forall>i\<in>set ?valid. i < tq_size b \<and> sl_ready (slots b ! i)"
    by (intro ballI) (simp only: si(2) eligible_def simp_thms)
  have count: "length ?valid = length (filter (eligible (policy s) v (slots b)) (slots b))"
  proof -
    have "set ?valid = set (ix_filter (eligible (policy s) v (slots b)) (slots b))"
      by (rule set_eqI) (simp only: si(2) ix_filter_in length_slots)
    then have "length ?valid = length (ix_filter (eligible (policy s) v (slots b)) (slots b))"
      using si(1) by (metis distinct_card ix_filter_distinct)
    then show ?thesis by (simp only: length_ix_filter)
  qed
  note fin = finalize_ok[OF assms(1) si(1) valid assms(2,3), of clear d]
  have sel: "finalize_selection clear b d ?valid mn mx = ((b', d'), r)"
    using assms(4) by (simp add: select_finalizes[OF assms(2,3)])
  show ?thesis
  proof (cases "int (length ?valid) < mn")
    case True
    with fin(1) sel count show ?thesis by simp
  next
    case False
    let ?ch = "take (nat (min (int (length ?valid)) mx)) ?valid"
    obtain m where m: "r = Inr (Some m, length ?ch)" "d' = d" "tq_parallel b'"
      "slots b' = pick (slots b) (others ?ch (tq_size b))" "sample_ids m = concat (map slot_ids (pick (slots b) ?ch))"
      using fin(2)[OF False] sel by auto
    have "mn \<le> int (length ?ch) \<and> int (length ?ch) \<le> mx" using False assms(2,3) by auto
    moreover have "distinct ?ch \<and> set ?ch \<subseteq> {..<tq_size b}" using si by (auto dest: in_set_takeD)
    moreover have "list_all (eligible (policy s) v (slots b)) (pick (slots b) ?ch)"
      using si(2) by (auto simp: pick_def list_all_iff simp del: nth_slots dest: in_set_takeD)
    ultimately show ?thesis unfolding m(1) using m by (auto intro!: exI[of _ ?ch])
  qed
qed

theorem select_takes_eligible_witness:
  "\<exists>b' m. select (noop_clear ''p'') (base_sampler (Windowed 1 True)) demo_slots demo_plane 3 1 2 = ((b', demo_plane), Inr (Some m, 2))
     \<and> sample_ids m = [''c_g0'', ''b_g0''] \<and> tq_parallel b'"
proof -
  let ?r = "select (noop_clear ''p'') (base_sampler (Windowed 1 True)) demo_slots demo_plane 3 1 2"
  have ok: "slots_ok demo_slots" by code_simp
  have r: "case snd ?r of Inr (Some m, k) \<Rightarrow> k = 2 \<and> sample_ids m = [''c_g0'', ''b_g0''] | _ \<Rightarrow> False" by code_simp
  obtain b' d' x where s: "?r = ((b', d'), x)" by (metis prod.collapse)
  from select_takes_eligible[OF ok _ _ s] r s show ?thesis
    by (auto split: sum.splits option.splits prod.splits)
qed

text \<open>
  Eviction and abortion never cost a trainable group: a slot that is dropped at some trainer
  version, or whose unfinished rollout is aborted then, is not eligible at that version or at any
  later one.
\<close>

theorem evicted_never_eligible:
  assumes "sampler_ok s" and "v \<le> u"
    and "droppable s v x \<or> should_abort_inflight s (sl_start x) v"
  shows "\<not> eligible (policy s) u xs x"
  using assms
  by (cases "policy s")
    (auto simp: droppable_def eligible_def should_abort_inflight_def sampler_ok_def eviction_window_def split: option.splits)

theorem evicted_never_eligible_witness:
  "stale (base_sampler (Windowed 1 True)) demo_slots 3 = [0] \<and> droppable (base_sampler (Windowed 1 True)) 3 (slots demo_slots ! 0)
     \<and> \<not> eligible (Windowed 1 True) 5 (slots demo_slots) (slots demo_slots ! 0)"
proof -
  have "sampler_ok (base_sampler (Windowed 1 True))" "droppable (base_sampler (Windowed 1 True)) 3 (slots demo_slots ! 0)"
    "stale (base_sampler (Windowed 1 True)) demo_slots 3 = [0]"
    by code_simp+
  with evicted_never_eligible[of "base_sampler (Windowed 1 True)" 3 5 "slots demo_slots ! 0" "slots demo_slots"]
  show ?thesis by (simp add: base_sampler_def)
qed

text \<open>The pump's successive admissions, each with the trainer versions its polls see.\<close>

fun admit_all :: "sampler \<Rightarrow> int list list \<Rightarrow> (sampler \<times> int option list) option" where
  "admit_all s [] = Some (s, [])"
| "admit_all s (vs # vss) =
     (case admit s vs of
        None \<Rightarrow> None
      | Some (s', t) \<Rightarrow> (case admit_all s' vss of None \<Rightarrow> None | Some (s'', ts) \<Rightarrow> Some (s'', t # ts)))"

definition gated :: "sampler \<Rightarrow> bool" where
  "gated s \<longleftrightarrow> (case policy s of Windowed _ _ \<Rightarrow> False | _ \<Rightarrow> True)"

definition batch_stamp :: "sampler \<Rightarrow> int option" where
  "batch_stamp s = (case policy s of InOrder _ _ \<Rightarrow> Some (dispatch_index s) | _ \<Rightarrow> None)"

lemma poll_gate_gated:
  "gated s \<Longrightarrow> poll_gate s v =
     (if v + gate_window s \<le> dispatch_index s then None
      else let s' = s\<lparr>dispatch_index := dispatch_index s + 1\<rparr> in Some (s', batch_stamp s'))"
  by (cases "policy s") (auto simp: gated_def poll_gate_def batch_stamp_def Let_def)

lemma admit_gated:
  assumes "gated s"
  shows "admit s vs =
     (if list_ex (\<lambda>v. dispatch_index s < v + gate_window s) vs
      then let s' = s\<lparr>dispatch_index := dispatch_index s + 1\<rparr> in Some (s', batch_stamp s') else None)"
  by (induction vs) (auto simp: poll_gate_gated[OF assms] Let_def)

lemma gated_update [simp]: "gated (s\<lparr>dispatch_index := k\<rparr>) = gated s"
  by (simp add: gated_def)

text \<open>
  The gate bounds how far generation runs ahead.  An admission under a gated policy returns
  exactly when one of its polls sees the trainer less than the window behind the cursor; it moves the
  cursor by one, and at that poll the batches dispatched and not yet trained on, this one included, fit
  in the buffer capacity the policy asks for.
\<close>

theorem admission_fits_capacity:
  assumes "gated s" and "0 \<le> groups" and "required_buffer_capacity s groups = Some cap"
    and "case policy s of InOrder l w \<Rightarrow> gate_window s \<le> peak_lookahead l w | _ \<Rightarrow> True"
  shows "case admit s vs of
      None \<Rightarrow> list_all (\<lambda>v. v + gate_window s \<le> dispatch_index s) vs
    | Some (s', t) \<Rightarrow> s' = s\<lparr>dispatch_index := dispatch_index s + 1\<rparr> \<and> t = batch_stamp s'
        \<and> list_ex (\<lambda>v. dispatch_index s < v + gate_window s \<and> groups * (dispatch_index s' - v + 1) \<le> cap) vs"
proof -
  have cap: "groups * (gate_window s + 1) \<le> cap"
    using assms(2-4)
    by (cases "policy s")
      (auto simp: required_buffer_capacity_def gated_capacity_def peak_lookahead_def intro!: mult_left_mono split: option.splits)
  have fit: "groups * (dispatch_index s + 1 - v + 1) \<le> cap" if "dispatch_index s < v + gate_window s" for v
  proof -
    have "groups * (dispatch_index s + 1 - v + 1) \<le> groups * (gate_window s + 1)"
      using that assms(2) by (intro mult_left_mono) simp_all
    with cap show ?thesis by simp
  qed
  show ?thesis
  proof (cases "list_ex (\<lambda>v. dispatch_index s < v + gate_window s) vs")
    case True
    then have "list_ex (\<lambda>v. dispatch_index s < v + gate_window s \<and> groups * (dispatch_index s + 1 - v + 1) \<le> cap) vs"
      using fit by (auto simp: list_ex_iff)
    then show ?thesis by (simp add: admit_gated[OF assms(1)] True Let_def)
  qed (auto simp: admit_gated[OF assms(1)] list_all_iff list_ex_iff)
qed

theorem admission_fits_capacity_witness:
  "admit ((base_sampler (InOrder 1 (Some 2)))\<lparr>dispatch_index := 4, gate_window := 2\<rparr>) [2, 2, 3] =
     Some ((base_sampler (InOrder 1 (Some 2)))\<lparr>dispatch_index := 5, gate_window := 2\<rparr>, Some 5)
   \<and> required_buffer_capacity (base_sampler (InOrder 1 (Some 2))) 4 = Some 12"
proof -
  let ?s = "(base_sampler (InOrder 1 (Some 2)))\<lparr>dispatch_index := 4, gate_window := 2\<rparr>"
  have "gated ?s" "required_buffer_capacity ?s 4 = Some 12" by code_simp+
  from admission_fits_capacity[OF this(1) _ this(2), of "[2, 2, 3]"]
  show ?thesis
    by (auto simp: base_sampler_def required_buffer_capacity_def gated_capacity_def peak_lookahead_def
        batch_stamp_def gated_def admit_gated split: option.splits)
qed

lemma admit_all_in_order:
  assumes "policy s = InOrder l w" and "admit_all s vss = Some (s', ts)"
  shows "ts = map (\<lambda>i. Some (dispatch_index s + 1 + int i)) [0..<length vss]"
    "list_all2 (\<lambda>vs t. list_ex (\<lambda>v. the t \<le> v + gate_window s) vs) vss ts"
proof -
  have "ts = map (\<lambda>i. Some (dispatch_index s + 1 + int i)) [0..<length vss]
      \<and> list_all2 (\<lambda>vs t. list_ex (\<lambda>v. the t \<le> v + gate_window s) vs) vss ts"
    using assms
  proof (induction vss arbitrary: s s' ts)
    case (Cons vs vss)
    have g: "gated s" using Cons.prems(1) by (simp add: gated_def)
    let ?s1 = "s\<lparr>dispatch_index := dispatch_index s + 1\<rparr>"
    from Cons.prems obtain ts' where r: "list_ex (\<lambda>v. dispatch_index s < v + gate_window s) vs"
      "admit_all ?s1 vss = Some (s', ts')" "ts = Some (dispatch_index s + 1) # ts'"
      by (auto simp: admit_gated[OF g] Let_def batch_stamp_def split: option.splits if_splits)
    have "policy ?s1 = InOrder l w" using Cons.prems(1) by simp
    from Cons.IH[OF this r(2)] r(1,3) show ?case
      by (auto simp: list_ex_iff upt_conv_Cons map_Suc_upt[symmetric] simp del: upt_Suc) (meson zless_imp_add1_zle)
  qed simp
  then show "ts = map (\<lambda>i. Some (dispatch_index s + 1 + int i)) [0..<length vss]"
    "list_all2 (\<lambda>vs t. list_ex (\<lambda>v. the t \<le> v + gate_window s) vs) vss ts" by blast+
qed

lemma admit_all_lockstep:
  assumes "gated s" and "0 \<le> gate_window s" and "dispatch_index s = k - 1"
  shows "\<exists>ts. admit_all s (map (\<lambda>i. [k + int i]) [0..<n]) = Some (s\<lparr>dispatch_index := k + int n - 1\<rparr>, ts)"
  using assms
proof (induction n arbitrary: s k)
  case (Suc n)
  let ?s1 = "s\<lparr>dispatch_index := k\<rparr>"
  have "map (\<lambda>i. [k + int i]) [0..<Suc n] = [k] # map (\<lambda>i. [(k + 1) + int i]) [0..<n]"
    by (simp only: upt_conv_Cons[OF zero_less_Suc] map_Suc_upt[symmetric]) (simp add: comp_def add.commute add.left_commute)
  moreover obtain ts where "admit_all ?s1 (map (\<lambda>i. [(k + 1) + int i]) [0..<n]) = Some (?s1\<lparr>dispatch_index := (k + 1) + int n - 1\<rparr>, ts)"
    using Suc.IH[of ?s1 "k + 1"] Suc.prems by auto
  moreover have "admit s [k] = Some (?s1, batch_stamp ?s1)"
    using Suc.prems(2,3) by (simp add: admit_gated[OF Suc.prems(1)] Let_def del: admit.simps)
  ultimately show ?case by (simp add: add.commute add.left_commute)
qed simp

text \<open>
  C33: The in-order policy after a restart: with the cursor seeded at step \<open>k\<close>, the successive batches
  are stamped \<open>k, k + 1, \<dots>\<close> without a gap, none is admitted while its step is more than the window ahead
  of the trainer, and a pump whose polls see the trainer at the step it produces for is never blocked.
\<close>

theorem in_order_resumes_without_gap:
  assumes "policy s = InOrder l w" and "0 \<le> gate_window s" and "set_dispatch_index s k = Inr s0"
  shows "(case admit_all s0 vss of
        None \<Rightarrow> True
      | Some (_, ts) \<Rightarrow> ts = map (\<lambda>i. Some (k + int i)) [0..<length vss]
          \<and> list_all2 (\<lambda>vs t. list_ex (\<lambda>v. the t \<le> v + gate_window s) vs) vss ts)
    \<and> admit_all s0 (map (\<lambda>i. [k + int i]) [0..<n]) =
        Some (s\<lparr>dispatch_index := k + int n - 1\<rparr>, map (\<lambda>i. Some (k + int i)) [0..<n])"
proof -
  have s0: "s0 = s\<lparr>dispatch_index := k - 1\<rparr>" using assms(3) by (simp add: set_dispatch_index_def split: if_splits)
  have p: "policy s0 = InOrder l w" "dispatch_index s0 + 1 = k" "gate_window s0 = gate_window s" using assms(1) by (simp_all add: s0)
  note io = admit_all_in_order[OF p(1), unfolded p(2,3)]
  have "gated s0" using p(1) by (simp add: gated_def)
  then obtain ts where ts: "admit_all s0 (map (\<lambda>i. [k + int i]) [0..<n]) = Some (s0\<lparr>dispatch_index := k + int n - 1\<rparr>, ts)"
    using admit_all_lockstep[of s0 k n] assms(2) by (auto simp: s0)
  from io(1)[OF this] ts have "admit_all s0 (map (\<lambda>i. [k + int i]) [0..<n]) =
      Some (s\<lparr>dispatch_index := k + int n - 1\<rparr>, map (\<lambda>i. Some (k + int i)) [0..<n])"
    by (simp add: s0)
  with io show ?thesis by (auto split: option.splits)
qed

theorem in_order_resumes_without_gap_witness:
  "admit_all ((base_sampler (InOrder 1 None))\<lparr>dispatch_index := 6\<rparr>) [[7], [8], [9]] =
     Some ((base_sampler (InOrder 1 None))\<lparr>dispatch_index := 9\<rparr>, [Some 7, Some 8, Some 9])"
proof -
  have "set_dispatch_index (base_sampler (InOrder 1 None)) 7 = Inr ((base_sampler (InOrder 1 None))\<lparr>dispatch_index := 6\<rparr>)"
    by code_simp
  from in_order_resumes_without_gap[OF _ _ this, where vss = "[]" and n = 3 and l = 1 and w = None] show ?thesis
    by (simp add: base_sampler_def upt_conv_Cons)
qed

text \<open>
  The capacity check before the run and the sampler of the run agree: a validated built-in
  configuration always yields a sampler, with a well-formed window, that asks for exactly the capacity
  computed from the configuration, and whose gate the capacity covers.
\<close>

theorem config_capacity_agrees:
  assumes "valid_config c" and "\<not> (case c of CustomCfg _ \<Rightarrow> True | _ \<Rightarrow> False)"
  shows "case create_sampler load c of
      Inr (Inr s) \<Rightarrow> sampler_ok s \<and> dispatch_index s = -1
        \<and> required_buffer_capacity s groups = required_buffer_capacity_for_config c groups
        \<and> (case policy s of InOrder l w \<Rightarrow> gate_window s \<le> peak_lookahead l w | _ \<Rightarrow> True)
    | _ \<Rightarrow> False"
  using assms
  by (cases c)
    (auto simp: create_sampler_def new_sampler_def valid_config_def set_gate_window_def base_sampler_def sampler_ok_def
      required_buffer_capacity_def required_buffer_capacity_for_config_def peak_lookahead_def split: option.splits)

theorem config_capacity_agrees_witness:
  "case create_sampler (\<lambda>_. Inl TypeError :: (unit \<times> bool) res) (InOrderCfg 1 (Some 3)) of
      Inr (Inr s) \<Rightarrow> gate_window s = 1 \<and> required_buffer_capacity s 8 = Some 32
    | _ \<Rightarrow> False"
proof -
  let ?c = "create_sampler (\<lambda>_. Inl TypeError :: (unit \<times> bool) res) (InOrderCfg 1 (Some 3))"
  have "valid_config (InOrderCfg 1 (Some 3))" by code_simp
  from config_capacity_agrees[OF this, where load = "\<lambda>_. Inl TypeError :: (unit \<times> bool) res" and groups = 8]
  have "case ?c of Inr (Inr s) \<Rightarrow> required_buffer_capacity s 8 = Some 32 | _ \<Rightarrow> False"
    by (auto simp: required_buffer_capacity_for_config_def gated_capacity_def peak_lookahead_def split: sum.splits)
  moreover have "case ?c of Inr (Inr s) \<Rightarrow> gate_window s = 1 | _ \<Rightarrow> False" by code_simp
  ultimately show ?thesis by (auto split: sum.splits)
qed

end
