(* ===== verification/Failures.thy ===== *)
theory Failures
  imports Prelude
begin

text \<open>
  The failure taxonomy of the rollout side (\<open>nemo_rl/experience/failures.py\<close>): an exception raised by a
  rollout attempt is an infrastructure failure or a data failure, and the retry budgets depend on it.

  Exceptions are objects: \<open>heap\<close> gives the object of each identity, a cause is an identity, so a chain
  of causes may be cyclic.  An object has the names of the classes it is an instance of, in method
  resolution order, its \<open>status\<close> attribute when that is an integer, and the members of a group, which are
  fixed when the group is built.  \<open>aio\<close> tells whether aiohttp could be imported.
\<close>

section \<open>Exception objects\<close>

datatype exn = Exn (mro: "string list") (status: "int option") (cause: "nat option") (members: "exn list")

type_synonym heap = "nat \<Rightarrow> exn"

definition is_instance :: "exn \<Rightarrow> string \<Rightarrow> bool" where
  "is_instance e c \<longleftrightarrow> c \<in> set (mro e)"

text \<open>\<open>cls.__name__\<close> of a class given by its qualified name, and \<open>type(e).__name__\<close>.\<close>

definition class_name :: "string \<Rightarrow> string" where
  "class_name q = rev (takeWhile (\<lambda>c. c \<noteq> CHR ''.'') (rev q))"

definition type_name :: "exn \<Rightarrow> string" where
  "type_name e = (case mro e of [] \<Rightarrow> [] | c # _ \<Rightarrow> class_name c)"

section \<open>Classification\<close>

datatype failure_class = Infra | Data

definition max_cause_depth :: nat where
  "max_cause_depth = 8"

definition retriable_http_statuses :: "int list" where
  "retriable_http_statuses = [408, 429]"

definition infra_types :: "bool \<Rightarrow> string list" where
  "infra_types aio =
     [''RolloutInfraFailure'', ''TimeoutError'', ''ConnectionError'', ''ray.exceptions.RayActorError'',
      ''ray.exceptions.ActorUnavailableError'', ''ray.exceptions.ActorUnschedulableError'',
      ''ray.exceptions.TaskUnschedulableError'', ''ray.exceptions.WorkerCrashedError'',
      ''ray.exceptions.NodeDiedError'', ''ray.exceptions.LocalRayletDiedError'',
      ''ray.exceptions.OwnerDiedError'', ''ray.exceptions.RpcError'', ''ray.exceptions.GetTimeoutError'',
      ''ray.exceptions.ObjectFetchTimedOutError'', ''ray.exceptions.ObjectLostError'',
      ''ray.exceptions.OutOfMemoryError'', ''ray.exceptions.ObjectStoreFullError'',
      ''ray.exceptions.RaySystemError'']
     @ (if aio then [''aiohttp.ClientConnectionError'', ''aiohttp.ClientPayloadError''] else [])"

definition infra_type_names :: "string list" where
  "infra_type_names =
     [''ClientConnectionError'', ''ClientConnectorError'', ''ClientOSError'', ''ClientPayloadError'',
      ''ServerConnectionError'', ''ServerDisconnectedError'', ''ServerTimeoutError'']"

definition http_status_is_infra :: "int \<Rightarrow> bool" where
  "http_status_is_infra s \<longleftrightarrow> s \<ge> 500 \<or> s \<in> set retriable_http_statuses"

definition exn_http_status :: "bool \<Rightarrow> exn \<Rightarrow> int option" where
  "exn_http_status aio e =
     (if aio
      then if \<not> is_instance e ''aiohttp.ClientResponseError'' then None else status e
      else if \<not> list_ex (\<lambda>c. class_name c = ''ClientResponseError'') (mro e) then None else status e)"

definition is_infra :: "bool \<Rightarrow> exn \<Rightarrow> bool" where
  "is_infra aio e =
     (if is_instance e ''RolloutDataFailure'' then False
      else case exn_http_status aio e of
        Some s \<Rightarrow> http_status_is_infra s
      | None \<Rightarrow> list_ex (is_instance e) (infra_types aio) \<or> list_ex (\<lambda>c. class_name c \<in> set infra_type_names) (mro e))"

text \<open>The loop over the chain of causes: \<open>k\<close> iterations left, the identities seen, the current one.\<close>

fun classify_chain :: "bool \<Rightarrow> heap \<Rightarrow> nat \<Rightarrow> nat list \<Rightarrow> nat option \<Rightarrow> failure_class" where
  "classify_chain aio h 0 seen cur = Data"
| "classify_chain aio h (Suc k) seen None = Data"
| "classify_chain aio h (Suc k) seen (Some i) =
     (if i \<in> set seen then Data
      else if is_infra aio (h i) then Infra
      else classify_chain aio h k (i # seen) (cause (h i)))"

definition classify_rollout_failure :: "bool \<Rightarrow> heap \<Rightarrow> nat \<Rightarrow> failure_class" where
  "classify_rollout_failure aio h i =
     (if is_instance (h i) ''RolloutDataFailure'' then Data
      else classify_chain aio h max_cause_depth [] (Some i))"

text \<open>The classes a generation error is wrapped in (\<open>rollout_manager.py\<close>).\<close>

definition classify_generation_failure :: "bool \<Rightarrow> heap \<Rightarrow> nat \<Rightarrow> string" where
  "classify_generation_failure aio h i =
     (if is_instance (h i) ''ray.exceptions.RayError'' \<or> classify_rollout_failure aio h i = Infra
      then ''GenerationUnavailable'' else ''RolloutDataFailure'')"

fun contains_post_write_enrichment_error :: "exn \<Rightarrow> bool" where
  "contains_post_write_enrichment_error (Exn cs st c ms) =
     (if is_instance (Exn cs st c ms) ''PostWriteEnrichmentError'' then True
      else if is_instance (Exn cs st c ms) ''BaseExceptionGroup'' then list_ex contains_post_write_enrichment_error ms
      else False)"

section \<open>What the classification means\<close>

text \<open>The exception \<open>n\<close> causes away.\<close>

fun nth_cause :: "heap \<Rightarrow> nat option \<Rightarrow> nat \<Rightarrow> nat option" where
  "nth_cause h cur 0 = cur"
| "nth_cause h cur (Suc n) = (case cur of None \<Rightarrow> None | Some i \<Rightarrow> nth_cause h (cause (h i)) n)"

lemma nth_cause_None [simp]: "nth_cause h None n = None"
  by (cases n) auto

lemma nth_cause_closed:
  assumes "\<forall>i\<in>S. \<exists>j\<in>S. cause (h i) = Some j" and "i \<in> S"
  shows "\<exists>j\<in>S. nth_cause h (Some i) n = Some j"
  using assms(2)
proof (induction n arbitrary: i)
  case (Suc n)
  with assms(1) obtain j where "j \<in> S" "cause (h i) = Some j" by blast
  with Suc.IH[of j] show ?case by simp
qed simp

lemma classify_chain_iff:
  assumes "\<forall>i\<in>set seen. \<not> is_infra aio (h i)" and "\<forall>i\<in>set seen. cause (h i) = cur \<or> cause (h i) \<in> Some ` set seen"
  shows "classify_chain aio h k seen cur = Infra \<longleftrightarrow>
     (\<exists>n<k. case nth_cause h cur n of None \<Rightarrow> False | Some j \<Rightarrow> is_infra aio (h j))"
  using assms
proof (induction aio h k seen cur rule: classify_chain.induct)
  case (3 aio h k seen i)
  show ?case
  proof (cases "i \<in> set seen")
    case True
    have closed: "\<forall>j\<in>set seen. \<exists>l\<in>set seen. cause (h j) = Some l"
    proof
      fix j assume "j \<in> set seen"
      then have "cause (h j) = Some i \<or> cause (h j) \<in> Some ` set seen" by (rule bspec[OF 3(3)])
      with True show "\<exists>l\<in>set seen. cause (h j) = Some l" by blast
    qed
    have "\<not> (case nth_cause h (Some i) n of None \<Rightarrow> False | Some j \<Rightarrow> is_infra aio (h j))" for n
    proof -
      obtain j where "j \<in> set seen" "nth_cause h (Some i) n = Some j"
        using nth_cause_closed[OF closed True] by blast
      with 3(2) show ?thesis by simp
    qed
    with True show ?thesis by (simp only: classify_chain.simps if_True) simp
  next
    case new: False
    show ?thesis
    proof (cases "is_infra aio (h i)")
      case False
      have "classify_chain aio h k (i # seen) (cause (h i)) = Infra \<longleftrightarrow>
          (\<exists>n<k. case nth_cause h (cause (h i)) n of None \<Rightarrow> False | Some j \<Rightarrow> is_infra aio (h j))"
        using 3 new False by auto
      with new False show ?thesis by (simp add: Ex_less_Suc2)
    qed (use new in auto)
  qed
qed auto

text \<open>
  A failure is retried as an infrastructure failure exactly when it is not itself marked as a data
  failure and one of the exception and its next seven causes is an infrastructure failure on its own:
  the guard against cycles never changes the answer, and the loop always ends.
\<close>

theorem classify_iff_infra_cause:
  "(classify_rollout_failure aio h i = Infra) =
     (\<not> is_instance (h i) ''RolloutDataFailure'' \<and>
      list_ex (\<lambda>n. case nth_cause h (Some i) n of None \<Rightarrow> False | Some j \<Rightarrow> is_infra aio (h j)) [0..<8])"
  by (auto simp: classify_rollout_failure_def classify_chain_iff max_cause_depth_def list_ex_iff)

text \<open>
  An HTTP response decides by its status whatever else the exception is; a wrapped generation error is
  always one of the two marked classes and is then classified the same way again.
\<close>

lemma is_infra_status:
  "\<not> is_instance e ''RolloutDataFailure'' \<Longrightarrow> exn_http_status aio e = Some s \<Longrightarrow> is_infra aio e = http_status_is_infra s"
  by (simp add: is_infra_def)

definition wrapped_data_failure :: heap where
  "wrapped_data_failure = (\<lambda>_. Exn [''ConnectionError'', ''Exception''] None None [])
     (0 := Exn [''RuntimeError'', ''Exception''] None (Some 1) [],
      1 := Exn [''RolloutDataFailure'', ''RolloutFailure'', ''Exception''] None (Some 2) [])"

text \<open>
  An exception marked as a data failure is recognised only at the head of the chain: wrapped in
  another exception, with a connection error as its own cause, it is retried as an infrastructure
  failure.
\<close>

lemma wrapped_data_failure_is_retried:
  "classify_rollout_failure True wrapped_data_failure 1 = Data
   \<and> classify_rollout_failure True wrapped_data_failure 0 = Infra"
  by code_simp

end
