(* ===== verification/Rollouts.thy ===== *)
theory Rollouts
  imports Complex_Main TQBuffer Failures
begin

text \<open>
  Dispatch of one prompt and its retries (\<open>nemo_rl/experience/rollout_manager.py\<close>):
  \<open>generate_and_push\<close> of \<open>RolloutManager\<close>, which reserves a slot of the TQ buffer per attempt, runs the
  rollout, commits it, and spends an infrastructure or a data budget on failures; and the re-dispatch of
  missing rows inside one NeMo-Gym attempt (\<open>_run_rollouts\<close>).

  The rollout itself, the sleeps and what the other tasks of the event loop do meanwhile are the script of
  an attempt: the functions \<open>a_world\<close> and \<open>a_sleep\<close> on the manager's state.  The result is \<open>None\<close> while the
  script is too short for the call to have returned.
\<close>

section \<open>Retry policy\<close>

record retry_policy =
  max_infra_attempts :: int
  max_data_attempts :: int
  max_gym_row_attempts :: int
  backoff_base_s :: rat
  max_backoff_s :: rat
  max_skipped_prompts :: int
  max_consecutive_dropped_prompts :: int

definition new_policy :: "retry_policy \<Rightarrow> retry_policy res" where
  "new_policy p =
     (if max_infra_attempts p < 1 \<or> max_data_attempts p < 1 \<or> max_gym_row_attempts p < 1
      then Inl ValueError else Inr p)"

definition single_attempt :: "(retry_policy \<Rightarrow> retry_policy) \<Rightarrow> retry_policy res" where
  "single_attempt overrides =
     new_policy (overrides \<lparr>max_infra_attempts = 1, max_data_attempts = 1, max_gym_row_attempts = 1,
       backoff_base_s = 1, max_backoff_s = 30, max_skipped_prompts = 0, max_consecutive_dropped_prompts = 0\<rparr>)"

definition backoff_for :: "retry_policy \<Rightarrow> nat \<Rightarrow> rat" where
  "backoff_for p attempt = min (backoff_base_s p * 2 ^ (attempt - 1)) (max_backoff_s p)"

section \<open>Counters\<close>

record rollout_stats =
  committed :: int
  skipped :: int
  redispatches_by_reason :: "(string \<times> int) list"
  data_retries_by_reason :: "(string \<times> int) list"
  data_failures_by_reason :: "(string \<times> int) list"
  infra_drops_by_reason :: "(string \<times> int) list"
  max_consecutive_infra_drops :: int
  gym_row_redispatches :: int

definition new_stats :: rollout_stats where
  "new_stats = \<lparr>committed = 0, skipped = 0, redispatches_by_reason = [], data_retries_by_reason = [],
     data_failures_by_reason = [], infra_drops_by_reason = [], max_consecutive_infra_drops = 0,
     gym_row_redispatches = 0\<rparr>"

text \<open>\<open>d[k] = d.get(k, 0) + 1\<close>, and \<open>sum(d.values())\<close>.\<close>

definition bump :: "string \<Rightarrow> (string \<times> int) list \<Rightarrow> (string \<times> int) list" where
  "bump k d = AList.update k ((case map_of d k of None \<Rightarrow> 0 | Some n \<Rightarrow> n) + 1) d"

definition total_of :: "(string \<times> int) list \<Rightarrow> int" where
  "total_of d = sum_list (map snd d)"

definition record_redispatch :: "string \<Rightarrow> rollout_stats \<Rightarrow> rollout_stats" where
  "record_redispatch r st = st\<lparr>redispatches_by_reason := bump r (redispatches_by_reason st)\<rparr>"

definition record_data_retry :: "string \<Rightarrow> rollout_stats \<Rightarrow> rollout_stats" where
  "record_data_retry r st = st\<lparr>data_retries_by_reason := bump r (data_retries_by_reason st)\<rparr>"

definition record_data_failure :: "string \<Rightarrow> rollout_stats \<Rightarrow> rollout_stats" where
  "record_data_failure r st = st\<lparr>data_failures_by_reason := bump r (data_failures_by_reason st)\<rparr>"

definition record_infra_drop :: "string \<Rightarrow> int \<Rightarrow> rollout_stats \<Rightarrow> rollout_stats" where
  "record_infra_drop r n st = st\<lparr>infra_drops_by_reason := bump r (infra_drops_by_reason st),
     max_consecutive_infra_drops := max (max_consecutive_infra_drops st) n\<rparr>"

definition record_gym_row_redispatch :: "nat \<Rightarrow> rollout_stats \<Rightarrow> rollout_stats" where
  "record_gym_row_redispatch rows st = st\<lparr>gym_row_redispatches := gym_row_redispatches st + int rows\<rparr>"

definition as_metrics :: "rollout_stats \<Rightarrow> (string \<times> int) list" where
  "as_metrics st =
     (let named = \<lambda>prefix d. map (\<lambda>(r, n). (prefix @ r, n)) d
      in [(''rollout/committed_total'', committed st), (''rollout/skipped_total'', skipped st),
          (''rollout/redispatch_total'', total_of (redispatches_by_reason st)),
          (''rollout/data_retry_total'', total_of (data_retries_by_reason st)),
          (''rollout/data_failures_total'', total_of (data_failures_by_reason st)),
          (''rollout/gym_row_redispatch_total'', gym_row_redispatches st),
          (''rollout/infra_drops_total'', total_of (infra_drops_by_reason st)),
          (''rollout/max_consecutive_infra_drops'', max_consecutive_infra_drops st)]
         @ named ''rollout/redispatch_total/'' (redispatches_by_reason st)
         @ named ''rollout/data_retry_total/'' (data_retries_by_reason st)
         @ named ''rollout/data_failures_total/'' (data_failures_by_reason st)
         @ named ''rollout/infra_drops_total/'' (infra_drops_by_reason st))"

section \<open>The manager\<close>

text \<open>\<open>inflight\<close> is the registry of running attempts, if the caller passed one: start version by group id.\<close>

record 'dp manager =
  m_buf :: tq_buffer
  m_plane :: 'dp
  weight_version :: int
  skipped_prompts :: int
  consecutive_infra_drops :: int
  m_stats :: rollout_stats
  inflight :: "(string \<Rightarrow> int option) option"

definition new_manager :: "tq_buffer \<Rightarrow> 'dp \<Rightarrow> (string \<Rightarrow> int option) option \<Rightarrow> 'dp manager" where
  "new_manager b d reg = \<lparr>m_buf = b, m_plane = d, weight_version = 0, skipped_prompts = 0,
     consecutive_infra_drops = 0, m_stats = new_stats, inflight = reg\<rparr>"

definition set_weight_version :: "int \<Rightarrow> 'dp manager \<Rightarrow> 'dp manager" where
  "set_weight_version v s = s\<lparr>weight_version := v\<rparr>"

text \<open>
  What the calls rely on: the data plane, the post-write stage, the exception objects, the object raised
  for each error of the buffer, and whether aiohttp is there.
\<close>

record ('dp, 'td) world =
  w_put :: "'dp \<Rightarrow> string list \<Rightarrow> 'td \<Rightarrow> tag list \<Rightarrow> 'dp \<times> unit res"
  w_clear :: "'dp \<Rightarrow> string list \<Rightarrow> 'dp \<times> unit res"
  w_enrich :: "(meta \<Rightarrow> meta res) option"
  w_heap :: heap
  w_exn :: "py_error \<Rightarrow> nat"
  w_aio :: bool

text \<open>One attempt: its group id, the other tasks while the rollout runs, its result, and while it sleeps.\<close>

record ('dp, 'td) attempt =
  a_group :: string
  a_world :: "'dp manager \<Rightarrow> 'dp manager"
  a_result :: "nat + 'td train_batch"
  a_sleep :: "rat \<Rightarrow> 'dp manager \<Rightarrow> 'dp manager"

definition run_attempt ::
  "('dp, 'td) world \<Rightarrow> int option \<Rightarrow> ('dp, 'td) attempt \<Rightarrow> 'dp manager \<Rightarrow> 'dp manager \<times> nat option" where
  "run_attempt W target a s =
     (let start = weight_version s;
          s1 = s\<lparr>m_buf := reserve (m_buf s) start target (a_group a),
                 inflight := map_option (\<lambda>r. r(a_group a := Some start)) (inflight s)\<rparr>;
          s2 = a_world a s1;
          s3 = s2\<lparr>inflight := map_option (\<lambda>r. r(a_group a := None)) (inflight s2)\<rparr>
      in case a_result a of
           Inl e \<Rightarrow> (s3, Some e)
         | Inr tb \<Rightarrow>
             (case commit (w_put W) (w_clear W) (w_enrich W) (m_buf s3) (m_plane s3) (a_group a) tb start (weight_version s3) of
                ((b, d), r) \<Rightarrow>
                  (s3\<lparr>m_buf := b, m_plane := d\<rparr>, (case r of Inl e \<Rightarrow> Some (w_exn W e) | Inr _ \<Rightarrow> None))))"

text \<open>The reserved slot is removed; an error of the removal is only logged.\<close>

definition clean_up :: "('dp, 'td) world \<Rightarrow> string \<Rightarrow> 'dp manager \<Rightarrow> 'dp manager" where
  "clean_up W g s =
     (case remove_group (w_clear W) (m_buf s) (m_plane s) g False of ((b, d), _) \<Rightarrow> s\<lparr>m_buf := b, m_plane := d\<rparr>)"

datatype rollout_outcome = Committed | Skipped

text \<open>The exceptions: the attempt's own, the exhausted infrastructure or skip budget, the failed assertion.\<close>

datatype dispatch_error = Reraised nat | RedispatchExhausted nat | SkipBudgetExceeded nat | NeverAttempted

datatype verdict = Returns "dispatch_error + rollout_outcome" | RetryInfra | RetryData | BudgetSpent

definition handle_failure ::
  "('dp, 'td) world \<Rightarrow> retry_policy \<Rightarrow> nat \<Rightarrow> nat \<Rightarrow> nat \<Rightarrow> 'dp manager \<Rightarrow> 'dp manager \<times> verdict" where
  "handle_failure W p infra data e s =
     (let x = w_heap W e; reason = type_name x; st = m_stats s
      in if \<not> is_instance x ''Exception'' then (s, Returns (Inl (Reraised e)))
         else if contains_post_write_enrichment_error x then (s, Returns (Inl (Reraised e)))
         else if classify_rollout_failure (w_aio W) (w_heap W) e = Infra
         then if int (Suc infra) \<ge> max_infra_attempts p then (s, BudgetSpent)
              else (s\<lparr>m_stats := record_redispatch reason st\<rparr>, RetryInfra)
         else if int (Suc data) \<ge> max_data_attempts p
         then let s1 = s\<lparr>m_stats := record_data_failure reason st\<rparr>
              in if skipped_prompts s \<ge> max_skipped_prompts p
                 then (s1, Returns (Inl (if max_skipped_prompts p = 0 then Reraised e else SkipBudgetExceeded e)))
                 else (s1\<lparr>skipped_prompts := skipped_prompts s + 1,
                          m_stats := (m_stats s1)\<lparr>skipped := skipped (m_stats s1) + 1\<rparr>\<rparr>, Returns (Inr Skipped))
         else (s\<lparr>m_stats := record_data_retry reason st\<rparr>, RetryData))"

text \<open>After the loop: the prompt is dropped, or the run fails when too many were dropped in a row.\<close>

definition give_up :: "('dp, 'td) world \<Rightarrow> retry_policy \<Rightarrow> nat option \<Rightarrow> 'dp manager \<Rightarrow> 'dp manager \<times> (dispatch_error + rollout_outcome)" where
  "give_up W p err s =
     (case err of
        None \<Rightarrow> (s, Inl NeverAttempted)
      | Some e \<Rightarrow>
         (let n = consecutive_infra_drops s + 1; s1 = s\<lparr>consecutive_infra_drops := n\<rparr>;
              st = record_infra_drop (type_name (w_heap W e)) n (m_stats s1)
          in if n > max_consecutive_dropped_prompts p then (s1, Inl (RedispatchExhausted e))
             else (s1\<lparr>m_stats := st\<lparr>skipped := skipped st + 1\<rparr>\<rparr>, Inr Skipped)))"

definition commit_done :: "'dp manager \<Rightarrow> 'dp manager" where
  "commit_done s = s\<lparr>m_stats := (m_stats s)\<lparr>committed := committed (m_stats s) + 1\<rparr>, consecutive_infra_drops := 0\<rparr>"

fun dispatch_loop ::
  "('dp, 'td) world \<Rightarrow> retry_policy \<Rightarrow> int option \<Rightarrow> ('dp, 'td) attempt list \<Rightarrow> nat \<Rightarrow> nat \<Rightarrow> nat option \<Rightarrow> 'dp manager \<Rightarrow>
   ('dp manager \<times> (dispatch_error + rollout_outcome)) option" where
  "dispatch_loop W p target [] infra data err s =
     (if int infra < max_infra_attempts p then None else Some (give_up W p err s))"
| "dispatch_loop W p target (a # script) infra data err s =
     (if \<not> int infra < max_infra_attempts p then Some (give_up W p err s)
      else case run_attempt W target a s of
        (s1, None) \<Rightarrow> Some (commit_done s1, Inr Committed)
      | (s1, Some e) \<Rightarrow>
         (case handle_failure W p infra data e (clean_up W (a_group a) s1) of
            (s2, Returns r) \<Rightarrow> Some (s2, r)
          | (s2, BudgetSpent) \<Rightarrow> Some (give_up W p (Some e) s2)
          | (s2, RetryInfra) \<Rightarrow>
              dispatch_loop W p target script (Suc infra) data (Some e) (a_sleep a (backoff_for p (Suc infra)) s2)
          | (s2, RetryData) \<Rightarrow> dispatch_loop W p target script infra (Suc data) err s2))"

definition generate_and_push ::
  "('dp, 'td) world \<Rightarrow> retry_policy \<Rightarrow> int option \<Rightarrow> ('dp, 'td) attempt list \<Rightarrow> 'dp manager \<Rightarrow>
   ('dp manager \<times> (dispatch_error + rollout_outcome)) option" where
  "generate_and_push W p target script s = dispatch_loop W p target script 0 0 None s"

section \<open>Counting\<close>

lemma bump_simps [simp]:
  "bump k [] = [(k, 1)]"
  "bump k ((k', n) # d) = (if k = k' then (k, n + 1) # d else (k', n) # bump k d)"
  by (auto simp: bump_def)

lemma total_bump [simp]: "total_of (bump k d) = total_of d + 1"
  by (induction d) (auto simp: total_of_def bump_def[of _ "[]"])

lemma total_Nil [simp]: "total_of [] = 0"
  by (simp add: total_of_def)

lemmas stat_defs = record_redispatch_def record_data_retry_def record_data_failure_def record_infra_drop_def

lemma backoff_bounded: "0 \<le> max_backoff_s p \<Longrightarrow> backoff_for p n \<le> max_backoff_s p"
  by (simp add: backoff_for_def)

lemma run_attempt_stats:
  assumes "run_attempt W target a s = (s', r)" and "\<And>s. m_stats (a_world a s) = m_stats s"
  shows "m_stats s' = m_stats s"
  using assms by (auto simp: run_attempt_def Let_def split: sum.splits prod.splits)

lemma clean_up_fields [simp]:
  "m_stats (clean_up W g s) = m_stats s" "skipped_prompts (clean_up W g s) = skipped_prompts s"
  "consecutive_infra_drops (clean_up W g s) = consecutive_infra_drops s"
  by (simp_all add: clean_up_def split: prod.splits)

lemma clean_up_buf [simp]:
  "m_buf (clean_up W g s) = fst (fst (remove_group (w_clear W) (m_buf s) (m_plane s) g False))"
  by (simp add: clean_up_def split: prod.splits)

lemma give_up_buf [simp]: "m_buf (fst (give_up W p err s)) = m_buf s"
  by (simp add: give_up_def Let_def split: option.split)

lemma handle_failure_buf: "handle_failure W p infra data e s = (s', v) \<Longrightarrow> m_buf s' = m_buf s"
  by (auto simp: handle_failure_def Let_def split: if_splits)

section \<open>The loop ends\<close>

definition attempts_left :: "retry_policy \<Rightarrow> nat \<Rightarrow> nat \<Rightarrow> int" where
  "attempts_left p infra data = (max_infra_attempts p - int infra) + (max_data_attempts p - int data) - 1"

lemma handle_failure_retry:
  assumes "handle_failure W p infra data e s = (s', v)"
  shows "v = RetryInfra \<Longrightarrow> int (Suc infra) < max_infra_attempts p"
    "v = RetryData \<Longrightarrow> int (Suc data) < max_data_attempts p"
  using assms by (auto simp: handle_failure_def Let_def split: if_splits)

lemma dispatch_loop_bounded:
  assumes "int infra < max_infra_attempts p" "int data < max_data_attempts p"
    and "attempts_left p infra data \<le> int n" and "n \<le> length script"
  shows "dispatch_loop W p target script infra data err s \<noteq> None
    \<and> dispatch_loop W p target (take n script) infra data err s = dispatch_loop W p target script infra data err s"
  using assms
proof (induction script arbitrary: infra data err s n)
  case Nil
  then show ?case by (simp add: attempts_left_def)
next
  case (Cons a script)
  obtain m where n: "n = Suc m" using Cons.prems by (cases n) (auto simp: attempts_left_def)
  obtain s1 r where at: "run_attempt W target a s = (s1, r)" by fastforce
  show ?case
  proof (cases r)
    case None
    with Cons.prems(1) at n show ?thesis by simp
  next
    case (Some e)
    obtain s2 v where hf: "handle_failure W p infra data e (clean_up W (a_group a) s1) = (s2, v)" by fastforce
    note left = handle_failure_retry[OF hf]
    show ?thesis
    proof (cases v)
      case RetryInfra
      with left(1) Cons.prems(2-4) Cons.IH[of "Suc infra" data m] n
      show ?thesis by (simp add: at Some hf Cons.prems(1) attempts_left_def)
    next
      case RetryData
      with left(2) Cons.prems Cons.IH[of infra "Suc data" m] n
      show ?thesis by (simp add: at Some hf attempts_left_def)
    qed (use Cons.prems(1) n in \<open>simp_all add: at Some hf\<close>)
  qed
qed

section \<open>The shared budgets\<close>

text \<open>
  The state of the run-wide counters while no budget is exceeded: the skipped prompts are those that ran
  out of data budget, what was skipped is these and the infrastructure drops, and the high-water mark
  bounds the current run of drops.
\<close>

definition counters_ok :: "retry_policy \<Rightarrow> 'dp manager \<Rightarrow> bool" where
  "counters_ok p s \<longleftrightarrow> 0 \<le> skipped_prompts s \<and> skipped_prompts s \<le> max_skipped_prompts p
     \<and> 0 \<le> consecutive_infra_drops s \<and> consecutive_infra_drops s \<le> max_consecutive_infra_drops (m_stats s)
     \<and> max_consecutive_infra_drops (m_stats s) \<le> max_consecutive_dropped_prompts p
     \<and> total_of (data_failures_by_reason (m_stats s)) = skipped_prompts s
     \<and> skipped (m_stats s) = skipped_prompts s + total_of (infra_drops_by_reason (m_stats s))"

lemma counters_ok_update [simp]:
  "counters_ok p (s\<lparr>m_buf := b\<rparr>) = counters_ok p s" "counters_ok p (s\<lparr>m_plane := d\<rparr>) = counters_ok p s"
  "counters_ok p (s\<lparr>inflight := r\<rparr>) = counters_ok p s" "counters_ok p (s\<lparr>weight_version := v\<rparr>) = counters_ok p s"
  by (simp_all add: counters_ok_def)


lemma counters_ok_clean_up [simp]: "counters_ok p (clean_up W g s) = counters_ok p s"
  by (simp add: counters_ok_def)






section \<open>What an attempt budget buys\<close>

definition spent :: "retry_policy \<Rightarrow> nat \<Rightarrow> nat \<Rightarrow> rollout_stats \<Rightarrow> rollout_stats \<Rightarrow> dispatch_error + rollout_outcome \<Rightarrow> bool" where
  "spent p infra data st st' r \<longleftrightarrow>
     (let R = int infra + total_of (redispatches_by_reason st') - total_of (redispatches_by_reason st);
          D = int data + total_of (data_retries_by_reason st') - total_of (data_retries_by_reason st)
      in int infra \<le> R \<and> R < max_infra_attempts p \<and> int data \<le> D \<and> D < max_data_attempts p
         \<and> (case r of
              Inr Committed \<Rightarrow> committed st' = committed st + 1 \<and> skipped st' = skipped st
            | Inr Skipped \<Rightarrow> committed st' = committed st \<and> skipped st' = skipped st + 1
                \<and> (if total_of (infra_drops_by_reason st') = total_of (infra_drops_by_reason st)
                   then total_of (data_failures_by_reason st') = total_of (data_failures_by_reason st) + 1 \<and> D = max_data_attempts p - 1
                   else total_of (infra_drops_by_reason st') = total_of (infra_drops_by_reason st) + 1 \<and> R = max_infra_attempts p - 1)
            | Inl (RedispatchExhausted _) \<Rightarrow> R = max_infra_attempts p - 1
            | Inl (SkipBudgetExceeded _) \<Rightarrow> D = max_data_attempts p - 1
            | Inl (Reraised _) \<Rightarrow> committed st' = committed st \<and> skipped st' = skipped st
            | Inl NeverAttempted \<Rightarrow> False))"

lemma spent_give_up:
  assumes "int (Suc infra) \<ge> max_infra_attempts p" "int infra < max_infra_attempts p" "int data < max_data_attempts p"
    and "give_up W p (Some e) s = (s', r)"
  shows "spent p infra data (m_stats s) (m_stats s') r"
  using assms by (auto simp: give_up_def Let_def spent_def stat_defs split: if_splits)

lemma spent_shift:
  assumes "spent p i1 d1 st1 st' r" and "i0 \<le> i1" "d0 \<le> d1"
    and "total_of (redispatches_by_reason st1) = total_of (redispatches_by_reason st) + int i1 - int i0"
    and "total_of (data_retries_by_reason st1) = total_of (data_retries_by_reason st) + int d1 - int d0"
    and "committed st1 = committed st" "skipped st1 = skipped st" "infra_drops_by_reason st1 = infra_drops_by_reason st"
      "data_failures_by_reason st1 = data_failures_by_reason st"
  shows "spent p i0 d0 st st' r"
proof -
  have "int i1 + a - total_of (redispatches_by_reason st1) = int i0 + a - total_of (redispatches_by_reason st)"
    "int d1 + a - total_of (data_retries_by_reason st1) = int d0 + a - total_of (data_retries_by_reason st)" for a
    using assms(4,5) by simp_all
  with assms(1-3,6-9) show ?thesis by (simp only: spent_def Let_def) (elim conjE, intro conjI TrueI; simp)
qed

lemma spent_handle_failure:
  assumes "handle_failure W p infra data e s = (s', v)" "int infra < max_infra_attempts p" "int data < max_data_attempts p"
  shows "case v of
      Returns r \<Rightarrow> spent p infra data (m_stats s) (m_stats s') r
    | BudgetSpent \<Rightarrow> s' = s \<and> int (Suc infra) \<ge> max_infra_attempts p
    | RetryInfra \<Rightarrow> (\<forall>st r. spent p (Suc infra) data (m_stats s') st r \<longrightarrow> spent p infra data (m_stats s) st r)
    | RetryData \<Rightarrow> (\<forall>st r. spent p infra (Suc data) (m_stats s') st r \<longrightarrow> spent p infra data (m_stats s) st r)"
proof -
  have retry: "spent p (Suc infra) data (record_redispatch x st) st' r \<Longrightarrow> spent p infra data st st' r"
    "spent p infra (Suc data) (record_data_retry x st) st' r \<Longrightarrow> spent p infra data st st' r" for x st st' r
    by (erule spent_shift; simp add: stat_defs)+
  show ?thesis
  proof (cases v)
    case (Returns r)
    with assms show ?thesis
      by (auto simp: handle_failure_def Let_def spent_def stat_defs split: if_splits)
  qed (use assms in \<open>auto simp: handle_failure_def Let_def intro: retry split: if_splits\<close>)
qed

lemma spent_dispatch:
  assumes "\<forall>a\<in>set script. \<forall>s. m_stats (a_world a s) = m_stats s \<and> (\<forall>d. m_stats (a_sleep a d s) = m_stats s)"
    and "int infra < max_infra_attempts p" "int data < max_data_attempts p"
    and "dispatch_loop W p target script infra data err s = Some (s', r)"
  shows "spent p infra data (m_stats s) (m_stats s') r"
  using assms
proof (induction script arbitrary: infra data err s)
  case (Cons a script)
  obtain s1 x where at: "run_attempt W target a s = (s1, x)" by fastforce
  have s1: "m_stats s1 = m_stats s" by (rule run_attempt_stats[OF at]) (use Cons.prems(1) in simp)
  show ?case
  proof (cases x)
    case None
    with Cons.prems(2-4) s1 at show ?thesis by (auto simp: spent_def commit_done_def)
  next
    case (Some e)
    obtain s2 v where hf: "handle_failure W p infra data e (clean_up W (a_group a) s1) = (s2, v)" by fastforce
    note sh = spent_handle_failure[OF hf Cons.prems(2,3)] and left = handle_failure_retry[OF hf]
    note step = Cons.prems(2,4) at Some hf
    show ?thesis
    proof (cases v)
      case (Returns q)
      with step sh s1 show ?thesis by simp
    next
      case BudgetSpent
      with step sh s1 spent_give_up[OF _ Cons.prems(2,3), of W e s2 s' r] show ?thesis by auto
    next
      case RetryInfra
      have "spent p (Suc infra) data (m_stats s2) (m_stats s') r"
        using Cons.IH[where infra = "Suc infra" and data = data and s = "a_sleep a (backoff_for p (Suc infra)) s2"]
          Cons.prems(1,3) step RetryInfra left by simp
      with sh RetryInfra s1 show ?thesis by simp
    next
      case RetryData
      have "spent p infra (Suc data) (m_stats s2) (m_stats s') r"
        using Cons.IH[where infra = infra and data = "Suc data" and s = s2] Cons.prems(1) step RetryData left by simp
      with sh RetryData s1 show ?thesis by simp
    qed
  qed
qed simp

section \<open>The slots of the attempts\<close>

definition buf_ok :: "tq_buffer \<Rightarrow> bool" where
  "buf_ok b \<longleftrightarrow> tq_parallel b \<and> distinct (group_ids b)"

text \<open>
  What the other tasks may do to the buffer between the steps of a call whose attempts use the group ids
  \<open>G\<close>: anything that keeps the buffer well formed and does not reserve one of them.
\<close>

definition keeps_out :: "string set \<Rightarrow> ('dp manager \<Rightarrow> 'dp manager) \<Rightarrow> bool" where
  "keeps_out G f \<longleftrightarrow> (\<forall>s. buf_ok (m_buf s) \<longrightarrow>
     buf_ok (m_buf (f s)) \<and> set (group_ids (m_buf (f s))) \<inter> G \<subseteq> set (group_ids (m_buf s)))"

definition own_slots :: "string set \<Rightarrow> 'dp manager \<Rightarrow> string set" where
  "own_slots G s = set (group_ids (m_buf s)) \<inter> G"

lemma keeps_outD:
  assumes "keeps_out G f" and "buf_ok (m_buf s)"
  shows "buf_ok (m_buf (f s))" "own_slots G (f s) \<subseteq> own_slots G s"
  using assms by (auto simp: keeps_out_def own_slots_def)

lemma buf_ok_reserve:
  assumes "buf_ok b" and "g \<notin> set (group_ids b)"
  shows "buf_ok (reserve b w t g)" "set (group_ids (reserve b w t g)) = insert g (set (group_ids b))"
  using assms slots_reserve(2)[of b w t g] by (auto simp: buf_ok_def reserve_def)

definition ready_slot :: "string \<Rightarrow> 'dp manager \<Rightarrow> bool" where
  "ready_slot g s \<longleftrightarrow> (\<exists>x\<in>set (slots (m_buf s)). sl_group x = g \<and> sl_ready x \<and> sl_meta x \<noteq> None)"

lemma run_attempt_slots:
  assumes "run_attempt W target a s = (s', r)" and "keeps_out G (a_world a)"
    and "buf_ok (m_buf s)" "own_slots G s = {}" "a_group a \<in> G"
  shows "buf_ok (m_buf s')" "own_slots G s' \<subseteq> {a_group a}" "r = None \<Longrightarrow> ready_slot (a_group a) s' \<and> own_slots G s' = {a_group a}"
proof -
  let ?g = "a_group a"
  define s1 where "s1 = s\<lparr>m_buf := reserve (m_buf s) (weight_version s) target ?g,
      inflight := map_option (\<lambda>r. r(?g := Some (weight_version s))) (inflight s)\<rparr>"
  have "?g \<notin> set (group_ids (m_buf s))" using assms(4,5) by (auto simp: own_slots_def)
  note res = buf_ok_reserve[OF assms(3) this]
  have s1: "buf_ok (m_buf s1)" "own_slots G s1 = {?g}"
    using res assms(4,5) by (auto simp: s1_def own_slots_def)
  note s2 = keeps_outD[OF assms(2) s1(1), unfolded s1(2)]
  note run = assms(1)[unfolded run_attempt_def Let_def, folded s1_def]
  have "buf_ok (m_buf s') \<and> own_slots G s' \<subseteq> {?g} \<and> (r = None \<longrightarrow> ready_slot ?g s' \<and> own_slots G s' = {?g})"
  proof (cases "a_result a")
    case (Inl e)
    with run s2 show ?thesis by (auto simp: own_slots_def)
  next
    case (Inr tb)
    let ?c = "commit (w_put W) (w_clear W) (w_enrich W) (m_buf (a_world a s1)) (m_plane (a_world a s1)) ?g tb
      (weight_version s) (weight_version (a_world a s1))"
    obtain b d x where c: "?c = ((b, d), x)" by (metis prod.collapse)
    have p: "tq_parallel (m_buf (a_world a s1))" using s2(1) by (simp add: buf_ok_def)
    have s': "m_buf s' = b" and r: "r = None \<longleftrightarrow> (\<exists>m. x = Inr m)"
      using run c by (auto simp: Inr split: sum.splits)
    have "buf_ok b \<and> set (group_ids b) = set (group_ids (m_buf (a_world a s1)))
        \<and> (\<forall>m. x = Inr m \<longrightarrow> (\<exists>y\<in>set (slots b). sl_group y = ?g \<and> sl_ready y \<and> sl_meta y = Some m))"
      using commit_slots[OF p c] s2(1) by (auto simp: buf_ok_def split: sum.splits)
    moreover from this have "?g \<in> set (group_ids b)" if "x = Inr m" for m
      using that groups_of_slots[of b] unfolding buf_ok_def by (metis imageI)
    moreover from calculation(1) have "ready_slot ?g s'" if "x = Inr m" for m
      using that unfolding ready_slot_def s' by (metis option.distinct(1))
    ultimately show ?thesis using s2(2) assms(5) r by (auto simp: s' own_slots_def)
  qed
  then show "buf_ok (m_buf s')" "own_slots G s' \<subseteq> {?g}" "r = None \<Longrightarrow> ready_slot ?g s' \<and> own_slots G s' = {?g}"
    by blast+
qed

lemma clean_up_slots:
  assumes "buf_ok (m_buf s)" "own_slots G s \<subseteq> {g}"
  shows "buf_ok (m_buf (clean_up W g s))" "own_slots G (clean_up W g s) = {}"
proof -
  obtain b' r where b': "remove_group (w_clear W) (m_buf s) (m_plane s) g False = ((b', m_plane s), r)"
    "tq_parallel b'" "distinct (group_ids b')" "slots b' = filter (\<lambda>x. sl_group x \<noteq> g) (slots (m_buf s))"
    using assms(1) remove_group_slots[of "m_buf s" "w_clear W" "m_plane s" g] by (auto simp: buf_ok_def)
  have "set (group_ids b') = set (group_ids (m_buf s)) - {g}"
    using groups_of_slots[OF b'(2)] groups_of_slots[of "m_buf s"] assms(1) b'(4) by (auto simp: buf_ok_def)
  with assms(2) b' show "buf_ok (m_buf (clean_up W g s))" "own_slots G (clean_up W g s) = {}"
    by (auto simp: buf_ok_def own_slots_def)
qed

definition slots_after :: "string set \<Rightarrow> 'dp manager \<Rightarrow> dispatch_error + rollout_outcome \<Rightarrow> bool" where
  "slots_after G s r \<longleftrightarrow> buf_ok (m_buf s) \<and>
     (case r of Inr Committed \<Rightarrow> \<exists>g. own_slots G s = {g} \<and> ready_slot g s | _ \<Rightarrow> own_slots G s = {})"

lemma slots_dispatch:
  assumes "\<forall>a\<in>set script. a_group a \<in> G \<and> keeps_out G (a_world a) \<and> (\<forall>d. keeps_out G (a_sleep a d))"
    and "buf_ok (m_buf s)" "own_slots G s = {}"
    and "dispatch_loop W p target script infra data err s = Some (s', r)"
  shows "slots_after G s' r"
  using assms
proof (induction script arbitrary: infra data err s)
  case Nil
  then show ?case
    by (auto simp: slots_after_def give_up_def Let_def own_slots_def split: if_splits option.splits)
next
  case (Cons a script)
  have a: "a_group a \<in> G" "keeps_out G (a_world a)" "\<And>d. keeps_out G (a_sleep a d)" using Cons.prems(1) by simp_all
  obtain s1 x where at: "run_attempt W target a s = (s1, x)" by fastforce
  note s1 = run_attempt_slots[OF at a(2) Cons.prems(2,3) a(1)]
  have give: "slots_after G s' r" if "give_up W p err' s0 = (s', r)" "buf_ok (m_buf s0)" "own_slots G s0 = {}" for err' s0
    using that by (auto simp: slots_after_def give_up_def Let_def own_slots_def split: if_splits option.splits)
  show ?case
  proof (cases "int infra < max_infra_attempts p")
    case False
    with Cons.prems(2-4) give show ?thesis by auto
  next
    case lt: True
    show ?thesis
    proof (cases x)
      case None
      then have "s' = commit_done s1" "r = Inr Committed" using Cons.prems(4) lt at by auto
      with s1 None show ?thesis
        by (auto simp: slots_after_def commit_done_def own_slots_def ready_slot_def)
    next
      case (Some e)
      let ?s2 = "clean_up W (a_group a) s1"
      note cl = clean_up_slots[OF s1(1,2), of W]
      obtain s3 v where hf: "handle_failure W p infra data e ?s2 = (s3, v)" by fastforce
      have s3: "buf_ok (m_buf s3)" "own_slots G s3 = {}"
        using handle_failure_buf[OF hf] cl unfolding own_slots_def by (metis, metis)
      note step = Cons.prems(4) lt at Some hf
      show ?thesis
      proof (cases v)
        case (Returns q)
        then have "s' = s3" "r = q" using step by auto
        moreover have "q \<noteq> Inr Committed" using hf Returns by (auto simp: handle_failure_def Let_def split: if_splits)
        ultimately show ?thesis
          using s3 by (auto simp: slots_after_def split: sum.splits rollout_outcome.splits)
      next
        case BudgetSpent
        with step s3 give show ?thesis by auto
      next
        case RetryInfra
        note sl = keeps_outD[OF a(3) s3(1), unfolded s3(2)]
        with Cons.IH[of "a_sleep a (backoff_for p (Suc infra)) s3"] Cons.prems(1) step RetryInfra show ?thesis by auto
      next
        case RetryData
        with Cons.IH[of s3] Cons.prems(1) step s3 show ?thesis by auto
      qed
    qed
  qed
qed

section \<open>Properties\<close>

definition demo_world :: "(client, tensor_dict) world" where
  "demo_world = \<lparr>w_put = noop_put ''p'', w_clear = noop_clear ''p'', w_enrich = None,
     w_heap = (\<lambda>_. Exn [''ValueError'', ''Exception''] None None [])(0 := Exn [''ConnectionError'', ''OSError'', ''Exception''] None None []),
     w_exn = (\<lambda>_. 1), w_aio = True\<rparr>"

definition demo_policy :: "int \<Rightarrow> retry_policy" where
  "demo_policy drops = \<lparr>max_infra_attempts = 2, max_data_attempts = 2, max_gym_row_attempts = 1, backoff_base_s = 1,
     max_backoff_s = 30, max_skipped_prompts = 1, max_consecutive_dropped_prompts = drops\<rparr>"

definition demo_attempt :: "string \<Rightarrow> nat + tensor_dict train_batch \<Rightarrow> (client, tensor_dict) attempt" where
  "demo_attempt g r = \<lparr>a_group = g, a_world = (\<lambda>s. s), a_result = r, a_sleep = (\<lambda>_ s. s)\<rparr>"

definition demo_manager :: "client manager" where
  "demo_manager = new_manager (new_tq ''p'' False) demo_plane (Some (\<lambda>_. None))"

lemma demo_neutral:
  "a_world (demo_attempt g r) s = s" "a_sleep (demo_attempt g r) d s = s" "a_group (demo_attempt g r) = g"
  "keeps_out G (a_world (demo_attempt g r))" "keeps_out G (a_sleep (demo_attempt g r) d)"
  by (simp_all add: demo_attempt_def keeps_out_def)

text \<open>
  C31: A dispatched prompt is always decided: whatever the rollouts, the buffer, the data plane and the
  other tasks do, the call returns or raises after at most as many attempts as the two budgets together
  allow, less one, and later attempts of the script are never looked at.
\<close>

theorem dispatch_returns:
  assumes "new_policy p = Inr p" and "max_infra_attempts p + max_data_attempts p - 1 \<le> int n" and "n \<le> length script"
  shows "\<exists>s' r. generate_and_push W p target script s = Some (s', r)
    \<and> generate_and_push W p target (take n script) s = Some (s', r)"
proof -
  have "int 0 < max_infra_attempts p" "int 0 < max_data_attempts p" "attempts_left p 0 0 \<le> int n"
    using assms(1,2) by (auto simp: new_policy_def attempts_left_def split: if_splits)
  from dispatch_loop_bounded[OF this assms(3), of W target None s] show ?thesis
    by (auto simp: generate_and_push_def)
qed

theorem dispatch_returns_witness:
  "\<exists>s' r. generate_and_push demo_world (demo_policy 1) None
     (map (\<lambda>g. demo_attempt [g] (Inl 0)) ''abcd'') demo_manager = Some (s', r)"
proof -
  have "new_policy (demo_policy 1) = Inr (demo_policy 1)" by code_simp
  from dispatch_returns[OF this, of 3 "map (\<lambda>g. demo_attempt [g] (Inl 0)) ''abcd''" demo_world None demo_manager]
  show ?thesis by (auto simp: demo_policy_def)
qed



text \<open>
  A prompt is given up only after its budget is spent: counting the retries the call records, a
  prompt dropped for the fleet, and a failure of the run for it, comes after exactly
  \<open>max_infra_attempts\<close> infrastructure failures, a prompt skipped for its data after exactly
  \<open>max_data_attempts\<close> data failures; a commit and a skip are each counted once.
\<close>

theorem dispatch_spends_budget:
  assumes "new_policy p = Inr p"
    and "\<forall>a\<in>set script. \<forall>s. m_stats (a_world a s) = m_stats s \<and> (\<forall>d. m_stats (a_sleep a d s) = m_stats s)"
    and "generate_and_push W p target script s = Some (s', r)"
  shows "\<exists>R D. total_of (redispatches_by_reason (m_stats s')) = total_of (redispatches_by_reason (m_stats s)) + R
    \<and> total_of (data_retries_by_reason (m_stats s')) = total_of (data_retries_by_reason (m_stats s)) + D
    \<and> 0 \<le> R \<and> R < max_infra_attempts p \<and> 0 \<le> D \<and> D < max_data_attempts p
    \<and> (case r of
         Inr Committed \<Rightarrow> committed (m_stats s') = committed (m_stats s) + 1 \<and> skipped (m_stats s') = skipped (m_stats s)
       | Inr Skipped \<Rightarrow> committed (m_stats s') = committed (m_stats s) \<and> skipped (m_stats s') = skipped (m_stats s) + 1
           \<and> (if total_of (infra_drops_by_reason (m_stats s')) = total_of (infra_drops_by_reason (m_stats s))
              then total_of (data_failures_by_reason (m_stats s')) = total_of (data_failures_by_reason (m_stats s)) + 1
                \<and> D = max_data_attempts p - 1
              else total_of (infra_drops_by_reason (m_stats s')) = total_of (infra_drops_by_reason (m_stats s)) + 1
                \<and> R = max_infra_attempts p - 1)
       | Inl (RedispatchExhausted _) \<Rightarrow> R = max_infra_attempts p - 1
       | Inl (SkipBudgetExceeded _) \<Rightarrow> D = max_data_attempts p - 1
       | Inl (Reraised _) \<Rightarrow> committed (m_stats s') = committed (m_stats s) \<and> skipped (m_stats s') = skipped (m_stats s)
       | Inl NeverAttempted \<Rightarrow> False)"
proof -
  let ?R = "total_of (redispatches_by_reason (m_stats s')) - total_of (redispatches_by_reason (m_stats s))"
  let ?D = "total_of (data_retries_by_reason (m_stats s')) - total_of (data_retries_by_reason (m_stats s))"
  have "int 0 < max_infra_attempts p" "int 0 < max_data_attempts p"
    using assms(1) by (auto simp: new_policy_def split: if_splits)
  from spent_dispatch[OF assms(2) this assms(3)[unfolded generate_and_push_def]]
  show ?thesis
    by (intro exI[of _ ?R] exI[of _ ?D]) (simp add: spent_def Let_def)
qed

theorem dispatch_spends_budget_witness:
  "\<exists>s' R. generate_and_push demo_world (demo_policy 3) None
     [demo_attempt ''a'' (Inl 0), demo_attempt ''b'' (Inr demo_tb)] demo_manager = Some (s', Inr Committed)
     \<and> committed (m_stats s') = 1 \<and> total_of (redispatches_by_reason (m_stats s')) = R \<and> R < 2"
proof -
  let ?script = "[demo_attempt ''a'' (Inl 0), demo_attempt ''b'' (Inr demo_tb)]"
  let ?g = "generate_and_push demo_world (demo_policy 3) None ?script demo_manager"
  have p: "new_policy (demo_policy 3) = Inr (demo_policy 3)" by code_simp
  have "case ?g of Some (_, Inr Committed) \<Rightarrow> True | _ \<Rightarrow> False" by code_simp
  then obtain s' where g: "?g = Some (s', Inr Committed)"
    by (auto split: option.splits prod.splits sum.splits rollout_outcome.splits)
  have "\<forall>a\<in>set ?script. \<forall>s. m_stats (a_world a s) = m_stats s \<and> (\<forall>d. m_stats (a_sleep a d s) = m_stats s)"
    by (simp add: demo_neutral)
  from dispatch_spends_budget[OF p this g] g show ?thesis
    by (auto simp: demo_policy_def demo_manager_def new_manager_def new_stats_def)
qed

text \<open>
  C3: No attempt leaves a slot behind: over any behaviour of the other tasks that keeps the buffer well
  formed and does not reuse the attempts' group ids, a committed prompt owns exactly one slot of the
  buffer when the call returns, ready and with its metadata, and a prompt that was skipped or whose call
  raised owns none.
\<close>

theorem dispatch_leaves_no_slot:
  assumes "tq_parallel (m_buf s)" and "distinct (group_ids (m_buf s))" and "set (group_ids (m_buf s)) \<inter> G = {}"
    and "\<forall>a\<in>set script. a_group a \<in> G \<and> keeps_out G (a_world a) \<and> (\<forall>d. keeps_out G (a_sleep a d))"
    and "generate_and_push W p target script s = Some (s', r)"
  shows "case r of
      Inr Committed \<Rightarrow> \<exists>g x. set (group_ids (m_buf s')) \<inter> G = {g} \<and> x \<in> set (slots (m_buf s'))
        \<and> sl_group x = g \<and> sl_ready x \<and> sl_meta x \<noteq> None
    | _ \<Rightarrow> set (group_ids (m_buf s')) \<inter> G = {}"
proof -
  have "slots_after G s' r"
    by (rule slots_dispatch[OF assms(4) _ _ assms(5)[unfolded generate_and_push_def]])
      (use assms(1-3) in \<open>simp_all add: buf_ok_def own_slots_def\<close>)
  then show ?thesis
    by (auto simp: slots_after_def own_slots_def ready_slot_def split: sum.splits rollout_outcome.splits)
qed

theorem dispatch_leaves_no_slot_witness:
  "\<exists>s' x. generate_and_push demo_world (demo_policy 3) None
     [demo_attempt ''a'' (Inl 0), demo_attempt ''b'' (Inr demo_tb)] demo_manager = Some (s', Inr Committed)
     \<and> x \<in> set (slots (m_buf s')) \<and> sl_ready x"
proof -
  let ?script = "[demo_attempt ''a'' (Inl 0), demo_attempt ''b'' (Inr demo_tb)]"
  let ?g = "generate_and_push demo_world (demo_policy 3) None ?script demo_manager"
  have b: "tq_parallel (m_buf demo_manager)" "distinct (group_ids (m_buf demo_manager))"
    "set (group_ids (m_buf demo_manager)) \<inter> {''a'', ''b''} = {}"
    by (simp_all add: demo_manager_def new_manager_def new_tq_def tq_parallel_def tq_size_def)
  have "case ?g of Some (_, Inr Committed) \<Rightarrow> True | _ \<Rightarrow> False" by code_simp
  then obtain s' where g: "?g = Some (s', Inr Committed)"
    by (auto split: option.splits prod.splits sum.splits rollout_outcome.splits)
  have "\<forall>a\<in>set ?script. a_group a \<in> {''a'', ''b''} \<and> keeps_out {''a'', ''b''} (a_world a)
      \<and> (\<forall>d. keeps_out {''a'', ''b''} (a_sleep a d))"
    by (simp add: demo_neutral)
  from dispatch_leaves_no_slot[OF b this g] g show ?thesis by auto
qed

end
