(* ===== verification/GymRows.thy ===== *)
theory GymRows
  imports Rollouts
begin

text \<open>
  The NeMo-Gym rollout of one prompt (\<open>AsyncNemoGymRolloutImpl\<close> in \<open>nemo_rl/experience/rollout_manager.py\<close>):
  the rows are dispatched in one call, results stream back in any order, and rows that never arrived are
  dispatched again on their own.  The environment is a function from the rows dispatched to the stream it
  answers with, one function per attempt; \<open>calls\<close> is the log of the rows dispatched.
\<close>

section \<open>Rows and streams\<close>

record gym_row =
  row_ix :: "int option"
  temperature :: rat
  top_p :: rat
  max_output_tokens :: "int option"

record generation_params =
  gen_temperature :: rat
  gen_top_p :: rat
  gen_max_new_tokens :: int

definition build_inputs :: "generation_params \<Rightarrow> gym_row \<Rightarrow> nat \<Rightarrow> gym_row list" where
  "build_inputs g template n =
     (let t = template\<lparr>temperature := gen_temperature g, top_p := gen_top_p g,
                max_output_tokens := Some (case max_output_tokens template of
                    None \<Rightarrow> gen_max_new_tokens g | Some e \<Rightarrow> min e (gen_max_new_tokens g))\<rparr>
      in map (\<lambda>i. t\<lparr>row_ix := Some (int i)\<rparr>) [0..<n])"

text \<open>An echoed index is an integer or not; a streamed result may itself be \<open>None\<close>.\<close>

datatype row_index = IntIndex int | OtherIndex

type_synonym ('r, 'm) item = "row_index \<times> 'r option \<times> 'm option"

text \<open>A stream ends, breaks with an exception, or is cut by the deadline of the prompt group.\<close>

datatype stream_end = Ended | Broke nat | Expired

record ('r, 'm) stream =
  st_items :: "('r, 'm) item list"
  st_end :: stream_end

fun stream_rows ::
  "nat \<Rightarrow> nat list \<Rightarrow> ('r, 'm) item list \<Rightarrow> nat list \<Rightarrow> 'r option list \<Rightarrow> 'm option \<Rightarrow> 'r option list \<times> 'm option res" where
  "stream_rows n dispatched [] received results metrics = (results, Inr metrics)"
| "stream_rows n dispatched ((ix, r, m) # items) received results metrics =
     (case ix of
        OtherIndex \<Rightarrow> (results, Inl ValueError)
      | IntIndex k \<Rightarrow>
          if \<not> (0 \<le> k \<and> k < int n) then (results, Inl ValueError)
          else if nat k \<notin> set dispatched then (results, Inl ValueError)
          else if nat k \<in> set received then (results, Inl ValueError)
          else stream_rows n dispatched items (nat k # received) (results[nat k := r])
                 (case m of None \<Rightarrow> metrics | Some _ \<Rightarrow> m))"

section \<open>Dispatch of the missing rows\<close>

datatype gym_error = RowError nat | RolloutTimeout | RowsMissing "nat list" "nat option"

definition missing :: "'r option list \<Rightarrow> nat list" where
  "missing results = ix_filter (\<lambda>r. r = None) results"

definition close_rows :: "'r option list \<Rightarrow> 'm option \<Rightarrow> nat option \<Rightarrow> gym_error + 'r list \<times> 'm option" where
  "close_rows results metrics err =
     (if missing results \<noteq> [] then Inl (RowsMissing (missing results) err)
      else Inr (map the (filter (\<lambda>r. r \<noteq> None) results), metrics))"

text \<open>What an attempt's stream leads to: the loop stops with an error, or goes on with these timing metrics and last error.\<close>

datatype 'm row_step = StopRows gym_error | Again "'m option" "nat option"

definition after_stream ::
  "('dp, 'td) world \<Rightarrow> bool \<Rightarrow> 'm option res \<Rightarrow> stream_end \<Rightarrow> 'm option \<Rightarrow> nat option \<Rightarrow> 'm row_step" where
  "after_stream W final r stop metrics err =
     (let fail = (\<lambda>x. if classify_rollout_failure (w_aio W) (w_heap W) x \<noteq> Infra \<or> final
                     then StopRows (RowError x) else Again metrics (Some x))
      in case r of
           Inl e \<Rightarrow> fail (w_exn W e)
         | Inr m \<Rightarrow>
             (case stop of
                Broke x \<Rightarrow> fail x
              | Expired \<Rightarrow> StopRows RolloutTimeout
              | Ended \<Rightarrow> Again (case m of None \<Rightarrow> metrics | Some _ \<Rightarrow> m) err))"

fun row_loop ::
  "('dp, 'td) world \<Rightarrow> int \<Rightarrow> (nat list \<Rightarrow> ('r, 'm) stream) list \<Rightarrow> int \<Rightarrow> 'r option list \<Rightarrow> 'm option \<Rightarrow> nat option \<Rightarrow>
   rollout_stats \<Rightarrow> (nat list list \<times> rollout_stats \<times> (gym_error + 'r list \<times> 'm option)) option" where
  "row_loop W mx [] attempt results metrics err st =
     (if attempt > mx \<or> missing results = [] then Some ([], st, close_rows results metrics err) else None)"
| "row_loop W mx (env # envs) attempt results metrics err st =
     (if attempt > mx \<or> missing results = [] then Some ([], st, close_rows results metrics err)
      else let pending = missing results;
               st1 = (if attempt > 1 then record_gym_row_redispatch (length pending) st else st);
               s = stream_rows (length results) pending (st_items (env pending)) [] results None
           in case after_stream W (attempt = mx) (snd s) (st_end (env pending)) metrics err of
                StopRows e \<Rightarrow> Some ([pending], st1, Inl e)
              | Again metrics' err' \<Rightarrow>
                  map_option (\<lambda>(calls, out). (pending # calls, out))
                    (row_loop W mx envs (attempt + 1) (fst s) metrics' err' st1))"

definition run_rollouts ::
  "('dp, 'td) world \<Rightarrow> int \<Rightarrow> gym_row list \<Rightarrow> (nat list \<Rightarrow> ('r, 'm) stream) list \<Rightarrow> rollout_stats \<Rightarrow>
   (nat list list \<times> rollout_stats \<times> (gym_error + 'r list \<times> 'm option)) option" where
  "run_rollouts W mx inputs envs st =
     (if map row_ix inputs \<noteq> map (\<lambda>i. Some (int i)) [0..<length inputs] then Some ([], st, Inl (RowError (w_exn W ValueError)))
      else row_loop W mx envs 1 (replicate (length inputs) None) None None st)"

section \<open>Streams fill only what was asked for\<close>

lemma stream_rows_length [simp]:
  "length (fst (stream_rows n dispatched items received results metrics)) = length results"
  by (induction n dispatched items received results metrics rule: stream_rows.induct) (auto split: row_index.split)

lemma stream_rows_keeps:
  assumes "i \<notin> set dispatched \<or> i \<in> set received"
  shows "fst (stream_rows n dispatched items received results metrics) ! i = results ! i"
  using assms
proof (induction n dispatched items received results metrics rule: stream_rows.induct)
  case (2 n dispatched ix r m items received results metrics)
  then show ?case by (cases ix) (auto intro!: nth_list_update_neq)
qed simp

lemma stream_rows_fills:
  assumes "fst (stream_rows n dispatched items received results metrics) ! i = Some x" and "results ! i = None" "i < length results"
  shows "i \<in> set dispatched \<and> (\<exists>m. (IntIndex (int i), Some x, m) \<in> set items)"
  using assms
proof (induction n dispatched items received results metrics rule: stream_rows.induct)
  case (2 n dispatched ix r m items received results metrics)
  show ?case
  proof (cases ix)
    case (IntIndex k)
    let ?rest = "stream_rows n dispatched items (nat k # received) (results[nat k := r]) (case m of None \<Rightarrow> metrics | Some _ \<Rightarrow> m)"
    have ok: "0 \<le> k \<and> k < int n \<and> nat k \<in> set dispatched \<and> nat k \<notin> set received"
      using 2(2,3) IntIndex by (auto split: if_splits)
    then have go: "fst ?rest ! i = Some x" using 2(2) IntIndex by simp
    show ?thesis
    proof (cases "nat k = i")
      case True
      then have "fst ?rest ! i = results[nat k := r] ! i" by (intro stream_rows_keeps) simp
      with go True 2(4) have "r = Some x" by simp
      with True ok IntIndex show ?thesis by auto
    next
      case False
      with 2(1)[OF IntIndex] ok go 2(3,4) show ?thesis by auto
    qed
  qed (use 2(2,3) in auto)
qed simp

section \<open>The calls\<close>

lemma missing_in [simp]: "i \<in> set (missing results) \<longleftrightarrow> i < length results \<and> results ! i = None"
  by (simp add: missing_def)

lemma missing_stream:
  "set (missing (fst (stream_rows n (missing results) items [] results m))) \<subseteq> set (missing results)"
proof
  fix i assume i: "i \<in> set (missing (fst (stream_rows n (missing results) items [] results m)))"
  show "i \<in> set (missing results)"
  proof (rule ccontr)
    assume "i \<notin> set (missing results)"
    with i stream_rows_keeps[of i "missing results" "[]" n items results m] show False by auto
  qed
qed

text \<open>Row \<open>i\<close> came with the last call that asked for it.\<close>

definition from_last_call :: "(nat list \<Rightarrow> ('r, 'm) stream) list \<Rightarrow> nat list list \<Rightarrow> nat \<Rightarrow> 'r \<Rightarrow> bool" where
  "from_last_call envs calls i x \<longleftrightarrow> (\<exists>j m. j < length calls \<and> j < length envs \<and> i \<in> set (calls ! j)
     \<and> (\<forall>k<length calls. j < k \<longrightarrow> i \<notin> set (calls ! k))
     \<and> (IntIndex (int i), Some x, m) \<in> set (st_items ((envs ! j) (calls ! j))))"

lemma from_last_call_Cons:
  assumes "from_last_call envs calls i x"
  shows "from_last_call (env # envs) (c # calls) i x"
proof -
  obtain j m where "j < length calls" "j < length envs" "i \<in> set (calls ! j)"
    "\<forall>k<length calls. j < k \<longrightarrow> i \<notin> set (calls ! k)" "(IntIndex (int i), Some x, m) \<in> set (st_items ((envs ! j) (calls ! j)))"
    using assms by (auto simp: from_last_call_def)
  then show ?thesis unfolding from_last_call_def
    by (intro exI[of _ "Suc j"] exI[of _ m]) (auto simp: nth_Cons' less_Suc_eq_0_disj)
qed

lemma from_last_call_first:
  assumes "i \<in> set c" "\<forall>d\<in>set calls. i \<notin> set d" "(IntIndex (int i), Some x, m) \<in> set (st_items (env c))"
  shows "from_last_call (env # envs) (c # calls) i x"
  unfolding from_last_call_def
  using assms by (intro exI[of _ 0] exI[of _ m]) (auto simp: nth_Cons')

lemma close_rows_Inr:
  assumes "close_rows results metrics err = Inr (xs, m)"
  shows "results = map Some xs"
proof -
  have "missing results = []" using assms by (auto simp: close_rows_def split: if_splits)
  then have "i < length results \<Longrightarrow> results ! i \<noteq> None" for i using missing_in[of i results] by simp
  then have none: "None \<notin> set results" unfolding in_set_conv_nth by blast
  then have "filter (\<lambda>r. r \<noteq> None) results = results" by (intro filter_True) metis
  moreover have "map (Some \<circ> the) results = results"
    using none by (intro map_idI) (metis comp_apply option.exhaust_sel)
  ultimately show ?thesis using assms by (auto simp: close_rows_def split: if_splits)
qed

lemma gym_count [simp]: "gym_row_redispatches (record_gym_row_redispatch k st) = gym_row_redispatches st + int k"
  by (simp add: record_gym_row_redispatch_def)

definition calls_ok :: "nat list \<Rightarrow> nat list list \<Rightarrow> bool" where
  "calls_ok pending calls \<longleftrightarrow> (\<forall>c\<in>set calls. set c \<subseteq> set pending) \<and> sorted_wrt (\<lambda>c d. set d \<subseteq> set c) calls
     \<and> (calls \<noteq> [] \<longrightarrow> hd calls = pending)"

definition rows_ok :: "(nat list \<Rightarrow> ('r, 'm) stream) list \<Rightarrow> nat list list \<Rightarrow> 'r option list \<Rightarrow> 'r list \<Rightarrow> bool" where
  "rows_ok envs calls results xs \<longleftrightarrow> length xs = length results
     \<and> (\<forall>i<length results. case results ! i of None \<Rightarrow> from_last_call envs calls i (xs ! i) | Some x \<Rightarrow> xs ! i = x)"

lemma rows_ok_Cons:
  assumes rec: "rows_ok envs calls (fst s) xs" and co: "calls_ok (missing (fst s)) calls"
    and s: "s = stream_rows (length results) (missing results) (st_items (env (missing results))) [] results None"
  shows "rows_ok (env # envs) (missing results # calls) results xs"
proof -
  have len: "length (fst s) = length results" by (simp add: s)
  have "case results ! i of None \<Rightarrow> from_last_call (env # envs) (missing results # calls) i (xs ! i) | Some x \<Rightarrow> xs ! i = x"
    if i: "i < length results" for i
  proof (cases "results ! i")
    case (Some x)
    then have "fst s ! i = Some x" unfolding s by (subst stream_rows_keeps) simp_all
    then have "xs ! i = x" using rec i len by (auto simp: rows_ok_def split: option.splits)
    with Some show ?thesis by simp
  next
    case None
    show ?thesis
    proof (cases "fst s ! i")
      case later: None
      then have "from_last_call envs calls i (xs ! i)" using rec i len by (auto simp: rows_ok_def split: option.splits)
      then show ?thesis by (simp add: None from_last_call_Cons)
    next
      case (Some x)
      have "xs ! i = x" using rec i len Some by (auto simp: rows_ok_def split: option.splits)
      moreover obtain m where "(IntIndex (int i), Some x, m) \<in> set (st_items (env (missing results)))"
        using stream_rows_fills[OF Some[unfolded s] None i] by blast
      moreover have "\<forall>d\<in>set calls. i \<notin> set d" using co Some by (force simp: calls_ok_def)
      ultimately show ?thesis using None i by (simp add: from_last_call_first)
    qed
  qed
  with rec len show ?thesis by (simp add: rows_ok_def)
qed

lemma calls_ok_Cons: "calls_ok p calls \<Longrightarrow> set p \<subseteq> set q \<Longrightarrow> calls_ok q (q # calls)"
  by (auto simp: calls_ok_def)

lemma row_loop_spec:
  assumes "row_loop W mx envs attempt results metrics err st = Some (calls, st', out)" and "1 \<le> attempt"
  shows "int (length calls) \<le> max 0 (mx - attempt + 1) \<and> calls_ok (missing results) calls
    \<and> gym_row_redispatches st' = gym_row_redispatches st + int (length (concat (if attempt > 1 then calls else tl calls)))
    \<and> (case out of Inr (xs, _) \<Rightarrow> rows_ok envs calls results xs | Inl _ \<Rightarrow> True)"
  using assms
proof (induction envs arbitrary: attempt results metrics err st calls st' out)
  case Nil
  then show ?case
    by (auto simp: calls_ok_def rows_ok_def split: if_splits sum.splits dest!: close_rows_Inr)
next
  case (Cons env envs)
  show ?case
  proof (cases "attempt > mx \<or> missing results = []")
    case True
    then have "calls = []" "st' = st" "out = close_rows results metrics err" using Cons.prems(1) by auto
    then show ?thesis by (auto simp: calls_ok_def rows_ok_def split: sum.splits dest!: close_rows_Inr)
  next
    case go: False
    let ?p = "missing results"
    let ?st1 = "if attempt > 1 then record_gym_row_redispatch (length ?p) st else st"
    define s where "s = stream_rows (length results) ?p (st_items (env ?p)) [] results None"
    have sub: "set (missing (fst s)) \<subseteq> set ?p" unfolding s_def by (rule missing_stream)
    have rec: ?thesis if "row_loop W mx envs (attempt + 1) (fst s) m e ?st1 = Some (cs, st', out)" "calls = ?p # cs" for m e cs
    proof -
      have IH: "int (length cs) \<le> max 0 (mx - (attempt + 1) + 1)" "calls_ok (missing (fst s)) cs"
        "gym_row_redispatches st' = gym_row_redispatches ?st1 + int (length (concat cs))"
        "case out of Inr (xs, _) \<Rightarrow> rows_ok envs cs (fst s) xs | Inl _ \<Rightarrow> True"
        using Cons.IH[OF that(1)] Cons.prems(2) by (simp_all split: if_splits)
      show ?thesis
        using IH that(2) go calls_ok_Cons[OF IH(2) sub] rows_ok_Cons[where env = env, OF _ IH(2) s_def]
        by (auto split: sum.splits)
    qed
    have stop: ?thesis if "st' = ?st1" "calls = [?p]" "out = Inl e" for e
      using that go by (auto simp: calls_ok_def)
    show ?thesis
    proof (cases "after_stream W (attempt = mx) (snd s) (st_end (env ?p)) metrics err")
      case (StopRows e)
      show ?thesis by (rule stop[where e = e]) (use Cons.prems(1) go StopRows in \<open>simp_all add: Let_def s_def\<close>)
    next
      case (Again m e)
      with Cons.prems(1) go obtain cs where "row_loop W mx envs (attempt + 1) (fst s) m e ?st1 = Some (cs, st', out)"
        "calls = ?p # cs" by (auto simp: Let_def s_def)
      then show ?thesis by (rule rec)
    qed
  qed
qed

lemma row_loop_returns:
  "mx - attempt + 1 \<le> int (length envs) \<Longrightarrow> row_loop W mx envs attempt results metrics err st \<noteq> None"
proof (induction envs arbitrary: attempt results metrics err st)
  case (Cons env envs)
  then have IH: "row_loop W mx envs (attempt + 1) results' metrics' err' st' \<noteq> None" for results' metrics' err' st'
    by simp
  show ?case by (auto simp only: row_loop.simps Let_def map_option_is_None IH option.distinct simp_thms
      split: row_step.splits if_splits)
qed auto

section \<open>Properties\<close>

lemma build_inputs_stamps [simp]:
  "map row_ix (build_inputs g t n) = map (\<lambda>i. Some (int i)) [0..<n]" "length (build_inputs g t n) = n"
  by (simp_all add: build_inputs_def Let_def)

text \<open>
  C32: Rows are dispatched until they arrive and never again after: the first call asks for every row, a
  later one only for rows an earlier one asked for and that are still missing, there are at most
  \<open>max_gym_row_attempts\<close> calls, and the counter of re-dispatched rows grows by the rows of the calls after
  the first.  When the rollout succeeds it returns one result per row, in row order, each streamed by the
  last call that asked for its row.  With an environment for every attempt it always returns or raises.
\<close>

theorem gym_rows_exact:
  assumes "1 \<le> mx" and "mx \<le> int (length envs)" and "0 < n"
  shows "\<exists>calls st' out. run_rollouts W mx (build_inputs g t n) envs st = Some (calls, st', out)
    \<and> int (length calls) \<le> mx \<and> hd calls = [0..<n] \<and> sorted_wrt (\<lambda>c d. set d \<subseteq> set c) calls
    \<and> gym_row_redispatches st' = gym_row_redispatches st + int (length (concat (tl calls)))
    \<and> (case out of
         Inl _ \<Rightarrow> True
       | Inr (xs, _) \<Rightarrow> length xs = n \<and> (\<forall>i<n. \<exists>j m. j < length calls \<and> i \<in> set (calls ! j)
           \<and> (\<forall>k<length calls. j < k \<longrightarrow> i \<notin> set (calls ! k))
           \<and> (IntIndex (int i), Some (xs ! i), m) \<in> set (st_items ((envs ! j) (calls ! j)))))"
proof -
  let ?r = "replicate n None"
  have miss: "missing ?r = [0..<n]" by (simp add: missing_def ix_filter_def)
  have run: "run_rollouts W mx (build_inputs g t n) envs st = row_loop W mx envs 1 ?r None None st"
    by (simp add: run_rollouts_def)
  have "row_loop W mx envs 1 ?r None None st \<noteq> None" by (rule row_loop_returns) (use assms(2) in simp)
  then obtain calls st' out where l: "row_loop W mx envs 1 ?r None None st = Some (calls, st', out)" by auto
  note sp = row_loop_spec[OF l, unfolded miss]
  have "calls \<noteq> []"
    using l assms by (cases envs) (auto simp: miss Let_def split: row_step.splits)
  with sp assms(1) have "int (length calls) \<le> mx" "hd calls = [0..<n]" "sorted_wrt (\<lambda>c d. set d \<subseteq> set c) calls"
    "gym_row_redispatches st' = gym_row_redispatches st + int (length (concat (tl calls)))"
    by (simp_all add: calls_ok_def)
  moreover have "case out of
         Inl _ \<Rightarrow> True
       | Inr (xs, _) \<Rightarrow> length xs = n \<and> (\<forall>i<n. \<exists>j m. j < length calls \<and> i \<in> set (calls ! j)
           \<and> (\<forall>k<length calls. j < k \<longrightarrow> i \<notin> set (calls ! k))
           \<and> (IntIndex (int i), Some (xs ! i), m) \<in> set (st_items ((envs ! j) (calls ! j))))"
  proof (cases out)
    case (Inr ys)
    obtain xs m where ys: "ys = (xs, m)" by (cases ys)
    have "length xs = n" "\<forall>i<n. from_last_call envs calls i (xs ! i)"
      using sp by (auto simp: rows_ok_def Inr ys)
    then show ?thesis unfolding from_last_call_def Inr ys sum.case prod.case by blast
  qed simp
  ultimately show ?thesis unfolding run l by blast
qed

text \<open>A group of three rows: the first stream breaks after one row, the second brings the other two.\<close>

definition demo_envs :: "(nat list \<Rightarrow> (string, unit) stream) list" where
  "demo_envs =
     [\<lambda>_. \<lparr>st_items = [(IntIndex 1, Some ''b'', None)], st_end = Broke 0\<rparr>,
      \<lambda>rows. \<lparr>st_items = map (\<lambda>i. (IntIndex (int i), Some [char_of (97 + i)], Some ())) (rev rows), st_end = Ended\<rparr>]"

definition demo_row :: gym_row where
  "demo_row = \<lparr>row_ix = None, temperature = 1, top_p = 1, max_output_tokens = Some 50\<rparr>"

definition demo_params :: generation_params where
  "demo_params = \<lparr>gen_temperature = 1, gen_top_p = 1, gen_max_new_tokens = 20\<rparr>"

theorem gym_rows_exact_witness:
  "\<exists>st' m. run_rollouts demo_world 2 (build_inputs demo_params demo_row 3) demo_envs new_stats
     = Some ([[0, 1, 2], [0, 2]], st', Inr ([''a'', ''b'', ''c''], m)) \<and> gym_row_redispatches st' = 2"
proof -
  let ?g = "run_rollouts demo_world 2 (build_inputs demo_params demo_row 3) demo_envs new_stats"
  have "case ?g of Some (c, _, Inr (xs, _)) \<Rightarrow> c = [[0, 1, 2], [0, 2]] \<and> xs = [''a'', ''b'', ''c''] | _ \<Rightarrow> False"
    by code_simp
  then obtain st' m where g: "?g = Some ([[0, 1, 2], [0, 2]], st', Inr ([''a'', ''b'', ''c''], m))"
    by (auto split: option.splits prod.splits sum.splits)
  have len: "length demo_envs = 2" by (simp add: demo_envs_def)
  from gym_rows_exact[of 2 demo_envs 3 demo_world demo_params demo_row new_stats, unfolded len g] g
  show ?thesis by (auto simp: new_stats_def)
qed

end
