(* ===== verification/Fleet.thy ===== *)
theory Fleet
  imports Complex_Main Prelude "HOL-Library.AList"
begin

text \<open>
  Liveness of the generation fleet (\<open>nemo_rl/models/generation/fleet_health.py\<close>): a state machine per
  data-parallel shard, the set of shards that may be handed traffic with the epoch that counts its changes,
  and the selector of the shard for the next request.  The clock is an argument of the operations that
  read it.  A shard index that does not exist is a key error.
\<close>

section \<open>Shards\<close>

datatype shard_state = Healthy | Suspect | Dead | Restarting | Stale | Retired

definition all_states :: "shard_state list" where
  "all_states = [Healthy, Suspect, Dead, Restarting, Stale, Retired]"

definition state_name :: "shard_state \<Rightarrow> string" where
  "state_name s = (case s of Healthy \<Rightarrow> ''healthy'' | Suspect \<Rightarrow> ''suspect'' | Dead \<Rightarrow> ''dead''
     | Restarting \<Rightarrow> ''restarting'' | Stale \<Rightarrow> ''stale'' | Retired \<Rightarrow> ''retired'')"

record shard_health =
  base_url :: "string option"
  sh_state :: shard_state
  probe_failures :: nat
  probe_successes :: nat
  reported_failures :: nat
  restart_attempts :: nat
  sh_weight :: int
  last_ok_at :: rat
  last_error :: string

definition serving_states :: "shard_state list" where
  "serving_states = [Healthy, Suspect]"

definition is_serving :: "shard_health \<Rightarrow> bool" where
  "is_serving h \<longleftrightarrow> sh_state h \<in> set serving_states"

record fleet_policy =
  unhealthy_threshold :: int
  healthy_threshold :: int
  max_restart_attempts :: int
  min_healthy_shards :: int

definition new_fleet_policy :: "fleet_policy \<Rightarrow> fleet_policy res" where
  "new_fleet_policy p =
     (if unhealthy_threshold p < 1 \<or> healthy_threshold p < 1 then Inl ValueError
      else if min_healthy_shards p < 1 then Inl ValueError else Inr p)"

text \<open>The shards are the list of the dictionary's values, whose keys are \<open>0 .. n - 1\<close>.\<close>

record fleet =
  fl_policy :: fleet_policy
  shards :: "shard_health list"
  membership_epoch :: nat
  last_serving :: "nat list"

definition new_fleet :: "int \<Rightarrow> fleet_policy \<Rightarrow> string option list option \<Rightarrow> rat \<Rightarrow> fleet res" where
  "new_fleet n p urls now =
     (if n < 1 then Inl ValueError
      else if (case urls of None \<Rightarrow> False | Some us \<Rightarrow> int (length us) \<noteq> n) then Inl ValueError
      else Inr \<lparr>fl_policy = p,
             shards = map (\<lambda>i. \<lparr>base_url = (case urls of None \<Rightarrow> None | Some us \<Rightarrow> us ! i), sh_state = Healthy,
               probe_failures = 0, probe_successes = 0, reported_failures = 0, restart_attempts = 0, sh_weight = 0,
               last_ok_at = now, last_error = []\<rparr>) [0..<nat n],
             membership_epoch = 0, last_serving = [0..<nat n]\<rparr>)"

section \<open>Reading\<close>

definition serving_shards :: "fleet \<Rightarrow> nat list" where
  "serving_shards f = ix_filter is_serving (shards f)"

definition serving_base_urls :: "fleet \<Rightarrow> string list" where
  "serving_base_urls f =
     List.map_filter (\<lambda>i. case base_url (shards f ! i) of None \<Rightarrow> None | Some u \<Rightarrow> if u = [] then None else Some u)
       (serving_shards f)"

definition counts_by_state :: "fleet \<Rightarrow> (shard_state \<times> nat) list" where
  "counts_by_state f = map (\<lambda>s. (s, count_list (map sh_state (shards f)) s)) all_states"

definition fleet_metrics :: "fleet \<Rightarrow> (string \<times> int) list" where
  "fleet_metrics f =
     map (\<lambda>(s, n). (''gen_fleet/shards/'' @ state_name s, int n)) (counts_by_state f)
     @ [(''gen_fleet/membership_epoch'', int (membership_epoch f)),
        (''gen_fleet/serving_shards'', int (length (serving_shards f)))]
     @ concat (map (\<lambda>i. [(''gen_fleet/restart_attempts/'' @ decimal i, int (restart_attempts (shards f ! i))),
          (''gen_fleet/shard_weight_version/'' @ decimal i, sh_weight (shards f ! i))]) [0..<length (shards f)])"

definition shard_for_base_url :: "fleet \<Rightarrow> string \<Rightarrow> nat option" where
  "shard_for_base_url f url = first_ix (\<lambda>h. base_url h = Some url) (shards f)"

text \<open>\<open>GenerationFleetExhausted\<close> is the runtime error raised when too few shards are left.\<close>

definition raise_if_exhausted :: "fleet \<Rightarrow> unit res" where
  "raise_if_exhausted f =
     (if int (length (serving_shards f)) < min_healthy_shards (fl_policy f) then Inl RuntimeError else Inr ())"

section \<open>Transitions\<close>

definition refresh_membership :: "fleet \<Rightarrow> fleet" where
  "refresh_membership f =
     (if serving_shards f \<noteq> last_serving f
      then f\<lparr>last_serving := serving_shards f, membership_epoch := membership_epoch f + 1\<rparr> else f)"

definition set_shard :: "nat \<Rightarrow> shard_health \<Rightarrow> fleet \<Rightarrow> fleet" where
  "set_shard i h f = f\<lparr>shards := (shards f)[i := h]\<rparr>"

definition transition :: "nat \<Rightarrow> shard_state \<Rightarrow> fleet \<Rightarrow> fleet" where
  "transition i st f =
     (if sh_state (shards f ! i) = st then f
      else refresh_membership (set_shard i ((shards f ! i)\<lparr>sh_state := st\<rparr>) f))"

definition on_shard :: "nat \<Rightarrow> fleet \<Rightarrow> (shard_health \<Rightarrow> fleet) \<Rightarrow> fleet res" where
  "on_shard i f k = (if i < length (shards f) then Inr (k (shards f ! i)) else Inl KeyError)"

definition record_probe :: "fleet \<Rightarrow> nat \<Rightarrow> bool \<Rightarrow> string \<Rightarrow> rat \<Rightarrow> fleet res" where
  "record_probe f i alive err now = on_shard i f (\<lambda>h.
     if \<not> is_serving h then f
     else if alive then
       (let h' = h\<lparr>probe_failures := 0, probe_successes := probe_successes h + 1, last_ok_at := now\<rparr>;
            f' = set_shard i h' f
        in if sh_state h' = Suspect \<and> int (probe_successes h') \<ge> healthy_threshold (fl_policy f)
           then transition i Healthy f' else f')
     else
       (let h' = h\<lparr>probe_successes := 0, probe_failures := probe_failures h + 1, last_error := err\<rparr>;
            f' = set_shard i h' f
        in if int (probe_failures h') \<ge> unhealthy_threshold (fl_policy f) then transition i Dead f'
           else if sh_state h' = Healthy then transition i Suspect f' else f'))"

definition report_failure :: "fleet \<Rightarrow> nat \<Rightarrow> string \<Rightarrow> fleet res" where
  "report_failure f i err = on_shard i f (\<lambda>h.
     if \<not> is_serving h then f
     else
       (let h' = h\<lparr>reported_failures := reported_failures h + 1, last_error := err\<rparr>;
            f' = set_shard i h' f
        in if int (reported_failures h') \<ge> unhealthy_threshold (fl_policy f) then transition i Dead f'
           else if sh_state h' = Healthy then transition i Suspect f' else f'))"

definition report_success :: "fleet \<Rightarrow> nat \<Rightarrow> fleet res" where
  "report_success f i = on_shard i f (\<lambda>h. set_shard i (h\<lparr>reported_failures := 0\<rparr>) f)"

definition retire :: "fleet \<Rightarrow> nat \<Rightarrow> string \<Rightarrow> fleet res" where
  "retire f i reason = on_shard i f (\<lambda>h. transition i Retired (set_shard i (h\<lparr>last_error := reason\<rparr>) f))"

definition mark_restarting :: "fleet \<Rightarrow> nat \<Rightarrow> fleet res" where
  "mark_restarting f i = bindR (on_shard i f (\<lambda>h. f)) (\<lambda>_.
     let h = shards f ! i; f' = set_shard i (h\<lparr>restart_attempts := restart_attempts h + 1\<rparr>) f
     in if sh_state h = Retired then Inr f
        else if int (restart_attempts h + 1) > max_restart_attempts (fl_policy f)
        then retire f' i ''restart attempts exhausted'' else Inr (transition i Restarting f'))"

definition mark_loaded :: "fleet \<Rightarrow> nat \<Rightarrow> fleet res" where
  "mark_loaded f i = on_shard i f (\<lambda>h. if sh_state h = Retired then f else transition i Stale f)"

definition report_refit :: "fleet \<Rightarrow> nat \<Rightarrow> int \<Rightarrow> rat \<Rightarrow> fleet res" where
  "report_refit f i version now = on_shard i f (\<lambda>h.
     if sh_state h = Retired then f
     else transition i Healthy (set_shard i (h\<lparr>sh_weight := version, probe_failures := 0, probe_successes := 0,
            reported_failures := 0, last_ok_at := now\<rparr>) f))"

section \<open>Selection\<close>

record selector =
  monitor :: fleet
  sel_inflight :: "(nat \<times> nat) list"

definition load_of :: "('k \<times> nat) list \<Rightarrow> 'k \<Rightarrow> nat" where
  "load_of d k = (case map_of d k of None \<Rightarrow> 0 | Some n \<Rightarrow> n)"

text \<open>\<open>min(xs, key=...)\<close>: the first element of least key.\<close>

lemma least_first:
  fixes xs :: "'k::linorder list" and w :: "'k \<Rightarrow> nat"
  shows "case sort_key (\<lambda>x. (w x, x)) xs of
     [] \<Rightarrow> xs = []
   | x # _ \<Rightarrow> x \<in> set xs \<and> (\<forall>y\<in>set xs. w x \<le> w y)"
proof (cases "sort_key (\<lambda>x. (w x, x)) xs")
  case Nil
  then have "xs = []" by (metis length_0_conv length_sort)
  with Nil show ?thesis by simp
next
  case (Cons x ys)
  have set: "set xs = insert x (set ys)" using Cons by (metis list.set(2) set_sort)
  have "sorted (map (\<lambda>x. (w x, x)) (x # ys))" using Cons by (metis sorted_sort_key)
  then have "\<forall>y\<in>set ys. w x \<le> w y" by (auto simp: less_eq_prod_def)
  with Cons set show ?thesis by simp
qed

definition next_shard :: "selector \<Rightarrow> nat res" where
  "next_shard s =
     (case sort_key (\<lambda>i. (load_of (sel_inflight s) i, i)) (serving_shards (monitor s)) of
        [] \<Rightarrow> Inl NoHealthyShards
      | i # _ \<Rightarrow> Inr i)"

definition acquire :: "nat \<Rightarrow> selector \<Rightarrow> selector" where
  "acquire i s = s\<lparr>sel_inflight := AList.update i (load_of (sel_inflight s) i + 1) (sel_inflight s)\<rparr>"

definition release :: "nat \<Rightarrow> selector \<Rightarrow> selector" where
  "release i s = s\<lparr>sel_inflight := AList.update i (load_of (sel_inflight s) i - 1) (sel_inflight s)\<rparr>"

section \<open>Runs\<close>

datatype fleet_event =
    Probe nat bool string rat
  | Failed nat string
  | Succeeded nat
  | RestartBegun nat
  | Loaded nat
  | Refit nat int rat
  | Retire nat string

fun fleet_step :: "fleet \<Rightarrow> fleet_event \<Rightarrow> fleet res" where
  "fleet_step f (Probe i alive err now) = record_probe f i alive err now"
| "fleet_step f (Failed i err) = report_failure f i err"
| "fleet_step f (Succeeded i) = report_success f i"
| "fleet_step f (RestartBegun i) = mark_restarting f i"
| "fleet_step f (Loaded i) = mark_loaded f i"
| "fleet_step f (Refit i v now) = report_refit f i v now"
| "fleet_step f (Retire i reason) = retire f i reason"

fun event_shard :: "fleet_event \<Rightarrow> nat" where
  "event_shard (Probe i _ _ _) = i"
| "event_shard (Failed i _) = i"
| "event_shard (Succeeded i) = i"
| "event_shard (RestartBegun i) = i"
| "event_shard (Loaded i) = i"
| "event_shard (Refit i _ _) = i"
| "event_shard (Retire i _) = i"

text \<open>An operation that raises leaves the ledger as it is.\<close>

definition fleet_after :: "fleet \<Rightarrow> fleet_event \<Rightarrow> fleet" where
  "fleet_after f e = (case fleet_step f e of Inl _ \<Rightarrow> f | Inr f' \<Rightarrow> f')"

definition fleet_run :: "fleet \<Rightarrow> fleet_event list \<Rightarrow> fleet" where
  "fleet_run f es = foldl fleet_after f es"

lemma fleet_run_simps [simp]:
  "fleet_run f [] = f" "fleet_run f (es @ [e]) = fleet_after (fleet_run f es) e"
  by (simp_all add: fleet_run_def)

lemma fleet_run_append: "fleet_run f (es @ es') = fleet_run (fleet_run f es) es'"
  by (simp add: fleet_run_def)

section \<open>The state machine of one shard\<close>

text \<open>What an operation on a shard does to it, without the fleet around it.\<close>

fun shard_step :: "fleet_policy \<Rightarrow> fleet_event \<Rightarrow> shard_health \<Rightarrow> shard_health" where
  "shard_step p (Probe _ alive err now) h =
     (if \<not> is_serving h then h
      else if alive then
        h\<lparr>probe_failures := 0, probe_successes := probe_successes h + 1, last_ok_at := now,
          sh_state := if sh_state h = Suspect \<and> int (probe_successes h + 1) \<ge> healthy_threshold p then Healthy else sh_state h\<rparr>
      else
        h\<lparr>probe_successes := 0, probe_failures := probe_failures h + 1, last_error := err,
          sh_state := if int (probe_failures h + 1) \<ge> unhealthy_threshold p then Dead else Suspect\<rparr>)"
| "shard_step p (Failed _ err) h =
     (if \<not> is_serving h then h
      else h\<lparr>reported_failures := reported_failures h + 1, last_error := err,
             sh_state := if int (reported_failures h + 1) \<ge> unhealthy_threshold p then Dead else Suspect\<rparr>)"
| "shard_step p (Succeeded _) h = h\<lparr>reported_failures := 0\<rparr>"
| "shard_step p (RestartBegun _) h =
     (if sh_state h = Retired then h
      else if int (restart_attempts h + 1) > max_restart_attempts p
      then h\<lparr>restart_attempts := restart_attempts h + 1, last_error := ''restart attempts exhausted'', sh_state := Retired\<rparr>
      else h\<lparr>restart_attempts := restart_attempts h + 1, sh_state := Restarting\<rparr>)"
| "shard_step p (Loaded _) h = (if sh_state h = Retired then h else h\<lparr>sh_state := Stale\<rparr>)"
| "shard_step p (Refit _ v now) h =
     (if sh_state h = Retired then h
      else h\<lparr>sh_weight := v, probe_failures := 0, probe_successes := 0, reported_failures := 0, last_ok_at := now,
             sh_state := Healthy\<rparr>)"
| "shard_step p (Retire _ reason) h = h\<lparr>last_error := reason, sh_state := Retired\<rparr>"

lemma set_shard_fields [simp]:
  "shards (set_shard i h f) = (shards f)[i := h]" "fl_policy (set_shard i h f) = fl_policy f"
  "membership_epoch (set_shard i h f) = membership_epoch f" "last_serving (set_shard i h f) = last_serving f"
  by (simp_all add: set_shard_def)

lemma refresh_fields [simp]:
  "shards (refresh_membership f) = shards f" "fl_policy (refresh_membership f) = fl_policy f"
  by (simp_all add: refresh_membership_def)

lemma transition_fields [simp]:
  "shards (transition i st f) = (shards f)[i := (shards f ! i)\<lparr>sh_state := st\<rparr>]" "fl_policy (transition i st f) = fl_policy f"
  by (auto simp: transition_def)

lemma serving_iff: "is_serving h \<longleftrightarrow> sh_state h = Healthy \<or> sh_state h = Suspect"
  by (auto simp: is_serving_def serving_states_def)

text \<open>The ledger refines the single-shard machine: an operation moves its own shard by one step and no other.\<close>

lemma set_shard_twice [simp]: "set_shard i h (set_shard i h' f) = set_shard i h f"
  by (simp add: set_shard_def)

lemma serving_suspect: "is_serving h \<Longrightarrow> sh_state h \<noteq> Healthy \<Longrightarrow> sh_state h = Suspect"
  by (simp add: serving_iff)

lemmas ledger_defs = record_probe_def report_failure_def report_success_def retire_def mark_restarting_def
  mark_loaded_def report_refit_def on_shard_def Let_def

lemma fleet_step_missing: "\<not> event_shard e < length (shards f) \<Longrightarrow> fleet_step f e = Inl KeyError"
  by (cases e) (simp_all add: ledger_defs)

lemma fleet_step_shards:
  assumes "event_shard e < length (shards f)"
  shows "\<exists>f'. fleet_step f e = Inr f' \<and> fl_policy f' = fl_policy f \<and>
     shards f' = (shards f)[event_shard e := shard_step (fl_policy f) e (shards f ! event_shard e)]"
proof (cases e)
  case (Probe i alive err now)
  define h where "h = shards f ! i"
  have i: "i < length (shards f)" "(shards f)[i := h] = shards f" using assms Probe by (simp_all add: h_def)
  show ?thesis
    using i serving_suspect[of h]
    by (cases "is_serving h"; cases alive; cases "sh_state h = Healthy"; cases h)
      (simp_all add: Probe ledger_defs h_def[symmetric])
next
  case (Failed i err)
  define h where "h = shards f ! i"
  have i: "i < length (shards f)" "(shards f)[i := h] = shards f" using assms Failed by (simp_all add: h_def)
  show ?thesis
    using i serving_suspect[of h]
    by (cases "is_serving h"; cases "sh_state h = Healthy"; cases h) (simp_all add: Failed ledger_defs h_def[symmetric])
qed (use assms in \<open>auto simp: ledger_defs\<close>)

lemma fleet_after_shards:
  "shards (fleet_after f e) =
     (if event_shard e < length (shards f)
      then (shards f)[event_shard e := shard_step (fl_policy f) e (shards f ! event_shard e)] else shards f)"
  "fl_policy (fleet_after f e) = fl_policy f"
  using fleet_step_shards[of e f] fleet_step_missing[of e f]
  by (cases "event_shard e < length (shards f)"; auto simp: fleet_after_def)+

lemma fleet_after_nth:
  assumes "i < length (shards f)"
  shows "shards (fleet_after f e) ! i = (if event_shard e = i then shard_step (fl_policy f) e (shards f ! i) else shards f ! i)"
  using assms by (simp add: fleet_after_shards)

lemma fleet_run_policy [simp]: "fl_policy (fleet_run f es) = fl_policy f" "length (shards (fleet_run f es)) = length (shards f)"
  by (induction es rule: rev_induct) (simp_all add: fleet_after_shards)

section \<open>Membership\<close>

definition fleet_ok :: "fleet \<Rightarrow> bool" where
  "fleet_ok f \<longleftrightarrow> last_serving f = serving_shards f"

text \<open>\<open>f'\<close> counts one membership change when the serving set of \<open>f\<close> changed, and knows the current one.\<close>

definition counts_change :: "fleet \<Rightarrow> fleet \<Rightarrow> bool" where
  "counts_change f f' \<longleftrightarrow> fleet_ok f' \<and>
     membership_epoch f' = membership_epoch f + (if serving_shards f' = serving_shards f then 0 else 1)"

lemma serving_set_shard:
  "i < length (shards f) \<Longrightarrow> is_serving h = is_serving (shards f ! i) \<Longrightarrow> serving_shards (set_shard i h f) = serving_shards f"
  unfolding serving_shards_def ix_filter_def by (auto intro!: filter_cong simp: nth_list_update)

lemma counts_set_shard:
  assumes "fleet_ok f" "i < length (shards f)" "is_serving h = is_serving (shards f ! i)"
  shows "counts_change f (set_shard i h f)"
  using assms by (simp add: counts_change_def fleet_ok_def serving_set_shard)

lemma counts_transition:
  assumes "fleet_ok f"
  shows "counts_change f (transition i st f)"
  using assms
  by (auto simp: counts_change_def transition_def refresh_membership_def fleet_ok_def serving_shards_def)

lemma counts_set_then_transition:
  assumes "fleet_ok f" "i < length (shards f)" "is_serving h = is_serving (shards f ! i)"
  shows "counts_change f (transition i st (set_shard i h f))"
proof -
  have s: "counts_change f (set_shard i h f)" by (rule counts_set_shard[OF assms])
  then have "counts_change (set_shard i h f) (transition i st (set_shard i h f))"
    by (intro counts_transition) (simp add: counts_change_def)
  with s serving_set_shard[OF assms(2,3)] show ?thesis by (simp add: counts_change_def)
qed

lemma counts_same: "fleet_ok f \<Longrightarrow> counts_change f f"
  by (simp add: counts_change_def)

lemma fleet_after_counts:
  assumes "fleet_ok f"
  shows "counts_change f (fleet_after f e)"
proof (cases "event_shard e < length (shards f)")
  case True
  then show ?thesis
    by (cases e)
      (auto simp: fleet_after_def ledger_defs serving_iff
        intro!: counts_same counts_transition counts_set_shard counts_set_then_transition assms)
qed (simp add: fleet_after_def fleet_step_missing counts_same assms)

lemma fleet_run_ok: "fleet_ok f \<Longrightarrow> fleet_ok (fleet_run f es)"
  using fleet_after_counts by (induction es rule: rev_induct) (auto simp: counts_change_def)

definition membership_changes :: "fleet \<Rightarrow> fleet_event list \<Rightarrow> nat" where
  "membership_changes f es =
     length (filter (\<lambda>k. serving_shards (fleet_run f (take (Suc k) es)) \<noteq> serving_shards (fleet_run f (take k es))) [0..<length es])"

lemma membership_changes_snoc:
  "membership_changes f (es @ [e]) =
     membership_changes f es + (if serving_shards (fleet_after (fleet_run f es) e) = serving_shards (fleet_run f es) then 0 else 1)"
proof -
  have "filter (\<lambda>k. serving_shards (fleet_run f (take (Suc k) (es @ [e]))) \<noteq> serving_shards (fleet_run f (take k (es @ [e])))) [0..<length es]
      = filter (\<lambda>k. serving_shards (fleet_run f (take (Suc k) es)) \<noteq> serving_shards (fleet_run f (take k es))) [0..<length es]"
    by (intro filter_cong) auto
  then show ?thesis by (simp add: membership_changes_def)
qed

lemma epoch_counts:
  "fleet_ok f \<Longrightarrow> membership_epoch (fleet_run f es) = membership_epoch f + membership_changes f es"
proof (induction es rule: rev_induct)
  case (snoc e es)
  with fleet_after_counts[OF fleet_run_ok[OF snoc.prems], of es e] show ?case
    by (simp add: membership_changes_snoc counts_change_def)
qed (simp add: membership_changes_def)

lemma same_epoch_same_serving:
  assumes "fleet_ok f"
  shows "membership_epoch f \<le> membership_epoch (fleet_run f es)
    \<and> (membership_epoch (fleet_run f es) = membership_epoch f \<longrightarrow> serving_shards (fleet_run f es) = serving_shards f)"
proof (induction es rule: rev_induct)
  case (snoc e es)
  with fleet_after_counts[OF fleet_run_ok[OF assms], of es e] show ?case
    by (auto simp: counts_change_def split: if_splits)
qed simp

section \<open>Histories of one shard\<close>

definition last_refit :: "nat \<Rightarrow> fleet_event list \<Rightarrow> int option" where
  "last_refit i es = foldl (\<lambda>r e. case e of Refit j v _ \<Rightarrow> if j = i then Some v else r | _ \<Rightarrow> r) None es"

lemma last_refit_simps [simp]:
  "last_refit i [] = None"
  "last_refit i (es @ [e]) = (case e of Refit j v _ \<Rightarrow> if j = i then Some v else last_refit i es | _ \<Rightarrow> last_refit i es)"
  by (simp add: last_refit_def) (cases e; simp add: last_refit_def)

text \<open>The history of a shard's weights: a shard that serves was refit last to its version, or never left since.\<close>

lemma shard_history:
  assumes "i < length (shards f)"
  defines "h \<equiv> \<lambda>es. shards (fleet_run f es) ! i"
  shows "(sh_state (h es) = Retired \<or>
      sh_weight (h es) = (case last_refit i es of None \<Rightarrow> sh_weight (shards f ! i) | Some v \<Rightarrow> v))
    \<and> (is_serving (h es) \<longrightarrow> last_refit i es = None \<longrightarrow> is_serving (shards f ! i))"
proof (induction es rule: rev_induct)
  case (snoc e es)
  have step: "h (es @ [e]) = (if event_shard e = i then shard_step (fl_policy f) e (h es) else h es)"
    using assms(1) by (simp add: h_def fleet_after_nth)
  show ?case
  proof (cases "event_shard e = i")
    case True
    with snoc step show ?thesis by (cases e) (auto simp: serving_iff)
  next
    case False
    with snoc step show ?thesis by (cases e) auto
  qed
qed (auto simp: h_def)

lemma retired_stays:
  assumes "i < length (shards f)" and "sh_state (shards f ! i) = Retired"
  shows "sh_state (shards (fleet_run f es) ! i) = Retired"
proof (induction es rule: rev_induct)
  case (snoc e es)
  have i: "i < length (shards (fleet_run f es))" using assms(1) by simp
  from snoc fleet_after_nth[OF i, of e] show ?case by (cases e) (auto simp: serving_iff)
qed (use assms in simp)

definition failures_on :: "nat \<Rightarrow> fleet_event list \<Rightarrow> nat" where
  "failures_on i es = length (filter (\<lambda>e. case e of Failed j _ \<Rightarrow> j = i | _ \<Rightarrow> False) es)"

text \<open>The events of a shard whose worker answers every probe while nothing reports a success for it.\<close>

definition wedged :: "nat \<Rightarrow> fleet_event \<Rightarrow> bool" where
  "wedged i e \<longleftrightarrow> event_shard e \<noteq> i \<or> (case e of Probe _ alive _ _ \<Rightarrow> alive | Failed _ _ \<Rightarrow> True | _ \<Rightarrow> False)"

lemma wedged_history:
  assumes "i < length (shards f)" "is_serving (shards f ! i)" "int (reported_failures (shards f ! i)) < unhealthy_threshold (fl_policy f)"
    and "list_all (wedged i) es"
  defines "h \<equiv> \<lambda>es. shards (fleet_run f es) ! i"
  shows "if int (reported_failures (shards f ! i) + failures_on i es) < unhealthy_threshold (fl_policy f)
     then is_serving (h es) \<and> reported_failures (h es) = reported_failures (shards f ! i) + failures_on i es
     else sh_state (h es) = Dead"
  using assms(4)
proof (induction es rule: rev_induct)
  case Nil
  with assms(2,3) show ?case by (simp add: failures_on_def h_def)
next
  case (snoc e es)
  have step: "h (es @ [e]) = (if event_shard e = i then shard_step (fl_policy f) e (h es) else h es)"
    using assms(1) by (simp add: h_def fleet_after_nth)
  have IH: "if int (reported_failures (shards f ! i) + failures_on i es) < unhealthy_threshold (fl_policy f)
     then is_serving (h es) \<and> reported_failures (h es) = reported_failures (shards f ! i) + failures_on i es
     else sh_state (h es) = Dead"
    using snoc by simp
  show ?case
  proof (cases "event_shard e = i")
    case False
    then have "failures_on i (es @ [e]) = failures_on i es" by (cases e) (auto simp: failures_on_def)
    with IH step False show ?thesis by simp
  next
    case True
    from snoc.prems True consider (P) err now where "e = Probe i True err now" | (F) err where "e = Failed i err"
      by (cases e) (auto simp: wedged_def)
    then show ?thesis
    proof cases
      case P
      with IH step show ?thesis by (auto simp: failures_on_def serving_iff split: if_splits)
    next
      case F
      with IH step show ?thesis by (auto simp: failures_on_def serving_iff split: if_splits)
    qed
  qed
qed

section \<open>Properties\<close>

lemma new_fleet_ok:
  assumes "new_fleet n p urls now = Inr f"
  shows "fleet_ok f" "membership_epoch f = 0" "int (length (shards f)) = n" "fl_policy f = p"
    "i < length (shards f) \<Longrightarrow> is_serving (shards f ! i) \<and> reported_failures (shards f ! i) = 0 \<and> sh_weight (shards f ! i) = 0"
proof -
  have "filter (\<lambda>i. P i) [0..<nat n] = [0..<nat n]" if "\<And>i. i < nat n \<Longrightarrow> P i" for P
    using that by (intro filter_True) auto
  then show "fleet_ok f"
    using assms by (auto simp: new_fleet_def fleet_ok_def serving_shards_def ix_filter_def serving_iff split: if_splits)
  show "membership_epoch f = 0" "int (length (shards f)) = n" "fl_policy f = p"
    using assms by (auto simp: new_fleet_def split: if_splits)
  show "i < length (shards f) \<Longrightarrow> is_serving (shards f ! i) \<and> reported_failures (shards f ! i) = 0 \<and> sh_weight (shards f ! i) = 0"
    using assms by (auto simp: new_fleet_def serving_iff split: if_splits)
qed

definition demo_fleet :: fleet where
  "demo_fleet = (case new_fleet 2 \<lparr>unhealthy_threshold = 2, healthy_threshold = 2, max_restart_attempts = 1, min_healthy_shards = 1\<rparr>
     (Some [Some ''u0'', Some ''u1'']) 0 of Inr f \<Rightarrow> f)"

lemma demo_fleet_new:
  "new_fleet 2 \<lparr>unhealthy_threshold = 2, healthy_threshold = 2, max_restart_attempts = 1, min_healthy_shards = 1\<rparr>
     (Some [Some ''u0'', Some ''u1'']) 0 = Inr demo_fleet"
  by (simp add: demo_fleet_def new_fleet_def)

text \<open>
  C11: No shard serves with weights it was not refit to: in every history of probes, reports, restarts
  and refits, a shard that serves holds the weight version of its last refit, and a shard that was out of
  the serving set stays out until a refit is reported; a retired shard never comes back.
\<close>

theorem readmission_needs_refit:
  assumes "i < length (shards f)"
  shows "(sh_state (shards f ! i) = Retired \<longrightarrow> sh_state (shards (fleet_run f es) ! i) = Retired)
    \<and> (is_serving (shards (fleet_run f es) ! i) \<longrightarrow>
        (case last_refit i es of
           None \<Rightarrow> is_serving (shards f ! i) \<and> sh_weight (shards (fleet_run f es) ! i) = sh_weight (shards f ! i)
         | Some v \<Rightarrow> sh_weight (shards (fleet_run f es) ! i) = v))"
  using shard_history[OF assms, of es] retired_stays[OF assms] by (auto simp: serving_iff split: option.splits)

theorem readmission_needs_refit_witness:
  "is_serving (shards (fleet_run demo_fleet [Probe 1 False ''e'' 0, Probe 1 False ''e'' 1, RestartBegun 1, Loaded 1,
      Probe 1 True [] 2, Refit 1 7 3, Probe 1 False ''e'' 4]) ! 1)
   \<and> sh_weight (shards (fleet_run demo_fleet [Probe 1 False ''e'' 0, Probe 1 False ''e'' 1, RestartBegun 1, Loaded 1,
      Probe 1 True [] 2, Refit 1 7 3, Probe 1 False ''e'' 4]) ! 1) = 7"
proof -
  let ?es = "[Probe 1 False ''e'' 0, Probe 1 False ''e'' 1, RestartBegun 1, Loaded 1, Probe 1 True [] 2, Refit 1 7 3, Probe 1 False ''e'' 4]"
  have i: "1 < length (shards demo_fleet)" using new_fleet_ok(3)[OF demo_fleet_new] by simp
  have s: "is_serving (shards (fleet_run demo_fleet ?es) ! 1)" "last_refit 1 ?es = Some 7" by code_simp+
  from readmission_needs_refit[OF i, of ?es] s show ?thesis by simp
qed

text \<open>
  The membership epoch is faithful: along any history of a fleet it counts exactly the changes of the
  serving set, so that between two moments with the same epoch the same shards serve.
\<close>

theorem epoch_tracks_membership:
  assumes "new_fleet n p urls now = Inr f"
  shows "membership_epoch (fleet_run f es) = membership_changes f es
    \<and> membership_epoch (fleet_run f es) \<le> membership_epoch (fleet_run f (es @ es'))
    \<and> (membership_epoch (fleet_run f (es @ es')) = membership_epoch (fleet_run f es)
        \<longrightarrow> serving_shards (fleet_run f (es @ es')) = serving_shards (fleet_run f es))"
  using epoch_counts[OF new_fleet_ok(1)[OF assms], of es] new_fleet_ok(2)[OF assms]
    same_epoch_same_serving[OF fleet_run_ok[OF new_fleet_ok(1)[OF assms]], of es es']
  by (simp add: fleet_run_append)

theorem epoch_tracks_membership_witness:
  "membership_epoch (fleet_run demo_fleet ([Probe 1 False ''e'' 0, Probe 1 False ''e'' 1] @ [Probe 0 False ''e'' 2])) = 1
   \<and> serving_shards (fleet_run demo_fleet ([Probe 1 False ''e'' 0, Probe 1 False ''e'' 1] @ [Probe 0 False ''e'' 2])) = [0]"
proof -
  let ?a = "[Probe 1 False ''e'' 0, Probe 1 False ''e'' 1]" and ?b = "[Probe 0 False ''e'' 2]"
  have e: "membership_epoch (fleet_run demo_fleet (?a @ ?b)) = 1" "membership_epoch (fleet_run demo_fleet ?a) = 1"
    "serving_shards (fleet_run demo_fleet ?a) = [0]"
    by code_simp+
  from epoch_tracks_membership[OF demo_fleet_new, of ?a ?b] e show ?thesis by simp
qed

text \<open>
  A wedged engine is condemned by its failed requests however often its worker answers probes: while
  no success is reported, a serving shard leaves the serving set exactly when the failures reported for it
  reach the threshold, and is then dead.
\<close>

theorem wedged_shard_condemned:
  assumes "new_fleet n p urls now = Inr f" and "new_fleet_policy p = Inr p" and "int i < n" and "list_all (wedged i) es"
  shows "is_serving (shards (fleet_run f es) ! i) = (int (failures_on i es) < unhealthy_threshold p)
    \<and> (is_serving (shards (fleet_run f es) ! i) \<or> sh_state (shards (fleet_run f es) ! i) = Dead)"
proof -
  have i: "i < length (shards f)" using assms(3) new_fleet_ok(3)[OF assms(1)] by simp
  note h = new_fleet_ok(5)[OF assms(1) i]
  have "0 < unhealthy_threshold p" using assms(2) by (auto simp: new_fleet_policy_def split: if_splits)
  with wedged_history[OF i _ _ assms(4)] h new_fleet_ok(4)[OF assms(1)] show ?thesis
    by (auto simp: serving_iff split: if_splits)
qed

theorem wedged_shard_condemned_witness:
  "sh_state (shards (fleet_run demo_fleet [Failed 0 ''t'', Probe 0 True [] 1, Probe 0 True [] 2, Probe 0 True [] 3, Failed 0 ''t'']) ! 0) = Dead
   \<and> \<not> is_serving (shards (fleet_run demo_fleet [Failed 0 ''t'', Probe 0 True [] 1, Probe 0 True [] 2, Probe 0 True [] 3, Failed 0 ''t'']) ! 0)"
proof -
  let ?es = "[Failed 0 ''t'', Probe 0 True [] 1, Probe 0 True [] 2, Probe 0 True [] 3, Failed 0 ''t'']"
  have "list_all (wedged 0) ?es" "failures_on 0 ?es = 2" by code_simp+
  with wedged_shard_condemned[OF demo_fleet_new, of 0 ?es] show ?thesis by (auto simp: new_fleet_policy_def)
qed

lemma next_shard_least:
  "case next_shard s of
     Inl _ \<Rightarrow> serving_shards (monitor s) = []
   | Inr i \<Rightarrow> i \<in> set (serving_shards (monitor s))
       \<and> (\<forall>j\<in>set (serving_shards (monitor s)). load_of (sel_inflight s) i \<le> load_of (sel_inflight s) j)"
  using least_first[where w = "load_of (sel_inflight s)" and xs = "serving_shards (monitor s)"]
  by (simp add: next_shard_def split: list.splits)

end
