(* ===== verification/Router.thy ===== *)
theory Router
  imports Fleet
begin

text \<open>
  The HTTP router in front of the generation fleet (\<open>nemo_rl/models/generation/generation_router.py\<close>) and the
  controller's probe tick that connects it to the ledger of \<open>Fleet\<close>
  (\<open>nemo_rl/algorithms/single_controller.py\<close>): the tick probes the serving shards, drains the router's
  failure counts into the ledger and pushes the serving set to the router.  A request is a pair of steps,
  its start and the end of the forwarding; the forwarding itself is its result.
\<close>

section \<open>The router\<close>

record router =
  all_backends :: "string list"
  r_serving :: "string list"
  r_inflight :: "(string \<times> nat) list"
  backend_failures :: "(string \<times> nat) list"
  r_host :: string
  r_port :: nat
  no_healthy_status :: int
  health_managed :: bool
  requests_total :: nat
  no_backend_total :: nat
  backend_error_total :: nat

definition zero_counts :: "string list \<Rightarrow> (string \<times> nat) list" where
  "zero_counts urls = fold (\<lambda>u. AList.update u 0) urls []"

definition new_router :: "string list \<Rightarrow> string \<Rightarrow> nat \<Rightarrow> int \<Rightarrow> bool \<Rightarrow> router res" where
  "new_router urls host port status managed =
     (if urls = [] then Inl ValueError
      else Inr \<lparr>all_backends = urls, r_serving = urls, r_inflight = zero_counts urls, backend_failures = zero_counts urls,
             r_host = host, r_port = port, no_healthy_status = status, health_managed = managed,
             requests_total = 0, no_backend_total = 0, backend_error_total = 0\<rparr>)"

definition router_base_url :: "router \<Rightarrow> string" where
  "router_base_url r = ''http://'' @ r_host r @ '':'' @ decimal (r_port r) @ ''/v1''"

definition set_serving_backends :: "string list \<Rightarrow> router \<Rightarrow> router" where
  "set_serving_backends urls r = r\<lparr>r_serving := filter (\<lambda>u. u \<in> set (map fst (r_inflight r))) urls\<rparr>"

definition drain_backend_failures :: "router \<Rightarrow> (string \<times> nat) list \<times> router" where
  "drain_backend_failures r =
     (let counts = filter (\<lambda>(u, n). n \<noteq> 0) (backend_failures r)
      in (counts, r\<lparr>backend_failures := fold (\<lambda>(u, n). AList.update u 0) counts (backend_failures r)\<rparr>))"

definition router_metrics :: "router \<Rightarrow> (string \<times> int) list" where
  "router_metrics r =
     [(''router/requests_total'', int (requests_total r)), (''router/no_healthy_backend_total'', int (no_backend_total r)),
      (''router/backend_error_total'', int (backend_error_total r)),
      (''router/serving_backends'', int (length (r_serving r)))]"

definition pick_backend :: "router \<Rightarrow> string option" where
  "pick_backend r =
     (case sort_key (\<lambda>u. (load_of (r_inflight r) u, u)) (r_serving r) of [] \<Rightarrow> None | u # _ \<Rightarrow> Some u)"

definition target_url :: "string \<Rightarrow> string \<Rightarrow> string" where
  "target_url backend path =
     (if drop (length backend - 3) backend = ''/v1'' then take (length backend - 3) backend else backend) @ path"

text \<open>The start of a request: the status it is answered with at once, or the backend it is forwarded to.\<close>

definition begin_request :: "router \<Rightarrow> router \<times> (int + string)" where
  "begin_request r =
     (let r1 = r\<lparr>requests_total := requests_total r + 1\<rparr>
      in case pick_backend r1 of
           None \<Rightarrow> (r1\<lparr>no_backend_total := no_backend_total r1 + 1\<rparr>, Inl (no_healthy_status r1))
         | Some u \<Rightarrow> (r1\<lparr>r_inflight := AList.update u (load_of (r_inflight r1) u + 1) (r_inflight r1)\<rparr>, Inr u))"

definition on_backend_error :: "string \<Rightarrow> router \<Rightarrow> router \<times> int" where
  "on_backend_error u r =
     (let r1 = r\<lparr>backend_error_total := backend_error_total r + 1,
                 backend_failures := AList.update u (load_of (backend_failures r) u + 1) (backend_failures r)\<rparr>;
          r2 = (if health_managed r1 then r1\<lparr>r_serving := filter (\<lambda>v. v \<noteq> u) (r_serving r1)\<rparr> else r1)
      in (r2, if r_serving r2 \<noteq> [] then 500 else no_healthy_status r2))"

text \<open>Forwarding ends with the backend's response, a timeout or client error, or another exception.\<close>

datatype forward_result = Forwarded int | BackendError | OtherError

definition end_request :: "string \<Rightarrow> forward_result \<Rightarrow> router \<Rightarrow> router \<times> int option" where
  "end_request u x r =
     (let (r1, status) = (case x of
            Forwarded s \<Rightarrow> (r, Some s)
          | BackendError \<Rightarrow> (case on_backend_error u r of (r', s) \<Rightarrow> (r', Some s))
          | OtherError \<Rightarrow> (r, None))
      in (r1\<lparr>r_inflight := AList.update u (load_of (r_inflight r1) u - 1) (r_inflight r1)\<rparr>, status))"

section \<open>The controller's tick\<close>

text \<open>
  The ledger and the router, with the backends of the requests being forwarded and, as history, the
  backends of those that failed.
\<close>

record control =
  ledger :: fleet
  rt :: router
  active :: "string list"
  failed :: "string list"

definition probe_generation_fleet :: "(nat \<Rightarrow> bool) \<Rightarrow> string \<Rightarrow> rat \<Rightarrow> fleet \<Rightarrow> fleet" where
  "probe_generation_fleet alive err now f = fleet_run f (map (\<lambda>i. Probe i (alive i) err now) (serving_shards f))"

definition failure_text :: "string \<Rightarrow> nat \<Rightarrow> string" where
  "failure_text u n = ''RuntimeError: router: '' @ decimal n @ '' failed request(s) to '' @ u"

definition drain_router_failures :: "control \<Rightarrow> control" where
  "drain_router_failures c =
     (case drain_backend_failures (rt c) of
        (counts, r) \<Rightarrow>
          c\<lparr>rt := r,
            ledger := foldl (\<lambda>f (u, n). case shard_for_base_url f u of
                          None \<Rightarrow> f
                        | Some i \<Rightarrow> fleet_run f (replicate n (Failed i (failure_text u n)))) (ledger c) counts\<rparr>)"

definition push_router_membership :: "control \<Rightarrow> control" where
  "push_router_membership c = c\<lparr>rt := set_serving_backends (serving_base_urls (ledger c)) (rt c)\<rparr>"

definition probe_tick :: "(nat \<Rightarrow> bool) \<Rightarrow> string \<Rightarrow> rat \<Rightarrow> control \<Rightarrow> control" where
  "probe_tick alive err now c =
     push_router_membership (drain_router_failures (c\<lparr>ledger := probe_generation_fleet alive err now (ledger c)\<rparr>))"

datatype ctl_event = Request | Finish string forward_result | Tick "nat \<Rightarrow> bool" string rat

fun ctl_step :: "control \<Rightarrow> ctl_event \<Rightarrow> control" where
  "ctl_step c Request =
     (case begin_request (rt c) of
        (r, Inl _) \<Rightarrow> c\<lparr>rt := r\<rparr>
      | (r, Inr u) \<Rightarrow> c\<lparr>rt := r, active := u # active c\<rparr>)"
| "ctl_step c (Finish u x) =
     (if u \<notin> set (active c) then c
      else c\<lparr>rt := fst (end_request u x (rt c)), active := remove1 u (active c),
             failed := (if x = BackendError then u # failed c else failed c)\<rparr>)"
| "ctl_step c (Tick alive err now) = probe_tick alive err now c"

definition ctl_run :: "control \<Rightarrow> ctl_event list \<Rightarrow> control" where
  "ctl_run c es = foldl ctl_step c es"

definition ctl_start :: "fleet \<Rightarrow> router \<Rightarrow> control" where
  "ctl_start f r = \<lparr>ledger = f, rt = r, active = [], failed = []\<rparr>"

section \<open>Counting requests\<close>

lemma ctl_run_simps [simp]: "ctl_run c [] = c" "ctl_run c (es @ [e]) = ctl_step (ctl_run c es) e"
  by (simp_all add: ctl_run_def)

lemma load_of_update [simp]: "load_of (AList.update k n d) k' = (if k' = k then n else load_of d k')"
  by (simp add: load_of_def update_conv')

lemma load_of_zero: "load_of (zero_counts urls) u = 0"
proof -
  have "load_of (fold (\<lambda>u. AList.update u 0) urls d) u = 0" if "load_of d u = 0" for d
    using that by (induction urls arbitrary: d) auto
  then show ?thesis by (simp add: zero_counts_def load_of_def)
qed

lemma keys_zero: "set (map fst (zero_counts urls)) = set urls" "distinct (map fst (zero_counts urls))"
proof -
  have "fst ` set (fold (\<lambda>u. AList.update u 0) urls d) = fst ` set d \<union> set urls" for d :: "(string \<times> nat) list"
    by (induction urls arbitrary: d) (auto simp: dom_update)
  moreover have "distinct (map fst d) \<Longrightarrow> distinct (map fst (fold (\<lambda>u. AList.update u 0) urls d))" for d :: "(string \<times> nat) list"
    by (induction urls arbitrary: d) (auto simp: distinct_update)
  ultimately show "set (map fst (zero_counts urls)) = set urls" "distinct (map fst (zero_counts urls))"
    by (simp_all add: zero_counts_def)
qed

lemma pick_backend_least:
  "case pick_backend r of
     None \<Rightarrow> r_serving r = []
   | Some u \<Rightarrow> u \<in> set (r_serving r) \<and> (\<forall>v\<in>set (r_serving r). load_of (r_inflight r) u \<le> load_of (r_inflight r) v)"
  using least_first[where w = "load_of (r_inflight r)" and xs = "r_serving r"] by (simp add: pick_backend_def split: list.splits)


lemma end_request_fields:
  "load_of (backend_failures (fst (end_request u x r))) v =
     load_of (backend_failures r) v + (if x = BackendError \<and> v = u then 1 else 0)"
  "distinct (map fst (backend_failures r)) \<Longrightarrow> distinct (map fst (backend_failures (fst (end_request u x r))))"
  "load_of (r_inflight (fst (end_request u x r))) v = (if v = u then load_of (r_inflight r) u - 1 else load_of (r_inflight r) v)"
  "set (r_serving (fst (end_request u x r))) \<subseteq> set (r_serving r)"
  "fst ` set (r_inflight (fst (end_request u x r))) = insert u (fst ` set (r_inflight r))"
  by (cases x; auto simp: end_request_def on_backend_error_def Let_def distinct_update dom_update)+

definition routed :: "string list \<Rightarrow> control \<Rightarrow> bool" where
  "routed urls c \<longleftrightarrow> (\<forall>u. load_of (r_inflight (rt c)) u = count_list (active c) u)
     \<and> fst ` set (r_inflight (rt c)) = set urls \<and> set (r_serving (rt c)) \<subseteq> set urls \<and> set (active c) \<subseteq> set urls"

lemma count_list_remove1: "count_list (remove1 x xs) y = (if y = x then count_list xs y - 1 else count_list xs y)"
  by (induction xs) (auto simp: count_list_0_iff Suc_diff_le[symmetric] not_less Suc_le_eq intro: count_notin)

lemma routed_tick:
  assumes "routed urls c"
  shows "routed urls (probe_tick alive err now c)"
  using assms
  by (auto simp: routed_def probe_tick_def push_router_membership_def drain_router_failures_def drain_backend_failures_def
      set_serving_backends_def Let_def)

lemma routed_step:
  assumes "routed urls c"
  shows "routed urls (ctl_step c e)"
proof (cases e)
  case Request
  have pick: "u \<in> set (r_serving (rt c))" if "pick_backend (rt c\<lparr>requests_total := k\<rparr>) = Some u" for u k
    using pick_backend_least[of "rt c\<lparr>requests_total := k\<rparr>"] that by simp
  show ?thesis
    using assms pick unfolding Request ctl_step.simps begin_request_def Let_def
    by (auto simp: routed_def dom_update split: option.split)
next
  case (Finish u x)
  show ?thesis
  proof (cases "u \<in> set (active c)")
    case True
    then have u: "u \<in> set urls" using assms by (auto simp: routed_def)
    have "set (remove1 u (active c)) \<subseteq> set urls" using assms set_remove1_subset[of u "active c"] by (auto simp: routed_def)
    then show ?thesis
      using assms True u end_request_fields(3,4,5)[of u x "rt c"]
      by (auto simp: routed_def Finish count_list_remove1)
  qed (use assms Finish in simp)
next
  case (Tick alive err now)
  with routed_tick[OF assms] show ?thesis by simp
qed

lemma routed_run:
  assumes "new_router urls host port status managed = Inr r"
  shows "routed urls (ctl_run (ctl_start f r) es)"
proof (induction es rule: rev_induct)
  case Nil
  have "r_inflight r = zero_counts urls" "r_serving r = urls" using assms by (auto simp: new_router_def split: if_splits)
  moreover have "fst ` set (zero_counts urls) = set urls" using keys_zero(1)[of urls] by simp
  ultimately show ?case by (simp add: routed_def ctl_start_def load_of_zero)
next
  case (snoc e es)
  then show ?case by (simp add: routed_step)
qed

section \<open>Draining\<close>














section \<open>Failures seen by the router\<close>




section \<open>Properties\<close>

definition demo_router :: router where
  "demo_router = (case new_router [''u0'', ''u1''] ''h'' 8000 409 True of Inr r \<Rightarrow> r)"

lemma demo_router_new: "new_router [''u0'', ''u1''] ''h'' 8000 409 True = Inr demo_router"
  by (simp add: demo_router_def new_router_def)

text \<open>
  C12: The router spreads the load it really carries: over any history of requests, failures, probe ticks
  and membership pushes, its counter of a backend is the number of requests being forwarded there, and a
  new request goes to a serving backend with the fewest of them, or is refused with the configured status
  exactly when none serves.
\<close>

theorem router_spreads_load:
  assumes "new_router urls host port status managed = Inr r"
  defines "c \<equiv> \<lambda>f es. ctl_run (ctl_start f r) es"
  shows "load_of (r_inflight (rt (c f es))) u = count_list (active (c f es)) u \<and> set (r_serving (rt (c f es))) \<subseteq> set urls
    \<and> (case snd (begin_request (rt (c f es))) of
         Inl s \<Rightarrow> s = no_healthy_status (rt (c f es)) \<and> r_serving (rt (c f es)) = []
       | Inr v \<Rightarrow> v \<in> set (r_serving (rt (c f es)))
           \<and> list_all (\<lambda>w. count_list (active (c f es)) v \<le> count_list (active (c f es)) w) (r_serving (rt (c f es))))"
proof -
  have inv: "routed urls (c f es)" unfolding c_def by (rule routed_run[OF assms(1)])
  let ?r = "rt (c f es)\<lparr>requests_total := requests_total (rt (c f es)) + 1\<rparr>"
  have load: "load_of (r_inflight (rt (c f es))) = count_list (active (c f es))" using inv by (auto simp: routed_def)
  have "case snd (begin_request (rt (c f es))) of
         Inl s \<Rightarrow> s = no_healthy_status (rt (c f es)) \<and> r_serving (rt (c f es)) = []
       | Inr v \<Rightarrow> v \<in> set (r_serving (rt (c f es)))
           \<and> list_all (\<lambda>w. count_list (active (c f es)) v \<le> count_list (active (c f es)) w) (r_serving (rt (c f es)))"
    using pick_backend_least[of ?r]
    by (cases "pick_backend ?r") (simp_all add: begin_request_def Let_def load list_all_iff)
  with inv show ?thesis by (simp add: routed_def)
qed

theorem router_spreads_load_witness:
  "snd (begin_request (rt (ctl_run (ctl_start demo_fleet demo_router) [Request, Request, Finish ''u0'' (Forwarded 200), Request, Request]))) = Inr ''u1''
   \<and> load_of (r_inflight (rt (ctl_run (ctl_start demo_fleet demo_router) [Request, Request, Finish ''u0'' (Forwarded 200), Request, Request]))) ''u0''
      = count_list [''u0'', ''u0'', ''u1''] ''u0''"
proof -
  let ?es = "[Request, Request, Finish ''u0'' (Forwarded 200), Request, Request]"
  let ?c = "ctl_run (ctl_start demo_fleet demo_router) ?es"
  have act: "active ?c = [''u0'', ''u0'', ''u1'']" by code_simp
  have nxt: "snd (begin_request (rt ?c)) = Inr ''u1''" by code_simp
  have "load_of (r_inflight (rt ?c)) ''u0'' = count_list (active ?c) ''u0''"
    using router_spreads_load[OF demo_router_new, of demo_fleet ?es "''u0''"] by blast
  with nxt show ?thesis unfolding act by blast
qed



end
