(* ===== verification/Relay.thy ===== *)
theory Relay
  imports Prelude "HOL-Library.AList"
begin

text \<open>
  The relays of the ZeroMQ transport (\<open>nemo_rl/utils/weight_transfer_zmq.py\<close>).  A producer sends a payload to one relay;
  every relay hands it to its own receiver and forwards it to its children in a binary tree over the
  addresses, which is rooted at the relay the producer chose.  Messages may be repeated, and are in flight
  until they are delivered.  Sockets, executors and timings are left out: what a staged task returns is the
  argument \<open>run\<close> of the flush.
\<close>

section \<open>Messages\<close>

record relay_meta =
  m_protocol :: string
  m_api_key :: "string option"
  m_transfer :: string
  m_producer :: int
  m_payload :: int
  m_checksum :: string
  m_candidates :: int
  m_root :: "string option"

definition zmq_protocol :: string where
  "zmq_protocol = ''nemo-rl-sparse-zmq-v1''"

definition data_kind :: string where
  "data_kind = ''DATA''"

text \<open>The frames of a message after the sender's identity; \<open>Malformed\<close> has a wrong number of them or no metadata.\<close>

datatype 'p relay_message = Malformed | Message string relay_meta 'p

text \<open>The metadata that a client with the producer's identity sends.\<close>

definition payload_meta :: "string option \<Rightarrow> string \<Rightarrow> int \<Rightarrow> int \<Rightarrow> string \<Rightarrow> int \<Rightarrow> string option \<Rightarrow> relay_meta" where
  "payload_meta key transfer producer payload checksum candidates root =
     \<lparr>m_protocol = zmq_protocol, m_api_key = key, m_transfer = transfer, m_producer = producer, m_payload = payload,
      m_checksum = checksum, m_candidates = candidates, m_root = root\<rparr>"

type_synonym relay_key = "int \<times> int"

definition message_key :: "relay_meta \<Rightarrow> relay_key" where
  "message_key m = (m_producer m, m_payload m)"

section \<open>The relay\<close>

text \<open>What a relay has handed to its executors.\<close>

datatype 'p relay_task = Fanout relay_meta 'p | Forward relay_meta 'p string string

record 'p relay_transfer =
  rt_checksums :: "(relay_key \<times> string) list"
  rt_futures :: "'p relay_task list"

definition no_transfer :: "'p relay_transfer" where
  "no_transfer = \<lparr>rt_checksums = [], rt_futures = []\<rparr>"

record 'p relay =
  r_token :: "string option"
  r_tree :: "(string list \<times> nat) option"
  r_transfers :: "(string \<times> 'p relay_transfer) list"
  r_flushed :: "(string \<times> nat res) list"

definition new_relay :: "string option \<Rightarrow> 'p relay" where
  "new_relay token = \<lparr>r_token = token, r_tree = None, r_transfers = [], r_flushed = []\<rparr>"

definition configure_tree :: "string list \<Rightarrow> string \<Rightarrow> 'p relay \<Rightarrow> 'p relay \<times> unit res" where
  "configure_tree relay_addresses own_address r =
     (let addresses = rev (remdups (rev relay_addresses))
      in case first_ix (\<lambda>a. a = own_address) addresses of
           None \<Rightarrow> (r, Inl ValueError)
         | Some own \<Rightarrow> (r\<lparr>r_tree := Some (addresses, own)\<rparr>, Inr ()))"

definition transfer_of :: "string \<Rightarrow> 'p relay \<Rightarrow> 'p relay_transfer" where
  "transfer_of t r = (case map_of (r_transfers r) t of Some x \<Rightarrow> x | None \<Rightarrow> no_transfer)"

definition put_transfer :: "string \<Rightarrow> 'p relay_transfer \<Rightarrow> 'p relay \<Rightarrow> 'p relay" where
  "put_transfer t x r = r\<lparr>r_transfers := AList.update t x (r_transfers r)\<rparr>"

fun parse_data_message :: "'p relay \<Rightarrow> 'p relay_message \<Rightarrow> (relay_meta \<times> 'p) res" where
  "parse_data_message r Malformed = Inl ValueError"
| "parse_data_message r (Message kind m body) =
     bindR (guardR ValueError (kind = data_kind)) (\<lambda>_.
     bindR (guardR ValueError (m_protocol m = zmq_protocol)) (\<lambda>_.
     bindR (guardR PermissionError (r_token r = None \<or> m_api_key m = r_token r)) (\<lambda>_.
     bindR (guardR ValueError (m_transfer m \<noteq> [] \<and> 0 \<le> m_producer m \<and> 0 \<le> m_payload m \<and> m_checksum m \<noteq> []
       \<and> 0 \<le> m_candidates m)) (\<lambda>_.
     bindR (guardR ValueError (case m_root m of None \<Rightarrow> True
       | Some a \<Rightarrow> (case r_tree r of None \<Rightarrow> False | Some (as, _) \<Rightarrow> a \<in> set as))) (\<lambda>_.
     Inr (m, body))))))"

text \<open>The children of a relay in the tree rooted at \<open>as ! root\<close>.\<close>

definition node_index :: "nat \<Rightarrow> nat \<Rightarrow> nat \<Rightarrow> nat" where
  "node_index n root own = nat ((int own - int root) mod int n)"

definition child_addresses :: "string list \<Rightarrow> nat \<Rightarrow> nat \<Rightarrow> string list" where
  "child_addresses as own root =
     (let k = node_index (length as) root own
      in map (\<lambda>c. as ! ((root + c) mod length as)) (filter (\<lambda>c. c < length as) [2 * k + 1, 2 * k + 2]))"

text \<open>The tasks submitted for a payload seen for the first time.\<close>

definition relay_tasks :: "'p relay \<Rightarrow> relay_meta \<Rightarrow> 'p \<Rightarrow> 'p relay_task list \<times> unit res" where
  "relay_tasks r m body =
     (case r_tree r of
        None \<Rightarrow> ([Fanout m body], Inr ())
      | Some (as, own) \<Rightarrow>
          (let relay_root = (case m_root m of Some a \<Rightarrow> a | None \<Rightarrow> as ! own)
           in case first_ix (\<lambda>a. a = relay_root) as of
                None \<Rightarrow> ([Fanout m body], Inl ValueError)
              | Some root \<Rightarrow> (Fanout m body # map (\<lambda>a. Forward m body a relay_root) (child_addresses as own root), Inr ())))"

text \<open>A message: the tasks it submits, and whether it is acknowledged.\<close>

definition relay_data :: "'p relay_message \<Rightarrow> 'p relay \<Rightarrow> 'p relay \<times> 'p relay_task list \<times> unit res" where
  "relay_data msg r =
     (case parse_data_message r msg of
        Inl e \<Rightarrow> (r, [], Inl e)
      | Inr (m, body) \<Rightarrow>
          (if map_of (r_flushed r) (m_transfer m) \<noteq> None then (r, [], Inl RuntimeError)
           else
             (let staged = transfer_of (m_transfer m) r
              in case map_of (rt_checksums staged) (message_key m) of
                   Some c \<Rightarrow> (put_transfer (m_transfer m) staged r, [], if c \<noteq> m_checksum m then Inl ValueError else Inr ())
                 | None \<Rightarrow>
                     (let (ts, res) = relay_tasks r m body
                      in (put_transfer (m_transfer m)
                            (staged\<lparr>rt_checksums := rt_checksums staged @ [(message_key m, m_checksum m)],
                                    rt_futures := rt_futures staged @ ts\<rparr>) r, ts, res)))))"

text \<open>
  The flush of a transfer.  It waits until the expected number of payloads is staged, or gives up; then it
  closes the transfer and waits for its tasks, whose result it keeps.
\<close>

definition relay_flush :: "('p relay_task \<Rightarrow> unit res) \<Rightarrow> string \<Rightarrow> nat \<Rightarrow> 'p relay \<Rightarrow> 'p relay \<times> nat res" where
  "relay_flush run t expected r =
     (case map_of (r_flushed r) t of
        Some res \<Rightarrow> (r, res)
      | None \<Rightarrow>
          (if length (rt_checksums (transfer_of t r)) < expected then (r, Inl TimeoutError)
           else
             (let staged = transfer_of t r;
                  res = (if list_all (\<lambda>x. ok (run x)) (rt_futures staged) then Inr (length (rt_checksums staged))
                         else Inl RuntimeError)
              in (r\<lparr>r_transfers := AList.delete t (r_transfers r), r_flushed := r_flushed r @ [(t, res)]\<rparr>, res))))"

section \<open>The network\<close>

text \<open>
  The relays by address, and every message ever sent with its destination.  A message is delivered any
  number of times: a client repeats one that it has no answer for.
\<close>

record 'p relay_net =
  n_relays :: "string \<Rightarrow> 'p relay"
  n_flight :: "(string \<times> 'p relay_message) list"

text \<open>A forward is a client's \<open>send_payload\<close> to the child, with the relay's own token.\<close>

fun forwards :: "'p relay \<Rightarrow> 'p relay_task list \<Rightarrow> (string \<times> 'p relay_message) list" where
  "forwards r [] = []"
| "forwards r (Fanout m body # ts) = forwards r ts"
| "forwards r (Forward m body address root # ts) =
     (address, Message data_kind
        (payload_meta (r_token r) (m_transfer m) (m_producer m) (m_payload m) (m_checksum m) (m_candidates m) (Some root)) body)
     # forwards r ts"

definition net_deliver :: "nat \<Rightarrow> 'p relay_net \<Rightarrow> 'p relay_net \<times> bool" where
  "net_deliver i net =
     (if i < length (n_flight net)
      then (case n_flight net ! i of (a, msg) \<Rightarrow>
              case relay_data msg (n_relays net a) of (r', ts, res) \<Rightarrow>
                (net\<lparr>n_relays := (n_relays net)(a := r'), n_flight := n_flight net @ forwards r' ts\<rparr>, ok res))
      else (net, True))"

text \<open>Deliveries one after the other, and whether all of them were acknowledged.\<close>

fun net_run :: "nat list \<Rightarrow> 'p relay_net \<Rightarrow> 'p relay_net \<times> bool" where
  "net_run [] net = (net, True)"
| "net_run (i # is') net = (case net_deliver i net of (net1, b) \<Rightarrow> case net_run is' net1 of (net2, b') \<Rightarrow> (net2, b \<and> b'))"

text \<open>Every message has reached its destination at least once.\<close>

fun arrived :: "(string \<Rightarrow> 'p relay) \<Rightarrow> string \<times> 'p relay_message \<Rightarrow> bool" where
  "arrived rs (a, Malformed) = False"
| "arrived rs (a, Message kind m body) \<longleftrightarrow> message_key m \<in> fst ` set (rt_checksums (transfer_of (m_transfer m) (rs a)))"

definition net_settled :: "'p relay_net \<Rightarrow> bool" where
  "net_settled net \<longleftrightarrow> list_all (arrived (n_relays net)) (n_flight net)"

text \<open>The payloads that a relay hands to its receiver.\<close>

fun fanouts :: "'p relay_task list \<Rightarrow> (relay_meta \<times> 'p) list" where
  "fanouts [] = []"
| "fanouts (Fanout m body # ts) = (m, body) # fanouts ts"
| "fanouts (Forward m body a root # ts) = fanouts ts"

definition applied_bodies :: "string \<Rightarrow> 'p relay \<Rightarrow> 'p list" where
  "applied_bodies t r = map snd (fanouts (rt_futures (transfer_of t r)))"


section \<open>Positions in the tree\<close>

lemma node_index_less: "0 < n \<Longrightarrow> node_index n root own < n"
  unfolding node_index_def using pos_mod_bound[of "int n" "int own - int root"] by (simp add: nat_less_iff)

lemma node_index_addr: "own < n \<Longrightarrow> (root + node_index n root own) mod n = own"
proof -
  assume n: "own < n"
  have "int ((root + node_index n root own) mod n) = (int root + (int own - int root) mod int n) mod int n"
    using n by (simp add: node_index_def zmod_int)
  also have "\<dots> = int own mod int n" by (simp add: mod_simps)
  finally show ?thesis using n by (simp add: zmod_int[symmetric])
qed

lemma addr_node_index: "c < n \<Longrightarrow> node_index n root ((root + c) mod n) = c"
proof -
  assume n: "c < n"
  have "(int ((root + c) mod n) - int root) mod int n = int c mod int n" by (simp add: zmod_int mod_simps)
  with n show ?thesis by (simp add: node_index_def zmod_int[symmetric])
qed

text \<open>The relay at position \<open>j > 0\<close> is a child of the one at \<open>(j - 1) div 2\<close>.\<close>

lemma child_of_parent:
  assumes "0 < j" "j < length as"
  shows "as ! ((root + j) mod length as) \<in> set (child_addresses as ((root + (j - 1) div 2) mod length as) root)"
proof -
  have k: "node_index (length as) root ((root + (j - 1) div 2) mod length as) = (j - 1) div 2"
    using assms by (intro addr_node_index) simp
  have "j = 2 * ((j - 1) div 2) + 1 \<or> j = 2 * ((j - 1) div 2) + 2" using assms(1) by presburger
  then have "j \<in> set (filter (\<lambda>c. c < length as) [2 * ((j - 1) div 2) + 1, 2 * ((j - 1) div 2) + 2])"
    using assms(2) unfolding filter_set[symmetric] by (auto simp del: One_nat_def)
  then show ?thesis unfolding child_addresses_def k Let_def set_map by (rule imageI)
qed

lemma first_ix_nth: "distinct as \<Longrightarrow> i < length as \<Longrightarrow> first_ix (\<lambda>a. a = as ! i) as = Some i"
proof -
  assume d: "distinct as" "i < length as"
  then obtain j where "first_ix (\<lambda>a. a = as ! i) as = Some j"
    using first_ix_None[of "\<lambda>a. a = as ! i" as] nth_mem by (cases "first_ix (\<lambda>a. a = as ! i) as") blast+
  with first_ix_Some[OF this] d nth_eq_iff_index_eq show ?thesis by fastforce
qed

definition position :: "string list \<Rightarrow> string \<Rightarrow> nat" where
  "position as a = the (first_ix (\<lambda>b. b = a) as)"

lemma position:
  assumes "distinct as" "a \<in> set as"
  shows "first_ix (\<lambda>b. b = a) as = Some (position as a)" "position as a < length as" "as ! position as a = a"
proof -
  from assms obtain i where i: "i < length as" "a = as ! i" by (auto simp: in_set_conv_nth)
  with first_ix_nth[OF assms(1) i(1)] have f: "first_ix (\<lambda>b. b = a) as = Some i" by simp
  show "first_ix (\<lambda>b. b = a) as = Some (position as a)" "position as a < length as" "as ! position as a = a"
    using f i by (simp_all add: position_def)
qed

lemma position_nth: "distinct as \<Longrightarrow> i < length as \<Longrightarrow> position as (as ! i) = i"
  by (simp add: position_def first_ix_nth)

section \<open>What a relay holds\<close>

text \<open>A payload as its producer sends it: the relay it goes to, the metadata and the bytes.\<close>

type_synonym 'p payload_send = "string \<times> relay_meta \<times> 'p"

definition send_key :: "'p payload_send \<Rightarrow> relay_key" where
  "send_key s = message_key (fst (snd s))"

definition valid_send :: "string list \<Rightarrow> string option \<Rightarrow> string \<Rightarrow> 'p payload_send \<Rightarrow> bool" where
  "valid_send as token t s \<longleftrightarrow> (case s of (a, m, _) \<Rightarrow>
     a \<in> set as \<and> m_protocol m = zmq_protocol \<and> m_api_key m = token \<and> m_transfer m = t \<and> t \<noteq> [] \<and> 0 \<le> m_producer m
     \<and> 0 \<le> m_payload m \<and> m_checksum m \<noteq> [] \<and> 0 \<le> m_candidates m \<and> m_root m = None)"

definition sent_message :: "string option \<Rightarrow> 'p payload_send \<Rightarrow> 'p relay_message" where
  "sent_message root s = (case s of (_, m, p) \<Rightarrow> Message data_kind (m\<lparr>m_root := root\<rparr>) p)"

definition kids :: "string list \<Rightarrow> string \<Rightarrow> string \<Rightarrow> string list" where
  "kids as root a = child_addresses as (position as a) (position as root)"

text \<open>The relay at \<open>a\<close> has taken exactly the payloads \<open>ss\<close> and sent them on.\<close>

definition relay_holds ::
  "string list \<Rightarrow> string option \<Rightarrow> string \<Rightarrow> (string \<times> 'p relay_message) list \<Rightarrow> string \<Rightarrow> 'p relay \<Rightarrow> 'p payload_send list \<Rightarrow> bool" where
  "relay_holds as token t flight a r ss \<longleftrightarrow>
     r_token r = token \<and> r_flushed r = [] \<and> r_tree r = Some (as, position as a)
     \<and> rt_checksums (transfer_of t r) = map (\<lambda>s. (send_key s, m_checksum (fst (snd s)))) ss
     \<and> applied_bodies t r = map (\<lambda>s. snd (snd s)) ss \<and> distinct (map send_key ss)
     \<and> (\<forall>s\<in>set ss. \<forall>c\<in>set (kids as (fst s) a). (c, sent_message (Some (fst s)) s) \<in> set flight)"

text \<open>A message in flight is one of the payloads on its way in the tree of its first relay.\<close>

definition in_tree :: "string list \<Rightarrow> 'p payload_send list \<Rightarrow> string \<times> 'p relay_message \<Rightarrow> bool" where
  "in_tree as sends x \<longleftrightarrow> (\<exists>s\<in>set sends. fst x \<in> set as
     \<and> (snd x = sent_message (Some (fst s)) s \<or> snd x = sent_message None s \<and> fst x = fst s))"

lemma transfer_of_put [simp]: "transfer_of t (put_transfer t x r) = x"
  by (simp add: transfer_of_def put_transfer_def update_conv)

lemma put_transfer_fields [simp]: "r_token (put_transfer t x r) = r_token r" "r_tree (put_transfer t x r) = r_tree r"
  "r_flushed (put_transfer t x r) = r_flushed r"
  by (simp_all add: put_transfer_def)

lemma fanouts_append [simp]: "fanouts (xs @ ys) = fanouts xs @ fanouts ys"
  by (induction xs rule: fanouts.induct) auto

lemma fanouts_forward [simp]: "fanouts (map (\<lambda>a. Forward m p a root) as) = []"
  by (induction as) auto

lemma forwards_sent:
  assumes "valid_send as token t (o', m, p)" and "r_token r = token"
  shows "forwards r (map (\<lambda>a. Forward (m\<lparr>m_root := q\<rparr>) p a root) as') = map (\<lambda>a. (a, sent_message (Some root) (o', m, p))) as'"
  using assms by (induction as') (auto simp: valid_send_def sent_message_def payload_meta_def)

lemma parse_sent:
  assumes "valid_send as token t s" and "r_token r = token" "r_tree r = Some (as, own)" "root = None \<or> root = Some (fst s)"
  shows "parse_data_message r (sent_message root s) = Inr ((fst (snd s))\<lparr>m_root := root\<rparr>, snd (snd s))"
  using assms by (auto simp: valid_send_def sent_message_def split: prod.splits)

lemma tasks_sent:
  assumes "distinct as" "valid_send as token t (o', m, p)" and "r_tree r = Some (as, position as a)" "a \<in> set as"
    "root = Some o' \<or> root = None \<and> a = o'"
  shows "relay_tasks r (m\<lparr>m_root := root\<rparr>) p =
    (Fanout (m\<lparr>m_root := root\<rparr>) p # map (\<lambda>c. Forward (m\<lparr>m_root := root\<rparr>) p c o') (kids as o' a), Inr ())"
proof -
  have "o' \<in> set as" using assms(2) by (simp add: valid_send_def)
  note p = position[OF assms(1) this] position[OF assms(1,4)]
  have "(case root of None \<Rightarrow> as ! position as a | Some x \<Rightarrow> x) = o'" using assms(5) p by auto
  then show ?thesis using p(1) assms(3) by (simp add: relay_tasks_def kids_def Let_def)
qed

text \<open>A message that arrives is taken when it is the payload's first, and acknowledged in any case.\<close>

lemma relay_data_holds:
  assumes as: "distinct as" "a \<in> set as" and sends: "list_all (valid_send as token t) sends" "distinct (map send_key sends)"
    and holds: "relay_holds as token t flight a r ss" "set ss \<subseteq> set sends" and x: "in_tree as sends (a, msg)"
  shows "\<exists>r' ts s. relay_data msg r = (r', ts, Inr ()) \<and> s \<in> set sends \<and> msg \<in> {sent_message (Some (fst s)) s, sent_message None s}
    \<and> forwards r' ts = (if s \<in> set ss then [] else map (\<lambda>c. (c, sent_message (Some (fst s)) s)) (kids as (fst s) a))
    \<and> relay_holds as token t (flight @ forwards r' ts) a r' (if s \<in> set ss then ss else ss @ [s])"
proof -
  from x obtain s root where s: "s \<in> set sends" "msg = sent_message root s" "root = Some (fst s) \<or> root = None \<and> a = fst s"
    unfolding in_tree_def by auto
  obtain o' m p where sp: "s = (o', m, p)" by (cases s)
  have v: "valid_send as token t s" using sends(1) s(1) by (simp add: list_all_iff)
  then have mt: "m_transfer m = t" by (simp add: valid_send_def sp)
  from holds(1) have r: "r_token r = token" "r_flushed r = []" "r_tree r = Some (as, position as a)"
    "rt_checksums (transfer_of t r) = map (\<lambda>s. (send_key s, m_checksum (fst (snd s)))) ss"
    "applied_bodies t r = map (\<lambda>s. snd (snd s)) ss" "distinct (map send_key ss)"
    and fwd: "\<forall>s\<in>set ss. \<forall>c\<in>set (kids as (fst s) a). (c, sent_message (Some (fst s)) s) \<in> set flight"
    unfolding relay_holds_def by blast+
  have parse: "parse_data_message r msg = Inr (m\<lparr>m_root := root\<rparr>, p)"
    using parse_sent[OF v r(1,3), of root] s(2,3) sp by auto
  have key: "message_key (m\<lparr>m_root := root\<rparr>) = send_key s" by (simp add: message_key_def send_key_def sp)
  have inj: "s' \<in> set ss \<Longrightarrow> send_key s' = send_key s \<Longrightarrow> s' = s" for s'
    using sends(2) holds(2) s(1) by (auto simp: distinct_map inj_on_def)
  show ?thesis
  proof (cases "s \<in> set ss")
    case True
    then have "map_of (rt_checksums (transfer_of t r)) (send_key s) = Some (m_checksum m)"
      using r(4,6) sp by (intro map_of_is_SomeI) (auto simp: comp_def image_iff)
    then have d: "relay_data msg r = (put_transfer t (transfer_of t r) r, [], Inr ())"
      by (simp add: relay_data_def parse r(2) mt key)
    have "relay_holds as token t flight a (put_transfer t (transfer_of t r) r) ss"
      using holds(1) by (simp add: relay_holds_def applied_bodies_def)
    with d True s show ?thesis by (intro exI[of _ "put_transfer t (transfer_of t r) r"] exI[of _ "[]"] exI[of _ s]) auto
  next
    case False
    then have new: "send_key s \<notin> set (map send_key ss)" using inj by auto
    then have "map_of (rt_checksums (transfer_of t r)) (send_key s) = None"
      by (auto simp: r(4) map_of_eq_None_iff)
    moreover define ts where "ts = Fanout (m\<lparr>m_root := root\<rparr>) p # map (\<lambda>c. Forward (m\<lparr>m_root := root\<rparr>) p c o') (kids as o' a)"
    moreover define r' where "r' = put_transfer t ((transfer_of t r)\<lparr>
        rt_checksums := rt_checksums (transfer_of t r) @ [(send_key s, m_checksum m)],
        rt_futures := rt_futures (transfer_of t r) @ ts\<rparr>) r"
    moreover have "relay_tasks r (m\<lparr>m_root := root\<rparr>) p = (ts, Inr ())"
      using tasks_sent[OF as(1) v[unfolded sp] r(3) as(2), of root] s(3) sp by (simp add: ts_def)
    ultimately have d: "relay_data msg r = (r', ts, Inr ())"
      by (simp add: relay_data_def parse r(2) mt key Let_def)
    have f: "forwards r' ts = map (\<lambda>c. (c, sent_message (Some (fst s)) s)) (kids as (fst s) a)"
      using forwards_sent[OF v[unfolded sp], of r'] r(1) by (simp add: ts_def r'_def sp)
    have "relay_holds as token t (flight @ forwards r' ts) a r' (ss @ [s])"
      using r fwd new unfolding relay_holds_def f
      by (auto simp: r'_def applied_bodies_def ts_def sp)
    with d f False s show ?thesis by (intro exI[of _ r'] exI[of _ ts] exI[of _ s]) auto
  qed
qed

section \<open>The network's invariant\<close>

definition net_holds ::
  "string list \<Rightarrow> string option \<Rightarrow> string \<Rightarrow> 'p payload_send list \<Rightarrow> 'p relay_net \<Rightarrow> (string \<Rightarrow> 'p payload_send list) \<Rightarrow> bool" where
  "net_holds as token t sends net taken \<longleftrightarrow>
     (\<forall>a\<in>set as. relay_holds as token t (n_flight net) a (n_relays net a) (taken a) \<and> set (taken a) \<subseteq> set sends)
     \<and> list_all (in_tree as sends) (n_flight net)
     \<and> (\<forall>s\<in>set sends. (fst s, sent_message None s) \<in> set (n_flight net))"

lemma relay_holds_mono: "relay_holds as token t flight a r ss \<Longrightarrow> relay_holds as token t (flight @ more') a r ss"
  by (auto simp: relay_holds_def)

lemma kids_in: "distinct as \<Longrightarrow> as \<noteq> [] \<Longrightarrow> set (kids as root a) \<subseteq> set as"
  by (auto simp: kids_def child_addresses_def Let_def)

lemma net_holds_deliver:
  assumes as: "distinct as" and sends: "list_all (valid_send as token t) sends" "distinct (map send_key sends)"
    and holds: "net_holds as token t sends net taken"
  shows "\<exists>taken'. net_holds as token t sends (fst (net_deliver i net)) taken' \<and> snd (net_deliver i net)"
proof (cases "i < length (n_flight net)")
  case True
  obtain a msg where x: "n_flight net ! i = (a, msg)" by (cases "n_flight net ! i")
  from holds have h: "\<And>b. b \<in> set as \<Longrightarrow> relay_holds as token t (n_flight net) b (n_relays net b) (taken b) \<and> set (taken b) \<subseteq> set sends"
    "list_all (in_tree as sends) (n_flight net)" "\<forall>s\<in>set sends. (fst s, sent_message None s) \<in> set (n_flight net)"
    unfolding net_holds_def by blast+
  have it: "in_tree as sends (a, msg)" using h(2) True x by (metis list_all_length)
  then have a: "a \<in> set as" unfolding in_tree_def by auto
  from relay_data_holds[OF as a sends _ _ it] h(1)[OF a] obtain r' ts s where
    d: "relay_data msg (n_relays net a) = (r', ts, Inr ())" "s \<in> set sends"
      "forwards r' ts = (if s \<in> set (taken a) then [] else map (\<lambda>c. (c, sent_message (Some (fst s)) s)) (kids as (fst s) a))"
      "relay_holds as token t (n_flight net @ forwards r' ts) a r' (if s \<in> set (taken a) then taken a else taken a @ [s])"
    by blast
  let ?taken = "taken(a := if s \<in> set (taken a) then taken a else taken a @ [s])"
  have fl: "list_all (in_tree as sends) (forwards r' ts)"
    using d(2) kids_in[OF as] a unfolding d(3) by (fastforce simp: list_all_iff in_tree_def)
  have "net_holds as token t sends (fst (net_deliver i net)) ?taken"
    unfolding net_holds_def
  proof (intro conjI ballI)
    fix b assume b: "b \<in> set as"
    show "relay_holds as token t (n_flight (fst (net_deliver i net))) b (n_relays (fst (net_deliver i net)) b) (?taken b)"
      using True x d h(1)[OF b] relay_holds_mono by (cases "b = a") (auto simp: net_deliver_def)
    show "set (?taken b) \<subseteq> set sends" using h(1)[OF b] d(2) by auto
  next
    show "list_all (in_tree as sends) (n_flight (fst (net_deliver i net)))"
      using True x d(1) h(2) fl by (simp add: net_deliver_def)
  next
    fix s assume "s \<in> set sends"
    then show "(fst s, sent_message None s) \<in> set (n_flight (fst (net_deliver i net)))"
      using True x d(1) h(3) by (simp add: net_deliver_def)
  qed
  moreover have "snd (net_deliver i net)" using True x d(1) by (simp add: net_deliver_def)
  ultimately show ?thesis by blast
qed (use holds in \<open>auto simp: net_deliver_def\<close>)

lemma net_holds_run:
  assumes "distinct as" and "list_all (valid_send as token t) sends" "distinct (map send_key sends)"
    and "net_holds as token t sends net taken"
  shows "\<exists>taken'. net_holds as token t sends (fst (net_run is' net)) taken' \<and> snd (net_run is' net)"
  using assms(4)
proof (induction is' arbitrary: net taken)
  case (Cons i is')
  from net_holds_deliver[OF assms(1-3) Cons.prems] obtain taken1 where
    1: "net_holds as token t sends (fst (net_deliver i net)) taken1" "snd (net_deliver i net)" by blast
  from Cons.IH[OF 1(1)] 1(2) show ?case by (auto split: prod.splits)
qed auto

text \<open>Once every message has arrived, a payload has been taken at every position below one that has it.\<close>

lemma settled_taken:
  assumes as: "distinct as" and sends: "list_all (valid_send as token t) sends" "distinct (map send_key sends)"
    and holds: "net_holds as token t sends net taken" and settled: "net_settled net"
    and s: "s \<in> set sends" and j: "j < length as"
  shows "s \<in> set (taken (as ! ((position as (fst s) + j) mod length as)))"
  using j
proof (induction j rule: less_induct)
  case (less j)
  let ?n = "length as" and ?root = "position as (fst s)"
  let ?at = "\<lambda>j. as ! ((?root + j) mod length as)"
  have n: "0 < ?n" using less.prems by linarith
  have mem: "?at i \<in> set as" for i using n by simp
  have v: "valid_send as token t s" using sends(1) s by (simp add: list_all_iff)
  then have o': "fst s \<in> set as" "m_transfer (fst (snd s)) = t" by (auto simp: valid_send_def)
  from holds have h: "\<And>b. b \<in> set as \<Longrightarrow> relay_holds as token t (n_flight net) b (n_relays net b) (taken b) \<and> set (taken b) \<subseteq> set sends"
    "\<forall>s\<in>set sends. (fst s, sent_message None s) \<in> set (n_flight net)"
    unfolding net_holds_def by blast+
  obtain root where "(?at j, sent_message root s) \<in> set (n_flight net)"
  proof (cases "j = 0")
    case True
    with position[OF as o'(1)] have "?at j = fst s" by simp
    with h(2) s that[of None] show ?thesis by auto
  next
    case False
    let ?q = "(j - 1) div 2"
    have "?q < j" "?q < ?n" using False less.prems by auto
    from less.IH[OF this] have taken: "s \<in> set (taken (?at ?q))" .
    have "position as (?at ?q) = (?root + ?q) mod ?n" using n by (intro position_nth[OF as]) simp
    then have "?at j \<in> set (kids as (fst s) (?at ?q))"
      using child_of_parent[of j as ?root] False less.prems by (simp add: kids_def)
    moreover have "relay_holds as token t (n_flight net) (?at ?q) (n_relays net (?at ?q)) (taken (?at ?q))"
      using h(1)[OF mem] by blast
    ultimately have "(?at j, sent_message (Some (fst s)) s) \<in> set (n_flight net)"
      using taken unfolding relay_holds_def by blast
    then show ?thesis by (rule that)
  qed
  with settled have "arrived (n_relays net) (?at j, sent_message root s)"
    by (simp add: net_settled_def list_all_iff)
  then have "send_key s \<in> fst ` set (rt_checksums (transfer_of t (n_relays net (?at j))))"
    using o'(2) by (auto simp: sent_message_def send_key_def message_key_def split: prod.splits)
  moreover have "relay_holds as token t (n_flight net) (?at j) (n_relays net (?at j)) (taken (?at j))"
    "set (taken (?at j)) \<subseteq> set sends" using h(1)[OF mem] by blast+
  ultimately obtain s' where "s' \<in> set (taken (?at j))" "send_key s' = send_key s" "s' \<in> set sends"
    unfolding relay_holds_def by (auto simp: image_iff)
  with sends(2) s show ?case by (auto simp: distinct_map inj_on_def)
qed

text \<open>The network before a transfer: every relay knows the tree, and the producers have sent their payloads.\<close>

definition net_start :: "string list \<Rightarrow> string option \<Rightarrow> 'p payload_send list \<Rightarrow> 'p relay_net" where
  "net_start as token sends =
     \<lparr>n_relays = (\<lambda>a. fst (configure_tree as a (new_relay token))),
      n_flight = map (\<lambda>s. (fst s, sent_message None s)) sends\<rparr>"

lemma net_start_holds:
  assumes "distinct as" and "list_all (valid_send as token t) sends"
  shows "net_holds as token t sends (net_start as token sends) (\<lambda>_. [])"
proof -
  have id: "rev (remdups (rev as)) = as" using assms(1) by (simp add: distinct_remdups_id)
  have "relay_holds as token t flight a (fst (configure_tree as a (new_relay token))) []" if "a \<in> set as" for a and flight :: "(string \<times> 'a relay_message) list"
    using position(1)[OF assms(1) that]
    by (simp add: id Let_def configure_tree_def new_relay_def relay_holds_def transfer_of_def no_transfer_def applied_bodies_def)
  then show ?thesis using assms(2)
    by (auto simp: net_holds_def net_start_def list_all_iff in_tree_def valid_send_def)
qed

text \<open>
  C29: The relay tree reaches every receiver exactly once.  Whatever relays the producers chose for their
  payloads, however the messages were repeated and in whatever order they were delivered, no relay refuses
  one; and when every message has been delivered, every relay has handed every payload to its receiver, once.
\<close>

theorem relay_reaches_all:
  assumes "distinct as" and "list_all (valid_send as token t) sends" "distinct (map send_key sends)"
    and "net_run is' (net_start as token sends) = (net, b)"
  shows "b \<and> (net_settled net \<longrightarrow> (\<forall>a\<in>set as. mset (applied_bodies t (n_relays net a)) = mset (map (\<lambda>s. snd (snd s)) sends)))"
proof -
  from net_holds_run[OF assms(1-3) net_start_holds[OF assms(1,2)], of is'] assms(4) obtain taken where
    h: "net_holds as token t sends net taken" and b: b by auto
  have "mset (applied_bodies t (n_relays net a)) = mset (map (\<lambda>s. snd (snd s)) sends)" if settled: "net_settled net" and a: "a \<in> set as" for a
  proof -
    from h a have r: "applied_bodies t (n_relays net a) = map (\<lambda>s. snd (snd s)) (taken a)" "distinct (map send_key (taken a))"
      "set (taken a) \<subseteq> set sends" unfolding net_holds_def relay_holds_def by blast+
    have "s \<in> set (taken a)" if "s \<in> set sends" for s
    proof -
      let ?r = "position as (fst s)"
      have "(?r + node_index (length as) ?r (position as a)) mod length as = position as a"
        using position(2)[OF assms(1) a] by (rule node_index_addr)
      with settled_taken[OF assms(1-3) h settled that node_index_less, of ?r "position as a"] position[OF assms(1) a]
      show ?thesis by fastforce
    qed
    with r(3) have "set (taken a) = set sends" by blast
    moreover have "distinct (taken a)" "distinct sends" using r(2) assms(3) by (simp_all add: distinct_map)
    ultimately have "mset (taken a) = mset sends" by (simp add: set_eq_iff_mset_eq_distinct)
    then show ?thesis by (simp add: r(1))
  qed
  with b show ?thesis by blast
qed

text \<open>Four relays; the second producer starts at the third relay, and its message is repeated.\<close>

definition demo_sends :: "nat payload_send list" where
  "demo_sends =
     [(''r0'', payload_meta None ''t'' 0 0 ''x'' 1 None, 10),
      (''r2'', payload_meta None ''t'' 1 0 ''y'' 0 None, 20)]"

definition demo_net :: "nat relay_net" where
  "demo_net = fst (net_run [1, 0, 0, 1, 2, 3, 4, 5, 6, 7, 8, 9] (net_start [''r0'', ''r1'', ''r2'', ''r3''] None demo_sends))"

theorem relay_reaches_all_witness:
  "mset (applied_bodies ''t'' (n_relays demo_net ''r3'')) = {#10, 20#}"
proof -
  let ?as = "[''r0'', ''r1'', ''r2'', ''r3'']"
  have 1: "distinct ?as" "list_all (valid_send ?as None ''t'') demo_sends" "distinct (map send_key demo_sends)" by code_simp+
  obtain net b where run: "net_run [1, 0, 0, 1, 2, 3, 4, 5, 6, 7, 8, 9] (net_start ?as None demo_sends) = (net, b)" by (metis surj_pair)
  then have net: "net = demo_net" by (simp add: demo_net_def)
  have "net_settled demo_net" by code_simp
  with relay_reaches_all[OF 1 run] net have "mset (applied_bodies ''t'' (n_relays demo_net ''r3'')) = mset (map (\<lambda>s. snd (snd s)) demo_sends)"
    by simp
  then show ?thesis by (simp add: demo_sends_def)
qed

section \<open>The flush of a relay\<close>

text \<open>
  A relay's flush is repeatable: once a transfer has been decided, every further flush of it, whatever
  number of payloads it expects and whatever its tasks would return, has the same answer and changes nothing,
  and a payload of the transfer that still arrives is refused without any effect.
\<close>

theorem relay_flush_settles:
  assumes "relay_flush run t expected r = (r1, res)" and "res \<noteq> Inl TimeoutError"
  shows "relay_flush run' t expected' r1 = (r1, res)
    \<and> (case relay_data (Message data_kind (payload_meta key t producer payload checksum candidates root) body) r1 of
         (r2, ts, res') \<Rightarrow> r2 = r1 \<and> ts = [] \<and> \<not> ok res')"
proof -
  from assms have f: "map_of (r_flushed r1) t = Some res"
    by (auto simp: relay_flush_def Let_def map_add_def split: option.splits if_splits)
  have "relay_data (Message data_kind (payload_meta key t producer payload checksum candidates root) body) r1 = (r2, ts, res')
    \<Longrightarrow> r2 = r1 \<and> ts = [] \<and> \<not> ok res'" for r2 ts res'
    using f by (auto simp: relay_data_def payload_meta_def bindR_Inr split: sum.splits prod.splits if_splits)
  then show ?thesis using f by (auto simp: relay_flush_def split: prod.split)
qed

theorem relay_flush_settles_witness:
  "snd (relay_flush (\<lambda>_. Inl RuntimeError) ''t'' 9 (fst (relay_flush (\<lambda>_. Inr ()) ''t'' 2 (n_relays demo_net ''r1'')))) = Inr 2"
proof -
  let ?f = "relay_flush (\<lambda>_. Inr ()) ''t'' 2 (n_relays demo_net ''r1'')"
  have "snd ?f = Inr 2" by code_simp
  then have "?f = (fst ?f, Inr 2)" by (metis prod.collapse)
  from relay_flush_settles[OF this, of "\<lambda>_. Inl RuntimeError" 9] show ?thesis by simp
qed

end
