(* ===== verification/SparseCodec.thy ===== *)
theory SparseCodec
  imports Prelude "HOL-Library.Word"
begin

text \<open>
  The wire format of sparse weight deltas (\<open>nemo_rl/utils/weight_transfer_sparse_codec.py\<close>).  A tensor is the
  list of its elements' bit patterns, zero-extended to 64 bits; an integer view keeps the patterns, and its
  element type is known by its size in bytes.  A payload packs the changed locations of many tensors into
  one byte string (as runs, or as deltas of 2, 4 or 8 bytes) and their values into one array per element
  size; payloads are merged without decoding.  Bytes are little-endian on both sides.
\<close>

unbundle bit_operations_syntax

type_synonym byte = "8 word"
type_synonym bits = "64 word"

section \<open>Types\<close>

text \<open>A PyTorch element type: its name without \<open>torch.\<close>, its size and whether it is a floating-point type.\<close>

record dtype =
  dt_name :: string
  dt_size :: nat
  dt_float :: bool

record tensor =
  t_dtype :: dtype
  t_shape :: "nat list"
  t_bits :: "bits list"

text \<open>An array of integers of a size in bytes.\<close>

type_synonym int_array = "nat \<times> bits list"

datatype sparse_op = Xor | Overwrite

definition integer_dtype_for_element_size :: "nat \<Rightarrow> nat res" where
  "integer_dtype_for_element_size n = (if n \<in> {1, 2, 4, 8} then Inr n else Inl ValueError)"

text \<open>\<open>torch\<close> looks an element type up by its name.\<close>

definition dtype_from_name :: "(string \<Rightarrow> dtype option) \<Rightarrow> string \<Rightarrow> dtype res" where
  "dtype_from_name torch name =
     (case torch name of
        None \<Rightarrow> Inl ValueError
      | Some d \<Rightarrow> bindR (integer_dtype_for_element_size (dt_size d)) (\<lambda>_. Inr d))"

definition sparse_operation :: "string \<Rightarrow> sparse_op res" where
  "sparse_operation v = (if v = ''xor'' then Inr Xor else if v = ''overwrite'' then Inr Overwrite else Inl ValueError)"

definition integer_view :: "tensor \<Rightarrow> int_array res" where
  "integer_view t = bindR (integer_dtype_for_element_size (dt_size (t_dtype t))) (\<lambda>n. Inr (n, t_bits t))"

text \<open>The metadata of a tensor in a payload; \<open>range_start\<close> is the argument of \<open>Run\<close>.\<close>

datatype index_encoding = Run int | Deltas

record sparse_item =
  si_name :: string
  si_shape :: "nat list"
  si_dtype :: string
  si_op :: sparse_op
  si_encoding :: index_encoding
  index_start :: nat
  index_end :: nat
  value_group :: nat
  value_start :: nat
  value_end :: nat
  si_samples :: "nat option"

record payload =
  pl_indices :: "byte list"
  pl_values :: "int_array list"
  pl_items :: "sparse_item list"

section \<open>Building a payload\<close>

record builder =
  b_locations :: "byte list list"
  value_parts :: "int_array list list"
  group_by_dtype :: "(nat \<times> nat) list"
  value_offsets :: "nat list"
  b_metadata :: "sparse_item list"
  index_offset :: nat

definition new_builder :: builder where
  "new_builder = \<lparr>b_locations = [], value_parts = [], group_by_dtype = [], value_offsets = [], b_metadata = [], index_offset = 0\<rparr>"

definition add_locations :: "byte list \<Rightarrow> builder \<Rightarrow> (nat \<times> nat) \<times> builder" where
  "add_locations locs b =
     (let b' = (if locs = [] then b
                else b\<lparr>b_locations := b_locations b @ [locs], index_offset := index_offset b + length locs\<rparr>)
      in ((index_offset b, index_offset b'), b'))"

definition value_group_of :: "nat \<Rightarrow> builder \<Rightarrow> nat \<times> builder" where
  "value_group_of n b =
     (case map_of (group_by_dtype b) n of
        Some g \<Rightarrow> (g, b)
      | None \<Rightarrow> (length (value_parts b), b\<lparr>group_by_dtype := group_by_dtype b @ [(n, length (value_parts b))],
                    value_parts := value_parts b @ [[]], value_offsets := value_offsets b @ [0]\<rparr>))"

definition add_values :: "int_array \<Rightarrow> builder \<Rightarrow> (nat \<times> nat \<times> nat) \<times> builder" where
  "add_values v b =
     (case value_group_of (fst v) b of
        (g, b1) \<Rightarrow>
          let start = value_offsets b1 ! g;
              b2 = b1\<lparr>value_parts := (value_parts b1)[g := value_parts b1 ! g @ [v]],
                      value_offsets := (value_offsets b1)[g := start + length (snd v)]\<rparr>
          in ((g, start, value_offsets b2 ! g), b2))"

definition add_item :: "sparse_item \<Rightarrow> builder \<Rightarrow> builder" where
  "add_item it b = b\<lparr>b_metadata := b_metadata b @ [it]\<rparr>"

text \<open>\<open>torch.cat\<close> of arrays of one element type\<close>

definition cat_values :: "int_array list \<Rightarrow> int_array" where
  "cat_values parts = (fst (parts ! 0), concat (map snd parts))"

definition finish :: "builder \<Rightarrow> payload" where
  "finish b = \<lparr>pl_indices = concat (b_locations b), pl_values = map cat_values (value_parts b), pl_items = b_metadata b\<rparr>"

section \<open>Locations\<close>

text \<open>The \<open>n\<close> low bytes of an integer, and the integer of some bytes.\<close>

fun le_bytes :: "nat \<Rightarrow> int \<Rightarrow> byte list" where
  "le_bytes 0 x = []"
| "le_bytes (Suc n) x = word_of_int x # le_bytes n (x div 256)"

fun le_value :: "byte list \<Rightarrow> int" where
  "le_value [] = 0"
| "le_value (b # bs) = uint b + 256 * le_value bs"

text \<open>\<open>raw.view(dtype)\<close> for an unsigned type of \<open>n\<close> bytes\<close>

definition le_view :: "nat \<Rightarrow> byte list \<Rightarrow> int list" where
  "le_view n raw = map (\<lambda>k. le_value (Prelude.slice (k * n) (k * n + n) raw)) [0..<length raw div n]"

text \<open>\<open>np.diff(locations, prepend=-1) - 1\<close>\<close>

fun location_deltas :: "int \<Rightarrow> int list \<Rightarrow> int list" where
  "location_deltas prev [] = []"
| "location_deltas prev (x # xs) = (x - prev - 1) # location_deltas x xs"

definition delta_size :: "int list \<Rightarrow> nat" where
  "delta_size ds = (if Max (set ds) \<le> 0xFFFF then 2 else if Max (set ds) \<le> 0xFFFFFFFF then 4 else 8)"

definition encode_explicit_locations :: "int list \<Rightarrow> byte list" where
  "encode_explicit_locations locs =
     (let ds = location_deltas (-1) locs in concat (map (le_bytes (delta_size ds)) ds))"

text \<open>The value an \<open>n\<close>-bit signed integer holds for \<open>x\<close>\<close>

definition wrap_signed :: "nat \<Rightarrow> int \<Rightarrow> int" where
  "wrap_signed n x = (x + 2 ^ (n - 1)) mod 2 ^ n - 2 ^ (n - 1)"

fun cumsum :: "int \<Rightarrow> int list \<Rightarrow> int list" where
  "cumsum a [] = []"
| "cumsum a (x # xs) = (a + x) # cumsum (a + x) xs"

text \<open>
  \<open>n\<close> is the width of the location type, 32 or 64.  The additions wrap at that width; the running sum is
  reduced at the end, which is the same.
\<close>

definition decode_deltas :: "nat \<Rightarrow> int list \<Rightarrow> int list" where
  "decode_deltas n ds =
     map (\<lambda>x. wrap_signed n (wrap_signed n x - 1)) (cumsum 0 (map (\<lambda>d. wrap_signed n (wrap_signed n d + 1)) ds))"

definition sparse_locations_for_item :: "sparse_item \<Rightarrow> byte list \<Rightarrow> nat \<Rightarrow> int list res" where
  "sparse_locations_for_item it indices n =
     (if n \<notin> {32, 64} then Inl ValueError
      else let count = value_end it - value_start it in
        case si_encoding it of
          Run s \<Rightarrow> Inr (map (\<lambda>k. s + int k) [0..<count])
        | Deltas \<Rightarrow>
            (let raw = Prelude.slice (index_start it) (index_end it) indices in
             if count = 0 then Inl ZeroDivisionError
             else if length raw div count \<notin> {2, 4, 8} then Inl KeyError
             else if length raw mod (length raw div count) \<noteq> 0 then Inl ValueError
             else Inr (decode_deltas n (le_view (length raw div count) raw))))"

section \<open>Encoding and merging\<close>

record sparse_info =
  in_name :: string
  in_tensor :: tensor
  in_locations :: "int list"
  in_values :: int_array
  in_op :: sparse_op

definition encode_info :: "sparse_info \<Rightarrow> builder \<Rightarrow> builder res" where
  "encode_info i b =
     (let locs = in_locations i; count = length (snd (in_values i)) in
      if locs = [] then Inl IndexError
      else
        let ((e, s, t), b1) =
              (if count = 1 \<or> last locs - locs ! 0 + 1 = int count
               then ((Run (locs ! 0), index_offset b, index_offset b), b)
               else case add_locations (encode_explicit_locations locs) b of ((s, t), b') \<Rightarrow> ((Deltas, s, t), b'));
            ((g, vs, ve), b2) = add_values (in_values i) b1
        in Inr (add_item \<lparr>si_name = in_name i, si_shape = t_shape (in_tensor i), si_dtype = dt_name (t_dtype (in_tensor i)),
                  si_op = in_op i, si_encoding = e, index_start = s, index_end = t, value_group = g, value_start = vs,
                  value_end = ve, si_samples = None\<rparr> b2))"

fun encode_infos :: "sparse_info list \<Rightarrow> builder \<Rightarrow> builder res" where
  "encode_infos [] b = Inr b"
| "encode_infos (i # is) b = bindR (encode_info i b) (encode_infos is)"

definition encode_sparse_infos :: "sparse_info list \<Rightarrow> payload res" where
  "encode_sparse_infos is = bindR (encode_infos is new_builder) (\<lambda>b. Inr (finish b))"

text \<open>The group and the start of each value array of a payload in the merged one\<close>

fun add_groups :: "int_array list \<Rightarrow> builder \<Rightarrow> (nat \<times> nat) list \<times> builder" where
  "add_groups [] b = ([], b)"
| "add_groups (v # vs) b =
     (case add_values v b of ((g, s, _), b1) \<Rightarrow> case add_groups vs b1 of (m, b2) \<Rightarrow> ((g, s) # m, b2))"

definition merge_item :: "(nat \<times> nat) list \<Rightarrow> nat \<Rightarrow> sparse_item \<Rightarrow> sparse_item res" where
  "merge_item m off it =
     (if value_group it < length m
      then Inr (it\<lparr>index_start := index_start it + off, index_end := index_end it + off,
                   value_group := fst (m ! value_group it),
                   value_start := value_start it + snd (m ! value_group it),
                   value_end := value_end it + snd (m ! value_group it)\<rparr>)
      else Inl KeyError)"

definition merge_payload :: "payload \<Rightarrow> builder \<Rightarrow> builder res" where
  "merge_payload p b =
     (case add_groups (pl_values p) b of
        (m, b1) \<Rightarrow> case add_locations (pl_indices p) b1 of
          ((off, _), b2) \<Rightarrow> bindR (mapR (merge_item m off) (pl_items p)) (\<lambda>its. Inr (fold add_item its b2)))"

fun merge_payloads :: "payload list \<Rightarrow> builder \<Rightarrow> builder res" where
  "merge_payloads [] b = Inr b"
| "merge_payloads (p # ps) b = bindR (merge_payload p b) (merge_payloads ps)"

definition merge_sparse_payloads :: "payload list \<Rightarrow> payload res" where
  "merge_sparse_payloads ps = bindR (merge_payloads ps new_builder) (\<lambda>b. Inr (finish b))"

section \<open>Bytes\<close>

lemma length_le_bytes [simp]: "length (le_bytes n x) = n"
  by (induction n arbitrary: x) auto

lemma le_value_le_bytes: "le_value (le_bytes n x) = x mod 256 ^ n"
proof (induction n arbitrary: x)
  case (Suc n)
  have "uint (word_of_int x :: byte) = x mod 256" by (simp add: uint_word_of_int)
  then have "le_value (le_bytes (Suc n) x) = x mod 256 + 256 * (x div 256 mod 256 ^ n)"
    using Suc by simp
  also have "\<dots> = x mod (256 * 256 ^ n)" by (simp add: zmod_zmult2_eq)
  finally show ?case by simp
qed simp

lemma slice_concat_fixed:
  assumes "list_all (\<lambda>xs. length xs = n) xss" and "k < length xss"
  shows "Prelude.slice (k * n) (k * n + n) (concat xss) = xss ! k"
  using assms
proof (induction xss arbitrary: k)
  case (Cons xs xss)
  then show ?case by (cases k) (auto simp: Prelude.slice_def)
qed simp

lemma length_concat_fixed: "list_all (\<lambda>xs. length xs = n) xss \<Longrightarrow> length (concat xss) = n * length xss"
  by (induction xss) auto

lemma le_view_bytes:
  assumes "0 < n"
  shows "le_view n (concat (map (le_bytes n) xs)) = map (\<lambda>x. x mod 256 ^ n) xs"
proof -
  have all: "list_all (\<lambda>bs. length bs = n) (map (le_bytes n) xs)" by (simp add: list_all_iff)
  have len: "length (concat (map (le_bytes n) xs)) div n = length xs"
    using length_concat_fixed[OF all] assms by simp
  show ?thesis
    unfolding le_view_def len
    by (rule nth_equalityI) (simp_all add: slice_concat_fixed[OF all] le_value_le_bytes)
qed

section \<open>Locations survive the wire\<close>

lemma length_location_deltas [simp]: "length (location_deltas p xs) = length xs"
  by (induction xs arbitrary: p) auto

text \<open>The locations of a delta: ascending, and small enough for the location type.\<close>

definition ascending :: "nat \<Rightarrow> int list \<Rightarrow> bool" where
  "ascending n xs \<longleftrightarrow> sorted_wrt (<) xs \<and> list_all (\<lambda>x. 0 \<le> x \<and> x < 2 ^ (n - 1)) xs"

lemma wrap_signed_id: "0 < n \<Longrightarrow> - (2 ^ (n - 1)) \<le> x \<Longrightarrow> x < 2 ^ (n - 1) \<Longrightarrow> wrap_signed n x = x"
proof -
  assume a: "0 < n" "- (2 ^ (n - 1)) \<le> x" "x < 2 ^ (n - 1)"
  have "(2 :: int) ^ n = 2 * 2 ^ (n - 1)" using a(1) by (metis power_eq_if not_gr_zero)
  with a have "(x + 2 ^ (n - 1)) mod 2 ^ n = x + 2 ^ (n - 1)" by (intro mod_pos_pos_trivial) auto
  then show ?thesis by (simp add: wrap_signed_def)
qed

lemma deltas_small:
  assumes "sorted_wrt (<) (p # xs)" and "list_all (\<lambda>x. x < b) xs" and "-1 \<le> p"
  shows "list_all (\<lambda>d. 0 \<le> d \<and> d < b) (location_deltas p xs)"
  using assms by (induction xs arbitrary: p) fastforce+

lemma cumsum_deltas: "cumsum (p + 1) (map (\<lambda>d. d + 1) (location_deltas p xs)) = map (\<lambda>x. x + 1) xs"
  by (induction xs arbitrary: p) (auto simp: add.commute diff_add_eq)

lemma wrap_signed_mod: "wrap_signed n x mod 2 ^ n = x mod 2 ^ n"
  by (simp add: wrap_signed_def mod_diff_left_eq)

lemma wrap_signed_cong: "x mod 2 ^ n = y mod 2 ^ n \<Longrightarrow> wrap_signed n x = wrap_signed n y"
  unfolding wrap_signed_def by (metis mod_add_left_eq)

lemma cumsum_mod:
  assumes "list_all2 (\<lambda>x y. x mod m = y mod m) xs ys" and "a mod m = b mod m"
  shows "list_all2 (\<lambda>x y. x mod m = y mod m) (cumsum a xs) (cumsum b ys)"
  using assms by (induction xs ys arbitrary: a b) (auto intro: mod_add_cong)

lemma decode_deltas_inverse:
  assumes "ascending n locs" and "0 < n"
  shows "decode_deltas n (location_deltas (-1) locs) = locs"
proof -
  let ?ds = "location_deltas (-1) locs" and ?w = "wrap_signed n"
  have step: "?w (?w d + 1) mod 2 ^ n = (d + 1) mod 2 ^ n" for d
    by (metis mod_add_left_eq wrap_signed_mod)
  have "list_all2 (\<lambda>x y. x mod 2 ^ n = y mod 2 ^ n) (map (\<lambda>d. ?w (?w d + 1)) ?ds) (map (\<lambda>d. d + 1) ?ds)"
    by (simp add: list_all2_map1 list_all2_map2 list.rel_refl step)
  from cumsum_mod[OF this refl, of 0] have
    "list_all2 (\<lambda>x y. x mod 2 ^ n = y mod 2 ^ n) (cumsum 0 (map (\<lambda>d. ?w (?w d + 1)) ?ds)) (map (\<lambda>x. x + 1) locs)"
    using cumsum_deltas[of "-1" locs] by simp
  then have "list_all2 (\<lambda>x y. ?w (?w x - 1) = ?w y) (cumsum 0 (map (\<lambda>d. ?w (?w d + 1)) ?ds)) locs"
    unfolding list_all2_map2
  proof (rule list_all2_mono)
    fix x y assume "x mod 2 ^ n = (y + 1) mod (2 ^ n :: int)"
    then have "(?w x - 1) mod 2 ^ n = y mod 2 ^ n"
      by (metis add_diff_cancel_right' mod_diff_left_eq wrap_signed_mod)
    then show "?w (?w x - 1) = ?w y" by (rule wrap_signed_cong)
  qed
  then have "map (\<lambda>x. ?w (?w x - 1)) (cumsum 0 (map (\<lambda>d. ?w (?w d + 1)) ?ds)) = map ?w locs"
    by (simp add: list_all2_conv_all_nth list_eq_iff_nth_eq)
  also have "map ?w locs = locs"
    using assms by (intro map_idI wrap_signed_id) (auto simp: ascending_def list_all_iff intro: order_trans[of _ 0])
  finally show ?thesis by (simp add: decode_deltas_def)
qed

lemma explicit_roundtrip:
  assumes asc: "ascending n locs" and ne: "locs \<noteq> []" and n: "0 < n" "n \<le> 64"
  defines "w \<equiv> delta_size (location_deltas (-1) locs)"
  shows "length (encode_explicit_locations locs) = w * length locs" "w \<in> {2, 4, 8}"
    "decode_deltas n (le_view w (encode_explicit_locations locs)) = locs"
proof -
  let ?ds = "location_deltas (-1) locs"
  show w: "w \<in> {2, 4, 8}" by (simp add: w_def delta_size_def)
  have enc: "encode_explicit_locations locs = concat (map (le_bytes w) ?ds)"
    by (simp add: encode_explicit_locations_def w_def Let_def)
  show "length (encode_explicit_locations locs) = w * length locs"
    unfolding enc by (subst length_concat_fixed[of w]) (simp_all add: list_all_iff)
  have small: "list_all (\<lambda>d. 0 \<le> d \<and> d < 2 ^ (n - 1)) ?ds"
    using asc by (intro deltas_small) (auto simp: ascending_def list_all_iff)
  have "d < 256 ^ w" if "d \<in> set ?ds" for d
  proof -
    have "d \<le> Max (set ?ds)" using that by simp
    moreover have "(2 :: int) ^ (n - 1) \<le> 2 ^ 63" using n by (intro power_increasing) auto
    moreover have "d < 2 ^ (n - 1)" using small that by (simp add: list_all_iff)
    ultimately show ?thesis
      unfolding w_def delta_size_def by (simp only: split: if_split) (simp; linarith)
  qed
  then have "map (\<lambda>x. x mod 256 ^ w) ?ds = ?ds"
    using small by (intro map_idI mod_pos_pos_trivial) (auto simp: list_all_iff)
  then have "le_view w (encode_explicit_locations locs) = ?ds"
    unfolding enc using w by (subst le_view_bytes) auto
  then show "decode_deltas n (le_view w (encode_explicit_locations locs)) = locs"
    using decode_deltas_inverse[OF asc n(1)] by simp
qed

lemma ascending_gap:
  "sorted_wrt (<) (x # xs) \<Longrightarrow> x + int (length xs) \<le> last (x # xs :: int list)"
  by (induction xs arbitrary: x) fastforce+

lemma run_roundtrip:
  assumes "sorted_wrt (<) locs" and "locs \<noteq> []" and "length locs = 1 \<or> last locs - locs ! 0 + 1 = int (length locs)"
  shows "map (\<lambda>k. locs ! 0 + int k) [0..<length locs] = locs"
  using assms
proof (induction locs)
  case (Cons x xs)
  show ?case
  proof (cases xs)
    case (Cons y ys)
    then have "x < y" and "sorted_wrt (<) (y # ys)" using Cons.prems(1) by auto
    moreover have "last xs - x + 1 = int (length (x # xs))" using Cons.prems(3) Cons by simp
    moreover have "y + int (length ys) \<le> last (y # ys)" by (rule ascending_gap[OF calculation(2)])
    ultimately have y: "y = x + 1" and "last xs - xs ! 0 + 1 = int (length xs)"
      using Cons by auto
    with Cons.IH Cons.prems(1) Cons have "map (\<lambda>k. y + int k) [0..<length xs] = xs" by auto
    then have "map (\<lambda>k. x + int k) (map Suc [0..<length xs]) = xs"
      by (simp add: y comp_def add.commute add.left_commute)
    then show ?thesis by (simp add: map_Suc_upt upt_conv_Cons del: upt_Suc)
  qed simp
qed simp

section \<open>Reading a payload\<close>

text \<open>What the receiver reads for one item.\<close>

record delta =
  dl_name :: string
  dl_shape :: "nat list"
  dl_dtype :: string
  dl_op :: sparse_op
  dl_samples :: "nat option"
  dl_run :: "int option"
  dl_locations :: "int list"
  dl_values :: int_array

definition location_width :: "nat list \<Rightarrow> nat" where
  "location_width shape = (if int (prod_list shape) \<le> 2147483647 then 32 else 64)"

definition receive_item :: "payload \<Rightarrow> sparse_item \<Rightarrow> delta res" where
  "receive_item p it =
     bindR (sparse_locations_for_item it (pl_indices p) (location_width (si_shape it))) (\<lambda>locs.
       if value_group it < length (pl_values p)
       then Inr \<lparr>dl_name = si_name it, dl_shape = si_shape it, dl_dtype = si_dtype it, dl_op = si_op it,
              dl_samples = si_samples it, dl_run = (case si_encoding it of Run s \<Rightarrow> Some s | Deltas \<Rightarrow> None),
              dl_locations = locs,
              dl_values = (fst (pl_values p ! value_group it),
                Prelude.slice (value_start it) (value_end it) (snd (pl_values p ! value_group it)))\<rparr>
       else Inl IndexError)"

definition received :: "payload \<Rightarrow> delta list res" where
  "received p = mapR (receive_item p) (pl_items p)"

text \<open>An item of a payload stays within the payload's arrays.\<close>

definition in_bounds :: "payload \<Rightarrow> sparse_item \<Rightarrow> bool" where
  "in_bounds p it \<longleftrightarrow> index_start it \<le> index_end it \<and> index_end it \<le> length (pl_indices p)
     \<and> value_group it < length (pl_values p) \<and> value_start it \<le> value_end it
     \<and> value_end it \<le> length (snd (pl_values p ! value_group it))"

definition payload_wf :: "payload \<Rightarrow> bool" where
  "payload_wf p \<longleftrightarrow> list_all (in_bounds p) (pl_items p)"

text \<open>\<open>p'\<close> has the arrays of \<open>p\<close> as prefixes.\<close>

definition grows :: "payload \<Rightarrow> payload \<Rightarrow> bool" where
  "grows p p' \<longleftrightarrow> (\<exists>x. pl_indices p' = pl_indices p @ x) \<and> length (pl_values p) \<le> length (pl_values p')
     \<and> (\<forall>g < length (pl_values p). \<exists>y. pl_values p' ! g = (fst (pl_values p ! g), snd (pl_values p ! g) @ y))"

lemma grows_refl: "grows p p"
  unfolding grows_def by (metis append_Nil2 order_refl prod.collapse)

lemma grows_trans:
  assumes "grows p q" "grows q r"
  shows "grows p r"
proof -
  obtain x y where x: "pl_indices q = pl_indices p @ x" and y: "pl_indices r = pl_indices q @ y"
    using assms by (auto simp: grows_def)
  have "\<exists>z. pl_values r ! g = (fst (pl_values p ! g), snd (pl_values p ! g) @ z)" if g: "g < length (pl_values p)" for g
  proof -
    from assms(1) g obtain a where "pl_values q ! g = (fst (pl_values p ! g), snd (pl_values p ! g) @ a)" "g < length (pl_values q)"
      unfolding grows_def by (meson less_le_trans)
    moreover from assms(2) this(2) obtain b where "pl_values r ! g = (fst (pl_values q ! g), snd (pl_values q ! g) @ b)"
      unfolding grows_def by blast
    ultimately show ?thesis by simp
  qed
  with x y assms show ?thesis by (auto simp: grows_def)
qed

lemma slice_append [simp]: "b \<le> length xs \<Longrightarrow> Prelude.slice a b (xs @ ys) = Prelude.slice a b xs"
  by (cases "a \<le> b") (simp_all add: Prelude.slice_def)

lemma slice_all [simp]: "Prelude.slice (length xs) (length xs + length ys) (xs @ ys) = ys"
  by (simp add: Prelude.slice_def)

lemma grows_keeps:
  assumes "grows p p'" and "in_bounds p it"
  shows "in_bounds p' it" "receive_item p' it = receive_item p it"
proof -
  from assms obtain x y where x: "pl_indices p' = pl_indices p @ x"
    and y: "pl_values p' ! value_group it = (fst (pl_values p ! value_group it), snd (pl_values p ! value_group it) @ y)"
    and len: "length (pl_values p) \<le> length (pl_values p')"
    unfolding grows_def in_bounds_def by blast
  from assms(2) x y len show "in_bounds p' it" by (auto simp: in_bounds_def)
  have "sparse_locations_for_item it (pl_indices p') n = sparse_locations_for_item it (pl_indices p) n" for n
    using assms(2) by (simp add: sparse_locations_for_item_def x in_bounds_def Let_def split: index_encoding.split)
  with assms(2) y len show "receive_item p' it = receive_item p it"
    by (simp add: receive_item_def in_bounds_def)
qed


section \<open>The builder\<close>

definition builder_ok :: "builder \<Rightarrow> bool" where
  "builder_ok b \<longleftrightarrow> length (value_offsets b) = length (value_parts b)
     \<and> map snd (group_by_dtype b) = [0..<length (value_parts b)]
     \<and> index_offset b = length (concat (b_locations b))
     \<and> (\<forall>g < length (value_parts b). value_parts b ! g \<noteq> []
          \<and> list_all (\<lambda>v. fst v = fst (group_by_dtype b ! g)) (value_parts b ! g)
          \<and> value_offsets b ! g = length (concat (map snd (value_parts b ! g))))"

lemma builder_ok_new: "builder_ok new_builder"
  by (simp add: builder_ok_def new_builder_def)

lemma group_of_dtype:
  assumes "builder_ok b" and "map_of (group_by_dtype b) n = Some g"
  shows "g < length (value_parts b)" "fst (group_by_dtype b ! g) = n"
proof -
  have len: "length (group_by_dtype b) = length (value_parts b)" and snds: "map snd (group_by_dtype b) = [0..<length (value_parts b)]"
    using assms(1) by (auto simp: builder_ok_def dest: arg_cong[of _ _ length])
  from assms(2) obtain k where k: "k < length (group_by_dtype b)" "group_by_dtype b ! k = (n, g)"
    by (metis in_set_conv_nth map_of_SomeD)
  then have "k = g" using arg_cong[OF snds, of "\<lambda>xs. xs ! k"] len by simp
  with k len show "g < length (value_parts b)" "fst (group_by_dtype b ! g) = n" by auto
qed

lemma cat_values_append:
  "parts \<noteq> [] \<Longrightarrow> cat_values (parts @ [v]) = (fst (cat_values parts), snd (cat_values parts) @ snd v)"
  by (simp add: cat_values_def nth_append)

lemma add_values_ok:
  assumes ok: "builder_ok b" and add: "add_values v b = ((g, s, t), b')"
  shows "builder_ok b'" "grows (finish b) (finish b')" "b_metadata b' = b_metadata b"
    "b_locations b' = b_locations b" "index_offset b' = index_offset b"
    "g < length (pl_values (finish b'))" "fst (pl_values (finish b') ! g) = fst v" "t = s + length (snd v)"
    "t \<le> length (snd (pl_values (finish b') ! g))" "Prelude.slice s t (snd (pl_values (finish b') ! g)) = snd v"
proof -
  have conc: "builder_ok b' \<and> grows (finish b) (finish b') \<and> b_metadata b' = b_metadata b
    \<and> b_locations b' = b_locations b \<and> index_offset b' = index_offset b
    \<and> g < length (pl_values (finish b')) \<and> fst (pl_values (finish b') ! g) = fst v \<and> t = s + length (snd v)
    \<and> t \<le> length (snd (pl_values (finish b') ! g)) \<and> Prelude.slice s t (snd (pl_values (finish b') ! g)) = snd v"
  proof (cases "map_of (group_by_dtype b) (fst v)")
    case None
    have len: "length (group_by_dtype b) = length (value_parts b)" using ok by (auto simp: builder_ok_def dest: arg_cong[of _ _ length])
    from None add have b': "g = length (value_parts b)" "s = 0" "t = length (snd v)"
      "b' = b\<lparr>group_by_dtype := group_by_dtype b @ [(fst v, length (value_parts b))],
              value_parts := value_parts b @ [[v]], value_offsets := value_offsets b @ [length (snd v)]\<rparr>"
      using ok by (auto simp: add_values_def value_group_of_def Let_def builder_ok_def nth_append list_update_append)
    have "builder_ok b'" using ok len by (auto simp: builder_ok_def b'(4) nth_append less_Suc_eq)
    moreover have "grows (finish b) (finish b')"
      unfolding grows_def b'(4) finish_def by (auto simp: nth_append intro!: exI[of _ "[]"])
    ultimately show ?thesis by (simp add: b' finish_def nth_append cat_values_def Prelude.slice_def)
  next
    case (Some g0)
    note g0 = group_of_dtype[OF ok Some]
    let ?P = "value_parts b ! g0"
    have p: "?P \<noteq> []" "list_all (\<lambda>v. fst v = fst (group_by_dtype b ! g0)) ?P"
      "value_offsets b ! g0 = length (concat (map snd ?P))" "length (value_offsets b) = length (value_parts b)"
      using ok g0(1) by (auto simp: builder_ok_def)
    from Some add g0 have b': "g = g0" "s = value_offsets b ! g0" "t = s + length (snd v)"
      "b' = b\<lparr>value_parts := (value_parts b)[g0 := ?P @ [v]], value_offsets := (value_offsets b)[g0 := t]\<rparr>"
      using p(4) by (auto simp: add_values_def value_group_of_def Let_def)
    have cat: "pl_values (finish b') ! g0 = (fst (cat_values ?P), snd (cat_values ?P) @ snd v)"
      using g0(1) p(1) by (simp add: b'(4) finish_def cat_values_append)
    have "fst (cat_values ?P) = fst v" using p(1,2) g0(2) by (cases ?P) (auto simp: cat_values_def)
    moreover have "builder_ok b'"
      using ok g0 p by (auto simp: builder_ok_def b' nth_list_update)
    moreover have "grows (finish b) (finish b')"
      unfolding grows_def
    proof (intro conjI allI impI)
      show "\<exists>x. pl_indices (finish b') = pl_indices (finish b) @ x" by (simp add: b'(4) finish_def)
      show "length (pl_values (finish b)) \<le> length (pl_values (finish b'))" by (simp add: b'(4) finish_def)
      fix h assume h: "h < length (pl_values (finish b))"
      show "\<exists>y. pl_values (finish b') ! h = (fst (pl_values (finish b) ! h), snd (pl_values (finish b) ! h) @ y)"
      proof (cases "h = g0")
        case True
        with cat g0(1) show ?thesis by (simp add: finish_def)
      next
        case False
        with h show ?thesis by (simp add: b'(4) finish_def prod_eq_iff)
      qed
    qed
    moreover have "s = length (snd (cat_values ?P))" by (simp add: b'(2) p(3) cat_values_def)
    ultimately show ?thesis using cat g0(1) b' by (simp add: finish_def)
  qed
  then show "builder_ok b'" "grows (finish b) (finish b')" "b_metadata b' = b_metadata b"
    "b_locations b' = b_locations b" "index_offset b' = index_offset b"
    "g < length (pl_values (finish b'))" "fst (pl_values (finish b') ! g) = fst v" "t = s + length (snd v)"
    "t \<le> length (snd (pl_values (finish b') ! g))" "Prelude.slice s t (snd (pl_values (finish b') ! g)) = snd v"
    by blast+
qed

lemma add_locations_ok:
  assumes ok: "builder_ok b" and add: "add_locations locs b = ((s, t), b')"
  shows "builder_ok b'" "grows (finish b) (finish b')" "b_metadata b' = b_metadata b" "value_parts b' = value_parts b"
    "s = length (pl_indices (finish b))" "t = s + length locs" "pl_indices (finish b') = pl_indices (finish b) @ locs"
  using assms grows_refl[of "finish b"] unfolding add_locations_def Let_def
  by (auto simp: builder_ok_def finish_def grows_def split: if_splits)

lemma add_item_ok:
  "builder_ok (add_item it b) = builder_ok b" "grows p (finish (add_item it b)) = grows p (finish b)"
  "in_bounds (finish (add_item it b)) x = in_bounds (finish b) x"
  "receive_item (finish (add_item it b)) x = receive_item (finish b) x"
  "b_metadata (add_item it b) = b_metadata b @ [it]"
  by (simp_all add: add_item_def builder_ok_def grows_def finish_def in_bounds_def receive_item_def cong: if_cong)


text \<open>
  \<open>more b xs b'\<close>: \<open>b'\<close> is \<open>b\<close> grown by items within its bounds, from which the receiver reads \<open>xs\<close>.
\<close>

definition adds :: "builder \<Rightarrow> delta res list \<Rightarrow> builder \<Rightarrow> bool" where
  "adds b xs b' \<longleftrightarrow> builder_ok b' \<and> grows (finish b) (finish b') \<and>
     (\<exists>its. b_metadata b' = b_metadata b @ its \<and> list_all (in_bounds (finish b')) its
        \<and> map (receive_item (finish b')) its = xs)"

lemma adds_trans:
  assumes "adds b xs b'" and "adds b' ys b''"
  shows "adds b (xs @ ys) b''"
proof -
  from assms obtain ks js where i: "b_metadata b' = b_metadata b @ ks" "list_all (in_bounds (finish b')) ks"
    "map (receive_item (finish b')) ks = xs" and j: "b_metadata b'' = b_metadata b' @ js" "list_all (in_bounds (finish b'')) js"
    "map (receive_item (finish b'')) js = ys" and g: "grows (finish b') (finish b'')"
    unfolding adds_def by blast
  from i(2) grows_keeps[OF g] have "list_all (in_bounds (finish b'')) ks" by (auto simp: list_all_iff)
  moreover have "map (receive_item (finish b'')) ks = xs"
    using i(2,3) grows_keeps(2)[OF g] by (auto simp: list_all_iff)
  ultimately have "b_metadata b'' = b_metadata b @ (ks @ js) \<and> list_all (in_bounds (finish b'')) (ks @ js)
      \<and> map (receive_item (finish b'')) (ks @ js) = xs @ ys"
    using i j by simp
  then show ?thesis using assms grows_trans unfolding adds_def by blast
qed

lemma adds_refl: "builder_ok b \<Longrightarrow> adds b [] b"
  by (simp add: adds_def grows_refl)

text \<open>An information the tracker hands to the encoder.\<close>

definition info_ok :: "sparse_info \<Rightarrow> bool" where
  "info_ok i \<longleftrightarrow> in_locations i \<noteq> [] \<and> length (snd (in_values i)) = length (in_locations i)
     \<and> ascending (location_width (t_shape (in_tensor i))) (in_locations i)"

text \<open>The delta the receiver is to read for it.\<close>

definition delta_of :: "sparse_info \<Rightarrow> delta" where
  "delta_of i = (let locs = in_locations i in
     \<lparr>dl_name = in_name i, dl_shape = t_shape (in_tensor i), dl_dtype = dt_name (t_dtype (in_tensor i)), dl_op = in_op i,
      dl_samples = None,
      dl_run = (if length locs = 1 \<or> last locs - locs ! 0 + 1 = int (length locs) then Some (locs ! 0) else None),
      dl_locations = locs, dl_values = in_values i\<rparr>)"

lemma location_width_cases: "location_width shape = 32 \<or> location_width shape = 64"
  by (simp add: location_width_def)

lemma encode_info_adds:
  assumes ok: "builder_ok b" and i: "info_ok i"
  shows "\<exists>b'. encode_info i b = Inr b' \<and> adds b [Inr (delta_of i)] b'"
proof -
  let ?locs = "in_locations i" and ?w = "location_width (t_shape (in_tensor i))"
  let ?run = "length ?locs = 1 \<or> last ?locs - ?locs ! 0 + 1 = int (length ?locs)"
  have ne: "?locs \<noteq> []" and len: "length (snd (in_values i)) = length ?locs" and asc: "ascending ?w ?locs"
    using i by (auto simp: info_ok_def)
  have w: "?w \<in> {32, 64}" "0 < ?w" "?w \<le> 64" using location_width_cases[of "t_shape (in_tensor i)"] by auto
  define r where "r = (if ?run then ((Run (?locs ! 0), index_offset b, index_offset b), b)
     else case add_locations (encode_explicit_locations ?locs) b of ((s, t), b') \<Rightarrow> ((Deltas, s, t), b'))"
  obtain e s t b1 where r: "r = ((e, s, t), b1)" by (metis prod_cases3 prod.collapse)
  obtain g vs ve b2 where av: "add_values (in_values i) b1 = ((g, vs, ve), b2)" by (metis prod_cases3 prod.collapse)
  define it where "it = \<lparr>si_name = in_name i, si_shape = t_shape (in_tensor i), si_dtype = dt_name (t_dtype (in_tensor i)),
      si_op = in_op i, si_encoding = e, index_start = s, index_end = t, value_group = g, value_start = vs,
      value_end = ve, si_samples = None\<rparr>"
  have enc: "encode_info i b = Inr (add_item it b2)"
    using ne len r av by (simp add: encode_info_def Let_def r_def it_def)
  have b1: "builder_ok b1 \<and> grows (finish b) (finish b1) \<and> b_metadata b1 = b_metadata b \<and> s \<le> t \<and> t \<le> length (pl_indices (finish b1))"
  proof (cases ?run)
    case True
    with r ok show ?thesis by (auto simp: r_def grows_refl builder_ok_def finish_def)
  next
    case False
    with r obtain "add_locations (encode_explicit_locations ?locs) b = ((s, t), b1)"
      by (auto simp: r_def split: prod.splits)
    from add_locations_ok[OF ok this] show ?thesis by simp
  qed
  note av_ok = add_values_ok[OF _ av]
  have idx: "pl_indices (finish b2) = pl_indices (finish b1)" using b1 av_ok(4) by (simp add: finish_def)
  have inb: "in_bounds (finish b2) it"
    using b1 av_ok by (simp add: in_bounds_def it_def idx)
  have locs: "sparse_locations_for_item it (pl_indices (finish b2)) ?w = Inr ?locs"
  proof (cases ?run)
    case True
    then have "e = Run (?locs ! 0)" using r by (auto simp: r_def)
    then show ?thesis
      using w av_ok(8) b1 len run_roundtrip[OF _ ne True] asc
      by (simp add: sparse_locations_for_item_def it_def Let_def ascending_def)
  next
    case False
    with r have "add_locations (encode_explicit_locations ?locs) b = ((s, t), b1)" and e: "e = Deltas"
      by (auto simp: r_def split: prod.splits)
    from add_locations_ok[OF ok this(1)] have raw: "Prelude.slice s t (pl_indices (finish b2)) = encode_explicit_locations ?locs"
      by (simp add: idx)
    note ex = explicit_roundtrip[OF asc ne w(2,3)]
    let ?z = "delta_size (location_deltas (-1) ?locs)"
    have div: "length (encode_explicit_locations ?locs) div length ?locs = ?z" using ex(1) ne by simp
    have cnt: "value_end it - value_start it = length ?locs" using av_ok(8) b1 len by (simp add: it_def)
    show ?thesis
      using ex ne w(1) unfolding sparse_locations_for_item_def cnt by (simp add: it_def e raw div Let_def)
  qed
  have "dl_run (delta_of i) = (case e of Run s \<Rightarrow> Some s | Deltas \<Rightarrow> None)"
    using r by (auto simp: r_def delta_of_def Let_def split: if_splits prod.splits)
  then have "receive_item (finish b2) it = Inr (delta_of i)"
    using locs av_ok(6,7,10) b1 by (simp add: receive_item_def it_def delta_of_def Let_def)
  then have "adds b [Inr (delta_of i)] (add_item it b2)"
    using inb b1 av_ok(1,2,3) grows_trans[of "finish b" "finish b1" "finish b2"]
    unfolding adds_def add_item_ok by auto
  with enc show ?thesis by blast
qed


section \<open>Merging\<close>

text \<open>The array \<open>v\<close> lies in group \<open>g\<close> of the payload from position \<open>s\<close> on.\<close>

definition placed :: "payload \<Rightarrow> int_array \<Rightarrow> nat \<times> nat \<Rightarrow> bool" where
  "placed p v gs \<longleftrightarrow> fst gs < length (pl_values p) \<and> fst (pl_values p ! fst gs) = fst v
     \<and> (\<exists>x y. snd (pl_values p ! fst gs) = x @ snd v @ y \<and> length x = snd gs)"

lemma slice_split:
  assumes "Prelude.slice s (s + length ys) xs = ys" and "s + length ys \<le> length xs"
  shows "xs = take s xs @ ys @ drop (s + length ys) xs"
proof -
  have "xs = take s xs @ take (length ys) (drop s xs) @ drop (length ys) (drop s xs)"
    by (metis append_take_drop_id)
  with assms show ?thesis by (simp add: Prelude.slice_def add.commute)
qed

lemma placed_grows: "placed p v gs \<Longrightarrow> grows p p' \<Longrightarrow> placed p' v gs"
proof -
  assume pl: "placed p v gs" and gr: "grows p p'"
  then obtain x y z where "snd (pl_values p ! fst gs) = x @ snd v @ y" "length x = snd gs"
    and "pl_values p' ! fst gs = (fst (pl_values p ! fst gs), snd (pl_values p ! fst gs) @ z)"
    unfolding placed_def grows_def by blast
  then have "snd (pl_values p' ! fst gs) = x @ snd v @ (y @ z)" "length x = snd gs" "fst (pl_values p' ! fst gs) = fst v"
    using pl by (simp_all add: placed_def)
  then show ?thesis using pl gr unfolding placed_def grows_def by (meson less_le_trans)
qed

lemma slice_inside:
  assumes "b \<le> length ys" "a \<le> b"
  shows "Prelude.slice (a + length x) (b + length x) (x @ ys @ z) = Prelude.slice a b ys"
  using assms by (simp add: Prelude.slice_def)

lemma add_groups_ok:
  assumes "builder_ok b" and "add_groups vs b = (m, b')"
  shows "builder_ok b'" "grows (finish b) (finish b')" "b_metadata b' = b_metadata b" "list_all2 (placed (finish b')) vs m"
proof -
  have "builder_ok b' \<and> grows (finish b) (finish b') \<and> b_metadata b' = b_metadata b \<and> list_all2 (placed (finish b')) vs m"
    using assms
  proof (induction vs arbitrary: b m b')
    case Nil
    then show ?case by (simp add: grows_refl)
  next
    case (Cons v vs)
    obtain g s t b1 where av: "add_values v b = ((g, s, t), b1)" by (metis prod_cases3 prod.collapse)
    obtain m2 b2 where ag: "add_groups vs b1 = (m2, b2)" by (metis prod.collapse)
    note a = add_values_ok[OF Cons.prems(1) av]
    have m: "m = (g, s) # m2" "b' = b2" using Cons.prems(2) av ag by auto
    note IH = Cons.IH[OF a(1) ag]
    have "snd (pl_values (finish b1) ! g) = take s (snd (pl_values (finish b1) ! g)) @ snd v
        @ drop t (snd (pl_values (finish b1) ! g))"
      using a(8,9,10) slice_split[of s "snd v"] by simp
    moreover have "length (take s (snd (pl_values (finish b1) ! g))) = s" using a(8,9) by simp
    ultimately have "placed (finish b1) v (g, s)" using a(6,7) unfolding placed_def by auto
    with IH show ?case
      using a(2,3) m grows_trans placed_grows by auto
  qed
  then show "builder_ok b'" "grows (finish b) (finish b')" "b_metadata b' = b_metadata b" "list_all2 (placed (finish b')) vs m"
    by blast+
qed

lemma merge_item_reads:
  assumes placed: "list_all2 (placed p') (pl_values p) m" and idx: "pl_indices p' = x @ pl_indices p" "off = length x"
    and it: "in_bounds p it"
  shows "\<exists>it'. merge_item m off it = Inr it' \<and> in_bounds p' it' \<and> receive_item p' it' = receive_item p it"
proof -
  let ?g = "value_group it"
  have g: "?g < length m" "?g < length (pl_values p)" using placed it by (auto simp: in_bounds_def dest: list_all2_lengthD)
  with placed have pl: "placed p' (pl_values p ! ?g) (m ! ?g)" by (simp add: list_all2_nthD2)
  then obtain y z where y: "snd (pl_values p' ! fst (m ! ?g)) = y @ snd (pl_values p ! ?g) @ z" "length y = snd (m ! ?g)"
    and f: "fst (m ! ?g) < length (pl_values p')" "fst (pl_values p' ! fst (m ! ?g)) = fst (pl_values p ! ?g)"
    by (auto simp: placed_def)
  define it' where "it' = it\<lparr>index_start := index_start it + off, index_end := index_end it + off,
      value_group := fst (m ! ?g), value_start := value_start it + snd (m ! ?g), value_end := value_end it + snd (m ! ?g)\<rparr>"
  have "merge_item m off it = Inr it'" using g by (simp add: merge_item_def it'_def)
  moreover have "in_bounds p' it'" using it f y idx by (simp add: in_bounds_def it'_def)
  moreover have "receive_item p' it' = receive_item p it"
  proof -
    have raw: "Prelude.slice (index_start it + off) (index_end it + off) (pl_indices p') = Prelude.slice (index_start it) (index_end it) (pl_indices p)"
      using slice_inside[of "index_end it" "pl_indices p" "index_start it" x "[]"] it idx by (simp add: in_bounds_def)
    then have "sparse_locations_for_item it' (pl_indices p') n = sparse_locations_for_item it (pl_indices p) n" for n
      by (simp add: sparse_locations_for_item_def it'_def Let_def split: index_encoding.split)
    moreover have "Prelude.slice (value_start it + snd (m ! ?g)) (value_end it + snd (m ! ?g)) (snd (pl_values p' ! fst (m ! ?g)))
        = Prelude.slice (value_start it) (value_end it) (snd (pl_values p ! ?g))"
      using slice_inside[of "value_end it" "snd (pl_values p ! ?g)" "value_start it" y z] it y by (simp add: in_bounds_def)
    ultimately show ?thesis using g f by (simp add: receive_item_def it'_def)
  qed
  ultimately show ?thesis by blast
qed

lemma fold_add_item:
  "b_metadata (fold add_item ks b) = b_metadata b @ ks" "builder_ok (fold add_item ks b) = builder_ok b"
  "grows p (finish (fold add_item ks b)) = grows p (finish b)"
  "in_bounds (finish (fold add_item ks b)) x = in_bounds (finish b) x"
  "receive_item (finish (fold add_item ks b)) x = receive_item (finish b) x"
  by (induction ks arbitrary: b) (simp_all add: add_item_ok)

lemma merge_payload_adds:
  assumes ok: "builder_ok b" and p: "payload_wf p"
  shows "\<exists>b'. merge_payload p b = Inr b' \<and> adds b (map (receive_item p) (pl_items p)) b'"
proof -
  obtain m b1 where ag: "add_groups (pl_values p) b = (m, b1)" by (metis prod.collapse)
  obtain off t b2 where al: "add_locations (pl_indices p) b1 = ((off, t), b2)" by (metis prod.collapse)
  note g = add_groups_ok[OF ok ag]
  note l = add_locations_ok[OF g(1) al]
  have placed: "list_all2 (placed (finish b2)) (pl_values p) m"
    using g(4) placed_grows[OF _ l(2)] by (auto elim: list_all2_mono)
  have "list_all2 (\<lambda>it it'. merge_item m off it = Inr it' \<and> in_bounds (finish b2) it'
      \<and> receive_item (finish b2) it' = receive_item p it) (pl_items p) (map (\<lambda>it. projr (merge_item m off it)) (pl_items p))"
    using merge_item_reads[OF placed l(7,5)] p
    by (fastforce simp: list_all2_map2 list_all2_same payload_wf_def list_all_iff)
  then obtain ks where ks: "list_all2 (\<lambda>it it'. merge_item m off it = Inr it' \<and> in_bounds (finish b2) it'
      \<and> receive_item (finish b2) it' = receive_item p it) (pl_items p) ks" by blast
  then have "mapR (merge_item m off) (pl_items p) = Inr ks" by (auto simp: mapR_Inr elim: list_all2_mono)
  moreover have "list_all (in_bounds (finish b2)) ks" "map (receive_item (finish b2)) ks = map (receive_item p) (pl_items p)"
    using ks by (induction rule: list_all2_induct) auto
  moreover have "in_bounds (finish (fold add_item ks b2)) = in_bounds (finish b2)"
    "receive_item (finish (fold add_item ks b2)) = receive_item (finish b2)"
    by (rule ext, rule fold_add_item)+
  ultimately show ?thesis
    using ag al g(2,3) l(1,2,3) grows_trans[OF g(2) l(2)]
    by (auto simp: merge_payload_def adds_def fold_add_item)
qed

lemma encode_infos_adds:
  "builder_ok b \<Longrightarrow> list_all info_ok xs \<Longrightarrow> \<exists>b'. encode_infos xs b = Inr b' \<and> adds b (map (\<lambda>i. Inr (delta_of i)) xs) b'"
proof (induction xs arbitrary: b)
  case (Cons i xs)
  from encode_info_adds[of b i] Cons.prems obtain b1 where b1: "encode_info i b = Inr b1" "adds b [Inr (delta_of i)] b1" by auto
  then have "builder_ok b1" by (simp add: adds_def)
  with Cons obtain b2 where "encode_infos xs b1 = Inr b2" "adds b1 (map (\<lambda>i. Inr (delta_of i)) xs) b2" by auto
  with b1 adds_trans[OF b1(2)] show ?case by auto
qed (simp add: adds_refl)

lemma merge_payloads_adds:
  "builder_ok b \<Longrightarrow> list_all payload_wf ps \<Longrightarrow>
     \<exists>b'. merge_payloads ps b = Inr b' \<and> adds b (concat (map (\<lambda>p. map (receive_item p) (pl_items p)) ps)) b'"
proof (induction ps arbitrary: b)
  case (Cons p ps)
  from merge_payload_adds[of b p] Cons.prems obtain b1 where
    b1: "merge_payload p b = Inr b1" "adds b (map (receive_item p) (pl_items p)) b1" by auto
  then have "builder_ok b1" by (simp add: adds_def)
  with Cons obtain b2 where "merge_payloads ps b1 = Inr b2"
    "adds b1 (concat (map (\<lambda>p. map (receive_item p) (pl_items p)) ps)) b2" by auto
  with b1 adds_trans[OF b1(2)] show ?case by auto
qed (simp add: adds_refl)


section \<open>The round trip\<close>

lemma mapR_map_Inr: "map f xs = map Inr ys \<Longrightarrow> mapR f xs = Inr ys"
  by (induction xs arbitrary: ys) (auto simp: map_eq_Cons_conv Cons_eq_map_conv)

lemma map_mapR: "mapR f xs = Inr ys \<longleftrightarrow> map f xs = map Inr ys"
  by (auto simp: mapR_map_Inr mapR_Inr list_all2_conv_all_nth list_eq_iff_nth_eq)

lemma adds_new:
  assumes "adds new_builder xs b"
  shows "payload_wf (finish b)" "map (receive_item (finish b)) (pl_items (finish b)) = xs"
  using assms by (auto simp: adds_def payload_wf_def new_builder_def finish_def)

lemma encode_sparse_infos_reads:
  assumes "list_all info_ok xs"
  shows "\<exists>p. encode_sparse_infos xs = Inr p \<and> payload_wf p \<and> received p = Inr (map delta_of xs)"
proof -
  from encode_infos_adds[OF builder_ok_new assms] obtain b where
    b: "encode_infos xs new_builder = Inr b" "adds new_builder (map (\<lambda>i. Inr (delta_of i)) xs) b" by blast
  from adds_new[OF b(2)] b(1) show ?thesis
    by (auto simp: encode_sparse_infos_def received_def map_mapR comp_def)
qed

lemma merge_sparse_payloads_reads:
  assumes "list_all2 (\<lambda>p xs. payload_wf p \<and> received p = Inr xs) ps xss"
  shows "\<exists>p. merge_sparse_payloads ps = Inr p \<and> payload_wf p \<and> received p = Inr (concat xss)"
proof -
  have wf: "list_all payload_wf ps" using assms by (induction rule: list_all2_induct) auto
  from merge_payloads_adds[OF builder_ok_new wf] obtain b where
    b: "merge_payloads ps new_builder = Inr b"
    "adds new_builder (concat (map (\<lambda>p. map (receive_item p) (pl_items p)) ps)) b" by blast
  moreover have "concat (map (\<lambda>p. map (receive_item p) (pl_items p)) ps) = map Inr (concat xss)"
    using assms by (induction rule: list_all2_induct) (auto simp: received_def map_mapR)
  ultimately show ?thesis
    using adds_new[OF b(2)] by (auto simp: merge_sparse_payloads_def received_def map_mapR)
qed

text \<open>
  What travels: payloads encoded from tensor deltas and payloads merged from such payloads, to any depth.
\<close>

inductive wire :: "payload \<Rightarrow> sparse_info list \<Rightarrow> bool" where
  encoded: "list_all info_ok xs \<Longrightarrow> encode_sparse_infos xs = Inr p \<Longrightarrow> wire p xs"
| merged: "list_all2 wire ps xss \<Longrightarrow> merge_sparse_payloads ps = Inr p \<Longrightarrow> wire p (concat xss)"

lemma wire_reads: "wire p xs \<Longrightarrow> payload_wf p \<and> received p = Inr (map delta_of xs)"
proof (induction rule: wire.induct)
  case (encoded xs p)
  with encode_sparse_infos_reads[OF encoded(1)] show ?case by auto
next
  case (merged ps xss p)
  then have "list_all2 (\<lambda>p ys. payload_wf p \<and> received p = Inr ys) ps (map (map delta_of) xss)"
    by (auto simp: list_all2_map2 elim: list_all2_mono)
  from merge_sparse_payloads_reads[OF this] merged(2) show ?case by (auto simp: map_concat)
qed

lemma wire_info_ok: "wire p xs \<Longrightarrow> list_all info_ok xs"
proof (induction rule: wire.induct)
  case (merged ps xss p)
  from merged(1) have "list_all (list_all info_ok) xss" by (induction rule: list_all2_induct) auto
  then show ?case by (auto simp: list_all_iff)
qed

definition demo_info :: "string \<Rightarrow> nat \<Rightarrow> int list \<Rightarrow> bits list \<Rightarrow> sparse_info" where
  "demo_info name n locs vals =
     \<lparr>in_name = name, in_tensor = \<lparr>t_dtype = \<lparr>dt_name = ''bfloat16'', dt_size = n, dt_float = True\<rparr>,
        t_shape = [400, 400], t_bits = []\<rparr>, in_locations = locs, in_values = (n, vals), in_op = Xor\<rparr>"

text \<open>
  C27: The wire format is lossless: encoding deltas never fails and merging payloads never does, and from a
  payload that was encoded or merged, to any depth, the receiver reads back exactly the deltas that went
  in, in order, locations and values, without leaving the payload's arrays.
\<close>

theorem sparse_wire_roundtrip:
  assumes "list_all info_ok xs" and "list_all2 wire ps xss"
  shows "(\<exists>p. encode_sparse_infos xs = Inr p \<and> payload_wf p \<and> received p = Inr (map delta_of xs))
    \<and> (\<exists>p. merge_sparse_payloads ps = Inr p \<and> payload_wf p \<and> received p = Inr (map delta_of (concat xss)))"
proof
  show "\<exists>p. encode_sparse_infos xs = Inr p \<and> payload_wf p \<and> received p = Inr (map delta_of xs)"
    by (rule encode_sparse_infos_reads[OF assms(1)])
  have "list_all2 (\<lambda>p ys. payload_wf p \<and> received p = Inr ys) ps (map (map delta_of) xss)"
    using assms(2) wire_reads by (auto simp: list_all2_map2 elim: list_all2_mono)
  from merge_sparse_payloads_reads[OF this]
  show "\<exists>p. merge_sparse_payloads ps = Inr p \<and> payload_wf p \<and> received p = Inr (map delta_of (concat xss))"
    by (simp add: map_concat)
qed


lemma demo_info_ok: "list_all info_ok [demo_info ''a'' 2 [3, 70000] [1, 2], demo_info ''b'' 2 [5, 6, 7] [4, 5, 6]]"
  by (simp add: info_ok_def demo_info_def ascending_def location_width_def)

theorem sparse_wire_roundtrip_witness:
  "received (projr (merge_sparse_payloads [projr (encode_sparse_infos [demo_info ''a'' 2 [3, 70000] [1, 2]]),
       projr (encode_sparse_infos [demo_info ''b'' 2 [5, 6, 7] [4, 5, 6]])]))
     = Inr [delta_of (demo_info ''a'' 2 [3, 70000] [1, 2]), delta_of (demo_info ''b'' 2 [5, 6, 7] [4, 5, 6])]"
proof -
  let ?a = "demo_info ''a'' 2 [3, 70000] [1, 2]" and ?b = "demo_info ''b'' 2 [5, 6, 7] [4, 5, 6]"
  have ok: "list_all info_ok [?a]" "list_all info_ok [?b]" using demo_info_ok by simp_all
  from encode_sparse_infos_reads[OF ok(1)] encode_sparse_infos_reads[OF ok(2)]
  have "wire (projr (encode_sparse_infos [?a])) [?a]" "wire (projr (encode_sparse_infos [?b])) [?b]"
    using ok by (auto intro: wire.encoded)
  then have "list_all2 wire [projr (encode_sparse_infos [?a]), projr (encode_sparse_infos [?b])] [[?a], [?b]]" by simp
  from sparse_wire_roundtrip[OF demo_info_ok this] show ?thesis by auto
qed

end
