(* ===== verification/SparseApply.thy ===== *)
theory SparseApply
  imports SparseCodec
begin

text \<open>
  The receiving side of a sparse refit (\<open>nemo_rl/models/generation/vllm/vllm_sparse_delta.py\<close>).  An item is written into
  a scratch tensor, which the engine's own loader copies into the model's storages; the copies are
  intercepted and turned into an XOR or an overwrite of the changed elements.  The loader is an argument:
  for a name, the copies it makes, each from elements of the scratch tensor to a strided view of a storage,
  or from something it computed.  The element types, not-a-number and conversions of PyTorch are the
  argument \<open>T\<close>.  Memory maps a storage and an element's position to its bits.
\<close>

section \<open>Memory and views\<close>

type_synonym address = "nat \<times> int"
type_synonym memory = "address \<Rightarrow> bits"

record view =
  v_storage :: nat
  v_offset :: int
  v_dims :: "(nat \<times> int) list"

text \<open>The positions of a view's elements in row-major order; a dimension is its size and its stride.\<close>

fun offsets :: "(nat \<times> int) list \<Rightarrow> int list" where
  "offsets [] = [0]"
| "offsets ((n, s) # ds) = concat (map (\<lambda>i. map (\<lambda>x. int i * s + x) (offsets ds)) [0..<n])"

definition addresses :: "view \<Rightarrow> address list" where
  "addresses v = map (\<lambda>x. (v_storage v, v_offset v + x)) (offsets (v_dims v))"

record torch =
  tt_dtype :: "string \<Rightarrow> dtype option"
  tt_isnan :: "dtype \<Rightarrow> bits \<Rightarrow> bool"
  tt_nan :: "dtype \<Rightarrow> bits"
  tt_convert :: "dtype \<Rightarrow> dtype \<Rightarrow> bits \<Rightarrow> bits"

text \<open>The source of a copy: elements of the scratch tensor, or a tensor computed from it.\<close>

datatype copy_source = Gather "nat list" | Computed "bits list \<Rightarrow> bits list"

record loader_copy =
  c_view :: view
  c_dtype :: dtype
  c_source :: copy_source
  c_source_dtype :: dtype

definition source_bits :: "bits list \<Rightarrow> loader_copy \<Rightarrow> bits list" where
  "source_bits src c = (case c_source c of Gather ixs \<Rightarrow> map ((!) src) ixs | Computed f \<Rightarrow> f src)"

definition same_storage :: "loader_copy \<Rightarrow> bool" where
  "same_storage c \<longleftrightarrow> (case c_source c of Gather _ \<Rightarrow> True | Computed _ \<Rightarrow> False)"

section \<open>Intercepting the copies\<close>

text \<open>A weight handed to the loader.\<close>

record weight =
  w_name :: string
  w_dtype :: dtype
  w_source :: "bits list"
  w_op :: sparse_op
  w_sentinel :: "bits option"

record load_state =
  mem :: memory
  active_masks :: "(view \<times> bool list) list"
  xor_spans :: "(nat \<times> (int \<times> int) list) list"
  copies :: nat
  xor_compatible :: bool

definition start_weight :: "load_state \<Rightarrow> load_state" where
  "start_weight s = s\<lparr>active_masks := [], xor_spans := [], copies := 0, xor_compatible := True\<rparr>"

definition view_span :: "view \<Rightarrow> int \<times> int" where
  "view_span v =
     (let extents = map (\<lambda>(n, s). (int n - 1) * s) (v_dims v)
      in (v_offset v + sum_list (map (min 0) extents), v_offset v + sum_list (map (max 0) extents)))"

definition spans_of :: "nat \<Rightarrow> load_state \<Rightarrow> (int \<times> int) list" where
  "spans_of k s = (case map_of (xor_spans s) k of None \<Rightarrow> [] | Some xs \<Rightarrow> xs)"

definition observe_xor_copy :: "loader_copy \<Rightarrow> load_state \<Rightarrow> bool \<times> load_state" where
  "observe_xor_copy c s =
     (if \<not> same_storage c \<or> c_source_dtype c \<noteq> c_dtype c then (False, s\<lparr>xor_compatible := False\<rparr>)
      else
        let span = view_span (c_view c); k = v_storage (c_view c); spans = spans_of k s
        in if list_ex (\<lambda>other. fst span \<le> snd other \<and> fst other \<le> snd span) spans
           then (False, s\<lparr>xor_compatible := False\<rparr>)
           else (True, s\<lparr>xor_spans := (k, spans @ [span]) # xor_spans s\<rparr>))"

text \<open>\<open>masked_scatter_\<close>: the masked elements of the view take the new values.\<close>

definition masked_scatter :: "view \<Rightarrow> bool list \<Rightarrow> bits list \<Rightarrow> memory \<Rightarrow> memory" where
  "masked_scatter v sel vals m =
     fold (\<lambda>(a, c, x) m. if c then m(a := x) else m) (zip (addresses v) (zip sel vals)) m"

definition overwrite_copy :: "torch \<Rightarrow> weight \<Rightarrow> loader_copy \<Rightarrow> load_state \<Rightarrow> load_state res" where
  "overwrite_copy T w c s =
     (let src = source_bits (w_source w) c; v = c_view c in
      if \<not> dt_float (c_source_dtype c) then Inl RuntimeError
      else case w_sentinel w of
        Some z \<Rightarrow>
          (if \<not> same_storage c \<or> c_source_dtype c \<noteq> c_dtype c then Inl RuntimeError
           else Inr (s\<lparr>mem := masked_scatter v (map (\<lambda>x. x \<noteq> z) src) src (mem s)\<rparr>))
      | None \<Rightarrow>
          (let (changed, s1) =
             (case map_of (active_masks s) v of
                Some m \<Rightarrow> (if same_storage c
                            then let m' = map (\<lambda>x. \<not> tt_isnan T (c_source_dtype c) x) src
                                 in (m', s\<lparr>active_masks := (v, m') # active_masks s\<rparr>)
                            else (m, s))
              | None \<Rightarrow> let m' = map (\<lambda>x. \<not> tt_isnan T (c_source_dtype c) x) src
                        in (m', s\<lparr>active_masks := (v, m') # active_masks s\<rparr>))
           in Inr (s1\<lparr>mem := masked_scatter v changed (map (tt_convert T (c_source_dtype c) (c_dtype c)) src) (mem s1)\<rparr>)))"

definition xor_copy :: "weight \<Rightarrow> loader_copy \<Rightarrow> load_state \<Rightarrow> load_state" where
  "xor_copy w c s =
     (let src = source_bits (w_source w) c; v = c_view c; old = map (mem s) (addresses v)
      in s\<lparr>mem := masked_scatter v (map (\<lambda>x. x \<noteq> 0) src) (map2 (XOR) old src) (mem s)\<rparr>)"

text \<open>
  A copy: its state, and the exception it raised, if any.  Copies to other storages than the model's are
  not intercepted and do not touch the model.
\<close>

definition dispatch_copy :: "torch \<Rightarrow> nat set \<Rightarrow> weight \<Rightarrow> loader_copy \<Rightarrow> load_state \<Rightarrow> load_state \<times> unit res" where
  "dispatch_copy T targets w c s =
     (if v_storage (c_view c) \<notin> targets then (s, Inr ())
      else case observe_xor_copy c (s\<lparr>copies := copies s + 1\<rparr>) of
        (compatible, s1) \<Rightarrow>
          (case w_op w of
             Overwrite \<Rightarrow> (case overwrite_copy T w c s1 of Inl e \<Rightarrow> (s1, Inl e) | Inr s2 \<Rightarrow> (s2, Inr ()))
           | Xor \<Rightarrow> if compatible then (xor_copy w c s1, Inr ()) else (s1, Inl RuntimeError)))"

fun copy_loop :: "torch \<Rightarrow> nat set \<Rightarrow> weight \<Rightarrow> loader_copy list \<Rightarrow> load_state \<Rightarrow> load_state \<times> unit res" where
  "copy_loop T targets w [] s = (s, Inr ())"
| "copy_loop T targets w (c # cs) s =
     (case dispatch_copy T targets w c s of (s1, Inl e) \<Rightarrow> (s1, Inl e) | (s1, Inr _) \<Rightarrow> copy_loop T targets w cs s1)"

section \<open>Preparing a weight\<close>

definition source_tensor :: "torch \<Rightarrow> nat list \<Rightarrow> string \<Rightarrow> (dtype \<times> nat) res" where
  "source_tensor T shape name = bindR (dtype_from_name (tt_dtype T) name) (\<lambda>d. Inr (d, prod_list shape))"

definition scatter_values :: "dtype \<Rightarrow> delta \<Rightarrow> bits list \<Rightarrow> bits list res" where
  "scatter_values d x src =
     (let vals = snd (dl_values x) in
      if fst (dl_values x) \<noteq> dt_size d then Inl RuntimeError
      else case dl_run x of
        Some r \<Rightarrow>
          (if r < 0 \<or> int (length src) < r + int (length vals) then Inl RuntimeError
           else Inr (take (nat r) src @ vals @ drop (nat r + length vals) src))
      | None \<Rightarrow>
          (if length (dl_locations x) \<noteq> length vals \<or> \<not> list_all (\<lambda>l. 0 \<le> l \<and> l < int (length src)) (dl_locations x)
           then Inl IndexError
           else Inr (fold (\<lambda>(l, v) src. src[nat l := v]) (zip (dl_locations x) vals) src)))"

definition prepare_loader_weight :: "torch \<Rightarrow> delta \<Rightarrow> weight res" where
  "prepare_loader_weight T x =
     bindR (source_tensor T (dl_shape x) (dl_dtype x)) (\<lambda>(d, n).
       bindR
         (case dl_op x of
            Xor \<Rightarrow> Inr (replicate n 0, None)
          | Overwrite \<Rightarrow>
              (if \<not> dt_float d then Inl RuntimeError
               else if dt_size d = 1 \<and> n = 0 then Inl IndexError
               else if dt_size d = 1 then
                 let z = tt_nan T d; vals = set (snd (dl_values x)) in
                   if z \<notin> vals then Inr (replicate n z, Some z)
                   else if z XOR 0x80 \<in> vals then Inl RuntimeError
                   else Inr (replicate n (z XOR 0x80), Some (z XOR 0x80))
               else Inr (replicate n (tt_nan T d), None)))
         (\<lambda>(src, sentinel).
           bindR (scatter_values d x src) (\<lambda>src.
             Inr \<lparr>w_name = dl_name x, w_dtype = d, w_source = src, w_op = dl_op x, w_sentinel = sentinel\<rparr>)))"

section \<open>Loading\<close>

text \<open>An observation of a weight: its name, the copies made and whether XOR is possible.\<close>

type_synonym observation = "string \<times> nat \<times> bool"

definition load_weight ::
  "torch \<Rightarrow> nat set \<Rightarrow> (string \<Rightarrow> loader_copy list) \<Rightarrow> weight \<Rightarrow> load_state \<Rightarrow> load_state \<times> observation res" where
  "load_weight T targets loader w s =
     (case copy_loop T targets w (loader (w_name w)) (start_weight s) of
        (s1, Inl e) \<Rightarrow> (s1, Inl e)
      | (s1, Inr _) \<Rightarrow> (s1, Inr (w_name w, copies s1, xor_compatible s1)))"

fun load_weights ::
  "torch \<Rightarrow> nat set \<Rightarrow> (string \<Rightarrow> loader_copy list) \<Rightarrow> weight res list \<Rightarrow> load_state \<Rightarrow> load_state \<times> observation list res" where
  "load_weights T targets loader [] s = (s, Inr [])"
| "load_weights T targets loader (Inl e # ws) s = (s, Inl e)"
| "load_weights T targets loader (Inr w # ws) s =
     (case load_weight T targets loader w s of
        (s1, Inl e) \<Rightarrow> (s1, Inl e)
      | (s1, Inr x) \<Rightarrow>
          (case load_weights T targets loader ws s1 of
             (s2, Inl e) \<Rightarrow> (s2, Inl e)
           | (s2, Inr xs) \<Rightarrow> (s2, Inr (x # xs))))"

text \<open>\<open>loaded\<close> is the number of names the loader reports, if it reports any.\<close>

definition validate_loader_report :: "nat option \<Rightarrow> observation list \<Rightarrow> bool \<Rightarrow> unit res" where
  "validate_loader_report loaded obs allow_unknown_skips =
     (let copied = length (filter (\<lambda>(_, n, _). 0 < n) obs) in
      case loaded of
        None \<Rightarrow> guardR RuntimeError (allow_unknown_skips \<or> copied = length obs)
      | Some k \<Rightarrow> guardR RuntimeError (k \<le> copied))"

text \<open>The receiver: the loader, what it reports, and the names it skips.\<close>

record applier =
  ap_targets :: "nat set"
  ap_loader :: "string \<Rightarrow> loader_copy list"
  ap_reports :: "string list \<Rightarrow> nat option"
  ap_skipped :: "string list"

definition new_load_state :: "memory \<Rightarrow> load_state" where
  "new_load_state m = \<lparr>mem = m, active_masks = [], xor_spans = [], copies = 0, xor_compatible = True\<rparr>"

definition weights_of :: "torch \<Rightarrow> string list \<Rightarrow> payload list \<Rightarrow> weight res list" where
  "weights_of T skipped ps =
     concat (map (\<lambda>p. map (\<lambda>it. bindR (receive_item p it) (prepare_loader_weight T))
       (filter (\<lambda>it. si_name it \<notin> set skipped) (pl_items p))) ps)"

text \<open>The payloads of a batch are applied in one pass of the loader; the memory, and the error if any.\<close>

definition apply_payloads :: "torch \<Rightarrow> applier \<Rightarrow> payload list \<Rightarrow> memory \<Rightarrow> memory \<times> unit res" where
  "apply_payloads T a ps m =
     (case load_weights T (ap_targets a) (ap_loader a) (weights_of T (ap_skipped a) ps) (new_load_state m) of
        (s, Inl e) \<Rightarrow> (mem s, Inl e)
      | (s, Inr obs) \<Rightarrow> (mem s, validate_loader_report (ap_reports a (map fst obs)) obs False))"

text \<open>
  The dry run that classifies the weights: every floating-point tensor is loaded as an overwrite by
  not-a-numbers.  The result: the applier with its skipped names, and the names that need an overwrite.
\<close>

definition discover_weight :: "torch \<Rightarrow> string \<times> nat list \<times> dtype \<Rightarrow> weight res" where
  "discover_weight T info =
     (case info of (name, shape, d) \<Rightarrow>
        bindR (source_tensor T shape (dt_name d)) (\<lambda>(d, n).
          if dt_size d = 1 \<and> n = 0 then Inl IndexError
          else Inr \<lparr>w_name = name, w_dtype = d, w_source = replicate n (tt_nan T d), w_op = Overwrite,
                 w_sentinel = (if dt_size d = 1 then Some (tt_nan T d) else None)\<rparr>))"

definition discover_native_skips ::
  "torch \<Rightarrow> (string \<times> nat list \<times> dtype) list \<Rightarrow> applier \<Rightarrow> memory \<Rightarrow> memory \<times> (applier \<times> string list) res" where
  "discover_native_skips T infos a m =
     (let pending = filter (\<lambda>(_, _, d). dt_float d) infos in
      if pending = [] then (m, Inr (a, []))
      else case load_weights T (ap_targets a) (ap_loader a) (map (discover_weight T) pending) (new_load_state m) of
        (s, Inl e) \<Rightarrow> (mem s, Inl e)
      | (s, Inr obs) \<Rightarrow>
          (let loaded = ap_reports a (map fst obs) in
           (mem s, bindR (validate_loader_report loaded obs True) (\<lambda>_.
             Inr (if loaded = None then a
                  else a\<lparr>ap_skipped := ap_skipped a @ map fst (filter (\<lambda>(_, n, _). n = 0) obs)\<rparr>,
                  map fst (filter (\<lambda>(_, n, x). 0 < n \<and> \<not> x) obs))))))"

section \<open>Views and their spans\<close>

lemma offsets_in_extents:
  assumes "x \<in> set (offsets ds)"
  shows "sum_list (map (min 0) (map (\<lambda>(n, s). (int n - 1) * s) ds)) \<le> x
    \<and> x \<le> sum_list (map (max 0) (map (\<lambda>(n, s). (int n - 1) * s) ds))"
  using assms
proof (induction ds arbitrary: x)
  case (Cons d ds)
  obtain n s where d: "d = (n, s)" by (cases d)
  from Cons.prems obtain i y where i: "i < n" "y \<in> set (offsets ds)" "x = int i * s + y" by (auto simp: d)
  have "min 0 ((int n - 1) * s) \<le> int i * s \<and> int i * s \<le> max 0 ((int n - 1) * s)"
  proof (cases "0 \<le> s")
    case True
    then have "0 \<le> int i * s" "int i * s \<le> (int n - 1) * s" using i(1) by (auto intro: mult_right_mono)
    then show ?thesis by auto
  next
    case False
    then have "int i * s \<le> 0" "(int n - 1) * s \<le> int i * s"
      using i(1) by (auto intro: mult_right_mono_neg simp: mult_nonneg_nonpos)
    then show ?thesis by auto
  qed
  with Cons.IH[OF i(2)] show ?case by (auto simp: d i(3))
qed simp

lemma address_in_span:
  assumes "a \<in> set (addresses v)"
  shows "fst a = v_storage v" "fst (view_span v) \<le> snd a" "snd a \<le> snd (view_span v)"
proof -
  from assms obtain x where x: "x \<in> set (offsets (v_dims v))" "a = (v_storage v, v_offset v + x)" by (auto simp: addresses_def)
  from offsets_in_extents[OF x(1)] x(2)
  show "fst a = v_storage v" "fst (view_span v) \<le> snd a" "snd a \<le> snd (view_span v)"
    by (simp_all add: view_span_def Let_def)
qed

section \<open>The effect of a copy\<close>

lemma masked_scatter_other: "a \<notin> set (addresses v) \<Longrightarrow> masked_scatter v sel vals m a = m a"
proof -
  have "fold (\<lambda>(a, c, x) m. if c then m(a := x) else m) zs m a = m a"
    if "a \<notin> fst ` set zs" for zs :: "(address \<times> bool \<times> bits) list"
    using that by (induction zs arbitrary: m) auto
  then show "a \<notin> set (addresses v) \<Longrightarrow> ?thesis"
    unfolding masked_scatter_def by (metis (no_types, lifting) image_iff in_set_zipE prod.collapse)
qed

lemma masked_scatter_nth:
  assumes "distinct (addresses v)" and "k < length (addresses v)" and "length sel = length (addresses v)"
    "length vals = length (addresses v)"
  shows "masked_scatter v sel vals m (addresses v ! k) = (if sel ! k then vals ! k else m (addresses v ! k))"
proof -
  have "fold (\<lambda>(a, c, x) m. if c then m(a := x) else m) (zip as (zip cs xs)) m (as ! k) = (if cs ! k then xs ! k else m (as ! k))"
    if "distinct as" "k < length as" "length cs = length as" "length xs = length as" for as :: "address list" and cs xs k
    using that
  proof (induction as arbitrary: cs xs k m)
    case (Cons a as)
    obtain c cs' x xs' where c: "cs = c # cs'" "xs = x # xs'" using Cons.prems by (metis length_Suc_conv)
    have keep: "fold (\<lambda>(a, c, x) m. if c then m(a := x) else m) (zip as (zip ds ys)) m' a = m' a" for ds ys m'
      using Cons.prems(1)
    proof (induction as arbitrary: ds ys m')
      case (Cons b as)
      then show ?case by (cases ds; cases ys) auto
    qed simp
    show ?case
    proof (cases k)
      case 0
      then show ?thesis by (simp add: c keep)
    next
      case (Suc j)
      with Cons.prems c have "as ! j \<noteq> a" by (auto dest: nth_mem)
      with Suc Cons.prems c show ?thesis by (simp add: Cons.IH)
    qed
  qed simp
  with assms show ?thesis by (simp add: masked_scatter_def)
qed

text \<open>
  The engine's layout: the element of a named tensor an address holds, and the element type it has there.
\<close>

type_synonym layout = "address \<Rightarrow> (string \<times> nat \<times> dtype) option"

text \<open>What is asked of the loader: its copies follow the layout, and reach all of a tensor's addresses.\<close>

definition copy_follows :: "layout \<Rightarrow> string \<Rightarrow> dtype \<Rightarrow> loader_copy \<Rightarrow> bool" where
  "copy_follows L name d c \<longleftrightarrow> (case c_source c of
     Computed _ \<Rightarrow> False
   | Gather ixs \<Rightarrow> c_source_dtype c = d \<and> distinct (addresses (c_view c)) \<and> length ixs = length (addresses (c_view c))
       \<and> (\<forall>k < length ixs. L (addresses (c_view c) ! k) = Some (name, ixs ! k, c_dtype c)))"

definition touched :: "nat set \<Rightarrow> loader_copy list \<Rightarrow> address set" where
  "touched targets cs = (\<Union>c\<in>{c \<in> set cs. v_storage (c_view c) \<in> targets}. set (addresses (c_view c)))"

definition loader_follows :: "layout \<Rightarrow> nat set \<Rightarrow> string \<Rightarrow> dtype \<Rightarrow> loader_copy list \<Rightarrow> bool" where
  "loader_follows L targets name d cs \<longleftrightarrow>
     (\<forall>c\<in>set cs. v_storage (c_view c) \<in> targets \<longrightarrow> copy_follows L name d c)
     \<and> (\<forall>a j e. L a = Some (name, j, e) \<longrightarrow> a \<in> touched targets cs)"

text \<open>The value an address is to have after the weight: element \<open>j\<close>, stored as type \<open>e\<close>, over the old bits.\<close>

definition takes :: "torch \<Rightarrow> weight \<Rightarrow> bits \<Rightarrow> bool" where
  "takes T w x \<longleftrightarrow> (case w_sentinel w of Some z \<Rightarrow> x \<noteq> z | None \<Rightarrow> \<not> tt_isnan T (w_dtype w) x)"

definition new_bits :: "torch \<Rightarrow> weight \<Rightarrow> nat \<Rightarrow> dtype \<Rightarrow> bits \<Rightarrow> bits" where
  "new_bits T w j e old =
     (case w_op w of
        Xor \<Rightarrow> old XOR w_source w ! j
      | Overwrite \<Rightarrow> if takes T w (w_source w ! j)
                      then (case w_sentinel w of Some _ \<Rightarrow> w_source w ! j | None \<Rightarrow> tt_convert T (w_dtype w) e (w_source w ! j))
                      else old)"

lemma new_bits_overwrite_twice:
  "w_op w = Overwrite \<Longrightarrow> new_bits T w j e (new_bits T w j e x) = new_bits T w j e x"
  by (simp add: new_bits_def)

text \<open>The memory after the addresses of a set have taken the weight's values.\<close>

definition written :: "torch \<Rightarrow> layout \<Rightarrow> weight \<Rightarrow> address set \<Rightarrow> memory \<Rightarrow> memory" where
  "written T L w A m = (\<lambda>a. if a \<in> A then (case L a of Some (_, j, e) \<Rightarrow> new_bits T w j e (m a) | None \<Rightarrow> m a) else m a)"

definition covered :: "load_state \<Rightarrow> address \<Rightarrow> bool" where
  "covered s a \<longleftrightarrow> (\<exists>lo hi. (lo, hi) \<in> set (spans_of (fst a) s) \<and> lo \<le> snd a \<and> snd a \<le> hi)"

lemma masked_scatter_written:
  assumes "distinct (addresses v)" "length sel = length (addresses v)" "length vals = length (addresses v)"
    and "\<And>k. k < length (addresses v) \<Longrightarrow>
      \<exists>n j e. L (addresses v ! k) = Some (n, j, e)
        \<and> new_bits T w j e (m (addresses v ! k)) = (if sel ! k then vals ! k else m (addresses v ! k))"
  shows "masked_scatter v sel vals m = written T L w (set (addresses v)) m"
proof
  fix a
  show "masked_scatter v sel vals m a = written T L w (set (addresses v)) m a"
  proof (cases "a \<in> set (addresses v)")
    case True
    then obtain k where k: "k < length (addresses v)" "a = addresses v ! k" by (auto simp: in_set_conv_nth)
    from assms(4)[OF k(1)] obtain n j e where "L a = Some (n, j, e)"
      "new_bits T w j e (m a) = (if sel ! k then vals ! k else m a)" by (auto simp: k(2))
    with True masked_scatter_nth[OF assms(1) k(1) assms(2,3)] show ?thesis by (simp add: k(2) written_def)
  qed (simp add: masked_scatter_other written_def)
qed

lemma observe_fields: "mem (snd (observe_xor_copy c s)) = mem s" "active_masks (snd (observe_xor_copy c s)) = active_masks s"
  "copies (snd (observe_xor_copy c s)) = copies s"
  by (simp_all add: observe_xor_copy_def Let_def)

lemma observe_disjoint:
  assumes "observe_xor_copy c s = (True, s1)" and "a \<in> set (addresses (c_view c))"
  shows "\<not> covered s a"
proof -
  have "\<not> (fst (view_span (c_view c)) \<le> hi \<and> lo \<le> snd (view_span (c_view c)))"
    if "(lo, hi) \<in> set (spans_of (v_storage (c_view c)) s)" for lo hi
    using assms(1) that by (fastforce simp: observe_xor_copy_def Let_def list_ex_iff split: if_splits)
  with address_in_span[OF assms(2)] show ?thesis by (fastforce simp: covered_def)
qed

lemma observe_spans:
  assumes "observe_xor_copy c s = (True, s1)"
  shows "spans_of k s1 = spans_of k s @ (if k = v_storage (c_view c) then [view_span (c_view c)] else [])"
  using assms by (auto simp: observe_xor_copy_def Let_def spans_of_def split: if_splits)

lemma observe_covers:
  assumes "observe_xor_copy c s = (True, s1)"
  shows "a \<in> set (addresses (c_view c)) \<Longrightarrow> covered s1 a" "covered s b \<Longrightarrow> covered s1 b"
proof -
  assume a: "a \<in> set (addresses (c_view c))"
  have "view_span (c_view c) \<in> set (spans_of (fst a) s1)"
    using address_in_span(1)[OF a] by (simp add: observe_spans[OF assms])
  then show "covered s1 a" using address_in_span(2,3)[OF a] unfolding covered_def by (metis prod.collapse)
next
  show "covered s b \<Longrightarrow> covered s1 b" by (auto simp: covered_def observe_spans[OF assms])
qed

lemma dispatch_effect:
  assumes follows: "copy_follows L (w_name w) (w_dtype w) c" and tgt: "v_storage (c_view c) \<in> targets"
    and run: "dispatch_copy T targets w c s = (s', Inr ())"
  shows "mem s' = written T L w (set (addresses (c_view c))) (mem s)"
    "w_op w = Xor \<Longrightarrow> a \<in> set (addresses (c_view c)) \<Longrightarrow> \<not> covered s a \<and> covered s' a"
    "w_op w = Xor \<Longrightarrow> covered s b \<Longrightarrow> covered s' b"
proof -
  obtain ixs where src: "c_source c = Gather ixs" "c_source_dtype c = w_dtype w" "distinct (addresses (c_view c))"
    "length ixs = length (addresses (c_view c))"
    "\<And>k. k < length ixs \<Longrightarrow> L (addresses (c_view c) ! k) = Some (w_name w, ixs ! k, c_dtype c)"
    using follows by (auto simp: copy_follows_def split: copy_source.splits)
  obtain z s1 where obs: "observe_xor_copy c (s\<lparr>copies := copies s + 1\<rparr>) = (z, s1)" by (metis prod.collapse)
  have m1: "mem s1 = mem s" "active_masks s1 = active_masks s" using observe_fields[of c "s\<lparr>copies := copies s + 1\<rparr>"] obs by simp_all
  have bits: "source_bits (w_source w) c = map ((!) (w_source w)) ixs" "same_storage c"
    by (simp_all add: source_bits_def same_storage_def src(1))
  have cov: "covered (s\<lparr>copies := n\<rparr>) x = covered s x" for n x by (simp add: covered_def spans_of_def)
  have covx: "covered (s1\<lparr>mem := m\<rparr>) x = covered s1 x" for m x by (simp add: covered_def spans_of_def)
  show "mem s' = written T L w (set (addresses (c_view c))) (mem s)"
  proof (cases "w_op w")
    case Xor
    with run obs tgt have s': "s' = xor_copy w c s1" by (auto simp: dispatch_copy_def split: if_splits)
    have "mem s' = masked_scatter (c_view c) (map (\<lambda>x. x \<noteq> 0) (map ((!) (w_source w)) ixs))
        (map2 (XOR) (map (mem s) (addresses (c_view c))) (map ((!) (w_source w)) ixs)) (mem s)"
      by (simp add: s' xor_copy_def Let_def bits(1) m1(1))
    also have "\<dots> = written T L w (set (addresses (c_view c))) (mem s)"
      using src Xor by (intro masked_scatter_written) (auto simp: new_bits_def)
    finally show ?thesis .
  next
    case Overwrite
    with run obs tgt have ow: "overwrite_copy T w c s1 = Inr s'" by (auto simp: dispatch_copy_def split: sum.splits)
    show ?thesis
    proof (cases "w_sentinel w")
      case (Some z)
      with ow src(2) bits have "mem s' = masked_scatter (c_view c) (map (\<lambda>x. x \<noteq> z) (map ((!) (w_source w)) ixs))
          (map ((!) (w_source w)) ixs) (mem s)"
        by (auto simp: overwrite_copy_def Let_def m1 split: if_splits)
      moreover have "\<dots> = written T L w (set (addresses (c_view c))) (mem s)"
        using src Overwrite Some by (intro masked_scatter_written) (auto simp: new_bits_def takes_def)
      ultimately show ?thesis by simp
    next
      case None
      with ow src(2) bits have "mem s' = masked_scatter (c_view c) (map (\<lambda>x. \<not> tt_isnan T (w_dtype w) x) (map ((!) (w_source w)) ixs))
          (map (tt_convert T (w_dtype w) (c_dtype c)) (map ((!) (w_source w)) ixs)) (mem s)"
        by (auto simp: overwrite_copy_def Let_def m1 split: if_splits option.splits)
      moreover have "\<dots> = written T L w (set (addresses (c_view c))) (mem s)"
        using src Overwrite None by (intro masked_scatter_written) (auto simp: new_bits_def takes_def)
      ultimately show ?thesis by simp
    qed
  qed
  show "w_op w = Xor \<Longrightarrow> a \<in> set (addresses (c_view c)) \<Longrightarrow> \<not> covered s a \<and> covered s' a"
    "w_op w = Xor \<Longrightarrow> covered s b \<Longrightarrow> covered s' b"
    using run obs tgt observe_disjoint[of c "s\<lparr>copies := copies s + 1\<rparr>" s1 a]
      observe_covers(1)[where c = c and s = "s\<lparr>copies := copies s + 1\<rparr>" and ?s1.0 = s1 and a = a]
      observe_covers(2)[where c = c and s = "s\<lparr>copies := copies s + 1\<rparr>" and ?s1.0 = s1 and b = b]
    by (auto simp: dispatch_copy_def cov xor_copy_def Let_def covx split: if_splits)
qed

lemma dispatch_exact_type:
  assumes "copy_follows L (w_name w) (w_dtype w) c" "v_storage (c_view c) \<in> targets"
    and "dispatch_copy T targets w c s = (s', Inr ())" and "w_op w = Xor \<or> w_sentinel w \<noteq> None"
    and "a \<in> set (addresses (c_view c))" "L a = Some (n, j, e)"
  shows "e = w_dtype w"
proof -
  have "c_source_dtype c = c_dtype c"
    using assms(2,3,4)
    by (auto simp: dispatch_copy_def observe_xor_copy_def overwrite_copy_def Let_def split: if_splits sparse_op.splits prod.splits sum.splits)
  with assms(1,5,6) show ?thesis by (auto simp: copy_follows_def in_set_conv_nth split: copy_source.splits)
qed


lemma written_written:
  assumes "w_op w = Xor \<Longrightarrow> A \<inter> D = {}"
  shows "written T L w A (written T L w D m) = written T L w (D \<union> A) m"
proof
  fix a
  show "written T L w A (written T L w D m) a = written T L w (D \<union> A) m a"
    using assms new_bits_overwrite_twice[of w T]
    by (cases "w_op w") (auto simp: written_def split: option.splits)
qed

lemma copy_loop_effect:
  assumes "\<forall>c\<in>set cs. v_storage (c_view c) \<in> targets \<longrightarrow> copy_follows L (w_name w) (w_dtype w) c"
    and "copy_loop T targets w cs s = (s', Inr ())"
    and "\<forall>a\<in>D. w_op w = Xor \<longrightarrow> covered s a" and "mem s = written T L w D m"
  shows "mem s' = written T L w (D \<union> touched targets cs) m
    \<and> (w_op w = Xor \<or> w_sentinel w \<noteq> None \<longrightarrow> (\<forall>a\<in>touched targets cs. \<forall>n j e. L a = Some (n, j, e) \<longrightarrow> e = w_dtype w))"
  using assms
proof (induction cs arbitrary: s D)
  case Nil
  then show ?case by (simp add: touched_def)
next
  case (Cons c cs)
  from Cons.prems(2) obtain s1 where d: "dispatch_copy T targets w c s = (s1, Inr ())" and rest: "copy_loop T targets w cs s1 = (s', Inr ())"
    by (auto split: prod.splits sum.splits)
  show ?case
  proof (cases "v_storage (c_view c) \<in> targets")
    case False
    then have "s1 = s" using d by (simp add: dispatch_copy_def)
    moreover have "touched targets (c # cs) = touched targets cs" using False by (auto simp: touched_def)
    ultimately show ?thesis using Cons.IH[of s D] Cons.prems rest by simp
  next
    case True
    let ?A = "set (addresses (c_view c))"
    have fol: "copy_follows L (w_name w) (w_dtype w) c" using Cons.prems(1) True by simp
    note eff = dispatch_effect[OF fol True d]
    have "mem s1 = written T L w (D \<union> ?A) m"
      unfolding eff(1) Cons.prems(4) by (rule written_written) (use eff(2) Cons.prems(3) in blast)
    moreover have "\<forall>a\<in>D \<union> ?A. w_op w = Xor \<longrightarrow> covered s1 a" using eff(2,3) Cons.prems(3) by blast
    ultimately have "mem s' = written T L w (D \<union> ?A \<union> touched targets cs) m
      \<and> (w_op w = Xor \<or> w_sentinel w \<noteq> None \<longrightarrow> (\<forall>a\<in>touched targets cs. \<forall>n j e. L a = Some (n, j, e) \<longrightarrow> e = w_dtype w))"
      using Cons.IH[OF _ rest, of "D \<union> ?A"] Cons.prems(1) by simp
    moreover have "touched targets (c # cs) = ?A \<union> touched targets cs" using True by (auto simp: touched_def)
    ultimately show ?thesis using dispatch_exact_type[OF fol True d] by (simp add: Un_assoc) blast
  qed
qed

lemma touched_iff:
  assumes "loader_follows L targets name d cs"
  shows "a \<in> touched targets cs \<longleftrightarrow> (\<exists>j e. L a = Some (name, j, e))"
proof
  assume "a \<in> touched targets cs"
  then obtain c where c: "c \<in> set cs" "v_storage (c_view c) \<in> targets" "a \<in> set (addresses (c_view c))" by (auto simp: touched_def)
  then have "copy_follows L name d c" using assms by (simp add: loader_follows_def)
  with c(3) show "\<exists>j e. L a = Some (name, j, e)"
    by (auto simp: copy_follows_def in_set_conv_nth split: copy_source.splits)
qed (use assms in \<open>unfold loader_follows_def, blast\<close>)

lemma load_weight_effect:
  assumes follows: "loader_follows L targets (w_name w) (w_dtype w) (loader (w_name w))"
    and load: "load_weight T targets loader w s = (s', Inr ob)"
  shows "mem s' a = (case L a of Some (n, j, e) \<Rightarrow> if n = w_name w then new_bits T w j e (mem s a) else mem s a | None \<Rightarrow> mem s a)"
    "w_op w = Xor \<or> w_sentinel w \<noteq> None \<Longrightarrow> L a = Some (w_name w, j, e) \<Longrightarrow> e = w_dtype w"
proof -
  let ?cs = "loader (w_name w)"
  from load have run: "copy_loop T targets w ?cs (start_weight s) = (s', Inr ())"
    by (auto simp: load_weight_def split: prod.splits sum.splits)
  have "mem s' = written T L w ({} \<union> touched targets ?cs) (mem s)
    \<and> (w_op w = Xor \<or> w_sentinel w \<noteq> None \<longrightarrow> (\<forall>a\<in>touched targets ?cs. \<forall>n j e. L a = Some (n, j, e) \<longrightarrow> e = w_dtype w))"
    using follows by (intro copy_loop_effect[OF _ run]) (auto simp: loader_follows_def start_weight_def written_def)
  with touched_iff[OF follows, of a]
  show "mem s' a = (case L a of Some (n, j, e) \<Rightarrow> if n = w_name w then new_bits T w j e (mem s a) else mem s a | None \<Rightarrow> mem s a)"
    "w_op w = Xor \<or> w_sentinel w \<noteq> None \<Longrightarrow> L a = Some (w_name w, j, e) \<Longrightarrow> e = w_dtype w"
    by (auto simp: written_def split: option.splits)
qed

text \<open>The model holds the tensors \<open>W\<close>: every address has the bits of its element, as its element type.\<close>

definition holds :: "torch \<Rightarrow> layout \<Rightarrow> (string \<Rightarrow> tensor) \<Rightarrow> memory \<Rightarrow> bool" where
  "holds T L W m \<longleftrightarrow> (\<forall>a n j e. L a = Some (n, j, e) \<longrightarrow> m a = tt_convert T (t_dtype (W n)) e (t_bits (W n) ! j))"

text \<open>
  What a delta from \<open>old\<close> to \<open>new\<close> is: the elements that differ, with their XOR or their new bits.  An
  overwrite says \<open>unchanged\<close> with a not-a-number, so it cannot carry one (of more than one byte).
\<close>

definition tensor_ok :: "torch \<Rightarrow> tensor \<Rightarrow> bool" where
  "tensor_ok T t \<longleftrightarrow> length (t_bits t) = prod_list (t_shape t) \<and> tt_dtype T (dt_name (t_dtype t)) = Some (t_dtype t)
     \<and> dt_size (t_dtype t) \<in> {1, 2, 4, 8}"

definition delta_between :: "tensor \<Rightarrow> tensor \<Rightarrow> string \<Rightarrow> delta \<Rightarrow> bool" where
  "delta_between old new name x \<longleftrightarrow> dl_name x = name \<and> dl_shape x = t_shape new \<and> dl_dtype x = dt_name (t_dtype new)
     \<and> dl_locations x = map int (filter (\<lambda>j. t_bits new ! j \<noteq> t_bits old ! j) [0..<length (t_bits new)])
     \<and> dl_values x = (dt_size (t_dtype new), map (\<lambda>j. case dl_op x of Xor \<Rightarrow> t_bits new ! j XOR t_bits old ! j | Overwrite \<Rightarrow> t_bits new ! j)
          (filter (\<lambda>j. t_bits new ! j \<noteq> t_bits old ! j) [0..<length (t_bits new)]))
     \<and> (\<forall>r. dl_run x = Some r \<longrightarrow> dl_locations x = map (\<lambda>k. r + int k) [0..<length (dl_locations x)])"


section \<open>From a delta to a weight\<close>

lemma fold_scatter:
  "length (fold (\<lambda>(l, v) src. src[nat l := v]) (zip (map int ks) (map f ks)) src) = length src
   \<and> (j < length src \<longrightarrow> fold (\<lambda>(l, v) src. src[nat l := v]) (zip (map int ks) (map f ks)) src ! j = (if j \<in> set ks then f j else src ! j))"
  by (induction ks arbitrary: src) (auto simp: nth_list_update)

lemma run_locations:
  assumes "map int ks = map (\<lambda>k. r + int k) [0..<length ks]" and "ks \<noteq> []"
  shows "0 \<le> r" "ks = [nat r..<nat r + length ks]"
proof -
  have nth: "int (ks ! k) = r + int k" if "k < length ks" for k
    using arg_cong[OF assms(1), of "\<lambda>xs. xs ! k"] that by simp
  from nth[of 0] assms(2) show r: "0 \<le> r" by (cases ks) auto
  show "ks = [nat r..<nat r + length ks]"
    by (rule nth_equalityI) (use nth r in \<open>auto simp: nat_add_distrib intro!: int_int_eq[THEN iffD1]\<close>)
qed

lemma scatter_values_delta:
  assumes "fst (dl_values x) = dt_size d" and ks: "ks = filter P [0..<length src]"
    and "dl_locations x = map int ks" "snd (dl_values x) = map f ks"
    and run: "\<forall>r. dl_run x = Some r \<longrightarrow> dl_locations x = map (\<lambda>k. r + int k) [0..<length (dl_locations x)]" and ne: "ks \<noteq> []"
  shows "\<exists>src'. scatter_values d x src = Inr src' \<and> length src' = length src
    \<and> (\<forall>j < length src. src' ! j = (if P j then f j else src ! j))"
proof (cases "dl_run x")
  case None
  have "scatter_values d x src = Inr (fold (\<lambda>(l, v) src. src[nat l := v]) (zip (map int ks) (map f ks)) src)"
    using assms(1,3,4) ks None by (auto simp: scatter_values_def Let_def list_all_iff)
  with fold_scatter[of ks f src] ks show ?thesis by auto
next
  case (Some r)
  with run assms(3) have r: "0 \<le> r" "ks = [nat r..<nat r + length ks]"
    using run_locations[of ks r] ne by auto
  have nth: "ks ! k = nat r + k" if "k < length ks" for k
    using that r(2) nth_upt[of "nat r" k "nat r + length ks"] by (metis add_less_cancel_left)
  have last: "nat r + length ks \<le> length src"
  proof -
    have k: "length ks - 1 < length ks" using ne by (cases ks) auto
    have "ks ! (length ks - 1) < length src" using nth_mem[OF k] by (simp add: ks)
    with nth[OF k] k show ?thesis by simp
  qed
  then have sc: "scatter_values d x src = Inr (take (nat r) src @ map f ks @ drop (nat r + length ks) src)"
    using assms(1,4) Some r(1) by (auto simp: scatter_values_def Let_def)
  have P: "P j \<longleftrightarrow> nat r \<le> j \<and> j < nat r + length ks" if "j < length src" for j
  proof -
    have "P j \<longleftrightarrow> j \<in> set ks" using that by (simp add: ks)
    also have "\<dots> \<longleftrightarrow> j \<in> set [nat r..<nat r + length ks]" using r(2) by simp
    finally show ?thesis by simp
  qed
  have "(take (nat r) src @ map f ks @ drop (nat r + length ks) src) ! j = (if P j then f j else src ! j)" if j: "j < length src" for j
    using P[OF j] last j nth[of "j - nat r"] by (auto simp: nth_append min_def)
  with sc last show ?thesis by auto
qed

lemma prepare_delta:
  assumes delta: "delta_between old new name x" and new: "tensor_ok T new" and ne: "dl_locations x \<noteq> []"
    and prep: "prepare_loader_weight T x = Inr w"
    and nan: "dl_op x = Overwrite \<and> dt_size (t_dtype new) \<noteq> 1 \<longrightarrow>
      tt_isnan T (t_dtype new) (tt_nan T (t_dtype new))
      \<and> (\<forall>j < length (t_bits new). t_bits new ! j \<noteq> t_bits old ! j \<longrightarrow> \<not> tt_isnan T (t_dtype new) (t_bits new ! j))"
  shows "w_name w = name" "w_dtype w = t_dtype new" "w_op w = dl_op x"
    "j < length (t_bits new) \<Longrightarrow> dl_op x = Xor \<Longrightarrow> w_source w ! j = t_bits new ! j XOR t_bits old ! j"
    "j < length (t_bits new) \<Longrightarrow> dl_op x = Overwrite \<Longrightarrow> takes T w (w_source w ! j) = (t_bits new ! j \<noteq> t_bits old ! j)"
    "j < length (t_bits new) \<Longrightarrow> dl_op x = Overwrite \<Longrightarrow> t_bits new ! j \<noteq> t_bits old ! j \<Longrightarrow> w_source w ! j = t_bits new ! j"
proof -
  let ?d = "t_dtype new" and ?n = "length (t_bits new)" and ?P = "\<lambda>j. t_bits new ! j \<noteq> t_bits old ! j"
  let ?ks = "filter ?P [0..<?n]"
  have src: "source_tensor T (dl_shape x) (dl_dtype x) = Inr (?d, ?n)"
    using delta new by (auto simp: delta_between_def tensor_ok_def source_tensor_def dtype_from_name_def integer_dtype_for_element_size_def)
  from prep src obtain src0 z s where s0: "(case dl_op x of
            Xor \<Rightarrow> Inr (replicate ?n 0, None)
          | Overwrite \<Rightarrow>
              (if \<not> dt_float ?d then Inl RuntimeError
               else if dt_size ?d = 1 \<and> ?n = 0 then Inl IndexError
               else if dt_size ?d = 1 then
                 let z = tt_nan T ?d; vals = set (snd (dl_values x)) in
                   if z \<notin> vals then Inr (replicate ?n z, Some z)
                   else if z XOR 0x80 \<in> vals then Inl RuntimeError
                   else Inr (replicate ?n (z XOR 0x80), Some (z XOR 0x80))
               else Inr (replicate ?n (tt_nan T ?d), None))) = Inr (src0, z)"
    and sc: "scatter_values ?d x src0 = Inr s"
    and w: "w = \<lparr>w_name = dl_name x, w_dtype = ?d, w_source = s, w_op = dl_op x, w_sentinel = z\<rparr>"
    unfolding prepare_loader_weight_def bindR_Inr by (auto simp: bindR_Inr)
  have len: "length src0 = ?n" using s0 by (auto split: sparse_op.splits if_splits simp: Let_def)
  let ?f = "\<lambda>j. case dl_op x of Xor \<Rightarrow> t_bits new ! j XOR t_bits old ! j | Overwrite \<Rightarrow> t_bits new ! j"
  have ks: "?ks \<noteq> []" using delta ne by (auto simp: delta_between_def)
  have s: "j < ?n \<Longrightarrow> s ! j = (if ?P j then ?f j else src0 ! j)" for j
    using scatter_values_delta[where d = "?d" and x = x and P = ?P and src = src0 and ks = ?ks and f = ?f] delta sc len ks
    by (auto simp: delta_between_def)
  show "w_name w = name" "w_dtype w = ?d" "w_op w = dl_op x" using w delta by (auto simp: delta_between_def)
  show "j < ?n \<Longrightarrow> dl_op x = Xor \<Longrightarrow> w_source w ! j = t_bits new ! j XOR t_bits old ! j"
    using s[of j] s0 by (auto simp: w)
  show "j < ?n \<Longrightarrow> dl_op x = Overwrite \<Longrightarrow> ?P j \<Longrightarrow> w_source w ! j = t_bits new ! j"
    using s[of j] by (simp add: w)
  show "takes T w (w_source w ! j) = ?P j" if j: "j < ?n" and ow: "dl_op x = Overwrite"
  proof (cases "dt_size ?d = 1")
    case True
    have vals: "t_bits new ! j \<in> set (snd (dl_values x))" if "?P j"
      using that j delta ow by (auto simp: delta_between_def)
    show ?thesis
      using s[OF j] s0 ow True j vals by (auto simp: w takes_def Let_def split: if_splits)
  next
    case False
    then show ?thesis using s[OF j] s0 ow j nan False by (auto simp: w takes_def split: if_splits)
  qed
qed


section \<open>Applying deltas\<close>

text \<open>What is asked of PyTorch: a conversion to the same type is the identity, and a not-a-number is one.\<close>

definition torch_ok :: "torch \<Rightarrow> bool" where
  "torch_ok T \<longleftrightarrow> (\<forall>d x. tt_convert T d d x = x) \<and> (\<forall>d. tt_isnan T d (tt_nan T d))"

text \<open>An overwrite of elements of more than one byte reads a new not-a-number as \<open>unchanged\<close>.\<close>

definition carries :: "torch \<Rightarrow> sparse_op \<Rightarrow> tensor \<Rightarrow> tensor \<Rightarrow> bool" where
  "carries T op old new \<longleftrightarrow> op = Xor \<or> dt_size (t_dtype new) = 1 \<or>
     (\<forall>j < length (t_bits new). t_bits new ! j \<noteq> t_bits old ! j \<longrightarrow> \<not> tt_isnan T (t_dtype new) (t_bits new ! j))"

definition same_type :: "tensor \<Rightarrow> tensor \<Rightarrow> bool" where
  "same_type t t' \<longleftrightarrow> t_dtype t = t_dtype t' \<and> t_shape t = t_shape t'"

lemma apply_delta_holds:
  assumes T: "torch_ok T" and holds: "holds T L W (mem s)"
    and delta: "delta_between (W name) new name x" "dl_locations x \<noteq> []" and types: "same_type (W name) new" "tensor_ok T new"
    and carries: "carries T (dl_op x) (W name) new"
    and range: "\<And>a j e. L a = Some (name, j, e) \<Longrightarrow> j < length (t_bits new)"
    and loader: "loader_follows L targets name (t_dtype new) (loader name)"
    and run: "prepare_loader_weight T x = Inr w" "load_weight T targets loader w s = (s', Inr ob)"
  shows "holds T L (W(name := new)) (mem s')"
  unfolding holds_def
proof (intro allI impI)
  fix a n j e assume La: "L a = Some (n, j, e)"
  have nan: "dl_op x = Overwrite \<and> dt_size (t_dtype new) \<noteq> 1 \<longrightarrow> tt_isnan T (t_dtype new) (tt_nan T (t_dtype new))
      \<and> (\<forall>j < length (t_bits new). t_bits new ! j \<noteq> t_bits (W name) ! j \<longrightarrow> \<not> tt_isnan T (t_dtype new) (t_bits new ! j))"
    using T carries by (auto simp: torch_ok_def carries_def)
  note w = prepare_delta[OF delta(1) types(2) delta(2) run(1) nan]
  have follows: "loader_follows L targets (w_name w) (w_dtype w) (loader (w_name w))" using loader w(1,2) by simp
  note eff = load_weight_effect[OF follows run(2)]
  have old: "mem s a = tt_convert T (t_dtype (W n)) e (t_bits (W n) ! j)" using holds La unfolding holds_def by blast
  show "mem s' a = tt_convert T (t_dtype ((W(name := new)) n)) e (t_bits ((W(name := new)) n) ! j)"
  proof (cases "n = name")
    case False
    then show ?thesis using eff(1) La w(1) old by simp
  next
    case True
    have j: "j < length (t_bits new)" using range La True by blast
    have m: "mem s' a = new_bits T w j e (mem s a)" using eff(1) La w(1) True by simp
    have same: "t_dtype (W name) = t_dtype new" using types(1) by (simp add: same_type_def)
    have exact: "e = t_dtype new" if "dl_op x = Xor \<or> w_sentinel w \<noteq> None"
      using eff(2)[of a j e] that La True w(1,2,3) by simp
    have id: "tt_convert T (t_dtype new) (t_dtype new) b = b" for b using T by (simp add: torch_ok_def)
    show ?thesis
    proof (cases "dl_op x")
      case Xor
      then have "mem s' a = t_bits (W name) ! j XOR (t_bits new ! j XOR t_bits (W name) ! j)"
        using m w(3) w(4)[OF j] old exact id same True by (simp add: new_bits_def)
      then show ?thesis using exact Xor id True by (simp add: xor.left_commute)
    next
      case Overwrite
      show ?thesis
      proof (cases "t_bits new ! j = t_bits (W name) ! j")
        case True
        then have "mem s' a = mem s a" using m w(3) w(5)[OF j Overwrite] Overwrite by (simp add: new_bits_def)
        with old \<open>n = name\<close> True same show ?thesis by simp
      next
        case False
        then have "mem s' a = (case w_sentinel w of Some _ \<Rightarrow> t_bits new ! j | None \<Rightarrow> tt_convert T (t_dtype new) e (t_bits new ! j))"
          using m w(2,3) w(5)[OF j Overwrite] w(6)[OF j Overwrite] Overwrite
          by (simp add: new_bits_def split: option.split)
        with exact id \<open>n = name\<close> show ?thesis by (cases "w_sentinel w") auto
      qed
    qed
  qed
qed

text \<open>The receiver fits a set of tensors: its loader follows the layout, and it only skips what it does not hold.\<close>

definition applier_ok :: "torch \<Rightarrow> layout \<Rightarrow> (string \<Rightarrow> tensor) \<Rightarrow> applier \<Rightarrow> bool" where
  "applier_ok T L W a \<longleftrightarrow>
     (\<forall>n. n \<notin> set (ap_skipped a) \<longrightarrow> loader_follows L (ap_targets a) n (t_dtype (W n)) (ap_loader a n))
     \<and> (\<forall>x n j e. L x = Some (n, j, e) \<longrightarrow> n \<notin> set (ap_skipped a) \<and> j < length (t_bits (W n)))"

definition delta_ok :: "torch \<Rightarrow> (string \<Rightarrow> tensor) \<Rightarrow> (string \<Rightarrow> tensor) \<Rightarrow> delta \<Rightarrow> bool" where
  "delta_ok T W W' x \<longleftrightarrow> delta_between (W (dl_name x)) (W' (dl_name x)) (dl_name x) x \<and> dl_locations x \<noteq> []
     \<and> carries T (dl_op x) (W (dl_name x)) (W' (dl_name x))"

definition mixed :: "string set \<Rightarrow> (string \<Rightarrow> tensor) \<Rightarrow> (string \<Rightarrow> tensor) \<Rightarrow> string \<Rightarrow> tensor" where
  "mixed N W' W = (\<lambda>n. if n \<in> N then W' n else W n)"

lemma load_deltas_hold:
  assumes T: "torch_ok T" and ap: "applier_ok T L W a" and types: "\<And>n. same_type (W n) (W' n) \<and> tensor_ok T (W n) \<and> tensor_ok T (W' n)"
    and ds: "list_all (delta_ok T W W') ds" "distinct (map dl_name ds)" "set (map dl_name ds) \<inter> set (ap_skipped a) = {}"
    and N: "N \<inter> set (map dl_name ds) = {}" and holds: "holds T L (mixed N W' W) (mem s)"
    and run: "load_weights T (ap_targets a) (ap_loader a) (map (prepare_loader_weight T) ds) s = (s', Inr obs)"
  shows "holds T L (mixed (N \<union> set (map dl_name ds)) W' W) (mem s')"
  using ds N holds run
proof (induction ds arbitrary: N s obs)
  case (Cons x ds)
  let ?n = "dl_name x"
  from Cons.prems(6) obtain w s1 ob obs' where w: "prepare_loader_weight T x = Inr w"
    "load_weight T (ap_targets a) (ap_loader a) w s = (s1, Inr ob)"
    "load_weights T (ap_targets a) (ap_loader a) (map (prepare_loader_weight T) ds) s1 = (s', Inr obs')"
    by (cases "prepare_loader_weight T x") (auto split: prod.splits sum.splits)
  have mix: "mixed N W' W ?n = W ?n" "(mixed N W' W)(?n := W' ?n) = mixed (insert ?n N) W' W"
    using Cons.prems(4) by (auto simp: mixed_def fun_eq_iff)
  have x: "delta_between (W ?n) (W' ?n) ?n x" "dl_locations x \<noteq> []" "carries T (dl_op x) (W ?n) (W' ?n)"
    using Cons.prems(1) by (auto simp: delta_ok_def)
  have len: "length (t_bits (W n)) = length (t_bits (W' n))" for n
    using types[of n] by (simp add: tensor_ok_def same_type_def)
  have "?n \<notin> set (ap_skipped a)" using Cons.prems(3) by auto
  then have fol: "loader_follows L (ap_targets a) ?n (t_dtype (W' ?n)) (ap_loader a ?n)"
    using ap types[of ?n] by (auto simp: applier_ok_def same_type_def)
  have range: "j < length (t_bits (W' ?n))" if "L b = Some (?n, j, e)" for b j e
    using ap that unfolding len[symmetric] applier_ok_def by blast
  have "holds T L ((mixed N W' W)(?n := W' ?n)) (mem s1)"
    by (rule apply_delta_holds[OF T Cons.prems(5) _ x(2) _ _ _ range fol w(1,2)]) (use x types[of ?n] mix in auto)
  then have "holds T L (mixed (insert ?n N) W' W) (mem s1)" using mix(2) by simp
  from Cons.IH[OF _ _ _ _ this w(3)] Cons.prems show ?case by auto
qed simp


section \<open>Applying payloads\<close>

lemma receive_name: "receive_item p it = Inr x \<Longrightarrow> dl_name x = si_name it"
  by (auto simp: receive_item_def bindR_Inr split: if_splits)

lemma weights_of_received:
  assumes "list_all2 (\<lambda>p ds. received p = Inr ds) ps dss"
  shows "weights_of T skipped ps = map (prepare_loader_weight T) (filter (\<lambda>x. dl_name x \<notin> set skipped) (concat dss))"
proof -
  have one: "map (\<lambda>it. bindR (receive_item p it) f) (filter (\<lambda>it. si_name it \<notin> S) its) = map f (filter (\<lambda>x. dl_name x \<notin> S) ds)"
    if "map (receive_item p) its = map Inr ds" for p its ds f and S :: "string set"
    using that
  proof (induction its arbitrary: ds)
    case (Cons it its)
    then obtain x xs where "ds = x # xs" "receive_item p it = Inr x" "map (receive_item p) its = map Inr xs"
      by (auto simp: Cons_eq_map_conv)
    with Cons.IH[of xs] receive_name[of p it x] show ?case by simp
  qed simp
  from assms show ?thesis
    by (induction rule: list_all2_induct) (simp_all add: weights_of_def received_def map_mapR one)
qed

lemma apply_payloads_holds:
  assumes T: "torch_ok T" and ap: "applier_ok T L W a" and types: "\<And>n. same_type (W n) (W' n) \<and> tensor_ok T (W n) \<and> tensor_ok T (W' n)"
    and wire: "list_all2 (\<lambda>p ds. received p = Inr ds) ps dss"
    and ds: "list_all (delta_ok T W W') (concat dss)" "distinct (map dl_name (concat dss))"
    and rest: "\<And>n. n \<notin> dl_name ` set (concat dss) \<Longrightarrow> W' n = W n"
    and holds: "holds T L W m" and run: "apply_payloads T a ps m = (m', Inr ())"
  shows "holds T L W' m'"
proof -
  let ?ds = "filter (\<lambda>x. dl_name x \<notin> set (ap_skipped a)) (concat dss)"
  from run obtain s obs where s: "load_weights T (ap_targets a) (ap_loader a) (map (prepare_loader_weight T) ?ds) (new_load_state m) = (s, Inr obs)"
    "m' = mem s"
    unfolding apply_payloads_def weights_of_received[OF wire] by (auto split: prod.splits sum.splits)
  have "mixed {} W' W = W" by (simp add: mixed_def)
  then have h0: "holds T L (mixed {} W' W) (mem (new_load_state m))" using holds by (simp add: new_load_state_def)
  have "holds T L (mixed ({} \<union> set (map dl_name ?ds)) W' W) (mem s)"
    by (rule load_deltas_hold[OF T ap types _ _ _ _ h0 s(1)]) (use ds in \<open>auto simp: list_all_iff distinct_map_filter\<close>)
  moreover have "mixed (set (map dl_name ?ds)) W' W n = W' n" if "L b = Some (n, j, e)" for b n j e
  proof -
    have "n \<notin> set (ap_skipped a)" using ap that unfolding applier_ok_def by blast
    then have "n \<in> set (map dl_name ?ds) \<longleftrightarrow> n \<in> dl_name ` set (concat dss)" by force
    with rest[of n] show ?thesis unfolding mixed_def by argo
  qed
  ultimately show ?thesis unfolding holds_def s(2) by (metis sup_bot_left)
qed

section \<open>The dry run\<close>

lemma compatible_before:
  assumes "copy_loop T targets w cs s = (s', r)" and "xor_compatible s'"
  shows "xor_compatible s"
proof -
  have observe: "xor_compatible (snd (observe_xor_copy c s)) \<Longrightarrow> xor_compatible s" for c s
    by (auto simp: observe_xor_copy_def Let_def split: if_splits)
  have overwrite: "overwrite_copy T w c s = Inr s' \<Longrightarrow> xor_compatible s' = xor_compatible s" for c s s'
    by (auto simp: overwrite_copy_def Let_def split: option.splits if_splits)
  have dispatch: "xor_compatible s" if "dispatch_copy T targets w c s = (s1, r)" "xor_compatible s1" for c s s1 r
    using that observe[of c "s\<lparr>copies := copies s + 1\<rparr>"] overwrite[of c]
    by (auto simp: dispatch_copy_def xor_copy_def Let_def split: if_splits prod.splits sparse_op.splits sum.splits)
  from assms show ?thesis
    by (induction cs arbitrary: s) (auto split: prod.splits sum.splits dest: dispatch)
qed

lemma observed_compatible:
  assumes "copy_loop T targets w cs s = (s', Inr ())" and "xor_compatible s'"
    and "w_op w' = Xor" and "xor_spans t = xor_spans s"
  shows "\<exists>t'. copy_loop T targets w' cs t = (t', Inr ())"
  using assms
proof (induction cs arbitrary: s t)
  case (Cons c cs)
  from Cons.prems(1) obtain s1 where d: "dispatch_copy T targets w c s = (s1, Inr ())" and rest: "copy_loop T targets w cs s1 = (s', Inr ())"
    by (auto split: prod.splits sum.splits)
  show ?case
  proof (cases "v_storage (c_view c) \<in> targets")
    case False
    with d have "s1 = s" "dispatch_copy T targets w' c t = (t, Inr ())" by (auto simp: dispatch_copy_def)
    with Cons.IH[of s t] Cons.prems rest show ?thesis by simp
  next
    case True
    obtain z s0 where o: "observe_xor_copy c (s\<lparr>copies := copies s + 1\<rparr>) = (z, s0)" by (metis prod.collapse)
    have s1: "xor_compatible s1 = xor_compatible s0 \<and> xor_spans s1 = xor_spans s0"
      using d o True
      by (auto simp: dispatch_copy_def overwrite_copy_def xor_copy_def Let_def split: if_splits sparse_op.splits sum.splits option.splits)
    have "xor_compatible s0" using compatible_before[OF rest Cons.prems(2)] s1 by simp
    then have z: z using o by (auto simp: observe_xor_copy_def Let_def split: if_splits)
    obtain t0 where t: "observe_xor_copy c (t\<lparr>copies := copies t + 1\<rparr>) = (True, t0)" "xor_spans t0 = xor_spans s0"
      using o z Cons.prems(4) by (auto simp: observe_xor_copy_def Let_def spans_of_def split: if_splits)
    then have "dispatch_copy T targets w' c t = (xor_copy w' c t0, Inr ())"
      using True Cons.prems(3) by (simp add: dispatch_copy_def)
    moreover have "xor_spans (xor_copy w' c t0) = xor_spans s1" using t(2) s1 by (simp add: xor_copy_def Let_def)
    ultimately show ?thesis using Cons.IH[OF rest Cons.prems(2,3), of "xor_copy w' c t0"] by simp
  qed
qed simp

lemma load_weight_xor_ready:
  assumes "load_weight T targets loader w s = (s', Inr (n, k, True))" and "w_op w' = Xor" and "w_name w' = w_name w"
  shows "\<exists>t' ob. load_weight T targets loader w' t = (t', Inr ob)"
proof -
  from assms(1) have "copy_loop T targets w (loader (w_name w)) (start_weight s) = (s', Inr ())" "xor_compatible s'"
    by (auto simp: load_weight_def split: prod.splits sum.splits)
  from observed_compatible[OF this assms(2), of "start_weight t"] assms(3) show ?thesis
    by (auto simp: load_weight_def start_weight_def)
qed

text \<open>A weight of not-a-numbers changes nothing.\<close>

definition blank :: "torch \<Rightarrow> (string \<Rightarrow> tensor) \<Rightarrow> weight \<Rightarrow> bool" where
  "blank T W w \<longleftrightarrow> w_op w = Overwrite \<and> w_dtype w = t_dtype (W (w_name w)) \<and> length (w_source w) = length (t_bits (W (w_name w)))
     \<and> list_all (\<lambda>x. \<not> takes T w x) (w_source w)"

lemma load_blank:
  assumes "blank T W w" and "loader_follows L targets (w_name w) (t_dtype (W (w_name w))) (loader (w_name w))"
    and "\<And>a j e. L a = Some (w_name w, j, e) \<Longrightarrow> j < length (t_bits (W (w_name w)))"
    and "load_weight T targets loader w s = (s', Inr ob)"
  shows "mem s' = mem s"
proof
  fix a
  have follows: "loader_follows L targets (w_name w) (w_dtype w) (loader (w_name w))" using assms(1,2) by (simp add: blank_def)
  have "new_bits T w j e x = x" if "L a = Some (w_name w, j, e)" for j e x
    using assms(1) assms(3)[OF that] by (auto simp: blank_def new_bits_def list_all_length)
  then show "mem s' a = mem s a"
    using load_weight_effect(1)[OF follows assms(4), of a] by (auto split: option.splits)
qed


lemma copies_counted:
  assumes "copy_loop T targets w cs s = (s', Inr ())"
  shows "copies s' = copies s + length (filter (\<lambda>c. v_storage (c_view c) \<in> targets) cs)"
  using assms
proof (induction cs arbitrary: s)
  case (Cons c cs)
  have overwrite: "overwrite_copy T w c s = Inr s' \<Longrightarrow> copies s' = copies s" for s s'
    by (auto simp: overwrite_copy_def Let_def split: option.splits if_splits)
  from Cons.prems obtain s1 where d: "dispatch_copy T targets w c s = (s1, Inr ())" and rest: "copy_loop T targets w cs s1 = (s', Inr ())"
    by (auto split: prod.splits sum.splits)
  have "copies s1 = copies s + (if v_storage (c_view c) \<in> targets then 1 else 0)"
    using d observe_fields(3)[of c "s\<lparr>copies := copies s + 1\<rparr>"] overwrite
    by (auto simp: dispatch_copy_def xor_copy_def Let_def split: if_splits prod.splits sparse_op.splits sum.splits)
  with Cons.IH[OF rest] show ?case by simp
qed simp

lemma no_target_copies: "\<forall>c\<in>set cs. v_storage (c_view c) \<notin> targets \<Longrightarrow> copy_loop T targets w cs s = (s, Inr ())"
  by (induction cs) (simp_all add: dispatch_copy_def)

lemma load_weight_xor:
  assumes "load_weight T targets loader w s = (s', Inr (n, k, x))" and "k = 0 \<or> x" and "w_op w' = Xor" and "w_name w' = w_name w"
  shows "\<exists>t' ob. load_weight T targets loader w' t = (t', Inr ob)"
proof (cases x)
  case True
  with assms load_weight_xor_ready[of T targets loader w s s' n k w' t] show ?thesis by simp
next
  case False
  then have "copy_loop T targets w (loader (w_name w)) (start_weight s) = (s', Inr ())" "copies s' = 0"
    using assms(1,2) by (auto simp: load_weight_def split: prod.splits sum.splits)
  from copies_counted[OF this(1)] this(2) have "\<forall>c\<in>set (loader (w_name w)). v_storage (c_view c) \<notin> targets"
    by (simp add: filter_empty_conv)
  from no_target_copies[OF this] assms(4) show ?thesis by (auto simp: load_weight_def)
qed

lemma discover_weight_blank:
  assumes "torch_ok T" and "tensor_ok T (W n)" and "discover_weight T (n, t_shape (W n), t_dtype (W n)) = Inr w"
  shows "blank T W w" "w_name w = n"
proof -
  have "source_tensor T (t_shape (W n)) (dt_name (t_dtype (W n))) = Inr (t_dtype (W n), length (t_bits (W n)))"
    using assms(2) by (auto simp: tensor_ok_def source_tensor_def dtype_from_name_def integer_dtype_for_element_size_def)
  with assms show "blank T W w" "w_name w = n"
    by (auto simp: discover_weight_def blank_def takes_def torch_ok_def list_all_iff split: if_splits)
qed

lemma load_blanks:
  assumes T: "torch_ok T" and fol: "\<And>n. loader_follows L targets n (t_dtype (W n)) (loader n)"
    and range: "\<forall>a n j e. L a = Some (n, j, e) \<longrightarrow> j < length (t_bits (W n))" and ok: "\<forall>n\<in>set names. tensor_ok T (W n)"
    and run: "load_weights T targets loader (map (\<lambda>n. discover_weight T (n, t_shape (W n), t_dtype (W n))) names) s = (s', Inr obs)"
  shows "mem s' = mem s \<and> map fst obs = names
    \<and> (\<forall>(n, k, x)\<in>set obs. k = 0 \<longrightarrow> (\<forall>a j e. L a \<noteq> Some (n, j, e)))
    \<and> (\<forall>(n, k, x)\<in>set obs. k = 0 \<or> x \<longrightarrow> (\<forall>w t. w_op w = Xor \<and> w_name w = n \<longrightarrow>
          (\<exists>t' ob. load_weight T targets loader w t = (t', Inr ob))))"
  using ok run
proof (induction names arbitrary: s obs)
  case (Cons n names)
  from Cons.prems(2) obtain w s1 ob obs' where w: "discover_weight T (n, t_shape (W n), t_dtype (W n)) = Inr w"
    "load_weight T targets loader w s = (s1, Inr ob)" "obs = ob # obs'"
    "load_weights T targets loader (map (\<lambda>n. discover_weight T (n, t_shape (W n), t_dtype (W n))) names) s1 = (s', Inr obs')"
    by (cases "discover_weight T (n, t_shape (W n), t_dtype (W n))") (auto split: prod.splits sum.splits)
  note b = discover_weight_blank[where W = W and n = n, OF T _ w(1)]
  have "blank T W w" "w_name w = n" using b Cons.prems(1) by simp_all
  then have m: "mem s1 = mem s"
    using load_blank[OF _ _ _ w(2), of W L] fol range by blast
  obtain k x where ob: "ob = (n, k, x)" using w(2) \<open>w_name w = n\<close> by (auto simp: load_weight_def split: prod.splits sum.splits)
  have zero: "L a \<noteq> Some (n, j, e)" if "k = 0" for a j e
  proof -
    from w(2) ob that \<open>w_name w = n\<close> have "copy_loop T targets w (loader n) (start_weight s) = (s1, Inr ())" "copies s1 = 0"
      by (auto simp: load_weight_def split: prod.splits sum.splits)
    from copies_counted[OF this(1)] this(2) have "touched targets (loader n) = {}" by (auto simp: touched_def filter_empty_conv)
    with touched_iff[OF fol, of a n] show ?thesis by simp
  qed
  have ready: "\<exists>t' ob. load_weight T targets loader w' t = (t', Inr ob)" if "k = 0 \<or> x" "w_op w' = Xor" "w_name w' = n" for w' t
    by (rule load_weight_xor[of T targets loader w s s1 n k x]) (use w(2) ob that \<open>w_name w = n\<close> in simp_all)
  have IH: "mem s' = mem s1 \<and> map fst obs' = names
    \<and> (\<forall>(n, k, x)\<in>set obs'. k = 0 \<longrightarrow> (\<forall>a j e. L a \<noteq> Some (n, j, e)))
    \<and> (\<forall>(n, k, x)\<in>set obs'. k = 0 \<or> x \<longrightarrow> (\<forall>w t. w_op w = Xor \<and> w_name w = n \<longrightarrow>
          (\<exists>t' ob. load_weight T targets loader w t = (t', Inr ob))))"
    using Cons.IH[OF _ w(4)] Cons.prems(1) by simp
  then show ?case using m ob w(3) zero ready by auto
qed simp


text \<open>The engine's loader follows the layout for every tensor.\<close>

definition engine_follows :: "layout \<Rightarrow> (string \<Rightarrow> tensor) \<Rightarrow> applier \<Rightarrow> bool" where
  "engine_follows L W a \<longleftrightarrow> (\<forall>n. loader_follows L (ap_targets a) n (t_dtype (W n)) (ap_loader a n))
     \<and> (\<forall>x n j e. L x = Some (n, j, e) \<longrightarrow> j < length (t_bits (W n)))"

text \<open>A small engine: one tensor in two pieces of a storage, the second one reversed, and one it does not use.\<close>

definition bf16 :: dtype where
  "bf16 = \<lparr>dt_name = ''bfloat16'', dt_size = 2, dt_float = True\<rparr>"

definition demo_torch :: torch where
  "demo_torch = \<lparr>tt_dtype = (\<lambda>n. if n = ''bfloat16'' then Some bf16 else None), tt_isnan = (\<lambda>d x. x = 0x7FC0),
     tt_nan = (\<lambda>d. 0x7FC0), tt_convert = (\<lambda>d e x. x)\<rparr>"

definition demo_layout :: layout where
  "demo_layout a = (if fst a = 0 \<and> snd a \<in> {0, 1} then Some (''a'', nat (snd a), bf16)
     else if fst a = 0 \<and> snd a \<in> {4, 6} then Some (''a'', if snd a = 4 then 3 else 2, bf16) else None)"

definition demo_loader :: "string \<Rightarrow> loader_copy list" where
  "demo_loader n = (if n = ''a'' then
     [\<lparr>c_view = \<lparr>v_storage = 0, v_offset = 0, v_dims = [(2, 1)]\<rparr>, c_dtype = bf16, c_source = Gather [0, 1], c_source_dtype = bf16\<rparr>,
      \<lparr>c_view = \<lparr>v_storage = 0, v_offset = 4, v_dims = [(2, 2)]\<rparr>, c_dtype = bf16, c_source = Gather [3, 2], c_source_dtype = bf16\<rparr>]
     else [])"

definition demo_applier :: applier where
  "demo_applier = \<lparr>ap_targets = {0}, ap_loader = demo_loader, ap_reports = (\<lambda>ns. Some 0), ap_skipped = []\<rparr>"

definition demo_tensors :: "bits list \<Rightarrow> string \<Rightarrow> tensor" where
  "demo_tensors vals n = \<lparr>t_dtype = bf16, t_shape = [4], t_bits = (if n = ''a'' then vals else [0, 0, 0, 0])\<rparr>"

lemma demo_addresses:
  "addresses \<lparr>v_storage = 0, v_offset = 0, v_dims = [(2, 1)]\<rparr> = [(0, 0), (0, 1)]"
  "addresses \<lparr>v_storage = 0, v_offset = 4, v_dims = [(2, 2)]\<rparr> = [(0, 4), (0, 6)]"
  by code_simp+

lemma touched_simps:
  "touched targets [] = {}"
  "touched targets (c # cs) = (if v_storage (c_view c) \<in> targets then set (addresses (c_view c)) else {}) \<union> touched targets cs"
  by (auto simp: touched_def)

lemma all_two: "(\<forall>k < length [x, y]. P k) \<longleftrightarrow> P 0 \<and> P (Suc 0)"
  by (auto simp: less_Suc_eq)

lemma demo_follows: "loader_follows demo_layout {0} n bf16 (demo_loader n)"
proof (cases "n = ''a''")
  case True
  have "copy_follows demo_layout n bf16 c" if "c \<in> set (demo_loader n)" for c
  proof -
    from that True consider "c = demo_loader n ! 0" | "c = demo_loader n ! 1" by (auto simp: demo_loader_def)
    then show ?thesis
      by cases (simp_all add: True demo_loader_def copy_follows_def demo_addresses all_two[simplified] demo_layout_def bf16_def)
  qed
  moreover have "touched {0} (demo_loader n) = {(0, 0), (0, 1), (0, 4), (0, 6)}"
    using True by (simp add: touched_simps demo_loader_def demo_addresses insert_commute)
  moreover have "b \<in> {(0, 0), (0, 1), (0, 4), (0, 6)}" if "demo_layout b = Some (n, j, e)" for b j e
    using that by (cases b) (auto simp: demo_layout_def split: if_splits)
  ultimately show ?thesis unfolding loader_follows_def by blast
next
  case False
  then show ?thesis by (auto simp: loader_follows_def demo_loader_def demo_layout_def split: if_splits)
qed

lemma demo_engine:
  "torch_ok demo_torch" "length vals = 4 \<Longrightarrow> tensor_ok demo_torch (demo_tensors vals n)"
  "length vals = 4 \<Longrightarrow> engine_follows demo_layout (demo_tensors vals) demo_applier"
proof -
  show "torch_ok demo_torch" by (simp add: torch_ok_def demo_torch_def)
  show "length vals = 4 \<Longrightarrow> tensor_ok demo_torch (demo_tensors vals n)"
    by (simp add: tensor_ok_def demo_torch_def demo_tensors_def bf16_def)
  have ty: "t_dtype (demo_tensors vals n) = bf16" for n by (simp add: demo_tensors_def)
  have "j < length (t_bits (demo_tensors vals n))" if "length vals = 4" "demo_layout x = Some (n, j, e)" for x n j e
    using that by (cases x) (auto simp: demo_tensors_def demo_layout_def split: if_splits)
  then show "length vals = 4 \<Longrightarrow> engine_follows demo_layout (demo_tensors vals) demo_applier"
    using demo_follows unfolding engine_follows_def ty demo_applier_def by simp
qed

lemma dry_run_ok:
  assumes "torch_ok T" and "engine_follows L W a" and "list_all (\<lambda>n. tensor_ok T (W n)) names" and "ap_skipped a = []"
    and "discover_native_skips T (map (\<lambda>n. (n, t_shape (W n), t_dtype (W n))) names) a m = (m', Inr (a', overwrite))"
  shows "m' = m \<and> applier_ok T L W a' \<and>
    (\<forall>w s. w_op w = Xor \<and> w_name w \<in> set names \<and> dt_float (t_dtype (W (w_name w))) \<and> w_name w \<notin> set overwrite \<longrightarrow>
       (\<exists>s' ob. load_weight T (ap_targets a') (ap_loader a') w s = (s', Inr ob)))"
proof -
  have fol: "loader_follows L (ap_targets a) n (t_dtype (W n)) (ap_loader a n)" for n
    using assms(2) by (simp add: engine_follows_def)
  have range: "\<forall>x n j e. L x = Some (n, j, e) \<longrightarrow> j < length (t_bits (W n))"
    using assms(2) unfolding engine_follows_def by blast
  let ?fl = "filter (\<lambda>n. dt_float (t_dtype (W n))) names"
  have pend: "filter (\<lambda>(_, _, d). dt_float d) (map (\<lambda>n. (n, t_shape (W n), t_dtype (W n))) names)
      = map (\<lambda>n. (n, t_shape (W n), t_dtype (W n))) ?fl"
    by (simp add: filter_map comp_def)
  show ?thesis
  proof (cases "?fl = []")
    case True
    then have "m' = m" "a' = a" using assms(5) pend by (auto simp: discover_native_skips_def Let_def)
    moreover have "applier_ok T L W a" using fol range assms(4) unfolding applier_ok_def by simp
    ultimately show ?thesis using True by (auto simp: filter_empty_conv)
  next
    case False
    let ?obs = "\<lambda>obs. (if ap_reports a (map fst obs) = None then a
        else a\<lparr>ap_skipped := ap_skipped a @ map fst (filter (\<lambda>(_, n, _). n = 0) obs)\<rparr>)"
    from assms(5) False obtain s obs where s: "load_weights T (ap_targets a) (ap_loader a)
        (map (\<lambda>n. discover_weight T (n, t_shape (W n), t_dtype (W n))) ?fl) (new_load_state m) = (s, Inr obs)"
      "m' = mem s" "a' = ?obs obs" "overwrite = map fst (filter (\<lambda>(_, n, x). 0 < n \<and> \<not> x) obs)"
      unfolding discover_native_skips_def pend Let_def
      by (auto simp: comp_def bindR_Inr split: prod.splits sum.splits)
    have "\<forall>n\<in>set ?fl. tensor_ok T (W n)" using assms(3) by (simp add: list_all_iff)
    then have b: "mem s = mem (new_load_state m) \<and> map fst obs = ?fl
      \<and> (\<forall>(n, k, x)\<in>set obs. k = 0 \<longrightarrow> (\<forall>a j e. L a \<noteq> Some (n, j, e)))
      \<and> (\<forall>(n, k, x)\<in>set obs. k = 0 \<or> x \<longrightarrow> (\<forall>w t. w_op w = Xor \<and> w_name w = n \<longrightarrow>
          (\<exists>t' ob. load_weight T (ap_targets a) (ap_loader a) w t = (t', Inr ob))))"
      using load_blanks[OF assms(1) fol range _ s(1)] by blast
    have m: "m' = m" using b s(2) by (simp add: new_load_state_def)
    have skip: "L x \<noteq> Some (n, j, e)" if "n \<in> set (ap_skipped a')" for x n j e
    proof -
      from that s(3) assms(4) have "n \<in> set (map fst (filter (\<lambda>(_, n, _). n = 0) obs))"
        by (cases "ap_reports a (map fst obs)") simp_all
      then obtain z where "(n, 0, z) \<in> set obs" by auto
      with b show ?thesis by blast
    qed
    have same: "ap_targets a' = ap_targets a" "ap_loader a' = ap_loader a" using s(3) by simp_all
    have "applier_ok T L W a'"
      unfolding applier_ok_def same using fol range skip by blast
    moreover have "\<exists>s' ob. load_weight T (ap_targets a') (ap_loader a') w t = (s', Inr ob)"
      if "w_op w = Xor" "w_name w \<in> set names" "dt_float (t_dtype (W (w_name w)))" "w_name w \<notin> set overwrite" for w t
    proof -
      have "w_name w \<in> set (map fst obs)" using b that(2,3) by simp
      then obtain k x where o: "(w_name w, k, x) \<in> set obs" by auto
      have "k = 0 \<or> x"
      proof (rule ccontr)
        assume "\<not> (k = 0 \<or> x)"
        with o have "(w_name w, k, x) \<in> set (filter (\<lambda>(_, n, x). 0 < n \<and> \<not> x) obs)" by simp
        from imageI[OF this, of fst] that(4) show False unfolding s(4) by simp
      qed
      with b o that(1) show ?thesis unfolding same by blast
    qed
    ultimately show ?thesis using m by blast
  qed
qed

text \<open>
  The dry run that classifies the weights leaves the model untouched and classifies soundly: the
  receiver it prepares skips only tensors the model does not hold, and a floating-point tensor it does not
  name for overwriting can be loaded as an XOR from any state of the loader without an exception.
\<close>

theorem dry_run_classifies:
  assumes "torch_ok T" and "engine_follows L W a" and "list_all (\<lambda>n. tensor_ok T (W n)) names" and "ap_skipped a = []"
    and "discover_native_skips T (map (\<lambda>n. (n, t_shape (W n), t_dtype (W n))) names) a m = (m', Inr (a', overwrite))"
  shows "m' = m \<and> applier_ok T L W a' \<and>
    (\<forall>w s. w_op w = Xor \<and> w_name w \<in> set names \<and> dt_float (t_dtype (W (w_name w))) \<and> w_name w \<notin> set overwrite \<longrightarrow>
       (\<exists>s' ob. load_weight T (ap_targets a') (ap_loader a') w s = (s', Inr ob)))"
  by (rule dry_run_ok[OF assms])

theorem dry_run_classifies_witness:
  "fst (discover_native_skips demo_torch (map (\<lambda>n. (n, t_shape (demo_tensors [1, 2, 3, 4] n), t_dtype (demo_tensors [1, 2, 3, 4] n)))
       [''a'', ''b'']) demo_applier (\<lambda>_. 5)) = (\<lambda>_. 5)
   \<and> map_sum id (\<lambda>(a, overwrite). (ap_skipped a, overwrite))
       (snd (discover_native_skips demo_torch (map (\<lambda>n. (n, t_shape (demo_tensors [1, 2, 3, 4] n), t_dtype (demo_tensors [1, 2, 3, 4] n)))
         [''a'', ''b'']) demo_applier (\<lambda>_. 5))) = Inr ([''b''], [])"
proof -
  let ?W = "demo_tensors [1, 2, 3, 4]"
  let ?run = "discover_native_skips demo_torch (map (\<lambda>n. (n, t_shape (?W n), t_dtype (?W n))) [''a'', ''b'']) demo_applier (\<lambda>_. 5)"
  have r: "map_sum id (\<lambda>(a, overwrite). (ap_skipped a, overwrite)) (snd ?run) = Inr ([''b''], [])" by code_simp
  then obtain m a ow where run: "?run = (m, Inr (a, ow))" by (cases ?run; cases "snd ?run") auto
  have follows: "engine_follows demo_layout ?W demo_applier" by (rule demo_engine(3)) simp
  have ok: "list_all (\<lambda>n. tensor_ok demo_torch (?W n)) [''a'', ''b'']" by (simp add: demo_engine(2))
  have "ap_skipped demo_applier = []" by (simp add: demo_applier_def)
  from dry_run_classifies[OF demo_engine(1) follows ok this run] have "m = (\<lambda>_. 5)" by blast
  with r run show ?thesis by simp
qed

end
