(* ===== verification/Tracker.thy ===== *)
theory Tracker
  imports SparseApply "HOL-Library.AList"
begin

text \<open>
  The sending side of a sparse refit: the trainer's baseline and what it sends
  (\<open>DeltaCompressionTracker\<close> in \<open>nemo_rl/utils/weight_transfer_sparse_codec.py\<close>), and the pipeline that cuts the
  weights into chunks, encodes them and groups them into payloads (\<open>nemo_rl/utils/weight_transfer_stream.py\<close>).
  The order in which concurrent encoders finish is an argument; the baseline is kept in memory, and
  compression, serialisation and timings are left out.
\<close>

section \<open>The tracker\<close>

text \<open>An update of a tensor's baseline: the changed locations and their new bits.\<close>

type_synonym baseline = "(string \<times> tensor) list"
type_synonym update = "string \<times> int list \<times> bits list"

record tracker =
  tk_encoding :: sparse_op
  tk_overwrite :: "string list"
  tk_samples :: nat
  tk_bucket_bytes :: nat
  tk_baseline :: baseline
  tk_pending :: "(string \<times> int list \<times> bits list) list"
  tk_commits :: "update list list"

definition new_tracker :: "sparse_op \<Rightarrow> nat \<Rightarrow> nat \<Rightarrow> tracker" where
  "new_tracker encoding samples bucket_bytes =
     \<lparr>tk_encoding = encoding, tk_overwrite = [], tk_samples = samples, tk_bucket_bytes = bucket_bytes, tk_baseline = [],
      tk_pending = [], tk_commits = []\<rparr>"

text \<open>One update: a run of locations is copied as a block.\<close>

definition commit_bits :: "int list \<Rightarrow> bits list \<Rightarrow> bits list \<Rightarrow> bits list" where
  "commit_bits locs vals xs =
     (if last locs - locs ! 0 + 1 = int (length locs)
      then take (nat (locs ! 0)) xs @ vals @ drop (nat (locs ! 0) + length locs) xs
      else fold (\<lambda>(l, v) xs. xs[nat l := v]) (zip locs vals) xs)"

fun commit_baseline_updates :: "update list \<Rightarrow> baseline \<Rightarrow> baseline \<times> unit res" where
  "commit_baseline_updates [] base = (base, Inr ())"
| "commit_baseline_updates ((name, locs, vals) # us) base =
     (case map_of base name of
        None \<Rightarrow> (base, Inl KeyError)
      | Some t \<Rightarrow>
          (if locs = [] then (base, Inl IndexError)
           else commit_baseline_updates us (AList.update name (t\<lparr>t_bits := commit_bits locs vals (t_bits t)\<rparr>) base)))"

text \<open>
  The commits run in the background.  The baseline is only read after \<open>wait_for_baseline_commits\<close>, where the
  model runs them; tasks that are not waited for any more are not run at all.
\<close>

fun run_commits :: "update list list \<Rightarrow> baseline \<Rightarrow> baseline \<times> unit res" where
  "run_commits [] base = (base, Inr ())"
| "run_commits (us # cs) base =
     (case commit_baseline_updates us base of
        (base1, r) \<Rightarrow> case run_commits cs base1 of (base2, r') \<Rightarrow> (base2, bindR r (\<lambda>_. r')))"

definition wait_for_baseline_commits :: "tracker \<Rightarrow> tracker \<times> unit res" where
  "wait_for_baseline_commits tk =
     (case run_commits (tk_commits tk) (tk_baseline tk) of
        (base, Inl e) \<Rightarrow> (tk\<lparr>tk_baseline := base\<rparr>, Inl e)
      | (base, Inr _) \<Rightarrow> (tk\<lparr>tk_baseline := base, tk_commits := []\<rparr>, Inr ()))"

text \<open>
  A tensor against its baseline: what is sent and what is to be committed, or nothing when no element has
  changed.  A tensor keeps its type and size; another one is answered with an exception.
\<close>

definition prepare_tensor :: "tracker \<Rightarrow> string \<times> tensor \<Rightarrow> (sparse_info \<times> update) list res" where
  "prepare_tensor tk x =
     (case x of (name, t) \<Rightarrow> case map_of (tk_baseline tk) name of
        None \<Rightarrow> Inl RuntimeError
      | Some b \<Rightarrow>
          bindR (integer_view b) (\<lambda>(n, old). bindR (integer_view t) (\<lambda>(n', new).
            if n \<noteq> n' \<or> length old \<noteq> length new then Inl RuntimeError
            else
              let locs = filter (\<lambda>j. new ! j \<noteq> old ! j) [0..<length new];
                  op = (if name \<in> set (tk_overwrite tk) then Overwrite else tk_encoding tk);
                  vals = map (\<lambda>j. case op of Xor \<Rightarrow> new ! j XOR old ! j | Overwrite \<Rightarrow> new ! j) locs
              in Inr (if locs = [] then []
                      else [(\<lparr>in_name = name, in_tensor = t, in_locations = map int locs, in_values = (n', vals), in_op = op\<rparr>,
                             (name, map int locs, map (\<lambda>j. new ! j) locs))]))))"

text \<open>The verification samples are spread evenly over the changed elements of a payload.\<close>

definition item_size :: "sparse_item \<Rightarrow> nat" where
  "item_size it = value_end it - value_start it"

definition sample_ranks :: "nat \<Rightarrow> nat \<Rightarrow> nat list" where
  "sample_ranks whole k = map (\<lambda>i. ((2 * i + 1) * whole) div (2 * k)) [0..<k]"

fun assign_samples :: "nat list \<Rightarrow> nat \<Rightarrow> sparse_item list \<Rightarrow> sparse_item list" where
  "assign_samples ranks offset [] = []"
| "assign_samples ranks offset (it # its) =
     (let end' = offset + item_size it;
          samples = length (takeWhile (\<lambda>r. r < end') ranks)
      in (if samples > 0 then it\<lparr>si_samples := Some samples\<rparr> else it) # assign_samples (drop samples ranks) end' its)"

definition add_verification_samples :: "nat \<Rightarrow> sparse_item list \<Rightarrow> sparse_item list" where
  "add_verification_samples n its =
     (let whole = sum_list (map item_size its)
      in assign_samples (sample_ranks whole (min n whole)) 0 its)"

text \<open>A batch of tensors: the payload, the number of changed elements and of all.\<close>

definition prepare_sparse_delta_payload :: "(string \<times> tensor) list \<Rightarrow> tracker \<Rightarrow> tracker \<times> (payload \<times> nat \<times> nat) res" where
  "prepare_sparse_delta_payload tensors tk =
     (case wait_for_baseline_commits tk of
        (tk1, Inl e) \<Rightarrow> (tk1, Inl e)
      | (tk1, Inr _) \<Rightarrow>
          (case mapR (prepare_tensor tk1) tensors of
             Inl e \<Rightarrow> (tk1, Inl e)
           | Inr xss \<Rightarrow>
               (let xs = concat xss;
                    tk2 = tk1\<lparr>tk_pending := fold (\<lambda>(name, u). AList.update name u) (map snd xs) (tk_pending tk1)\<rparr>
                in (tk2, bindR (encode_sparse_infos (map fst xs)) (\<lambda>p.
                     Inr (if tk_samples tk2 > 0 then p\<lparr>pl_items := add_verification_samples (tk_samples tk2) (pl_items p)\<rparr> else p,
                          sum_list (map (\<lambda>x. length (in_locations (fst x))) xs),
                          sum_list (map (\<lambda>x. length (t_bits (snd x))) tensors)))))))"

definition on_sync_succeeded :: "tracker \<Rightarrow> tracker" where
  "on_sync_succeeded tk =
     (let items = tk_pending tk; workers = min 4 (length items)
      in tk\<lparr>tk_pending := [], tk_commits := map (\<lambda>w. stride w workers items) [0..<workers]\<rparr>)"

definition on_sync_failed :: "tracker \<Rightarrow> tracker" where
  "on_sync_failed tk = tk\<lparr>tk_pending := []\<rparr>"

text \<open>A snapshot copies the bytes into the baseline's tensor, which is made on the first time.\<close>

definition tensor_bytes :: "tensor \<Rightarrow> byte list" where
  "tensor_bytes t = concat (map (\<lambda>x. le_bytes (dt_size (t_dtype t)) (uint x)) (t_bits t))"

definition copy_bytes :: "byte list \<Rightarrow> tensor \<Rightarrow> tensor" where
  "copy_bytes bs t = t\<lparr>t_bits := map word_of_int (le_view (dt_size (t_dtype t)) bs)\<rparr>"

definition get_baseline :: "string \<Rightarrow> tensor \<Rightarrow> baseline \<Rightarrow> tensor" where
  "get_baseline name t base = (case map_of base name of Some b \<Rightarrow> b | None \<Rightarrow> t\<lparr>t_bits := replicate (prod_list (t_shape t)) 0\<rparr>)"

fun snapshot_tensors :: "(string \<times> tensor) list \<Rightarrow> baseline \<Rightarrow> baseline \<times> unit res" where
  "snapshot_tensors [] base = (base, Inr ())"
| "snapshot_tensors ((name, t) # ts) base =
     (let b = get_baseline name t base; base1 = AList.update name b base
      in if length (tensor_bytes b) \<noteq> length (tensor_bytes t) then (base1, Inl RuntimeError)
         else snapshot_tensors ts (AList.update name (copy_bytes (tensor_bytes t) b) base))"

definition snapshot_baseline :: "(string \<times> tensor) list \<Rightarrow> tracker \<Rightarrow> tracker \<times> unit res" where
  "snapshot_baseline tensors tk =
     (case wait_for_baseline_commits tk of
        (tk1, Inl e) \<Rightarrow> (tk1, Inl e)
      | (tk1, Inr _) \<Rightarrow> (case snapshot_tensors tensors (tk_baseline tk1) of (base, r) \<Rightarrow> (tk1\<lparr>tk_baseline := base\<rparr>, r)))"

section \<open>Chunks\<close>

text \<open>The tensors of a chunk, the one that did not fit, and those after it; \<open>sz\<close> is a tensor's size in bytes.\<close>

fun fill_chunk :: "('a \<Rightarrow> nat) \<Rightarrow> nat \<Rightarrow> 'a list \<Rightarrow> nat \<Rightarrow> 'a list \<Rightarrow> 'a list \<times> 'a list \<times> 'a list" where
  "fill_chunk sz target chunk bytes [] = (chunk, [], [])"
| "fill_chunk sz target chunk bytes (x # xs) =
     (if chunk \<noteq> [] \<and> target < bytes + sz x then (chunk, [x], xs)
      else if target \<le> bytes + sz x then (chunk @ [x], [], xs)
      else fill_chunk sz target (chunk @ [x]) (bytes + sz x) xs)"

lemma fill_chunk_parts: "fill_chunk sz target chunk bytes xs = (c, p, ys) \<Longrightarrow> c @ p @ ys = chunk @ xs \<and> (c = [] \<longrightarrow> p @ ys = [])"
  by (induction sz target chunk bytes xs rule: fill_chunk.induct) (auto split: if_splits)

lemma fill_chunk_shorter:
  assumes "fill_chunk sz target chunk bytes xs = (c, p, ys)" and "c \<noteq> []"
  shows "length p + length ys < length chunk + length xs"
proof -
  from fill_chunk_parts[OF assms(1)] have "length c + (length p + length ys) = length chunk + length xs"
    by (metis length_append)
  with assms(2) show ?thesis by (cases c) auto
qed

function weight_chunks :: "('a \<Rightarrow> nat) \<Rightarrow> nat \<Rightarrow> 'a list \<Rightarrow> 'a list \<Rightarrow> 'a list list" where
  "weight_chunks sz target pending xs =
     (case fill_chunk sz target pending (sum_list (map sz pending)) xs of
        (c, p, ys) \<Rightarrow> if c = [] then [] else c # weight_chunks sz target p ys)"
  by pat_completeness auto
termination
  by (relation "measure (\<lambda>(sz, target, pending, xs). length pending + length xs)") (auto dest: fill_chunk_shorter[OF sym])

declare weight_chunks.simps [simp del]

definition tensor_size :: "string \<times> tensor \<Rightarrow> nat" where
  "tensor_size x = length (t_bits (snd x)) * dt_size (t_dtype (snd x))"

definition iter_sparse_weight_chunks :: "nat \<Rightarrow> (string \<times> tensor) list \<Rightarrow> (string \<times> tensor) list list" where
  "iter_sparse_weight_chunks target xs = weight_chunks tensor_size target [] xs"

text \<open>The size of a chunk: as configured, but at most the engine's buffer for packed tensors and a bucket.\<close>

definition sparse_export_chunk_size :: "nat \<Rightarrow> nat option \<Rightarrow> tracker \<Rightarrow> nat" where
  "sparse_export_chunk_size requested packed tk =
     min (case packed of None \<Rightarrow> requested | Some b \<Rightarrow> min requested b) (tk_bucket_bytes tk)"

text \<open>The chunks a rank encodes.\<close>

definition own_chunks :: "nat \<Rightarrow> nat \<Rightarrow> nat \<Rightarrow> (string \<times> tensor) list \<Rightarrow> (string \<times> tensor) list list" where
  "own_chunks rank shards target xs = stride rank shards (iter_sparse_weight_chunks target xs)"

fun snapshot_chunks :: "(string \<times> tensor) list list \<Rightarrow> tracker \<Rightarrow> tracker \<times> unit res" where
  "snapshot_chunks [] tk = (tk, Inr ())"
| "snapshot_chunks (c # cs) tk =
     (case snapshot_baseline c tk of (tk1, Inl e) \<Rightarrow> (tk1, Inl e) | (tk1, Inr _) \<Rightarrow> snapshot_chunks cs tk1)"

definition init_sparse_delta_baseline :: "nat \<Rightarrow> nat \<Rightarrow> nat \<Rightarrow> (string \<times> tensor) list \<Rightarrow> tracker \<Rightarrow> tracker \<times> unit res" where
  "init_sparse_delta_baseline rank shards target xs tk = snapshot_chunks (own_chunks rank shards target xs) tk"

section \<open>Streaming\<close>

text \<open>
  All chunks are encoded, in whatever order they finish (\<open>order\<close>); an exception is raised after the others
  have been encoded.
\<close>

fun encode_chunks :: "(string \<times> tensor) list list \<Rightarrow> tracker \<Rightarrow> tracker \<times> (payload \<times> nat) list res" where
  "encode_chunks [] tk = (tk, Inr [])"
| "encode_chunks (c # cs) tk =
     (case prepare_sparse_delta_payload c tk of
        (tk1, r) \<Rightarrow> case encode_chunks cs tk1 of
          (tk2, r') \<Rightarrow> (tk2, bindR r (\<lambda>(p, _, _). bindR r' (\<lambda>ps. Inr ((p, sum_list (map tensor_size c)) # ps)))))"

definition arrange :: "nat list \<Rightarrow> 'a list \<Rightarrow> 'a list" where
  "arrange order xs = (if mset order = mset [0..<length xs] then pick xs order else xs)"

text \<open>The buckets: encoded chunks with a change, grouped up to a dense size.\<close>

fun bucket_payloads :: "nat \<Rightarrow> payload list \<Rightarrow> nat \<Rightarrow> (payload \<times> nat) list \<Rightarrow> payload list list" where
  "bucket_payloads limit bucket bytes [] = (if bucket = [] then [] else [bucket])"
| "bucket_payloads limit bucket bytes ((p, n) # ps) =
     (if pl_items p = [] then bucket_payloads limit bucket bytes ps
      else
        let full = (if bucket \<noteq> [] \<and> limit < bytes + n then [bucket] else []);
            bucket1 = (if full = [] then bucket else []) @ [p];
            bytes1 = (if full = [] then bytes else 0) + n
        in full @ (if limit \<le> bytes1 then bucket1 # bucket_payloads limit [] 0 ps
                   else bucket_payloads limit bucket1 bytes1 ps))"

text \<open>The payloads of a rank, numbered from 0.\<close>

definition stream_sparse_delta_payloads ::
  "nat \<Rightarrow> nat \<Rightarrow> nat \<Rightarrow> nat list \<Rightarrow> (string \<times> tensor) list \<Rightarrow> tracker \<Rightarrow> tracker \<times> payload list res" where
  "stream_sparse_delta_payloads rank shards target order xs tk =
     (case encode_chunks (own_chunks rank shards target xs) tk of
        (tk1, Inl e) \<Rightarrow> (tk1, Inl e)
      | (tk1, Inr ps) \<Rightarrow> (tk1, mapR merge_sparse_payloads (bucket_payloads (tk_bucket_bytes tk1) [] 0 (arrange order ps))))"


section \<open>Chunks cover the weights\<close>

lemma weight_chunks_concat: "concat (weight_chunks sz target p xs) = p @ xs"
proof (induction sz target p xs rule: weight_chunks.induct)
  case (1 sz target pending xs)
  obtain c p ys where f: "fill_chunk sz target pending (sum_list (map sz pending)) xs = (c, p, ys)" by (metis prod_cases3)
  note parts = fill_chunk_parts[OF f]
  show ?case
  proof (cases "c = []")
    case True
    with parts have "p @ ys = []" "pending @ xs = []" by (metis append_Nil)+
    with f True show ?thesis by (subst weight_chunks.simps) simp
  next
    case False
    with 1[OF f[symmetric] refl False] f parts show ?thesis by (subst weight_chunks.simps) simp
  qed
qed

lemma fill_chunk_bytes:
  assumes "fill_chunk sz target chunk bytes xs = (c, p, ys)" and "bytes = sum_list (map sz chunk)" "bytes \<le> target \<or> length chunk \<le> 1"
  shows "sum_list (map sz c) \<le> target \<or> length c \<le> 1"
  using assms by (induction sz target chunk bytes xs rule: fill_chunk.induct) (auto split: if_splits)

lemma fill_chunk_pending: "fill_chunk sz target chunk bytes xs = (c, p, ys) \<Longrightarrow> length p \<le> 1"
  by (induction sz target chunk bytes xs rule: fill_chunk.induct) (auto split: if_splits)

lemma weight_chunks_bounded:
  "length p \<le> 1 \<Longrightarrow> c \<in> set (weight_chunks sz target p xs) \<Longrightarrow> c \<noteq> [] \<and> (sum_list (map sz c) \<le> target \<or> length c = 1)"
proof (induction sz target p xs rule: weight_chunks.induct)
  case (1 sz target pending xs)
  obtain d p ys where f: "fill_chunk sz target pending (sum_list (map sz pending)) xs = (d, p, ys)" by (metis prod_cases3)
  have d: "sum_list (map sz d) \<le> target \<or> length d \<le> 1" using fill_chunk_bytes[OF f refl] "1.prems"(1) by blast
  from "1.prems"(2) have "d \<noteq> []" "c = d \<or> c \<in> set (weight_chunks sz target p ys)"
    by (subst (asm) weight_chunks.simps, simp add: f split: if_splits)+
  then show ?case
  proof (elim disjE)
    assume "c = d"
    with d \<open>d \<noteq> []\<close> show ?thesis by (cases d) auto
  next
    assume "c \<in> set (weight_chunks sz target p ys)"
    with "1.IH"[OF f[symmetric] refl \<open>d \<noteq> []\<close> fill_chunk_pending[OF f]] show ?thesis by blast
  qed
qed

text \<open>The cut depends on the sizes only.\<close>

lemma fill_chunk_map:
  "fill_chunk sz target (map f chunk) bytes (map f xs) =
     (case fill_chunk (\<lambda>x. sz (f x)) target chunk bytes xs of (c, p, ys) \<Rightarrow> (map f c, map f p, map f ys))"
proof (induction xs arbitrary: chunk bytes)
  case (Cons x xs)
  from Cons.IH[of "chunk @ [x]" "bytes + sz (f x)"] show ?case by (cases chunk) simp_all
qed simp

lemma weight_chunks_map:
  "weight_chunks sz target (map f p) (map f xs) = map (map f) (weight_chunks (\<lambda>x. sz (f x)) target p xs)"
proof (induction "\<lambda>x. sz (f x)" target p xs rule: weight_chunks.induct)
  case (1 target pending xs)
  obtain c p ys where f: "fill_chunk (\<lambda>x. sz (f x)) target pending (sum_list (map (\<lambda>x. sz (f x)) pending)) xs = (c, p, ys)"
    by (metis prod_cases3)
  show ?case
  proof (cases "c = []")
    case True
    with f show ?thesis by (simp add: weight_chunks.simps[of sz] weight_chunks.simps[of "\<lambda>x. sz (f x)"] fill_chunk_map comp_def)
  next
    case False
    with 1[OF f[symmetric] refl False] f show ?thesis
      by (simp add: weight_chunks.simps[of sz target "map f pending"] weight_chunks.simps[of "\<lambda>x. sz (f x)" target pending] fill_chunk_map comp_def)
  qed
qed

text \<open>
  The cut of the weights into chunks loses and repeats nothing: the chunks one after the other are the
  tensors, none is empty, and one is larger than the target only when it is a single tensor; among the
  ranks every chunk has exactly one owner.
\<close>

theorem chunks_cover_weights:
  "concat (iter_sparse_weight_chunks target xs) = xs
   \<and> list_all (\<lambda>c. c \<noteq> [] \<and> (target < sum_list (map tensor_size c) \<longrightarrow> length c = 1)) (iter_sparse_weight_chunks target xs)
   \<and> mset (concat (map (\<lambda>rank. own_chunks rank (Suc n) target xs) [0..<Suc n])) = mset (iter_sparse_weight_chunks target xs)"
  using weight_chunks_concat[of tensor_size target "[]" xs] weight_chunks_bounded[of "[]" _ tensor_size target xs]
    mset_strides[of "Suc n" "iter_sparse_weight_chunks target xs"]
  by (fastforce simp: iter_sparse_weight_chunks_def own_chunks_def list_all_iff)

theorem chunks_cover_weights_witness:
  "concat (iter_sparse_weight_chunks 4 [(''a'', \<lparr>t_dtype = bf16, t_shape = [3], t_bits = [1, 2, 3]\<rparr>), (''b'', \<lparr>t_dtype = bf16, t_shape = [1], t_bits = [4]\<rparr>)])
     = [(''a'', \<lparr>t_dtype = bf16, t_shape = [3], t_bits = [1, 2, 3]\<rparr>), (''b'', \<lparr>t_dtype = bf16, t_shape = [1], t_bits = [4]\<rparr>)]"
  using chunks_cover_weights by blast

section \<open>Verification samples\<close>

definition samples_of :: "sparse_item \<Rightarrow> nat" where
  "samples_of it = (case si_samples it of None \<Rightarrow> 0 | Some k \<Rightarrow> k)"

lemma rank_gap:
  assumes "0 < k" "k \<le> (n::nat)"
  shows "((2 * i + 1) * n) div (2 * k) < ((2 * Suc i + 1) * n) div (2 * k)"
proof -
  have "(2 * i + 1) * n + 2 * k \<le> (2 * Suc i + 1) * n" using assms(2) by (simp add: algebra_simps)
  then have "((2 * i + 1) * n + 2 * k) div (2 * k) \<le> ((2 * Suc i + 1) * n) div (2 * k)" by (rule div_le_mono)
  then show ?thesis using assms(1) by (simp add: div_add_self2)
qed

lemma sample_ranks_sorted:
  assumes "k \<le> n"
  shows "sorted_wrt (<) (sample_ranks n k)" "r \<in> set (sample_ranks n k) \<Longrightarrow> r < n"
proof -
  show "sorted_wrt (<) (sample_ranks n k)"
  proof (cases "k = 0")
    case False
    then have "strict_mono (\<lambda>i. ((2 * i + 1) * n) div (2 * k))"
      using rank_gap[OF _ assms] by (simp add: strict_mono_Suc_iff)
    then have "sorted_wrt (\<lambda>i j. ((2 * i + 1) * n) div (2 * k) < ((2 * j + 1) * n) div (2 * k)) [0..<k]"
      by (intro sorted_wrt_mono_rel[OF _ sorted_wrt_upt]) (rule strict_monoD)
    then show ?thesis by (simp add: sample_ranks_def sorted_wrt_map)
  qed (simp add: sample_ranks_def)
  show "r < n" if "r \<in> set (sample_ranks n k)"
  proof -
    from that obtain i where i: "i < k" "r = ((2 * i + 1) * n) div (2 * k)" by (auto simp: sample_ranks_def)
    from i(1) assms have "2 * i + 1 < 2 * k" "0 < n" by auto
    then have "(2 * i + 1) * n < 2 * k * n" by (rule mult_less_mono1)
    then show ?thesis unfolding i(2) by (subst div_less_iff_less_mult) (use i(1) in \<open>auto simp: mult_ac\<close>)
  qed
qed

lemma sorted_range: "sorted_wrt (<) rs \<Longrightarrow> \<forall>r\<in>set rs. a \<le> r \<and> r < (b::nat) \<Longrightarrow> length rs \<le> b - a"
proof -
  assume s: "sorted_wrt (<) rs" "\<forall>r\<in>set rs. a \<le> r \<and> r < b"
  from s(1) have "distinct rs" by (auto simp: strict_sorted_iff)
  then have "length rs = card (set rs)" by (simp add: distinct_card)
  also have "\<dots> \<le> card {a..<b}" using s(2) by (intro card_mono) auto
  finally show ?thesis by simp
qed

lemma assign_samples_ok:
  assumes "sorted_wrt (<) ranks" "\<forall>r\<in>set ranks. offset \<le> r \<and> r < offset + sum_list (map item_size its)"
    and "list_all (\<lambda>it. si_samples it = None) its"
  shows "sum_list (map samples_of (assign_samples ranks offset its)) = length ranks
    \<and> list_all2 (\<lambda>it it'. samples_of it' \<le> item_size it \<and> it = it'\<lparr>si_samples := None\<rparr>) its (assign_samples ranks offset its)"
  using assms
proof (induction its arbitrary: ranks offset)
  case (Cons it its)
  let ?e = "offset + item_size it"
  let ?now = "takeWhile (\<lambda>r. r < ?e) ranks" and ?later = "dropWhile (\<lambda>r. r < ?e) ranks"
  have split: "ranks = ?now @ ?later" by simp
  have sorted: "sorted_wrt (<) ?now" "sorted_wrt (<) ?later"
    using Cons.prems(1) split sorted_wrt_append by metis+
  have "\<forall>r\<in>set ?now. offset \<le> r \<and> r < ?e"
    using Cons.prems(2) by (auto dest: set_takeWhileD)
  from sorted_range[OF sorted(1) this] have n: "length ?now \<le> item_size it" by simp
  have "?e \<le> r" if "r \<in> set ?later" for r
  proof (cases ?later)
    case (Cons x rs)
    then have "\<not> x < ?e" by (metis hd_dropWhile list.sel(1) list.distinct(1))
    moreover have "x \<le> r" using that sorted(2) Cons by auto
    ultimately show ?thesis by simp
  next
    case Nil
    with that have "r \<in> set []" by metis
    then show ?thesis by simp
  qed
  moreover have "r < ?e + sum_list (map item_size its)" if "r \<in> set ?later" for r
    using Cons.prems(2) that set_dropWhileD[of r] by (fastforce simp: add.assoc)
  moreover have "drop (length ?now) ranks = ?later" by (simp add: dropWhile_eq_drop)
  moreover have "list_all (\<lambda>it. si_samples it = None) its" "si_samples it = None" using Cons.prems(3) by simp_all
  ultimately have "sum_list (map samples_of (assign_samples (drop (length ?now) ranks) ?e its)) = length ?later
    \<and> list_all2 (\<lambda>it it'. samples_of it' \<le> item_size it \<and> it = it'\<lparr>si_samples := None\<rparr>) its (assign_samples (drop (length ?now) ranks) ?e its)"
    using Cons.IH[OF sorted(2)] by auto
  moreover have "length ranks = length ?now + length ?later" using split by (metis length_append)
  ultimately show ?case
    using n \<open>si_samples it = None\<close> by (simp add: Let_def) (simp add: samples_of_def)
next
  case Nil
  then show ?case by (cases ranks) auto
qed

lemma add_samples_ok:
  assumes "list_all (\<lambda>it. si_samples it = None) its"
  shows "sum_list (map samples_of (add_verification_samples n its)) = min n (sum_list (map item_size its))
    \<and> list_all2 (\<lambda>it it'. samples_of it' \<le> item_size it \<and> it = it'\<lparr>si_samples := None\<rparr>) its (add_verification_samples n its)"
proof -
  let ?whole = "sum_list (map item_size its)"
  have k: "min n ?whole \<le> ?whole" by simp
  from assign_samples_ok[OF sample_ranks_sorted(1)[OF k], of 0 its] sample_ranks_sorted(2)[OF k] assms
  have "sum_list (map samples_of (assign_samples (sample_ranks ?whole (min n ?whole)) 0 its)) = length (sample_ranks ?whole (min n ?whole))
    \<and> list_all2 (\<lambda>it it'. samples_of it' \<le> item_size it \<and> it = it'\<lparr>si_samples := None\<rparr>) its
        (assign_samples (sample_ranks ?whole (min n ?whole)) 0 its)" by simp
  then show ?thesis
    by (simp add: add_verification_samples_def Let_def sample_ranks_def)
qed

text \<open>
  The verification samples of a payload: as many as asked for or, if there are fewer, as there are
  changed elements; no tensor is given more than it has changed elements, and nothing else of an item changes.
\<close>

theorem samples_are_spread:
  assumes "list_all (\<lambda>it. si_samples it = None) its"
  shows "sum_list (map samples_of (add_verification_samples n its)) = min n (sum_list (map item_size its))
    \<and> list_all2 (\<lambda>it it'. samples_of it' \<le> item_size it \<and> it = it'\<lparr>si_samples := None\<rparr>) its (add_verification_samples n its)"
  by (rule add_samples_ok[OF assms])

definition demo_item :: "nat \<Rightarrow> nat \<Rightarrow> sparse_item" where
  "demo_item s t = \<lparr>si_name = ''w'', si_shape = [9], si_dtype = ''bfloat16'', si_op = Xor, si_encoding = Run 0, index_start = 0,
     index_end = 0, value_group = 0, value_start = s, value_end = t, si_samples = None\<rparr>"

theorem samples_are_spread_witness:
  "sum_list (map samples_of (add_verification_samples 4 [demo_item 0 1, demo_item 1 3, demo_item 3 9])) = 4
   \<and> map samples_of (add_verification_samples 4 [demo_item 0 1, demo_item 1 3, demo_item 3 9]) = [0, 1, 3]"
proof -
  have "list_all (\<lambda>it. si_samples it = None) [demo_item 0 1, demo_item 1 3, demo_item 3 9]" by (simp add: demo_item_def)
  from samples_are_spread[OF this, of 4]
  have "sum_list (map samples_of (add_verification_samples 4 [demo_item 0 1, demo_item 1 3, demo_item 3 9])) = 4"
    by (simp add: item_size_def demo_item_def)
  moreover have "map samples_of (add_verification_samples 4 [demo_item 0 1, demo_item 1 3, demo_item 3 9]) = [0, 1, 3]" by code_simp
  ultimately show ?thesis by simp
qed

section \<open>What the tracker sends\<close>

text \<open>A tensor whose elements can be counted by a signed 64-bit integer.\<close>

definition sendable :: "torch \<Rightarrow> tensor \<Rightarrow> bool" where
  "sendable T t \<longleftrightarrow> tensor_ok T t \<and> length (t_bits t) \<le> 9223372036854775807"

lemma commit_bits_delta:
  assumes ks: "ks = filter P [0..<length src]" and ne: "ks \<noteq> []"
  shows "length (commit_bits (map int ks) (map f ks) src) = length src
    \<and> (\<forall>j < length src. commit_bits (map int ks) (map f ks) src ! j = (if P j then f j else src ! j))"
proof -
  let ?locs = "map int ks"
  let ?run = "last ?locs - ?locs ! 0 + 1 = int (length ?locs)"
  let ?x = "\<lparr>dl_name = [], dl_shape = [], dl_dtype = [], dl_op = Xor, dl_samples = None,
    dl_run = (if ?run then Some (?locs ! 0) else None), dl_locations = ?locs, dl_values = (2, map f ks)\<rparr>"
  have "sorted_wrt (<) ks" unfolding ks by (intro sorted_wrt_filter) simp
  then have "sorted_wrt (<) ?locs" by (simp add: sorted_wrt_map)
  from run_roundtrip[OF this] ne have "\<forall>r. dl_run ?x = Some r \<longrightarrow> dl_locations ?x = map (\<lambda>k. r + int k) [0..<length (dl_locations ?x)]"
    by auto
  from scatter_values_delta[of ?x bf16 ks P src f, OF _ ks _ _ this ne] obtain src' where
    s: "scatter_values bf16 ?x src = Inr src'" "length src' = length src" "\<forall>j < length src. src' ! j = (if P j then f j else src ! j)"
    by (auto simp: bf16_def)
  from s(1) have "src' = commit_bits ?locs (map f ks) src"
    by (auto simp: scatter_values_def commit_bits_def Let_def split: if_splits)
  with s(2,3) show ?thesis by blast
qed

lemma ascending_locations:
  assumes "sendable T t"
  shows "ascending (location_width (t_shape t)) (map int (filter P [0..<length (t_bits t)]))"
proof -
  have n: "length (t_bits t) = prod_list (t_shape t)" "length (t_bits t) \<le> 9223372036854775807"
    using assms by (auto simp: sendable_def tensor_ok_def)
  have "sorted_wrt (<) (filter P [0..<length (t_bits t)])" by (intro sorted_wrt_filter) simp
  moreover have "int j < 2 ^ (location_width (t_shape t) - 1)" if "j < length (t_bits t)" for j
    using n that by (auto simp: location_width_def)
  ultimately show ?thesis by (auto simp: ascending_def sorted_wrt_map list_all_iff)
qed

text \<open>What is prepared for the tensor \<open>new\<close> with the baseline \<open>old\<close>.\<close>

definition update_between :: "torch \<Rightarrow> tracker \<Rightarrow> tensor \<Rightarrow> tensor \<Rightarrow> string \<Rightarrow> sparse_info \<times> update \<Rightarrow> bool" where
  "update_between T tk old new name x \<longleftrightarrow> (case x of (i, u, locs, vals) \<Rightarrow>
     info_ok i \<and> in_name i = name \<and> in_op i = (if name \<in> set (tk_overwrite tk) then Overwrite else tk_encoding tk)
     \<and> delta_between old new name (delta_of i) \<and> u = name \<and> locs \<noteq> [] \<and> commit_bits locs vals (t_bits old) = t_bits new)"

lemma prepare_tensor_diff:
  assumes base: "map_of (tk_baseline tk) name = Some old" and types: "same_type old new" and ok: "sendable T old" "sendable T new"
  shows "\<exists>xs. prepare_tensor tk (name, new) = Inr xs \<and> (if new = old then xs = [] else \<exists>x. xs = [x] \<and> update_between T tk old new name x)"
proof -
  let ?P = "\<lambda>j. t_bits new ! j \<noteq> t_bits old ! j"
  let ?ks = "filter ?P [0..<length (t_bits new)]"
  let ?op = "if name \<in> set (tk_overwrite tk) then Overwrite else tk_encoding tk"
  let ?f = "\<lambda>j. case ?op of Xor \<Rightarrow> t_bits new ! j XOR t_bits old ! j | Overwrite \<Rightarrow> t_bits new ! j"
  let ?i = "\<lparr>in_name = name, in_tensor = new, in_locations = map int ?ks, in_values = (dt_size (t_dtype new), map ?f ?ks), in_op = ?op\<rparr>"
  let ?u = "(name, map int ?ks, map ((!) (t_bits new)) ?ks)"
  have d: "t_dtype old = t_dtype new" "length (t_bits old) = length (t_bits new)" "dt_size (t_dtype new) \<in> {1, 2, 4, 8}"
    using types ok by (auto simp: same_type_def sendable_def tensor_ok_def)
  have prep: "prepare_tensor tk (name, new) = Inr (if ?ks = [] then [] else [(?i, ?u)])"
    using base d by (simp add: prepare_tensor_def integer_view_def integer_dtype_for_element_size_def Let_def)
  have eq: "?ks = [] \<longleftrightarrow> new = old"
  proof
    assume "?ks = []"
    then have "t_bits new = t_bits old" using d(2) by (intro nth_equalityI) (auto simp: filter_empty_conv)
    with types show "new = old" by (auto simp: same_type_def)
  qed simp
  have "update_between T tk old new name (?i, ?u)" if ne: "?ks \<noteq> []"
  proof -
    have asc: "ascending (location_width (t_shape new)) (map int ?ks)" by (rule ascending_locations[OF ok(2)])
    then have info: "info_ok ?i" using ne by (simp add: info_ok_def)
    have run: "dl_run (delta_of ?i) = Some r \<Longrightarrow> dl_locations (delta_of ?i) = map (\<lambda>k. r + int k) [0..<length (dl_locations (delta_of ?i))]" for r
      using run_roundtrip[of "map int ?ks"] asc ne
      by (auto simp: delta_of_def Let_def ascending_def split: if_splits)
    then have "delta_between old new name (delta_of ?i)"
      unfolding delta_between_def by (auto simp: delta_of_def Let_def)
    moreover have "commit_bits (map int ?ks) (map ((!) (t_bits new)) ?ks) (t_bits old) = t_bits new"
      using commit_bits_delta[of ?ks ?P "t_bits old" "(!) (t_bits new)"] ne d(2) by (intro nth_equalityI) auto
    ultimately show ?thesis using info ne by (simp add: update_between_def)
  qed
  with prep eq show ?thesis by auto
qed

text \<open>A payload whose items are deltas from \<open>W\<close> to \<open>W'\<close>, and the tensors it is about.\<close>

definition payload_ok :: "torch \<Rightarrow> (string \<Rightarrow> tensor) \<Rightarrow> (string \<Rightarrow> tensor) \<Rightarrow> payload \<Rightarrow> bool" where
  "payload_ok T W W' p \<longleftrightarrow> payload_wf p \<and> (\<exists>ds. received p = Inr ds \<and> list_all (delta_ok T W W') ds)"

definition sent_names :: "payload \<Rightarrow> string list" where
  "sent_names p = map si_name (pl_items p)"

lemma received_names: "received p = Inr ds \<Longrightarrow> map dl_name ds = sent_names p"
  unfolding received_def mapR_Inr sent_names_def
  by (induction rule: list_all2_induct) (auto simp: receive_name)

lemma receive_sampled:
  assumes "receive_item p (it\<lparr>si_samples := None\<rparr>) = Inr x"
  shows "receive_item p it = Inr (x\<lparr>dl_samples := si_samples it\<rparr>)"
proof -
  have "sparse_locations_for_item (it\<lparr>si_samples := None\<rparr>) = sparse_locations_for_item it"
    by (intro ext) (simp add: sparse_locations_for_item_def Let_def split: index_encoding.split)
  with assms show ?thesis by (auto simp: receive_item_def bindR_Inr split: if_splits)
qed

lemma delta_ok_sampled: "delta_ok T W W' (x\<lparr>dl_samples := k\<rparr>) = delta_ok T W W' x"
  by (cases x) (simp add: delta_ok_def delta_between_def carries_def)

lemma payload_ok_sampled:
  assumes "payload_ok T W W' p" and its: "list_all2 (\<lambda>it it'. it = it'\<lparr>si_samples := None\<rparr>) (pl_items p) its"
  shows "payload_ok T W W' (p\<lparr>pl_items := its\<rparr>)" "sent_names (p\<lparr>pl_items := its\<rparr>) = sent_names p"
proof -
  let ?p = "p\<lparr>pl_items := its\<rparr>"
  have same: "receive_item ?p = receive_item p" "in_bounds ?p = in_bounds p"
    by (simp_all add: fun_eq_iff receive_item_def in_bounds_def cong: if_cong)
  from assms obtain ds where ds: "list_all2 (\<lambda>it x. receive_item p it = Inr x) (pl_items p) ds" "list_all (delta_ok T W W') ds"
    "list_all (in_bounds p) (pl_items p)"
    by (auto simp: payload_ok_def payload_wf_def received_def mapR_Inr)
  have "\<exists>ds'. list_all2 (\<lambda>it x. receive_item p it = Inr x) its ds' \<and> list_all (delta_ok T W W') ds' \<and> list_all (in_bounds p) its"
    using its ds
  proof (induction arbitrary: ds rule: list_all2_induct)
    case (Cons it its it' its')
    from Cons.prems(1) obtain x xs where x: "ds = x # xs" "receive_item p it = Inr x" "list_all2 (\<lambda>it x. receive_item p it = Inr x) its xs"
      by (auto simp: list_all2_Cons1)
    have "receive_item p it' = Inr (x\<lparr>dl_samples := si_samples it'\<rparr>)" using x(2) Cons.hyps(1) by (auto intro: receive_sampled)
    moreover have "delta_ok T W W' (x\<lparr>dl_samples := si_samples it'\<rparr>)"
      using Cons.prems(2) x(1) by (simp add: delta_ok_sampled)
    moreover have "in_bounds p it'" using Cons.prems(3) Cons.hyps(1) by (simp add: in_bounds_def)
    moreover obtain ys where "list_all2 (\<lambda>it x. receive_item p it = Inr x) its' ys" "list_all (delta_ok T W W') ys" "list_all (in_bounds p) its'"
      using Cons.IH[OF x(3)] Cons.prems(2,3) x(1) by auto
    ultimately show ?case by (intro exI[of _ "x\<lparr>dl_samples := si_samples it'\<rparr> # ys"]) simp
  qed simp
  then show "payload_ok T W W' ?p" by (auto simp: payload_ok_def payload_wf_def received_def mapR_Inr same)
  have "map si_name its = map si_name (pl_items p)" using its by (induction rule: list_all2_induct) auto
  then show "sent_names ?p = sent_names p" by (simp add: sent_names_def)
qed

lemma payload_ok_merged:
  assumes "list_all (payload_ok T W W') ps"
  shows "\<exists>p. merge_sparse_payloads ps = Inr p \<and> payload_ok T W W' p \<and> sent_names p = concat (map sent_names ps)"
proof -
  from assms obtain dss where "list_all2 (\<lambda>p ds. payload_wf p \<and> received p = Inr ds) ps dss"
    "list_all (list_all (delta_ok T W W')) dss" "map (map dl_name) dss = map sent_names ps"
  proof (induction ps arbitrary: thesis)
    case (Cons p ps)
    from Cons.prems(2) obtain ds where "payload_wf p" "received p = Inr ds" "list_all (delta_ok T W W') ds"
      by (auto simp: payload_ok_def)
    moreover obtain dss where "list_all2 (\<lambda>p ds. payload_wf p \<and> received p = Inr ds) ps dss"
      "list_all (list_all (delta_ok T W W')) dss" "map (map dl_name) dss = map sent_names ps"
      using Cons.IH Cons.prems(2) by auto
    ultimately show ?case using received_names[of p ds] by (intro Cons.prems(1)[of "ds # dss"]) simp_all
  qed simp
  with merge_sparse_payloads_reads[OF this(1)] show ?thesis
    by (auto simp: payload_ok_def list_all_iff received_names[symmetric] map_concat)
qed

text \<open>The updates of the baseline from \<open>W\<close> to \<open>W'\<close>.\<close>

definition updates_ok :: "(string \<Rightarrow> tensor) \<Rightarrow> (string \<Rightarrow> tensor) \<Rightarrow> update list \<Rightarrow> bool" where
  "updates_ok W W' us \<longleftrightarrow> list_all (\<lambda>(n, locs, vals). locs \<noteq> [] \<and> commit_bits locs vals (t_bits (W n)) = t_bits (W' n)) us"

text \<open>The weights on both sides of a sync: each tensor keeps its type, and what is sent can carry the difference.\<close>

definition weights_ok :: "torch \<Rightarrow> tracker \<Rightarrow> (string \<Rightarrow> tensor) \<Rightarrow> (string \<Rightarrow> tensor) \<Rightarrow> string \<Rightarrow> bool" where
  "weights_ok T tk W W' n \<longleftrightarrow> same_type (W n) (W' n) \<and> sendable T (W n) \<and> sendable T (W' n)
     \<and> carries T (if n \<in> set (tk_overwrite tk) then Overwrite else tk_encoding tk) (W n) (W' n)"

lemma prepare_tensors_diff:
  assumes "list_all (weights_ok T tk W W') ns" and "list_all (\<lambda>n. map_of (tk_baseline tk) n = Some (W n)) ns"
  shows "\<exists>xss. mapR (prepare_tensor tk) (map (\<lambda>n. (n, W' n)) ns) = Inr xss
    \<and> list_all2 (\<lambda>n x. update_between T tk (W n) (W' n) n x) (filter (\<lambda>n. W' n \<noteq> W n) ns) (concat xss)"
  using assms
proof (induction ns)
  case (Cons n ns)
  from prepare_tensor_diff[of tk n "W n" "W' n" T] Cons.prems obtain xs where
    "prepare_tensor tk (n, W' n) = Inr xs" "if W' n = W n then xs = [] else \<exists>x. xs = [x] \<and> update_between T tk (W n) (W' n) n x"
    by (auto simp: weights_ok_def)
  with Cons show ?case by (auto split: if_splits)
qed simp

lemma update_between_ok:
  assumes "update_between T tk (W n) (W' n) n x" and "weights_ok T tk W W' n"
  shows "info_ok (fst x)" "delta_ok T W W' (delta_of (fst x))" "dl_name (delta_of (fst x)) = n" "updates_ok W W' [snd x]" "fst (snd x) = n"
proof -
  obtain i u locs vals where x: "x = (i, u, locs, vals)" by (metis prod_cases4)
  from assms(1) have *: "info_ok i" "in_name i = n" "in_op i = (if n \<in> set (tk_overwrite tk) then Overwrite else tk_encoding tk)"
    "delta_between (W n) (W' n) n (delta_of i)" "u = n" "locs \<noteq> []" "commit_bits locs vals (t_bits (W n)) = t_bits (W' n)"
    by (simp_all add: update_between_def x)
  have d: "dl_name (delta_of i) = in_name i" "dl_op (delta_of i) = in_op i" "dl_locations (delta_of i) = in_locations i"
    by (simp_all add: delta_of_def Let_def)
  have "carries T (in_op i) (W n) (W' n)" using assms(2) by (simp add: weights_ok_def *(3))
  with * d show "info_ok (fst x)" "delta_ok T W W' (delta_of (fst x))" "dl_name (delta_of (fst x)) = n" "updates_ok W W' [snd x]" "fst (snd x) = n"
    by (simp_all add: x delta_ok_def info_ok_def updates_ok_def)
qed

lemma updates_between:
  assumes "list_all2 (\<lambda>n x. update_between T tk (W n) (W' n) n x) ns xs" and "list_all (weights_ok T tk W W') ns"
  shows "list_all info_ok (map fst xs) \<and> list_all (delta_ok T W W') (map delta_of (map fst xs)) \<and> map dl_name (map delta_of (map fst xs)) = ns
    \<and> updates_ok W W' (map snd xs) \<and> map (\<lambda>x. fst (snd x)) xs = ns"
  using assms
proof (induction rule: list_all2_induct)
  case (Cons n ns x xs)
  then have "update_between T tk (W n) (W' n) n x" "weights_ok T tk W W' n" by simp_all
  note u = update_between_ok[OF this]
  from Cons u show ?case by (simp add: updates_ok_def)
qed (simp add: updates_ok_def)

lemma fold_new_keys:
  assumes "distinct (map fst ps @ map fst us)"
  shows "fold (\<lambda>(n, u). AList.update n u) us ps = ps @ us"
  using assms
proof (induction us arbitrary: ps)
  case (Cons u us)
  obtain n v where u: "u = (n, v)" by (cases u)
  have "n \<notin> fst ` set ps" using Cons.prems u by auto
  then have "AList.update n v ps = ps @ [(n, v)]" by (induction ps) auto
  with Cons.IH[of "ps @ [(n, v)]"] Cons.prems u show ?case by auto
qed simp

lemma receive_samples: "receive_item p it = Inr x \<Longrightarrow> dl_samples x = si_samples it"
  by (auto simp: receive_item_def bindR_Inr split: if_splits)

lemma all_unsampled:
  "list_all2 (\<lambda>it x. receive_item p it = Inr (delta_of (fst x))) its xs \<Longrightarrow> list_all (\<lambda>it. si_samples it = None) its"
  by (induction rule: list_all2_induct) (auto dest: receive_samples simp: delta_of_def Let_def)

lemma prepare_payload:
  assumes wait: "wait_for_baseline_commits tk = (tk1, Inr ())" and ok: "list_all (weights_ok T tk1 W W') ns"
    and base: "list_all (\<lambda>n. map_of (tk_baseline tk1) n = Some (W n)) ns"
    and names: "distinct (map fst (tk_pending tk1) @ ns)"
  shows "\<exists>p c t us. prepare_sparse_delta_payload (map (\<lambda>n. (n, W' n)) ns) tk = (tk1\<lparr>tk_pending := tk_pending tk1 @ us\<rparr>, Inr (p, c, t))
    \<and> payload_ok T W W' p \<and> sent_names p = filter (\<lambda>n. W' n \<noteq> W n) ns \<and> updates_ok W W' us \<and> map fst us = filter (\<lambda>n. W' n \<noteq> W n) ns"
proof -
  let ?ns = "filter (\<lambda>n. W' n \<noteq> W n) ns"
  from prepare_tensors_diff[OF ok base] obtain xss where
    xss: "mapR (prepare_tensor tk1) (map (\<lambda>n. (n, W' n)) ns) = Inr xss"
    and l: "list_all2 (\<lambda>n x. update_between T tk1 (W n) (W' n) n x) ?ns (concat xss)" by blast
  have ok': "list_all (weights_ok T tk1 W W') ?ns" using ok by (simp add: list_all_iff)
  from updates_between[OF l ok'] have u: "list_all info_ok (map fst (concat xss))" "list_all (delta_ok T W W') (map delta_of (map fst (concat xss)))"
    "map dl_name (map delta_of (map fst (concat xss))) = ?ns" "updates_ok W W' (map snd (concat xss))"
    "map (\<lambda>x. fst (snd x)) (concat xss) = ?ns" by blast+
  from encode_sparse_infos_reads[OF u(1)] obtain p where
    p: "encode_sparse_infos (map fst (concat xss)) = Inr p" "payload_wf p" "received p = Inr (map delta_of (map fst (concat xss)))" by blast
  have pok: "payload_ok T W W' p" "sent_names p = ?ns"
    using p(2,3) u(2,3) received_names[OF p(3)] by (auto simp: payload_ok_def)
  define q where "q = (if tk_samples tk1 > 0 then p\<lparr>pl_items := add_verification_samples (tk_samples tk1) (pl_items p)\<rparr> else p)"
  have "list_all (\<lambda>it. si_samples it = None) (pl_items p)"
    using p(3) unfolding received_def mapR_Inr list_all2_map2
    by (rule all_unsampled)
  with add_samples_ok have "list_all2 (\<lambda>it it'. it = it'\<lparr>si_samples := None\<rparr>) (pl_items p) (add_verification_samples (tk_samples tk1) (pl_items p))"
    by (metis (mono_tags, lifting) list_all2_mono)
  from payload_ok_sampled[OF pok(1) this] pok have q: "payload_ok T W W' q" "sent_names q = ?ns" by (simp_all add: q_def)
  have "map fst (map snd (concat xss)) = ?ns" using u(5) by (simp add: comp_def)
  then have "distinct (map fst (tk_pending tk1) @ map fst (map snd (concat xss)))" using names by auto
  from fold_new_keys[OF this] have f: "fold (\<lambda>(name, u). AList.update name u) (map snd (concat xss)) (tk_pending tk1) = tk_pending tk1 @ map snd (concat xss)" .
  have "prepare_sparse_delta_payload (map (\<lambda>n. (n, W' n)) ns) tk = (tk1\<lparr>tk_pending := tk_pending tk1 @ map snd (concat xss)\<rparr>,
      Inr (q, sum_list (map (\<lambda>x. length (in_locations (fst x))) (concat xss)), sum_list (map (\<lambda>x. length (t_bits (snd x))) (map (\<lambda>n. (n, W' n)) ns))))"
    by (simp add: prepare_sparse_delta_payload_def wait xss p(1) f Let_def q_def)
  with q u(4,5) show ?thesis by (auto simp: comp_def)
qed

section \<open>A stream and its commit\<close>

lemma wait_done: "wait_for_baseline_commits tk = (tk1, Inr u) \<Longrightarrow> tk_commits tk1 = []"
  by (auto simp: wait_for_baseline_commits_def split: prod.splits sum.splits)

lemma wait_again: "tk_commits tk = [] \<Longrightarrow> wait_for_baseline_commits tk = (tk, Inr ())"
  by (cases tk) (simp add: wait_for_baseline_commits_def)

lemma weights_ok_tracker:
  "tk_overwrite tk' = tk_overwrite tk \<Longrightarrow> tk_encoding tk' = tk_encoding tk \<Longrightarrow> weights_ok T tk' = weights_ok T tk"
  by (simp add: fun_eq_iff weights_ok_def)

lemma encode_chunks_ok:
  assumes "wait_for_baseline_commits tk = (tk1, Inr ())" and "list_all (list_all (weights_ok T tk1 W W')) nss"
    and "list_all (\<lambda>n. map_of (tk_baseline tk1) n = Some (W n)) (concat nss)" and "distinct (map fst (tk_pending tk1) @ concat nss)"
  shows "\<exists>ps us. encode_chunks (map (map (\<lambda>n. (n, W' n))) nss) tk = (if nss = [] then tk else tk1\<lparr>tk_pending := tk_pending tk1 @ us\<rparr>, Inr ps)
    \<and> list_all (payload_ok T W W') (map fst ps) \<and> map sent_names (map fst ps) = map (filter (\<lambda>n. W' n \<noteq> W n)) nss
    \<and> updates_ok W W' us \<and> map fst us = filter (\<lambda>n. W' n \<noteq> W n) (concat nss)"
  using assms
proof (induction nss arbitrary: tk tk1)
  case (Cons ns nss)
  have "distinct (map fst (tk_pending tk1) @ ns)" using Cons.prems(4) by auto
  with prepare_payload[OF Cons.prems(1), of T W W' ns] Cons.prems(2,3) obtain p c t us where
    p: "prepare_sparse_delta_payload (map (\<lambda>n. (n, W' n)) ns) tk = (tk1\<lparr>tk_pending := tk_pending tk1 @ us\<rparr>, Inr (p, c, t))"
      "payload_ok T W W' p" "sent_names p = filter (\<lambda>n. W' n \<noteq> W n) ns" "updates_ok W W' us" "map fst us = filter (\<lambda>n. W' n \<noteq> W n) ns"
    by auto
  let ?tk = "tk1\<lparr>tk_pending := tk_pending tk1 @ us\<rparr>"
  have w: "wait_for_baseline_commits ?tk = (?tk, Inr ())" using wait_done[OF Cons.prems(1)] by (intro wait_again) simp
  have 2: "list_all (list_all (weights_ok T ?tk W W')) nss"
    using Cons.prems(2) weights_ok_tracker[of ?tk tk1 T] by simp
  have 3: "list_all (\<lambda>n. map_of (tk_baseline ?tk) n = Some (W n)) (concat nss)" using Cons.prems(3) by simp
  have 4: "distinct (map fst (tk_pending ?tk) @ concat nss)" using Cons.prems(4) p(5) by auto
  from Cons.IH[OF w 2 3 4] obtain ps vs where
    i: "encode_chunks (map (map (\<lambda>n. (n, W' n))) nss) ?tk = (if nss = [] then ?tk else ?tk\<lparr>tk_pending := tk_pending ?tk @ vs\<rparr>, Inr ps)"
      "list_all (payload_ok T W W') (map fst ps)" "map sent_names (map fst ps) = map (filter (\<lambda>n. W' n \<noteq> W n)) nss"
      "updates_ok W W' vs" "map fst vs = filter (\<lambda>n. W' n \<noteq> W n) (concat nss)" by blast
  have vs: "nss = [] \<Longrightarrow> vs = []" using i(5) by simp
  show ?case
    using p i vs by (intro exI[of _ "(p, sum_list (map tensor_size (map (\<lambda>n. (n, W' n)) ns))) # ps"] exI[of _ "us @ vs"])
      (auto simp: updates_ok_def comp_def)
qed (simp add: updates_ok_def)

lemma bucket_payloads_concat:
  "concat (bucket_payloads limit bucket bytes ps) = bucket @ filter (\<lambda>p. pl_items p \<noteq> []) (map fst ps)"
  by (induction limit bucket bytes ps rule: bucket_payloads.induct) (auto simp: Let_def)

lemma merged_buckets:
  assumes "list_all (list_all (payload_ok T W W')) pss"
  shows "\<exists>qs. mapR merge_sparse_payloads pss = Inr qs \<and> list_all (payload_ok T W W') qs
    \<and> concat (map sent_names qs) = concat (map sent_names (concat pss))"
  using assms
proof (induction pss)
  case (Cons ps pss)
  with payload_ok_merged[of T W W' ps] show ?case by auto
qed simp

lemma mset_arrange: "mset (arrange order xs) = mset xs"
  by (simp add: arrange_def mset_pick)

text \<open>The commits.\<close>

lemma commit_updates_ok:
  assumes "updates_ok W W' us" and "distinct (map fst us)" and "list_all (\<lambda>u. map_of base (fst u) = Some (W (fst u))) us"
    and "\<And>n. same_type (W n) (W' n)"
  shows "\<exists>base'. commit_baseline_updates us base = (base', Inr ())
    \<and> (\<forall>n. map_of base' n = (if n \<in> fst ` set us then Some (W' n) else map_of base n))"
  using assms(1-3)
proof (induction us arbitrary: base)
  case (Cons u us)
  obtain n locs vals where u: "u = (n, locs, vals)" by (metis prod_cases3)
  have c: "locs \<noteq> []" "commit_bits locs vals (t_bits (W n)) = t_bits (W' n)" "map_of base n = Some (W n)"
    using Cons.prems u by (auto simp: updates_ok_def)
  have "(W n)\<lparr>t_bits := t_bits (W' n)\<rparr> = W' n" using assms(4)[of n] by (simp add: same_type_def)
  with c have s: "commit_baseline_updates (u # us) base = commit_baseline_updates us (AList.update n (W' n) base)"
    by (simp add: u)
  have "list_all (\<lambda>u. map_of (AList.update n (W' n) base) (fst u) = Some (W (fst u))) us"
    using Cons.prems(2,3) u by (auto simp: list_all_iff update_conv)
  with Cons.IH[of "AList.update n (W' n) base"] Cons.prems(1,2) obtain base' where
    "commit_baseline_updates us (AList.update n (W' n) base) = (base', Inr ())"
    "\<forall>k. map_of base' k = (if k \<in> fst ` set us then Some (W' k) else map_of (AList.update n (W' n) base) k)"
    by (auto simp: updates_ok_def)
  with s show ?case by (auto simp: u update_conv)
qed simp

lemma run_commits_ok:
  assumes "list_all (updates_ok W W') cs" and "distinct (map fst (concat cs))"
    and "list_all (\<lambda>u. map_of base (fst u) = Some (W (fst u))) (concat cs)" and "\<And>n. same_type (W n) (W' n)"
  shows "\<exists>base'. run_commits cs base = (base', Inr ())
    \<and> (\<forall>n. map_of base' n = (if n \<in> fst ` set (concat cs) then Some (W' n) else map_of base n))"
  using assms(1-3)
proof (induction cs arbitrary: base)
  case (Cons us cs)
  from commit_updates_ok[of W W' us base] Cons.prems assms(4) obtain base1 where
    b: "commit_baseline_updates us base = (base1, Inr ())" "\<forall>n. map_of base1 n = (if n \<in> fst ` set us then Some (W' n) else map_of base n)"
    by auto
  have "list_all (\<lambda>u. map_of base1 (fst u) = Some (W (fst u))) (concat cs)"
    unfolding list_all_iff
  proof
    fix u assume u: "u \<in> set (concat cs)"
    then have "fst u \<notin> fst ` set us" using Cons.prems(2) by (auto simp: image_iff)
    with u b(2) Cons.prems(3) show "map_of base1 (fst u) = Some (W (fst u))" by (auto simp: list_all_iff)
  qed
  with Cons.IH[of base1] Cons.prems(1,2) obtain base' where
    "run_commits cs base1 = (base', Inr ())" "\<forall>n. map_of base' n = (if n \<in> fst ` set (concat cs) then Some (W' n) else map_of base1 n)"
    by auto
  with b show ?case by (auto simp: image_Un)
qed simp

text \<open>The tracker is in step with the weights \<open>W\<close> of its tensors.\<close>

definition tracker_at :: "(string \<Rightarrow> tensor) \<Rightarrow> string list \<Rightarrow> tracker \<Rightarrow> bool" where
  "tracker_at W ns tk \<longleftrightarrow> tk_pending tk = []
     \<and> (\<exists>base. run_commits (tk_commits tk) (tk_baseline tk) = (base, Inr ()) \<and> list_all (\<lambda>n. map_of base n = Some (W n)) ns)"

definition own_names :: "(string \<Rightarrow> tensor) \<Rightarrow> nat \<Rightarrow> nat \<Rightarrow> nat \<Rightarrow> string list \<Rightarrow> string list list" where
  "own_names W rank shards target ns = stride rank shards (weight_chunks (\<lambda>n. tensor_size (n, W n)) target [] ns)"

lemma stride_map: "stride i n (map f xs) = map f (stride i n xs)"
  unfolding stride_def by (subst pick_map) auto

lemma own_chunks_names: "own_chunks rank shards target (map (\<lambda>n. (n, W n)) ns) = map (map (\<lambda>n. (n, W n))) (own_names W rank shards target ns)"
  using weight_chunks_map[of tensor_size target "\<lambda>n. (n, W n)" "[]" ns]
  by (simp add: own_chunks_def own_names_def iter_sparse_weight_chunks_def stride_map)

lemma own_names_same:
  assumes "\<And>n. same_type (W n) (W' n) \<and> sendable T (W n) \<and> sendable T (W' n)"
  shows "own_names W' = own_names W"
proof -
  have "tensor_size (n, W' n) = tensor_size (n, W n)" for n
    using assms[of n] by (simp add: tensor_size_def sendable_def tensor_ok_def same_type_def)
  then show ?thesis by (simp add: fun_eq_iff own_names_def)
qed

lemma own_names_distinct:
  assumes "distinct ns"
  shows "distinct (concat (own_names W rank shards target ns))"
proof -
  let ?cs = "weight_chunks (\<lambda>n. tensor_size (n, W n)) target [] ns"
  have cs: "concat ?cs = ns" by (simp add: weight_chunks_concat)
  have ne: "c \<noteq> []" if "c \<in> set ?cs" for c using weight_chunks_bounded[OF _ that] by simp
  have dj: "distinct ?cs" "\<forall>c\<in>set ?cs. distinct c" "\<forall>c\<in>set ?cs. \<forall>d\<in>set ?cs. c \<noteq> d \<longrightarrow> set c \<inter> set d = {}"
  proof -
    have rem: "removeAll [] ?cs = ?cs" using ne by (intro removeAll_id) blast
    have "distinct (concat ?cs)" unfolding cs by (rule assms)
    then have d: "distinct ?cs \<and> (\<forall>ys. ys \<in> set ?cs \<longrightarrow> distinct ys) \<and> (\<forall>ys zs. ys \<in> set ?cs \<and> zs \<in> set ?cs \<and> ys \<noteq> zs \<longrightarrow> set ys \<inter> set zs = {})"
      unfolding distinct_concat_iff rem .
    show "distinct ?cs" "\<forall>c\<in>set ?cs. distinct c" "\<forall>c\<in>set ?cs. \<forall>d\<in>set ?cs. c \<noteq> d \<longrightarrow> set c \<inter> set d = {}"
      using d by blast+
  qed
  have "distinct (stride rank shards ?cs)"
    using dj(1) by (auto simp: stride_def pick_def distinct_map inj_on_def nth_eq_iff_index_eq)
  moreover have "set (stride rank shards ?cs) \<subseteq> set ?cs" by (rule set_stride)
  ultimately show ?thesis unfolding own_names_def using dj(2,3) by (intro distinct_concat) blast+
qed

text \<open>
  A stream over weights that the tracker's baseline can be compared with: it yields payloads that carry
  exactly the tensors that have changed, and leaves the tracker ready to be committed or not.
\<close>

lemma stream_ok:
  assumes tk: "tracker_at W (concat (own_names W rank shards target ns)) tk" and ns: "distinct ns"
    and ok: "\<And>n. weights_ok T tk W W' n"
  shows "\<exists>tk2 qs. stream_sparse_delta_payloads rank shards target order (map (\<lambda>n. (n, W' n)) ns) tk = (tk2, Inr qs)
    \<and> list_all (payload_ok T W W') qs
    \<and> mset (concat (map sent_names qs)) = mset (filter (\<lambda>n. W' n \<noteq> W n) (concat (own_names W rank shards target ns)))
    \<and> tracker_at W' (concat (own_names W rank shards target ns)) (on_sync_succeeded tk2)
    \<and> tracker_at W (concat (own_names W rank shards target ns)) (on_sync_failed tk2)
    \<and> tk_overwrite tk2 = tk_overwrite tk \<and> tk_encoding tk2 = tk_encoding tk"
proof -
  let ?nss = "own_names W rank shards target ns" and ?changed = "\<lambda>n. W' n \<noteq> W n"
  have types: "\<And>n. same_type (W n) (W' n) \<and> sendable T (W n) \<and> sendable T (W' n)" using ok by (simp add: weights_ok_def)
  have own: "own_chunks rank shards target (map (\<lambda>n. (n, W' n)) ns) = map (map (\<lambda>n. (n, W' n))) ?nss"
    by (simp add: own_chunks_names own_names_same[OF types])
  from tk obtain base where base: "tk_pending tk = []" "run_commits (tk_commits tk) (tk_baseline tk) = (base, Inr ())"
    "list_all (\<lambda>n. map_of base n = Some (W n)) (concat ?nss)" by (auto simp: tracker_at_def)
  define tk1 where "tk1 = tk\<lparr>tk_baseline := base, tk_commits := []\<rparr>"
  have wait: "wait_for_baseline_commits tk = (tk1, Inr ())" using base(2) by (simp add: wait_for_baseline_commits_def tk1_def)
  have f1: "tk_pending tk1 = []" "tk_baseline tk1 = base" "tk_overwrite tk1 = tk_overwrite tk" "tk_encoding tk1 = tk_encoding tk" "tk_commits tk1 = []"
    by (simp_all add: tk1_def base(1))
  have "list_all (list_all (weights_ok T tk1 W W')) ?nss" using ok weights_ok_tracker[OF f1(3,4), of T] by (simp add: list_all_iff)
  from encode_chunks_ok[OF wait this, unfolded f1] base(3) own_names_distinct[OF ns] obtain ps us where
    e: "encode_chunks (map (map (\<lambda>n. (n, W' n))) ?nss) tk = (if ?nss = [] then tk else tk1\<lparr>tk_pending := us\<rparr>, Inr ps)"
      "list_all (payload_ok T W W') (map fst ps)" "map sent_names (map fst ps) = map (filter ?changed) ?nss"
      "updates_ok W W' us" "map fst us = filter ?changed (concat ?nss)"
    by auto
  define tk2 where "tk2 = (if ?nss = [] then tk else tk1\<lparr>tk_pending := us\<rparr>)"
  let ?bs = "bucket_payloads (tk_bucket_bytes tk2) [] 0 (arrange order ps)"
  have cat: "concat ?bs = filter (\<lambda>p. pl_items p \<noteq> []) (map fst (arrange order ps))" by (simp add: bucket_payloads_concat)
  have sub: "set (arrange order ps) = set ps" using mset_arrange[of order ps] by (metis set_mset_mset)
  have pok: "payload_ok T W W' p" if "p \<in> set (concat ?bs)" for p
  proof -
    from that have "p \<in> fst ` set ps" unfolding cat using sub by auto
    with e(2) show ?thesis by (auto simp: list_all_iff)
  qed
  then have "list_all (list_all (payload_ok T W W')) ?bs" by (force simp: list_all_iff)
  from merged_buckets[OF this] obtain qs where q: "mapR merge_sparse_payloads ?bs = Inr qs" "list_all (payload_ok T W W') qs"
    "concat (map sent_names qs) = concat (map sent_names (concat ?bs))" by blast
  have "concat (map sent_names (filter (\<lambda>p. pl_items p \<noteq> []) xs)) = concat (map sent_names xs)" for xs
    by (induction xs) (auto simp: sent_names_def)
  then have "mset (concat (map sent_names qs)) = mset (concat (map sent_names (map fst (arrange order ps))))"
    unfolding q(3) cat by simp
  also have "\<dots> = \<Sum>\<^sub># (image_mset (\<lambda>p. mset (sent_names (fst p))) (mset (arrange order ps)))"
    by (simp add: mset_concat comp_def mset_map[symmetric] sum_mset_sum_list del: mset_map)
  also have "\<dots> = mset (concat (map sent_names (map fst ps)))"
    unfolding mset_arrange by (simp add: mset_concat comp_def mset_map[symmetric] sum_mset_sum_list del: mset_map)
  also have "\<dots> = mset (filter ?changed (concat ?nss))" unfolding e(3) by (simp add: filter_concat)
  finally have names: "mset (concat (map sent_names qs)) = mset (filter ?changed (concat ?nss))" .
  have stream: "stream_sparse_delta_payloads rank shards target order (map (\<lambda>n. (n, W' n)) ns) tk = (tk2, Inr qs)"
    by (simp add: stream_sparse_delta_payloads_def own e(1) tk2_def[symmetric] q(1))
  have failed: "tracker_at W (concat ?nss) (on_sync_failed tk2)"
    using base f1 by (auto simp: tracker_at_def on_sync_failed_def tk2_def)
  have succeeded: "tracker_at W' (concat ?nss) (on_sync_succeeded tk2)"
  proof (cases "?nss = []")
    case True
    then show ?thesis using base(1) by (auto simp: tracker_at_def on_sync_succeeded_def tk2_def Let_def)
  next
    case False
    define cs where "cs = map (\<lambda>w. stride w (min 4 (length us)) us) [0..<min 4 (length us)]"
    have m: "mset (concat cs) = mset us" unfolding cs_def by (cases "us = []") (auto intro: mset_strides)
    have "mset (map fst (concat cs)) = mset (map fst us)" unfolding mset_map m ..
    moreover have "distinct (map fst us)" unfolding e(5) using own_names_distinct[OF ns] by (rule distinct_filter)
    ultimately have dist: "distinct (map fst (concat cs))" using mset_eq_imp_distinct_iff by blast
    have set: "set (concat cs) = set us" using m by (metis set_mset_mset)
    have ups: "list_all (updates_ok W W') cs"
      using e(4) set unfolding updates_ok_def list_all_iff set_concat by blast
    have old: "list_all (\<lambda>u. map_of base (fst u) = Some (W (fst u))) (concat cs)"
    proof -
      have "fst u \<in> set (concat ?nss)" if "u \<in> set us" for u
        using that arg_cong[OF e(5), of set] by (auto simp del: set_concat)
      with base(3) show ?thesis unfolding list_all_iff set by blast
    qed
    have ty: "\<And>n. same_type (W n) (W' n)" using types by blast
    from run_commits_ok[OF ups dist old ty] obtain base' where b: "run_commits cs base = (base', Inr ())"
      "\<forall>n. map_of base' n = (if n \<in> fst ` set us then Some (W' n) else map_of base n)"
      unfolding set by blast
    have "map_of base' n = Some (W' n)" if "n \<in> set (concat ?nss)" for n
    proof (cases "W' n = W n")
      case True
      then show ?thesis using b(2) base(3) that by (simp add: list_all_iff del: set_concat)
    next
      case False
      with that have "n \<in> set (map fst us)" unfolding e(5) by simp
      with b(2) show ?thesis by simp
    qed
    then have "list_all (\<lambda>n. map_of base' n = Some (W' n)) (concat ?nss)" by (simp add: list_all_iff del: set_concat)
    with b(1) False show ?thesis by (simp add: tracker_at_def on_sync_succeeded_def tk2_def Let_def f1 cs_def)
  qed
  show ?thesis
    using stream q(2) names succeeded failed f1(3,4) by (intro exI[of _ tk2] exI[of _ qs]) (auto simp: tk2_def)
qed

section \<open>The baseline\<close>

text \<open>The bit patterns have the size of the element type.\<close>

definition fits :: "tensor \<Rightarrow> bool" where
  "fits t \<longleftrightarrow> list_all (\<lambda>x. uint x < 256 ^ dt_size (t_dtype t)) (t_bits t)"

lemma length_tensor_bytes: "length (tensor_bytes t) = length (t_bits t) * dt_size (t_dtype t)"
proof -
  have "list_all (\<lambda>xs. length xs = dt_size (t_dtype t)) (map (\<lambda>x. le_bytes (dt_size (t_dtype t)) (uint x)) (t_bits t))"
    by (simp add: list_all_iff)
  from length_concat_fixed[OF this] show ?thesis by (simp add: tensor_bytes_def)
qed

lemma copy_tensor_bytes:
  assumes "fits t" and "same_type b t" and "0 < dt_size (t_dtype t)"
  shows "copy_bytes (tensor_bytes t) b = t"
proof -
  let ?n = "dt_size (t_dtype t)"
  have "le_view ?n (tensor_bytes t) = map (\<lambda>x. x mod 256 ^ ?n) (map uint (t_bits t))"
    using le_view_bytes[OF assms(3), of "map uint (t_bits t)"] by (simp add: tensor_bytes_def comp_def)
  moreover have "uint x mod 256 ^ ?n = uint x" if "x \<in> set (t_bits t)" for x
    using assms(1) that by (auto simp: fits_def list_all_iff intro: mod_pos_pos_trivial)
  ultimately have "map word_of_int (le_view ?n (tensor_bytes t)) = t_bits t"
    by (simp add: map_idI)
  with assms(2) show ?thesis by (simp add: copy_bytes_def same_type_def)
qed

text \<open>The tensors of the baseline have the types of \<open>W\<close>.\<close>

definition base_typed :: "(string \<Rightarrow> tensor) \<Rightarrow> baseline \<Rightarrow> bool" where
  "base_typed W base \<longleftrightarrow> (\<forall>n b. map_of base n = Some b \<longrightarrow> same_type b (W n) \<and> length (t_bits b) = length (t_bits (W n)))"

text \<open>Every entry of the baseline is the tensor of \<open>W\<close>.\<close>

definition base_of :: "(string \<Rightarrow> tensor) \<Rightarrow> baseline \<Rightarrow> bool" where
  "base_of W base \<longleftrightarrow> list_all (\<lambda>x. snd x = W (fst x)) base"

lemma base_of_typed: "base_of W base \<Longrightarrow> base_typed W base"
  by (auto simp: base_of_def base_typed_def list_all_iff same_type_def dest!: map_of_SomeD)

lemma base_of_update: "base_of W base \<Longrightarrow> base_of W (AList.update n (W n) base)"
  unfolding base_of_def by (induction base) auto

lemma snapshot_tensors_ok:
  assumes W: "\<And>n. sendable T (W n) \<and> fits (W n)" and "base_of W base"
  shows "\<exists>base'. snapshot_tensors (map (\<lambda>n. (n, W n)) ns) base = (base', Inr ()) \<and> base_of W base'
    \<and> (\<forall>n. map_of base' n = (if n \<in> set ns then Some (W n) else map_of base n))"
  using assms(2)
proof (induction ns arbitrary: base)
  case (Cons n ns)
  let ?b = "get_baseline n (W n) base"
  have ok: "length (t_bits (W n)) = prod_list (t_shape (W n))" "0 < dt_size (t_dtype (W n))"
    using W[of n] by (auto simp: sendable_def tensor_ok_def)
  have b: "same_type ?b (W n)" "length (t_bits ?b) = length (t_bits (W n))"
    using base_of_typed[OF Cons.prems] ok(1) by (auto simp: get_baseline_def base_typed_def same_type_def split: option.split)
  then have "length (tensor_bytes ?b) = length (tensor_bytes (W n))" by (simp add: length_tensor_bytes same_type_def)
  moreover have "copy_bytes (tensor_bytes (W n)) ?b = W n" using W b(1) ok(2) by (intro copy_tensor_bytes) auto
  ultimately have s: "snapshot_tensors (map (\<lambda>n. (n, W n)) (n # ns)) base = snapshot_tensors (map (\<lambda>n. (n, W n)) ns) (AList.update n (W n) base)"
    by (simp add: Let_def)
  from Cons.IH[OF base_of_update[OF Cons.prems, of n]] s show ?case by (auto simp: update_conv)
qed simp

lemma snapshot_chunks_ok:
  assumes W: "\<And>n. sendable T (W n) \<and> fits (W n)" and "base_of W (tk_baseline tk)" "tk_commits tk = []"
  shows "\<exists>base'. snapshot_chunks (map (map (\<lambda>n. (n, W n))) nss) tk = (tk\<lparr>tk_baseline := base'\<rparr>, Inr ()) \<and> base_of W base'
    \<and> (\<forall>n. map_of base' n = (if n \<in> set (concat nss) then Some (W n) else map_of (tk_baseline tk) n))"
  using assms(2,3)
proof (induction nss arbitrary: tk)
  case Nil
  then show ?case by (intro exI[of _ "tk_baseline tk"]) simp
next
  case (Cons ns nss)
  from snapshot_tensors_ok[OF W Cons.prems(1), of ns] obtain base1 where
    b: "snapshot_tensors (map (\<lambda>n. (n, W n)) ns) (tk_baseline tk) = (base1, Inr ())" "base_of W base1"
      "\<forall>n. map_of base1 n = (if n \<in> set ns then Some (W n) else map_of (tk_baseline tk) n)" by blast
  have s: "snapshot_baseline (map (\<lambda>n. (n, W n)) ns) tk = (tk\<lparr>tk_baseline := base1\<rparr>, Inr ())"
    using wait_again[OF Cons.prems(2)] b(1) by (simp add: snapshot_baseline_def)
  from Cons.IH[of "tk\<lparr>tk_baseline := base1\<rparr>"] b(2) Cons.prems(2) obtain base' where
    "snapshot_chunks (map (map (\<lambda>n. (n, W n))) nss) (tk\<lparr>tk_baseline := base1\<rparr>) = (tk\<lparr>tk_baseline := base'\<rparr>, Inr ())" "base_of W base'"
    "\<forall>n. map_of base' n = (if n \<in> set (concat nss) then Some (W n) else map_of base1 n)" by auto
  with s b(3) show ?case by (intro exI[of _ base']) auto
qed

lemma init_baseline_ok:
  assumes W: "\<And>n. sendable T (W n) \<and> fits (W n)"
  shows "\<exists>tk. init_sparse_delta_baseline rank shards target (map (\<lambda>n. (n, W n)) ns) (new_tracker encoding samples bytes) = (tk, Inr ())
    \<and> tracker_at W (concat (own_names W rank shards target ns)) tk \<and> tk_encoding tk = encoding \<and> base_of W (tk_baseline tk)"
proof -
  let ?tk = "new_tracker encoding samples bytes"
  have "base_of W (tk_baseline ?tk)" "tk_commits ?tk = []" by (simp_all add: base_of_def new_tracker_def)
  from snapshot_chunks_ok[OF W this, of "own_names W rank shards target ns"] obtain base where
    b: "snapshot_chunks (map (map (\<lambda>n. (n, W n))) (own_names W rank shards target ns)) ?tk = (?tk\<lparr>tk_baseline := base\<rparr>, Inr ())" "base_of W base"
      "\<forall>n. map_of base n = (if n \<in> set (concat (own_names W rank shards target ns)) then Some (W n) else map_of (tk_baseline ?tk) n)"
    by blast
  have "tracker_at W (concat (own_names W rank shards target ns)) (?tk\<lparr>tk_baseline := base\<rparr>)"
    using b(3) by (simp add: tracker_at_def new_tracker_def list_all_iff del: set_concat)
  with b(1,2) show ?thesis by (auto simp: init_sparse_delta_baseline_def own_chunks_names new_tracker_def)
qed

end
