(* ===== verification/RefitQueue.thy ===== *)
theory RefitQueue
  imports Prelude "HOL-Library.AList"
begin

text \<open>
  The receiver's queue of payloads (\<open>nemo_rl/models/generation/vllm/vllm_sparse_refit.py\<close>) and the relay tree that fans
  payloads out over the receivers (\<open>nemo_rl/utils/weight_transfer_zmq.py\<close>).  A payload is known by its key and
  checksum; the queue drops repeated ones, groups the others in batches and hands the batches to a single
  worker thread.  What applying a batch does to the model is the argument \<open>f\<close>.  The staging of payloads in
  files and the timings are left out.
\<close>

section \<open>The queue\<close>

type_synonym payload_key = "string \<times> int \<times> int"

text \<open>A batch handed to the worker thread, and its result once it is done.\<close>

type_synonym 'p batch_future = "'p list \<times> unit res option"

record ('p, 'm) refit_queue =
  q_model :: 'm
  q_seen :: "(payload_key \<times> string) list"
  q_pending :: "'p list"
  q_futures :: "'p batch_future list"
  q_candidates :: nat
  q_depth :: nat
  q_batch :: nat

definition new_queue :: "'m \<Rightarrow> nat \<Rightarrow> nat \<Rightarrow> ('p, 'm) refit_queue" where
  "new_queue m depth batch =
     \<lparr>q_model = m, q_seen = [], q_pending = [], q_futures = [], q_candidates = 0, q_depth = depth, q_batch = batch\<rparr>"

text \<open>The worker thread takes the first batch that is not done.\<close>

fun work_futures :: "('p list \<Rightarrow> 'm \<Rightarrow> 'm \<times> unit res) \<Rightarrow> 'p batch_future list \<Rightarrow> 'm \<Rightarrow> 'p batch_future list \<times> 'm" where
  "work_futures f [] m = ([], m)"
| "work_futures f ((ps, Some r) # fs) m = (case work_futures f fs m of (fs', m') \<Rightarrow> ((ps, Some r) # fs', m'))"
| "work_futures f ((ps, None) # fs) m = (case f ps m of (m', r) \<Rightarrow> ((ps, Some r) # fs, m'))"

definition work :: "('p list \<Rightarrow> 'm \<Rightarrow> 'm \<times> unit res) \<Rightarrow> ('p, 'm) refit_queue \<Rightarrow> ('p, 'm) refit_queue" where
  "work f q = (case work_futures f (q_futures q) (q_model q) of (fs, m) \<Rightarrow> q\<lparr>q_futures := fs, q_model := m\<rparr>)"

definition submit_pending :: "('p, 'm) refit_queue \<Rightarrow> ('p, 'm) refit_queue" where
  "submit_pending q = q\<lparr>q_pending := [], q_futures := q_futures q @ [(q_pending q, None)]\<rparr>"

text \<open>\<open>[future.result() for future in futures]\<close>: the first exception, or the number of payloads applied.\<close>

fun collect_results :: "'p batch_future list \<Rightarrow> nat res" where
  "collect_results [] = Inr 0"
| "collect_results ((ps, Some (Inr _)) # fs) = bindR (collect_results fs) (\<lambda>n. Inr (length ps + n))"
| "collect_results ((ps, Some (Inl e)) # fs) = Inl e"
| "collect_results ((ps, None) # fs) = collect_results fs"

definition done_future :: "'p batch_future \<Rightarrow> bool" where
  "done_future x \<longleftrightarrow> snd x \<noteq> None"

text \<open>A full queue is waited for until its oldest batch is done.\<close>

definition wait_for_room :: "('p list \<Rightarrow> 'm \<Rightarrow> 'm \<times> unit res) \<Rightarrow> ('p, 'm) refit_queue \<Rightarrow> ('p, 'm) refit_queue" where
  "wait_for_room f q =
     (if q_depth q \<le> length (q_futures q) \<and> q_futures q \<noteq> [] \<and> \<not> done_future (q_futures q ! 0) then work f q else q)"

text \<open>The answer to an accepted payload is the number of payloads applied since, and whether it was a duplicate.\<close>

definition enqueue ::
  "('p list \<Rightarrow> 'm \<Rightarrow> 'm \<times> unit res) \<Rightarrow> payload_key \<Rightarrow> string \<Rightarrow> nat \<Rightarrow> 'p \<Rightarrow> ('p, 'm) refit_queue
     \<Rightarrow> ('p, 'm) refit_queue \<times> (nat \<times> bool) res" where
  "enqueue f key checksum candidates p q =
     (case map_of (q_seen q) key of
        Some c \<Rightarrow> (q, if c \<noteq> checksum then Inl ValueError else Inr (0, True))
      | None \<Rightarrow>
          (let q1 = wait_for_room f q;
               completed = takeWhile done_future (q_futures q1);
               q2 = q1\<lparr>q_futures := dropWhile done_future (q_futures q1)\<rparr>
           in case collect_results completed of
                Inl e \<Rightarrow> (q2, Inl e)
              | Inr n \<Rightarrow>
                  (let q3 = q2\<lparr>q_seen := AList.update key checksum (q_seen q2), q_candidates := q_candidates q2 + candidates,
                               q_pending := q_pending q2 @ [p]\<rparr>
                   in (if length (q_pending q3) = q_batch q3 then submit_pending q3 else q3, Inr (n, False)))))"

fun work_all :: "('p list \<Rightarrow> 'm \<Rightarrow> 'm \<times> unit res) \<Rightarrow> 'p batch_future list \<Rightarrow> 'm \<Rightarrow> 'p batch_future list \<times> 'm" where
  "work_all f [] m = ([], m)"
| "work_all f ((ps, Some r) # fs) m = (case work_all f fs m of (fs', m') \<Rightarrow> ((ps, Some r) # fs', m'))"
| "work_all f ((ps, None) # fs) m =
     (case f ps m of (m1, r) \<Rightarrow> case work_all f fs m1 of (fs', m') \<Rightarrow> ((ps, Some r) # fs', m'))"

text \<open>
  A flush waits for every batch and, when there was one, has the workers finish the transfer (\<open>fin\<close>, the
  call of \<open>finish_sparse_delta_refit\<close>).  Its answer is the number of payloads of the transfer; when a batch or
  the finish has failed, the payloads seen are not forgotten but the batches are.
\<close>

definition flush ::
  "('p list \<Rightarrow> 'm \<Rightarrow> 'm \<times> unit res) \<Rightarrow> ('m \<Rightarrow> 'm \<times> unit res) \<Rightarrow> ('p, 'm) refit_queue \<Rightarrow> ('p, 'm) refit_queue \<times> nat res" where
  "flush f fin q =
     (let q1 = (if q_pending q \<noteq> [] then submit_pending q else q);
          (fs, m) = work_all f (q_futures q1) (q_model q1);
          q2 = q1\<lparr>q_futures := [], q_model := m\<rparr>
      in case collect_results fs of
           Inl e \<Rightarrow> (q2, Inl e)
         | Inr _ \<Rightarrow>
             (let (m', v) = (if fs \<noteq> [] then fin m else (m, Inr ()));
                  q3 = q2\<lparr>q_model := m'\<rparr>
              in case v of
                   Inl e \<Rightarrow> (q3, Inl e)
                 | Inr _ \<Rightarrow> (q3\<lparr>q_seen := [], q_candidates := 0\<rparr>, Inr (length (q_seen q3)))))"

section \<open>Runs\<close>

text \<open>A payload arrives, or the worker thread makes progress.\<close>

datatype 'p queue_event = Arrive payload_key string nat 'p | Work

fun queue_step :: "('p list \<Rightarrow> 'm \<Rightarrow> 'm \<times> unit res) \<Rightarrow> ('p, 'm) refit_queue \<Rightarrow> 'p queue_event \<Rightarrow> ('p, 'm) refit_queue \<times> unit res" where
  "queue_step f q (Arrive key c n p) = (case enqueue f key c n p q of (q', r) \<Rightarrow> (q', bindR r (\<lambda>_. Inr ())))"
| "queue_step f q Work = (work f q, Inr ())"

text \<open>A run, and whether every payload was answered without an error.\<close>

fun queue_run :: "('p list \<Rightarrow> 'm \<Rightarrow> 'm \<times> unit res) \<Rightarrow> ('p, 'm) refit_queue \<Rightarrow> 'p queue_event list \<Rightarrow> ('p, 'm) refit_queue \<times> bool" where
  "queue_run f q [] = (q, True)"
| "queue_run f q (e # es) =
     (case queue_step f q e of (q1, r) \<Rightarrow> case queue_run f q1 es of (q2, b) \<Rightarrow> (q2, ok r \<and> b))"

text \<open>The payloads that arrived, without the repeated ones.\<close>

fun first_arrivals :: "payload_key set \<Rightarrow> 'p queue_event list \<Rightarrow> (payload_key \<times> 'p) list" where
  "first_arrivals S [] = []"
| "first_arrivals S (Work # es) = first_arrivals S es"
| "first_arrivals S (Arrive key c n p # es) =
     (if key \<in> S then first_arrivals S es else (key, p) # first_arrivals (insert key S) es)"

text \<open>\<open>xs\<close> cut into groups of \<open>n\<close>, the last one possibly shorter.\<close>

function groups_of :: "nat \<Rightarrow> 'a list \<Rightarrow> 'a list list" where
  "groups_of n xs = (if xs = [] \<or> n = 0 then [] else take n xs # groups_of n (drop n xs))"
  by pat_completeness auto
termination by (relation "measure (\<lambda>(n, xs). length xs)") auto

declare groups_of.simps [simp del]

text \<open>Batches applied one after the other, up to the first that fails.\<close>

fun apply_batches :: "('p list \<Rightarrow> 'm \<Rightarrow> 'm \<times> unit res) \<Rightarrow> 'p list list \<Rightarrow> 'm \<Rightarrow> 'm \<times> unit res" where
  "apply_batches f [] m = (m, Inr ())"
| "apply_batches f (b # bs) m = (case f b m of (m', Inl e) \<Rightarrow> (m', Inl e) | (m', Inr _) \<Rightarrow> apply_batches f bs m')"

section \<open>Batches in order\<close>

text \<open>The results and the model after a list of batches, whatever they return.\<close>

fun exec_batches :: "('p list \<Rightarrow> 'm \<Rightarrow> 'm \<times> unit res) \<Rightarrow> 'p list list \<Rightarrow> 'm \<Rightarrow> unit res list \<times> 'm" where
  "exec_batches f [] m = ([], m)"
| "exec_batches f (b # bs) m = (case f b m of (m1, r) \<Rightarrow> case exec_batches f bs m1 of (rs, m2) \<Rightarrow> (r # rs, m2))"

lemma exec_append:
  "exec_batches f (bs @ cs) m = (case exec_batches f bs m of (rs, m1) \<Rightarrow> case exec_batches f cs m1 of (rs', m2) \<Rightarrow> (rs @ rs', m2))"
  by (induction bs arbitrary: m) (auto split: prod.split)


lemma apply_append:
  "apply_batches f (bs @ cs) m = (case apply_batches f bs m of (m1, Inl e) \<Rightarrow> (m1, Inl e) | (m1, Inr _) \<Rightarrow> apply_batches f cs m1)"
  by (induction bs arbitrary: m) (auto split: prod.split sum.split)

lemma exec_ok: "exec_batches f bs m = (rs, m') \<Longrightarrow> list_all ok rs \<Longrightarrow> apply_batches f bs m = (m', Inr ())"
  by (induction bs arbitrary: m rs) (auto split: prod.splits sum.splits)

text \<open>The batches of the list: those done with their results, then those to do.\<close>

definition futures_of :: "'p list list \<Rightarrow> unit res list \<Rightarrow> 'p list list \<Rightarrow> 'p batch_future list" where
  "futures_of ds rs ns = map2 (\<lambda>b r. (b, Some r)) ds rs @ map (\<lambda>b. (b, None)) ns"

lemma work_futures_shape:
  "length ds = length rs \<Longrightarrow> work_futures f (futures_of ds rs []) m = (futures_of ds rs [], m)"
  "length ds = length rs \<Longrightarrow> work_futures f (futures_of ds rs (b # ns)) m =
     (case f b m of (m', r) \<Rightarrow> (futures_of (ds @ [b]) (rs @ [r]) ns, m'))"
  by (induction ds rs rule: list_induct2) (auto simp: futures_of_def split: prod.split)


lemma done_prefix:
  assumes "length ds = length rs"
  shows "takeWhile done_future (futures_of ds rs ns) = futures_of ds rs []" "dropWhile done_future (futures_of ds rs ns) = futures_of [] [] ns"
  using assms
proof (induction ds rs rule: list_induct2)
  case Nil
  show "takeWhile done_future (futures_of [] [] ns) = futures_of [] [] []" "dropWhile done_future (futures_of [] [] ns) = futures_of [] [] ns"
    by (cases ns; simp add: futures_of_def done_future_def)+
qed (simp_all add: futures_of_def done_future_def)

lemma update_new: "map_of d k = None \<Longrightarrow> AList.update k v d = d @ [(k, v)]"
  by (induction d) (auto split: if_splits)

lemma collect_shape: "length ds = length rs \<Longrightarrow> ok (collect_results (futures_of ds rs [])) = list_all ok rs"
proof (induction ds rs rule: list_induct2)
  case (Cons d ds r rs)
  then show ?case by (cases r; cases "collect_results (futures_of ds rs [])") (auto simp: futures_of_def)
qed (simp add: futures_of_def)

section \<open>What the queue holds\<close>

text \<open>
  The payloads \<open>ps\<close> accepted so far are in order in the batches that were answered for (\<open>es\<close>, all applied),
  those done, those to do, and the pending ones.
\<close>

definition queue_holds :: "('p list \<Rightarrow> 'm \<Rightarrow> 'm \<times> unit res) \<Rightarrow> 'm \<Rightarrow> 'p list \<Rightarrow> ('p, 'm) refit_queue \<Rightarrow> bool" where
  "queue_holds f m0 ps q \<longleftrightarrow> (\<exists>es m1 ds rs ns.
     q_futures q = futures_of ds rs ns \<and> length ds = length rs \<and> apply_batches f es m0 = (m1, Inr ())
     \<and> exec_batches f ds m1 = (rs, q_model q) \<and> concat (es @ ds @ ns) @ q_pending q = ps
     \<and> list_all (\<lambda>b. length b = q_batch q) (es @ ds @ ns) \<and> length (q_pending q) < q_batch q
     \<and> (ds @ ns = [] \<and> q_pending q = [] \<longrightarrow> ps = []))"

lemma queue_holds_work:
  assumes "queue_holds f m0 ps q"
  shows "queue_holds f m0 ps (work f q)"
proof -
  from assms obtain es m1 ds rs ns where q: "q_futures q = futures_of ds rs ns" "length ds = length rs"
    "apply_batches f es m0 = (m1, Inr ())" "exec_batches f ds m1 = (rs, q_model q)" "concat (es @ ds @ ns) @ q_pending q = ps"
    "list_all (\<lambda>b. length b = q_batch q) (es @ ds @ ns)" "length (q_pending q) < q_batch q" "ds @ ns = [] \<and> q_pending q = [] \<longrightarrow> ps = []"
    unfolding queue_holds_def by blast
  show ?thesis
  proof (cases ns)
    case Nil
    then have "work f q = q" using q(1,2) by (simp add: work_def work_futures_shape)
    with assms show ?thesis by simp
  next
    case (Cons b ns')
    obtain m' r where f: "f b (q_model q) = (m', r)" by (cases "f b (q_model q)")
    then have w: "work f q = q\<lparr>q_futures := futures_of (ds @ [b]) (rs @ [r]) ns', q_model := m'\<rparr>"
      using q(1,2) Cons by (simp add: work_def work_futures_shape)
    have "exec_batches f (ds @ [b]) m1 = (rs @ [r], m')" using q(4) f by (simp add: exec_append)
    then show ?thesis
      unfolding queue_holds_def w using q Cons
      by (intro exI[of _ es] exI[of _ m1] exI[of _ "ds @ [b]"] exI[of _ "rs @ [r]"] exI[of _ ns']) simp
  qed
qed

lemma work_fields: "q_seen (work f q) = q_seen q" "q_pending (work f q) = q_pending q" "q_batch (work f q) = q_batch q"
  by (simp_all add: work_def split: prod.split)

lemma wait_for_room_fields: "q_seen (wait_for_room f q) = q_seen q" "q_batch (wait_for_room f q) = q_batch q"
  by (simp_all add: wait_for_room_def work_fields)

lemma queue_holds_wait: "queue_holds f m0 ps q \<Longrightarrow> queue_holds f m0 ps (wait_for_room f q)"
  by (simp add: wait_for_room_def queue_holds_work)

lemma queue_holds_enqueue:
  assumes holds: "queue_holds f m0 ps q" and new: "map_of (q_seen q) key = None"
    and enq: "enqueue f key c n p q = (q', Inr r)"
  shows "queue_holds f m0 (ps @ [p]) q'" "q_seen q' = q_seen q @ [(key, c)]" "q_batch q' = q_batch q"
proof -
  let ?q1 = "wait_for_room f q"
  from queue_holds_wait[OF holds] obtain es m1 ds rs ns where q: "q_futures ?q1 = futures_of ds rs ns" "length ds = length rs"
    "apply_batches f es m0 = (m1, Inr ())" "exec_batches f ds m1 = (rs, q_model ?q1)" "concat (es @ ds @ ns) @ q_pending ?q1 = ps"
    "list_all (\<lambda>b. length b = q_batch ?q1) (es @ ds @ ns)" "length (q_pending ?q1) < q_batch ?q1" "ds @ ns = [] \<and> q_pending ?q1 = [] \<longrightarrow> ps = []"
    unfolding queue_holds_def by blast
  let ?q3 = "?q1\<lparr>q_futures := futures_of [] [] ns, q_seen := AList.update key c (q_seen ?q1),
      q_candidates := q_candidates ?q1 + n, q_pending := q_pending ?q1 @ [p]\<rparr>"
  from enq new q(1,2) have "ok (collect_results (futures_of ds rs []))"
    and q': "q' = (if length (q_pending ?q1) + 1 = q_batch ?q1 then submit_pending ?q3 else ?q3)"
    by (auto simp: enqueue_def Let_def done_prefix split: sum.splits if_splits)
  then have "apply_batches f ds m1 = (q_model ?q1, Inr ())"
    using collect_shape[OF q(2)] exec_ok[OF q(4)] by simp
  then have ap: "apply_batches f (es @ ds) m0 = (q_model ?q1, Inr ())" using q(3) by (simp add: apply_append)
  show "queue_holds f m0 (ps @ [p]) q'"
  proof (cases "length (q_pending ?q1) + 1 = q_batch ?q1")
    case True
    then show ?thesis
      unfolding queue_holds_def q' using q ap
      by (intro exI[of _ "es @ ds"] exI[of _ "q_model ?q1"] exI[of _ "[]"] exI[of _ "[]"] exI[of _ "ns @ [q_pending ?q1 @ [p]]"])
        (auto simp: submit_pending_def futures_of_def)
  next
    case False
    then show ?thesis
      unfolding queue_holds_def q' using q ap
      by (intro exI[of _ "es @ ds"] exI[of _ "q_model ?q1"] exI[of _ "[]"] exI[of _ "[]"] exI[of _ ns]) auto
  qed
  show "q_seen q' = q_seen q @ [(key, c)]" "q_batch q' = q_batch q"
    using wait_for_room_fields[of f q] update_new[OF new] by (simp_all add: q' submit_pending_def)
qed


definition seen_keys :: "('p, 'm) refit_queue \<Rightarrow> payload_key set" where
  "seen_keys q = fst ` set (q_seen q)"

lemma queue_holds_run:
  assumes "queue_holds f m0 ps q" and "queue_run f q es = (q', True)"
  shows "queue_holds f m0 (ps @ map snd (first_arrivals (seen_keys q) es)) q'
    \<and> length (q_seen q') = length (q_seen q) + length (first_arrivals (seen_keys q) es) \<and> q_batch q' = q_batch q"
  using assms
proof (induction es arbitrary: q ps)
  case (Cons e es)
  obtain q1 r where s: "queue_step f q e = (q1, r)" by (cases "queue_step f q e")
  with Cons.prems(2) have r: "ok r" and run: "queue_run f q1 es = (q', True)" by (auto split: prod.splits)
  show ?case
  proof (cases e)
    case Work
    with s have q1: "q1 = work f q" by simp
    have "seen_keys q1 = seen_keys q" by (simp add: q1 seen_keys_def work_fields)
    with Cons.IH[OF _ run, of ps] queue_holds_work[OF Cons.prems(1)] show ?thesis
      by (simp add: q1 work_fields Work)
  next
    case (Arrive key c n p)
    show ?thesis
    proof (cases "map_of (q_seen q) key")
      case None
      from s r Arrive obtain x where enq: "enqueue f key c n p q = (q1, Inr x)"
        by (cases "snd (enqueue f key c n p q)") (auto split: prod.splits)
      note h = queue_holds_enqueue[OF Cons.prems(1) None enq]
      have "key \<notin> seen_keys q" using None by (simp add: seen_keys_def map_of_eq_None_iff)
      moreover have "seen_keys q1 = insert key (seen_keys q)" by (simp add: seen_keys_def h(2))
      ultimately show ?thesis using Cons.IH[OF h(1) run] h(2,3) by (simp add: Arrive)
    next
      case (Some c')
      then have "q1 = q" using s Arrive by (auto simp: enqueue_def split: prod.splits)
      moreover have "key \<in> seen_keys q" using Some by (force simp: seen_keys_def dest: map_of_SomeD)
      ultimately show ?thesis using Cons.IH[OF Cons.prems(1)] run Arrive by simp
    qed
  qed
qed simp




definition queue_idle :: "('p, 'm) refit_queue \<Rightarrow> bool" where
  "queue_idle q \<longleftrightarrow> q_seen q = [] \<and> q_pending q = [] \<and> q_futures q = [] \<and> 0 < q_batch q"


lemma concat_groups_of: "0 < n \<Longrightarrow> concat (groups_of n xs) = xs"
proof (induction n xs rule: groups_of.induct)
  case (1 n xs)
  then show ?case by (subst groups_of.simps) auto
qed

text \<open>A run without payloads leaves an idle queue as it is.\<close>

lemma idle_run:
  assumes "queue_idle q" and "queue_run f q es = (q1, True)" and "first_arrivals {} es = []"
  shows "queue_idle q1 \<and> q_model q1 = q_model q"
proof -
  have "queue_holds f (q_model q) [] q"
    using assms(1) unfolding queue_holds_def queue_idle_def
    by (intro exI[of _ "[]"] exI[of _ "q_model q"]) (auto simp: futures_of_def)
  from queue_holds_run[OF this assms(2)] assms(1,3)
  have h: "queue_holds f (q_model q) [] q1" "q_seen q1 = []" "q_batch q1 = q_batch q"
    by (simp_all add: queue_idle_def seen_keys_def)
  then obtain es m1 ds rs ns where d: "q_futures q1 = futures_of ds rs ns" "length ds = length rs"
    "apply_batches f es (q_model q) = (m1, Inr ())" "exec_batches f ds m1 = (rs, q_model q1)" "concat (es @ ds @ ns) @ q_pending q1 = []"
    "list_all (\<lambda>b. length b = q_batch q1) (es @ ds @ ns)" "length (q_pending q1) < q_batch q1"
    unfolding queue_holds_def by blast
  have "es @ ds @ ns = []" using d(5-7) by (cases "es @ ds @ ns") auto
  with d h(2) show ?thesis by (auto simp: queue_idle_def futures_of_def)
qed


text \<open>A worker that appends the payloads of a batch, and fails on a zero.\<close>

definition demo_apply :: "nat list \<Rightarrow> nat list \<Rightarrow> nat list \<times> unit res" where
  "demo_apply ps m = (if 0 \<in> set ps then (m, Inl RuntimeError) else (m @ ps, Inr ()))"

definition demo_finish :: "nat list \<Rightarrow> nat list \<times> unit res" where
  "demo_finish m = (m @ [100], Inr ())"


text \<open>
  C39: A flush is not repeatable: when it reports the failure of a batch or of the finish, the same request sent again is
  answered with success, although nothing was applied in between.
\<close>

theorem flush_forgets_failure:
  assumes "flush f fin q = (q1, Inl e)"
  shows "\<exists>q2 k. flush f fin q1 = (q2, Inr k) \<and> q_model q2 = q_model q1 \<and> k = length (q_seen q)"
proof -
  from assms have "q_futures q1 = []" "q_pending q1 = []" "q_seen q1 = q_seen q"
    by (auto simp: flush_def Let_def submit_pending_def split: prod.splits sum.splits if_splits)
  then show ?thesis by (simp add: flush_def)
qed

theorem flush_forgets_failure_witness:
  "snd (flush demo_apply demo_finish (fst (flush demo_apply demo_finish (fst (queue_run demo_apply (new_queue [9] 1 2)
     [Arrive (''t'', 0, 0) ''x'' 0 1, Arrive (''t'', 1, 0) ''y'' 0 0]))))) = Inr 2"
proof -
  let ?q = "fst (queue_run demo_apply (new_queue [9] 1 2) [Arrive (''t'', 0, 0) ''x'' 0 1, Arrive (''t'', 1, 0) ''y'' 0 0])"
  have "snd (flush demo_apply demo_finish ?q) = Inl RuntimeError" "length (q_seen ?q) = 2" by code_simp+
  then have "flush demo_apply demo_finish ?q = (fst (flush demo_apply demo_finish ?q), Inl RuntimeError)" by (metis prod.collapse)
  from flush_forgets_failure[OF this] \<open>length (q_seen ?q) = 2\<close> show ?thesis by auto
qed


end
