(* ===== verification/SparseSync.thy ===== *)
theory SparseSync
  imports Tracker RefitQueue
begin

text \<open>
  The synchronizer of a sparse refit (\<open>nemo_rl/weight_sync/vllm_remote_sparse_weight_synchronizer.py\<close>,
  \<open>nemo_rl/models/policy/workers/megatron_remote_sparse_refit.py\<close>) with both sides of it: the ranks of the trainer
  (\<open>Tracker\<close>), and the receivers, each a queue (\<open>RefitQueue\<close>) in front of the workers of an engine (\<open>SparseApply\<close>).
  What happens on the way is a script: the order in which encoders finish, what arrives at each receiver
  and when its worker thread runs, whether the transport reports success, and what the engines report at
  the end.  Metrics, timings and the HTTP layer are left out.
\<close>

section \<open>Receivers\<close>

record receiver =
  rc_appliers :: "applier list"
  rc_queue :: "(payload, memory list) refit_queue"

text \<open>A collective call runs on every worker, and fails when it fails on one.\<close>

definition engine_apply :: "torch \<Rightarrow> applier list \<Rightarrow> payload list \<Rightarrow> memory list \<Rightarrow> memory list \<times> unit res" where
  "engine_apply T as ps ms =
     (let rs = map2 (\<lambda>a m. apply_payloads T a ps m) as ms
      in (map fst rs, if list_all (\<lambda>r. ok (snd r)) rs then Inr () else Inl RuntimeError))"

definition receive_payloads :: "torch \<Rightarrow> payload queue_event list \<Rightarrow> receiver \<Rightarrow> receiver \<times> bool" where
  "receive_payloads T es rc =
     (case queue_run (engine_apply T (rc_appliers rc)) (rc_queue rc) es of (q, b) \<Rightarrow> (rc\<lparr>rc_queue := q\<rparr>, b))"

text \<open>The flush; \<open>v\<close> is how the comparison of the samples ends, which reads the model only.\<close>

definition flush_receiver :: "torch \<Rightarrow> unit res \<Rightarrow> receiver \<Rightarrow> receiver \<times> nat res" where
  "flush_receiver T v rc =
     (case flush (engine_apply T (rc_appliers rc)) (\<lambda>ms. (ms, v)) (rc_queue rc) of (q, r) \<Rightarrow> (rc\<lparr>rc_queue := q\<rparr>, r))"

text \<open>The dry run on every worker: the receiver with the names to skip, and the names to overwrite.\<close>

definition prepare_receiver :: "torch \<Rightarrow> (string \<times> nat list \<times> dtype) list \<Rightarrow> receiver \<Rightarrow> receiver \<times> string list res" where
  "prepare_receiver T infos rc =
     (let rs = map2 (discover_native_skips T infos) (rc_appliers rc) (q_model (rc_queue rc));
          rc1 = rc\<lparr>rc_queue := (rc_queue rc)\<lparr>q_model := map fst rs\<rparr>\<rparr>
      in case mapR snd rs of
           Inl e \<Rightarrow> (rc1, Inl RuntimeError)
         | Inr xs \<Rightarrow> (rc1\<lparr>rc_appliers := map fst xs\<rparr>, Inr (remdups (concat (map snd xs)))))"

section \<open>The synchronizer\<close>

record synchronizer =
  sy_poisoned :: bool
  sy_stale :: bool
  sy_overwrite :: "string list"
  sy_trackers :: "tracker list"
  sy_receivers :: "receiver list"

record sync_script =
  sc_kv_invalidated :: bool
  sc_orders :: "nat \<Rightarrow> nat list"
  sc_events :: "nat \<Rightarrow> payload queue_event list"
  sc_acked :: bool
  sc_finish :: "nat \<Rightarrow> unit res"
  sc_mismatches :: nat
  sc_abort :: "nat \<Rightarrow> unit res"

text \<open>Every rank streams its chunks; a rank's exception is raised once the others have run.\<close>

fun stream_ranks ::
  "nat \<Rightarrow> nat \<Rightarrow> string list \<Rightarrow> (nat \<Rightarrow> nat list) \<Rightarrow> (string \<times> tensor) list \<Rightarrow> nat \<Rightarrow> tracker list \<Rightarrow> tracker list \<times> payload list res" where
  "stream_ranks shards target overwrite orders xs rank [] = ([], Inr [])"
| "stream_ranks shards target overwrite orders xs rank (tk # tks) =
     (case stream_sparse_delta_payloads rank shards target (orders rank) xs (tk\<lparr>tk_overwrite := overwrite\<rparr>) of
        (tk1, r) \<Rightarrow> case stream_ranks shards target overwrite orders xs (Suc rank) tks of
          (tks1, r') \<Rightarrow> (tk1 # tks1, bindR r (\<lambda>ps. bindR r' (\<lambda>ps'. Inr (ps @ ps')))))"

definition each_receiver :: "(nat \<Rightarrow> receiver \<Rightarrow> receiver \<times> 'b) \<Rightarrow> receiver list \<Rightarrow> receiver list \<times> 'b list" where
  "each_receiver f rcs = (let rs = map (\<lambda>(i, rc). f i rc) (List.enumerate 0 rcs) in (map fst rs, map snd rs))"

definition finish_remote_sparse_delta_sync :: "bool \<Rightarrow> tracker \<Rightarrow> tracker" where
  "finish_remote_sparse_delta_sync succeeded tk = (if succeeded then on_sync_succeeded tk else on_sync_failed tk)"

text \<open>
  The transfer, inside of the \<open>try\<close>: the trackers and receivers it leaves, and whether it succeeded.  The
  transport succeeds when it says so (\<open>sc_acked\<close>, with the relays' count of payloads) and no receiver answered
  a payload with an error.
\<close>

definition transfer_weights ::
  "torch \<Rightarrow> nat \<Rightarrow> (string \<times> tensor) list \<Rightarrow> sync_script \<Rightarrow> synchronizer \<Rightarrow> tracker list \<times> receiver list \<times> unit res" where
  "transfer_weights T target xs sc sy =
     (let (tks, r) = stream_ranks (length (sy_trackers sy)) target (sy_overwrite sy) (sc_orders sc) xs 0 (sy_trackers sy);
          (rcs, bs) = each_receiver (\<lambda>i. receive_payloads T (sc_events sc i)) (sy_receivers sy)
      in case r of
           Inl e \<Rightarrow> (tks, rcs, Inl e)
         | Inr ps \<Rightarrow>
             (if \<not> (sc_acked sc \<and> list_all (\<lambda>b. b) bs) then (tks, rcs, Inl RuntimeError)
              else if ps = [] then (tks, rcs, Inr ())
              else
                (case each_receiver (\<lambda>i. flush_receiver T (sc_finish sc i)) rcs of
                   (rcs1, fs) \<Rightarrow> (tks, rcs1, if list_all ok fs \<and> sc_mismatches sc = 0 then Inr () else Inl RuntimeError))))"

definition sync_weights ::
  "torch \<Rightarrow> nat \<Rightarrow> (string \<times> tensor) list \<Rightarrow> sync_script \<Rightarrow> synchronizer \<Rightarrow> synchronizer \<times> unit res" where
  "sync_weights T target xs sc sy =
     (if sy_poisoned sy then (sy, Inl RuntimeError)
      else if \<not> sc_kv_invalidated sc then (sy, Inl RuntimeError)
      else
        (case transfer_weights T target xs sc sy of
           (tks, rcs, Inr _) \<Rightarrow>
             (sy\<lparr>sy_trackers := map (finish_remote_sparse_delta_sync True) tks, sy_receivers := rcs, sy_stale := False\<rparr>, Inr ())
         | (tks, rcs, Inl e) \<Rightarrow>
             (sy\<lparr>sy_poisoned := True, sy_trackers := map (finish_remote_sparse_delta_sync False) tks,
                 sy_receivers := fst (each_receiver (\<lambda>i. flush_receiver T (sc_abort sc i)) rcs)\<rparr>, Inl e)))"

text \<open>
  The start: every rank takes a snapshot of its chunks, and the receivers are told of all tensors.
\<close>

fun merge_refit_info :: "(string \<times> nat list \<times> dtype) list list \<Rightarrow> (string \<times> nat list \<times> dtype) list \<Rightarrow> (string \<times> nat list \<times> dtype) list res" where
  "merge_refit_info [] merged = Inr merged"
| "merge_refit_info ([] # parts) merged = merge_refit_info parts merged"
| "merge_refit_info (((name, info) # part) # parts) merged =
     (case map_of merged name of
        Some info' \<Rightarrow> if info' \<noteq> info then Inl ValueError else merge_refit_info (part # parts) (AList.update name info merged)
      | None \<Rightarrow> merge_refit_info (part # parts) (AList.update name info merged))"

definition refit_info :: "tracker \<Rightarrow> (string \<times> nat list \<times> dtype) list" where
  "refit_info tk = map (\<lambda>(n, t). (n, t_shape t, t_dtype t)) (tk_baseline tk)"

fun init_ranks :: "nat \<Rightarrow> nat \<Rightarrow> (string \<times> tensor) list \<Rightarrow> nat \<Rightarrow> tracker list \<Rightarrow> tracker list \<times> unit res" where
  "init_ranks shards target xs rank [] = ([], Inr ())"
| "init_ranks shards target xs rank (tk # tks) =
     (case init_sparse_delta_baseline rank shards target xs tk of
        (tk1, r) \<Rightarrow> case init_ranks shards target xs (Suc rank) tks of (tks1, r') \<Rightarrow> (tk1 # tks1, bindR r (\<lambda>_. r')))"

definition init_communicator :: "torch \<Rightarrow> nat \<Rightarrow> (string \<times> tensor) list \<Rightarrow> synchronizer \<Rightarrow> synchronizer \<times> unit res" where
  "init_communicator T target xs sy =
     (let (tks, r) = init_ranks (length (sy_trackers sy)) target xs 0 (sy_trackers sy);
          sy1 = sy\<lparr>sy_trackers := tks\<rparr>
      in if sy_receivers sy = [] then (sy1, Inl ValueError)
         else case bindR r (\<lambda>_. merge_refit_info (map refit_info tks) []) of
                Inl e \<Rightarrow> (sy1, Inl e)
              | Inr infos \<Rightarrow>
                  (case each_receiver (\<lambda>i. prepare_receiver T infos) (sy_receivers sy) of
                     (rcs, rs) \<Rightarrow>
                       (case mapR (\<lambda>r. r) rs of
                          Inl e \<Rightarrow> (sy1\<lparr>sy_receivers := rcs\<rparr>, Inl e)
                        | Inr names \<Rightarrow>
                            (sy1\<lparr>sy_receivers := rcs, sy_overwrite := remdups (concat names), sy_stale := False\<rparr>, Inr ()))))"

section \<open>Batches of payloads\<close>

text \<open>The workers of an engine hold the weights \<open>W\<close>, each in its own layout.\<close>

definition workers_at :: "torch \<Rightarrow> (string \<Rightarrow> tensor) \<Rightarrow> layout list \<Rightarrow> applier list \<Rightarrow> memory list \<Rightarrow> bool" where
  "workers_at T W ls as ms \<longleftrightarrow> length ls = length as \<and> length ms = length as
     \<and> (\<forall>j < length as. applier_ok T (ls ! j) W (as ! j) \<and> holds T (ls ! j) W (ms ! j))"







section \<open>A transfer\<close>

text \<open>An engine at rest: its queue is idle, and its workers hold the weights.\<close>

definition engine_at :: "torch \<Rightarrow> (string \<Rightarrow> tensor) \<Rightarrow> layout list \<Rightarrow> receiver \<Rightarrow> bool" where
  "engine_at T W ls rc \<longleftrightarrow> queue_idle (rc_queue rc) \<and> workers_at T W ls (rc_appliers rc) (q_model (rc_queue rc))"





section \<open>The ranks of the trainer\<close>

definition ranks_at :: "(string \<Rightarrow> tensor) \<Rightarrow> nat \<Rightarrow> nat \<Rightarrow> string list \<Rightarrow> sparse_op \<Rightarrow> nat \<Rightarrow> tracker list \<Rightarrow> bool" where
  "ranks_at W shards target ns enc rank tks \<longleftrightarrow>
     (\<forall>i < length tks. tracker_at W (concat (own_names W (rank + i) shards target ns)) (tks ! i) \<and> tk_encoding (tks ! i) = enc)"

lemma ranks_at_Cons:
  "ranks_at W shards target ns enc rank (tk # tks) \<longleftrightarrow>
     tracker_at W (concat (own_names W rank shards target ns)) tk \<and> tk_encoding tk = enc \<and> ranks_at W shards target ns enc (Suc rank) tks"
  by (auto simp: ranks_at_def All_less_Suc2)





section \<open>Synchronisation\<close>

lemma each_receiver_nth:
  assumes "each_receiver f rcs = (rcs', bs)"
  shows "length rcs' = length rcs" "length bs = length rcs" "i < length rcs \<Longrightarrow> f i (rcs ! i) = (rcs' ! i, bs ! i)"
proof -
  have e: "rcs' = map (\<lambda>(i, rc). fst (f i rc)) (List.enumerate 0 rcs)" "bs = map (\<lambda>(i, rc). snd (f i rc)) (List.enumerate 0 rcs)"
    using assms by (auto simp: each_receiver_def Let_def split_def)
  show "length rcs' = length rcs" "length bs = length rcs" by (simp_all add: e)
  show "i < length rcs \<Longrightarrow> f i (rcs ! i) = (rcs' ! i, bs ! i)" by (simp add: e nth_enumerate_eq)
qed

text \<open>Both sides are in step: the ranks' baselines are \<open>W\<close>, and every engine holds \<open>W\<close> and waits.\<close>

definition in_step ::
  "torch \<Rightarrow> nat \<Rightarrow> string list \<Rightarrow> sparse_op \<Rightarrow> layout list list \<Rightarrow> (string \<Rightarrow> tensor) \<Rightarrow> synchronizer \<Rightarrow> bool" where
  "in_step T target ns enc Lss W sy \<longleftrightarrow> \<not> sy_poisoned sy \<and> sy_trackers sy \<noteq> []
     \<and> ranks_at W (length (sy_trackers sy)) target ns enc 0 (sy_trackers sy) \<and> list_all2 (engine_at T W) Lss (sy_receivers sy)"


definition exported :: "string list \<Rightarrow> (string \<Rightarrow> tensor) \<Rightarrow> (string \<times> tensor) list" where
  "exported ns W = map (\<lambda>n. (n, W n)) ns"







section \<open>The start\<close>

lemma merge_refit_info_entries:
  assumes "merge_refit_info parts merged = Inr infos" and "\<forall>part\<in>set parts. \<forall>x\<in>set part. snd x = g (fst x)" "\<forall>x\<in>set merged. snd x = g (fst x)"
  shows "\<forall>x\<in>set infos. snd x = g (fst x)"
  using assms
proof (induction parts merged rule: merge_refit_info.induct)
  case (3 name info part parts merged)
  have info: "info = g name" using "3.prems"(2) by simp
  have up: "\<forall>x\<in>set (AList.update name info merged). snd x = g (fst x)"
    using "3.prems"(3) info by (induction merged) auto
  have parts: "\<forall>part\<in>set (part # parts). \<forall>x\<in>set part. snd x = g (fst x)" using "3.prems"(2) by auto
  show ?case
  proof (cases "map_of merged name")
    case None
    with "3.prems"(1) have "merge_refit_info (part # parts) (AList.update name info merged) = Inr infos" by simp
    from "3.IH"(1)[OF None this parts up] show ?thesis .
  next
    case (Some info')
    with "3.prems"(1) have "\<not> info' \<noteq> info" "merge_refit_info (part # parts) (AList.update name info merged) = Inr infos"
      by (auto split: if_splits)
    from "3.IH"(2)[OF Some this parts up] show ?thesis .
  qed
qed auto

lemma init_ranks_ok:
  assumes W: "\<And>n. sendable T (W n) \<and> fits (W n)"
  shows "\<exists>tks. init_ranks shards target (exported ns W) rank (replicate k (new_tracker enc samples bytes)) = (tks, Inr ())
    \<and> length tks = k \<and> ranks_at W shards target ns enc rank tks \<and> list_all (\<lambda>tk. base_of W (tk_baseline tk)) tks"
proof (induction k arbitrary: rank)
  case 0
  show ?case by (simp add: ranks_at_def)
next
  case (Suc k)
  from init_baseline_ok[where W = W and rank = rank and shards = shards and target = target and ns = ns
      and encoding = enc and samples = samples and bytes = bytes, OF W] obtain tk where
    "init_sparse_delta_baseline rank shards target (exported ns W) (new_tracker enc samples bytes) = (tk, Inr ())"
    "tracker_at W (concat (own_names W rank shards target ns)) tk" "tk_encoding tk = enc" "base_of W (tk_baseline tk)"
    unfolding exported_def by blast
  moreover from Suc.IH[of "Suc rank"] obtain tks where
    "init_ranks shards target (exported ns W) (Suc rank) (replicate k (new_tracker enc samples bytes)) = (tks, Inr ())"
    "length tks = k" "ranks_at W shards target ns enc (Suc rank) tks" "list_all (\<lambda>tk. base_of W (tk_baseline tk)) tks" by blast
  ultimately show ?case by (intro exI[of _ "tk # tks"]) (simp add: ranks_at_Cons)
qed

text \<open>An engine that has loaded the weights \<open>W\<close> and not yet been asked about them.\<close>

definition engine_fresh :: "torch \<Rightarrow> (string \<Rightarrow> tensor) \<Rightarrow> layout list \<Rightarrow> receiver \<Rightarrow> bool" where
  "engine_fresh T W ls rc \<longleftrightarrow> queue_idle (rc_queue rc) \<and> length ls = length (rc_appliers rc)
     \<and> length (q_model (rc_queue rc)) = length (rc_appliers rc)
     \<and> (\<forall>j < length (rc_appliers rc). engine_follows (ls ! j) W (rc_appliers rc ! j) \<and> ap_skipped (rc_appliers rc ! j) = []
          \<and> holds T (ls ! j) W (q_model (rc_queue rc) ! j))"

lemma prepare_receiver_ok:
  assumes T: "torch_ok T" "\<And>n. tensor_ok T (W n)" and fresh: "engine_fresh T W ls rc"
    and run: "prepare_receiver T (map (\<lambda>n. (n, t_shape (W n), t_dtype (W n))) names) rc = (rc', Inr overwrite)"
  shows "engine_at T W ls rc'"
proof -
  let ?infos = "map (\<lambda>n. (n, t_shape (W n), t_dtype (W n))) names" and ?n = "length (rc_appliers rc)"
  let ?rs = "map2 (discover_native_skips T ?infos) (rc_appliers rc) (q_model (rc_queue rc))"
  from fresh have f: "queue_idle (rc_queue rc)" "length ls = ?n" "length (q_model (rc_queue rc)) = ?n"
    "\<And>j. j < ?n \<Longrightarrow> engine_follows (ls ! j) W (rc_appliers rc ! j) \<and> ap_skipped (rc_appliers rc ! j) = []
          \<and> holds T (ls ! j) W (q_model (rc_queue rc) ! j)"
    unfolding engine_fresh_def by blast+
  from run obtain xs where xs: "mapR snd ?rs = Inr xs"
    and rc': "rc' = rc\<lparr>rc_queue := (rc_queue rc)\<lparr>q_model := map fst ?rs\<rparr>, rc_appliers := map fst xs\<rparr>"
    by (auto simp: prepare_receiver_def Let_def split: sum.splits)
  from xs have len: "length xs = ?n" "\<And>j. j < ?n \<Longrightarrow> snd (?rs ! j) = Inr (xs ! j)"
    using f(3) by (auto simp: mapR_Inr list_all2_conv_all_nth)
  have names: "list_all (\<lambda>n. tensor_ok T (W n)) names" using T(2) by (simp add: list_all_iff)
  have "applier_ok T (ls ! j) W (fst (xs ! j)) \<and> fst (?rs ! j) = q_model (rc_queue rc) ! j" if j: "j < ?n" for j
  proof -
    obtain a' ow where x: "xs ! j = (a', ow)" by (cases "xs ! j")
    have "discover_native_skips T ?infos (rc_appliers rc ! j) (q_model (rc_queue rc) ! j) = (fst (?rs ! j), Inr (a', ow))"
      using len(2)[OF j] x j f(3) by (simp add: prod_eq_iff)
    from dry_run_ok[OF T(1) _ names _ this, of "ls ! j"] f(4)[OF j] show ?thesis by (simp add: x)
  qed
  with f len(1) show ?thesis by (auto simp: engine_at_def workers_at_def rc' queue_idle_def)
qed

text \<open>The synchronizer before its start.\<close>

definition sync_fresh :: "torch \<Rightarrow> sparse_op \<Rightarrow> layout list list \<Rightarrow> (string \<Rightarrow> tensor) \<Rightarrow> synchronizer \<Rightarrow> bool" where
  "sync_fresh T enc Lss W sy \<longleftrightarrow> \<not> sy_poisoned sy
     \<and> (\<exists>k samples bytes. sy_trackers sy = replicate (Suc k) (new_tracker enc samples bytes))
     \<and> list_all2 (engine_fresh T W) Lss (sy_receivers sy)"

lemma init_in_step:
  assumes T: "torch_ok T" and W: "\<And>n. sendable T (W n) \<and> fits (W n)" and fresh: "sync_fresh T enc Lss W sy"
    and run: "init_communicator T target (exported ns W) sy = (sy', Inr ())"
  shows "in_step T target ns enc Lss W sy'"
proof -
  from fresh obtain k samples bytes where tk: "sy_trackers sy = replicate (Suc k) (new_tracker enc samples bytes)"
    and rcs: "list_all2 (engine_fresh T W) Lss (sy_receivers sy)" "\<not> sy_poisoned sy" by (auto simp: sync_fresh_def)
  from init_ranks_ok[where W = W and k = "Suc k" and rank = 0 and shards = "Suc k" and target = target and ns = ns and enc = enc
      and samples = samples and bytes = bytes, OF W]
  obtain tks where r: "init_ranks (Suc k) target (exported ns W) 0 (sy_trackers sy) = (tks, Inr ())" "length tks = Suc k"
    "ranks_at W (Suc k) target ns enc 0 tks" "list_all (\<lambda>tk. base_of W (tk_baseline tk)) tks" unfolding tk by blast
  have l: "length (sy_trackers sy) = Suc k" by (simp add: tk)
  from run obtain infos rcs' rs names where i: "merge_refit_info (map refit_info tks) [] = Inr infos"
    "each_receiver (\<lambda>i. prepare_receiver T infos) (sy_receivers sy) = (rcs', rs)" "mapR (\<lambda>r. r) rs = Inr names"
    "sy' = sy\<lparr>sy_trackers := tks, sy_receivers := rcs', sy_overwrite := remdups (concat names), sy_stale := False\<rparr>"
    unfolding init_communicator_def l r(1) Let_def by (auto split: if_splits sum.splits prod.splits)
  let ?g = "\<lambda>n. (t_shape (W n), t_dtype (W n))"
  have "\<forall>part\<in>set (map refit_info tks). \<forall>x\<in>set part. snd x = ?g (fst x)"
    using r(4) by (fastforce simp: refit_info_def base_of_def list_all_iff)
  from merge_refit_info_entries[OF i(1) this] have "infos = map (\<lambda>n. (n, ?g n)) (map fst infos)"
    by (intro nth_equalityI) (auto simp: prod_eq_iff)
  then have infos: "infos = map (\<lambda>n. (n, t_shape (W n), t_dtype (W n))) (map fst infos)" .
  have tok: "\<And>n. tensor_ok T (W n)" using W by (simp add: sendable_def)
  note e = each_receiver_nth[OF i(2)]
  have "engine_at T W (Lss ! j) (rcs' ! j)" if j: "j < length (sy_receivers sy)" for j
  proof -
    have "rs ! j = Inr (names ! j)" using i(3) j e(2) by (auto simp: mapR_Inr list_all2_conv_all_nth)
    then have "prepare_receiver T (map (\<lambda>n. (n, t_shape (W n), t_dtype (W n))) (map fst infos)) (sy_receivers sy ! j) = (rcs' ! j, Inr (names ! j))"
      using e(3)[OF j] unfolding infos[symmetric] by simp
    from prepare_receiver_ok[OF T tok _ this] rcs(1) j show ?thesis by (simp add: list_all2_conv_all_nth)
  qed
  then have "list_all2 (engine_at T W) Lss rcs'" using rcs(1) e(1) by (auto simp: list_all2_conv_all_nth)
  moreover have "tks \<noteq> []" using r(2) by auto
  ultimately show ?thesis using r(2,3) rcs(2) by (simp add: in_step_def i(4))
qed

text \<open>
  A successful start puts both sides in step: when fresh ranks have taken their snapshots of weights that
  the engines have loaded, and every engine has been asked about the tensors, then the baselines and the
  engines agree, and an engine skips only tensors that it does not hold.
\<close>

theorem start_in_step:
  assumes "torch_ok T" and "\<And>n. sendable T (W n) \<and> fits (W n)" and "sync_fresh T enc Lss W sy"
    and "init_communicator T target (exported ns W) sy = (sy', Inr ())"
  shows "in_step T target ns enc Lss W sy'"
  by (rule init_in_step[OF assms])

section \<open>Poisoning\<close>

text \<open>The calls of the trainer on a synchronizer.\<close>

datatype trainer_call = Init "(string \<times> tensor) list" | Sync "(string \<times> tensor) list" sync_script

fun do_call :: "torch \<Rightarrow> nat \<Rightarrow> trainer_call \<Rightarrow> synchronizer \<Rightarrow> synchronizer" where
  "do_call T target (Init xs) sy = fst (init_communicator T target xs sy)"
| "do_call T target (Sync xs sc) sy = fst (sync_weights T target xs sc sy)"

text \<open>
  C20: A synchronizer whose transfer has failed never syncs again: whatever is called on it, a new start
  included, every later sync raises and touches neither side.
\<close>

theorem poisoned_for_good:
  assumes "sync_weights T target xs sc sy = (sy1, Inl e)" and "sc_kv_invalidated sc" and "\<not> sy_poisoned sy"
  shows "sync_weights T target xs' sc' (fold (do_call T target) calls sy1) = (fold (do_call T target) calls sy1, Inl RuntimeError)"
proof -
  have "sy_poisoned sy1" using assms by (auto simp: sync_weights_def split: prod.splits sum.splits)
  moreover have "sy_poisoned (do_call T target c sy)" if "sy_poisoned sy" for c sy
    using that by (cases c) (auto simp: sync_weights_def init_communicator_def Let_def split: prod.splits sum.splits)
  ultimately have "sy_poisoned (fold (do_call T target) calls sy1)"
    by (induction calls arbitrary: sy1) auto
  then show ?thesis by (simp add: sync_weights_def)
qed

section \<open>An example\<close>

definition demo_memory :: memory where
  "demo_memory a = (if a = (0, 0) then 1 else if a = (0, 1) then 2 else if a = (0, 4) then 4 else if a = (0, 6) then 3 else 0)"

definition demo_sync :: synchronizer where
  "demo_sync = \<lparr>sy_poisoned = False, sy_stale = True, sy_overwrite = [], sy_trackers = [new_tracker Xor 1 100],
     sy_receivers = [\<lparr>rc_appliers = [demo_applier], rc_queue = new_queue [demo_memory] 1 2\<rparr>]\<rparr>"

abbreviation demo_old :: "string \<Rightarrow> tensor" where
  "demo_old \<equiv> demo_tensors [1, 2, 3, 4]"

abbreviation demo_new :: "string \<Rightarrow> tensor" where
  "demo_new \<equiv> demo_tensors [1, 9, 3, 4]"

definition demo_started :: synchronizer where
  "demo_started = fst (init_communicator demo_torch 100 (exported [''a'', ''b''] demo_old) demo_sync)"

definition demo_payload :: payload where
  "demo_payload = \<lparr>pl_indices = [], pl_values = [(2, [11])], pl_items =
     [\<lparr>si_name = ''a'', si_shape = [4], si_dtype = ''bfloat16'', si_op = Xor, si_encoding = Run 1, index_start = 0, index_end = 0,
        value_group = 0, value_start = 0, value_end = 1, si_samples = Some 1\<rparr>]\<rparr>"

definition demo_script :: sync_script where
  "demo_script = \<lparr>sc_kv_invalidated = True, sc_orders = (\<lambda>_. []), sc_events = (\<lambda>_. [Arrive (''t'', 0, 0) ''x'' 1 demo_payload, Work,
     Arrive (''t'', 0, 0) ''x'' 1 demo_payload]), sc_acked = True, sc_finish = (\<lambda>_. Inr ()), sc_mismatches = 0, sc_abort = (\<lambda>_. Inr ())\<rparr>"

lemma demo_fits: "sendable demo_torch (demo_tensors vals n) \<and> fits (demo_tensors vals n)" if "length vals = 4" "list_all (\<lambda>x. uint x < 65536) vals"
  using that demo_engine(2)[of vals n] by (auto simp: sendable_def fits_def demo_tensors_def bf16_def list_all_iff)

lemma demo_holds: "holds demo_torch demo_layout demo_old demo_memory"
  unfolding holds_def
proof (intro allI impI)
  fix a n j e assume "demo_layout a = Some (n, j, e)"
  then show "demo_memory a = tt_convert demo_torch (t_dtype (demo_old n)) e (t_bits (demo_old n) ! j)"
    by (cases a) (auto simp: demo_layout_def demo_memory_def demo_torch_def demo_tensors_def split: if_splits)
qed

lemma demo_fresh: "sync_fresh demo_torch Xor [[demo_layout]] demo_old demo_sync"
proof -
  have "engine_fresh demo_torch demo_old [demo_layout] \<lparr>rc_appliers = [demo_applier], rc_queue = new_queue [demo_memory] 1 2\<rparr>"
    using demo_engine(3)[of "[1, 2, 3, 4]"] demo_holds
    by (simp add: engine_fresh_def queue_idle_def new_queue_def demo_applier_def)
  then show ?thesis by (auto simp: sync_fresh_def demo_sync_def intro: exI[of _ 0])
qed

lemma demo_started: "init_communicator demo_torch 100 (exported [''a'', ''b''] demo_old) demo_sync = (demo_started, Inr ())"
proof -
  have "snd (init_communicator demo_torch 100 (exported [''a'', ''b''] demo_old) demo_sync) = Inr ()" by code_simp
  then show ?thesis by (simp add: demo_started_def prod_eq_iff)
qed

theorem start_in_step_witness:
  "ap_skipped (rc_appliers (sy_receivers demo_started ! 0) ! 0) = [''b'']
   \<and> map_of (tk_baseline (sy_trackers demo_started ! 0)) ''a'' = Some (demo_old ''a'')
   \<and> in_step demo_torch 100 [''a'', ''b''] Xor [[demo_layout]] demo_old demo_started"
proof -
  have W: "sendable demo_torch (demo_old n) \<and> fits (demo_old n)" for n by (rule demo_fits) simp_all
  have "ap_skipped (rc_appliers (sy_receivers demo_started ! 0) ! 0) = [''b'']"
    "map_of (tk_baseline (sy_trackers demo_started ! 0)) ''a'' = Some (demo_old ''a'')" by code_simp+
  with start_in_step[OF demo_engine(1) W demo_fresh demo_started] show ?thesis by blast
qed




text \<open>A transfer that loses everything.\<close>

theorem poisoned_for_good_witness:
  "snd (sync_weights demo_torch 100 (exported [''a''] demo_old) demo_script
     (fold (do_call demo_torch 100) [Init (exported [''a''] demo_old), Sync (exported [''a''] demo_new) demo_script]
       (fst (sync_weights demo_torch 100 (exported [''a''] demo_new) (demo_script\<lparr>sc_events := (\<lambda>_. []), sc_acked := False\<rparr>) demo_started)))) = Inl RuntimeError"
proof -
  let ?s = "sync_weights demo_torch 100 (exported [''a''] demo_new) (demo_script\<lparr>sc_events := (\<lambda>_. []), sc_acked := False\<rparr>) demo_started"
  have "snd ?s = Inl RuntimeError" "sc_kv_invalidated (demo_script\<lparr>sc_events := (\<lambda>_. []), sc_acked := False\<rparr>)" "\<not> sy_poisoned demo_started" by code_simp+
  then have "?s = (fst ?s, Inl RuntimeError)" by (simp add: prod_eq_iff)
  from poisoned_for_good[OF this \<open>sc_kv_invalidated _\<close> \<open>\<not> sy_poisoned demo_started\<close>] show ?thesis by (simp only: snd_conv)
qed

end
