(* ===== verification/Checkpoints.thy ===== *)
theory Checkpoints
  imports Prelude Complex_Main "HOL-Library.AList"
begin

text \<open>
  The checkpoint manager (\<open>utils/checkpoint.py\<close>): saving into \<open>tmp_step_N\<close>, the rename to \<open>step_N\<close>,
  the retention rules, the choice of the best and of the latest checkpoint, and the background
  finalization, whose thread and deletion worker run interleaved with the training loop.

  The checkpoint directory is an association list from names to directories, in the order a listing
  gives them.  A directory is its \<open>training_info.json\<close>, if it is there, and its other files.  The
  calls of \<open>os\<close> are atomic; \<open>shutil.rmtree\<close> by the deletion worker goes file by file, so that
  stopping the run at any state is a crash at any moment.
\<close>

section \<open>Metric values\<close>

text \<open>A float other than not-a-number: a rational or an infinity.\<close>

datatype metric = Minus_Inf | Val rat | Plus_Inf

fun metric_le :: "metric \<Rightarrow> metric \<Rightarrow> bool" where
  "metric_le Minus_Inf _ = True"
| "metric_le (Val a) (Val b) = (a \<le> b)"
| "metric_le _ Plus_Inf = True"
| "metric_le _ _ = False"

instantiation metric :: linorder
begin

definition less_eq_metric :: "metric \<Rightarrow> metric \<Rightarrow> bool" where
  "less_eq_metric a b = metric_le a b"

definition less_metric :: "metric \<Rightarrow> metric \<Rightarrow> bool" where
  "less_metric a b \<longleftrightarrow> metric_le a b \<and> a \<noteq> b"

instance
proof
  fix a b c :: metric
  show "a < b \<longleftrightarrow> a \<le> b \<and> \<not> b \<le> a"
    unfolding less_eq_metric_def less_metric_def by (cases a; cases b) auto
  show "a \<le> a"
    unfolding less_eq_metric_def by (cases a) auto
  show "a \<le> b \<Longrightarrow> b \<le> c \<Longrightarrow> a \<le> c"
    unfolding less_eq_metric_def by (cases a; cases b; cases c) auto
  show "a \<le> b \<Longrightarrow> b \<le> a \<Longrightarrow> a = b"
    unfolding less_eq_metric_def by (cases a; cases b) auto
  show "a \<le> b \<or> b \<le> a"
    unfolding less_eq_metric_def by (cases a; cases b) auto
qed

end

lemma metric_simps [simp]:
  "Minus_Inf \<le> m" "m \<le> Plus_Inf" "(Val a \<le> Val b) = (a \<le> b)" "(Val a < Val b) = (a < b)"
  "Minus_Inf < Val a" "Val a < Plus_Inf" "\<not> Plus_Inf \<le> Val a" "\<not> Val a \<le> Minus_Inf"
  "\<not> Val a < Minus_Inf" "\<not> Plus_Inf < Val a"
  by (cases m; auto simp: less_eq_metric_def less_metric_def)+

section \<open>The checkpoint directory\<close>

type_synonym info = "(string \<times> metric) list"

record 'f cdir =
  info_file :: "info option"
  data_files :: "(string \<times> 'f) list"

type_synonym 'f fs = "(string \<times> 'f cdir) list"

definition names :: "'f fs \<Rightarrow> string list" where
  "names d = map fst d"

definition path_exists :: "string \<Rightarrow> 'f fs \<Rightarrow> bool" where
  "path_exists p d \<longleftrightarrow> p \<in> set (names d)"

text \<open>
  \<open>os.rename\<close> of directories: the source must exist, and the target must not, or be empty.
\<close>

definition empty_dir :: "'f cdir \<Rightarrow> bool" where
  "empty_dir c \<longleftrightarrow> info_file c = None \<and> data_files c = []"

definition os_rename :: "string \<Rightarrow> string \<Rightarrow> 'f fs \<Rightarrow> 'f fs res" where
  "os_rename src dst d = (case map_of d src of
      None \<Rightarrow> Inl FileNotFoundError
    | Some c \<Rightarrow>
        if src = dst then Inr d
        else (case map_of d dst of
            None \<Rightarrow> Inr (AList.update dst c (AList.delete src d))
          | Some e \<Rightarrow> if empty_dir e then Inr (AList.update dst c (AList.delete src d)) else Inl OSError))"

definition rmtree :: "string \<Rightarrow> 'f fs \<Rightarrow> 'f fs res" where
  "rmtree p d = (if path_exists p d then Inr (AList.delete p d) else Inl FileNotFoundError)"

text \<open>Names: \<open>str.split\<close>, \<open>re.fullmatch(r"step_\d+", name)\<close> over ASCII digits, and \<open>int\<close>.\<close>

fun split_on :: "char \<Rightarrow> string \<Rightarrow> string list" where
  "split_on c [] = [[]]"
| "split_on c (x # xs) = (if x = c then [] # split_on c xs
     else (case split_on c xs of [] \<Rightarrow> [[x]] | y # ys \<Rightarrow> (x # y) # ys))"

definition is_digit :: "char \<Rightarrow> bool" where
  "is_digit c \<longleftrightarrow> 48 \<le> (of_char c :: nat) \<and> (of_char c :: nat) \<le> 57"

definition number_of_digits :: "string \<Rightarrow> nat" where
  "number_of_digits ds = foldl (\<lambda>n c. 10 * n + (of_char c - 48)) 0 ds"

definition step_name :: "nat \<Rightarrow> string" where
  "step_name n = ''step_'' @ decimal n"

definition tmp_name :: "nat \<Rightarrow> string" where
  "tmp_name n = ''tmp_step_'' @ decimal n"

definition is_step_name :: "string \<Rightarrow> bool" where
  "is_step_name s \<longleftrightarrow> take 5 s = ''step_'' \<and> drop 5 s \<noteq> [] \<and> (\<forall>c\<in>set (drop 5 s). is_digit c)"

definition step_of :: "string \<Rightarrow> nat" where
  "step_of s = number_of_digits (split_on (CHR ''_'') s ! 1)"

text \<open>\<open>_load_checkpoint_history\<close>\<close>

definition step_dirs :: "'f fs \<Rightarrow> string list" where
  "step_dirs d = filter is_step_name (names d)"

fun history_entry :: "string \<times> 'f cdir \<Rightarrow> (nat \<times> string \<times> info) list" where
  "history_entry (p, c) = (case info_file c of
      None \<Rightarrow> []
    | Some i \<Rightarrow> [(step_of p, p, i)])"

definition load_checkpoint_history :: "'f fs \<Rightarrow> (nat \<times> string \<times> info) list" where
  "load_checkpoint_history d = concat (map history_entry (filter (\<lambda>e. is_step_name (fst e)) d))"

section \<open>Configuration and saving\<close>

record ckpt_config =
  metric_name :: "string option"
  higher_is_better :: bool
  keep_top_k :: "int option"
  save_period :: int
  ft_keep_latest_k :: "int option"

definition init_tmp_checkpoint :: "nat \<Rightarrow> info \<Rightarrow> 'f option \<Rightarrow> 'f fs \<Rightarrow> 'f fs \<times> string" where
  "init_tmp_checkpoint step training_info run_config d =
     (let save_dir = tmp_name step;
          d1 = (if path_exists save_dir d then AList.delete save_dir d else d);
          c = \<lparr>info_file = Some training_info,
               data_files = (case run_config of None \<Rightarrow> [] | Some y \<Rightarrow> [(''config.yaml'', y)])\<rparr>
      in (AList.update save_dir c d1, save_dir))"

text \<open>
  \<open>_rename_checkpoint\<close>; the second component is what the directory holds when the call ends, also when
  it raises half-way.
\<close>

definition step_part :: "string \<Rightarrow> string res" where
  "step_part p = (let parts = split_on (CHR ''_'') p in
     if 2 < length parts then Inr (parts ! 2) else Inl IndexError)"

definition rename_checkpoint :: "string \<Rightarrow> 'f fs \<Rightarrow> unit res \<times> 'f fs" where
  "rename_checkpoint path d = (case step_part path of
      Inl e \<Rightarrow> (Inl e, d)
    | Inr step \<Rightarrow>
       (let to_path = ''step_'' @ step; old_path = ''old_step_'' @ step in
        if path_exists to_path d then
          (case os_rename to_path old_path d of
             Inl e \<Rightarrow> (Inl e, d)
           | Inr d1 \<Rightarrow> (case os_rename path to_path d1 of
               Inl e \<Rightarrow> (Inl e, d1)
             | Inr d2 \<Rightarrow>
                if path_exists old_path d2 then
                  (case rmtree old_path d2 of Inl e \<Rightarrow> (Inl e, d2) | Inr d3 \<Rightarrow> (Inr (), d3))
                else (Inr (), d2)))
        else (case os_rename path to_path d of Inl e \<Rightarrow> (Inl e, d) | Inr d1 \<Rightarrow> (Inr (), d1))))"

section \<open>Retention\<close>

text \<open>\<open>xs[:k]\<close>, where a negative bound counts from the end\<close>

definition upto_slice :: "int \<Rightarrow> 'a list \<Rightarrow> 'a list" where
  "upto_slice k xs = (if 0 \<le> k then take (nat k) xs else take (nat (int (length xs) + k)) xs)"

definition get_metric :: "ckpt_config \<Rightarrow> info \<Rightarrow> metric \<Rightarrow> metric" where
  "get_metric cfg i dflt = (case metric_name cfg of
      None \<Rightarrow> dflt
    | Some m \<Rightarrow> (case map_of i m of None \<Rightarrow> dflt | Some v \<Rightarrow> v))"

definition sort_periodic :: "ckpt_config \<Rightarrow> (nat \<times> string \<times> info) list \<Rightarrow> (nat \<times> string \<times> info) list" where
  "sort_periodic cfg h =
     (if metric_name cfg = None then sort_desc (\<lambda>x. fst x) h
      else if higher_is_better cfg
      then sort_desc (\<lambda>x. (get_metric cfg (snd (snd x)) Minus_Inf, fst x)) h
      else sort_key (\<lambda>x. (get_metric cfg (snd (snd x)) Plus_Inf, - int (fst x))) h)"

definition protected_steps ::
    "ckpt_config \<Rightarrow> bool \<Rightarrow> (nat \<times> string \<times> info) list \<Rightarrow> nat list" where
  "protected_steps cfg exclude_latest h =
     (let periodic = filter (\<lambda>x. save_period cfg dvd int (fst x)) h in
      (if exclude_latest then [Max (fst ` set h)] else []) @
      (case keep_top_k cfg of
         Some k \<Rightarrow> map fst (upto_slice k (sort_periodic cfg periodic))
       | None \<Rightarrow> map fst periodic) @
      (case ft_keep_latest_k cfg of
         Some k \<Rightarrow> map fst (upto_slice k (sort_desc fst h))
       | None \<Rightarrow> []))"

definition removal_targets :: "ckpt_config \<Rightarrow> bool \<Rightarrow> 'f fs \<Rightarrow> string list res" where
  "removal_targets cfg exclude_latest d =
     (let h = load_checkpoint_history d in
      if h = [] then Inr []
      else if keep_top_k cfg = None \<and> ft_keep_latest_k cfg = None then Inr []
      else if save_period cfg = 0 then Inl ZeroDivisionError
      else Inr (map (\<lambda>x. fst (snd x))
                 (filter (\<lambda>x. fst x \<notin> set (protected_steps cfg exclude_latest h)) h)))"

fun rmtrees :: "string list \<Rightarrow> 'f fs \<Rightarrow> unit res \<times> 'f fs" where
  "rmtrees [] d = (Inr (), d)"
| "rmtrees (p # ps) d = (case rmtree p d of Inl e \<Rightarrow> (Inl e, d) | Inr d' \<Rightarrow> rmtrees ps d')"

definition remove_old_checkpoints :: "ckpt_config \<Rightarrow> bool \<Rightarrow> 'f fs \<Rightarrow> unit res \<times> 'f fs" where
  "remove_old_checkpoints cfg exclude_latest d = (case removal_targets cfg exclude_latest d of
      Inl e \<Rightarrow> (Inl e, d)
    | Inr ps \<Rightarrow> rmtrees ps d)"

definition finalize_checkpoint :: "ckpt_config \<Rightarrow> string \<Rightarrow> 'f fs \<Rightarrow> unit res \<times> 'f fs" where
  "finalize_checkpoint cfg path d = (case rename_checkpoint path d of
      (Inl e, d1) \<Rightarrow> (Inl e, d1)
    | (Inr _, d1) \<Rightarrow> remove_old_checkpoints cfg True d1)"

section \<open>Choosing a checkpoint\<close>

definition get_latest_checkpoint_path :: "'f fs \<Rightarrow> string option" where
  "get_latest_checkpoint_path d =
     (let ds = sort_key step_of (step_dirs d) in if ds = [] then None else Some (List.last ds))"

definition has_metric :: "ckpt_config \<Rightarrow> info \<Rightarrow> bool" where
  "has_metric cfg i = (case metric_name cfg of None \<Rightarrow> False | Some m \<Rightarrow> map_of i m \<noteq> None)"

definition sort_best :: "ckpt_config \<Rightarrow> (nat \<times> string \<times> info) list \<Rightarrow> (nat \<times> string \<times> info) list" where
  "sort_best cfg v =
     (if higher_is_better cfg
      then sort_desc (\<lambda>x. (get_metric cfg (snd (snd x)) Minus_Inf, fst x)) v
      else sort_key (\<lambda>x. (get_metric cfg (snd (snd x)) Plus_Inf, - int (fst x))) v)"

definition get_best_checkpoint_path :: "ckpt_config \<Rightarrow> 'f fs \<Rightarrow> string option" where
  "get_best_checkpoint_path cfg d =
     (let h = load_checkpoint_history d in
      if h = [] then None
      else let v = filter (\<lambda>x. has_metric cfg (snd (snd x))) h in
        if v = [] then get_latest_checkpoint_path d
        else Some (fst (snd (sort_best cfg v ! 0))))"

definition load_training_info :: "string option \<Rightarrow> 'f fs \<Rightarrow> info option res" where
  "load_training_info path d = (case path of
      None \<Rightarrow> Inr None
    | Some p \<Rightarrow> (case map_of d p of
        None \<Rightarrow> Inl FileNotFoundError
      | Some c \<Rightarrow> (case info_file c of None \<Rightarrow> Inl FileNotFoundError | Some i \<Rightarrow> Inr (Some i))))"

text \<open>
  \<open>get_resume_paths\<close>: \<open>present\<close> says which paths exist, \<open>mcore\<close> is Megatron's loader of the common
  state, \<open>None\<close> when it is not installed; it gives the keys of the state.
\<close>

definition load_megatron_common_state_dict ::
    "(string list \<Rightarrow> string list res) option \<Rightarrow> string list \<Rightarrow> string list res" where
  "load_megatron_common_state_dict mcore dir = (case mcore of None \<Rightarrow> Inl RuntimeError | Some f \<Rightarrow> f dir)"

definition get_resume_paths ::
    "(string list \<Rightarrow> bool) \<Rightarrow> (string list \<Rightarrow> string list res) option \<Rightarrow> string list option \<Rightarrow> string
     \<Rightarrow> (string list option \<times> string list option) res" where
  "get_resume_paths present mcore last_path component = (case last_path of
      None \<Rightarrow> Inr (None, None)
    | Some p \<Rightarrow>
       (let weights = p @ [component, ''weights'']; optimizer = p @ [component, ''optimizer''] in
        if present optimizer then Inr (Some weights, Some optimizer)
        else
          let it = weights @ [''iter_0000000''] in
          if present (it @ [''common.pt'']) \<or> present (it @ [''metadata.json'']) then
            bindR (load_megatron_common_state_dict mcore it) (\<lambda>st.
              Inr (Some weights, if ''optimizer'' \<in> set st then Some optimizer else None))
          else Inr (Some weights, None)))"

section \<open>Names and steps\<close>

lemma split_on_none: "c \<notin> set xs \<Longrightarrow> split_on c xs = [xs]"
  by (induction xs) auto

lemma decimal_is_digit: "c \<in> set (decimal n) \<Longrightarrow> is_digit c"
  using decimal_digits[of c n] by (auto simp: is_digit_def)

lemma no_underscore_in_decimal: "CHR ''_'' \<notin> set (decimal n)"
  using decimal_is_digit[of "CHR ''_''" n] by (auto simp: is_digit_def)

lemma decimal_not_nil [simp]: "decimal n \<noteq> []"
  by (subst decimal.simps) simp

lemma number_of_decimal [simp]: "number_of_digits (decimal n) = n"
proof (induction n rule: decimal.induct)
  case (1 n)
  show ?case
  proof (cases "n < 10")
    case True
    then show ?thesis by (subst decimal.simps) (simp add: number_of_digits_def)
  next
    case False
    with 1 have "number_of_digits (decimal (n div 10)) = n div 10" by simp
    with False show ?thesis
      by (subst decimal.simps) (simp add: number_of_digits_def)
  qed
qed

lemma is_step_step_name [simp]: "is_step_name (step_name n)"
  by (auto simp: is_step_name_def step_name_def decimal_is_digit)

lemma step_of_step_name [simp]: "step_of (step_name n) = n"
  by (simp add: step_of_def step_name_def split_on_none[OF no_underscore_in_decimal])

lemma step_name_inj [simp]: "step_name m = step_name n \<longleftrightarrow> m = n"
  by (metis step_of_step_name)

lemma not_step_names [simp]:
  "\<not> is_step_name (tmp_name n)" "\<not> is_step_name (''old_step_'' @ s)" "step_name m \<noteq> tmp_name n"
  by (simp_all add: is_step_name_def tmp_name_def step_name_def)

lemma step_part_tmp [simp]: "step_part (tmp_name n) = Inr (decimal n)"
  by (simp add: step_part_def tmp_name_def split_on_none[OF no_underscore_in_decimal] Let_def)

lemma names_simps [simp]:
  "names (AList.delete p d) = filter (\<lambda>q. q \<noteq> p) (names d)"
  "path_exists p (AList.update q c d) \<longleftrightarrow> p = q \<or> path_exists p d"
  "path_exists p (AList.delete q d) \<longleftrightarrow> p \<noteq> q \<and> path_exists p d"
  by (induction d) (auto simp: names_def path_exists_def AList.delete_eq)

lemma names_update:
  "names (AList.update p c d) = (if path_exists p d then names d else names d @ [p])"
  by (induction d) (auto simp: names_def path_exists_def)

lemma path_exists_map_of: "path_exists p d \<longleftrightarrow> (\<exists>c. map_of d p = Some c)"
  by (metis domIff dom_map_of_conv_image_fst names_def not_None_eq path_exists_def list.set_map)

lemma in_step_dirs: "p \<in> set (step_dirs d) \<longleftrightarrow> is_step_name p \<and> path_exists p d"
  by (auto simp: step_dirs_def path_exists_def)

lemma step_dirs_delete: "step_dirs (AList.delete p d) = filter (\<lambda>q. q \<noteq> p) (step_dirs d)"
  by (simp add: step_dirs_def conj_commute)

lemma step_dirs_other:
  "\<not> is_step_name p \<Longrightarrow> step_dirs (AList.delete p d) = step_dirs d"
  "\<not> is_step_name p \<Longrightarrow> step_dirs (AList.update p c d) = step_dirs d"
  by (auto simp: step_dirs_def names_update intro!: filter_cong)

lemma step_dirs_update_old: "path_exists p d \<Longrightarrow> step_dirs (AList.update p c d) = step_dirs d"
  by (simp add: step_dirs_def names_update)

lemma step_dirs_update_new:
  "is_step_name p \<Longrightarrow> \<not> path_exists p d \<Longrightarrow> step_dirs (AList.update p c d) = step_dirs d @ [p]"
  by (simp add: step_dirs_def names_update)

text \<open>The latest checkpoint\<close>

lemma last_sort_key_filter:
  assumes "xs \<noteq> []" and "P (List.last (sort_key f xs))"
  shows "List.last (sort_key f (filter P xs)) = List.last (sort_key f xs)" "filter P xs \<noteq> []"
proof -
  let ?ys = "sort_key f xs"
  have "?ys \<noteq> []" using assms(1) by (metis length_0_conv length_sort)
  then obtain zs z where ys: "?ys = zs @ [z]" by (metis append_butlast_last_id)
  have "sort_key f (filter P xs) = filter P ?ys"
    by (simp add: filter_sort)
  moreover have "filter P ?ys = filter P zs @ [z]"
    using assms(2) ys by simp
  ultimately show "List.last (sort_key f (filter P xs)) = List.last ?ys"
    using ys by simp
  have "z \<in> set xs" using ys by (metis in_set_conv_decomp set_sort)
  moreover have "P z" using assms(2) ys by simp
  ultimately show "filter P xs \<noteq> []" by (auto simp: filter_empty_conv)
qed

lemma sort_key_append_max:
  "\<forall>x\<in>set xs. f x < f y \<Longrightarrow> List.last (sort_key f (xs @ [y])) = y"
proof -
  assume a: "\<forall>x\<in>set xs. f x < f y"
  have st: "filter (\<lambda>x. k = f x) (sort_key f xs) = filter (\<lambda>x. k = f x) xs" for k
    by (simp only: eq_commute[of k] sort_key_stable)
  have "sort_key f (xs @ [y]) = sort_key f xs @ [y]"
    using a by (intro properties_for_sort_key) (auto simp: sorted_append less_imp_le st)
  then show ?thesis by simp
qed

lemma latest_Some:
  assumes "get_latest_checkpoint_path d = Some p"
  shows "is_step_name p" "path_exists p d" "\<And>q. q \<in> set (step_dirs d) \<Longrightarrow> step_of q \<le> step_of p"
proof -
  let ?ys = "sort_key step_of (step_dirs d)"
  have ne: "?ys \<noteq> []" and p: "p = List.last ?ys"
    using assms by (auto simp: get_latest_checkpoint_path_def Let_def split: if_splits)
  have "p \<in> set (step_dirs d)" using ne p last_in_set[of ?ys] by simp
  then show "is_step_name p" "path_exists p d" by (simp_all add: in_step_dirs)
  fix q assume "q \<in> set (step_dirs d)"
  then obtain i where i: "i < length ?ys" "?ys ! i = q" by (metis in_set_conv_nth set_sort)
  have "map step_of ?ys ! i \<le> map step_of ?ys ! (length ?ys - 1)"
    using i by (intro sorted_nth_mono) auto
  with i ne p show "step_of q \<le> step_of p" by (simp add: last_conv_nth)
qed

lemma latest_None: "get_latest_checkpoint_path d = None \<longleftrightarrow> step_dirs d = []"
proof -
  have "sort_key step_of (step_dirs d) = [] \<longleftrightarrow> step_dirs d = []"
    by (metis length_0_conv length_sort)
  then show ?thesis by (simp add: get_latest_checkpoint_path_def Let_def)
qed

lemma latest_cong: "step_dirs d' = step_dirs d \<Longrightarrow> get_latest_checkpoint_path d' = get_latest_checkpoint_path d"
  by (simp add: get_latest_checkpoint_path_def)

lemma latest_filter:
  assumes "get_latest_checkpoint_path d = Some p" and "step_dirs d' = filter P (step_dirs d)" and "P p"
  shows "get_latest_checkpoint_path d' = Some p"
proof -
  let ?ys = "sort_key step_of (step_dirs d)"
  have ne: "?ys \<noteq> []" and p: "p = List.last ?ys"
    using assms(1) by (auto simp: get_latest_checkpoint_path_def Let_def split: if_splits)
  then have "step_dirs d \<noteq> []" by auto
  from last_sort_key_filter[OF this, of P step_of] assms(3) p
  have 1: "List.last (sort_key step_of (step_dirs d')) = p" and 2: "step_dirs d' \<noteq> []"
    by (simp_all add: assms(2))
  from 2 have "sort_key step_of (step_dirs d') \<noteq> []" by (metis length_0_conv length_sort)
  with 1 show ?thesis by (simp add: get_latest_checkpoint_path_def)
qed

lemma latest_new:
  assumes "step_dirs d' = step_dirs d @ [p]" and "\<forall>q\<in>set (step_dirs d). step_of q < step_of p"
  shows "get_latest_checkpoint_path d' = Some p"
  using sort_key_append_max[OF assms(2)] assms(1)
  by (simp add: get_latest_checkpoint_path_def Let_def) (metis length_0_conv length_sort snoc_eq_iff_butlast)


section \<open>What retention removes\<close>

lemma history_Cons:
  "load_checkpoint_history (e # d) =
     (if is_step_name (fst e) then history_entry e else []) @ load_checkpoint_history d"
  by (simp add: load_checkpoint_history_def)

lemma history_entry_in: "x \<in> set (history_entry e) \<Longrightarrow> fst (snd x) = fst e \<and> fst x = step_of (fst e)"
  by (cases e) (auto split: option.splits)

lemma history_mem:
  "x \<in> set (load_checkpoint_history d) \<Longrightarrow>
     fst x = step_of (fst (snd x)) \<and> fst (snd x) \<in> set (step_dirs d)"
  by (induction d) (auto simp: history_Cons step_dirs_def names_def dest: history_entry_in split: if_splits,
      simp add: load_checkpoint_history_def)

lemma history_filter:
  "load_checkpoint_history (filter (\<lambda>e. Q (fst e)) d) =
     filter (\<lambda>x. Q (fst (snd x))) (load_checkpoint_history d)"
proof (induction d)
  case (Cons e d)
  have "filter (\<lambda>x. Q (fst (snd x))) (history_entry e) = (if Q (fst e) then history_entry e else [])"
    by (auto simp: filter_empty_conv dest: history_entry_in intro!: filter_True)
  with Cons show ?case by (simp add: history_Cons)
qed (simp add: load_checkpoint_history_def)

lemma rmtrees_filter:
  "distinct ps \<Longrightarrow> set ps \<subseteq> set (names d) \<Longrightarrow>
     rmtrees ps d = (Inr (), filter (\<lambda>e. fst e \<notin> set ps) d)"
proof (induction ps arbitrary: d)
  case (Cons p ps)
  then have "rmtree p d = Inr (AList.delete p d)"
    by (simp add: rmtree_def path_exists_def)
  moreover have "set ps \<subseteq> set (names (AList.delete p d))" "distinct ps"
    using Cons.prems by auto
  ultimately show ?case
    using Cons.IH by (simp add: AList.delete_eq conj_commute)
      (auto intro!: filter_cong simp: case_prod_beta)
qed simp

lemma distinct_history: "distinct (names d) \<Longrightarrow> distinct (map (\<lambda>x. fst (snd x)) (load_checkpoint_history d))"
proof (induction d)
  case (Cons e d)
  have "fst e \<notin> (\<lambda>x. fst (snd x)) ` set (load_checkpoint_history d)"
  proof
    assume "fst e \<in> (\<lambda>x. fst (snd x)) ` set (load_checkpoint_history d)"
    then have "fst e \<in> set (names d)"
      using history_mem by (fastforce simp: step_dirs_def)
    with Cons.prems show False by (simp add: names_def)
  qed
  moreover have "distinct (names d)" using Cons.prems by (simp add: names_def)
  ultimately show ?case
    using Cons.IH by (cases e) (auto simp: history_Cons split: option.splits)
qed (simp add: load_checkpoint_history_def)

text \<open>One statement of what \<open>remove_old_checkpoints\<close> does to the directory.\<close>

definition keeps :: "ckpt_config \<Rightarrow> bool \<Rightarrow> 'f fs \<Rightarrow> string \<Rightarrow> bool" where
  "keeps cfg excl d p \<longleftrightarrow>
     (\<forall>x\<in>set (load_checkpoint_history d). fst (snd x) = p \<longrightarrow>
        step_of p \<in> set (protected_steps cfg excl (load_checkpoint_history d)))"

lemma remove_old_skip:
  assumes "load_checkpoint_history d = [] \<or> (keep_top_k cfg = None \<and> ft_keep_latest_k cfg = None)"
  shows "remove_old_checkpoints cfg excl d = (Inr (), d)"
  using assms by (auto simp: remove_old_checkpoints_def removal_targets_def Let_def)

lemma remove_old_error:
  assumes "load_checkpoint_history d \<noteq> []" "\<not> (keep_top_k cfg = None \<and> ft_keep_latest_k cfg = None)"
    and "save_period cfg = 0"
  shows "remove_old_checkpoints cfg excl d = (Inl ZeroDivisionError, d)"
  using assms by (auto simp: remove_old_checkpoints_def removal_targets_def Let_def)

lemma remove_old_eq:
  assumes "distinct (names d)"
    and "load_checkpoint_history d \<noteq> []" "\<not> (keep_top_k cfg = None \<and> ft_keep_latest_k cfg = None)"
    and "save_period cfg \<noteq> 0"
  shows "remove_old_checkpoints cfg excl d = (Inr (), filter (\<lambda>e. keeps cfg excl d (fst e)) d)"
proof -
  let ?h = "load_checkpoint_history d"
  let ?ps = "map (\<lambda>x. fst (snd x)) (filter (\<lambda>x. fst x \<notin> set (protected_steps cfg excl ?h)) ?h)"
  have "distinct ?ps"
    using distinct_history[OF assms(1)] by (metis distinct_map_filter)
  moreover have "set ?ps \<subseteq> set (names d)"
    using history_mem by (fastforce simp: step_dirs_def)
  moreover have "p \<notin> set ?ps \<longleftrightarrow> keeps cfg excl d p" for p
    using history_mem[of _ d] by (auto simp: keeps_def)
  moreover have "removal_targets cfg excl d = Inr ?ps"
    using assms by (auto simp: removal_targets_def Let_def)
  ultimately show ?thesis
    by (simp add: remove_old_checkpoints_def rmtrees_filter)
qed

lemma history_after:
  "load_checkpoint_history (filter (\<lambda>e. keeps cfg excl d (fst e)) d) =
     filter (\<lambda>x. fst x \<in> set (protected_steps cfg excl (load_checkpoint_history d))) (load_checkpoint_history d)"
  unfolding history_filter by (rule filter_cong) (auto simp: keeps_def dest: history_mem)

lemma sort_filter:
  "sort_desc f (filter P xs) = filter P (sort_desc f xs)"
  "sort_key f (filter P xs) = filter P (sort_key f xs)"
  by (simp_all add: sort_desc_def filter_sort[symmetric] rev_filter)

lemma sort_periodic_filter: "sort_periodic cfg (filter P h) = filter P (sort_periodic cfg h)"
  by (simp add: sort_periodic_def sort_filter)

lemma set_sort_periodic [simp]: "set (sort_periodic cfg h) = set h"
  by (simp add: sort_periodic_def)

lemma take_filter_prefix: "\<forall>y\<in>set (take n ys). P y \<Longrightarrow> take n (filter P ys) = take n ys"
  by (induction ys arbitrary: n) (auto simp: take_Cons split: nat.splits)

lemma upto_slice_filter:
  "0 \<le> k \<Longrightarrow> \<forall>y\<in>set (upto_slice k ys). P y \<Longrightarrow> upto_slice k (filter P ys) = upto_slice k ys"
  by (simp add: upto_slice_def take_filter_prefix)

lemma protected_again:
  assumes "\<And>k. keep_top_k cfg = Some k \<Longrightarrow> 0 \<le> k" "\<And>k. ft_keep_latest_k cfg = Some k \<Longrightarrow> 0 \<le> k"
    and "h \<noteq> []"
  shows "protected_steps cfg excl (filter (\<lambda>x. fst x \<in> set (protected_steps cfg excl h)) h) =
    protected_steps cfg excl h"
proof -
  define prot where "prot = set (protected_steps cfg excl h)"
  let ?P = "\<lambda>x. fst x \<in> prot" and ?per = "\<lambda>x :: nat \<times> string \<times> info. save_period cfg dvd int (fst x)"
  have prot: "prot = set (protected_steps cfg excl h)" by (rule prot_def)
  have top: "Max (fst ` set (filter ?P h)) = Max (fst ` set h)" if excl
  proof (rule Max_eqI)
    have "Max (fst ` set h) \<in> fst ` set h" using assms(3) by (intro Max_in) auto
    moreover have "Max (fst ` set h) \<in> prot" using that by (simp add: prot protected_steps_def Let_def)
    ultimately show "Max (fst ` set h) \<in> fst ` set (filter ?P h)" by auto
  next
    fix y assume "y \<in> fst ` set (filter ?P h)"
    then show "y \<le> Max (fst ` set h)" by (intro Max_ge) auto
  qed simp
  have per: "filter ?per (filter ?P h) = filter ?P (filter ?per h)"
    by (simp add: conj_commute)
  have k: "upto_slice k (filter ?P (sort_periodic cfg (filter ?per h))) =
      upto_slice k (sort_periodic cfg (filter ?per h))" if "keep_top_k cfg = Some k" for k
    using that assms(1)[OF that] by (intro upto_slice_filter) (auto simp: prot protected_steps_def Let_def)
  have n: "filter ?P (filter ?per h) = filter ?per h" if "keep_top_k cfg = None"
    using that by (intro filter_True) (auto simp: prot protected_steps_def Let_def image_iff)
  have ft: "upto_slice k (filter ?P (sort_desc fst h)) = upto_slice k (sort_desc fst h)"
    if "ft_keep_latest_k cfg = Some k" for k
    using that assms(2)[OF that] by (intro upto_slice_filter) (auto simp: prot protected_steps_def Let_def)
  have e1: "(if excl then [Max (fst ` set (filter ?P h))] else []) = (if excl then [Max (fst ` set h)] else [])"
    using top by (simp del: set_filter)
  have e2: "(case keep_top_k cfg of
        Some k \<Rightarrow> map fst (upto_slice k (sort_periodic cfg (filter ?per (filter ?P h))))
      | None \<Rightarrow> map fst (filter ?per (filter ?P h))) =
     (case keep_top_k cfg of
        Some k \<Rightarrow> map fst (upto_slice k (sort_periodic cfg (filter ?per h)))
      | None \<Rightarrow> map fst (filter ?per h))"
    by (cases "keep_top_k cfg") (simp_all only: option.case per sort_periodic_filter[of cfg ?P] k n)
  have e3: "(case ft_keep_latest_k cfg of
        Some k \<Rightarrow> map fst (upto_slice k (sort_desc fst (filter ?P h))) | None \<Rightarrow> []) =
     (case ft_keep_latest_k cfg of
        Some k \<Rightarrow> map fst (upto_slice k (sort_desc fst h)) | None \<Rightarrow> [])"
    by (cases "ft_keep_latest_k cfg") (simp_all only: option.case sort_filter ft)
  show ?thesis
    unfolding prot_def[symmetric] unfolding protected_steps_def Let_def e1 e2 e3 by (rule refl)
qed


text \<open>
  The fixed point of retention: a second run removes nothing more.
\<close>

lemma remove_old_again:
  assumes "distinct (names d)"
    and "\<And>k. keep_top_k cfg = Some k \<Longrightarrow> 0 \<le> k" "\<And>k. ft_keep_latest_k cfg = Some k \<Longrightarrow> 0 \<le> k"
    and "remove_old_checkpoints cfg excl d = (Inr (), d')"
  shows "remove_old_checkpoints cfg excl d' = (Inr (), d')"
proof (cases "load_checkpoint_history d = [] \<or> (keep_top_k cfg = None \<and> ft_keep_latest_k cfg = None)")
  case True
  with assms(4) show ?thesis by (simp add: remove_old_skip)
next
  case False
  let ?h = "load_checkpoint_history d" and ?h' = "load_checkpoint_history d'"
  have per: "save_period cfg \<noteq> 0"
    using False assms(4) remove_old_error[of d cfg excl] by auto
  with False assms(1,4) have d': "d' = filter (\<lambda>e. keeps cfg excl d (fst e)) d"
    by (simp add: remove_old_eq)
  then have h': "?h' = filter (\<lambda>x. fst x \<in> set (protected_steps cfg excl ?h)) ?h"
    by (simp add: history_after)
  show ?thesis
  proof (cases "?h' = []")
    case False
    have "protected_steps cfg excl ?h' = protected_steps cfg excl ?h"
      unfolding h' using \<open>\<not> (?h = [] \<or> _)\<close> assms(2,3) by (intro protected_again) auto
    then have "keeps cfg excl d' p" for p
      using h' by (auto simp: keeps_def dest: history_mem)
    moreover have "distinct (names d')"
      using assms(1) by (simp add: d' names_def distinct_map_filter)
    ultimately show ?thesis
      using False \<open>\<not> (?h = [] \<or> _)\<close> per by (simp add: remove_old_eq)
  qed (simp add: remove_old_skip)
qed

text \<open>The best checkpoint\<close>

lemma set_sort_best [simp]: "set (sort_best cfg v) = set v"
  by (simp add: sort_best_def)

lemma sort_best_filter: "sort_best cfg (filter P v) = filter P (sort_best cfg v)"
  by (simp add: sort_best_def sort_filter)

lemma sort_best_periodic: "metric_name cfg \<noteq> None \<Longrightarrow> sort_periodic cfg v = sort_best cfg v"
  unfolding sort_periodic_def sort_best_def by (simp only: if_False)

lemma filter_swap: "filter P (filter Q xs) = filter Q (filter P xs)"
  by (simp add: conj_commute)

lemma filter_head: "ys \<noteq> [] \<Longrightarrow> P (ys ! 0) \<Longrightarrow> filter P ys ! 0 = ys ! 0"
  by (cases ys) auto

definition finite_metrics :: "ckpt_config \<Rightarrow> 'f fs \<Rightarrow> bool" where
  "finite_metrics cfg d \<longleftrightarrow>
     (\<forall>x\<in>set (load_checkpoint_history d). has_metric cfg (snd (snd x)) \<longrightarrow>
        get_metric cfg (snd (snd x)) Minus_Inf \<noteq> Minus_Inf \<and> get_metric cfg (snd (snd x)) Minus_Inf \<noteq> Plus_Inf)"

lemma get_metric_dflt: "has_metric cfg i \<Longrightarrow> get_metric cfg i a = get_metric cfg i b"
  by (auto simp: has_metric_def get_metric_def split: option.splits)

lemma get_metric_missing: "\<not> has_metric cfg i \<Longrightarrow> get_metric cfg i a = a"
  by (auto simp: has_metric_def get_metric_def split: option.splits)

lemma sort_best_head:
  assumes "h \<noteq> []" and "x \<in> set h" and "has_metric cfg (snd (snd x))"
    and "get_metric cfg (snd (snd x)) Minus_Inf \<noteq> Minus_Inf" "get_metric cfg (snd (snd x)) Minus_Inf \<noteq> Plus_Inf"
  shows "has_metric cfg (snd (snd (sort_best cfg h ! 0)))"
proof (rule ccontr)
  let ?ys = "sort_best cfg h"
  let ?z = "?ys ! 0"
  let ?up = "\<lambda>x. (get_metric cfg (snd (snd x)) Minus_Inf, fst x)"
  let ?dn = "\<lambda>x. (get_metric cfg (snd (snd x)) Plus_Inf, - int (fst x))"
  assume no: "\<not> has_metric cfg (snd (snd ?z))"
  have len: "length ?ys = length h" by (simp add: sort_best_def)
  obtain i where i: "i < length ?ys" "?ys ! i = x"
    using assms(2) by (metis in_set_conv_nth set_sort_best)
  obtain q where q: "get_metric cfg (snd (snd x)) Minus_Inf = Val q" "get_metric cfg (snd (snd x)) Plus_Inf = Val q"
    using assms(3-5) get_metric_dflt by (metis metric.exhaust)
  have up: "?up x \<le> ?up ?z" if "higher_is_better cfg"
    using that i sorted_wrt_nth_less[OF sorted_sort_desc[of ?up h], of 0 i]
    by (cases "i = 0") (auto simp: sort_best_def)
  have dn: "?dn ?z \<le> ?dn x" if "\<not> higher_is_better cfg"
  proof -
    have ys: "?ys = sort_key ?dn h" using that by (simp add: sort_best_def)
    have "map ?dn ?ys ! 0 \<le> map ?dn ?ys ! i"
      using i unfolding ys by (intro sorted_nth_mono) auto
    moreover have "0 < length ?ys" using i by auto
    ultimately show ?thesis using i by (simp only: nth_map)
  qed
  show False
    using up dn q get_metric_missing[OF no] by (cases "higher_is_better cfg") (auto simp: less_eq_prod_def)
qed

lemma best_protected:
  assumes "metric_name cfg \<noteq> None" and "keep_top_k cfg = Some k" "0 < k"
    and "h \<noteq> []" and v: "v = filter (\<lambda>x. has_metric cfg (snd (snd x))) h" "v \<noteq> []"
    and fin: "\<forall>x\<in>set v. get_metric cfg (snd (snd x)) Minus_Inf \<noteq> Minus_Inf \<and>
        get_metric cfg (snd (snd x)) Minus_Inf \<noteq> Plus_Inf"
    and "save_period cfg dvd int (fst (sort_best cfg v ! 0))"
  shows "fst (sort_best cfg v ! 0) \<in> set (protected_steps cfg excl h)"
proof -
  let ?per = "\<lambda>x :: nat \<times> string \<times> info. save_period cfg dvd int (fst x)"
    and ?has = "\<lambda>x :: nat \<times> string \<times> info. has_metric cfg (snd (snd x))"
  let ?b = "sort_best cfg v ! 0"
  have ne: "sort_best cfg v \<noteq> []" using v(2) by (metis set_empty set_sort_best)
  then have b: "?b \<in> set v" by (metis length_greater_0_conv nth_mem set_sort_best)
  have vh: "set v \<subseteq> set h" "\<And>x. x \<in> set v \<Longrightarrow> ?has x" by (simp_all add: v(1))
  have bp: "?b \<in> set (filter ?per h)" using subsetD[OF vh(1) b] assms(8) by simp
  have f: "filter ?per h \<noteq> []" using bp by (metis empty_iff empty_set)
  have "?has (sort_best cfg (filter ?per h) ! 0)"
    by (rule sort_best_head[OF f bp vh(2)[OF b]]) (use fin b in blast)+
  then have "sort_best cfg (filter ?per h) ! 0 = filter ?has (sort_best cfg (filter ?per h)) ! 0"
    using bp by (intro filter_head[symmetric]) (metis empty_iff empty_set set_sort_best)
  also have "\<dots> = filter ?per (sort_best cfg v) ! 0"
    unfolding v(1) sort_best_filter by (simp only: filter_swap[of ?has ?per])
  also have "\<dots> = ?b" using ne assms(8) by (rule filter_head)
  finally have 1: "sort_best cfg (filter ?per h) ! 0 = ?b" .
  have "sort_best cfg (filter ?per h) \<noteq> []" using bp by (metis empty_iff empty_set set_sort_best)
  with 1 assms(3) have "?b \<in> set (upto_slice k (sort_best cfg (filter ?per h)))"
    by (cases "sort_best cfg (filter ?per h)") (auto simp: upto_slice_def take_Cons' )
  then show ?thesis
    using assms(1,2) by (auto simp: protected_steps_def Let_def sort_best_periodic)
qed


lemma best_Some:
  assumes "filter (\<lambda>x. has_metric cfg (snd (snd x))) (load_checkpoint_history d) \<noteq> []"
  shows "get_best_checkpoint_path cfg d =
    Some (fst (snd (sort_best cfg (filter (\<lambda>x. has_metric cfg (snd (snd x))) (load_checkpoint_history d)) ! 0)))"
  using assms by (auto simp: get_best_checkpoint_path_def Let_def)

text \<open>
  C23: with a metric configured and \<open>keep_top_k\<close> at least 1, pruning never removes the best checkpoint,
  if that checkpoint is aligned with the save period and the metric values are finite: what
  \<open>get_best_checkpoint_path\<close> returns is the same before and after, and still holds the same files.
\<close>

theorem prune_keeps_best:
  assumes "distinct (names d)" and "metric_name cfg \<noteq> None" and "keep_top_k cfg = Some k" and "0 < k"
    and "finite_metrics cfg d"
    and "\<exists>x\<in>set (load_checkpoint_history d). has_metric cfg (snd (snd x))"
    and "get_best_checkpoint_path cfg d = Some p" and "save_period cfg dvd int (step_of p)"
  shows "get_best_checkpoint_path cfg (snd (remove_old_checkpoints cfg excl d)) = Some p \<and>
    map_of (snd (remove_old_checkpoints cfg excl d)) p = map_of d p"
proof (cases "save_period cfg = 0")
  case True
  have "load_checkpoint_history d \<noteq> []" using assms(6) by auto
  with True assms(3,7) show ?thesis by (simp add: remove_old_error)
next
  case False
  define h where "h = load_checkpoint_history d"
  let ?has = "\<lambda>x :: nat \<times> string \<times> info. has_metric cfg (snd (snd x))"
  define v where "v = filter ?has h"
  let ?prot = "\<lambda>x. fst x \<in> set (protected_steps cfg excl h)"
  define d' where "d' = filter (\<lambda>e. keeps cfg excl d (fst e)) d"
  let ?b = "sort_best cfg v ! 0"
  have h: "h \<noteq> []" "v \<noteq> []" using assms(6) by (auto simp: h_def v_def filter_empty_conv)
  have d': "snd (remove_old_checkpoints cfg excl d) = d'"
    using h False assms(1,3) by (simp add: remove_old_eq d'_def h_def)
  have p: "p = fst (snd ?b)" using assms(7) best_Some[of cfg d] h(2) by (simp add: v_def h_def)
  have ne: "sort_best cfg v \<noteq> []" using h(2) by (metis set_empty set_sort_best)
  then have b: "?b \<in> set v" by (metis length_greater_0_conv nth_mem set_sort_best)
  then have "?b \<in> set h" by (simp add: v_def)
  then have st: "fst ?b = step_of p" using history_mem[of ?b d] by (simp add: p h_def)
  have prot: "?prot ?b"
    using assms(2-4) h v_def assms(8) st assms(5)
    by (intro best_protected) (auto simp: finite_metrics_def v_def h_def)
  have "filter ?has (load_checkpoint_history d') = filter ?prot v"
    unfolding d'_def history_after h_def[symmetric] v_def by (rule filter_swap)
  moreover have "sort_best cfg (filter ?prot v) ! 0 = ?b"
    unfolding sort_best_filter using ne prot by (rule filter_head)
  moreover have "filter ?prot v \<noteq> []" using b prot by (auto simp: filter_empty_conv)
  ultimately have 1: "get_best_checkpoint_path cfg d' = Some p"
    using best_Some[of cfg d'] by (simp add: p)
  have kp: "keeps cfg excl d p" using prot st by (simp add: keeps_def h_def)
  have "map_of (filter (\<lambda>e. keeps cfg excl d (fst e)) ds) p = map_of ds p" for ds :: "'a fs"
    using kp by (induction ds) auto
  with 1 show ?thesis by (simp add: d' d'_def)
qed

definition demo_config :: ckpt_config where
  "demo_config = \<lparr>metric_name = Some ''val:acc'', higher_is_better = True, keep_top_k = Some 1,
     save_period = 10, ft_keep_latest_k = Some 1\<rparr>"

definition demo_fs :: "nat fs" where
  "demo_fs = map (\<lambda>(n, q). (step_name n, \<lparr>info_file = Some [(''val:acc'', Val q)], data_files = []\<rparr>))
     [(10, 1/2), (20, 3/4), (25, 1/4), (30, 2/3), (35, 1/3)]"

theorem prune_keeps_best_witness:
  "get_best_checkpoint_path demo_config (snd (remove_old_checkpoints demo_config True demo_fs)) = Some (step_name 20)
   \<and> names (snd (remove_old_checkpoints demo_config True demo_fs)) = [step_name 20, step_name 35]"
proof -
  have "get_best_checkpoint_path demo_config (snd (remove_old_checkpoints demo_config True demo_fs)) =
      Some (step_name 20) \<and>
    map_of (snd (remove_old_checkpoints demo_config True demo_fs)) (step_name 20) = map_of demo_fs (step_name 20)"
    by (rule prune_keeps_best[where k = 1]) (code_simp+)
  moreover have "names (snd (remove_old_checkpoints demo_config True demo_fs)) = [step_name 20, step_name 35]"
    by code_simp
  ultimately show ?thesis by blast
qed


section \<open>Background finalization\<close>

text \<open>
  The phases of the finalization thread: waiting for \<open>wait_fn\<close>, then one phase per call of
  \<open>_rename_checkpoint\<close> to the file system, then the submission of the pruning.
\<close>

datatype save_phase = Waiting | Testing | Renaming | Swapping | Installing | Dropping | Submitting | Finished

definition rename_phase :: "string \<Rightarrow> save_phase \<Rightarrow> 'f fs \<Rightarrow> (save_phase \<times> 'f fs) res" where
  "rename_phase path ph d = bindR (step_part path) (\<lambda>step.
     let to_path = ''step_'' @ step; old_path = ''old_step_'' @ step in
     (case ph of
        Testing \<Rightarrow> Inr (if path_exists to_path d then Swapping else Renaming, d)
      | Renaming \<Rightarrow> bindR (os_rename path to_path d) (\<lambda>d'. Inr (Submitting, d'))
      | Swapping \<Rightarrow> bindR (os_rename to_path old_path d) (\<lambda>d'. Inr (Installing, d'))
      | Installing \<Rightarrow> bindR (os_rename path to_path d) (\<lambda>d'. Inr (Dropping, d'))
      | Dropping \<Rightarrow>
          if path_exists old_path d then bindR (rmtree old_path d) (\<lambda>d'. Inr (Submitting, d'))
          else Inr (Submitting, d)
      | _ \<Rightarrow> Inr (ph, d)))"

text \<open>The phases run without a break are \<open>_rename_checkpoint\<close>.\<close>

fun rename_phases :: "nat \<Rightarrow> string \<Rightarrow> save_phase \<Rightarrow> 'f fs \<Rightarrow> unit res \<times> 'f fs" where
  "rename_phases 0 path ph d = (Inr (), d)"
| "rename_phases (Suc n) path ph d = (case rename_phase path ph d of
      Inl e \<Rightarrow> (Inl e, d)
    | Inr (ph', d') \<Rightarrow> rename_phases n path ph' d')"

lemma rename_phases_eq: "rename_phases 4 path Testing d = rename_checkpoint path d"
proof (cases "step_part path")
  case (Inr step)
  note [simp] = Inr rename_phase_def rename_checkpoint_def Let_def eval_nat_numeral
  show ?thesis
  proof (cases "path_exists (''step_'' @ step) d")
    case True
    then show ?thesis
      by (cases "os_rename (''step_'' @ step) (''old_step_'' @ step) d")
        (auto simp del: append_Cons split: sum.splits if_splits simp: bindR_def)
  next
    case False
    then show ?thesis by (cases "os_rename path (''step_'' @ step) d") simp_all
  qed
qed (simp add: rename_phase_def rename_checkpoint_def eval_nat_numeral)

datatype delete_task = Queued | Removing "string list"

text \<open>
  The manager: \<open>_finalize_thread\<close> (the path it works on and its phase), \<open>_pending_checkpoint_path\<close>,
  \<open>_finalize_error\<close>, and the tasks of \<open>_delete_executor\<close>, of which its single worker has the first.
\<close>

record 'f ckpt_manager =
  disk :: "'f fs"
  thread :: "(string \<times> save_phase) option"
  pending_path :: "string option"
  finalize_error :: "py_error option"
  deletes :: "delete_task list"

definition new_ckpt_manager :: "'f fs \<Rightarrow> 'f ckpt_manager" where
  "new_ckpt_manager d = \<lparr>disk = d, thread = None, pending_path = None, finalize_error = None, deletes = []\<rparr>"

text \<open>The thread has ended, or there is none: \<open>join\<close> does not block.\<close>

definition joinable :: "'f ckpt_manager \<Rightarrow> bool" where
  "joinable s \<longleftrightarrow> (case thread s of None \<Rightarrow> True | Some (_, ph) \<Rightarrow> ph = Finished)"

definition finalize_pending :: "'f ckpt_manager \<Rightarrow> unit res \<times> 'f ckpt_manager" where
  "finalize_pending s = (let s1 = s\<lparr>thread := None\<rparr> in
     (case finalize_error s1 of
        None \<Rightarrow> (Inr (), s1)
      | Some _ \<Rightarrow> (Inl RuntimeError, s1\<lparr>finalize_error := None\<rparr>)))"

definition begin_finalization :: "string \<Rightarrow> 'f ckpt_manager \<Rightarrow> unit res \<times> 'f ckpt_manager" where
  "begin_finalization path s = (case finalize_pending s of
      (Inl e, s1) \<Rightarrow> (Inl e, s1)
    | (Inr _, s1) \<Rightarrow>
        (Inr (), s1\<lparr>pending_path := Some path, finalize_error := None, thread := Some (path, Waiting)\<rparr>))"

definition has_pending_finalization :: "'f ckpt_manager \<Rightarrow> bool" where
  "has_pending_finalization s \<longleftrightarrow> pending_path s \<noteq> None"

text \<open>\<open>shutdown\<close> waits for the deletions only when \<open>finalize_pending\<close> has not raised.\<close>

definition shutdown_blocks :: "'f ckpt_manager \<Rightarrow> bool" where
  "shutdown_blocks s \<longleftrightarrow> \<not> joinable s \<or> finalize_error s = None \<and> deletes s \<noteq> []"

definition shutdown :: "'f ckpt_manager \<Rightarrow> unit res \<times> 'f ckpt_manager" where
  "shutdown s = (case finalize_pending s of
      (Inl e, s1) \<Rightarrow> (Inl e, s1)
    | (Inr _, s1) \<Rightarrow> (Inr (), s1\<lparr>deletes := []\<rparr>))"

text \<open>\<open>__exit__\<close>: on an exception already raised, that of \<open>shutdown\<close> is dropped.\<close>

definition exit_manager :: "bool \<Rightarrow> 'f ckpt_manager \<Rightarrow> unit res \<times> 'f ckpt_manager" where
  "exit_manager raised s = (case shutdown s of (r, s1) \<Rightarrow> (if raised then Inr () else r, s1))"

text \<open>The thread's body\<close>

definition thread_fails :: "string \<Rightarrow> py_error \<Rightarrow> 'f ckpt_manager \<Rightarrow> 'f ckpt_manager" where
  "thread_fails path e s = s\<lparr>finalize_error := Some e, pending_path := None, thread := Some (path, Finished)\<rparr>"

definition thread_step :: "string \<Rightarrow> save_phase \<Rightarrow> 'f ckpt_manager \<Rightarrow> 'f ckpt_manager option" where
  "thread_step path ph s =
     (if ph = Waiting \<or> ph = Finished then None
      else if ph = Submitting then
        Some (s\<lparr>deletes := deletes s @ [Queued], pending_path := None, thread := Some (path, Finished)\<rparr>)
      else (case rename_phase path ph (disk s) of
          Inl e \<Rightarrow> Some (thread_fails path e s)
        | Inr (ph', d) \<Rightarrow> Some (s\<lparr>disk := d, thread := Some (path, ph')\<rparr>)))"

text \<open>The deletion worker: it reads the history, then removes the directories file by file.\<close>

definition remove_file :: "string \<Rightarrow> 'f cdir \<Rightarrow> 'f cdir" where
  "remove_file f c =
     (if f = ''training_info.json'' then c\<lparr>info_file := None\<rparr>
      else c\<lparr>data_files := filter (\<lambda>e. fst e \<noteq> f) (data_files c)\<rparr>)"

fun delete_scan :: "ckpt_config \<Rightarrow> delete_task list \<Rightarrow> 'f fs \<Rightarrow> delete_task list option" where
  "delete_scan cfg (Queued # q) d = (case removal_targets cfg True d of
      Inl _ \<Rightarrow> Some q
    | Inr ps \<Rightarrow> Some (Removing ps # q))"
| "delete_scan cfg q d = None"

fun delete_file :: "string \<Rightarrow> delete_task list \<Rightarrow> 'f fs \<Rightarrow> (delete_task list \<times> 'f fs) option" where
  "delete_file f (Removing (p # ps) # q) d =
     (if path_exists p d then Some (Removing (p # ps) # q, AList.map_entry p (remove_file f) d) else None)"
| "delete_file f q d = None"

fun delete_next :: "delete_task list \<Rightarrow> 'f fs \<Rightarrow> (delete_task list \<times> 'f fs) option" where
  "delete_next (Removing [] # q) d = Some (q, d)"
| "delete_next (Removing (p # ps) # q) d = (case map_of d p of
      None \<Rightarrow> Some (q, d)
    | Some c \<Rightarrow> if empty_dir c then Some (Removing ps # q, AList.delete p d) else None)"
| "delete_next q d = None"

text \<open>
  What can happen next.  \<open>Store\<close> is a write of the training loop or of an asynchronous writer;
  \<open>None\<close> says that the event cannot happen now, because its call blocks.
\<close>

datatype 'f event =
    Init nat info "'f option" | Store string string 'f | Begin string | Join | Shutdown
  | Wait_returns | Wait_raises py_error | Thread
  | Scan | Remove_file string | Remove_next

definition add_file :: "string \<Rightarrow> 'f \<Rightarrow> 'f cdir \<Rightarrow> 'f cdir" where
  "add_file f x c = c\<lparr>data_files := AList.update f x (data_files c)\<rparr>"

fun manager_step :: "ckpt_config \<Rightarrow> 'f event \<Rightarrow> 'f ckpt_manager \<Rightarrow> (unit res \<times> 'f ckpt_manager) option" where
  "manager_step cfg (Init n i y) s = Some (Inr (), s\<lparr>disk := fst (init_tmp_checkpoint n i y (disk s))\<rparr>)"
| "manager_step cfg (Store p f x) s =
     (if path_exists p (disk s) then Some (Inr (), s\<lparr>disk := AList.map_entry p (add_file f x) (disk s)\<rparr>) else None)"
| "manager_step cfg (Begin p) s = (if joinable s then Some (begin_finalization p s) else None)"
| "manager_step cfg Join s = (if joinable s then Some (finalize_pending s) else None)"
| "manager_step cfg Shutdown s = (if shutdown_blocks s then None else Some (shutdown s))"
| "manager_step cfg Wait_returns s = (case thread s of
      Some (p, Waiting) \<Rightarrow> Some (Inr (), s\<lparr>thread := Some (p, Testing)\<rparr>) | _ \<Rightarrow> None)"
| "manager_step cfg (Wait_raises e) s = (case thread s of
      Some (p, Waiting) \<Rightarrow> Some (Inr (), thread_fails p e s) | _ \<Rightarrow> None)"
| "manager_step cfg Thread s = (case thread s of
      Some (p, ph) \<Rightarrow> map_option (Pair (Inr ())) (thread_step p ph s) | None \<Rightarrow> None)"
| "manager_step cfg Scan s =
     map_option (\<lambda>q. (Inr (), s\<lparr>deletes := q\<rparr>)) (delete_scan cfg (deletes s) (disk s))"
| "manager_step cfg (Remove_file f) s =
     map_option (\<lambda>(q, d). (Inr (), s\<lparr>deletes := q, disk := d\<rparr>)) (delete_file f (deletes s) (disk s))"
| "manager_step cfg Remove_next s =
     map_option (\<lambda>(q, d). (Inr (), s\<lparr>deletes := q, disk := d\<rparr>)) (delete_next (deletes s) (disk s))"

text \<open>The runs of the manager, with what each call raised or returned.\<close>

inductive manager_run ::
    "ckpt_config \<Rightarrow> ('f ckpt_manager \<Rightarrow> 'f event \<Rightarrow> bool) \<Rightarrow> 'f ckpt_manager \<Rightarrow> ('f event \<times> unit res) list \<Rightarrow> 'f ckpt_manager \<Rightarrow> bool"
  for cfg :: ckpt_config and client :: "'f ckpt_manager \<Rightarrow> 'f event \<Rightarrow> bool" where
  run_nil: "manager_run cfg client s [] s"
| run_step: "manager_run cfg client s tr s1 \<Longrightarrow> client s1 ev \<Longrightarrow> manager_step cfg ev s1 = Some (r, s2)
     \<Longrightarrow> manager_run cfg client s (tr @ [(ev, r)]) s2"



section \<open>The resume point\<close>

text \<open>
  What the training loop does: it writes only below temporary directories, and finalizes
  \<open>tmp_step_n\<close>, made by \<open>init_tmp_checkpoint\<close>, for an \<open>n\<close> above every step saved so far.
\<close>

definition newer :: "nat \<Rightarrow> 'f fs \<Rightarrow> bool" where
  "newer n d \<longleftrightarrow> (\<forall>q\<in>set (step_dirs d). step_of q < n)"

definition has_info :: "string \<Rightarrow> 'f fs \<Rightarrow> bool" where
  "has_info p d \<longleftrightarrow> (case map_of d p of None \<Rightarrow> False | Some c \<Rightarrow> info_file c \<noteq> None)"

lemma has_info_iff: "has_info p d \<longleftrightarrow> (\<exists>c. map_of d p = Some c \<and> info_file c \<noteq> None)"
  by (auto simp: has_info_def split: option.splits)

text \<open>\<open>p\<close> is \<open>tmp_step_n\<close> for such an \<open>n\<close>.\<close>

definition saves_new :: "string \<Rightarrow> 'f fs \<Rightarrow> bool" where
  "saves_new p d \<longleftrightarrow> (let n = number_of_digits (drop 9 p) in p = tmp_name n \<and> newer n d)"

lemma saves_new_iff: "saves_new p d \<longleftrightarrow> (\<exists>n. p = tmp_name n \<and> newer n d)"
proof -
  have "number_of_digits (drop 9 (tmp_name n)) = n" for n
    by (simp add: tmp_name_def eval_nat_numeral)
  then show ?thesis by (auto simp: saves_new_def Let_def)
qed

definition saves_in_order :: "'f ckpt_manager \<Rightarrow> 'f event \<Rightarrow> bool" where
  "saves_in_order s ev = (case ev of
      Store p f x \<Rightarrow> \<not> is_step_name p
    | Begin p \<Rightarrow> saves_new p (disk s) \<and> has_info p (disk s)
    | _ \<Rightarrow> True)"

text \<open>The resume point never goes back, and what it holds does not change.\<close>

definition resume_kept :: "'f fs \<Rightarrow> 'f fs \<Rightarrow> bool" where
  "resume_kept d d' \<longleftrightarrow> (\<forall>p. get_latest_checkpoint_path d = Some p \<longrightarrow>
     (\<exists>p'. get_latest_checkpoint_path d' = Some p' \<and>
        (p' = p \<and> map_of d' p = map_of d p \<or> step_of p < step_of p')))"

lemma resume_kept_refl [simp]: "resume_kept d d"
  by (simp add: resume_kept_def)

lemma resume_kept_trans: "resume_kept d d' \<Longrightarrow> resume_kept d' d'' \<Longrightarrow> resume_kept d d''"
  unfolding resume_kept_def by (metis less_trans)

definition resumable :: "'f fs \<Rightarrow> bool" where
  "resumable d \<longleftrightarrow> (\<forall>p. get_latest_checkpoint_path d = Some p \<longrightarrow> has_info p d)"

definition doomed :: "'f fs \<Rightarrow> string \<Rightarrow> bool" where
  "doomed d t \<longleftrightarrow> is_step_name t \<and> (\<exists>p. get_latest_checkpoint_path d = Some p \<and> step_of t < step_of p)"

definition thread_ok :: "'f ckpt_manager \<Rightarrow> bool" where
  "thread_ok s \<longleftrightarrow> (case thread s of
      None \<Rightarrow> True
    | Some (p, ph) \<Rightarrow>
        ph \<in> {Submitting, Finished} \<or>
        ph \<in> {Waiting, Testing, Renaming} \<and> (\<exists>n. p = tmp_name n \<and> newer n (disk s)) \<and> has_info p (disk s))"

definition tasks_ok :: "delete_task list \<Rightarrow> 'f fs \<Rightarrow> bool" where
  "tasks_ok q d \<longleftrightarrow> (\<forall>ps t. Removing ps \<in> set q \<longrightarrow> t \<in> set ps \<longrightarrow> doomed d t)"

definition saving :: "'f ckpt_manager \<Rightarrow> bool" where
  "saving s \<longleftrightarrow> resumable (disk s) \<and> thread_ok s \<and> tasks_ok (deletes s) (disk s)"

lemma doomed_kept: "resume_kept d d' \<Longrightarrow> doomed d t \<Longrightarrow> doomed d' t"
  unfolding doomed_def resume_kept_def by (metis less_trans)

lemma tasks_kept: "resume_kept d d' \<Longrightarrow> tasks_ok q d \<Longrightarrow> tasks_ok q d'"
  unfolding tasks_ok_def by (metis doomed_kept)

lemma newer_absent: "newer n d \<Longrightarrow> \<not> path_exists (step_name n) d"
  using in_step_dirs[of "step_name n" d] by (auto simp: newer_def)

lemma newer_subset: "set (step_dirs d') \<subseteq> set (step_dirs d) \<Longrightarrow> newer n d \<Longrightarrow> newer n d'"
  by (auto simp: newer_def)

text \<open>The changes of the directory that keep the resume point, one per kind of event\<close>

lemma dir_of_update: "map_of (AList.update p c d) q = (if q = p then Some c else map_of d q)"
  by (simp add: update_conv')

lemma dir_of_delete: "map_of (AList.delete p d) q = (if q = p then None else map_of d q)"
  by (simp add: delete_conv')

lemma dir_of_map_entry: "map_of (AList.map_entry p f d) q = (if q = p then map_option f (map_of d p) else map_of d q)"
  by (induction d) auto

lemma names_map_entry [simp]: "names (AList.map_entry p f d) = names d"
  by (induction d) (auto simp: names_def)

lemma step_dirs_map_entry [simp]: "step_dirs (AList.map_entry p f d) = step_dirs d"
  by (simp add: step_dirs_def)

lemma resume_same_dirs:
  assumes "step_dirs d' = step_dirs d" and "\<And>p. get_latest_checkpoint_path d = Some p \<Longrightarrow> map_of d' p = map_of d p"
  shows "resume_kept d d'" "resumable d \<Longrightarrow> resumable d'"
  using assms latest_cong[OF assms(1)] by (auto simp: resume_kept_def resumable_def has_info_iff)

lemma init_tmp_keeps:
  assumes d'_def: "d' = fst (init_tmp_checkpoint n i y d)"
  shows "step_dirs d' = step_dirs d" "\<And>p. is_step_name p \<Longrightarrow> map_of d' p = map_of d p" "has_info p d \<Longrightarrow> has_info p d'"
proof -
  show "step_dirs d' = step_dirs d"
    by (simp add: d'_def init_tmp_checkpoint_def Let_def step_dirs_other)
  fix p :: string
  have eq: "map_of d' p = map_of d p" if "p \<noteq> tmp_name n" for p
    using that by (simp add: d'_def init_tmp_checkpoint_def Let_def dir_of_update dir_of_delete)
  then show "is_step_name p \<Longrightarrow> map_of d' p = map_of d p"
    using not_step_names(1) by metis
  have "has_info (tmp_name n) d'"
    by (simp add: d'_def init_tmp_checkpoint_def Let_def dir_of_update has_info_iff)
  then show "has_info p d \<Longrightarrow> has_info p d'"
    using eq[of p] by (cases "p = tmp_name n") (simp_all add: has_info_iff)
qed

lemma install_keeps:
  assumes "newer n d" and "has_info (tmp_name n) d"
    and "os_rename (tmp_name n) (step_name n) d = Inr d'"
  shows "resume_kept d d'" "resumable d'" "get_latest_checkpoint_path d' = Some (step_name n)"
    "map_of d' (step_name n) = map_of d (tmp_name n)"
proof -
  obtain c where c: "map_of d (tmp_name n) = Some c" "info_file c \<noteq> None"
    using assms(2) by (auto simp: has_info_iff)
  have new: "\<not> path_exists (step_name n) d"
    using assms(1) by (rule newer_absent)
  then have "map_of d (step_name n) = None" by (metis option.exhaust path_exists_map_of)
  with c assms(3) have d': "d' = AList.update (step_name n) c (AList.delete (tmp_name n) d)"
    by (auto simp: os_rename_def split: if_splits)
  have dirs: "step_dirs d' = step_dirs d @ [step_name n]"
    unfolding d' using new by (subst step_dirs_update_new) (simp_all add: step_dirs_other)
  show latest: "get_latest_checkpoint_path d' = Some (step_name n)"
    using assms(1) by (intro latest_new[OF dirs]) (simp add: newer_def)
  show "map_of d' (step_name n) = map_of d (tmp_name n)"
    by (simp add: d' dir_of_update c)
  with latest c show "resumable d'" by (simp add: resumable_def has_info_iff)
  show "resume_kept d d'"
    unfolding resume_kept_def latest
    using assms(1) latest_Some by (fastforce simp: newer_def in_step_dirs)
qed

lemma delete_doomed_keeps:
  assumes "doomed d t"
  shows "resume_kept d (AList.delete t d)" "resumable d \<Longrightarrow> resumable (AList.delete t d)"
proof -
  obtain p where p: "get_latest_checkpoint_path d = Some p" "step_of t < step_of p"
    using assms by (auto simp: doomed_def)
  then have ne: "p \<noteq> t" by auto
  have "get_latest_checkpoint_path (AList.delete t d) = Some p"
    using ne by (intro latest_filter[OF p(1) step_dirs_delete]) simp
  with p ne show "resume_kept d (AList.delete t d)" "resumable d \<Longrightarrow> resumable (AList.delete t d)"
    by (simp_all add: resume_kept_def resumable_def has_info_iff dir_of_delete)
qed

lemma targets_doomed:
  assumes "removal_targets cfg True d = Inr ps" and "t \<in> set ps"
  shows "doomed d t"
proof -
  let ?h = "load_checkpoint_history d"
  have ne: "?h \<noteq> []" using assms by (auto simp: removal_targets_def Let_def)
  have "ps = map (\<lambda>x. fst (snd x)) (filter (\<lambda>x. fst x \<notin> set (protected_steps cfg True ?h)) ?h)"
    using assms ne by (auto simp: removal_targets_def Let_def split: if_splits)
  then obtain x where x: "x \<in> set ?h" "fst x \<notin> set (protected_steps cfg True ?h)" "t = fst (snd x)"
    using assms(2) by auto
  have "Max (fst ` set ?h) \<in> fst ` set ?h" using ne by (intro Max_in) auto
  then obtain y where y: "y \<in> set ?h" "fst y = Max (fst ` set ?h)" by auto
  have "Max (fst ` set ?h) \<in> set (protected_steps cfg True ?h)"
    by (simp add: protected_steps_def Let_def)
  with x have "fst x \<noteq> fst y" using y(2) by metis
  moreover have "fst x \<le> fst y" unfolding y(2) using x(1) by (intro Max_ge) auto
  ultimately have less: "step_of t < step_of (fst (snd y))"
    using history_mem[OF x(1)] history_mem[OF y(1)] x(3) by simp
  have ymem: "fst (snd y) \<in> set (step_dirs d)" using history_mem[OF y(1)] by simp
  then obtain p where p: "get_latest_checkpoint_path d = Some p"
    using latest_None[of d] by (cases "get_latest_checkpoint_path d") auto
  then have "step_of (fst (snd y)) \<le> step_of p" using latest_Some(3) ymem by blast
  then show ?thesis
    using less p history_mem[OF x(1)] x(3) by (auto simp: doomed_def in_step_dirs)
qed


lemma saving_disk:
  assumes "saving s" and "disk s' = d'" "thread s' = thread s" "deletes s' = deletes s"
    and "step_dirs d' = step_dirs (disk s)" "\<And>p. is_step_name p \<Longrightarrow> map_of d' p = map_of (disk s) p"
    and "\<And>p. has_info p (disk s) \<Longrightarrow> has_info p d'"
  shows "saving s' \<and> resume_kept (disk s) (disk s')"
proof -
  have same: "map_of d' p = map_of (disk s) p" if "get_latest_checkpoint_path (disk s) = Some p" for p
    using latest_Some(1)[OF that] assms(6) by blast
  have "resume_kept (disk s) d'" "resumable d'"
    using assms(1) resume_same_dirs[OF assms(5) same] by (auto simp: saving_def)
  moreover have "thread_ok s'"
    using assms(1,2,3,5,7) by (auto simp: saving_def thread_ok_def newer_def split: option.splits)
  ultimately show ?thesis
    using assms(1,2,4) tasks_kept by (auto simp: saving_def)
qed

lemma saving_delete:
  assumes "saving s" and "disk s' = d'" "thread s' = thread s" "tasks_ok (deletes s') (disk s)"
    and "resume_kept (disk s) d'" "resumable d'" and "set (step_dirs d') \<subseteq> set (step_dirs (disk s))"
    and "\<And>p. \<not> is_step_name p \<Longrightarrow> map_of d' p = map_of (disk s) p"
  shows "saving s' \<and> resume_kept (disk s) (disk s')"
proof -
  have "has_info (tmp_name n) d' = has_info (tmp_name n) (disk s)" for n
    using assms(8)[of "tmp_name n"] by (simp add: has_info_iff)
  then have "thread_ok s'"
    using assms(1,2,3) newer_subset[OF assms(7)]
    by (auto simp: saving_def thread_ok_def split: option.splits)
  then show ?thesis
    using assms tasks_kept by (auto simp: saving_def)
qed

lemma saving_thread:
  assumes "saving s" and "thread s = Some (p, ph)" and "thread_step p ph s = Some s'"
  shows "saving s' \<and> resume_kept (disk s) (disk s')"
proof -
  have ok: "thread_ok s" using assms(1) by (simp add: saving_def)
  consider "ph = Submitting" | "ph = Testing" | "ph = Renaming"
    using assms(2,3) ok by (auto simp: thread_ok_def thread_step_def)
  then show ?thesis
  proof cases
    case 1
    with assms show ?thesis
      by (auto simp: thread_step_def saving_def thread_ok_def tasks_ok_def)
  next
    case 2
    then obtain n where n: "p = tmp_name n" "newer n (disk s)" "has_info p (disk s)"
      using ok assms(2) by (auto simp: thread_ok_def)
    then have "\<not> path_exists (step_name n) (disk s)"
      using newer_absent by blast
    then have "s' = s\<lparr>disk := disk s, thread := Some (p, Renaming)\<rparr>"
      using 2 assms(3) n(1) by (simp add: thread_step_def rename_phase_def step_name_def)
    with n assms(1) show ?thesis by (auto simp: saving_def thread_ok_def)
  next
    case 3
    then obtain n where n: "p = tmp_name n" "newer n (disk s)" "has_info p (disk s)"
      using ok assms(2) by (auto simp: thread_ok_def)
    show ?thesis
    proof (cases "os_rename p (step_name n) (disk s)")
      case (Inl e)
      with 3 n(1) assms(1,3) show ?thesis
        by (auto simp: thread_step_def rename_phase_def step_name_def thread_fails_def saving_def thread_ok_def)
    next
      case (Inr d')
      with 3 n(1) assms(3) have "s' = s\<lparr>disk := d', thread := Some (p, Submitting)\<rparr>"
        by (simp add: thread_step_def rename_phase_def step_name_def)
      with install_keeps[OF n(2)] n Inr assms(1) show ?thesis
        using tasks_kept by (auto simp: saving_def thread_ok_def)
    qed
  qed
qed

lemma delete_scan_ok: "delete_scan cfg q d = Some q' \<Longrightarrow> tasks_ok q d \<Longrightarrow> tasks_ok q' d"
  by (induction cfg q d rule: delete_scan.induct)
    (auto simp: tasks_ok_def dest: targets_doomed split: sum.splits)

lemma delete_file_ok:
  assumes "delete_file f q d = Some (q', d')" and "tasks_ok q d"
  shows "\<exists>p. doomed d p \<and> d' = AList.map_entry p (remove_file f) d \<and> q' = q"
  using assms by (induction f q d rule: delete_file.induct) (auto simp: tasks_ok_def split: if_splits)

lemma delete_next_ok:
  assumes "delete_next q d = Some (q', d')" and "tasks_ok q d"
  shows "tasks_ok q' d \<and> (d' = d \<or> (\<exists>p. doomed d p \<and> d' = AList.delete p d))"
  using assms
proof (induction q d rule: delete_next.induct)
  case (2 p ps q d)
  have "doomed d p" using 2(2) by (auto simp: tasks_ok_def)
  moreover have "tasks_ok q d" "tasks_ok (Removing ps # q) d"
    using 2(2) by (auto simp: tasks_ok_def)
  ultimately show ?case using 2(1) by (auto split: option.splits if_splits)
qed (auto simp: tasks_ok_def)

lemma finalize_pending_fields [simp]:
  "disk (snd (finalize_pending s)) = disk s" "thread (snd (finalize_pending s)) = None"
  "deletes (snd (finalize_pending s)) = deletes s"
  by (auto simp: finalize_pending_def Let_def split: option.splits)

lemma saving_calls:
  assumes "saving s"
  shows "saving (snd (finalize_pending s))" "saving (snd (shutdown s))"
    "saves_in_order s (Begin p) \<Longrightarrow> saving (snd (begin_finalization p s))"
  using assms
  by (auto simp: saving_def thread_ok_def shutdown_def begin_finalization_def finalize_pending_def Let_def
      tasks_ok_def saves_in_order_def saves_new_iff split: option.splits)

lemma calls_disk [simp]:
  "disk (snd (shutdown s)) = disk s" "disk (snd (begin_finalization p s)) = disk s"
  by (auto simp: shutdown_def begin_finalization_def finalize_pending_def Let_def split: option.splits)

lemma saving_step:
  assumes "saving s" and "saves_in_order s ev" and "manager_step cfg ev s = Some (r, s')"
  shows "saving s' \<and> resume_kept (disk s) (disk s')"
proof (cases ev)
  case (Init n i y)
  with assms(3) have s': "s' = s\<lparr>disk := fst (init_tmp_checkpoint n i y (disk s))\<rparr>" by simp
  show ?thesis
    by (rule saving_disk[OF assms(1) refl]) (simp_all add: s' init_tmp_keeps[OF refl])
next
  case (Store p f x)
  with assms(2,3) have s': "s' = s\<lparr>disk := AList.map_entry p (add_file f x) (disk s)\<rparr>"
    and p: "\<not> is_step_name p" by (auto simp: saves_in_order_def split: if_splits)
  have "has_info q (AList.map_entry p (add_file f x) (disk s)) = has_info q (disk s)" for q
    by (auto simp: has_info_iff dir_of_map_entry add_file_def)
  with p show ?thesis
    by (intro saving_disk[OF assms(1) refl]) (auto simp: s' dir_of_map_entry)
next
  case (Remove_file f)
  then obtain q d' where q: "delete_file f (deletes s) (disk s) = Some (q, d')"
    and s': "s' = s\<lparr>deletes := q, disk := d'\<rparr>" using assms(3) by auto
  have t: "tasks_ok (deletes s) (disk s)" using assms(1) by (simp add: saving_def)
  obtain p where p: "doomed (disk s) p" "d' = AList.map_entry p (remove_file f) (disk s)" "q = deletes s"
    using delete_file_ok[OF q t] by blast
  have same: "map_of d' l = map_of (disk s) l" if "get_latest_checkpoint_path (disk s) = Some l" for l
    using that p(1) by (auto simp: p(2) dir_of_map_entry doomed_def)
  have "step_dirs d' = step_dirs (disk s)" by (simp add: p(2))
  note resume_same_dirs[OF this same]
  then show ?thesis
    using assms(1) t p by (intro saving_delete[OF assms(1) refl])
      (auto simp: s' dir_of_map_entry saving_def doomed_def)
next
  case Remove_next
  then obtain q d' where q: "delete_next (deletes s) (disk s) = Some (q, d')"
    and s': "s' = s\<lparr>deletes := q, disk := d'\<rparr>" using assms(3) by auto
  have t: "tasks_ok (deletes s) (disk s)" "resumable (disk s)" using assms(1) by (simp_all add: saving_def)
  from delete_next_ok[OF q t(1)] have q': "tasks_ok q (disk s)" by blast
  from delete_next_ok[OF q t(1)] consider "d' = disk s"
    | p where "doomed (disk s) p" "d' = AList.delete p (disk s)" by blast
  then show ?thesis
  proof cases
    case 1
    with q' t show ?thesis by (intro saving_delete[OF assms(1) refl]) (auto simp: s')
  next
    case 2
    with q' t delete_doomed_keeps[OF 2(1)] show ?thesis
      by (intro saving_delete[OF assms(1) refl]) (auto simp: s' step_dirs_delete dir_of_delete doomed_def)
  qed
next
  case Scan
  with assms(3) obtain q where q: "delete_scan cfg (deletes s) (disk s) = Some q"
    and s': "s' = s\<lparr>deletes := q\<rparr>" by auto
  have "tasks_ok q (disk s)" using delete_scan_ok[OF q] assms(1) by (simp add: saving_def)
  with assms(1) show ?thesis by (auto simp: s' saving_def thread_ok_def split: option.splits)
next
  case Thread
  with assms saving_thread show ?thesis by (auto split: option.splits)
next
  case Wait_returns
  with assms show ?thesis
    by (auto simp: saving_def thread_ok_def split: option.splits prod.splits save_phase.splits)
next
  case (Wait_raises e)
  with assms show ?thesis
    by (auto simp: saving_def thread_ok_def thread_fails_def split: option.splits prod.splits save_phase.splits)
next
  case (Begin p)
  with assms(3) have "s' = snd (begin_finalization p s)" by (auto split: if_splits)
  with saving_calls(3)[OF assms(1)] assms(2) Begin show ?thesis by simp
next
  case Join
  with assms(3) have "s' = snd (finalize_pending s)" by (auto split: if_splits)
  with saving_calls(1)[OF assms(1)] show ?thesis by simp
next
  case Shutdown
  with assms(3) have "s' = snd (shutdown s)" by (auto split: if_splits)
  with saving_calls(2)[OF assms(1)] show ?thesis by simp
qed

lemma saving_run:
  "manager_run cfg saves_in_order s tr s' \<Longrightarrow> saving s \<Longrightarrow> saving s' \<and> resume_kept (disk s) (disk s')"
  by (induction rule: manager_run.induct) (auto dest: saving_step intro: resume_kept_trans)


lemma has_info_loads: "has_info p d \<Longrightarrow> \<exists>i. load_training_info (Some p) d = Inr (Some i)"
  by (auto simp: has_info_iff load_training_info_def)

lemma saving_new: "resumable d \<Longrightarrow> saving (new_ckpt_manager d)"
  by (simp add: saving_def new_ckpt_manager_def thread_ok_def tasks_ok_def)

text \<open>
  C22: however the training loop, the finalization thread and the deletion worker interleave, and
  wherever the run is cut off, the checkpoint to resume from is there: once \<open>get_latest_checkpoint_path\<close>
  has returned a checkpoint, it returns from then on that checkpoint, with its files untouched, or one of
  a later step; and its training info can be loaded.
\<close>

theorem resume_point_survives:
  assumes "manager_run cfg saves_in_order (new_ckpt_manager d) tr s" and "resumable d"
    and "manager_run cfg saves_in_order s tr' s'" and "get_latest_checkpoint_path (disk s) = Some p"
  shows "\<exists>p'. get_latest_checkpoint_path (disk s') = Some p' \<and>
    (p' = p \<and> map_of (disk s') p = map_of (disk s) p \<or> step_of p < step_of p') \<and>
    (\<exists>i. load_training_info (Some p') (disk s') = Inr (Some i))"
proof -
  have "saving s" using saving_run[OF assms(1)] saving_new[OF assms(2)] by blast
  then have "saving s'" "resume_kept (disk s) (disk s')" using saving_run[OF assms(3)] by blast+
  with assms(4) show ?thesis
    unfolding resume_kept_def saving_def resumable_def by (metis has_info_loads)
qed

lemma manager_run_append:
  "manager_run cfg client s1 tr' s2 \<Longrightarrow> manager_run cfg client s tr s1 \<Longrightarrow>
     manager_run cfg client s (tr @ tr') s2"
  by (induction rule: manager_run.induct) (auto simp flip: append_assoc intro: run_step)

lemma manager_run_one:
  "client s ev \<Longrightarrow> manager_step cfg ev s = Some (r, s') \<Longrightarrow> manager_run cfg client s [(ev, r)] s'"
  using run_step[OF run_nil] by fastforce

text \<open>An executable run, to reach the states of the witnesses\<close>

fun manager_exec :: "ckpt_config \<Rightarrow> 'f event list \<Rightarrow> 'f ckpt_manager \<Rightarrow> (('f event \<times> unit res) list \<times> 'f ckpt_manager) option" where
  "manager_exec cfg [] s = Some ([], s)"
| "manager_exec cfg (ev # evs) s = (case manager_step cfg ev s of
      None \<Rightarrow> None
    | Some (r, s1) \<Rightarrow> map_option (\<lambda>(tr, s2). ((ev, r) # tr, s2)) (manager_exec cfg evs s1))"

fun client_exec :: "('f ckpt_manager \<Rightarrow> 'f event \<Rightarrow> bool) \<Rightarrow> ckpt_config \<Rightarrow> 'f event list \<Rightarrow> 'f ckpt_manager \<Rightarrow> bool" where
  "client_exec client cfg [] s = True"
| "client_exec client cfg (ev # evs) s = (client s ev \<and> (case manager_step cfg ev s of
      None \<Rightarrow> False
    | Some (r, s1) \<Rightarrow> client_exec client cfg evs s1))"

lemma manager_exec_run:
  "manager_exec cfg evs s = Some (tr, s') \<Longrightarrow> client_exec client cfg evs s \<Longrightarrow> manager_run cfg client s tr s'"
proof (induction evs arbitrary: s tr)
  case Nil
  then show ?case by (auto intro: run_nil)
next
  case (Cons ev evs)
  then obtain r s1 tr1 where step: "manager_step cfg ev s = Some (r, s1)" "client s ev"
    and rest: "manager_exec cfg evs s1 = Some (tr1, s')" "client_exec client cfg evs s1" "tr = (ev, r) # tr1"
    by (auto split: option.splits)
  have "manager_run cfg client s ([(ev, r)] @ tr1) s'"
    using Cons.IH[OF rest(1,2)] manager_run_one[of client, OF step(2,1)] by (rule manager_run_append)
  with rest(3) show ?case by simp
qed

definition demo_save :: "nat event list" where
  "demo_save = [Init 40 [(''val:acc'', Val (2/5))] None, Store (tmp_name 40) ''policy'' 7, Begin (tmp_name 40),
     Wait_returns, Thread, Thread, Thread]"

definition demo_prune :: "nat event list" where
  "demo_prune = [Join, Init 50 [] None, Scan, Remove_file ''training_info.json'', Remove_next, Begin (tmp_name 50),
     Remove_file ''training_info.json'', Wait_returns, Thread]"

definition demo_saved :: "nat ckpt_manager" where
  "demo_saved = snd (the (manager_exec demo_config demo_save (new_ckpt_manager demo_fs)))"

definition demo_pruned :: "nat ckpt_manager" where
  "demo_pruned = snd (the (manager_exec demo_config demo_prune demo_saved))"

lemma manager_exec_the:
  "manager_exec cfg evs s \<noteq> None \<Longrightarrow> client_exec client cfg evs s \<Longrightarrow>
     manager_run cfg client s (fst (the (manager_exec cfg evs s))) (snd (the (manager_exec cfg evs s)))"
  using manager_exec_run by (cases "manager_exec cfg evs s") auto

lemma resumable_demo: "resumable demo_fs"
proof -
  have "get_latest_checkpoint_path demo_fs = Some (step_name 35)" by code_simp
  moreover have "(case map_of demo_fs (step_name 35) of None \<Rightarrow> False | Some c \<Rightarrow> info_file c \<noteq> None)"
    by code_simp
  ultimately show ?thesis by (simp add: resumable_def has_info_iff split: option.splits)
qed

theorem resume_point_survives_witness:
  "(\<exists>p'. get_latest_checkpoint_path (disk demo_pruned) = Some p' \<and>
    (p' = step_name 40 \<and> map_of (disk demo_pruned) p' = map_of (disk demo_saved) (step_name 40)
      \<or> step_of (step_name 40) < step_of p') \<and>
    (\<exists>i. load_training_info (Some p') (disk demo_pruned) = Inr (Some i))) \<and>
   names (disk demo_pruned) = [step_name 20, step_name 25, step_name 30, step_name 35, step_name 40, tmp_name 50]"
proof -
  have a: "manager_run demo_config saves_in_order (new_ckpt_manager demo_fs)
      (fst (the (manager_exec demo_config demo_save (new_ckpt_manager demo_fs)))) demo_saved"
    unfolding demo_saved_def by (rule manager_exec_the) code_simp+
  have b: "manager_run demo_config saves_in_order demo_saved
      (fst (the (manager_exec demo_config demo_prune demo_saved))) demo_pruned"
    unfolding demo_pruned_def by (rule manager_exec_the) code_simp+
  have "get_latest_checkpoint_path (disk demo_saved) = Some (step_name 40)" by code_simp
  note resume_point_survives[OF a resumable_demo b this]
  moreover have "names (disk demo_pruned) =
      [step_name 20, step_name 25, step_name 30, step_name 35, step_name 40, tmp_name 50]" by code_simp
  ultimately show ?thesis by blast
qed








text \<open>
  a crash inside the swap of an existing \<open>step_n\<close>, after it was moved aside, leaves no \<open>step_n\<close> and a
  leftover \<open>old_step_n\<close>, which nothing removes: saving \<open>n\<close> again succeeds once, and every later save of
  \<open>n\<close> raises an \<open>OSError\<close>.
\<close>

definition old_name :: "nat \<Rightarrow> string" where
  "old_name n = ''old_step_'' @ decimal n"

lemma name_neq [simp]:
  "old_name n \<noteq> step_name m" "old_name n \<noteq> tmp_name m" "step_name m \<noteq> old_name n" "tmp_name m \<noteq> old_name n"
  "tmp_name m \<noteq> step_name n"
  by (simp_all add: old_name_def step_name_def tmp_name_def)

lemma dir_of_init_tmp:
  "map_of (fst (init_tmp_checkpoint n i y d)) p =
     (if p = tmp_name n
      then Some \<lparr>info_file = Some i, data_files = (case y of None \<Rightarrow> [] | Some c \<Rightarrow> [(''config.yaml'', c)])\<rparr>
      else map_of d p)"
  by (simp add: init_tmp_checkpoint_def Let_def dir_of_update dir_of_delete)

lemma rename_checkpoint_tmp:
  "rename_checkpoint (tmp_name n) d =
     (if path_exists (step_name n) d then
        (case os_rename (step_name n) (old_name n) d of
           Inl e \<Rightarrow> (Inl e, d)
         | Inr d1 \<Rightarrow> (case os_rename (tmp_name n) (step_name n) d1 of
             Inl e \<Rightarrow> (Inl e, d1)
           | Inr d2 \<Rightarrow>
              if path_exists (old_name n) d2 then
                (case rmtree (old_name n) d2 of Inl e \<Rightarrow> (Inl e, d2) | Inr d3 \<Rightarrow> (Inr (), d3))
              else (Inr (), d2)))
      else (case os_rename (tmp_name n) (step_name n) d of Inl e \<Rightarrow> (Inl e, d) | Inr d1 \<Rightarrow> (Inr (), d1)))"
  by (simp only: rename_checkpoint_def Let_def step_part_tmp sum.case step_name_def old_name_def)

lemma rename_first_phases:
  "path_exists (step_name n) d \<Longrightarrow> os_rename (step_name n) (old_name n) d = Inr d' \<Longrightarrow>
     rename_phases 2 (tmp_name n) Testing d = (Inr (), d')"
  by (simp add: eval_nat_numeral rename_phase_def Let_def step_name_def old_name_def)

lemma rename_fresh:
  assumes "map_of d (tmp_name n) = Some c" and "map_of d (step_name n) = None"
  shows "rename_checkpoint (tmp_name n) d =
    (Inr (), AList.update (step_name n) c (AList.delete (tmp_name n) d))"
  using assms path_exists_map_of[of "step_name n" d]
  by (simp add: rename_checkpoint_tmp os_rename_def)

lemma rename_blocked:
  assumes "map_of d (step_name n) = Some c" and "map_of d (old_name n) = Some o'" "\<not> empty_dir o'"
  shows "rename_checkpoint (tmp_name n) d = (Inl OSError, d)"
  using assms path_exists_map_of[of "step_name n" d]
  by (simp add: rename_checkpoint_tmp os_rename_def)

theorem interrupted_swap_blocks:
  assumes "map_of d (tmp_name n) = Some t" and "map_of d (step_name n) = Some c" and "\<not> empty_dir c"
    and "map_of d (old_name n) = None"
    and "rename_phases 2 (tmp_name n) Testing d = (Inr (), d1)"
    and "rename_checkpoint (tmp_name n) (fst (init_tmp_checkpoint n i y d1)) = (r, d2)"
  shows "\<not> path_exists (step_name n) d1 \<and> r = Inr () \<and>
    rename_checkpoint (tmp_name n) (fst (init_tmp_checkpoint n i' y' d2)) =
      (Inl OSError, fst (init_tmp_checkpoint n i' y' d2))"
proof -
  have e: "path_exists (step_name n) d" using assms(2) path_exists_map_of by blast
  have d1: "d1 = AList.update (old_name n) c (AList.delete (step_name n) d)"
    using assms(2,4,5) rename_first_phases[OF e] by (simp add: os_rename_def)
  have n1: "map_of d1 (step_name n) = None" "map_of d1 (old_name n) = Some c"
    by (simp_all add: d1 dir_of_update dir_of_delete)
  have "r = Inr ()" and d2: "\<exists>c'. d2 = AList.update (step_name n) c'
      (AList.delete (tmp_name n) (fst (init_tmp_checkpoint n i y d1)))"
    using assms(6) rename_fresh[of "fst (init_tmp_checkpoint n i y d1)" n] n1 by (auto simp: dir_of_init_tmp)
  moreover from d2 have "map_of d2 (old_name n) = Some c" "\<exists>c'. map_of d2 (step_name n) = Some c'"
    by (auto simp: n1 dir_of_update dir_of_delete dir_of_init_tmp)
  ultimately show ?thesis
    using rename_blocked[of "fst (init_tmp_checkpoint n i' y' d2)" n] assms(3) n1(1) path_exists_map_of[of "step_name n" d1]
    by (auto simp: dir_of_init_tmp)
qed


definition demo_swap :: "nat fs" where
  "demo_swap = fst (init_tmp_checkpoint 30 [] None demo_fs)"

theorem interrupted_swap_blocks_witness:
  "names (snd (rename_phases 2 (tmp_name 30) Testing demo_swap)) =
     [step_name 10, step_name 20, step_name 25, step_name 35, tmp_name 30, old_name 30] \<and>
   fst (rename_checkpoint (tmp_name 30) (fst (init_tmp_checkpoint 30 [] None
     (snd (rename_phases 2 (tmp_name 30) Testing demo_swap))))) = Inr ()"
proof -
  let ?d1 = "snd (rename_phases 2 (tmp_name 30) Testing demo_swap)"
  have tmp: "map_of demo_swap (tmp_name 30) = Some \<lparr>info_file = Some [], data_files = []\<rparr>" by code_simp
  have old: "map_of demo_swap (step_name 30) =
      Some \<lparr>info_file = Some [(''val:acc'', Val (2/3))], data_files = []\<rparr>" by code_simp
  have ne: "\<not> empty_dir \<lparr>info_file = Some [(''val:acc'', Val (2/3))], data_files = [] :: (string \<times> nat) list\<rparr>"
    by code_simp
  have none: "map_of demo_swap (old_name 30) = None" by code_simp
  have ph: "rename_phases 2 (tmp_name 30) Testing demo_swap = (Inr (), ?d1)" by code_simp
  have "rename_checkpoint (tmp_name 30) (fst (init_tmp_checkpoint 30 [] None ?d1)) =
      (fst (rename_checkpoint (tmp_name 30) (fst (init_tmp_checkpoint 30 [] None ?d1))),
       snd (rename_checkpoint (tmp_name 30) (fst (init_tmp_checkpoint 30 [] None ?d1))))" by simp
  note interrupted_swap_blocks[OF tmp old ne none ph this]
  moreover have "names ?d1 = [step_name 10, step_name 20, step_name 25, step_name 35, tmp_name 30, old_name 30]"
    by code_simp
  ultimately show ?thesis by blast
qed

end
