(* ===== verification/TokenText.thy ===== *)
theory TokenText
  imports Prelude
begin

text \<open>
  The text of tokens, for the alignment of two tokenizations of the same source
  (\<open>algorithms/x_token/token_aligner.py\<close>): the canonical form of one token, and of a sequence of tokens,
  where the pieces of broken or byte-wise characters are merged and every canonical token keeps the range
  of original tokens it was built from.

  A string is the list of its code points.
\<close>

type_synonym ustring = "int list"

section \<open>Strings of code points\<close>

definition starts_with :: "ustring \<Rightarrow> ustring \<Rightarrow> bool" where
  "starts_with p s \<longleftrightarrow> take (length p) s = p"

definition ends_with :: "ustring \<Rightarrow> ustring \<Rightarrow> bool" where
  "ends_with p s \<longleftrightarrow> length p \<le> length s \<and> drop (length s - length p) s = p"

text \<open>\<open>p in s\<close>\<close>

fun occurs_in :: "ustring \<Rightarrow> ustring \<Rightarrow> bool" where
  "occurs_in p [] = (p = [])"
| "occurs_in p (c # s) = (starts_with p (c # s) \<or> occurs_in p s)"

text \<open>\<open>s.replace(old, new)\<close> for an \<open>old\<close> that is not empty: \<open>k\<close> characters of a match are still to be skipped\<close>

fun replace_from :: "nat \<Rightarrow> ustring \<Rightarrow> ustring \<Rightarrow> ustring \<Rightarrow> ustring" where
  "replace_from k old new [] = []"
| "replace_from (Suc k) old new (c # s) = replace_from k old new s"
| "replace_from 0 old new (c # s) =
     (if starts_with old (c # s) then new @ replace_from (length old - 1) old new s
      else c # replace_from 0 old new s)"

abbreviation replace_in :: "ustring \<Rightarrow> ustring \<Rightarrow> ustring \<Rightarrow> ustring" where
  "replace_in old new s \<equiv> replace_from 0 old new s"

text \<open>
  \<open>int(s, 16)\<close> of a string of two characters: two digits, or a digit beside a blank or after a sign
  (ASCII digits; \<open>None\<close> stands for \<open>ValueError\<close>).
\<close>

definition hex_digit :: "int \<Rightarrow> int option" where
  "hex_digit c =
     (if 48 \<le> c \<and> c \<le> 57 then Some (c - 48)
      else if 97 \<le> c \<and> c \<le> 102 then Some (c - 87)
      else if 65 \<le> c \<and> c \<le> 70 then Some (c - 55)
      else None)"

definition is_blank :: "int \<Rightarrow> bool" where
  "is_blank c \<longleftrightarrow> c \<in> set [9, 10, 11, 12, 13, 28, 29, 30, 31, 32, 133, 160]"

fun hex_value :: "ustring \<Rightarrow> int option" where
  "hex_value [a, b] = (case (hex_digit a, hex_digit b) of
      (Some x, Some y) \<Rightarrow> Some (16 * x + y)
    | (None, Some y) \<Rightarrow>
        if is_blank a \<or> a = 43 then Some y else if a = 45 then Some (- y) else None
    | (Some x, None) \<Rightarrow> if is_blank b then Some x else None
    | (None, None) \<Rightarrow> None)"
| "hex_value _ = None"

section \<open>The tables\<close>

text \<open>The tables of the module, with their entries in the order of the source\<close>

definition visual_byte_map :: "(int \<times> int) list" where
  "visual_byte_map = [
     (240, 240), (406, 241), (407, 242), (408, 243), (409, 244), (410, 245), (411, 246),
     (412, 247), (413, 248), (414, 249), (415, 250), (416, 251), (417, 252), (418, 253),
     (419, 254), (420, 255), (321, 156), (322, 157), (323, 158), (324, 159), (314, 149),
     (315, 150), (316, 151), (317, 152), (318, 153), (319, 154), (320, 155), (300, 135),
     (301, 136), (302, 137), (303, 138), (304, 139), (305, 140), (306, 141), (307, 142),
     (308, 143), (309, 144), (310, 145), (311, 146), (312, 147), (313, 148), (293, 128),
     (294, 129), (295, 130), (296, 131), (297, 132), (298, 133), (299, 134), (290, 162),
     (291, 163), (284, 28), (285, 29), (286, 30), (287, 31)]"

definition multi_token_artifact_fixes :: "(ustring list \<times> ustring list) list" where
  "multi_token_artifact_fixes = [
     ([[288, 226, 298], [307]], [[288, 8721]]), ([[226, 298], [307]], [[8721]]),
     ([[288, 226, 298], [305]], [[288, 8719]]), ([[226, 298], [305]], [[8719]]),
     ([[288, 226, 298], [292]], [[288, 8706]]), ([[226, 298], [292]], [[8706]]),
     ([[288, 226, 298], [297]], [[288, 8711]]), ([[226, 298], [297]], [[8711]]),
     ([[288, 226, 298], [320]], [[288, 8734]]), ([[226, 298], [320]], [[8734]]),
     ([[288, 226, 298], [316]], [[288, 8730]]), ([[226, 298], [316]], [[8730]]),
     ([[288, 226, 298], [171]], [[288, 8747]]), ([[226, 298], [171]], [[8747]]),
     ([[288, 226, 299], [322]], [[288, 8800]]), ([[226, 299], [322]], [[8800]]),
     ([[288, 228, 184], [323]], [[288, 20013]]), ([[228, 184], [323]], [[20013]]),
     ([[230, 312], [297]], [[25991]]), ([[288, 230, 312], [297]], [[288, 25991]])]"

definition unicode_fixes :: "(ustring \<times> ustring) list" where
  "unicode_fixes = [
     ([195, 177], [241]), ([195, 161], [225]), ([195, 169], [233]), ([195, 173], [237]),
     ([195, 179], [243]), ([195, 186], [250]), ([195], [192]), ([195, 162], [226]),
     ([195, 167], [231]), ([195, 168], [232]), ([195, 171], [235]), ([195, 174], [238]),
     ([195, 180], [244]), ([195, 185], [249]), ([195, 187], [251]), ([195, 191], [255]),
     ([228, 184, 323], [20013]), ([230, 312, 297], [25991]),
     ([230, 313, 165, 230, 318, 172], [26085, 26412]), ([232, 170, 320], [35486]),
     ([208, 322, 209, 293, 209, 291], [1056, 1091, 1089]),
     ([209, 291, 208, 186, 208, 184, 208, 185], [1089, 1082, 1080, 1081]),
     ([216, 167, 217, 294, 216, 185, 216, 177, 216, 168, 217, 300, 216, 169], [1575, 1604, 1593, 1585, 1576, 1610, 1577]),
     ([224, 164, 185], [2361]), ([224, 164, 191, 224, 164, 292], [2361, 2367, 2306]),
     ([224, 164, 166, 224, 165, 290], [2342, 2368]), ([226, 298, 307], [8721]),
     ([226, 298, 305], [8719]), ([226, 298, 292], [8706]), ([226, 298, 297], [8711]),
     ([226, 298, 320], [8734]), ([226, 298, 316], [8730]), ([226, 298, 171], [8747]),
     ([226, 299, 298], [8776]), ([226, 299, 322], [8800]), ([226, 299, 164], [8804]),
     ([226, 299, 165], [8805])]"

definition special_token_map :: "(ustring \<times> ustring) list" where
  "special_token_map = [

     ([60, 124, 98, 101, 103, 105, 110, 95, 111, 102, 95, 116, 101, 120, 116, 124, 62], [60, 98, 111, 115, 62]),
     ([60, 98, 111, 115, 62], [60, 98, 111, 115, 62]), ([60, 112, 97, 100, 62], [])]"

section \<open>One token\<close>

text \<open>The parts of \<open>canonical_token\<close>; 288 is the space mark of byte-level tokenizers.\<close>

definition normal_space :: "ustring \<Rightarrow> ustring" where
  "normal_space t =
     (if starts_with [32] t \<or> starts_with [95] t \<or> starts_with [9601] t
      then 288 # drop 1 t else t)"

definition normal_newline :: "ustring \<Rightarrow> ustring" where
  "normal_newline t =
     (if t = [266] then [10]
      else if t = [92, 110] then [10]
      else if t = [265] then [10]
      else if t = [288, 10] then [10]
      else if occurs_in [266] t then replace_in [266] [10] t
      else if occurs_in [92, 110] t then replace_in [92, 110] [10] t
      else t)"

definition normal_punctuation :: "ustring \<Rightarrow> ustring" where
  "normal_punctuation t =
     (if t = [288, 44] then [44]
      else if t = [288, 46] then [46]
      else if t = [288, 59] then [59]
      else if t = [288, 58] then [58]
      else t)"

text \<open>The byte of a token like \<open><0x20>\<close>\<close>

definition byte_fallback :: "ustring \<Rightarrow> int option" where
  "byte_fallback t =
     (if starts_with [60, 48, 120] t \<and> ends_with [62] t \<and> length t = 6 then
        (case hex_value (Prelude.slice 3 5 t) of
           None \<Rightarrow> None
         | Some b \<Rightarrow> if 0 \<le> b \<and> b \<le> 255 then Some b else None)
      else None)"

definition apply_fixes :: "(ustring \<times> ustring) list \<Rightarrow> ustring \<Rightarrow> ustring" where
  "apply_fixes fixes t = foldl (\<lambda>t (broken, fixed).
     if occurs_in broken t then replace_in broken fixed t else t) t fixes"

definition canonical_token :: "bool \<Rightarrow> ustring \<Rightarrow> ustring" where
  "canonical_token enabled token =
     (if \<not> enabled then token
      else if token = [] then token
      else let t = normal_punctuation (normal_newline (normal_space token)) in
        (case byte_fallback t of
           Some b \<Rightarrow> [b]
         | None \<Rightarrow> let t = apply_fixes unicode_fixes t in
            (case map_of special_token_map t of Some s \<Rightarrow> s | None \<Rightarrow> t)))"

definition strings_equal_flexible :: "ustring \<Rightarrow> ustring \<Rightarrow> bool \<Rightarrow> bool" where
  "strings_equal_flexible s1 s2 ignore_leading_char_diff =
     (if \<not> ignore_leading_char_diff then s1 = s2 else canonical_token True s1 = canonical_token True s2)"

section \<open>A sequence of tokens\<close>

text \<open>A half-open range of positions on the original axis\<close>

type_synonym range = "nat \<times> nat"

text \<open>\<open>_merge_encoding_artifacts\<close>: the loop at position \<open>i\<close>\<close>

definition artifact_at :: "ustring list \<Rightarrow> (ustring list \<times> ustring list) option" where
  "artifact_at ts = find (\<lambda>(pattern, _). take (length pattern) ts = pattern) multi_token_artifact_fixes"

lemma artifact_pattern: "artifact_at ts = Some (pattern, replacement) \<Longrightarrow>
    length pattern = 2 \<and> length replacement = 1 \<and> take 2 ts = pattern"
proof -
  assume a: "artifact_at ts = Some (pattern, replacement)"
  have "(pattern, replacement) \<in> set multi_token_artifact_fixes" "take (length pattern) ts = pattern"
    using a unfolding artifact_at_def find_Some_iff by (auto simp: nth_mem) (metis nth_mem)
  moreover have "\<forall>(p, r)\<in>set multi_token_artifact_fixes. length p = 2 \<and> length r = 1"
    by (simp add: multi_token_artifact_fixes_def)
  ultimately show ?thesis by fastforce
qed

function merge_artifacts_from :: "nat \<Rightarrow> ustring list \<Rightarrow> ustring list \<times> range list" where
  "merge_artifacts_from i [] = ([], [])"
| "merge_artifacts_from i (t # ts) = (case artifact_at (t # ts) of
      Some (pattern, replacement) \<Rightarrow>
        (case merge_artifacts_from (i + length pattern) (drop (length pattern) (t # ts)) of
           (merged, ranges) \<Rightarrow> (replacement @ merged, (i, i + length pattern) # ranges))
    | None \<Rightarrow>
        (case merge_artifacts_from (i + 1) ts of (merged, ranges) \<Rightarrow> (t # merged, (i, i + 1) # ranges)))"
  by pat_completeness auto
termination
  by (relation "measure (\<lambda>(_, ts). length ts)") (auto dest: artifact_pattern)

definition merge_encoding_artifacts :: "ustring list \<Rightarrow> ustring list \<times> range list" where
  "merge_encoding_artifacts tokens = merge_artifacts_from 0 tokens"

definition get_byte_value :: "ustring \<Rightarrow> int option" where
  "get_byte_value s = (case s of
      [c] \<Rightarrow> if c < 256 then Some c else map_of visual_byte_map c
    | _ \<Rightarrow> None)"

text \<open>\<open>token.lstrip(mark)\<close>\<close>

definition lstrip_space :: "ustring \<Rightarrow> ustring" where
  "lstrip_space t = dropWhile (\<lambda>c. c = 288) t"

text \<open>
  \<open>bytes(...).decode("utf-8")\<close> when it gives a single character above 127: one well-formed sequence of
  two to four bytes; \<open>None\<close> when it raises or gives anything else.
\<close>

definition trailing_byte :: "int \<Rightarrow> bool" where
  "trailing_byte b \<longleftrightarrow> 128 \<le> b \<and> b < 192"

fun utf8_char :: "int list \<Rightarrow> int option" where
  "utf8_char [a, b] =
     (if 194 \<le> a \<and> a < 224 \<and> trailing_byte b then Some ((a - 192) * 64 + (b - 128)) else None)"
| "utf8_char [a, b, c] =
     (let u = (a - 224) * 4096 + (b - 128) * 64 + (c - 128) in
      if 224 \<le> a \<and> a < 240 \<and> trailing_byte b \<and> trailing_byte c \<and> 2048 \<le> u \<and> \<not> (55296 \<le> u \<and> u < 57344)
      then Some u else None)"
| "utf8_char [a, b, c, d] =
     (let u = (a - 240) * 262144 + (b - 128) * 4096 + (c - 128) * 64 + (d - 128) in
      if 240 \<le> a \<and> a < 245 \<and> trailing_byte b \<and> trailing_byte c \<and> trailing_byte d \<and> 65536 \<le> u \<and> u < 1114112
      then Some u else None)"
| "utf8_char _ = None"

fun bytes_of_chars :: "ustring \<Rightarrow> int list option" where
  "bytes_of_chars [] = Some []"
| "bytes_of_chars (c # s) = (case get_byte_value [c] of
      None \<Rightarrow> None
    | Some v \<Rightarrow> map_option (Cons v) (bytes_of_chars s))"

definition try_merge_byte_buffer :: "ustring list \<Rightarrow> range list \<Rightarrow> ustring list \<times> range list" where
  "try_merge_byte_buffer toks ranges =
     (if toks = [] then ([], [])
      else if length toks = 1 \<and> length (lstrip_space (toks ! 0)) \<le> 1 then (toks, ranges)
      else
        let space_prefix = (if starts_with [288] (toks ! 0) then [288] else []) in
        (case bytes_of_chars (concat (map lstrip_space toks)) of
           None \<Rightarrow> (toks, ranges)
         | Some raw \<Rightarrow>
             if length raw < 2 \<or> 4 < length raw then (toks, ranges)
             else (case utf8_char raw of
                 None \<Rightarrow> (toks, ranges)
               | Some u \<Rightarrow> ([space_prefix @ [u]], [(fst (ranges ! 0), snd (List.last ranges))]))))"

definition all_bytes :: "ustring \<Rightarrow> bool" where
  "all_bytes t = (let clean = lstrip_space t in
     if clean = [] then False else list_all (\<lambda>c. get_byte_value [c] \<noteq> None) clean)"

text \<open>The loop of \<open>_merge_consecutive_bytes\<close> with its buffer\<close>

fun merge_bytes_loop ::
    "(ustring \<times> range) list \<Rightarrow> ustring list \<Rightarrow> range list \<Rightarrow> ustring list \<times> range list" where
  "merge_bytes_loop [] buffer buffer_ranges = try_merge_byte_buffer buffer buffer_ranges"
| "merge_bytes_loop ((t, r) # rest) buffer buffer_ranges =
     (if all_bytes t then merge_bytes_loop rest (buffer @ [t]) (buffer_ranges @ [r])
      else
        let (flushed, flushed_ranges) = try_merge_byte_buffer buffer buffer_ranges;
            (merged, ranges) = merge_bytes_loop rest [] []
        in (flushed @ t # merged, flushed_ranges @ r # ranges))"

definition merge_consecutive_bytes :: "ustring list \<Rightarrow> range list \<Rightarrow> (ustring list \<times> range list) res" where
  "merge_consecutive_bytes toks ranges =
     (if toks = [] then Inr ([], [])
      else bindR (assertR (length toks = length ranges)) (\<lambda>_. Inr (merge_bytes_loop (zip toks ranges) [] [])))"

definition canonicalize_sequence :: "ustring list \<Rightarrow> (ustring list \<times> range list) res" where
  "canonicalize_sequence seq = (let (merged, ranges) = merge_encoding_artifacts seq in
     merge_consecutive_bytes (map (canonical_token True) merged) ranges)"

section \<open>The ranges of the canonical tokens\<close>

text \<open>The ranges are consecutive, none is empty, and together they are \<open>[a, b)\<close>.\<close>

fun tiles :: "nat \<Rightarrow> nat \<Rightarrow> range list \<Rightarrow> bool" where
  "tiles a b [] = (a = b)"
| "tiles a b ((x, y) # rs) = (x = a \<and> a < y \<and> tiles y b rs)"

lemma tiles_append: "tiles a b (rs @ qs) \<longleftrightarrow> (\<exists>m. tiles a m rs \<and> tiles m b qs)"
  by (induction a b rs rule: tiles.induct) auto

lemma tiles_le: "tiles a b rs \<Longrightarrow> a \<le> b \<and> (rs \<noteq> [] \<longrightarrow> a < b \<and> fst (hd rs) = a \<and> snd (List.last rs) = b)"
  by (induction a b rs rule: tiles.induct) (auto split: if_splits)

lemma merge_artifacts_tiles:
  "merge_artifacts_from i ts = (merged, ranges) \<Longrightarrow>
     length merged = length ranges \<and> tiles i (i + length ts) ranges"
proof (induction i ts arbitrary: merged ranges rule: merge_artifacts_from.induct)
  case (2 i t ts)
  show ?case
  proof (cases "artifact_at (t # ts)")
    case None
    with 2 show ?thesis by (auto split: prod.splits)
  next
    case (Some pr)
    obtain pattern replacement where pr: "pr = (pattern, replacement)" by (cases pr)
    note p = artifact_pattern[OF Some[unfolded pr]]
    obtain m r where mr: "merge_artifacts_from (i + 2) (drop 2 (t # ts)) = (m, r)" by fastforce
    have IH: "length m = length r \<and> tiles (i + 2) (i + 2 + length (drop 2 (t # ts))) r"
      using 2(2)[OF Some pr[symmetric]] p mr by simp
    have "2 \<le> length (t # ts)" using p by (metis le_refl length_take min.cobounded1)
    then have "i + 2 + length (drop 2 (t # ts)) = i + length (t # ts)" by simp
    with IH have "tiles (i + 2) (i + length (t # ts)) r" by metis
    with IH 2(3) p mr Some pr show ?thesis by auto
  qed
qed simp

lemma try_merge_tiles:
  assumes "try_merge_byte_buffer toks ranges = (merged, out)" and "length toks = length ranges" and "tiles a b ranges"
  shows "length merged = length out \<and> tiles a b out"
proof (cases "(merged, out) = (toks, ranges) \<or> toks = []")
  case True
  with assms show ?thesis by (auto simp: try_merge_byte_buffer_def)
next
  case False
  then have "ranges \<noteq> []" using assms(2) by auto
  have "length merged = 1 \<and> out = [(fst (ranges ! 0), snd (List.last ranges))]"
    using assms(1) False by (auto simp: try_merge_byte_buffer_def Let_def split: if_splits option.splits)
  then show ?thesis
    using tiles_le[OF assms(3)] \<open>ranges \<noteq> []\<close> by (auto simp: hd_conv_nth)
qed

lemma merge_bytes_tiles:
  assumes "merge_bytes_loop trs buffer buffer_ranges = (merged, out)"
    and "length buffer = length buffer_ranges" and "tiles a m buffer_ranges" and "tiles m b (map snd trs)"
  shows "length merged = length out \<and> tiles a b out"
  using assms
proof (induction trs arbitrary: buffer buffer_ranges a m merged out)
  case Nil
  then show ?case using try_merge_tiles by simp
next
  case (Cons tr trs)
  obtain t r where tr: "tr = (t, r)" by (cases tr)
  have r: "fst r = m" "m < snd r" "tiles (snd r) b (map snd trs)"
    using Cons.prems(4) by (cases r; simp add: tr)+
  have r': "tiles m (snd r) [r]" using r by (cases r) simp
  show ?case
  proof (cases "all_bytes t")
    case True
    have "tiles a (snd r) (buffer_ranges @ [r])"
      using Cons.prems(3) r' tiles_append by blast
    with Cons.IH[of "buffer @ [t]" "buffer_ranges @ [r]"] Cons.prems True r(3) show ?thesis
      by (simp add: tr)
  next
    case False
    obtain f fr where f: "try_merge_byte_buffer buffer buffer_ranges = (f, fr)" by fastforce
    obtain g gr where g: "merge_bytes_loop trs [] [] = (g, gr)" by fastforce
    have "length f = length fr \<and> tiles a m fr" using try_merge_tiles[OF f] Cons.prems by blast
    moreover have "length g = length gr \<and> tiles (snd r) b gr"
      using Cons.IH[OF g] r(3) by simp
    moreover from this have "tiles m b (r # gr)" using r by (cases r) simp
    ultimately show ?thesis
      using Cons.prems(1) False f g by (auto simp: tr tiles_append)
  qed
qed

lemma canonicalize_tiles:
  "\<exists>canon ranges. canonicalize_sequence seq = Inr (canon, ranges) \<and> length canon = length ranges \<and>
     tiles 0 (length seq) ranges"
proof -
  obtain m r where mr: "merge_artifacts_from 0 seq = (m, r)" by fastforce
  note t = merge_artifacts_tiles[OF mr]
  obtain c q where cq: "merge_bytes_loop (zip (map (canonical_token True) m) r) [] [] = (c, q)" by fastforce
  have "map snd (zip (map (canonical_token True) m) r) = r" using t by simp
  with t have "tiles 0 (length seq) (map snd (zip (map (canonical_token True) m) r))" by simp
  from merge_bytes_tiles[OF cq _ _ this] have "length c = length q \<and> tiles 0 (length seq) q" by simp
  then show ?thesis
    using t mr cq
    by (cases "m = []") (auto simp: canonicalize_sequence_def merge_encoding_artifacts_def merge_consecutive_bytes_def)
qed

text \<open>
  C38: the canonical form of a token sequence never raises, and its ranges do what their documentation
  says: one for every canonical token, consecutive, none empty, and together they are all positions of
  the original sequence.
\<close>

theorem canonical_ranges_cover:
  "\<exists>canon ranges. canonicalize_sequence seq = Inr (canon, ranges) \<and> length canon = length ranges \<and>
     tiles 0 (length seq) ranges"
  by (rule canonicalize_tiles)

text \<open>
  What the tables do to some characters.  The entry for the single character 195 (A with tilde) comes
  before the longer entries that begin with it, and rewrites the character first: those never apply.
\<close>

theorem shadowed_fixes:
  "map_of unicode_fixes [195, 162] = Some [226] \<and> canonical_token True [195, 162] = [192, 162] \<and>
   list_all (\<lambda>(broken, fixed). canonical_token True broken = 192 # drop 1 broken)
     (filter (\<lambda>(broken, fixed). starts_with [195] broken) (drop 6 unicode_fixes))"
  by code_simp

text \<open>
  The same four bytes (F0 9F 98 80, a smiling face), written as byte tokens and in the characters of
  byte-level tokenizers, become two different characters; and next to a short ASCII token the four byte
  tokens are not merged at all.
\<close>

definition smile_bytes :: "ustring list" where
  "smile_bytes = [[60, 48, 120, 70, 48, 62], [60, 48, 120, 57, 70, 62], [60, 48, 120, 57, 56, 62], [60, 48, 120, 56, 48, 62]]"

definition smile_chars :: "ustring list" where
  "smile_chars = [[240], [321], [314], [290]]"

theorem byte_merge_limits:
  "canonicalize_sequence smile_bytes = Inr ([[128512]], [(0, 4)]) \<and>
   canonicalize_sequence smile_chars = Inr ([[116066]], [(0, 4)]) \<and>
   canonicalize_sequence ([111, 107] # smile_bytes) =
     Inr ([[111, 107], [240], [159], [152], [128]], [(0, 1), (1, 2), (2, 3), (3, 4), (4, 5)])"
  by code_simp


end
