(* ===== verification/TokenAlign.thy ===== *)
theory TokenAlign
  imports TokenText Complex_Main
begin

text \<open>
  The alignment of a student's and a teacher's tokens of one text (\<open>TokenAligner\<close> in
  \<open>algorithms/x_token/token_aligner.py\<close>): the dynamic program with spans of several tokens, the anchors
  that cut it into segments, the repair of badly aligned spans, and the tensors of chunk indices that the
  distillation loss reads.

  Scores are rational numbers; those of the code are multiples of one half, on which its 32-bit floats are
  exact.  The table is a function from cells, filled in the order of the loops.  The walk back through it
  has fuel for the number of tokens on both sides, which every move spends; the cache of repaired spans,
  which only avoids repeating a computation, is left out.
\<close>

section \<open>Pairs and parameters\<close>

record alignment_pair =
  s_tokens :: "ustring list"
  t_tokens :: "ustring list"
  s_start :: int
  s_end :: int
  t_start :: int
  t_end :: int
  is_correct :: bool

definition new_pair :: "ustring list \<Rightarrow> ustring list \<Rightarrow> int \<Rightarrow> int \<Rightarrow> int \<Rightarrow> int \<Rightarrow> alignment_pair" where
  "new_pair ss ts s0 s1 t0 t1 = \<lparr>s_tokens = ss, t_tokens = ts, s_start = s0, s_end = s1,
     t_start = t0, t_end = t1, is_correct = False\<rparr>"

record dp_args =
  exact_match_score :: rat
  combination_score_multiplier :: rat
  gap_penalty :: rat
  max_combination_len :: nat
  ignore_leading_char_diff :: bool

definition default_args :: "nat \<Rightarrow> dp_args" where
  "default_args max_comb_len = \<lparr>exact_match_score = 3, combination_score_multiplier = 3/2,
     gap_penalty = - 3/2, max_combination_len = max_comb_len, ignore_leading_char_diff = False\<rparr>"

definition same_text :: "dp_args \<Rightarrow> ustring \<Rightarrow> ustring \<Rightarrow> bool" where
  "same_text a x y = strings_equal_flexible x y (ignore_leading_char_diff a)"

section \<open>The dynamic program\<close>

text \<open>\<open>Over_Teacher k\<close>: one student token against \<open>k\<close> teacher tokens; \<open>Over_Student k\<close> the other way round.\<close>

datatype move = No_Move | Diag | Up | Left | Over_Teacher nat | Over_Student nat

type_synonym table = "nat \<times> nat \<Rightarrow> rat \<times> move"

definition first_column :: "dp_args \<Rightarrow> nat \<Rightarrow> table \<Rightarrow> table" where
  "first_column a n1 D = foldl (\<lambda>D i. D((i, 0) := (fst (D (i - 1, 0)) + gap_penalty a, Up))) D [1..<n1 + 1]"

definition first_row :: "dp_args \<Rightarrow> nat \<Rightarrow> table \<Rightarrow> table" where
  "first_row a n2 D = foldl (\<lambda>D j. D((0, j) := (fst (D (0, j - 1)) + gap_penalty a, Left))) D [1..<n2 + 1]"

text \<open>
  The candidates of a cell in the order in which the code tries them; a later one wins only when it is
  strictly better.
\<close>

definition candidates :: "dp_args \<Rightarrow> ustring list \<Rightarrow> ustring list \<Rightarrow> table \<Rightarrow> nat \<Rightarrow> nat \<Rightarrow> (rat \<times> move) list" where
  "candidates a s t D i j =
     (let sv = s ! (i - 1); tv = t ! (j - 1) in
      [(fst (D (i - 1, j - 1)) + (if same_text a sv tv then exact_match_score a else - exact_match_score a), Diag),
       (fst (D (i - 1, j)) + gap_penalty a, Up),
       (fst (D (i, j - 1)) + gap_penalty a, Left)]
      @ map (\<lambda>k. (fst (D (i - 1, j - k)) + combination_score_multiplier a * of_nat k, Over_Teacher k))
          (filter (\<lambda>k. same_text a sv (concat (Prelude.slice (j - k) j t)))
             [2..<min (j + 1) (max_combination_len a + 1)])
      @ map (\<lambda>k. (fst (D (i - k, j - 1)) + combination_score_multiplier a * of_nat k, Over_Student k))
          (filter (\<lambda>k. same_text a tv (concat (Prelude.slice (i - k) i s)))
             [2..<min (i + 1) (max_combination_len a + 1)]))"

definition better :: "rat \<times> move \<Rightarrow> rat \<times> move \<Rightarrow> rat \<times> move" where
  "better c d = (if fst c < fst d then d else c)"

definition cell :: "dp_args \<Rightarrow> ustring list \<Rightarrow> ustring list \<Rightarrow> table \<Rightarrow> nat \<times> nat \<Rightarrow> rat \<times> move" where
  "cell a s t D ij = (let cs = candidates a s t D (fst ij) (snd ij) in foldl better (hd cs) (tl cs))"

definition grid :: "nat \<Rightarrow> nat \<Rightarrow> (nat \<times> nat) list" where
  "grid n1 n2 = List.product [1..<n1 + 1] [1..<n2 + 1]"

definition dp_table :: "dp_args \<Rightarrow> ustring list \<Rightarrow> ustring list \<Rightarrow> table" where
  "dp_table a s t =
     (let D0 = first_row a (length t) (first_column a (length s) (\<lambda>_. (0, No_Move)))
      in foldl (\<lambda>D ij. D(ij := cell a s t D ij)) D0 (grid (length s) (length t)))"

fun traceback :: "nat \<Rightarrow> table \<Rightarrow> ustring list \<Rightarrow> ustring list \<Rightarrow> nat \<Rightarrow> nat \<Rightarrow> alignment_pair list \<Rightarrow> alignment_pair list" where
  "traceback 0 D s t i j aligned = aligned"
| "traceback (Suc n) D s t i j aligned =
     (if i = 0 \<and> j = 0 then aligned
      else (case snd (D (i, j)) of
          Diag \<Rightarrow> traceback n D s t (i - 1) (j - 1)
            (new_pair [s ! (i - 1)] [t ! (j - 1)] (int i - 1) (int i) (int j - 1) (int j) # aligned)
        | Up \<Rightarrow> traceback n D s t (i - 1) j
            (new_pair [s ! (i - 1)] [] (int i - 1) (int i) (- 1) (- 1) # aligned)
        | Left \<Rightarrow> traceback n D s t i (j - 1)
            (new_pair [] [t ! (j - 1)] (- 1) (- 1) (int j - 1) (int j) # aligned)
        | Over_Teacher k \<Rightarrow> traceback n D s t (i - 1) (j - k)
            (new_pair [s ! (i - 1)] (Prelude.slice (j - k) j t) (int i - 1) (int i) (int j - int k) (int j) # aligned)
        | Over_Student k \<Rightarrow> traceback n D s t (i - k) (j - 1)
            (new_pair (Prelude.slice (i - k) i s) [t ! (j - 1)] (int i - int k) (int i) (int j - 1) (int j) # aligned)
        | No_Move \<Rightarrow> aligned))"

definition align_dp :: "dp_args \<Rightarrow> ustring list \<Rightarrow> ustring list \<Rightarrow> alignment_pair list \<times> rat" where
  "align_dp a s t = (let D = dp_table a s t; n1 = length s; n2 = length t in
     (traceback (n1 + n2) D s t n1 n2 [], fst (D (n1, n2))))"

section \<open>Anchors\<close>

text \<open>\<open>_shift_pairs\<close>: moved to the place of the segment, with coarse spans of equal tokens split\<close>

definition splittable :: "alignment_pair \<Rightarrow> bool" where
  "splittable p \<longleftrightarrow> 1 < length (s_tokens p) \<and> s_tokens p = t_tokens p"

definition split_pair :: "alignment_pair \<Rightarrow> int \<Rightarrow> int \<Rightarrow> alignment_pair list" where
  "split_pair p s0 t0 = map (\<lambda>k. new_pair [s_tokens p ! k] [t_tokens p ! k]
     (s0 + int k) (s0 + int k + 1) (t0 + int k) (t0 + int k + 1)) [0..<length (s_tokens p)]"

definition shift_index :: "int \<Rightarrow> int \<Rightarrow> int" where
  "shift_index d x = (if x \<noteq> - 1 then x + d else - 1)"

definition shift_pair :: "int \<Rightarrow> int \<Rightarrow> alignment_pair \<Rightarrow> alignment_pair list" where
  "shift_pair ds dt p =
     (let ns = shift_index ds (s_start p); ne = shift_index ds (s_end p);
          nts = shift_index dt (t_start p); nte = shift_index dt (t_end p) in
      if splittable p \<and> 0 \<le> ns \<and> 0 \<le> nts then split_pair p ns nts
      else [new_pair (s_tokens p) (t_tokens p) ns ne nts nte])"

definition shift_pairs :: "alignment_pair list \<Rightarrow> int \<Rightarrow> int \<Rightarrow> alignment_pair list" where
  "shift_pairs pairs ds dt = concat (map (shift_pair ds dt) pairs)"

text \<open>
  The candidates for anchors of one length: the n-grams that occur once on each side.  The code iterates
  over a set of n-grams; the sort that follows makes its order irrelevant.
\<close>

definition ngrams :: "nat \<Rightarrow> ustring list \<Rightarrow> ustring list list" where
  "ngrams k ts = map (\<lambda>i. Prelude.slice i (i + k) ts) [0..<length ts + 1 - k]"

definition potential_anchors :: "ustring list \<Rightarrow> ustring list \<Rightarrow> nat \<Rightarrow> (nat \<times> nat \<times> nat) list" where
  "potential_anchors s t k =
     (let gs = ngrams k s; gt = ngrams k t in
      concat (map (\<lambda>i. if count_list gs (gs ! i) = 1 \<and> count_list gt (gs ! i) = 1
        then (case first_ix (\<lambda>g. g = gs ! i) gt of Some j \<Rightarrow> [(i, j, k)] | None \<Rightarrow> []) else [])
        [0..<length gs]))"

fun select_anchors :: "(nat \<times> nat \<times> nat) list \<Rightarrow> nat set \<Rightarrow> nat set \<Rightarrow> (nat \<times> nat \<times> nat) list" where
  "select_anchors [] us ut = []"
| "select_anchors ((i, j, k) # rest) us ut =
     (if {i..<i + k} \<inter> us = {} \<and> {j..<j + k} \<inter> ut = {}
      then (i, j, k) # select_anchors rest (us \<union> {i..<i + k}) (ut \<union> {j..<j + k})
      else select_anchors rest us ut)"

fun validate_anchors :: "ustring list \<Rightarrow> ustring list \<Rightarrow> int \<Rightarrow> (nat \<times> nat \<times> nat) list \<Rightarrow> (nat \<times> nat \<times> nat) list" where
  "validate_anchors s t last_j [] = []"
| "validate_anchors s t last_j ((i, j, k) # rest) =
     (if last_j < int j \<and> Prelude.slice i (i + k) s = Prelude.slice j (j + k) t
      then (i, j, k) # validate_anchors s t (int j + int k - 1) rest
      else validate_anchors s t last_j rest)"

definition anchors :: "ustring list \<Rightarrow> ustring list \<Rightarrow> nat list \<Rightarrow> (nat \<times> nat \<times> nat) list" where
  "anchors s t lens =
     (let potential = sort_key (\<lambda>(i, j, k). (- int k, i, j)) (concat (map (potential_anchors s t) lens))
      in validate_anchors s t (- 1) (sort (select_anchors potential {} {})))"

definition segment_pairs :: "dp_args \<Rightarrow> ustring list \<Rightarrow> ustring list \<Rightarrow> nat \<Rightarrow> nat \<Rightarrow> alignment_pair list" where
  "segment_pairs a seg_s seg_t i j =
     (if seg_s \<noteq> [] \<or> seg_t \<noteq> [] then shift_pairs (fst (align_dp a seg_s seg_t)) (int i) (int j) else [])"

definition anchor_pairs :: "ustring list \<Rightarrow> ustring list \<Rightarrow> nat \<times> nat \<times> nat \<Rightarrow> alignment_pair list" where
  "anchor_pairs s t ijk = (case ijk of (i, j, k) \<Rightarrow>
     map (\<lambda>m. new_pair [s ! (i + m)] [t ! (j + m)] (int (i + m)) (int (i + m) + 1) (int (j + m)) (int (j + m) + 1)) [0..<k])"

fun anchored :: "dp_args \<Rightarrow> ustring list \<Rightarrow> ustring list \<Rightarrow> nat \<Rightarrow> nat \<Rightarrow> (nat \<times> nat \<times> nat) list \<Rightarrow> alignment_pair list" where
  "anchored a s t last_i last_j [] = segment_pairs a (drop last_i s) (drop last_j t) last_i last_j"
| "anchored a s t last_i last_j ((i, j, k) # rest) =
     segment_pairs a (Prelude.slice last_i i s) (Prelude.slice last_j j t) last_i last_j
     @ anchor_pairs s t (i, j, k) @ anchored a s t (i + k) (j + k) rest"

definition align_with_anchors :: "dp_args \<Rightarrow> nat list \<Rightarrow> ustring list \<Rightarrow> ustring list \<Rightarrow> alignment_pair list \<times> rat" where
  "align_with_anchors a lens s t =
     (if lens = [] then align_dp a s t
      else let valid = anchors s t lens in
        if valid = [] then align_dp a s t else (anchored a s t 0 0 valid, 0))"

section \<open>Repair\<close>

definition canonical_text :: "ustring list \<Rightarrow> ustring" where
  "canonical_text ts = concat (map (canonical_token True) ts)"

text \<open>The third component of \<open>_build_pair_strings\<close>, and the entry of \<open>_alignment_mask\<close>\<close>

definition pair_matches :: "alignment_pair \<Rightarrow> bool" where
  "pair_matches p = strings_equal_flexible (canonical_text (s_tokens p)) (canonical_text (t_tokens p)) False"

fun evens :: "'a list \<Rightarrow> 'a list" where
  "evens [] = []"
| "evens [x] = [x]"
| "evens (x # y # zs) = x # evens zs"

definition odds :: "'a list \<Rightarrow> 'a list" where
  "odds xs = (case xs of [] \<Rightarrow> [] | x # ys \<Rightarrow> evens ys)"

definition min_or_none :: "int list \<Rightarrow> int" where
  "min_or_none idx = (if idx \<noteq> [] then Min (set (evens idx)) else - 1)"

definition max_or_none :: "int list \<Rightarrow> int" where
  "max_or_none idx = (if idx \<noteq> [] then Max (set (odds idx)) else - 1)"

text \<open>\<open>_flatten_chunk\<close>\<close>

definition flatten_chunk :: "alignment_pair list \<Rightarrow> ustring list \<times> ustring list \<times> int list \<times> int list" where
  "flatten_chunk ps =
     (concat (map s_tokens ps), concat (map t_tokens ps),
      concat (map (\<lambda>p. if s_tokens p \<noteq> [] then [s_start p, s_end p] else []) ps),
      concat (map (\<lambda>p. if t_tokens p \<noteq> [] then [t_start p, t_end p] else []) ps))"

definition combine_run :: "alignment_pair list \<Rightarrow> alignment_pair" where
  "combine_run run =
     (let s_idx = concat (map (\<lambda>p. if s_tokens p \<noteq> [] \<and> s_start p \<noteq> - 1 then [s_start p, s_end p] else []) run);
          t_idx = concat (map (\<lambda>p. if t_tokens p \<noteq> [] \<and> t_start p \<noteq> - 1 then [t_start p, t_end p] else []) run)
      in new_pair (concat (map s_tokens run)) (concat (map t_tokens run))
           (min_or_none s_idx) (max_or_none s_idx) (min_or_none t_idx) (max_or_none t_idx))"

text \<open>The misaligned pairs from position \<open>j\<close> on, before the boundary\<close>

fun misaligned_run :: "nat \<Rightarrow> nat \<Rightarrow> alignment_pair list \<Rightarrow> alignment_pair list" where
  "misaligned_run boundary j [] = []"
| "misaligned_run boundary j (p # ps) =
     (if j < boundary \<and> \<not> pair_matches p then p # misaligned_run boundary (j + 1) ps else [])"

lemma misaligned_run_take: "misaligned_run b j ps = take (length (misaligned_run b j ps)) ps"
  by (induction b j ps rule: misaligned_run.induct) auto

lemma misaligned_run_le: "length (misaligned_run b j ps) \<le> length ps"
  by (induction b j ps rule: misaligned_run.induct) auto

function combine_loop :: "nat \<Rightarrow> nat \<Rightarrow> alignment_pair list \<Rightarrow> alignment_pair list" where
  "combine_loop boundary i [] = []"
| "combine_loop boundary i (p # ps) =
     (if i < boundary \<and> \<not> pair_matches p \<and> ps \<noteq> [] \<and> 2 \<le> length (p # misaligned_run boundary (i + 1) ps)
      then let run = p # misaligned_run boundary (i + 1) ps in
        combine_run run # combine_loop boundary (i + length run) (drop (length run) (p # ps))
      else p # combine_loop boundary (i + 1) ps)"
  by pat_completeness auto
termination
  by (relation "measure (\<lambda>(_, _, ps). length ps)") (auto simp: misaligned_run_le less_Suc_eq_le)

definition combine_consecutive_misaligned :: "rat \<Rightarrow> alignment_pair list \<Rightarrow> alignment_pair list" where
  "combine_consecutive_misaligned threshold ps =
     (if length ps < 2 then ps
      else combine_loop (nat (floor (of_nat (length ps) * (1 - threshold)))) 0 ps)"

text \<open>The repair of one chunk: \<open>None\<close> when the texts of its sides differ\<close>

definition place_sub :: "int \<Rightarrow> int \<Rightarrow> alignment_pair \<Rightarrow> alignment_pair" where
  "place_sub s0 t0 p = new_pair (s_tokens p) (t_tokens p)
     (if s_start p \<noteq> - 1 then s0 + s_start p else - 1) (if s_end p \<noteq> - 1 then s0 + s_end p else - 1)
     (if t_start p \<noteq> - 1 then t0 + t_start p else - 1) (if t_end p \<noteq> - 1 then t0 + t_end p else - 1)"

definition repair_chunk :: "dp_args \<Rightarrow> alignment_pair list \<Rightarrow> alignment_pair list option" where
  "repair_chunk a chunk = (case flatten_chunk chunk of (cs, ct, s_idx, t_idx) \<Rightarrow>
     if \<not> strings_equal_flexible (canonical_text cs) (canonical_text ct) False then None
     else
       let subs = fst (align_dp (a\<lparr>ignore_leading_char_diff := False\<rparr>) cs ct);
           s0 = min_or_none s_idx; t0 = min_or_none t_idx in
       if list_all pair_matches subs then Some (map (place_sub s0 t0) subs)
       else Some [new_pair cs ct s0 (max_or_none s_idx) t0 (max_or_none t_idx)])"

fun first_repair :: "dp_args \<Rightarrow> alignment_pair list \<Rightarrow> nat list \<Rightarrow> (alignment_pair list \<times> nat) option" where
  "first_repair a bad [] = None"
| "first_repair a bad (n # ns) = (case repair_chunk a (take n bad) of
      Some out \<Rightarrow> Some (out, n)
    | None \<Rightarrow> first_repair a bad ns)"

lemma first_repair_size: "first_repair a bad ns = Some (out, n) \<Longrightarrow> n \<in> set ns \<and> repair_chunk a (take n bad) = Some out"
  by (induction a bad ns rule: first_repair.induct) (auto split: option.splits)

function repair_loop :: "dp_args \<Rightarrow> alignment_pair list \<Rightarrow> alignment_pair list" where
  "repair_loop a [] = []"
| "repair_loop a (cur # rest) =
     (if splittable cur then split_pair cur (s_start cur) (t_start cur) @ repair_loop a rest
      else (case first_ix (\<lambda>p. \<not> pair_matches p) (cur # rest) of
          None \<Rightarrow> cur # rest
        | Some b \<Rightarrow>
            let bad = drop b (cur # rest) in
            take b (cur # rest) @
            (case first_repair a bad [2..<min 10 (length bad) + 1] of
               Some (out, n) \<Rightarrow> out @ repair_loop a (drop n bad)
             | None \<Rightarrow> (bad ! 0) # repair_loop a (drop 1 bad))))"
  by pat_completeness auto
termination
  by (relation "measure (\<lambda>(_, ps). length ps)") (auto dest!: first_repair_size first_ix_Some)

definition post_process_alignment :: "dp_args \<Rightarrow> rat \<Rightarrow> alignment_pair list \<Rightarrow> alignment_pair list" where
  "post_process_alignment a threshold ps =
     (if ps = [] then [] else repair_loop a (combine_consecutive_misaligned threshold ps))"

section \<open>One sample\<close>

definition remap_pair :: "range list \<Rightarrow> range list \<Rightarrow> alignment_pair \<Rightarrow> alignment_pair" where
  "remap_pair rs rt p =
     (let p1 = (if s_start p \<noteq> - 1 then
                  p\<lparr>s_start := int (fst (rs ! nat (s_start p))), s_end := int (snd (rs ! nat (s_end p - 1)))\<rparr> else p)
      in if t_start p1 \<noteq> - 1 then
           p1\<lparr>t_start := int (fst (rt ! nat (t_start p1))), t_end := int (snd (rt ! nat (t_end p1 - 1)))\<rparr> else p1)"

definition mark_correct :: "alignment_pair \<Rightarrow> alignment_pair" where
  "mark_correct p = p\<lparr>is_correct := pair_matches p\<rparr>"

definition align_single :: "dp_args \<Rightarrow> nat list \<Rightarrow> ustring list \<Rightarrow> ustring list \<Rightarrow> alignment_pair list res" where
  "align_single a lens student teacher =
     bindR (canonicalize_sequence student) (\<lambda>(cs, rs).
     bindR (canonicalize_sequence teacher) (\<lambda>(ct, rt).
       let aligned = fst (align_with_anchors a lens cs ct);
           aligned = post_process_alignment a (1/5) aligned
       in Inr (map (\<lambda>p. mark_correct (remap_pair rs rt p)) aligned)))"

section \<open>The tensors of a sample\<close>

record alignment_row =
  pair_valid :: "bool list"
  pair_is_correct :: "bool list"
  student_partition :: "bool list"
  teacher_partition :: "bool list"
  student_chunk_id :: "int list"
  teacher_chunk_id :: "int list"
  num_chunks :: nat

text \<open>\<open>xs[a:b] = v\<close>\<close>

definition assign_slice :: "int \<Rightarrow> int \<Rightarrow> 'a \<Rightarrow> 'a list \<Rightarrow> 'a list" where
  "assign_slice a b v xs = map (\<lambda>k. if a \<le> int k \<and> int k < b then v else xs ! k) [0..<length xs]"

definition write_pair :: "alignment_row \<Rightarrow> nat \<times> alignment_pair \<Rightarrow> alignment_row" where
  "write_pair r ip = (case ip of (i, p) \<Rightarrow>
     let ts = int (length (student_chunk_id r)); tt = int (length (teacher_chunk_id r));
         exact = (is_correct p \<and> s_start p \<noteq> - 1 \<and> t_start p \<noteq> - 1 \<and> s_end p - s_start p = 1 \<and> t_end p - t_start p = 1)
     in r\<lparr>student_chunk_id :=
             (if s_start p \<noteq> - 1 \<and> s_end p \<noteq> - 1 \<and> (0 \<le> s_start p \<and> s_start p < ts \<and> 0 < s_end p \<and> s_end p \<le> ts)
              then assign_slice (s_start p) (s_end p) (int i) (student_chunk_id r) else student_chunk_id r),
           teacher_chunk_id :=
             (if t_start p \<noteq> - 1 \<and> t_end p \<noteq> - 1 \<and> (0 \<le> t_start p \<and> t_start p < tt \<and> 0 < t_end p \<and> t_end p \<le> tt)
              then assign_slice (t_start p) (t_end p) (int i) (teacher_chunk_id r) else teacher_chunk_id r),
           pair_valid := (pair_valid r)[i := True],
           pair_is_correct := (pair_is_correct r)[i := is_correct p],
           student_partition :=
             (if exact \<and> 0 \<le> s_start p \<and> s_start p < ts
              then (student_partition r)[nat (s_start p) := True] else student_partition r),
           teacher_partition :=
             (if exact \<and> 0 \<le> t_start p \<and> t_start p < tt
              then (teacher_partition r)[nat (t_start p) := True] else teacher_partition r)\<rparr>)"

definition blank_row :: "nat \<Rightarrow> nat \<Rightarrow> nat \<Rightarrow> nat \<Rightarrow> alignment_row" where
  "blank_row max_pairs ts tt n = \<lparr>pair_valid = replicate max_pairs False, pair_is_correct = replicate max_pairs False,
     student_partition = replicate ts False, teacher_partition = replicate tt False,
     student_chunk_id = replicate ts (- 1), teacher_chunk_id = replicate tt (- 1), num_chunks = n\<rparr>"

definition pairs_to_row :: "nat \<Rightarrow> nat \<Rightarrow> nat \<Rightarrow> alignment_pair list \<Rightarrow> alignment_row" where
  "pairs_to_row max_pairs ts tt ps =
     foldl write_pair (blank_row max_pairs ts tt (length ps)) (List.enumerate 0 ps)"

definition pairs_to_batch :: "nat \<Rightarrow> nat \<Rightarrow> alignment_pair list list \<Rightarrow> alignment_row list" where
  "pairs_to_batch ts tt samples =
     (let max_pairs = max (foldl max 0 (map length samples)) 1 in map (pairs_to_row max_pairs ts tt) samples)"

text \<open>\<open>_drop_padding\<close>: a mask entry of 0 is padding\<close>

definition drop_side :: "int list option \<Rightarrow> int list \<Rightarrow> bool list \<Rightarrow> int list \<times> bool list" where
  "drop_side m ids parts = (case m of
      None \<Rightarrow> (ids, parts)
    | Some ms \<Rightarrow> (map2 (\<lambda>m i. if m = 0 then - 1 else i) ms ids, map2 (\<lambda>m b. if m = 0 then False else b) ms parts))"

definition drop_padding :: "int list option \<Rightarrow> int list option \<Rightarrow> alignment_row \<Rightarrow> alignment_row" where
  "drop_padding ms mt r =
     (let (si, sp) = drop_side ms (student_chunk_id r) (student_partition r);
          (ti, tp) = drop_side mt (teacher_chunk_id r) (teacher_partition r)
      in r\<lparr>student_chunk_id := si, student_partition := sp, teacher_chunk_id := ti, teacher_partition := tp\<rparr>)"

text \<open>
  \<open>align\<close>: \<open>to_s\<close> and \<open>to_t\<close> are the tokenizers' \<open>convert_ids_to_tokens\<close>; the rows of the masks, when
  given, are one per sample.
\<close>

definition row_of :: "'a list option \<Rightarrow> nat \<Rightarrow> 'a option" where
  "row_of ms i = map_option (\<lambda>m. m ! i) ms"

definition align ::
    "(int list \<Rightarrow> ustring list) \<Rightarrow> (int list \<Rightarrow> ustring list) \<Rightarrow> nat \<Rightarrow> nat \<Rightarrow> nat \<Rightarrow> int list list \<Rightarrow> int list list
     \<Rightarrow> int list list option \<Rightarrow> int list list option \<Rightarrow> alignment_row list res" where
  "align to_s to_t max_comb_len ts tt student_ids teacher_ids ms mt =
     bindR (assertR (length student_ids = length teacher_ids)) (\<lambda>_.
     bindR (mapR (\<lambda>(s, t). align_single (default_args max_comb_len) [3] (to_s s) (to_t t)) (zip student_ids teacher_ids))
       (\<lambda>samples. Inr (map (\<lambda>(i, r). drop_padding (row_of ms i) (row_of mt i) r)
          (List.enumerate 0 (pairs_to_batch ts tt samples)))))"

section \<open>The table is a fixed point of its loop\<close>

lemma fold_fixpoint:
  assumes "sorted_wrt R xs" and "\<And>x y. R x y \<Longrightarrow> \<not> R y x"
    and "\<And>D E k. k \<in> set xs \<Longrightarrow> (\<And>d. dep d k \<Longrightarrow> D d = E d) \<Longrightarrow> g D k = g E k"
    and "\<And>d k. dep d k \<Longrightarrow> R d k"
  shows "(\<forall>x\<in>set xs. foldl (\<lambda>D k. D(k := g D k)) D0 xs x = g (foldl (\<lambda>D k. D(k := g D k)) D0 xs) x) \<and>
    (\<forall>x. x \<notin> set xs \<longrightarrow> foldl (\<lambda>D k. D(k := g D k)) D0 xs x = D0 x)"
  using assms(1,3)
proof (induction xs rule: rev_induct)
  case (snoc k xs)
  define F where "F = foldl (\<lambda>D k. D(k := g D k)) D0 xs"
  have R: "\<And>x. x \<in> set xs \<Longrightarrow> R x k" and s: "sorted_wrt R xs"
    using snoc.prems(1) by (simp_all add: sorted_wrt_append)
  have "(\<forall>x\<in>set xs. F x = g F x) \<and> (\<forall>x. x \<notin> set xs \<longrightarrow> F x = D0 x)"
    unfolding F_def by (rule snoc.IH[OF s]) (rule snoc.prems(2), simp_all)
  then have IH: "\<And>x. x \<in> set xs \<Longrightarrow> F x = g F x" "\<And>x. x \<notin> set xs \<Longrightarrow> F x = D0 x" by blast+
  have keep: "g (F(k := g F k)) x = g F x" if "x \<in> set (xs @ [k])" for x
  proof (rule snoc.prems(2)[OF that])
    fix d assume "dep d x"
    then have "R d x" by (rule assms(4))
    have "d \<noteq> k"
    proof
      assume "d = k"
      with \<open>R d x\<close> have "R k x" by simp
      moreover have "x = k \<or> R x k" using that R by auto
      ultimately show False using assms(2) by blast
    qed
    then show "(F(k := g F k)) d = F d" by simp
  qed
  have new: "k \<notin> set xs" using R assms(2) by blast
  have "(F(k := g F k)) x = g (F(k := g F k)) x" if x: "x \<in> set (xs @ [k])" for x
  proof (cases "x = k")
    case False
    with x IH(1) keep[OF x] show ?thesis by simp
  qed (use keep[OF x] in simp)
  moreover have "(F(k := g F k)) x = D0 x" if "x \<notin> set (xs @ [k])" for x
    using that IH(2) by simp
  ultimately show ?case unfolding foldl_append foldl.simps F_def[symmetric] by blast
qed simp

definition row_major :: "nat \<times> nat \<Rightarrow> nat \<times> nat \<Rightarrow> bool" where
  "row_major x y \<longleftrightarrow> fst x < fst y \<or> fst x = fst y \<and> snd x < snd y"

lemma set_grid: "ij \<in> set (grid n1 n2) \<longleftrightarrow> 1 \<le> fst ij \<and> fst ij \<le> n1 \<and> 1 \<le> snd ij \<and> snd ij \<le> n2"
  by (cases ij) (auto simp: grid_def)

lemma sorted_product: "sorted_wrt (<) xs \<Longrightarrow> sorted_wrt (<) ys \<Longrightarrow> sorted_wrt row_major (List.product xs ys)"
proof (induction xs)
  case (Cons x xs)
  have "sorted_wrt row_major (map (Pair x) ys)"
    using Cons.prems(2) by (simp add: sorted_wrt_map row_major_def)
  moreover have "\<forall>p\<in>set (map (Pair x) ys). \<forall>q\<in>set (List.product xs ys). row_major p q"
    using Cons.prems(1) by (auto simp: row_major_def)
  moreover have "sorted_wrt row_major (List.product xs ys)"
    using Cons by simp
  ultimately show ?case by (simp add: sorted_wrt_append)
qed simp

lemma sorted_grid: "sorted_wrt row_major (grid n1 n2)"
  unfolding grid_def by (rule sorted_product) (simp_all add: sorted_wrt_upt del: upt_Suc)

definition before :: "nat \<times> nat \<Rightarrow> nat \<times> nat \<Rightarrow> bool" where
  "before x y \<longleftrightarrow> fst x \<le> fst y \<and> snd x \<le> snd y \<and> x \<noteq> y"

lemma cell_cong:
  assumes "1 \<le> i" "1 \<le> j" and "\<And>d. before d (i, j) \<Longrightarrow> D d = E d"
  shows "cell a s t D (i, j) = cell a s t E (i, j)"
proof -
  have "D (i', j') = E (i', j')" if "i' \<le> i" "j' \<le> j" "i' < i \<or> j' < j" for i' j'
    using that by (intro assms(3)) (auto simp: before_def)
  then have "candidates a s t D i j = candidates a s t E i j"
    using assms(1,2) unfolding candidates_def Let_def by (intro arg_cong2[of _ _ _ _ "(@)"] map_cong) auto
  then show ?thesis by (simp add: cell_def)
qed

lemma first_column_eq:
  "first_column a n D (i, j) =
     (if j = 0 \<and> 1 \<le> i \<and> i \<le> n then (fst (first_column a n D (i - 1, 0)) + gap_penalty a, Up) else D (i, j))"
proof (induction n arbitrary: i j)
  case (Suc n)
  have e: "first_column a (Suc n) D =
      (first_column a n D)((Suc n, 0) := (fst (first_column a n D (n, 0)) + gap_penalty a, Up))"
    by (simp add: first_column_def)
  show ?case
  proof (cases "j = 0 \<and> 1 \<le> i \<and> i \<le> n")
    case True
    then have "i - 1 \<noteq> Suc n" "i \<noteq> Suc n" by auto
    with True Suc[of i j] show ?thesis by (simp add: e)
  next
    case False
    with Suc[of i j] show ?thesis by (auto simp: e)
  qed
qed (auto simp: first_column_def)

lemma first_row_eq:
  "first_row a n D (i, j) =
     (if i = 0 \<and> 1 \<le> j \<and> j \<le> n then (fst (first_row a n D (0, j - 1)) + gap_penalty a, Left) else D (i, j))"
proof (induction n arbitrary: i j)
  case (Suc n)
  have e: "first_row a (Suc n) D =
      (first_row a n D)((0, Suc n) := (fst (first_row a n D (0, n)) + gap_penalty a, Left))"
    by (simp add: first_row_def)
  show ?case
  proof (cases "i = 0 \<and> 1 \<le> j \<and> j \<le> n")
    case True
    then have "j - 1 \<noteq> Suc n" "j \<noteq> Suc n" by auto
    with True Suc[of i j] show ?thesis by (simp add: e)
  next
    case False
    with Suc[of i j] show ?thesis by (auto simp: e)
  qed
qed (auto simp: first_row_def)

lemma dp_table_cases:
  fixes a s t
  defines "F \<equiv> dp_table a s t"
  shows "F (0, 0) = (0, No_Move)"
    and "1 \<le> i \<Longrightarrow> i \<le> length s \<Longrightarrow> F (i, 0) = (fst (F (i - 1, 0)) + gap_penalty a, Up)"
    and "1 \<le> j \<Longrightarrow> j \<le> length t \<Longrightarrow> F (0, j) = (fst (F (0, j - 1)) + gap_penalty a, Left)"
    and "1 \<le> i \<Longrightarrow> i \<le> length s \<Longrightarrow> 1 \<le> j \<Longrightarrow> j \<le> length t \<Longrightarrow> F (i, j) = cell a s t F (i, j)"
proof -
  define C where "C = first_column a (length s) (\<lambda>_. (0, No_Move))"
  define D where "D = first_row a (length t) C"
  have F: "F = foldl (\<lambda>D ij. D(ij := cell a s t D ij)) D (grid (length s) (length t))"
    by (simp add: F_def dp_table_def D_def C_def Let_def)
  have fx: "(\<forall>x\<in>set (grid (length s) (length t)). F x = cell a s t F x) \<and>
      (\<forall>x. x \<notin> set (grid (length s) (length t)) \<longrightarrow> F x = D x)"
    unfolding F
  proof (rule fold_fixpoint[where R = row_major and dep = before])
    fix P Q :: table and k
    assume k: "k \<in> set (grid (length s) (length t))" and eq: "\<And>d. before d k \<Longrightarrow> P d = Q d"
    obtain i j where ij: "k = (i, j)" by (cases k)
    show "cell a s t P k = cell a s t Q k"
      unfolding ij using k eq by (intro cell_cong) (simp_all add: ij set_grid)
  qed (auto simp: sorted_grid row_major_def before_def prod_eq_iff)
  show "F (0, 0) = (0, No_Move)"
    using fx first_row_eq[of a "length t" C 0 0] first_column_eq[of a "length s" "\<lambda>_. (0, No_Move)" 0 0]
    by (simp add: set_grid D_def C_def)
  show "1 \<le> i \<Longrightarrow> i \<le> length s \<Longrightarrow> F (i, 0) = (fst (F (i - 1, 0)) + gap_penalty a, Up)"
    using fx first_row_eq[of a "length t" C i 0] first_row_eq[of a "length t" C "i - 1" 0]
      first_column_eq[of a "length s" "\<lambda>_. (0, No_Move)" i 0]
    by (simp add: set_grid D_def C_def)
  show "1 \<le> j \<Longrightarrow> j \<le> length t \<Longrightarrow> F (0, j) = (fst (F (0, j - 1)) + gap_penalty a, Left)"
    using fx first_row_eq[of a "length t" C 0 j] by (simp add: set_grid D_def)
  show "1 \<le> i \<Longrightarrow> i \<le> length s \<Longrightarrow> 1 \<le> j \<Longrightarrow> j \<le> length t \<Longrightarrow> F (i, j) = cell a s t F (i, j)"
    using fx by (simp add: set_grid)
qed

lemma foldl_better:
  "foldl better c cs \<in> set (c # cs) \<and> (\<forall>d\<in>set (c # cs). fst d \<le> fst (foldl better c cs))"
proof (induction cs arbitrary: c)
  case (Cons d cs)
  from Cons[of "better c d"] show ?case by (auto simp: better_def split: if_splits)
qed simp

lemma cell_best:
  "cell a s t D (i, j) \<in> set (candidates a s t D i j)"
  "d \<in> set (candidates a s t D i j) \<Longrightarrow> fst d \<le> fst (cell a s t D (i, j))"
proof -
  obtain c cs where "candidates a s t D i j = c # cs" by (auto simp: candidates_def Let_def)
  then show "cell a s t D (i, j) \<in> set (candidates a s t D i j)"
    "d \<in> set (candidates a s t D i j) \<Longrightarrow> fst d \<le> fst (cell a s t D (i, j))"
    using foldl_better[of c cs] by (auto simp: cell_def Let_def)
qed


section \<open>What an alignment is\<close>

text \<open>
  The specification does not speak of tables or positions: an alignment cuts both sequences into blocks of
  one token against one, one against none, or one against several of the same text; its score is the sum of
  the scores of its blocks.
\<close>

type_synonym block = "ustring list \<times> ustring list"

fun legal_block :: "dp_args \<Rightarrow> block \<Rightarrow> bool" where
  "legal_block a ([x], [y]) = True"
| "legal_block a ([x], []) = True"
| "legal_block a ([], [y]) = True"
| "legal_block a ([x], ys) = (length ys \<le> max_combination_len a \<and> same_text a x (concat ys))"
| "legal_block a (xs, [y]) = (length xs \<le> max_combination_len a \<and> same_text a y (concat xs))"
| "legal_block a _ = False"

fun block_score :: "dp_args \<Rightarrow> block \<Rightarrow> rat" where
  "block_score a ([x], [y]) = (if same_text a x y then exact_match_score a else - exact_match_score a)"
| "block_score a ([x], []) = gap_penalty a"
| "block_score a ([], [y]) = gap_penalty a"
| "block_score a ([x], ys) = combination_score_multiplier a * of_nat (length ys)"
| "block_score a (xs, ys) = combination_score_multiplier a * of_nat (length xs)"

definition alignment_score :: "dp_args \<Rightarrow> block list \<Rightarrow> rat" where
  "alignment_score a bs = sum_list (map (block_score a) bs)"

definition is_alignment :: "dp_args \<Rightarrow> block list \<Rightarrow> ustring list \<Rightarrow> ustring list \<Rightarrow> bool" where
  "is_alignment a bs s t \<longleftrightarrow>
     list_all (legal_block a) bs \<and> concat (map fst bs) = s \<and> concat (map snd bs) = t"

definition block_of :: "alignment_pair \<Rightarrow> block" where
  "block_of p = (s_tokens p, t_tokens p)"

text \<open>The positions of the pairs: consecutive spans on both sides, \<open>-1\<close> on an empty side\<close>

definition span_ok :: "nat \<Rightarrow> ustring list \<Rightarrow> int \<Rightarrow> int \<Rightarrow> bool" where
  "span_ok a ts x y \<longleftrightarrow> (if ts = [] then x = - 1 \<and> y = - 1 else x = int a \<and> y = int (a + length ts))"

fun spans :: "nat \<Rightarrow> nat \<Rightarrow> alignment_pair list \<Rightarrow> bool" where
  "spans a b [] = True"
| "spans a b (p # ps) = (span_ok a (s_tokens p) (s_start p) (s_end p) \<and> span_ok b (t_tokens p) (t_start p) (t_end p)
     \<and> spans (a + length (s_tokens p)) (b + length (t_tokens p)) ps)"

abbreviation s_text :: "alignment_pair list \<Rightarrow> ustring list" where
  "s_text ps \<equiv> concat (map s_tokens ps)"

abbreviation t_text :: "alignment_pair list \<Rightarrow> ustring list" where
  "t_text ps \<equiv> concat (map t_tokens ps)"

lemma spans_append:
  "spans a b (ps @ qs) \<longleftrightarrow> spans a b ps \<and> spans (a + length (s_text ps)) (b + length (t_text ps)) qs"
  by (induction ps arbitrary: a b) (simp_all add: add.assoc)

lemma take_slice: "i' \<le> i \<Longrightarrow> take i' xs @ Prelude.slice i' i xs = take i xs"
  by (metis Prelude.slice_def add_diff_inverse_nat not_le take_add)

lemma slice_one: "1 \<le> i \<Longrightarrow> i \<le> length xs \<Longrightarrow> Prelude.slice (i - 1) i xs = [xs ! (i - 1)]"
  by (cases i) (simp_all add: Prelude.slice_def take_Suc_conv_app_nth[of 0, simplified] hd_drop_conv_nth take_Suc)

lemma slice_length [simp]: "i' \<le> i \<Longrightarrow> i \<le> length xs \<Longrightarrow> length (Prelude.slice i' i xs) = i - i'"
  by (simp add: Prelude.slice_def)

lemma slice_self [simp]: "Prelude.slice i i xs = []"
  by (simp add: Prelude.slice_def)

lemma take_eq_append:
  assumes "take i xs = A @ B" and "i \<le> length xs"
  shows "length B \<le> i" "A = take (i - length B) xs" "B = Prelude.slice (i - length B) i xs"
proof -
  have l: "length A + length B = i" using assms by (metis length_append length_take min.absorb2)
  then show "length B \<le> i" by simp
  have "A = take (length A) (take i xs)" using assms(1) by simp
  moreover have "i - length B = length A" "length A \<le> i" using l by simp_all
  ultimately show A: "A = take (i - length B) xs" by (simp add: min_absorb1)
  have "A @ B = A @ Prelude.slice (i - length B) i xs"
    using take_slice[of "i - length B" i xs] assms(1) A by simp
  then show "B = Prelude.slice (i - length B) i xs" by simp
qed

lemma legal_many: "2 \<le> length y \<Longrightarrow> legal_block a ([u], y) \<longleftrightarrow> length y \<le> max_combination_len a \<and> same_text a u (concat y)"
  "2 \<le> length x \<Longrightarrow> legal_block a (x, [v]) \<longleftrightarrow> length x \<le> max_combination_len a \<and> same_text a v (concat x)"
  by (cases y rule: remdups_adj.cases; simp) (cases x rule: remdups_adj.cases; simp)

lemma score_many:
  "2 \<le> length y \<Longrightarrow> block_score a ([u], y) = combination_score_multiplier a * of_nat (length y)"
  "2 \<le> length x \<Longrightarrow> block_score a (x, [v]) = combination_score_multiplier a * of_nat (length x)"
  by (cases y rule: remdups_adj.cases; simp) (cases x rule: remdups_adj.cases; simp)

lemma legal_lengths:
  assumes "legal_block a (x, y)"
  shows "length x = 1 \<and> length y = 1 \<or> length x = 1 \<and> length y = 0 \<or> length x = 0 \<and> length y = 1 \<or>
    length x = 1 \<and> 2 \<le> length y \<or> 2 \<le> length x \<and> length y = 1"
  using assms by (induction a "(x, y)" rule: legal_block.induct) auto

lemma set_lengths: "set [2..<min (j + 1) (m + 1)] = {k. 2 \<le> k \<and> k \<le> j \<and> k \<le> m}"
  by auto

lemma set_candidates:
  "set (candidates a s t D i j) =
     {(fst (D (i - 1, j - 1)) + (if same_text a (s ! (i - 1)) (t ! (j - 1)) then exact_match_score a
         else - exact_match_score a), Diag),
      (fst (D (i - 1, j)) + gap_penalty a, Up),
      (fst (D (i, j - 1)) + gap_penalty a, Left)}
     \<union> (\<lambda>k. (fst (D (i - 1, j - k)) + combination_score_multiplier a * of_nat k, Over_Teacher k)) `
         {k. 2 \<le> k \<and> k \<le> j \<and> k \<le> max_combination_len a \<and>
             same_text a (s ! (i - 1)) (concat (Prelude.slice (j - k) j t))}
     \<union> (\<lambda>k. (fst (D (i - k, j - 1)) + combination_score_multiplier a * of_nat k, Over_Student k)) `
         {k. 2 \<le> k \<and> k \<le> i \<and> k \<le> max_combination_len a \<and>
             same_text a (t ! (j - 1)) (concat (Prelude.slice (i - k) i s))}"
  unfolding candidates_def Let_def set_append set_map set_filter set_lengths by (auto simp: Un_assoc)

text \<open>The cells bound the scores from above\<close>

lemma cell_upper:
  fixes a s t
  defines "F \<equiv> dp_table a s t"
  assumes "i \<le> length s" "j \<le> length t" and "p \<le> i" "q \<le> j"
    and legal: "legal_block a (Prelude.slice (i - p) i s, Prelude.slice (j - q) j t)"
  shows "fst (F (i - p, j - q)) + block_score a (Prelude.slice (i - p) i s, Prelude.slice (j - q) j t) \<le> fst (F (i, j))"
proof -
  let ?A = "Prelude.slice (i - p) i s" and ?B = "Prelude.slice (j - q) j t"
  have len: "length ?A = p" "length ?B = q" using assms by simp_all
  note T = dp_table_cases[where a = a and s = s and t = t, folded F_def]
  have best: "fst d \<le> fst (F (i, j))" if "d \<in> set (candidates a s t F i j)" "1 \<le> i" "1 \<le> j" for d
    using cell_best(2)[OF that(1)] T(4)[of i j] that(2,3) assms(2,3) by simp
  have As: "?A = [s ! (i - 1)]" if "p = 1" using slice_one[of i s] assms(2,4) that by simp
  have Bs: "?B = [t ! (j - 1)]" if "q = 1" using slice_one[of j t] assms(3,5) that by simp
  consider "p = 1" "q = 1" | "p = 1" "q = 0" | "p = 0" "q = 1" | "p = 1" "2 \<le> q" | "2 \<le> p" "q = 1"
    using legal_lengths[OF legal] len by metis
  then show ?thesis
  proof cases
    case 1
    have "(fst (F (i - 1, j - 1)) + (if same_text a (s ! (i - 1)) (t ! (j - 1)) then exact_match_score a
        else - exact_match_score a), Diag) \<in> set (candidates a s t F i j)"
      by (simp add: set_candidates)
    from best[OF this] 1 assms(4,5) show ?thesis unfolding As[OF 1(1)] Bs[OF 1(2)] by simp
  next
    case 2
    have "(fst (F (i - 1, j)) + gap_penalty a, Up) \<in> set (candidates a s t F i j)"
      by (simp add: set_candidates)
    from best[OF this] 2 assms(2,4) T(2)[of i] show ?thesis unfolding As[OF 2(1)] by (cases "j = 0") simp_all
  next
    case 3
    have "(fst (F (i, j - 1)) + gap_penalty a, Left) \<in> set (candidates a s t F i j)"
      by (simp add: set_candidates)
    from best[OF this] 3 assms(3,5) T(3)[of j] show ?thesis unfolding Bs[OF 3(2)] by (cases "i = 0") simp_all
  next
    case 4
    have "q \<le> max_combination_len a \<and> same_text a (s ! (i - 1)) (concat ?B)"
      using legal legal_many(1)[of ?B] 4(2) len unfolding As[OF 4(1)] by simp
    then have "(fst (F (i - 1, j - q)) + combination_score_multiplier a * of_nat q, Over_Teacher q)
        \<in> set (candidates a s t F i j)"
      using 4 assms(5) unfolding set_candidates by blast
    from best[OF this] 4 assms(4,5) score_many(1)[of ?B] len show ?thesis unfolding As[OF 4(1)] by simp
  next
    case 5
    have "p \<le> max_combination_len a \<and> same_text a (t ! (j - 1)) (concat ?A)"
      using legal legal_many(2)[of ?A] 5(1) len unfolding Bs[OF 5(2)] by simp
    then have "(fst (F (i - p, j - 1)) + combination_score_multiplier a * of_nat p, Over_Student p)
        \<in> set (candidates a s t F i j)"
      using 5 assms(4) unfolding set_candidates by blast
    from best[OF this] 5 assms(4,5) score_many(2)[of ?A] len show ?thesis unfolding Bs[OF 5(2)] by simp
  qed
qed

lemma table_upper:
  "list_all (legal_block a) bs \<Longrightarrow> concat (map fst bs) = take i s \<Longrightarrow> concat (map snd bs) = take j t \<Longrightarrow>
     i \<le> length s \<Longrightarrow> j \<le> length t \<Longrightarrow> alignment_score a bs \<le> fst (dp_table a s t (i, j))"
proof (induction bs arbitrary: i j rule: rev_induct)
  case Nil
  then have "i = 0" "j = 0" by auto
  then show ?case by (simp add: alignment_score_def dp_table_cases(1))
next
  case (snoc b bs)
  obtain x y where b: "b = (x, y)" by (cases b)
  note S = take_eq_append[of i s "concat (map fst bs)" x] and T = take_eq_append[of j t "concat (map snd bs)" y]
  have e: "take i s = concat (map fst bs) @ x" "take j t = concat (map snd bs) @ y"
    using snoc.prems by (simp_all add: b)
  let ?i = "i - length x" and ?j = "j - length y"
  have "alignment_score a bs \<le> fst (dp_table a s t (?i, ?j))"
    using snoc.prems S(2)[OF e(1)] T(2)[OF e(2)] by (intro snoc.IH) auto
  moreover have "fst (dp_table a s t (?i, ?j)) + block_score a (x, y) \<le> fst (dp_table a s t (i, j))"
    using cell_upper[of i s j t "length x" "length y" a] S[OF e(1)] T[OF e(2)] snoc.prems by (simp add: b)
  ultimately show ?case by (simp add: alignment_score_def b)
qed


text \<open>The move of a cell accounts for its score\<close>

definition block_at :: "ustring list \<Rightarrow> ustring list \<Rightarrow> nat \<Rightarrow> nat \<Rightarrow> nat \<Rightarrow> nat \<Rightarrow> block" where
  "block_at s t p q i j = (Prelude.slice (i - p) i s, Prelude.slice (j - q) j t)"

fun move_size :: "move \<Rightarrow> nat \<times> nat" where
  "move_size No_Move = (0, 0)"
| "move_size Diag = (1, 1)"
| "move_size Up = (1, 0)"
| "move_size Left = (0, 1)"
| "move_size (Over_Teacher k) = (1, k)"
| "move_size (Over_Student k) = (k, 1)"

lemma cell_move:
  fixes a s t
  defines "F \<equiv> dp_table a s t"
  assumes "i \<le> length s" "j \<le> length t" and "0 < i + j" and "F (i, j) = (v, m)" and "move_size m = (p, q)"
  shows "m \<noteq> No_Move \<and> m \<noteq> Over_Teacher 0 \<and> m \<noteq> Over_Student 0 \<and> p \<le> i \<and> q \<le> j \<and> 0 < p + q \<and> legal_block a (block_at s t p q i j) \<and>
    v = fst (F (i - p, j - q)) + block_score a (block_at s t p q i j)"
proof -
  note T = dp_table_cases[where a = a and s = s and t = t, folded F_def]
  consider "i = 0" "1 \<le> j" | "1 \<le> i" "j = 0" | "1 \<le> i" "1 \<le> j" using assms(4) by linarith
  then show ?thesis
  proof cases
    case 1
    then show ?thesis using T(3)[of j] assms(3,5,6) slice_one[of j t] by (auto simp: block_at_def)
  next
    case 2
    then show ?thesis using T(2)[of i] assms(2,5,6) slice_one[of i s] by (auto simp: block_at_def)
  next
    case 3
    have one: "Prelude.slice (i - 1) i s = [s ! (i - 1)]" "Prelude.slice (j - 1) j t = [t ! (j - 1)]"
      using 3 assms(2,3) slice_one by simp_all
    have "(v, m) \<in> set (candidates a s t F i j)"
      using cell_best(1)[of a s t F i j] T(4)[of i j] 3 assms(2,3,5) by simp
    then consider "m = Diag" "v = fst (F (i - 1, j - 1)) + (if same_text a (s ! (i - 1)) (t ! (j - 1))
          then exact_match_score a else - exact_match_score a)"
      | "m = Up" "v = fst (F (i - 1, j)) + gap_penalty a"
      | "m = Left" "v = fst (F (i, j - 1)) + gap_penalty a"
      | k where "m = Over_Teacher k" "v = fst (F (i - 1, j - k)) + combination_score_multiplier a * of_nat k"
          "2 \<le> k" "k \<le> j" "k \<le> max_combination_len a" "same_text a (s ! (i - 1)) (concat (Prelude.slice (j - k) j t))"
      | k where "m = Over_Student k" "v = fst (F (i - k, j - 1)) + combination_score_multiplier a * of_nat k"
          "2 \<le> k" "k \<le> i" "k \<le> max_combination_len a" "same_text a (t ! (j - 1)) (concat (Prelude.slice (i - k) i s))"
      unfolding set_candidates by blast
    then show ?thesis
    proof cases
      case 4
      with assms(3,6) legal_many(1)[of "Prelude.slice (j - k) j t" a "s ! (i - 1)"]
        score_many(1)[of "Prelude.slice (j - k) j t" a "s ! (i - 1)"] 3 one show ?thesis
        by (auto simp: block_at_def)
    next
      case 5
      with assms(2,6) legal_many(2)[of "Prelude.slice (i - k) i s" a "t ! (j - 1)"]
        score_many(2)[of "Prelude.slice (i - k) i s" a "t ! (j - 1)"] 3 one show ?thesis
        by (auto simp: block_at_def)
    qed (use assms(6) 3 one in \<open>auto simp: block_at_def\<close>)
  qed
qed

text \<open>An alignment by pairs: their blocks are one, and their positions are those of the blocks.\<close>

definition aligned_by :: "dp_args \<Rightarrow> alignment_pair list \<Rightarrow> ustring list \<Rightarrow> ustring list \<Rightarrow> bool" where
  "aligned_by a ps s t \<longleftrightarrow> is_alignment a (map block_of ps) s t \<and> spans 0 0 ps"

lemma aligned_texts: "aligned_by a ps s t \<Longrightarrow> s_text ps = s \<and> t_text ps = t"
  by (auto simp: aligned_by_def is_alignment_def block_of_def comp_def)

lemma aligned_snoc:
  assumes "aligned_by a ps (take (i - p) s) (take (j - q) t)" and "p \<le> i" "q \<le> j" "i \<le> length s" "j \<le> length t"
    and "block_of r = block_at s t p q i j" and "legal_block a (block_of r)"
    and "span_ok (i - p) (s_tokens r) (s_start r) (s_end r)" "span_ok (j - q) (t_tokens r) (t_start r) (t_end r)"
  shows "aligned_by a (ps @ [r]) (take i s) (take j t)"
  using assms aligned_texts[OF assms(1)] take_slice[of "i - p" i s] take_slice[of "j - q" j t]
  by (auto simp: aligned_by_def is_alignment_def spans_append block_at_def block_of_def min_absorb1 comp_def)

lemma traceback_step:
  assumes "i \<le> length s" "j \<le> length t" and "0 < i + j" and "snd (dp_table a s t (i, j)) = m" and "move_size m = (p, q)"
  shows "\<exists>r. traceback (Suc n) (dp_table a s t) s t i j acc = traceback n (dp_table a s t) s t (i - p) (j - q) (r # acc)
    \<and> block_of r = block_at s t p q i j
    \<and> span_ok (i - p) (s_tokens r) (s_start r) (s_end r) \<and> span_ok (j - q) (t_tokens r) (t_start r) (t_end r)"
proof -
  obtain v where v: "dp_table a s t (i, j) = (v, m)" using assms(4) by (cases "dp_table a s t (i, j)") simp
  note M = cell_move[OF assms(1-3) v assms(5)]
  have one: "1 \<le> i \<Longrightarrow> Prelude.slice (i - 1) i s = [s ! (i - 1)]" "1 \<le> j \<Longrightarrow> Prelude.slice (j - 1) j t = [t ! (j - 1)]"
    using assms(1,2) slice_one by simp_all
  have nz: "\<not> (i = 0 \<and> j = 0)" using assms(3) by simp
  have len: "length (Prelude.slice (i - p) i s) = p" "length (Prelude.slice (j - q) j t) = q"
    using M assms(1,2) by simp_all
  define r where "r = new_pair (Prelude.slice (i - p) i s) (Prelude.slice (j - q) j t)
      (if p = 0 then - 1 else int i - int p) (if p = 0 then - 1 else int i)
      (if q = 0 then - 1 else int j - int q) (if q = 0 then - 1 else int j)"
  have "traceback (Suc n) (dp_table a s t) s t i j acc = traceback n (dp_table a s t) s t (i - p) (j - q) (r # acc)"
    using M assms(5) one nz unfolding traceback.simps assms(4) r_def by (cases m) auto
  moreover have "block_of r = block_at s t p q i j"
    by (simp add: r_def new_pair_def block_of_def block_at_def)
  moreover have "span_ok (i - p) (s_tokens r) (s_start r) (s_end r)" "span_ok (j - q) (t_tokens r) (t_start r) (t_end r)"
    using M len by (auto simp: r_def new_pair_def span_ok_def of_nat_diff)
  ultimately show ?thesis by blast
qed

lemma traceback_aligned:
  assumes "i \<le> length s" "j \<le> length t" "i + j \<le> n"
  shows "\<exists>ps. traceback n (dp_table a s t) s t i j acc = ps @ acc \<and> aligned_by a ps (take i s) (take j t) \<and>
    alignment_score a (map block_of ps) = fst (dp_table a s t (i, j))"
  using assms
proof (induction n arbitrary: i j acc)
  case 0
  then show ?case
    by (auto simp: aligned_by_def is_alignment_def alignment_score_def dp_table_cases(1))
next
  case (Suc n)
  show ?case
  proof (cases "i = 0 \<and> j = 0")
    case True
    then show ?thesis
      by (auto simp: aligned_by_def is_alignment_def alignment_score_def dp_table_cases(1))
  next
    case False
    obtain v m where v: "dp_table a s t (i, j) = (v, m)" by fastforce
    obtain p q where pq: "move_size m = (p, q)" by fastforce
    have ij: "0 < i + j" using False by simp
    note M = cell_move[OF Suc.prems(1,2) ij v pq]
    obtain r where r: "traceback (Suc n) (dp_table a s t) s t i j acc =
        traceback n (dp_table a s t) s t (i - p) (j - q) (r # acc)"
      "block_of r = block_at s t p q i j"
      "span_ok (i - p) (s_tokens r) (s_start r) (s_end r)" "span_ok (j - q) (t_tokens r) (t_start r) (t_end r)"
      using traceback_step[OF Suc.prems(1,2) ij _ pq, of a n acc] v by auto
    have "i - p \<le> length s" "j - q \<le> length t" "i - p + (j - q) \<le> n" using M Suc.prems by linarith+
    from Suc.IH[OF this, of "r # acc"] obtain ps where ps:
      "traceback n (dp_table a s t) s t (i - p) (j - q) (r # acc) = ps @ r # acc"
      "aligned_by a ps (take (i - p) s) (take (j - q) t)"
      "alignment_score a (map block_of ps) = fst (dp_table a s t (i - p, j - q))" by blast
    have "aligned_by a (ps @ [r]) (take i s) (take j t)"
      using M Suc.prems r by (intro aligned_snoc[OF ps(2)]) simp_all
    moreover have "alignment_score a (map block_of (ps @ [r])) = fst (dp_table a s t (i, j))"
      using ps(3) M r(2) v by (simp add: alignment_score_def)
    ultimately show ?thesis
      using r(1) ps(1) by (intro exI[of _ "ps @ [r]"]) simp
  qed
qed

lemma align_dp_aligned:
  "aligned_by a (fst (align_dp a s t)) s t"
  "alignment_score a (map block_of (fst (align_dp a s t))) = snd (align_dp a s t)"
  using traceback_aligned[of "length s" s "length t" t "length s + length t" a "[]"]
  by (auto simp: align_dp_def Let_def)

text \<open>
  C24: the dynamic program finds a best alignment: its pairs are an alignment of the two sequences, at the
  positions they say; the score returned is the score of that alignment; and no alignment scores higher.
\<close>

theorem align_dp_optimal:
  assumes "is_alignment a bs s t"
  shows "is_alignment a (map block_of (fst (align_dp a s t))) s t \<and> spans 0 0 (fst (align_dp a s t)) \<and>
    alignment_score a (map block_of (fst (align_dp a s t))) = snd (align_dp a s t) \<and>
    alignment_score a bs \<le> snd (align_dp a s t)"
  using align_dp_aligned[of a s t] table_upper[of a bs "length s" s "length t" t] assms
  by (auto simp: aligned_by_def is_alignment_def align_dp_def Let_def)

definition demo_args :: dp_args where
  "demo_args = default_args 4"

definition demo_student :: "ustring list" where
  "demo_student = [[97, 98]]"

definition demo_teacher :: "ustring list" where
  "demo_teacher = [[97], [98]]"

theorem align_dp_optimal_witness:
  "is_alignment demo_args (map block_of (fst (align_dp demo_args demo_student demo_teacher))) demo_student demo_teacher \<and>
   alignment_score demo_args [([[97, 98]], [[97]]), ([], [[98]])]
     \<le> snd (align_dp demo_args demo_student demo_teacher) \<and>
   snd (align_dp demo_args demo_student demo_teacher) = 3"
proof -
  have "is_alignment demo_args [([[97, 98]], [[97]]), ([], [[98]])] demo_student demo_teacher"
    by code_simp
  note align_dp_optimal[OF this]
  moreover have "snd (align_dp demo_args demo_student demo_teacher) = 3" by code_simp
  ultimately show ?thesis by blast
qed


end
