(* ===== verification/TokenSpans.thy ===== *)
theory TokenSpans
  imports TokenAlign
begin

text \<open>
  The positions of an alignment (\<open>TokenAligner\<close>, continued): every stage after the dynamic program, from the
  anchors to the tensors of chunk indices, covers both token sequences without gap or overlap.
\<close>

section \<open>From segments to the whole\<close>

text \<open>The pairs cover the tokens \<open>s\<close> and \<open>t\<close>, from positions \<open>a\<close> and \<open>b\<close> on, and none is empty.\<close>

definition cover_from :: "nat \<Rightarrow> nat \<Rightarrow> alignment_pair list \<Rightarrow> ustring list \<Rightarrow> ustring list \<Rightarrow> bool" where
  "cover_from a b ps s t \<longleftrightarrow> spans a b ps \<and> s_text ps = s \<and> t_text ps = t \<and>
     (\<forall>p\<in>set ps. s_tokens p \<noteq> [] \<or> t_tokens p \<noteq> [])"

lemma cover_nil [simp]: "cover_from a b [] s t \<longleftrightarrow> s = [] \<and> t = []"
  by (auto simp: cover_from_def)

lemma cover_append:
  "cover_from a b ps s t \<Longrightarrow> cover_from (a + length s) (b + length t) qs s' t' \<Longrightarrow>
     cover_from a b (ps @ qs) (s @ s') (t @ t')"
  by (auto simp: cover_from_def spans_append)

lemma cover_split:
  assumes "cover_from a b (ps @ qs) s t"
  shows "cover_from a b ps (s_text ps) (t_text ps)"
    "cover_from (a + length (s_text ps)) (b + length (t_text ps)) qs (s_text qs) (t_text qs)"
    "s = s_text ps @ s_text qs" "t = t_text ps @ t_text qs"
  using assms by (auto simp: cover_from_def spans_append)

lemma cover_texts: "cover_from a b ps s t \<Longrightarrow> s = s_text ps \<and> t = t_text ps"
  by (auto simp: cover_from_def)

lemma cover_single:
  "cover_from a b [p] s t \<longleftrightarrow> span_ok a (s_tokens p) (s_start p) (s_end p) \<and> span_ok b (t_tokens p) (t_start p) (t_end p)
     \<and> s_tokens p = s \<and> t_tokens p = t \<and> (s \<noteq> [] \<or> t \<noteq> [])"
  by (auto simp: cover_from_def)

lemma cover_replace:
  assumes "cover_from a b (ps @ qs) s t" and "cover_from a b ps' (s_text ps) (t_text ps)"
    and "cover_from (a + length (s_text ps)) (b + length (t_text ps)) qs' (s_text qs) (t_text qs)"
  shows "cover_from a b (ps' @ qs') s t"
  using cover_append[OF assms(2,3)] cover_split(3,4)[OF assms(1)] by simp

lemma align_dp_covers: "cover_from 0 0 (fst (align_dp a s t)) s t"
proof -
  have "legal_block a (block_of p) \<Longrightarrow> s_tokens p \<noteq> [] \<or> t_tokens p \<noteq> []" for p
    by (auto simp: block_of_def)
  then show ?thesis
    using align_dp_aligned(1)[of a s t] aligned_texts[OF align_dp_aligned(1)[of a s t]]
    by (auto simp: cover_from_def aligned_by_def is_alignment_def list_all_iff)
qed

text \<open>Splitting and shifting\<close>

lemma split_spans:
  "k \<le> length ss \<Longrightarrow> length tt = length ss \<Longrightarrow>
     cover_from a b (map (\<lambda>m. new_pair [ss ! m] [tt ! m] (int a + int m) (int a + int m + 1)
       (int b + int m) (int b + int m + 1)) [0..<k]) (take k ss) (take k tt)"
proof (induction k)
  case (Suc k)
  have "cover_from (a + k) (b + k) [new_pair [ss ! k] [tt ! k] (int a + int k) (int a + int k + 1)
      (int b + int k) (int b + int k + 1)] [ss ! k] [tt ! k]"
    by (simp add: cover_single new_pair_def span_ok_def)
  with Suc cover_append[OF Suc.IH] show ?case
    by (simp add: take_Suc_conv_app_nth)
qed simp

lemma split_pair_at:
  "splittable p \<Longrightarrow> cover_from a b (split_pair p (int a) (int b)) (s_tokens p) (t_tokens p)"
proof -
  assume "splittable p"
  then have eq: "t_tokens p = s_tokens p" by (simp add: splittable_def)
  have "cover_from a b (split_pair p (int a) (int b)) (take (length (s_tokens p)) (s_tokens p))
      (take (length (s_tokens p)) (s_tokens p))"
    unfolding split_pair_def eq by (rule split_spans) simp_all
  then show ?thesis by (simp add: eq)
qed

lemma split_pair_covers:
  assumes "splittable p" and "span_ok a (s_tokens p) (s_start p) (s_end p)" "span_ok b (t_tokens p) (t_start p) (t_end p)"
  shows "cover_from a b (split_pair p (s_start p) (t_start p)) (s_tokens p) (t_tokens p)"
proof -
  have "s_start p = int a" "t_start p = int b"
    using assms by (auto simp: splittable_def span_ok_def split: if_splits)
  then show ?thesis using split_pair_at[OF assms(1), of a b] by simp
qed

lemma shift_span:
  "span_ok a ts x y \<Longrightarrow> span_ok (a + d) ts (shift_index (int d) x) (shift_index (int d) y)"
  by (auto simp: span_ok_def shift_index_def split: if_splits)

lemma shift_pair_covers:
  assumes "cover_from a b [p] s t"
  shows "cover_from (a + i) (b + j) (shift_pair (int i) (int j) p) s t"
proof (cases "splittable p")
  case True
  then have "s_start p = int a" "t_start p = int b"
    using assms by (auto simp: cover_single span_ok_def splittable_def split: if_splits)
  then have "shift_pair (int i) (int j) p = split_pair p (int (a + i)) (int (b + j))"
    using True by (simp add: shift_pair_def shift_index_def Let_def)
  with split_pair_at[OF True, of "a + i" "b + j"] assms show ?thesis by (simp add: cover_single)
next
  case False
  then have "shift_pair (int i) (int j) p = [new_pair (s_tokens p) (t_tokens p)
      (shift_index (int i) (s_start p)) (shift_index (int i) (s_end p))
      (shift_index (int j) (t_start p)) (shift_index (int j) (t_end p))]"
    by (simp add: shift_pair_def Let_def)
  with assms shift_span[of a "s_tokens p" "s_start p" "s_end p" i]
    shift_span[of b "t_tokens p" "t_start p" "t_end p" j]
  show ?thesis by (auto simp: cover_single new_pair_def)
qed

lemma shift_pairs_covers:
  "cover_from a b ps s t \<Longrightarrow> cover_from (a + i) (b + j) (shift_pairs ps (int i) (int j)) s t"
proof (induction ps arbitrary: a b s t)
  case (Cons p ps)
  have "cover_from a b ([p] @ ps) s t" using Cons.prems by simp
  note sp = cover_split[OF this]
  have "cover_from (a + i) (b + j) (shift_pair (int i) (int j) p) (s_tokens p) (t_tokens p)"
    using shift_pair_covers[OF sp(1)] by simp
  moreover have "cover_from (a + length (s_tokens p) + i) (b + length (t_tokens p) + j)
      (shift_pairs ps (int i) (int j)) (s_text ps) (t_text ps)"
    using Cons.IH[OF sp(2)] by simp
  moreover have "a + length (s_tokens p) + i = a + i + length (s_tokens p)"
    "b + length (t_tokens p) + j = b + j + length (t_tokens p)" by simp_all
  ultimately have "cover_from (a + i) (b + j) (shift_pair (int i) (int j) p @ shift_pairs ps (int i) (int j))
      (s_tokens p @ s_text ps) (t_tokens p @ t_text ps)"
    using cover_append by metis
  with sp(3,4) show ?case by (simp add: shift_pairs_def)
qed (simp add: shift_pairs_def)

lemma segment_covers: "cover_from i j (segment_pairs a S T i j) S T"
  using shift_pairs_covers[OF align_dp_covers, of i j a S T] by (auto simp: segment_pairs_def)

lemma anchor_covers:
  assumes "i + k \<le> length s" "j + k \<le> length t"
  shows "cover_from i j (anchor_pairs s t (i, j, k)) (Prelude.slice i (i + k) s) (Prelude.slice j (j + k) t)"
proof -
  have "anchor_pairs s t (i, j, k) = map (\<lambda>m. new_pair [drop i s ! m] [drop j t ! m] (int i + int m) (int i + int m + 1)
      (int j + int m) (int j + int m + 1)) [0..<k]"
    using assms by (auto simp: anchor_pairs_def)
  moreover have "cover_from i j (map (\<lambda>m. new_pair [drop i s ! m] [drop j t ! m] (int i + int m) (int i + int m + 1)
      (int j + int m) (int j + int m + 1)) [0..<k]) (take k (drop i s)) (take k (drop j t))"
  proof -
    have "cover_from i j (map (\<lambda>m. new_pair [take k (drop i s) ! m] [take k (drop j t) ! m] (int i + int m)
        (int i + int m + 1) (int j + int m) (int j + int m + 1)) [0..<k]) (take k (drop i s)) (take k (drop j t))"
      using split_spans[of k "take k (drop i s)" "take k (drop j t)" i j] assms by simp
    then show ?thesis
      by (rule back_subst[where P = "\<lambda>ps. cover_from i j ps _ _"]) (rule map_cong, simp_all)
  qed
  ultimately show ?thesis by (simp add: Prelude.slice_def)
qed

text \<open>Anchors that are in order on both sides\<close>

fun anchors_ok :: "nat \<Rightarrow> nat \<Rightarrow> nat \<Rightarrow> nat \<Rightarrow> (nat \<times> nat \<times> nat) list \<Rightarrow> bool" where
  "anchors_ok n m a b [] = (a \<le> n \<and> b \<le> m)"
| "anchors_ok n m a b ((i, j, k) # rest) = (a \<le> i \<and> b \<le> j \<and> i + k \<le> n \<and> j + k \<le> m \<and> anchors_ok n m (i + k) (j + k) rest)"

lemma slice_drop: "a \<le> i \<Longrightarrow> Prelude.slice a i xs @ drop i xs = drop a xs"
  by (metis Prelude.slice_def append_take_drop_id drop_drop le_add_diff_inverse2)

lemma anchored_covers:
  "anchors_ok (length s) (length t) a b valid \<Longrightarrow> cover_from a b (anchored args s t a b valid) (drop a s) (drop b t)"
proof (induction valid arbitrary: a b)
  case Nil
  then show ?case using segment_covers by simp
next
  case (Cons v valid)
  obtain i j k where v: "v = (i, j, k)" by (cases v)
  have o: "a \<le> i" "b \<le> j" "i + k \<le> length s" "j + k \<le> length t" "anchors_ok (length s) (length t) (i + k) (j + k) valid"
    using Cons.prems by (simp_all add: v)
  have "cover_from i j (anchor_pairs s t (i, j, k) @ anchored args s t (i + k) (j + k) valid) (drop i s) (drop j t)"
    using cover_append[OF anchor_covers[OF o(3,4)]] Cons.IH[OF o(5)] o(3,4) slice_drop[of i "i + k" s] slice_drop[of j "j + k" t]
    by (metis add_diff_cancel_left' le_add1 slice_length)
  moreover have "cover_from a b (segment_pairs args (Prelude.slice a i s) (Prelude.slice b j t) a b)
      (Prelude.slice a i s) (Prelude.slice b j t)"
    by (rule segment_covers)
  moreover have "a + length (Prelude.slice a i s) = i" "b + length (Prelude.slice b j t) = j" using o by simp_all
  ultimately show ?case
    using cover_append[of a b _ "Prelude.slice a i s" "Prelude.slice b j t" _ "drop i s" "drop j t"]
      slice_drop[OF o(1), of s] slice_drop[OF o(2), of t]
    by (simp add: v)
qed

text \<open>The anchors that the code selects are in order.\<close>

lemma ngrams_length [simp]: "length (ngrams k ts) = length ts + 1 - k"
  by (simp add: ngrams_def)

lemma potential_bounds:
  assumes "(i, j, l) \<in> set (potential_anchors s t k)"
  shows "l = k \<and> i + k \<le> length s \<and> j + k \<le> length t"
proof -
  obtain m where m: "m < length s + 1 - k" "(i, j, l) \<in> set (case first_ix (\<lambda>g. g = ngrams k s ! m) (ngrams k t) of
      Some j \<Rightarrow> [(m, j, k)] | None \<Rightarrow> [])"
    using assms by (auto simp: potential_anchors_def Let_def split: if_splits)
  then obtain j' where j': "first_ix (\<lambda>g. g = ngrams k s ! m) (ngrams k t) = Some j'" and e: "(i, j, l) = (m, j', k)"
    by (cases "first_ix (\<lambda>g. g = ngrams k s ! m) (ngrams k t)") auto
  have "j' < length t + 1 - k" using first_ix_Some[OF j'] by simp
  with m(1) e show ?thesis by auto
qed

abbreviation s_range :: "nat \<times> nat \<times> nat \<Rightarrow> nat set" where
  "s_range x \<equiv> {fst x..<fst x + snd (snd x)}"

lemma select_subset: "set (select_anchors xs us ut) \<subseteq> set xs"
  by (induction xs us ut rule: select_anchors.induct) auto

lemma select_free: "x \<in> set (select_anchors xs us ut) \<Longrightarrow> s_range x \<inter> us = {}"
proof (induction xs us ut rule: select_anchors.induct)
  case (2 i j k rest us ut)
  show ?case
  proof (cases "{i..<i + k} \<inter> us = {} \<and> {j..<j + k} \<inter> ut = {}")
    case True
    then have "x = (i, j, k) \<or> x \<in> set (select_anchors rest (us \<union> {i..<i + k}) (ut \<union> {j..<j + k}))"
      using 2(3) by simp
    then show ?thesis
    proof
      assume "x \<in> set (select_anchors rest (us \<union> {i..<i + k}) (ut \<union> {j..<j + k}))"
      with 2(1)[OF True] show ?thesis by blast
    qed (use True in simp)
  next
    case False
    with 2(3) have "x \<in> set (select_anchors rest us ut)" by (simp only: select_anchors.simps if_False)
    with 2(2)[OF False] show ?thesis by blast
  qed
qed simp

lemma select_disjoint:
  "\<forall>x\<in>set xs. 0 < snd (snd x) \<Longrightarrow>
     sorted_wrt (\<lambda>x y. s_range x \<inter> s_range y = {}) (select_anchors xs us ut) \<and> distinct (select_anchors xs us ut)"
proof (induction xs us ut rule: select_anchors.induct)
  case (2 i j k rest us ut)
  let ?r = "select_anchors rest (us \<union> {i..<i + k}) (ut \<union> {j..<j + k})"
  have pos: "\<forall>x\<in>set rest. 0 < snd (snd x)" "0 < k" using 2(3) by simp_all
  show ?case
  proof (cases "{i..<i + k} \<inter> us = {} \<and> {j..<j + k} \<inter> ut = {}")
    case True
    have free: "{i..<i + k} \<inter> s_range x = {}" if "x \<in> set ?r" for x
      using select_free[OF that] by blast
    moreover have "(i, j, k) \<notin> set ?r"
    proof
      assume "(i, j, k) \<in> set ?r"
      from free[OF this] have "{i..<i + k} = {}" by simp
      with pos(2) show False by simp
    qed
    ultimately show ?thesis
      using 2(1)[OF True pos(1)] True by (simp only: select_anchors.simps if_True sorted_wrt.simps distinct.simps) simp
  next
    case False
    with 2(2)[OF False pos(1)] show ?thesis by (simp only: select_anchors.simps if_False)
  qed
qed simp

lemma sorted_anchors:
  assumes "\<forall>x\<in>set xs. 0 < snd (snd x)" and "sorted_wrt (\<lambda>x y. s_range x \<inter> s_range y = {}) xs" "distinct xs"
  shows "sorted_wrt (\<lambda>x y. fst x + snd (snd x) \<le> fst y) (sort xs)"
proof -
  have dis: "s_range x \<inter> s_range y = {}" if "x \<in> set xs" "y \<in> set xs" "x \<noteq> y" for x y
  proof -
    obtain m n where "m < length xs" "n < length xs" "xs ! m = x" "xs ! n = y"
      using \<open>x \<in> set xs\<close> \<open>y \<in> set xs\<close> by (auto simp: in_set_conv_nth)
    with \<open>x \<noteq> y\<close> assms(2) show ?thesis
      by (cases m n rule: linorder_cases) (auto dest: sorted_wrt_nth_less)
  qed
  have "sorted_wrt (<) (sort xs)" using assms(3) by (simp add: strict_sorted_iff)
  then show ?thesis
  proof (rule sorted_wrt_mono_rel[rotated])
    fix x y assume xy: "x \<in> set (sort xs)" "y \<in> set (sort xs)" "x < y"
    then have "s_range x \<inter> s_range y = {}" using dis[of x y] by auto
    moreover have "fst x \<le> fst y" using xy(3) by (auto simp: less_prod_def)
    moreover have "fst y \<in> s_range y" using assms(1) xy(2) by simp
    ultimately show "fst x + snd (snd x) \<le> fst y" by (cases "fst y < fst x + snd (snd x)") auto
  qed
qed

lemma validate_ok:
  assumes "sorted_wrt (\<lambda>x y. fst x + snd (snd x) \<le> fst y) xs"
    and "\<forall>x\<in>set xs. fst x + snd (snd x) \<le> length s \<and> fst (snd x) + snd (snd x) \<le> length t \<and> a \<le> fst x"
    and "a \<le> length s" "b \<le> length t" "last_j = int b - 1"
  shows "anchors_ok (length s) (length t) a b (validate_anchors s t last_j xs)"
  using assms
proof (induction xs arbitrary: a b last_j)
  case (Cons x xs)
  obtain i j k where x: "x = (i, j, k)" by (cases x)
  show ?case
  proof (cases "last_j < int j \<and> Prelude.slice i (i + k) s = Prelude.slice j (j + k) t")
    case True
    have "anchors_ok (length s) (length t) (i + k) (j + k) (validate_anchors s t (int j + int k - 1) xs)"
      using Cons.prems by (intro Cons.IH) (auto simp: x)
    with True Cons.prems show ?thesis by (simp add: x)
  next
    case False
    have "anchors_ok (length s) (length t) a b (validate_anchors s t last_j xs)"
      using Cons.prems by (intro Cons.IH) auto
    then show ?thesis using False by (auto simp: x)
  qed
qed simp

lemma anchors_in_order:
  assumes "0 \<notin> set lens"
  shows "anchors_ok (length s) (length t) 0 0 (anchors s t lens)"
proof -
  define pot where "pot = sort_key (\<lambda>(i, j, k). (- int k, i, j)) (concat (map (potential_anchors s t) lens))"
  have pot: "0 < snd (snd x) \<and> fst x + snd (snd x) \<le> length s \<and> fst (snd x) + snd (snd x) \<le> length t"
    if "x \<in> set pot" for x
  proof -
    have "x \<in> (\<Union>k\<in>set lens. set (potential_anchors s t k))"
      using that unfolding pot_def set_sort set_concat set_map by blast
    then obtain k where k: "k \<in> set lens" "x \<in> set (potential_anchors s t k)" by blast
    obtain i j l where x: "x = (i, j, l)" by (cases x)
    have "k \<noteq> 0" using k(1) assms by metis
    with k(2) x potential_bounds[of i j l s t k] show ?thesis by simp
  qed
  let ?sel = "select_anchors pot {} {}"
  have sub: "set ?sel \<subseteq> set pot" by (rule select_subset)
  have "sorted_wrt (\<lambda>x y. s_range x \<inter> s_range y = {}) ?sel \<and> distinct ?sel"
    using pot by (intro select_disjoint) blast
  then have "sorted_wrt (\<lambda>x y. fst x + snd (snd x) \<le> fst y) (sort ?sel)"
    using pot sub by (intro sorted_anchors) blast+
  then show ?thesis
    using pot sub by (auto simp: anchors_def Let_def simp flip: pot_def intro!: validate_ok)
qed

lemma align_with_anchors_covers:
  "0 \<notin> set lens \<Longrightarrow> cover_from 0 0 (fst (align_with_anchors a lens s t)) s t"
  using anchored_covers[OF anchors_in_order[of lens s t], of a] align_dp_covers[of a s t]
  by (simp add: align_with_anchors_def Let_def)

text \<open>Runs and chunks: the smallest start and the largest end\<close>

lemma evens_pairs: "evens (concat (map (\<lambda>p. if P p then [f p, g p] else []) ps)) = map f (filter P ps)"
  by (induction ps) auto

lemma odds_pairs: "odds (concat (map (\<lambda>p. if P p then [f p, g p] else []) ps)) = map g (filter P ps)"
proof (induction ps)
  case (Cons p ps)
  have "odds (x # y # zs) = y # odds zs" for x y :: 'a and zs by (cases zs) (simp_all add: odds_def)
  with Cons show ?case by simp
qed (simp add: odds_def)

text \<open>One side of a list of pairs\<close>

type_synonym side = "ustring list \<times> int \<times> int"

definition s_side :: "alignment_pair \<Rightarrow> side" where
  "s_side p = (s_tokens p, s_start p, s_end p)"

definition t_side :: "alignment_pair \<Rightarrow> side" where
  "t_side p = (t_tokens p, t_start p, t_end p)"

fun side_ok :: "nat \<Rightarrow> side list \<Rightarrow> bool" where
  "side_ok a [] = True"
| "side_ok a ((ts, x, y) # xs) = (span_ok a ts x y \<and> side_ok (a + length ts) xs)"

lemma spans_sides: "spans a b ps \<longleftrightarrow> side_ok a (map s_side ps) \<and> side_ok b (map t_side ps)"
  by (induction ps arbitrary: a b) (auto simp: s_side_def t_side_def)

lemma side_bounds:
  assumes "side_ok a xs" and "concat (map fst xs) \<noteq> []"
  shows "Min ((fst \<circ> snd) ` set (filter (\<lambda>x. fst x \<noteq> []) xs)) = int a \<and>
    Max ((snd \<circ> snd) ` set (filter (\<lambda>x. fst x \<noteq> []) xs)) = int (a + length (concat (map fst xs)))"
  using assms
proof (induction xs arbitrary: a)
  case (Cons x xs)
  obtain ts u v where x: "x = (ts, u, v)" by (cases x)
  let ?S = "set (filter (\<lambda>x. fst x \<noteq> []) xs)"
  show ?case
  proof (cases "concat (map fst xs) = []")
    case True
    then have e: "filter (\<lambda>x. fst x \<noteq> []) xs = []" by (auto simp: filter_empty_conv)
    then have "filter (\<lambda>x. fst x \<noteq> []) (x # xs) = [x]" using Cons.prems(2) True by (auto simp: x)
    moreover have "ts \<noteq> []" using Cons.prems(2) True by (auto simp: x)
    ultimately show ?thesis using Cons.prems True by (simp add: x span_ok_def)
  next
    case False
    then obtain z where "z \<in> set xs" "fst z \<noteq> []" by auto
    then have "z \<in> ?S" by simp
    then have ne: "?S \<noteq> {}" by (metis empty_iff)
    have IH: "Min ((fst \<circ> snd) ` ?S) = int (a + length ts)"
      "Max ((snd \<circ> snd) ` ?S) = int (a + length ts + length (concat (map fst xs)))"
      using Cons.IH[of "a + length ts"] Cons.prems(1) False by (simp_all add: x)
    show ?thesis
    proof (cases "ts = []")
      case True
      then have "filter (\<lambda>x. fst x \<noteq> []) (x # xs) = filter (\<lambda>x. fst x \<noteq> []) xs" by (simp add: x)
      with IH True show ?thesis by (simp only:) (simp add: x)
    next
      case ts: False
      then have "filter (\<lambda>x. fst x \<noteq> []) (x # xs) = x # filter (\<lambda>x. fst x \<noteq> []) xs" by (simp add: x)
      then have "set (filter (\<lambda>x. fst x \<noteq> []) (x # xs)) = insert x ?S" by simp
      moreover have "u = int a" "v = int (a + length ts)" using Cons.prems(1) ts by (auto simp: x span_ok_def)
      moreover have "Min ((fst \<circ> snd) ` insert x ?S) = min u (Min ((fst \<circ> snd) ` ?S))"
        "Max ((snd \<circ> snd) ` insert x ?S) = max v (Max ((snd \<circ> snd) ` ?S))"
        using ne by (simp_all only: image_insert Min_insert Max_insert finite_imageI finite_set image_is_empty x comp_apply fst_conv snd_conv simp_thms)
      ultimately show ?thesis using IH by (simp only:) (simp add: x)
    qed
  qed
qed simp

text \<open>The bounds of a run, as the code computes them, are those of one pair over the whole run.\<close>

lemma side_index:
  assumes "side_ok a xs"
  shows "span_ok a (concat (map fst xs))
    (min_or_none (concat (map (\<lambda>x. if fst x \<noteq> [] then [fst (snd x), snd (snd x)] else []) xs)))
    (max_or_none (concat (map (\<lambda>x. if fst x \<noteq> [] then [fst (snd x), snd (snd x)] else []) xs)))"
proof (cases "concat (map fst xs) = []")
  case True
  then have "concat (map (\<lambda>x. if fst x \<noteq> [] then [fst (snd x), snd (snd x)] else []) xs) = []" by auto
  with True show ?thesis by (simp only: span_ok_def min_or_none_def max_or_none_def) simp
next
  case False
  let ?idx = "concat (map (\<lambda>x. if fst x \<noteq> [] then [fst (snd x), snd (snd x)] else []) xs)"
  have "evens ?idx = map (\<lambda>x. fst (snd x)) (filter (\<lambda>x. fst x \<noteq> []) xs)"
    "odds ?idx = map (\<lambda>x. snd (snd x)) (filter (\<lambda>x. fst x \<noteq> []) xs)"
    by (rule evens_pairs, rule odds_pairs)
  moreover have "?idx \<noteq> []" using False by auto
  ultimately have "min_or_none ?idx = int a" "max_or_none ?idx = int (a + length (concat (map fst xs)))"
    using side_bounds[OF assms False] by (simp_all only: min_or_none_def max_or_none_def set_map comp_def if_True simp_thms)
  with False show ?thesis by (simp only: span_ok_def) simp
qed

lemma cover_sides:
  "cover_from a b ps s t \<longleftrightarrow> side_ok a (map s_side ps) \<and> side_ok b (map t_side ps) \<and>
     concat (map fst (map s_side ps)) = s \<and> concat (map fst (map t_side ps)) = t \<and>
     (\<forall>p\<in>set ps. s_tokens p \<noteq> [] \<or> t_tokens p \<noteq> [])"
  by (auto simp: cover_from_def spans_sides s_side_def t_side_def comp_def)

lemma side_started: "side_ok a xs \<Longrightarrow> x \<in> set xs \<Longrightarrow> fst x \<noteq> [] \<Longrightarrow> fst (snd x) \<noteq> - 1"
  by (induction a xs rule: side_ok.induct) (auto simp: span_ok_def split: if_splits)

lemma combine_run_covers:
  assumes "cover_from a b run s t" and "run \<noteq> []"
  shows "cover_from a b [combine_run run] s t"
proof -
  note c = assms(1)[unfolded cover_sides]
  have ne: "s \<noteq> [] \<or> t \<noteq> []"
  proof -
    obtain p where "p \<in> set run" using assms(2) by (cases run) auto
    with c show ?thesis by (auto simp: s_side_def t_side_def)
  qed
  have started: "s_tokens p \<noteq> [] \<Longrightarrow> s_start p \<noteq> - 1" "t_tokens p \<noteq> [] \<Longrightarrow> t_start p \<noteq> - 1" if "p \<in> set run" for p
    using that c side_started[of a "map s_side run" "s_side p"] side_started[of b "map t_side run" "t_side p"]
    by (simp_all add: s_side_def t_side_def)
  have si: "concat (map (\<lambda>p. if s_tokens p \<noteq> [] \<and> s_start p \<noteq> - 1 then [s_start p, s_end p] else []) run) =
      concat (map (\<lambda>x. if fst x \<noteq> [] then [fst (snd x), snd (snd x)] else []) (map s_side run))"
    unfolding map_map using started by (intro arg_cong[of _ _ concat] map_cong) (auto simp: s_side_def)
  have ti: "concat (map (\<lambda>p. if t_tokens p \<noteq> [] \<and> t_start p \<noteq> - 1 then [t_start p, t_end p] else []) run) =
      concat (map (\<lambda>x. if fst x \<noteq> [] then [fst (snd x), snd (snd x)] else []) (map t_side run))"
    unfolding map_map using started by (intro arg_cong[of _ _ concat] map_cong) (auto simp: t_side_def)
  have st: "concat (map s_tokens run) = concat (map fst (map s_side run))"
    "concat (map t_tokens run) = concat (map fst (map t_side run))"
    by (simp_all add: s_side_def t_side_def comp_def)
  have "span_ok a s (s_start (combine_run run)) (s_end (combine_run run))"
    "span_ok b t (t_start (combine_run run)) (t_end (combine_run run))"
    "s_tokens (combine_run run) = s" "t_tokens (combine_run run) = t"
    using c side_index[of a "map s_side run"] side_index[of b "map t_side run"]
    unfolding combine_run_def Let_def si ti st new_pair_def by auto
  with ne show ?thesis by (simp add: cover_single)
qed

lemma combine_loop_covers: "cover_from a b ps s t \<Longrightarrow> cover_from a b (combine_loop bd i ps) s t"
proof (induction bd i ps arbitrary: a b s t rule: combine_loop.induct)
  case (2 bd i p ps)
  let ?run = "p # misaligned_run bd (i + 1) ps"
  show ?case
  proof (cases "i < bd \<and> \<not> pair_matches p \<and> ps \<noteq> [] \<and> 2 \<le> length ?run")
    case True
    have e: "?run @ drop (length ?run) (p # ps) = p # ps"
      using misaligned_run_take[of bd "i + 1" ps] append_take_drop_id[of "length ?run" "p # ps"] by simp
    have c: "cover_from a b (?run @ drop (length ?run) (p # ps)) s t" unfolding e by (rule 2(3))
    have "cover_from a b ([combine_run ?run] @ combine_loop bd (i + length ?run) (drop (length ?run) (p # ps))) s t"
      using cover_split(1)[OF c] 2(1)[OF True refl cover_split(2)[OF c]]
      by (intro cover_replace[OF c]) (auto intro: combine_run_covers)
    with True show ?thesis by (simp add: Let_def)
  next
    case False
    have c: "cover_from a b ([p] @ ps) s t" using 2(3) by simp
    have "cover_from a b ([p] @ combine_loop bd (i + 1) ps) s t"
      by (rule cover_replace[OF c cover_split(1)[OF c] 2(2)[OF False cover_split(2)[OF c]]])
    then show ?thesis unfolding combine_loop.simps if_not_P[OF False] by simp
  qed
qed simp

lemma combine_covers: "cover_from a b ps s t \<Longrightarrow> cover_from a b (combine_consecutive_misaligned th ps) s t"
  by (simp add: combine_consecutive_misaligned_def combine_loop_covers)

lemma place_sub_covers:
  assumes "cover_from 0 0 subs s t" and "s \<noteq> [] \<longrightarrow> s0 = int a" "t \<noteq> [] \<longrightarrow> t0 = int b"
  shows "cover_from a b (map (place_sub s0 t0) subs) s t"
proof -
  have "spans x y subs \<Longrightarrow> (s_text subs \<noteq> [] \<longrightarrow> s0 = int a) \<Longrightarrow> (t_text subs \<noteq> [] \<longrightarrow> t0 = int b) \<Longrightarrow>
      spans (a + x) (b + y) (map (place_sub s0 t0) subs)" for x y
  proof (induction subs arbitrary: x y)
    case (Cons p ps)
    have "span_ok (a + x) (s_tokens p) (s_start (place_sub s0 t0 p)) (s_end (place_sub s0 t0 p))"
      "span_ok (b + y) (t_tokens p) (t_start (place_sub s0 t0 p)) (t_end (place_sub s0 t0 p))"
      using Cons.prems by (auto simp: span_ok_def place_sub_def new_pair_def split: if_splits)
    with Cons.IH[of "x + length (s_tokens p)" "y + length (t_tokens p)"] Cons.prems show ?case
      by (simp add: place_sub_def new_pair_def add.assoc)
  qed simp
  from this[of 0 0] assms show ?thesis
    by (auto simp: cover_from_def place_sub_def new_pair_def comp_def)
qed

lemma repair_chunk_covers:
  assumes "cover_from a b chunk s t" and "chunk \<noteq> []" and "repair_chunk args chunk = Some out"
  shows "cover_from a b out s t"
proof -
  note c = assms(1)[unfolded cover_sides]
  have ne: "s \<noteq> [] \<or> t \<noteq> []"
  proof -
    obtain p where "p \<in> set chunk" using assms(2) by (cases chunk) auto
    with c show ?thesis by (auto simp: s_side_def t_side_def)
  qed
  obtain s_idx t_idx where f: "flatten_chunk chunk = (s, t, s_idx, t_idx)"
    and idx: "s_idx = concat (map (\<lambda>x. if fst x \<noteq> [] then [fst (snd x), snd (snd x)] else []) (map s_side chunk))"
      "t_idx = concat (map (\<lambda>x. if fst x \<noteq> [] then [fst (snd x), snd (snd x)] else []) (map t_side chunk))"
    using c by (simp add: flatten_chunk_def s_side_def t_side_def comp_def cong: if_cong)
  have sp: "span_ok a s (min_or_none s_idx) (max_or_none s_idx)" "span_ok b t (min_or_none t_idx) (max_or_none t_idx)"
    using side_index[of a "map s_side chunk"] side_index[of b "map t_side chunk"] c unfolding idx by simp_all
  let ?subs = "fst (align_dp (args\<lparr>ignore_leading_char_diff := False\<rparr>) s t)"
  have "out = map (place_sub (min_or_none s_idx) (min_or_none t_idx)) ?subs \<or>
      out = [new_pair s t (min_or_none s_idx) (max_or_none s_idx) (min_or_none t_idx) (max_or_none t_idx)]"
    using assms(3) by (auto simp: repair_chunk_def f Let_def split: if_splits)
  then show ?thesis
  proof
    assume "out = map (place_sub (min_or_none s_idx) (min_or_none t_idx)) ?subs"
    then show ?thesis
      using place_sub_covers[OF align_dp_covers] sp by (simp add: span_ok_def split: if_splits)
  next
    assume "out = [new_pair s t (min_or_none s_idx) (max_or_none s_idx) (min_or_none t_idx) (max_or_none t_idx)]"
    then show ?thesis using sp ne by (simp add: cover_single new_pair_def)
  qed
qed

lemma repair_loop_covers: "cover_from a b ps s t \<Longrightarrow> cover_from a b (repair_loop args ps) s t"
proof (induction args ps arbitrary: a b s t rule: repair_loop.induct)
  case (2 args cur rest)
  show ?case
  proof (cases "splittable cur")
    case True
    have c: "cover_from a b ([cur] @ rest) s t" using 2(4) by simp
    have "cover_from a b (split_pair cur (s_start cur) (t_start cur)) (s_tokens cur) (t_tokens cur)"
      using cover_split(1)[OF c] by (intro split_pair_covers True) (simp_all add: cover_single)
    with cover_replace[OF c, of _ "repair_loop args rest"] 2(1)[OF True cover_split(2)[OF c]] True show ?thesis by simp
  next
    case nosplit: False
    show ?thesis
    proof (cases "first_ix (\<lambda>p. \<not> pair_matches p) (cur # rest)")
      case None
      with nosplit 2(4) show ?thesis by simp
    next
      case (Some k)
      define bad where "bad = drop k (cur # rest)"
      have k: "k < length (cur # rest)" using first_ix_Some[OF Some] by blast
      then have ne: "bad \<noteq> []" by (simp add: bad_def)
      have c: "cover_from a b (take k (cur # rest) @ bad) s t" using 2(4) by (simp add: bad_def)
      let ?a = "a + length (s_text (take k (cur # rest)))" and ?b = "b + length (t_text (take k (cur # rest)))"
      note cb = cover_split(2)[OF c]
      show ?thesis
      proof (cases "first_repair args bad [2..<min 10 (length bad) + 1]")
        case None
        have d: "cover_from ?a ?b ([bad ! 0] @ drop 1 bad) (s_text bad) (t_text bad)"
          using cb ne by (cases bad) auto
        have "cover_from ?a ?b ([bad ! 0] @ repair_loop args (drop 1 bad)) (s_text bad) (t_text bad)"
          using 2(2)[OF nosplit Some bad_def None cover_split(2)[OF d]]
          by (rule cover_replace[OF d cover_split(1)[OF d]])
        from cover_replace[OF c cover_split(1)[OF c] this] show ?thesis
          using nosplit Some None by (simp add: Let_def flip: bad_def)
      next
        case (Some r)
        then obtain out n where r: "first_repair args bad [2..<min 10 (length bad) + 1] = Some (out, n)" by (cases r) auto
        have n: "2 \<le> n" "repair_chunk args (take n bad) = Some out" using first_repair_size[OF r] by auto
        have d: "cover_from ?a ?b (take n bad @ drop n bad) (s_text bad) (t_text bad)" using cb by simp
        have "take n bad \<noteq> []" using n(1) ne by (cases bad; cases n) auto
        then have o: "cover_from ?a ?b out (s_text (take n bad)) (t_text (take n bad))"
          using repair_chunk_covers[OF cover_split(1)[OF d] _ n(2)] by blast
        have "cover_from ?a ?b (out @ repair_loop args (drop n bad)) (s_text bad) (t_text bad)"
          using 2(3)[OF nosplit \<open>first_ix _ _ = Some k\<close> bad_def r refl cover_split(2)[OF d]]
          by (rule cover_replace[OF d o])
        from cover_replace[OF c cover_split(1)[OF c] this] show ?thesis
          using nosplit \<open>first_ix _ _ = Some k\<close> r by (simp add: Let_def flip: bad_def)
      qed
    qed
  qed
qed simp

lemma post_process_covers: "cover_from a b ps s t \<Longrightarrow> cover_from a b (post_process_alignment args th ps) s t"
  by (auto simp: post_process_alignment_def repair_loop_covers combine_covers)


section \<open>Back to the original positions\<close>

text \<open>
  The pairs, read from positions \<open>a\<close> and \<open>b\<close> on, are consecutive non-empty spans of the original sequences
  that end at \<open>m\<close> and \<open>n\<close>; a side without tokens is marked by \<open>-1\<close> and takes no space.
\<close>

definition placed :: "nat \<Rightarrow> ustring list \<Rightarrow> int \<Rightarrow> int \<Rightarrow> bool" where
  "placed a ts x y \<longleftrightarrow> (if ts = [] then x = - 1 \<and> y = - 1 else x = int a \<and> int a < y)"

definition side_end :: "nat \<Rightarrow> ustring list \<Rightarrow> int \<Rightarrow> nat" where
  "side_end a ts y = (if ts = [] then a else nat y)"

fun spans_to :: "nat \<Rightarrow> nat \<Rightarrow> nat \<Rightarrow> nat \<Rightarrow> alignment_pair list \<Rightarrow> bool" where
  "spans_to m n a b [] = (a = m \<and> b = n)"
| "spans_to m n a b (p # ps) = (placed a (s_tokens p) (s_start p) (s_end p) \<and> placed b (t_tokens p) (t_start p) (t_end p)
     \<and> spans_to m n (side_end a (s_tokens p) (s_end p)) (side_end b (t_tokens p) (t_end p)) ps)"

definition position :: "nat \<Rightarrow> range list \<Rightarrow> nat \<Rightarrow> nat" where
  "position n rs x = (if x < length rs then fst (rs ! x) else n)"

lemma tiles_nth:
  "tiles a n rs \<Longrightarrow> x < length rs \<Longrightarrow> fst (rs ! x) < snd (rs ! x) \<and> snd (rs ! x) = position n rs (Suc x)"
proof (induction a n rs arbitrary: x rule: tiles.induct)
  case (2 a b u v rs)
  show ?case
  proof (cases x)
    case 0
    with 2 show ?thesis by (cases rs) (auto simp: position_def)
  next
    case (Suc y)
    with 2(1)[of y] 2(2,3) show ?thesis by (auto simp: position_def)
  qed
qed simp

lemma position_0: "tiles a n rs \<Longrightarrow> position n rs 0 = a"
  by (cases rs) (auto simp: position_def)

lemma position_less: "tiles a n rs \<Longrightarrow> x < y \<Longrightarrow> y \<le> length rs \<Longrightarrow> position n rs x < position n rs y"
proof (induction y)
  case (Suc y)
  have "position n rs y < position n rs (Suc y)"
    using tiles_nth[OF Suc.prems(1), of y] Suc.prems(3) by (simp add: position_def)
  with Suc show ?case by (cases "x = y") auto
qed simp

lemma remap_side:
  assumes "tiles 0 n rs" and "span_ok x ts u v" and "x + length ts \<le> length rs" and "ts \<noteq> []"
  shows "int (fst (rs ! nat u)) = int (position n rs x)" "int (snd (rs ! nat (v - 1))) = int (position n rs (x + length ts))"
    "position n rs x < position n rs (x + length ts)"
proof -
  have u: "u = int x" "v = int (x + length ts)" using assms(2,4) by (auto simp: span_ok_def)
  have l: "0 < length ts" using assms(4) by simp
  with assms(3) have "x < length rs" by linarith
  then show "int (fst (rs ! nat u)) = int (position n rs x)" using u by (simp add: position_def)
  have last_ix: "x + length ts - 1 < length rs" and next_ix: "Suc (x + length ts - 1) = x + length ts"
    using l assms(3) by linarith+
  have "nat (v - 1) = x + length ts - 1" using u l by simp
  then show "int (snd (rs ! nat (v - 1))) = int (position n rs (x + length ts))"
    using tiles_nth[OF assms(1) last_ix] next_ix by simp
  show "position n rs x < position n rs (x + length ts)"
    using position_less[OF assms(1)] l assms(3) by simp
qed

lemma remap_fields [simp]:
  "s_tokens (mark_correct (remap_pair rs rt p)) = s_tokens p" "t_tokens (mark_correct (remap_pair rs rt p)) = t_tokens p"
  "is_correct (mark_correct (remap_pair rs rt p)) = pair_matches p"
  by (simp_all add: mark_correct_def remap_pair_def pair_matches_def Let_def)

lemma remap_spans:
  assumes "tiles 0 m rs" and "tiles 0 n rt" and "spans x y ps"
    and "x + length (s_text ps) = length rs" "y + length (t_text ps) = length rt"
  shows "spans_to m n (position m rs x) (position n rt y) (map (\<lambda>p. mark_correct (remap_pair rs rt p)) ps)"
  using assms(3-5)
proof (induction ps arbitrary: x y)
  case Nil
  then show ?case by (simp add: position_def)
next
  case (Cons p ps)
  let ?q = "mark_correct (remap_pair rs rt p)"
  have so: "span_ok x (s_tokens p) (s_start p) (s_end p)" "span_ok y (t_tokens p) (t_start p) (t_end p)"
    using Cons.prems by simp_all
  have s: "placed (position m rs x) (s_tokens p) (s_start ?q) (s_end ?q)"
    "side_end (position m rs x) (s_tokens p) (s_end ?q) = position m rs (x + length (s_tokens p))"
  proof -
    have "placed (position m rs x) (s_tokens p) (s_start ?q) (s_end ?q) \<and>
      side_end (position m rs x) (s_tokens p) (s_end ?q) = position m rs (x + length (s_tokens p))"
    proof (cases "s_tokens p = []")
      case True
      with so show ?thesis by (simp add: placed_def side_end_def span_ok_def mark_correct_def remap_pair_def Let_def)
    next
      case False
      with so have "s_start p \<noteq> - 1" by (auto simp: span_ok_def)
      with False remap_side[OF assms(1) so(1) _ False] Cons.prems(2) show ?thesis
        by (simp add: placed_def side_end_def mark_correct_def remap_pair_def Let_def)
    qed
    then show "placed (position m rs x) (s_tokens p) (s_start ?q) (s_end ?q)"
      "side_end (position m rs x) (s_tokens p) (s_end ?q) = position m rs (x + length (s_tokens p))" by blast+
  qed
  have t: "placed (position n rt y) (t_tokens p) (t_start ?q) (t_end ?q) \<and>
      side_end (position n rt y) (t_tokens p) (t_end ?q) = position n rt (y + length (t_tokens p))"
  proof (cases "t_tokens p = []")
    case True
    with so show ?thesis by (simp add: placed_def side_end_def span_ok_def mark_correct_def remap_pair_def Let_def)
  next
    case False
    with so have "t_start p \<noteq> - 1" by (auto simp: span_ok_def)
    with False remap_side[OF assms(2) so(2) _ False] Cons.prems(3) show ?thesis
      by (simp add: placed_def side_end_def mark_correct_def remap_pair_def Let_def)
  qed
  have "spans_to m n (position m rs (x + length (s_tokens p))) (position n rt (y + length (t_tokens p)))
      (map (\<lambda>p. mark_correct (remap_pair rs rt p)) ps)"
    using Cons.prems by (intro Cons.IH) simp_all
  with s t show ?case by simp
qed

lemma align_single_spans:
  assumes "0 \<notin> set lens"
  shows "\<exists>ps. align_single a lens student teacher = Inr ps \<and> spans_to (length student) (length teacher) 0 0 ps \<and>
    list_all (\<lambda>p. (s_tokens p \<noteq> [] \<or> t_tokens p \<noteq> []) \<and>
      is_correct p = (canonical_text (s_tokens p) = canonical_text (t_tokens p))) ps"
proof -
  obtain cs rs where c: "canonicalize_sequence student = Inr (cs, rs)" "length cs = length rs" "tiles 0 (length student) rs"
    using canonicalize_tiles by blast
  obtain ct rt where d: "canonicalize_sequence teacher = Inr (ct, rt)" "length ct = length rt" "tiles 0 (length teacher) rt"
    using canonicalize_tiles by blast
  let ?al = "post_process_alignment a (1/5) (fst (align_with_anchors a lens cs ct))"
  have cov: "cover_from 0 0 ?al cs ct"
    using align_with_anchors_covers[OF assms] by (rule post_process_covers)
  then have "spans_to (length student) (length teacher) (position (length student) rs 0) (position (length teacher) rt 0)
      (map (\<lambda>p. mark_correct (remap_pair rs rt p)) ?al)"
    using c d by (intro remap_spans) (auto simp: cover_from_def)
  moreover have "list_all (\<lambda>p. (s_tokens p \<noteq> [] \<or> t_tokens p \<noteq> []) \<and>
      is_correct p = (canonical_text (s_tokens p) = canonical_text (t_tokens p)))
      (map (\<lambda>p. mark_correct (remap_pair rs rt p)) ?al)"
    using cov by (auto simp: list_all_iff cover_from_def pair_matches_def strings_equal_flexible_def)
  ultimately show ?thesis
    using c d position_0 by (auto simp: align_single_def Let_def)
qed

text \<open>
  C25: the alignment of a sample, after canonicalization, anchors, dynamic program, repair and the way back
  to the original positions, never raises, and its pairs cut both original token sequences into
  consecutive spans from the first token to the last, without gap or overlap; no pair is empty on both
  sides; and a pair is marked correct exactly when the canonical texts of its sides are the same.
\<close>

theorem alignment_covers_both:
  "\<exists>ps. align_single (default_args k) [3] student teacher = Inr ps \<and>
    spans_to (length student) (length teacher) 0 0 ps \<and>
    list_all (\<lambda>p. \<not> (s_tokens p = [] \<and> t_tokens p = []) \<and>
      is_correct p = (canonical_text (s_tokens p) = canonical_text (t_tokens p))) ps"
  using align_single_spans[of "[3]"] by simp


section \<open>The rows of the batch\<close>



















lemma drop_padding_none [simp]: "drop_padding None None r = r"
  by (simp add: drop_padding_def drop_side_def)







end
