(* ===== verification/NamedAxes.thy ===== *)
theory NamedAxes
  imports Complex_Main Prelude
begin

text \<open>
  \<open>NamedSharding\<close> (\<open>nemo_rl/distributed/named_sharding.py\<close>): the ranks of a job arranged in an array with
  named axes, the coordinates of a rank and the ranks at given coordinates.  An array of NumPy is its
  shape and its entries in row-major order; a nested sequence, with integers or floats, is the
  datatype \<open>nested\<close>.  A dictionary made from the axes keeps the last of equal names.
\<close>

section \<open>Arrays\<close>

datatype nested = Scalar rat | Seq "nested list"

text \<open>\<open>np.array(layout)\<close>: sequences of unequal shapes side by side are refused.\<close>

definition join_shapes :: "nat list list \<Rightarrow> nat list res" where
  "join_shapes ss =
     (case remdups ss of [] \<Rightarrow> Inr [0] | [s] \<Rightarrow> Inr (length ss # s) | _ \<Rightarrow> Inl ValueError)"

fun shape_of :: "nested \<Rightarrow> nat list res" and shapes_of :: "nested list \<Rightarrow> nat list list res" where
  "shape_of (Scalar x) = Inr []"
| "shape_of (Seq xs) = bindR (shapes_of xs) join_shapes"
| "shapes_of [] = Inr []"
| "shapes_of (x # xs) = bindR (shape_of x) (\<lambda>s. bindR (shapes_of xs) (\<lambda>ss. Inr (s # ss)))"

fun entries :: "nested \<Rightarrow> rat list" where
  "entries (Scalar x) = [x]"
| "entries (Seq xs) = concat (map entries xs)"

definition integral :: "rat \<Rightarrow> bool" where
  "integral x \<longleftrightarrow> snd (quotient_of x) = 1"

text \<open>The index tuple of a position in row-major order, and back\<close>

fun coords_at :: "nat list \<Rightarrow> nat \<Rightarrow> nat list" where
  "coords_at [] k = []"
| "coords_at (d # ds) k = (k div prod_list ds) # coords_at ds (k mod prod_list ds)"

fun position :: "nat list \<Rightarrow> nat list \<Rightarrow> nat" where
  "position (d # ds) (c # cs) = c * prod_list ds + position ds cs"
| "position _ _ = 0"

section \<open>The class\<close>

record sharding =
  dims :: "nat list"
  ranks :: "int list"
  axis_names :: "string list"

definition checked_sharding :: "nat list \<Rightarrow> int list \<Rightarrow> string list \<Rightarrow> sharding res" where
  "checked_sharding ds rs names =
     bindR (guardR ValueError (length ds = length names)) (\<lambda>_.
     bindR (guardR ValueError (distinct rs)) (\<lambda>_.
       Inr \<lparr>dims = ds, ranks = rs, axis_names = names\<rparr>))"

definition new_sharding :: "nested \<Rightarrow> string list \<Rightarrow> sharding res" where
  "new_sharding layout names =
     bindR (shape_of layout) (\<lambda>ds.
     bindR (guardR ValueError (list_all integral (entries layout))) (\<lambda>_.
       checked_sharding ds (map floor (entries layout)) names))"

text \<open>\<open>_name_to_axis\<close>, \<open>get_axis_index\<close>, the property \<open>shape\<close> and \<open>get_axis_size\<close>\<close>

definition name_to_axis :: "sharding \<Rightarrow> string \<rightharpoonup> nat" where
  "name_to_axis s = map_of (rev (zip (axis_names s) [0..<length (axis_names s)]))"

definition get_axis_index :: "sharding \<Rightarrow> string \<Rightarrow> nat res" where
  "get_axis_index s name = (case name_to_axis s name of None \<Rightarrow> Inl ValueError | Some i \<Rightarrow> Inr i)"

definition shape_dict :: "sharding \<Rightarrow> string \<rightharpoonup> nat" where
  "shape_dict s = map_of (rev (zip (axis_names s) (dims s)))"

definition get_axis_size :: "sharding \<Rightarrow> string \<Rightarrow> nat res" where
  "get_axis_size s name = (case shape_dict s name of None \<Rightarrow> Inl KeyError | Some d \<Rightarrow> Inr d)"

definition sharding_ndim :: "sharding \<Rightarrow> nat" where
  "sharding_ndim s = length (dims s)"

definition sharding_size :: "sharding \<Rightarrow> nat" where
  "sharding_size s = length (ranks s)"

text \<open>A dictionary of coordinates; \<open>np.where\<close> refuses an array without axes.\<close>

type_synonym coords = "(string \<times> nat) list"

definition coord :: "coords \<Rightarrow> string \<rightharpoonup> nat" where
  "coord cs = map_of (rev cs)"

definition get_worker_coords :: "sharding \<Rightarrow> int \<Rightarrow> coords res" where
  "get_worker_coords s worker =
     (case (dims s, ix_filter (\<lambda>r. r = worker) (ranks s)) of
        (_ # _, [k]) \<Rightarrow> Inr (zip (axis_names s) (coords_at (dims s) k))
      | _ \<Rightarrow> Inl ValueError)"

definition is_axis_zero :: "coords \<Rightarrow> string list \<Rightarrow> bool" where
  "is_axis_zero cs names = list_all (\<lambda>ax. (case coord cs ax of None \<Rightarrow> 0 | Some i \<Rightarrow> i) = 0) names"

definition REPLICATED_AXES :: "string list" where
  "REPLICATED_AXES = [''tensor_parallel'', ''context_parallel'', ''pipeline_parallel'']"

text \<open>
  The slices of an array: per axis either everything or one index.  The keyword arguments are distinct
  names with integers.
\<close>

definition all_axes :: "sharding \<Rightarrow> nat option list" where
  "all_axes s = replicate (sharding_ndim s) None"

definition in_slice :: "nat option list \<Rightarrow> nat list \<Rightarrow> bool" where
  "in_slice sl cs = list_all2 (\<lambda>o' c. case o' of None \<Rightarrow> True | Some i \<Rightarrow> i = c) sl cs"

definition sliced :: "sharding \<Rightarrow> nat option list \<Rightarrow> int list" where
  "sliced s sl = pick (ranks s) (filter (\<lambda>k. in_slice sl (coords_at (dims s) k)) [0..<length (ranks s)])"

text \<open>\<open>get_ranks_by_coord\<close>: an index out of bounds ends the loop with no ranks.\<close>

fun coord_slices :: "sharding \<Rightarrow> (string \<times> int) list \<Rightarrow> nat option list \<Rightarrow> nat option list option res" where
  "coord_slices s [] sl = Inr (Some sl)"
| "coord_slices s ((name, i) # cs) sl =
     (case name_to_axis s name of
        None \<Rightarrow> Inl ValueError
      | Some a \<Rightarrow> (if 0 \<le> i \<and> i < int (the (shape_dict s name)) then coord_slices s cs (sl[a := Some (nat i)])
                  else Inr None))"

definition get_ranks_by_coord :: "sharding \<Rightarrow> (string \<times> int) list \<Rightarrow> int list res" where
  "get_ranks_by_coord s cs =
     bindR (coord_slices s cs (all_axes s)) (\<lambda>r. case r of
       None \<Rightarrow> Inr [] | Some sl \<Rightarrow> Inr (sort (remdups (sliced s sl))))"

text \<open>\<open>get_ranks\<close>: the same with an \<open>IndexError\<close>; the array that is left, or the rank when no axis is left\<close>

datatype selection = One int | Part sharding

fun rank_slices :: "sharding \<Rightarrow> (string \<times> int) list \<Rightarrow> nat option list \<Rightarrow> nat option list res" where
  "rank_slices s [] sl = Inr sl"
| "rank_slices s ((name, i) # cs) sl =
     (case name_to_axis s name of
        None \<Rightarrow> Inl ValueError
      | Some a \<Rightarrow> (if 0 \<le> i \<and> i < int (the (shape_dict s name)) then rank_slices s cs (sl[a := Some (nat i)])
                  else Inl IndexError))"

definition kept :: "nat option list \<Rightarrow> 'a list \<Rightarrow> 'a list" where
  "kept sl xs = map snd (filter (\<lambda>(o', x). o' = None) (zip sl xs))"

definition get_ranks :: "sharding \<Rightarrow> (string \<times> int) list \<Rightarrow> selection res" where
  "get_ranks s cs =
     bindR (rank_slices s cs (all_axes s)) (\<lambda>sl.
       if kept sl (axis_names s) = [] then Inr (One (hd (sliced s sl)))
       else bindR (checked_sharding (kept sl (dims s)) (sliced s sl) (kept sl (axis_names s)))
         (\<lambda>p. Inr (Part p)))"

definition same_sharding :: "sharding \<Rightarrow> sharding \<Rightarrow> bool" where
  "same_sharding s t \<longleftrightarrow> dims s = dims t \<and> ranks s = ranks t \<and> axis_names s = axis_names t"


section \<open>Positions\<close>

lemma length_coords_at [simp]: "length (coords_at ds k) = length ds"
  by (induction ds arbitrary: k) auto

lemma coords_at_less: "k < prod_list ds \<Longrightarrow> list_all2 (<) (coords_at ds k) ds"
proof (induction ds arbitrary: k)
  case (Cons d ds)
  then have "0 < prod_list ds" by (metis gr0I mult_0_right not_less_zero prod_list.Cons)
  with Cons show ?case by (simp add: less_mult_imp_div_less)
qed simp

lemma position_coords_at: "k < prod_list ds \<Longrightarrow> position ds (coords_at ds k) = k"
proof (induction ds arbitrary: k)
  case (Cons d ds)
  then have "0 < prod_list ds" by (metis gr0I mult_0_right not_less_zero prod_list.Cons)
  with Cons.IH[of "k mod prod_list ds"] show ?case by simp
qed simp

lemma ordinal_less: "list_all2 (<) cs ds \<Longrightarrow> position ds cs < prod_list ds"
proof (induction cs ds rule: list_all2_induct)
  case (Cons c cs d ds)
  have "c * prod_list ds + position ds cs < (c + 1) * prod_list ds" using Cons by simp
  also have "\<dots> \<le> d * prod_list ds" using Cons by (intro mult_le_mono1) simp
  finally show ?case by simp
qed simp

lemma coords_at_position: "list_all2 (<) cs ds \<Longrightarrow> coords_at ds (position ds cs) = cs"
proof (induction cs ds rule: list_all2_induct)
  case (Cons c cs d ds)
  then have "position ds cs < prod_list ds" by (simp add: ordinal_less)
  with Cons show ?case by simp
qed simp

lemma coords_at_inj: "k < prod_list ds \<Longrightarrow> l < prod_list ds \<Longrightarrow> coords_at ds k = coords_at ds l \<Longrightarrow> k = l"
  by (metis position_coords_at)

section \<open>Well-formed shardings\<close>

definition sharding_wf :: "sharding \<Rightarrow> bool" where
  "sharding_wf s \<longleftrightarrow> length (dims s) = length (axis_names s) \<and> distinct (ranks s) \<and>
     length (ranks s) = prod_list (dims s)"

lemma join_shapes_Inr:
  "join_shapes ss = Inr ds \<longleftrightarrow>
     (ss = [] \<and> ds = [0]) \<or> (\<exists>s. ss \<noteq> [] \<and> ds = length ss # s \<and> (\<forall>t\<in>set ss. t = s))"
proof -
  have "join_shapes ss = Inr ds \<longleftrightarrow>
      (remdups ss = [] \<and> ds = [0]) \<or> (\<exists>s. remdups ss = [s] \<and> ds = length ss # s)"
    by (cases "remdups ss" rule: remdups_adj.cases) (auto simp: join_shapes_def)
  then show ?thesis by (simp add: remdups_single) blast
qed

lemma sum_list_equal: "\<forall>t\<in>set ss. t = s \<Longrightarrow> sum_list (map f ss) = length ss * (f s :: nat)"
  by (induction ss) auto

lemma entries_length:
  "shape_of x = Inr ds \<Longrightarrow> length (entries x) = prod_list ds"
  "shapes_of xs = Inr dss \<Longrightarrow> map (length \<circ> entries) xs = map prod_list dss"
proof (induction x and xs arbitrary: ds and dss rule: shape_of_shapes_of.induct)
  case (2 xs)
  then obtain ss where ss: "shapes_of xs = Inr ss" "join_shapes ss = Inr ds" by (auto simp: bindR_Inr)
  from 2(1)[OF ss(1)] have m: "map (length \<circ> entries) xs = map prod_list ss" .
  then have "length xs = length ss" by (metis length_map)
  with m ss(2) show ?case
    by (auto simp: join_shapes_Inr length_concat comp_def sum_list_equal)
qed (auto simp: bindR_Inr)


lemma new_sharding_wf: "new_sharding layout names = Inr s \<Longrightarrow> sharding_wf s \<and> axis_names s = names"
  by (auto simp: new_sharding_def checked_sharding_def bindR_Inr sharding_wf_def entries_length)

lemma filter_upt_single: "k < n \<Longrightarrow> filter (\<lambda>i. i = k) [0..<n] = [k]"
  by (induction n) (auto simp: less_Suc_eq filter_empty_conv)

lemma ix_filter_nth: "distinct xs \<Longrightarrow> k < length xs \<Longrightarrow> ix_filter (\<lambda>x. x = xs ! k) xs = [k]"
proof -
  assume d: "distinct xs" and k: "k < length xs"
  have "ix_filter (\<lambda>x. x = xs ! k) xs = filter (\<lambda>i. i = k) [0..<length xs]"
    unfolding ix_filter_def using d k by (intro filter_cong) (auto simp: nth_eq_iff_index_eq)
  also have "\<dots> = [k]"
    using k by (rule filter_upt_single)
  finally show ?thesis .
qed

lemma map_of_rev: "distinct (map fst xs) \<Longrightarrow> map_of (rev xs) = map_of xs"
  by (rule map_of_eqI) (auto simp: rev_map[symmetric])

lemma map_of_zip_at:
  "distinct names \<Longrightarrow> length names = length xs \<Longrightarrow> i < length names \<Longrightarrow>
     map_of (rev (zip names xs)) (names ! i) = Some (xs ! i)"
  by (simp add: map_of_rev map_of_zip_nth)

lemma map_of_zip_outside: "n \<notin> set names \<Longrightarrow> map_of (rev (zip names xs)) n = None"
  by (auto simp: map_of_eq_None_iff dest: set_zip_leftD)

definition axes_ok :: "sharding \<Rightarrow> bool" where
  "axes_ok s \<longleftrightarrow> sharding_wf s \<and> distinct (axis_names s) \<and> axis_names s \<noteq> []"

lemma axis_at:
  assumes "axes_ok s" and "i < length (axis_names s)"
  shows "name_to_axis s (axis_names s ! i) = Some i" "shape_dict s (axis_names s ! i) = Some (dims s ! i)"
    "get_axis_size s (axis_names s ! i) = Inr (dims s ! i)"
  using assms by (simp_all add: axes_ok_def sharding_wf_def name_to_axis_def shape_dict_def get_axis_size_def
      map_of_zip_at)

lemma axis_outside: "n \<notin> set (axis_names s) \<Longrightarrow> name_to_axis s n = None \<and> shape_dict s n = None"
  by (simp add: name_to_axis_def shape_dict_def map_of_zip_outside)

lemma worker_coords:
  assumes "axes_ok s" and "k < length (ranks s)"
  shows "get_worker_coords s (ranks s ! k) = Inr (zip (axis_names s) (coords_at (dims s) k))"
proof -
  have "dims s \<noteq> []" using assms by (auto simp: axes_ok_def sharding_wf_def)
  then show ?thesis
    using assms by (auto simp: get_worker_coords_def axes_ok_def sharding_wf_def ix_filter_nth neq_Nil_conv)
qed

lemma worker_coords_Inr:
  assumes "axes_ok s" and "get_worker_coords s r = Inr cs"
  obtains k where "k < length (ranks s)" "r = ranks s ! k" "cs = zip (axis_names s) (coords_at (dims s) k)"
proof -
  from assms(2) obtain k where k: "ix_filter (\<lambda>x. x = r) (ranks s) = [k]"
    and cs: "cs = zip (axis_names s) (coords_at (dims s) k)"
    by (auto simp: get_worker_coords_def split: list.splits)
  then have "k \<in> set (ix_filter (\<lambda>x. x = r) (ranks s))" by simp
  then show ?thesis using that[of k] cs by simp
qed

lemma coord_at:
  "axes_ok s \<Longrightarrow> a < length (axis_names s) \<Longrightarrow>
     coord (zip (axis_names s) (coords_at (dims s) k)) (axis_names s ! a) = Some (coords_at (dims s) k ! a)"
  by (simp add: coord_def axes_ok_def sharding_wf_def map_of_zip_at)


section \<open>The ranks at given coordinates\<close>

text \<open>What a query asks of an index tuple\<close>

definition asked :: "(string \<times> int) list \<Rightarrow> string \<Rightarrow> nat option" where
  "asked q n = map_option nat (map_of q n)"

definition in_bounds :: "sharding \<Rightarrow> (string \<times> int) \<Rightarrow> bool" where
  "in_bounds s = (\<lambda>(n, i). 0 \<le> i \<and> i < int (the (shape_dict s n)))"

lemma axis_of_name:
  assumes "axes_ok s" and "n \<in> set (axis_names s)"
  obtains a where "a < length (axis_names s)" "n = axis_names s ! a" "name_to_axis s n = Some a"
  using assms axis_at(1)[OF assms(1)] by (auto simp: in_set_conv_nth)

lemma coord_slices_eq:
  assumes "axes_ok s" and "fst ` set q \<subseteq> set (axis_names s)" and "distinct (map fst q)"
    and "length sl = length (axis_names s)"
  shows "\<exists>r. coord_slices s q sl = Inr r \<and> (r = None \<longleftrightarrow> \<not> list_all (in_bounds s) q) \<and>
    (\<forall>sl'. r = Some sl' \<longrightarrow> length sl' = length sl \<and> (\<forall>a<length sl. sl' ! a =
       (case asked q (axis_names s ! a) of None \<Rightarrow> sl ! a | Some i \<Rightarrow> Some i)))"
  using assms(2-)
proof (induction q arbitrary: sl)
  case (Cons x q)
  obtain n i where x: "x = (n, i)" by (cases x)
  from Cons.prems x have "n \<in> set (axis_names s)" by simp
  then obtain a where a: "a < length (axis_names s)" "n = axis_names s ! a" "name_to_axis s n = Some a"
    by (rule axis_of_name[OF assms(1)])
  show ?case
  proof (cases "in_bounds s x")
    case True
    from Cons.IH[of "sl[a := Some (nat i)]"] Cons.prems obtain r where
      r: "coord_slices s q (sl[a := Some (nat i)]) = Inr r" "r = None \<longleftrightarrow> \<not> list_all (in_bounds s) q"
        "\<forall>sl'. r = Some sl' \<longrightarrow> length sl' = length sl \<and> (\<forall>b<length sl. sl' ! b =
           (case asked q (axis_names s ! b) of None \<Rightarrow> sl[a := Some (nat i)] ! b | Some i \<Rightarrow> Some i))"
      by auto
    have none: "asked q n = None" using Cons.prems x by (auto simp: asked_def map_of_eq_None_iff)
    have eq: "(case asked q (axis_names s ! b) of None \<Rightarrow> sl[a := Some (nat i)] ! b | Some i \<Rightarrow> Some i)
        = (case asked (x # q) (axis_names s ! b) of None \<Rightarrow> sl ! b | Some i \<Rightarrow> Some i)"
      if b: "b < length sl" for b
    proof (cases "b = a")
      case True
      have "asked (x # q) n = Some (nat i)" by (simp add: x asked_def)
      with none b show ?thesis unfolding True a(2)[symmetric] by simp
    next
      case False
      then have "axis_names s ! b \<noteq> n"
        unfolding a(2) using b a(1) Cons.prems(3) assms(1) by (simp add: axes_ok_def nth_eq_iff_index_eq)
      with False show ?thesis by (auto simp: x asked_def split: option.split)
    qed
    have "coord_slices s (x # q) sl = Inr r"
      using True a(3) r(1) by (simp add: x in_bounds_def)
    moreover have "r = None \<longleftrightarrow> \<not> list_all (in_bounds s) (x # q)"
      using r(2) True by simp
    ultimately show ?thesis
      using r(3) eq by (intro exI[of _ r]) simp
  next
    case False
    then have "coord_slices s (x # q) sl = Inr None"
      using a(3) by (auto simp add: x in_bounds_def)
    with False show ?thesis by simp
  qed
qed (simp add: asked_def)

lemma in_slice_asked:
  assumes "axes_ok s" and "length sl = length (axis_names s)" and "length cs = length (axis_names s)"
    and "\<forall>a<length sl. sl ! a = asked q (axis_names s ! a)" and "fst ` set q \<subseteq> set (axis_names s)"
    and "distinct (map fst q)"
  shows "in_slice sl cs \<longleftrightarrow> (\<forall>(n, i)\<in>set q. map_of (rev (zip (axis_names s) cs)) n = Some (nat i))"
proof -
  have at: "map_of (rev (zip (axis_names s) cs)) (axis_names s ! a) = Some (cs ! a)" if "a < length (axis_names s)" for a
    using assms(1,3) that by (simp add: axes_ok_def map_of_zip_at)
  have "in_slice sl cs \<longleftrightarrow> (\<forall>a<length sl. \<forall>i. map_of q (axis_names s ! a) = Some i \<longrightarrow> nat i = cs ! a)"
    using assms(2-4) by (auto simp: in_slice_def list_all2_conv_all_nth asked_def split: option.splits)
  also have "\<dots> \<longleftrightarrow> (\<forall>(n, i)\<in>set q. map_of (rev (zip (axis_names s) cs)) n = Some (nat i))"
  proof (intro iffI ballI allI impI)
    fix x assume l: "\<forall>a<length sl. \<forall>i. map_of q (axis_names s ! a) = Some i \<longrightarrow> nat i = cs ! a" and x: "x \<in> set q"
    obtain n i where xi: "x = (n, i)" by (cases x)
    with x assms(5) have "n \<in> set (axis_names s)" by force
    then obtain a where a: "a < length (axis_names s)" "n = axis_names s ! a" by (metis in_set_conv_nth)
    from x xi assms(6) have "map_of q n = Some i" by simp
    with l a at[OF a(1)] assms(2) show "case x of (n, i) \<Rightarrow> map_of (rev (zip (axis_names s) cs)) n = Some (nat i)"
      by (simp add: xi)
  next
    fix a i assume r: "\<forall>(n, i)\<in>set q. map_of (rev (zip (axis_names s) cs)) n = Some (nat i)"
      and a: "a < length sl" "map_of q (axis_names s ! a) = Some i"
    then have "(axis_names s ! a, i) \<in> set q" by (simp add: map_of_SomeD)
    with r at[of a] a assms(2) show "nat i = cs ! a" by fastforce
  qed
  finally show ?thesis .
qed


lemma in_sliced:
  "r \<in> set (sliced s sl) \<longleftrightarrow> (\<exists>k<length (ranks s). r = ranks s ! k \<and> in_slice sl (coords_at (dims s) k))"
  by (auto simp: sliced_def pick_def)

lemma axes_okI: "new_sharding layout names = Inr s \<Longrightarrow> distinct names \<Longrightarrow> names \<noteq> [] \<Longrightarrow> axes_ok s"
  using new_sharding_wf[of layout names s] by (simp add: axes_ok_def)

lemma ranks_by_coord:
  assumes s: "axes_ok s" and q: "fst ` set q \<subseteq> set (axis_names s)" "distinct (map fst q)"
  shows "\<exists>rs. get_ranks_by_coord s q = Inr rs \<and> sorted rs \<and> distinct rs \<and>
    (\<forall>r. r \<in> set rs \<longleftrightarrow> (\<exists>cs. get_worker_coords s r = Inr cs \<and>
       (\<forall>(n, i)\<in>set q. 0 \<le> i \<and> coord cs n = Some (nat i))))"
proof -
  obtain r where r: "coord_slices s q (all_axes s) = Inr r" "r = None \<longleftrightarrow> \<not> list_all (in_bounds s) q"
    "\<forall>sl. r = Some sl \<longrightarrow> length sl = length (axis_names s) \<and> (\<forall>a<length sl. sl ! a = asked q (axis_names s ! a))"
  proof -
    have l: "length (all_axes s) = length (axis_names s)"
      using s by (simp add: all_axes_def axes_ok_def sharding_wf_def sharding_ndim_def)
    moreover have "all_axes s ! a = None" if "a < length (axis_names s)" for a
      using that l by (simp add: all_axes_def)
    ultimately show ?thesis
      using coord_slices_eq[OF s q l] that by (fastforce split: option.splits)
  qed
  note lens = s[unfolded axes_ok_def sharding_wf_def]
  have below: "coords_at (dims s) k ! a < dims s ! a" if "k < length (ranks s)" "a < length (dims s)" for k a
    using coords_at_less[of k "dims s"] that lens by (simp add: list_all2_conv_all_nth)
  show ?thesis
  proof (cases r)
    case None
    then obtain n i where bad: "(n, i) \<in> set q" "\<not> in_bounds s (n, i)"
      using r(2) by (auto simp: list_all_iff)
    from bad q(1) have "n \<in> set (axis_names s)" by force
    then obtain a where a: "a < length (axis_names s)" "n = axis_names s ! a" by (metis in_set_conv_nth)
    have "\<not> (0 \<le> i \<and> coord cs n = Some (nat i))" if "get_worker_coords s w = Inr cs" for w cs
    proof (rule worker_coords_Inr[OF s that])
      fix k assume k: "k < length (ranks s)" "cs = zip (axis_names s) (coords_at (dims s) k)"
      then show ?thesis
        using bad(2) below[OF k(1), of a] a lens coord_at[OF s a(1), of k] axis_at(2)[OF s a(1)]
        by (auto simp: in_bounds_def)
    qed
    then have "\<not> (\<exists>cs. get_worker_coords s w = Inr cs \<and> (\<forall>(n, i)\<in>set q. 0 \<le> i \<and> coord cs n = Some (nat i)))" for w
      using bad(1) by fastforce
    then show ?thesis
      by (simp add: get_ranks_by_coord_def r(1) None)
  next
    case (Some sl)
    with r(2) have nn: "\<forall>(n, i)\<in>set q. 0 \<le> i" by (auto simp: list_all_iff in_bounds_def)
    have sl: "length sl = length (axis_names s)" "\<forall>a<length sl. sl ! a = asked q (axis_names s ! a)"
      using r(3) Some by auto
    have slice_iff: "in_slice sl (coords_at (dims s) k) \<longleftrightarrow>
        (\<forall>(n, i)\<in>set q. 0 \<le> i \<and> coord (zip (axis_names s) (coords_at (dims s) k)) n = Some (nat i))" for k
      unfolding coord_def using in_slice_asked[OF s sl(1) _ sl(2) q, of "coords_at (dims s) k"] nn lens by auto
    have "w \<in> set (sliced s sl) \<longleftrightarrow> (\<exists>cs. get_worker_coords s w = Inr cs \<and>
       (\<forall>(n, i)\<in>set q. 0 \<le> i \<and> coord cs n = Some (nat i)))" for w
    proof
      assume "w \<in> set (sliced s sl)"
      then show "\<exists>cs. get_worker_coords s w = Inr cs \<and> (\<forall>(n, i)\<in>set q. 0 \<le> i \<and> coord cs n = Some (nat i))"
        using worker_coords[OF s] slice_iff by (fastforce simp: in_sliced)
    next
      assume "\<exists>cs. get_worker_coords s w = Inr cs \<and> (\<forall>(n, i)\<in>set q. 0 \<le> i \<and> coord cs n = Some (nat i))"
      then obtain cs where cs: "get_worker_coords s w = Inr cs"
        "\<forall>(n, i)\<in>set q. 0 \<le> i \<and> coord cs n = Some (nat i)" by blast
      from cs(1) obtain k where "k < length (ranks s)" "w = ranks s ! k"
        "cs = zip (axis_names s) (coords_at (dims s) k)" by (rule worker_coords_Inr[OF s])
      with cs(2) slice_iff show "w \<in> set (sliced s sl)" by (auto simp: in_sliced)
    qed
    then show ?thesis
      by (simp add: get_ranks_by_coord_def r(1) Some)
  qed
qed

text \<open>
  the two directions of a sharding agree: the ranks found at given coordinates are exactly the ranks
  whose own coordinates have these values, in increasing order, and none when an index is out of range.
\<close>

theorem coords_and_ranks_agree:
  assumes "new_sharding layout names = Inr s" and "distinct names" and "names \<noteq> []"
    and "fst ` set q \<subseteq> set names" and "distinct (map fst q)"
  shows "\<exists>rs. get_ranks_by_coord s q = Inr rs \<and> sorted rs \<and> distinct rs \<and>
    (\<forall>r. r \<in> set rs \<longleftrightarrow> (\<exists>cs. get_worker_coords s r = Inr cs \<and>
       (\<forall>(n, i)\<in>set q. 0 \<le> i \<and> coord cs n = Some (nat i))))"
  using ranks_by_coord[OF axes_okI[OF assms(1-3)]] assms(4,5) new_sharding_wf[OF assms(1)] by simp


text \<open>Two stages of two ranks each\<close>

definition demo_layout :: nested where
  "demo_layout = Seq [Seq [Scalar 4, Scalar 5], Seq [Scalar 2, Scalar 3]]"

theorem coords_and_ranks_agree_witness:
  "\<exists>s rs. new_sharding demo_layout [''pp'', ''tp''] = Inr s \<and>
     get_ranks_by_coord s [(''tp'', 1)] = Inr rs \<and> sorted rs \<and> distinct rs \<and> rs = [3, 5]"
proof -
  let ?s = "\<lparr>dims = [2, 2], ranks = [4, 5, 2, 3], axis_names = [''pp'', ''tp'']\<rparr>"
  have s: "new_sharding demo_layout [''pp'', ''tp''] = Inr ?s"
    by code_simp
  have "get_ranks_by_coord ?s [(''tp'', 1)] = Inr [3, 5]"
    by code_simp
  with coords_and_ranks_agree[OF s, of "[(''tp'', 1)]"] s show ?thesis
    by auto
qed

end
