(* ===== verification/WorkerGroups.thy ===== *)
theory WorkerGroups
  imports NamedAxes
begin

text \<open>
  Groups of remote workers (\<open>nemo_rl/distributed/worker_groups.py\<close>): which bundle each worker gets, which
  worker a call goes to with which part of the data, and which of the results are handed back.  The workers
  themselves are arguments: a call is recorded as the worker's index with its keyword arguments, and a
  future as what it yields.  Starting the processes, the environment variables and \<open>ray.put\<close>, which
  only changes how an argument travels, are left out.  The methods refuse positional arguments.
\<close>

section \<open>Workers and their bundles\<close>

text \<open>\<open>workers_per_node\<close>; a placement group is the number of its bundles.\<close>

datatype per_node = Default | Same int | Each "int list"

definition workers_per_group :: "nat list \<Rightarrow> per_node \<Rightarrow> int list res" where
  "workers_per_group pgs per =
     (case per of
        Default \<Rightarrow> Inr (map int pgs)
      | Same n \<Rightarrow> Inr (replicate (length pgs) n)
      | Each ns \<Rightarrow> bindR (guardR ValueError (length ns = length pgs)) (\<lambda>_. Inr ns))"

type_synonym tied_groups = "(nat \<times> nat list) list"

fun single_worker_groups :: "nat \<Rightarrow> (nat \<times> int) list \<Rightarrow> tied_groups res" where
  "single_worker_groups i [] = Inr []"
| "single_worker_groups i ((bundle_count, n) # pgs) =
     (if n > int bundle_count then Inl ValueError
      else bindR (single_worker_groups (Suc i) pgs)
        (\<lambda>gs. Inr (map (\<lambda>b. (i, [b])) [0..<nat n] @ gs)))"

definition bundle_indices_list :: "nat list \<Rightarrow> per_node \<Rightarrow> tied_groups option \<Rightarrow> tied_groups res" where
  "bundle_indices_list pgs per explicit =
     (case explicit of
        Some gs \<Rightarrow> Inr gs
      | None \<Rightarrow> bindR (workers_per_group pgs per) (\<lambda>ns. single_worker_groups 0 (zip pgs ns)))"

record worker_meta =
  node_idx :: nat
  local_rank :: nat
  global_rank :: nat
  worker_name :: string
  bundle_indices :: "(nat \<times> nat list) option"
  dp_shard_idx :: nat

definition new_name :: "string \<Rightarrow> nat \<Rightarrow> nat \<Rightarrow> nat list \<Rightarrow> nat \<Rightarrow> nat \<Rightarrow> string" where
  "new_name prefix group_idx pg local_bundles l b =
     (if length local_bundles > 1 then prefix @ ''-grp'' @ decimal group_idx @ ''-'' @ decimal l
      else prefix @ ''-'' @ decimal pg @ ''-'' @ decimal b)"

text \<open>The workers of one tied group: the first carries the bundles of the whole group.\<close>

definition group_workers :: "string \<Rightarrow> nat \<Rightarrow> nat \<Rightarrow> nat \<times> nat list \<Rightarrow> worker_meta list" where
  "group_workers prefix group_idx rank = (\<lambda>(pg, bs).
     map (\<lambda>(l, b). \<lparr>node_idx = pg, local_rank = l, global_rank = rank + l,
            worker_name = new_name prefix group_idx pg bs l b,
            bundle_indices = (if l = 0 then Some (pg, bs) else None), dp_shard_idx = group_idx\<rparr>)
       (List.enumerate 0 bs))"

fun create_loop :: "string \<Rightarrow> nat \<Rightarrow> nat \<Rightarrow> nat \<Rightarrow> tied_groups \<Rightarrow> (worker_meta list \<times> nat list) res" where
  "create_loop prefix n_pgs group_idx rank [] = Inr ([], [])"
| "create_loop prefix n_pgs group_idx rank ((pg, bs) # gs) =
     (if n_pgs \<noteq> 1 \<and> pg \<ge> n_pgs then Inl IndexError
      else bindR (create_loop prefix n_pgs (Suc group_idx) (rank + length bs) gs) (\<lambda>(ws, ls).
        Inr (group_workers prefix group_idx rank (pg, bs) @ ws, (if bs = [] then [] else [rank]) @ ls)))"

record worker_group =
  workers :: "nat list"
  worker_metadata :: "worker_meta list"
  dp_leader_worker_indices :: "nat list"
  initializer_pool :: "nat list"
  sharding_annotations :: "sharding option"

definition new_worker_group ::
  "nat list \<Rightarrow> per_node \<Rightarrow> string \<Rightarrow> tied_groups option \<Rightarrow> sharding option \<Rightarrow> worker_group res" where
  "new_worker_group pgs per prefix explicit annotations =
     bindR (bundle_indices_list pgs per explicit) (\<lambda>gs.
     bindR (create_loop prefix (length pgs) 0 0 gs) (\<lambda>(ws, ls).
       Inr \<lparr>workers = [0..<length ws], worker_metadata = ws, dp_leader_worker_indices = ls,
            initializer_pool = sort (remdups (map fst gs)), sharding_annotations = annotations\<rparr>))"

definition world_size :: "tied_groups \<Rightarrow> nat" where
  "world_size gs = sum_list (map (\<lambda>(pg, bs). length bs) gs)"

definition group_dp_size :: "worker_group \<Rightarrow> nat" where
  "group_dp_size g = length (dp_leader_worker_indices g)"

definition get_dp_leader_worker_idx :: "worker_group \<Rightarrow> int \<Rightarrow> nat res" where
  "get_dp_leader_worker_idx g i =
     (if 0 \<le> i \<and> i < int (length (dp_leader_worker_indices g))
      then Inr (dp_leader_worker_indices g ! nat i) else Inl IndexError)"

section \<open>Calls with the same or with given data\<close>

type_synonym 'a kwargs = "(string \<times> 'a) list"

record 'a call =
  called :: nat
  arguments :: "'a kwargs"

text \<open>
  A call made by a loop that raises later has been made: the loops return the calls with the outcome.
\<close>

definition coords_of :: "worker_group \<Rightarrow> nat \<Rightarrow> coords res" where
  "coords_of g w =
     (case sharding_annotations g of None \<Rightarrow> Inl AttributeError | Some s \<Rightarrow> get_worker_coords s (int w))"

definition axes_of :: "worker_group \<Rightarrow> string list" where
  "axes_of g = (case sharding_annotations g of None \<Rightarrow> [] | Some s \<Rightarrow> axis_names s)"

definition rank_0_on :: "string list \<Rightarrow> coords \<Rightarrow> string list \<Rightarrow> bool" where
  "rank_0_on only cs names =
     list_all (\<lambda>axis. case coord cs axis of None \<Rightarrow> True | Some c \<Rightarrow> \<not> (axis \<in> set only \<and> c \<noteq> 0)) names"

fun single_loop :: "worker_group \<Rightarrow> string list \<Rightarrow> 'a kwargs \<Rightarrow> nat list \<Rightarrow> 'a call list \<times> unit res" where
  "single_loop g only kw [] = ([], Inr ())"
| "single_loop g only kw (w # ws) =
     (case coords_of g w of
        Inl e \<Rightarrow> ([], Inl e)
      | Inr cs \<Rightarrow>
          (let rest = single_loop g only kw ws
           in if rank_0_on only cs (axes_of g) then (\<lparr>called = w, arguments = kw\<rparr> # fst rest, snd rest)
              else rest))"

definition run_all_workers_single_data ::
  "worker_group \<Rightarrow> string list option \<Rightarrow> 'a kwargs \<Rightarrow> 'a call list \<times> unit res" where
  "run_all_workers_single_data g only kw =
     single_loop g (case only of None \<Rightarrow> [] | Some o' \<Rightarrow> o') kw (workers g)"

definition run_single_worker_single_data :: "worker_group \<Rightarrow> nat \<Rightarrow> 'a kwargs \<Rightarrow> 'a call res" where
  "run_single_worker_single_data g w kw =
     (if w < length (workers g) then Inr \<lparr>called = workers g ! w, arguments = kw\<rparr> else Inl IndexError)"

definition args_at :: "(string \<times> 'a list) list \<Rightarrow> nat \<Rightarrow> 'a kwargs res" where
  "args_at kw i =
     mapR (\<lambda>(k, vs). bindR (guardR IndexError (i < length vs)) (\<lambda>_. Inr (k, vs ! i))) kw"

fun multiple_loop ::
  "worker_group \<Rightarrow> string list \<Rightarrow> (string \<times> 'a list) list \<Rightarrow> 'a kwargs \<Rightarrow> nat \<Rightarrow> nat list \<Rightarrow>
   'a call list \<times> nat res" where
  "multiple_loop g only kw common i [] = ([], Inr i)"
| "multiple_loop g only kw common i (w # ws) =
     (case coords_of g w of
        Inl e \<Rightarrow> ([], Inl e)
      | Inr cs \<Rightarrow>
          (if rank_0_on only cs (axes_of g)
           then (case args_at kw i of
                   Inl e \<Rightarrow> ([], Inl e)
                 | Inr a \<Rightarrow> (let rest = multiple_loop g only kw common (Suc i) ws
                            in (\<lparr>called = w, arguments = a @ common\<rparr> # fst rest, snd rest)))
           else multiple_loop g only kw common i ws))"

definition run_all_workers_multiple_data ::
  "worker_group \<Rightarrow> string list option \<Rightarrow> (string \<times> 'a list) list \<Rightarrow> 'a kwargs \<Rightarrow> 'a call list \<times> unit res" where
  "run_all_workers_multiple_data g only kw common =
     (case kw of
        [] \<Rightarrow> ([], Inl AssertionError)
      | (k, vs) # rest \<Rightarrow>
          (if \<not> list_all (\<lambda>(k', us). length us = length vs) rest then ([], Inl AssertionError)
           else if only = None \<and> length vs \<noteq> length (workers g) then ([], Inl AssertionError)
           else (let r = multiple_loop g (case only of None \<Rightarrow> [] | Some o' \<Rightarrow> o') kw common 0 (workers g)
                 in (fst r, bindR (snd r) (\<lambda>started. assertR (started = length vs))))))"

section \<open>Calls with sharded data\<close>

text \<open>
  An argument is nested as deep as there are sharded axes.  Going deeper than that is a \<open>TypeError\<close>,
  whatever the exception of the object that is reached.
\<close>

datatype 'a nested_data = Whole 'a | Slices "'a nested_data list"

fun reaches :: "nat \<Rightarrow> 'a nested_data \<Rightarrow> bool" where
  "reaches 0 v = True"
| "reaches (Suc d) (Whole x) = False"
| "reaches (Suc d) (Slices vs) = list_all (reaches d) vs"

definition slice_at :: "nat \<Rightarrow> 'a nested_data \<Rightarrow> 'a nested_data res" where
  "slice_at i v =
     (case v of
        Whole x \<Rightarrow> Inl TypeError
      | Slices vs \<Rightarrow> (if i < length vs then Inr (vs ! i) else Inl IndexError))"

fun slices_for :: "coords \<Rightarrow> string list \<Rightarrow> 'a nested_data \<Rightarrow> 'a nested_data res" where
  "slices_for cs [] v = Inr v"
| "slices_for cs (axis # axes) v =
     (case coord cs axis of
        None \<Rightarrow> slices_for cs axes v
      | Some i \<Rightarrow> bindR (slice_at i v) (slices_for cs axes))"

text \<open>Whether a worker receives data, and whether its result is handed back; a free axis ends the loop.\<close>

fun receives :: "string list \<Rightarrow> string list \<Rightarrow> string list \<Rightarrow> coords \<Rightarrow> string list \<Rightarrow> bool \<Rightarrow> bool \<times> bool" where
  "receives ins repl outs cs [] ret = (True, ret)"
| "receives ins repl outs cs (axis # axes) ret =
     (case coord cs axis of
        None \<Rightarrow> receives ins repl outs cs axes ret
      | Some c \<Rightarrow>
          (if axis \<notin> set ins \<and> axis \<notin> set repl \<and> c \<noteq> 0 then (False, False)
           else receives ins repl outs cs axes (ret \<and> \<not> (axis \<in> set outs \<and> c \<noteq> 0))))"

text \<open>The arguments of a dummy call are \<open>None\<close>.\<close>

record 'a sharded_calls =
  futures :: "'a nested_data option call list"
  called_workers :: "nat list"
  return_from_workers :: "nat list"

definition no_calls :: "'a sharded_calls" where
  "no_calls = \<lparr>futures = [], called_workers = [], return_from_workers = []\<rparr>"

definition call_worker :: "nat \<Rightarrow> 'a nested_data option kwargs \<Rightarrow> bool \<Rightarrow> 'a sharded_calls \<Rightarrow> 'a sharded_calls" where
  "call_worker w kw ret r =
     \<lparr>futures = \<lparr>called = w, arguments = kw\<rparr> # futures r, called_workers = w # called_workers r,
      return_from_workers = (if ret then [w] else []) @ return_from_workers r\<rparr>"

definition keep_quiet :: "nat \<Rightarrow> bool \<Rightarrow> 'a sharded_calls \<Rightarrow> 'a sharded_calls" where
  "keep_quiet w ret r = r\<lparr>return_from_workers := (if ret then [w] else []) @ return_from_workers r\<rparr>"

fun sharded_loop ::
  "sharding \<Rightarrow> string list \<Rightarrow> string list \<Rightarrow> string list \<Rightarrow> bool \<Rightarrow> 'a nested_data kwargs \<Rightarrow>
   'a nested_data option kwargs \<Rightarrow> nat list \<Rightarrow> 'a sharded_calls \<times> unit res" where
  "sharded_loop s ins repl outs dummy kw common [] = (no_calls, Inr ())"
| "sharded_loop s ins repl outs dummy kw common (w # ws) =
     (case get_worker_coords s (int w) of
        Inl e \<Rightarrow> (no_calls, Inl e)
      | Inr cs \<Rightarrow>
          (let rest = sharded_loop s ins repl outs dummy kw common ws;
               flags = receives ins repl outs cs (axis_names s) True
           in if fst flags
              then (case mapR (\<lambda>(k, v). bindR (slices_for cs ins v) (\<lambda>u. Inr (k, Some u))) kw of
                      Inl e \<Rightarrow> (keep_quiet w (snd flags) no_calls, Inl e)
                    | Inr a \<Rightarrow> (call_worker w (a @ common) (snd flags) (fst rest), snd rest))
              else if dummy
              then (call_worker w (map (\<lambda>(k, v). (k, None)) kw @ common) (snd flags) (fst rest), snd rest)
              else (keep_quiet w (snd flags) (fst rest), snd rest)))"

text \<open>The replication degree is computed before the axes are validated.\<close>

definition check_axes ::
  "sharding \<Rightarrow> string list \<Rightarrow> string list \<Rightarrow> 'a nested_data kwargs \<Rightarrow> unit res" where
  "check_axes s ins repl kw =
     bindR (mapR (get_axis_size s) repl) (\<lambda>ns.
     bindR (guardR TypeError (prod_list ns > 1 \<longrightarrow> list_all (\<lambda>(k, v). reaches (length ins) v) kw)) (\<lambda>_.
     bindR (guardR ValueError (list_all (\<lambda>a. a \<in> set (axis_names s)) (ins @ repl))) (\<lambda>_.
     bindR (guardR ValueError (set ins \<inter> set repl = {})) (\<lambda>_. Inr ()))))"

definition run_all_workers_sharded_data ::
  "worker_group \<Rightarrow> string list \<Rightarrow> string list \<Rightarrow> string list \<Rightarrow> bool \<Rightarrow> 'a nested_data kwargs \<Rightarrow>
   'a nested_data option kwargs \<Rightarrow> 'a sharded_calls \<times> unit res" where
  "run_all_workers_sharded_data g ins repl outs dummy kw common =
     (case sharding_annotations g of
        None \<Rightarrow> (no_calls, Inl ValueError)
      | Some s \<Rightarrow>
          (case check_axes s ins repl kw of
             Inl e \<Rightarrow> (no_calls, Inl e)
           | Inr _ \<Rightarrow> sharded_loop s ins repl outs dummy kw common (workers g)))"

section \<open>Results\<close>

text \<open>
  A future yields a value or, from a generator, several; \<open>ray.get\<close> raises the first exception.
\<close>

datatype 'r future = Value "'r res" | Generator "'r res list"

fun refs_of :: "'r future \<Rightarrow> 'r res list" where
  "refs_of (Value r) = [r]"
| "refs_of (Generator rs) = rs"

definition has_generator :: "'r future list \<Rightarrow> bool" where
  "has_generator fs \<longleftrightarrow> list_ex (\<lambda>f. case f of Value r \<Rightarrow> False | Generator rs \<Rightarrow> rs \<noteq> []) fs"

definition ray_get :: "'r res list \<Rightarrow> 'r list res" where
  "ray_get rs = mapR id rs"

definition result_index :: "nat list \<Rightarrow> nat \<rightharpoonup> nat" where
  "result_index called_ws = map_of (rev (zip called_ws [0..<length called_ws]))"

definition at_index :: "'a list \<Rightarrow> nat \<Rightarrow> 'a res" where
  "at_index xs i = (if i < length xs then Inr (xs ! i) else Inl IndexError)"

definition selected :: "nat list option \<Rightarrow> nat list option \<Rightarrow> 'r list \<Rightarrow> 'r list res" where
  "selected called_ws returned rs =
     (case returned of
        None \<Rightarrow> Inr rs
      | Some ret \<Rightarrow>
          (case called_ws of
             None \<Rightarrow> mapR (at_index rs) ret
           | Some ws \<Rightarrow> mapR (at_index rs) (List.map_filter (result_index ws) ret)))"

definition get_results :: "nat list option \<Rightarrow> nat list option \<Rightarrow> 'r future list \<Rightarrow> 'r list res" where
  "get_results called_ws returned fs =
     bindR (ray_get (concat (map refs_of fs))) (\<lambda>rs.
       if has_generator fs then Inr rs else selected called_ws returned rs)"

definition get_proxies :: "nat list option \<Rightarrow> nat list option \<Rightarrow> 'r future list \<Rightarrow> 'r future list" where
  "get_proxies called_ws returned fs =
     (case returned of
        None \<Rightarrow> fs
      | Some ret \<Rightarrow>
          (let ixs = (case called_ws of None \<Rightarrow> ret | Some ws \<Rightarrow> List.map_filter (result_index ws) ret)
           in pick fs (filter (\<lambda>i. i < length fs) ixs)))"

text \<open>A call and the wait for it: what the called workers answer is an argument.\<close>

definition get_all_worker_results ::
  "(nat \<Rightarrow> 'a nested_data option kwargs \<Rightarrow> 'r future) \<Rightarrow> 'a sharded_calls \<times> unit res \<Rightarrow> 'r list res" where
  "get_all_worker_results work r =
     bindR (snd r) (\<lambda>_. get_results (Some (called_workers (fst r))) (Some (return_from_workers (fst r)))
       (map (\<lambda>c. work (called c) (arguments c)) (futures (fst r))))"

section \<open>Shutdown\<close>

text \<open>
  The clean-up calls finish, or time out or fail; then every worker and every pooled initializer is killed,
  and a worker that cannot be killed spoils the result.  An exception from making the calls is not caught.
\<close>

definition shutdown_group ::
  "bool \<Rightarrow> bool \<Rightarrow> bool \<Rightarrow> (nat \<Rightarrow> bool) \<Rightarrow> worker_group \<Rightarrow> worker_group \<times> nat list \<times> bool res" where
  "shutdown_group cleanup force clean killed g =
     (if workers g = [] then (g, [], Inr True)
      else case (if cleanup \<and> \<not> force
                 then bindR (snd (run_all_workers_single_data g None ([] :: unit kwargs))) (\<lambda>_. Inr clean)
                 else Inr True) of
             Inl e \<Rightarrow> (g, [], Inl e)
           | Inr success \<Rightarrow>
               (g\<lparr>workers := [], worker_metadata := [], initializer_pool := []\<rparr>, workers g,
                Inr (success \<and> list_all killed (workers g))))"

section \<open>What a sharded call sends and hands back\<close>

lemma receives_ret: "snd (receives ins repl outs cs names ret) \<Longrightarrow> fst (receives ins repl outs cs names ret)"
  by (induction names arbitrary: ret) (auto split: option.splits if_splits)

lemma receives_iff:
  "fst (receives ins repl outs cs names ret) \<longleftrightarrow>
     (\<forall>a\<in>set names. a \<in> set ins \<or> a \<in> set repl \<or> coord cs a \<in> {None, Some 0})"
  "snd (receives ins repl outs cs names ret) \<longleftrightarrow> ret \<and> fst (receives ins repl outs cs names ret) \<and>
     (\<forall>a\<in>set names. a \<in> set outs \<longrightarrow> coord cs a \<in> {None, Some 0})"
  by (induction names arbitrary: ret) (auto split: option.splits)

lemma sharded_loop_calls:
  assumes "\<forall>w\<in>set ws. get_worker_coords s (int w) = Inr (cs w)"
    and "\<forall>w\<in>set ws. fst (receives ins repl outs (cs w) (axis_names s) True) \<longrightarrow>
      mapR (\<lambda>(k, v). bindR (slices_for (cs w) ins v) (\<lambda>u. Inr (k, Some u))) kw = Inr (args w)"
  shows "sharded_loop s ins repl outs False kw common ws =
    (let to = filter (\<lambda>w. fst (receives ins repl outs (cs w) (axis_names s) True)) ws
     in (\<lparr>futures = map (\<lambda>w. \<lparr>called = w, arguments = args w @ common\<rparr>) to, called_workers = to,
          return_from_workers = filter (\<lambda>w. snd (receives ins repl outs (cs w) (axis_names s) True)) ws\<rparr>, Inr ()))"
  using assms
proof (induction ws)
  case (Cons w ws)
  then have IH: "sharded_loop s ins repl outs False kw common ws =
    (let to = filter (\<lambda>w. fst (receives ins repl outs (cs w) (axis_names s) True)) ws
     in (\<lparr>futures = map (\<lambda>w. \<lparr>called = w, arguments = args w @ common\<rparr>) to, called_workers = to,
          return_from_workers = filter (\<lambda>w. snd (receives ins repl outs (cs w) (axis_names s) True)) ws\<rparr>, Inr ()))"
    by simp
  show ?case
  proof (cases "fst (receives ins repl outs (cs w) (axis_names s) True)")
    case True
    with Cons.prems IH show ?thesis by (simp add: Let_def call_worker_def)
  next
    case False
    with receives_ret Cons.prems IH show ?thesis by (auto simp add: Let_def keep_quiet_def)
  qed
qed (simp add: no_calls_def)

lemma result_index_nth:
  "distinct ws \<Longrightarrow> i < length ws \<Longrightarrow> result_index ws (ws ! i) = Some i"
  using map_of_zip_at[of ws "[0..<length ws]" i] by (simp add: result_index_def)

lemma selected_of_called:
  assumes "distinct ws" and "set ret \<subseteq> set ws"
  shows "selected (Some ws) (Some ret) (map f ws) = Inr (map f ret)"
proof -
  have "\<exists>i<length ws. w = ws ! i" if "w \<in> set ret" for w
    using assms(2) that by (metis in_set_conv_nth subsetD)
  then obtain ix where ix: "ix w < length ws \<and> w = ws ! ix w" if "w \<in> set ret" for w
    by metis
  have "result_index ws w = Some (ix w)" if "w \<in> set ret" for w
    using result_index_nth[OF assms(1)] ix[OF that] by metis
  then have "List.map_filter (result_index ws) ret = map ix ret"
    by (induction ret) (auto simp: List.map_filter_def)
  moreover have "at_index (map f ws) (ix w) = Inr (f w)" if "w \<in> set ret" for w
    using ix[OF that] by (metis at_index_def length_map nth_map)
  ultimately show ?thesis
    by (simp add: selected_def mapR_total[where g = f] mapR_map)
qed


lemma get_results_of_called:
  assumes "distinct ws" and "set ret \<subseteq> set ws" and "\<forall>w\<in>set ws. work w = Inr (r w)"
  shows "get_results (Some ws) (Some ret) (map (\<lambda>w. Value (work w)) ws) = Inr (map r ret)"
proof -
  have "ray_get (concat (map refs_of (map (\<lambda>w. Value (work w)) ws))) = Inr (map r ws)"
    using assms(3) by (induction ws) (auto simp: ray_get_def)
  moreover have "\<not> has_generator (map (\<lambda>w. Value (work w)) ws)"
    by (simp add: has_generator_def list_ex_iff)
  ultimately show ?thesis
    using selected_of_called[OF assms(1,2)] by (simp add: get_results_def)
qed

text \<open>A worker that fails fails the whole call.\<close>

lemma get_results_raises:
  assumes "w \<in> set ws" and "work w = Inl e"
  shows "\<exists>e. get_results c ret (map (\<lambda>w. Value (work w)) ws) = Inl e"
proof -
  have "\<exists>e. ray_get (concat (map refs_of (map (\<lambda>w. Value (work w)) ws))) = Inl e"
    using assms by (induction ws) (auto simp: ray_get_def bindR_def split: sum.splits)
  then show ?thesis by (auto simp: get_results_def)
qed

section \<open>One shard per data-parallel rank\<close>

text \<open>\<open>np.arange(world).reshape(ds)\<close> with named axes\<close>

definition arange_sharding :: "nat list \<Rightarrow> string list \<Rightarrow> sharding" where
  "arange_sharding ds names = \<lparr>dims = ds, ranks = map int [0..<prod_list ds], axis_names = names\<rparr>"

lemma arange_axes_ok:
  "length ds = length names \<Longrightarrow> distinct names \<Longrightarrow> names \<noteq> [] \<Longrightarrow> axes_ok (arange_sharding ds names)"
  by (simp add: axes_ok_def sharding_wf_def arange_sharding_def distinct_map)

lemma arange_coords:
  assumes "length ds = length names" and "distinct names" and "names \<noteq> []" and "w < prod_list ds"
  shows "get_worker_coords (arange_sharding ds names) (int w) = Inr (zip names (coords_at ds w))"
  using worker_coords[OF arange_axes_ok[OF assms(1-3)], of w] assms(4) by (simp add: arange_sharding_def)

lemma zip_coord:
  "distinct names \<Longrightarrow> length cs = length names \<Longrightarrow> i < length names \<Longrightarrow> coord (zip names cs) (names ! i) = Some (cs ! i)"
  by (simp add: coord_def map_of_zip_at)

lemma filter_upt_image:
  assumes "\<And>d e. d < e \<Longrightarrow> e < m \<Longrightarrow> f d < (f e :: nat)"
    and "\<And>w. w < n \<Longrightarrow> P w \<longleftrightarrow> (\<exists>d<m. w = f d)" and "\<And>d. d < m \<Longrightarrow> f d < n"
  shows "filter P [0..<n] = map f [0..<m]"
proof (rule sorted_distinct_set_unique)
  show "sorted (map f [0..<m])"
    using assms(1) by (auto simp: sorted_iff_nth_mono_less intro: less_imp_le)
  show "distinct (map f [0..<m])"
  proof -
    have "inj_on f {0..<m}"
      by (rule inj_onI) (metis assms(1) atLeastLessThan_iff less_irrefl linorder_neqE_nat)
    then show ?thesis by (simp add: distinct_map)
  qed
  show "set (filter P [0..<n]) = set (map f [0..<m])"
    using assms(2,3) by auto
  show "sorted (filter P [0..<n])"
    by (rule sorted_wrt_filter) simp
qed simp


definition leader_of :: "nat list \<Rightarrow> nat \<Rightarrow> nat \<Rightarrow> nat" where
  "leader_of ds a d = d * prod_list (drop (Suc a) ds)"

lemma position_zeros: "length cs = length ds \<Longrightarrow> \<forall>c\<in>set cs. c = 0 \<Longrightarrow> position ds cs = 0"
  by (induction ds cs rule: position.induct) auto

lemma position_axis:
  "length cs = length ds \<Longrightarrow> a < length ds \<Longrightarrow> \<forall>i<length ds. i \<noteq> a \<longrightarrow> cs ! i = 0 \<Longrightarrow>
     position ds cs = leader_of ds a (cs ! a)"
proof (induction ds cs arbitrary: a rule: position.induct)
  case (1 d ds c cs)
  show ?case
  proof (cases a)
    case 0
    have "cs ! i = 0" if "i < length ds" for i
      using 1(4) that 0 by auto
    then have "\<forall>c\<in>set cs. c = 0" using 1(2) by (auto simp: in_set_conv_nth)
    with 1(2) 0 show ?thesis by (simp add: position_zeros leader_of_def)
  next
    case (Suc b)
    have "c = 0" using 1(4) Suc by fastforce
    moreover have "position ds cs = leader_of ds b (cs ! b)"
      using 1(2,3) 1(4)[rule_format, of "Suc _"] Suc by (intro "1.IH") auto
    ultimately show ?thesis by (simp add: Suc leader_of_def)
  qed
qed simp_all

lemma leader_coords:
  assumes a: "a < length ds" and pos: "\<forall>d\<in>set ds. 0 < d" and d: "d < ds ! a"
  shows "leader_of ds a d < prod_list ds"
    "coords_at ds (leader_of ds a d) = (replicate (length ds) 0)[a := d]"
proof -
  let ?cs = "(replicate (length ds) 0)[a := d]"
  have l: "list_all2 (<) ?cs ds"
    using a pos d by (auto simp: list_all2_conv_all_nth nth_list_update)
  have "position ds ?cs = leader_of ds a d"
    using position_axis[of ?cs ds a] a by simp
  with ordinal_less[OF l] coords_at_position[OF l]
  show "leader_of ds a d < prod_list ds" "coords_at ds (leader_of ds a d) = ?cs" by simp_all
qed

lemma zero_but_axis:
  assumes a: "a < length ds" and pos: "\<forall>d\<in>set ds. 0 < d" and w: "w < prod_list ds"
  shows "(\<forall>i<length ds. i \<noteq> a \<longrightarrow> coords_at ds w ! i = 0) \<longleftrightarrow> (\<exists>d<ds ! a. w = leader_of ds a d)"
proof
  assume z: "\<forall>i<length ds. i \<noteq> a \<longrightarrow> coords_at ds w ! i = 0"
  have "w = leader_of ds a (coords_at ds w ! a)"
    using position_axis[OF _ a z] position_coords_at[OF w] by simp
  moreover have "coords_at ds w ! a < ds ! a"
    using coords_at_less[OF w] a by (simp add: list_all2_conv_all_nth)
  ultimately show "\<exists>d<ds ! a. w = leader_of ds a d" by blast
next
  assume "\<exists>d<ds ! a. w = leader_of ds a d"
  then show "\<forall>i<length ds. i \<noteq> a \<longrightarrow> coords_at ds w ! i = 0"
    using leader_coords[OF a pos] a by auto
qed

text \<open>The group's workers are the ranks of an array with the data axis at \<open>a\<close>.\<close>

definition arranged :: "worker_group \<Rightarrow> nat list \<Rightarrow> string list \<Rightarrow> nat \<Rightarrow> bool" where
  "arranged g ds names a \<longleftrightarrow>
     sharding_annotations g = Some (arange_sharding ds names) \<and> workers g = [0..<prod_list ds] \<and>
     length ds = length names \<and> distinct names \<and> a < length names \<and> (\<forall>d\<in>set ds. 0 < d)"

text \<open>
  Every worker whose free axes are at 0 is called with the part at its place on the data axis, and the
  results that come back are those of one worker per place, in the order of the places.
\<close>

definition gets_data :: "string list \<Rightarrow> nat \<Rightarrow> string list \<Rightarrow> nat list \<Rightarrow> nat \<Rightarrow> bool" where
  "gets_data names a repl ds w \<longleftrightarrow>
     (\<forall>i<length names. i \<noteq> a \<longrightarrow> names ! i \<notin> set repl \<longrightarrow> coords_at ds w ! i = 0)"

lemma scatter_calls:
  assumes g: "arranged g ds names a" and len: "length ps = ds ! a"
    and repl: "set repl \<subseteq> set names - {names ! a}" and outs: "set repl \<subseteq> set outs" "names ! a \<notin> set outs"
  shows "run_all_workers_sharded_data g [names ! a] repl outs False [(key, Slices (map Whole ps))] common =
    (let to = filter (gets_data names a repl ds) [0..<prod_list ds]
     in (\<lparr>futures = map (\<lambda>w. \<lparr>called = w, arguments = (key, Some (Whole (ps ! (coords_at ds w ! a)))) # common\<rparr>) to,
          called_workers = to, return_from_workers = map (leader_of ds a) [0..<ds ! a]\<rparr>, Inr ()))"
    "set (map (leader_of ds a) [0..<ds ! a]) \<subseteq> set (filter (gets_data names a repl ds) [0..<prod_list ds])"
proof -
  let ?s = "arange_sharding ds names" and ?n = "prod_list ds"
  note lay = g[unfolded arranged_def]
  have ne: "names \<noteq> []" using lay by auto
  define cs where "cs w = zip names (coords_at ds w)" for w
  define fl where "fl w = receives [names ! a] repl outs (cs w) names True" for w
  have coords: "get_worker_coords ?s (int w) = Inr (cs w)" if "w < ?n" for w
    using arange_coords[OF _ _ ne that] lay by (simp add: cs_def)
  have at: "coord (cs w) (names ! i) = Some (coords_at ds w ! i)" if "i < length names" for w i
    using zip_coord[of names "coords_at ds w" i] lay that by (simp add: cs_def)
  have below: "coords_at ds w ! a < ds ! a" if "w < ?n" for w
    using coords_at_less[OF that] lay by (simp add: list_all2_conv_all_nth)
  have data: "fst (fl w) = gets_data names a repl ds w" for w
    unfolding fl_def receives_iff(1) all_set_conv_all_nth gets_data_def
    using lay by (auto simp: at nth_eq_iff_index_eq)
  have ret: "snd (fl w) \<longleftrightarrow> (\<exists>d<ds ! a. w = leader_of ds a d)" if w: "w < ?n" for w
  proof -
    have "snd (fl w) \<longleftrightarrow> (\<forall>i<length names. i \<noteq> a \<longrightarrow> coords_at ds w ! i = 0)"
      unfolding fl_def receives_iff(2) receives_iff(1) all_set_conv_all_nth
      using repl outs lay by (auto simp: at nth_eq_iff_index_eq)
    then show ?thesis
      using zero_but_axis[of a ds w] lay w by simp
  qed
  have checked: "check_axes ?s [names ! a] repl [(key, Slices (map Whole ps))] = Inr ()"
  proof -
    have "\<exists>k. get_axis_size ?s n = Inr k" if "n \<in> set repl" for n
    proof -
      from that repl obtain i where "i < length names" "n = names ! i"
        by (metis Diff_iff in_set_conv_nth subsetD)
      then show ?thesis
        using axis_at(3)[OF arange_axes_ok[OF _ _ ne], of ds i] lay by (auto simp: arange_sharding_def)
    qed
    then have "\<exists>ns. mapR (get_axis_size ?s) repl = Inr ns"
      using mapR_total[of repl "get_axis_size ?s" "\<lambda>n. projr (get_axis_size ?s n)"] by fastforce
    then obtain ns where "mapR (get_axis_size ?s) repl = Inr ns" ..
    moreover have "names ! a \<notin> set repl" "\<forall>n\<in>set repl. n \<in> set names"
      using repl by auto
    ultimately show ?thesis
      using lay by (simp add: check_axes_def list_all_iff arange_sharding_def)
  qed
  have rets: "filter (\<lambda>w. snd (fl w)) [0..<?n] = map (leader_of ds a) [0..<ds ! a]"
  proof (rule filter_upt_image)
    have "0 < prod_list (drop (Suc a) ds)"
      using lay in_set_dropD[of 0 "Suc a" ds] by (force simp: prod_list_zero_iff intro!: gr0I)
    then show "leader_of ds a d < leader_of ds a e" if "d < e" "e < ds ! a" for d e
      using that by (simp add: leader_of_def)
    show "leader_of ds a d < ?n" if "d < ds ! a" for d
      using leader_coords(1)[of a ds d] lay that by simp
  qed (rule ret)
  have "sharded_loop ?s [names ! a] repl outs False [(key, Slices (map Whole ps))] common [0..<?n] =
      (let to = filter (\<lambda>w. fst (fl w)) [0..<?n]
       in (\<lparr>futures = map (\<lambda>w. \<lparr>called = w, arguments = [(key, Some (Whole (ps ! (coords_at ds w ! a))))] @ common\<rparr>) to,
            called_workers = to, return_from_workers = filter (\<lambda>w. snd (fl w)) [0..<?n]\<rparr>, Inr ()))"
    using sharded_loop_calls[of "[0..<?n]" ?s cs "[names ! a]" repl outs "[(key, Slices (map Whole ps))]"
        "\<lambda>w. [(key, Some (Whole (ps ! (coords_at ds w ! a))))]" common]
      coords at[of a] below lay len by (simp add: fl_def arange_sharding_def slice_at_def)
  then show "run_all_workers_sharded_data g [names ! a] repl outs False [(key, Slices (map Whole ps))] common =
    (let to = filter (gets_data names a repl ds) [0..<?n]
     in (\<lparr>futures = map (\<lambda>w. \<lparr>called = w, arguments = (key, Some (Whole (ps ! (coords_at ds w ! a)))) # common\<rparr>) to,
          called_workers = to, return_from_workers = map (leader_of ds a) [0..<ds ! a]\<rparr>, Inr ()))"
    using lay checked by (simp add: run_all_workers_sharded_data_def rets data)
  show "set (map (leader_of ds a) [0..<ds ! a]) \<subseteq> set (filter (gets_data names a repl ds) [0..<?n])"
    unfolding rets[symmetric] data[symmetric] using receives_ret by (auto simp: fl_def)
qed

lemma scatter_results:
  assumes g: "arranged g ds names a" and len: "length ps = ds ! a"
    and repl: "set repl \<subseteq> set names - {names ! a}" and outs: "set repl \<subseteq> set outs" "names ! a \<notin> set outs"
    and work: "\<And>w i. w < prod_list ds \<Longrightarrow> i < ds ! a \<Longrightarrow>
      work w ((key, Some (Whole (ps ! i))) # common) = Value (Inr (r w (ps ! i)))"
  shows "get_all_worker_results work (run_all_workers_sharded_data g [names ! a] repl outs False
      [(key, Slices (map Whole ps))] common) = Inr (map (\<lambda>d. r (leader_of ds a d) (ps ! d)) [0..<ds ! a])"
proof -
  note lay = g[unfolded arranged_def]
  let ?to = "filter (gets_data names a repl ds) [0..<prod_list ds]"
  let ?r = "\<lambda>w. r w (ps ! (coords_at ds w ! a))"
  have "coords_at ds w ! a < ds ! a" if "w < prod_list ds" for w
    using coords_at_less[OF that] lay by (simp add: list_all2_conv_all_nth)
  with work have each: "map (\<lambda>c. work (called c) (arguments c)) (map (\<lambda>w. \<lparr>called = w,
        arguments = (key, Some (Whole (ps ! (coords_at ds w ! a)))) # common\<rparr>) ?to)
      = map (\<lambda>w. Value (Inr (?r w))) ?to"
    by simp
  have "map ?r (map (leader_of ds a) [0..<ds ! a]) = map (\<lambda>d. r (leader_of ds a d) (ps ! d)) [0..<ds ! a]"
    using leader_coords(2)[of a ds] lay by simp
  with get_results_of_called[of ?to "map (leader_of ds a) [0..<ds ! a]" "\<lambda>w. Inr (?r w)" ?r]
    scatter_calls(2)[OF g len repl outs]
  show ?thesis
    by (simp add: scatter_calls(1)[OF g len repl outs] Let_def get_all_worker_results_def each del: map_map)
qed

end
