(* ===== verification/PolicyDispatch.thy ===== *)
theory PolicyDispatch
  imports Sharding WorkerGroups
begin

text \<open>
  The policy over its workers (\<open>nemo_rl/models/policy/lm_policy.py\<close>) and the same calls of the vLLM
  generation (\<open>nemo_rl/models/generation/vllm/vllm_generation.py\<close>): the checks of the configuration, the
  arrangement of the workers, the sharding of a batch over the data-parallel ranks, the call to every
  worker, and the assembly of the results in the order of the batch.  What a worker computes on its
  shard is an argument.  Timers, FLOP counters, the dense weight transfers and the top-k and full logits,
  which are tensors of three dimensions, are left out.
\<close>

section \<open>The configuration\<close>

record dynamic_cfg =
  dc_lp_tokens :: int
  dc_train_tokens :: int
  dc_round :: int

record packing_cfg =
  sc_algorithm :: string
  sc_order :: "string option"
  sc_lp_tokens :: int
  sc_train_tokens :: int

record policy_cfg =
  megatron_enabled :: bool
  dtensor_enabled :: bool
  dtensor_v2 :: bool
  draft_enabled :: bool
  lora_enabled :: bool
  sglang_backend :: bool
  dp_replicate_size :: nat
  tp_size :: nat
  pp_size :: nat
  cp_size :: nat
  reserved_port :: bool
  train_micro_batch_size :: nat
  logprob_batch_size :: "nat option"
  pad_multiple :: int
  dynamic_batching :: "dynamic_cfg option"
  sequence_packing :: "packing_cfg option"

text \<open>Two environment variables are read: \<open>TORCH_CUDA_ARCH_LIST\<close> and \<open>NRL_IGNORE_TP_ACCURACY_CHECK\<close>.\<close>

record policy_env =
  arch_list_set :: bool
  ignore_tp_check :: bool

definition check_backend :: "policy_env \<Rightarrow> policy_cfg \<Rightarrow> unit res" where
  "check_backend env cfg =
     bindR (guardR ValueError (\<not> (megatron_enabled cfg \<and> dtensor_enabled cfg))) (\<lambda>_.
     bindR (guardR ValueError (reserved_port cfg \<longrightarrow> megatron_enabled cfg)) (\<lambda>_.
     bindR (guardR ValueError (draft_enabled cfg \<longrightarrow> megatron_enabled cfg)) (\<lambda>_.
     bindR (guardR ValueError (\<not> (draft_enabled cfg \<and> sequence_packing cfg \<noteq> None))) (\<lambda>_.
       if megatron_enabled cfg then guardR RuntimeError (arch_list_set env)
       else bindR (guardR ValueError (dtensor_enabled cfg)) (\<lambda>_.
         if dtensor_v2 cfg then Inr ()
         else bindR (assertR (\<not> lora_enabled cfg)) (\<lambda>_.
              bindR (guardR ValueError (\<not> sglang_backend cfg)) (\<lambda>_.
                guardR ValueError (dp_replicate_size cfg \<le> 1))))))))"

text \<open>Only Megatron has pipeline stages.\<close>

definition stages :: "policy_cfg \<Rightarrow> nat" where
  "stages cfg = (if megatron_enabled cfg then pp_size cfg else 1)"

definition check_world :: "policy_env \<Rightarrow> policy_cfg \<Rightarrow> nat \<Rightarrow> nat res" where
  "check_world env cfg world =
     (let mp = stages cfg * cp_size cfg * tp_size cfg
      in bindR (assertR (\<not> ignore_tp_check env \<and> logprob_batch_size cfg \<noteq> None \<and> tp_size cfg \<ge> 4 \<longrightarrow>
                   logprob_batch_size cfg = Some (train_micro_batch_size cfg))) (\<lambda>_.
         bindR (guardR ValueError (mp \<le> world)) (\<lambda>_.
         bindR (guardR ZeroDivisionError (mp \<noteq> 0)) (\<lambda>_.
         bindR (guardR ValueError (world mod mp = 0)) (\<lambda>_. Inr (world div mp))))))"

definition check_batching :: "policy_cfg \<Rightarrow> unit res" where
  "check_batching cfg =
     bindR (assertR (dynamic_batching cfg \<noteq> None \<longrightarrow> stages cfg = 1)) (\<lambda>_.
       assertR (\<not> (dynamic_batching cfg \<noteq> None \<and> sequence_packing cfg \<noteq> None)))"

section \<open>The policy\<close>

text \<open>
  What the policy reads of the cluster: the bundles of its placement groups, the number of ranks, the
  GPUs per node, and the bundles in topological order when one placement group spans the nodes.
\<close>

record cluster =
  pg_bundles :: "nat list"
  cl_world :: nat
  gpus_per_node :: nat
  sorted_bundles :: "nat list option"

definition POLICY_AXES :: "string list" where
  "POLICY_AXES = [''pipeline_parallel'', ''data_parallel'', ''context_parallel'', ''tensor_parallel'']"

definition REPLICATED_CALL :: "string list" where
  "REPLICATED_CALL = [''context_parallel'', ''tensor_parallel'', ''pipeline_parallel'']"

definition tied_by_node :: "nat \<Rightarrow> nat list \<Rightarrow> tied_groups" where
  "tied_by_node per_node bundles = map (\<lambda>(i, b). (i div per_node, [b])) (List.enumerate 0 bundles)"

record policy =
  p_cfg :: policy_cfg
  p_dims :: "nat list"
  p_group :: worker_group

definition new_policy :: "policy_env \<Rightarrow> policy_cfg \<Rightarrow> cluster \<Rightarrow> per_node \<Rightarrow> policy res" where
  "new_policy env cfg cl per =
     bindR (check_backend env cfg) (\<lambda>_.
     bindR (check_world env cfg (cl_world cl)) (\<lambda>dp.
     let ds = [stages cfg, dp, cp_size cfg, tp_size cfg];
         annotations = arange_sharding ds POLICY_AXES
     in bindR (case sorted_bundles cl of
                 Some bs \<Rightarrow>
                   bindR (guardR ZeroDivisionError (gpus_per_node cl \<noteq> 0 \<or> bs = [])) (\<lambda>_.
                     new_worker_group (pg_bundles cl) per ''lm_policy'' (Some (tied_by_node (gpus_per_node cl) bs))
                       (Some annotations))
               | None \<Rightarrow> new_worker_group (pg_bundles cl) per ''lm_policy'' None (Some annotations)) (\<lambda>g.
        bindR (check_batching cfg) (\<lambda>_. Inr \<lparr>p_cfg = cfg, p_dims = ds, p_group = g\<rparr>))))"

definition data_parallel_size :: "policy \<Rightarrow> nat res" where
  "data_parallel_size p =
     (case sharding_annotations (p_group p) of
        None \<Rightarrow> Inl AttributeError | Some s \<Rightarrow> get_axis_size s ''data_parallel'')"

section \<open>Sharding for a stage\<close>

datatype stage = Logprob | Training

definition dynamic_args_for :: "stage \<Rightarrow> dynamic_cfg \<Rightarrow> dynamic_args" where
  "dynamic_args_for st c =
     \<lparr>dyn_max_tokens = (case st of Logprob \<Rightarrow> dc_lp_tokens c | Training \<Rightarrow> dc_train_tokens c),
      dyn_round = dc_round c, dyn_input_key = ''input_ids'', dyn_lengths_key = ''input_lengths''\<rparr>"

definition packing_args_for :: "stage \<Rightarrow> int \<Rightarrow> packing_cfg \<Rightarrow> packing_args" where
  "packing_args_for st multiple c =
     \<lparr>pk_max_tokens = (case st of Logprob \<Rightarrow> sc_lp_tokens c | Training \<Rightarrow> sc_train_tokens c),
      pk_lengths_key = ''input_lengths'', pk_algorithm = sc_algorithm c, pk_order = sc_order c,
      pk_pad_multiple = multiple\<rparr>"

definition batching_args :: "stage \<Rightarrow> policy_cfg \<Rightarrow> dynamic_args option \<times> packing_args option" where
  "batching_args st cfg =
     (case dynamic_batching cfg of
        Some c \<Rightarrow> (Some (dynamic_args_for st c), None)
      | None \<Rightarrow> (None, map_option (packing_args_for st (pad_multiple cfg)) (sequence_packing cfg)))"

definition shard_for ::
  "(nat \<Rightarrow> nat \<Rightarrow> nat) \<Rightarrow> stage \<Rightarrow> policy \<Rightarrow> batch \<Rightarrow> nat option \<Rightarrow> (batch list \<times> nat list option) res" where
  "shard_for draw st p data batch_size =
     bindR (data_parallel_size p) (\<lambda>dp.
       case batching_args st (p_cfg p) of (dyn, pk) \<Rightarrow>
         shard_by_batch_size draw data dp batch_size False dyn pk)"

definition shard_for_logprob ::
  "(nat \<Rightarrow> nat \<Rightarrow> nat) \<Rightarrow> policy \<Rightarrow> batch \<Rightarrow> (batch list \<times> nat list option) res" where
  "shard_for_logprob draw p data = shard_for draw Logprob p data None"

definition shard_for_train :: "(nat \<Rightarrow> nat \<Rightarrow> nat) \<Rightarrow> policy \<Rightarrow> batch \<Rightarrow> nat \<Rightarrow> batch list res" where
  "shard_for_train draw p data batch_size =
     bindR (shard_for draw Training p data (Some batch_size)) (\<lambda>(ps, _). Inr ps)"

section \<open>Calls that answer with rows\<close>

text \<open>
  \<open>ask\<close> says what a method of a worker answers for a shard; the arguments that go to every worker alike
  are part of it.
\<close>

definition call_shards ::
  "worker_group \<Rightarrow> string list \<Rightarrow> string list \<Rightarrow> (nat \<Rightarrow> batch \<Rightarrow> 'r res) \<Rightarrow> batch list \<Rightarrow> 'r list res" where
  "call_shards g repl outs ask ps =
     get_all_worker_results
       (\<lambda>w kw. case map_of kw ''data'' of Some (Some (Whole b)) \<Rightarrow> Value (ask w b) | _ \<Rightarrow> Value (Inl TypeError))
       (run_all_workers_sharded_data g [''data_parallel''] repl outs False [(''data'', Slices (map Whole ps))] [])"

definition logprob_call ::
  "(nat \<Rightarrow> nat \<Rightarrow> nat) \<Rightarrow> policy \<Rightarrow> (nat \<Rightarrow> batch \<Rightarrow> batch res) \<Rightarrow> batch \<Rightarrow> batch res" where
  "logprob_call draw p ask data =
     bindR (shard_for_logprob draw p data) (\<lambda>(ps, unsorted).
     bindR (call_shards (p_group p) REPLICATED_CALL REPLICATED_CALL ask ps) (\<lambda>rs.
     bindR (from_batches Map.empty rs) (\<lambda>out.
       case unsorted of None \<Rightarrow> Inr out | Some ixs \<Rightarrow> reorder_data out ixs)))"

definition get_logprobs ::
  "(nat \<Rightarrow> nat \<Rightarrow> nat) \<Rightarrow> policy \<Rightarrow> (string \<Rightarrow> nat \<Rightarrow> batch \<Rightarrow> batch res) \<Rightarrow> batch \<Rightarrow> batch res" where
  "get_logprobs draw p ask data = logprob_call draw p (ask ''get_logprobs'') data"

definition get_reference_policy_logprobs ::
  "(nat \<Rightarrow> nat \<Rightarrow> nat) \<Rightarrow> policy \<Rightarrow> (string \<Rightarrow> nat \<Rightarrow> batch \<Rightarrow> batch res) \<Rightarrow> batch \<Rightarrow> batch res" where
  "get_reference_policy_logprobs draw p ask data = logprob_call draw p (ask ''get_reference_policy_logprobs'') data"

definition has_cols :: "string list \<Rightarrow> batch \<Rightarrow> bool" where
  "has_cols ks b = list_all (\<lambda>k. map_of (columns b) k \<noteq> None) ks"

definition GENERATION_KEYS :: "string list" where
  "GENERATION_KEYS = [''output_ids'', ''generation_lengths'', ''unpadded_sequence_lengths'', ''logprobs'']"

definition policy_generate ::
  "int \<Rightarrow> policy \<Rightarrow> (string \<Rightarrow> nat \<Rightarrow> batch \<Rightarrow> batch res) \<Rightarrow> batch \<Rightarrow> batch res" where
  "policy_generate pad_token p ask data =
     bindR (assertR (has_cols [''input_ids'', ''input_lengths''] data)) (\<lambda>_.
     bindR (data_parallel_size p) (\<lambda>dp.
     bindR (shard_by_batch_size (\<lambda>_. id) data dp None False None None) (\<lambda>(ps, _).
     bindR (call_shards (p_group p) [''tensor_parallel'', ''pipeline_parallel'']
        [''tensor_parallel'', ''pipeline_parallel''] (ask ''generate'') ps) (\<lambda>rs.
     bindR (from_batches [''output_ids'' \<mapsto> pad_token] rs) (\<lambda>out.
     bindR (guardR ValueError (has_cols GENERATION_KEYS out)) (\<lambda>_. Inr out))))))"

definition score :: "policy \<Rightarrow> (string \<Rightarrow> nat \<Rightarrow> batch \<Rightarrow> batch res) \<Rightarrow> batch \<Rightarrow> batch res" where
  "score p ask data =
     bindR (assertR (has_cols [''input_ids'', ''input_lengths''] data)) (\<lambda>_.
     bindR (data_parallel_size p) (\<lambda>dp.
     bindR (shard_by_batch_size (\<lambda>_. id) data dp None False None None) (\<lambda>(ps, _).
     bindR (call_shards (p_group p) REPLICATED_CALL REPLICATED_CALL (ask ''score'') ps) (\<lambda>rs.
     bindR (from_batches Map.empty rs) (\<lambda>out.
     bindR (guardR ValueError (has_cols [''scores''] out)) (\<lambda>_. Inr out))))))"

section \<open>Training\<close>

text \<open>What a worker reports of a training step; the optional parts only when present.\<close>

record 'm train_report =
  global_loss :: 'm
  report_grad_norm :: 'm
  moe_metrics :: "'m option"
  mtp_metrics :: "'m option"
  draft_grad_norm :: "'m option"
  mb_metrics :: "(string \<times> 'm list) list"

text \<open>A \<open>defaultdict(list)\<close> extended key by key, in the order of first use\<close>

definition extend_key :: "string \<Rightarrow> 'm list \<Rightarrow> (string \<times> 'm list) list \<Rightarrow> (string \<times> 'm list) list" where
  "extend_key k vs d =
     (if k \<in> fst ` set d then map (\<lambda>(j, us). if j = k then (j, us @ vs) else (j, us)) d else d @ [(k, vs)])"

definition extend_metrics :: "(string \<times> 'm list) list \<Rightarrow> 'm train_report \<Rightarrow> (string \<times> 'm list) list" where
  "extend_metrics d r = fold (\<lambda>(k, vs). extend_key k vs) (mb_metrics r) d"

definition aggregate_train :: "'m train_report list \<Rightarrow> 'm train_report res" where
  "aggregate_train rs =
     (case rs of
        [] \<Rightarrow> Inl IndexError
      | r # _ \<Rightarrow> Inr (r\<lparr>mb_metrics := foldl extend_metrics [] rs\<rparr>))"

definition policy_train ::
  "(nat \<Rightarrow> nat \<Rightarrow> nat) \<Rightarrow> policy \<Rightarrow> (string \<Rightarrow> nat \<Rightarrow> batch \<Rightarrow> 'm train_report res) \<Rightarrow> batch \<Rightarrow> nat \<Rightarrow>
   'm train_report res" where
  "policy_train draw p ask data batch_size =
     bindR (shard_for_train draw p data batch_size) (\<lambda>ps.
     bindR (call_shards (p_group p) REPLICATED_CALL REPLICATED_CALL (ask ''train'') ps) aggregate_train)"

section \<open>The vLLM generation\<close>

record vllm_cfg =
  v_tp :: nat
  v_pp :: nat
  v_ep :: nat
  async_engine :: bool
  top_k :: "int option"
  top_p :: rat
  keys_present :: bool
  pad_token_id :: int

definition check_vllm :: "vllm_cfg \<Rightarrow> nat \<Rightarrow> nat res" where
  "check_vllm cfg world =
     (let mp = v_tp cfg * v_pp cfg
      in bindR (guardR ZeroDivisionError (mp \<noteq> 0)) (\<lambda>_.
         bindR (assertR (world mod mp = 0)) (\<lambda>_.
         bindR (assertR (v_pp cfg > 1 \<longrightarrow> async_engine cfg)) (\<lambda>_.
         bindR (assertR (v_ep cfg > 1 \<longrightarrow> v_ep cfg mod v_tp cfg = 0)) (\<lambda>_.
         bindR (assertR (v_ep cfg > 1 \<and> v_ep cfg \<noteq> v_tp cfg \<longrightarrow> \<not> async_engine cfg)) (\<lambda>_.
         bindR (guardR ValueError (case top_k cfg of None \<Rightarrow> True | Some k \<Rightarrow> k = - 1 \<or> 1 \<le> k)) (\<lambda>_.
         bindR (guardR ValueError (0 < top_p cfg \<and> top_p cfg \<le> 1)) (\<lambda>_.
         bindR (assertR (keys_present cfg)) (\<lambda>_. Inr (world div mp))))))))))"

text \<open>The bundles of one placement group, by node, in the order of the node ids\<close>

definition nodes_of :: "(nat \<times> string) list \<Rightarrow> string list" where
  "nodes_of table = sort (remdups (map snd table))"

definition bundles_by_node :: "(nat \<times> string) list \<Rightarrow> nat list list" where
  "bundles_by_node table = map (\<lambda>n. sort (map fst (filter (\<lambda>(b, m). m = n) table))) (nodes_of table)"

definition flat_bundles :: "nat list option \<Rightarrow> (nat \<times> string) list \<Rightarrow> nat list res" where
  "flat_bundles by_topology table =
     (case by_topology of
        Some bs \<Rightarrow> Inr bs
      | None \<Rightarrow>
          bindR (guardR ValueError (table \<noteq> [])) (\<lambda>_.
          bindR (assertR (length (remdups (map length (bundles_by_node table))) = 1)) (\<lambda>_.
            Inr (concat (bundles_by_node table)))))"

definition consecutive :: "nat \<Rightarrow> 'a list \<Rightarrow> 'a list list" where
  "consecutive m xs = map (\<lambda>i. slice (i * m) ((i + 1) * m) xs) [0..<length xs div m]"

definition unified_groups :: "nat \<Rightarrow> nat list option \<Rightarrow> (nat \<times> string) list \<Rightarrow> tied_groups res" where
  "unified_groups mp by_topology table =
     bindR (flat_bundles by_topology table) (\<lambda>flat.
     bindR (guardR ZeroDivisionError (mp \<noteq> 0)) (\<lambda>_.
     bindR (guardR ValueError (length flat div mp \<noteq> 0)) (\<lambda>_.
       mapR (\<lambda>bs. case map_of (rev table) (hd bs) of
              None \<Rightarrow> Inl KeyError
            | Some n \<Rightarrow> Inr (length (filter (\<lambda>m. m < n) (nodes_of table)), bs))
         (consecutive mp flat))))"

definition per_node_groups :: "nat \<Rightarrow> nat list \<Rightarrow> tied_groups res" where
  "per_node_groups mp pgs =
     bindR (guardR ZeroDivisionError (mp \<noteq> 0 \<or> list_all (\<lambda>n. n = 0) pgs)) (\<lambda>_.
       Inr (concat (map (\<lambda>(i, n). map (\<lambda>j. (i, [j * mp..<j * mp + mp])) [0..<n div mp])
              (List.enumerate 0 pgs))))"

definition tied_worker_bundles :: "nat \<Rightarrow> cluster \<Rightarrow> (nat \<times> string) list \<Rightarrow> tied_groups res" where
  "tied_worker_bundles mp cl table =
     bindR (guardR ValueError (pg_bundles cl \<noteq> [])) (\<lambda>_.
     bindR (if length (pg_bundles cl) = 1 then unified_groups mp (sorted_bundles cl) table
            else per_node_groups mp (pg_bundles cl)) (\<lambda>gs.
     bindR (guardR ValueError (gs \<noteq> [])) (\<lambda>_. Inr gs)))"

definition VLLM_AXES :: "string list" where
  "VLLM_AXES = [''data_parallel'', ''pipeline_parallel'', ''tensor_parallel'']"

record vllm =
  v_cfg :: vllm_cfg
  v_dims :: "nat list"
  v_group :: worker_group

definition new_vllm :: "vllm_cfg \<Rightarrow> cluster \<Rightarrow> (nat \<times> string) list \<Rightarrow> per_node \<Rightarrow> vllm res" where
  "new_vllm cfg cl table per =
     bindR (check_vllm cfg (cl_world cl)) (\<lambda>dp.
     let mp = v_tp cfg * v_pp cfg; ds = [dp, v_pp cfg, v_tp cfg]; ann = Some (arange_sharding ds VLLM_AXES)
     in bindR (if mp > 1
               then bindR (tied_worker_bundles mp cl table) (\<lambda>gs.
                      new_worker_group (pg_bundles cl) per ''vllm_policy'' (Some gs) ann)
               else new_worker_group (pg_bundles cl) per ''vllm_policy'' None ann) (\<lambda>g.
        bindR (assertR (dp = group_dp_size g)) (\<lambda>_. Inr \<lparr>v_cfg = cfg, v_dims = ds, v_group = g\<rparr>)))"

definition vllm_call ::
  "vllm \<Rightarrow> string list \<Rightarrow> (nat \<Rightarrow> batch \<Rightarrow> batch res) \<Rightarrow> batch \<Rightarrow> batch res" where
  "vllm_call v required ask data =
     bindR (case sharding_annotations (v_group v) of
              None \<Rightarrow> Inl AttributeError | Some s \<Rightarrow> get_axis_size s ''data_parallel'') (\<lambda>dp.
     bindR (shard_by_batch_size (\<lambda>_. id) data dp None True None None) (\<lambda>(ps, _).
     bindR (call_shards (v_group v) [] [] ask ps) (\<lambda>rs.
     bindR (from_batches [''output_ids'' \<mapsto> pad_token_id (v_cfg v)] rs) (\<lambda>out.
     bindR (guardR ValueError (has_cols required out)) (\<lambda>_. Inr out)))))"


definition vllm_generate_text :: "vllm \<Rightarrow> (string \<Rightarrow> nat \<Rightarrow> batch \<Rightarrow> batch res) \<Rightarrow> batch \<Rightarrow> batch res" where
  "vllm_generate_text v ask data =
     bindR (guardR RuntimeError (\<not> async_engine (v_cfg v))) (\<lambda>_.
       vllm_call v [''texts''] (ask ''generate_text'') data)"

section \<open>Rows computed on the shards\<close>

definition row :: "batch \<Rightarrow> nat \<Rightarrow> string \<Rightarrow> column option" where
  "row b i k = map_option (\<lambda>c. take_rows c [i]) (map_of (columns b) k)"

text \<open>
  Every worker answers the same columns, whose entry for a row depends on that row only: a number, or a list
  of numbers in a matrix of some width.
\<close>

datatype column_spec = NumberOf "(string \<Rightarrow> column option) \<Rightarrow> int" | ListOf "(string \<Rightarrow> column option) \<Rightarrow> int list"

fun answer_column :: "column_spec \<Rightarrow> nat \<Rightarrow> (string \<Rightarrow> column option) list \<Rightarrow> column" where
  "answer_column (NumberOf f) wd rows = Vector (map f rows)"
| "answer_column (ListOf F) wd rows = Matrix wd (map F rows)"

definition answer ::
  "(string \<times> column_spec) list \<Rightarrow> (string \<Rightarrow> nat) \<Rightarrow> (string \<Rightarrow> column option) list \<Rightarrow> batch" where
  "answer specs wd rows = new_batch (map (\<lambda>(k, sp). (k, answer_column sp (wd k) rows)) specs)"

definition row_wise :: "(string \<times> column_spec) list \<Rightarrow> (nat \<Rightarrow> batch \<Rightarrow> batch res) \<Rightarrow> bool" where
  "row_wise specs ask \<longleftrightarrow> (\<forall>w p n. batch_wf p n \<longrightarrow>
     (\<exists>wd. ask w p = Inr (answer specs wd (map (row p) [0..<n]))))"

text \<open>The columns of all rows: lists are padded to the longest.\<close>

fun stacked :: "int \<Rightarrow> column_spec \<Rightarrow> (string \<Rightarrow> column option) list \<Rightarrow> column" where
  "stacked v (NumberOf f) rows = Vector (map f rows)"
| "stacked v (ListOf F) rows =
     (let W = Max (set (map (\<lambda>r. length (F r)) rows)) in Matrix W (map (\<lambda>r. pad_right v W (F r)) rows))"

lemma row_of_shard:
  assumes "shard_rows b ixs p" and "j < length ixs"
  shows "row p j = row b (ixs ! j)"
proof
  fix k
  have "get_col p k = bindR (get_col b k) (\<lambda>c. Inr (take_rows c ixs))"
    using assms(1) by (simp add: shard_rows_def)
  then have "map_of (columns p) k = map_option (\<lambda>c. take_rows c ixs) (map_of (columns b) k)"
    by (auto simp: get_col_def split: option.splits)
  with assms(2) show "row p j k = row b (ixs ! j) k"
    by (simp add: row_def option.map_comp comp_def)
qed

lemma rows_of_shard: "shard_rows b ixs p \<Longrightarrow> map (row p) [0..<length ixs] = map (row b) ixs"
  using row_of_shard by (intro nth_equalityI) simp_all

lemma sort_remdups_repeat:
  assumes "distinct ks" and "xss \<noteq> []" and "\<forall>xs\<in>set xss. xs = ks"
  shows "sort (remdups (concat xss)) = sort (ks :: string list)"
proof -
  have "set (concat xss) = set ks" using assms(2,3) by (cases xss) auto
  then show ?thesis
    using assms(1) by (metis distinct_remdups_id sorted_list_of_set_sort_remdups)
qed

lemma stack_answers:
  assumes "concat (map snd ps) \<noteq> []"
  shows "stack_columns v (map (\<lambda>(wd, rows). answer_column sp (wd k) rows) ps) = Inr (stacked v sp (concat (map snd ps)))"
proof (cases sp)
  case (NumberOf f)
  have "ps \<noteq> []" using assms by auto
  moreover have "concat (map (the \<circ> vector_of) (map (\<lambda>(wd, rows). Vector (map f rows)) ps)) = map f (concat (map snd ps))"
    by (induction ps) auto
  ultimately show ?thesis
    by (cases ps) (auto simp: NumberOf stack_columns_def list_all_iff split_def)
next
  case (ListOf F)
  let ?rows = "map F (concat (map snd ps))"
  have "ps \<noteq> []" using assms by auto
  moreover have flat: "concat (map flat_rows (map (\<lambda>(wd, rows). Matrix (wd k) (map F rows)) ps)) = ?rows"
    by (induction ps) auto
  ultimately have "stack_columns v (map (\<lambda>(wd, rows). answer_column sp (wd k) rows) ps) = pad_sequence v ?rows"
    unfolding ListOf answer_column.simps stack_columns_def flat
    by (cases ps) (auto simp: list_all_iff split_def)
  also have "\<dots> = Inr (stacked v sp (concat (map snd ps)))"
    unfolding pad_sequence_def ListOf stacked.simps Let_def using assms
    by (simp only: map_map comp_def map_is_Nil_conv if_False)
  finally show ?thesis .
qed

lemma from_batches_answers:
  assumes "concat (map snd ps) \<noteq> []" and "distinct (map fst specs)"
  shows "from_batches pad (map (\<lambda>(wd, rows). answer specs wd rows) ps) =
    Inr (new_batch (map (\<lambda>k. (k, stacked (case pad k of None \<Rightarrow> 0 | Some v \<Rightarrow> v) (the (map_of specs k)) (concat (map snd ps))))
      (sort (map fst specs))))"
proof -
  let ?bs = "map (\<lambda>(wd, rows). answer specs wd rows) ps"
  have ne: "ps \<noteq> []" using assms(1) by auto
  have keys: "sort (remdups (concat (map (map fst \<circ> columns) ?bs))) = sort (map fst specs)"
    using ne by (intro sort_remdups_repeat[OF assms(2)]) (auto simp: answer_def comp_def split_def)
  have key: "bindR (guardR KeyError
        (\<not> list_ex (\<lambda>b. map_of (columns b) k = None \<and> batch_len b \<noteq> 0) ?bs)) (\<lambda>_.
      bindR (stack_columns (case pad k of None \<Rightarrow> 0 | Some v \<Rightarrow> v)
        (List.map_filter (\<lambda>b. map_of (columns b) k) ?bs)) (\<lambda>c. Inr (k, c)))
      = Inr (k, stacked (case pad k of None \<Rightarrow> 0 | Some v \<Rightarrow> v) (the (map_of specs k)) (concat (map snd ps)))"
    if k: "k \<in> set (sort (map fst specs))" for k
  proof -
    from k have "k \<in> set (map fst specs)" by simp
    then obtain sp where sp: "map_of specs k = Some sp"
      by (metis image_set map_of_eq_None_iff not_None_eq)
    have col: "map_of (columns (answer specs wd rows)) k = Some (answer_column sp (wd k) rows)" for wd rows
    proof -
      have "map_of (map (\<lambda>(k, sp). (k, answer_column sp (wd k) rows)) specs) k = Some (answer_column sp (wd k) rows)"
        using sp by (induction specs) (auto split: if_splits)
      then show ?thesis by (simp add: answer_def)
    qed
    have "List.map_filter (\<lambda>b. map_of (columns b) k) ?bs = map (\<lambda>(wd, rows). answer_column sp (wd k) rows) ps"
      by (induction ps) (auto simp: List.map_filter_def col)
    with sp stack_answers[OF assms(1)] show ?thesis
      by (simp add: list_ex_iff split_def col)
  qed
  show ?thesis
    unfolding from_batches_def Let_def keys by (subst mapR_total[OF key]) simp_all
qed

text \<open>
  What the policy relies on: a call that reaches every data-parallel rank with its shard and hands
  back the answer of one worker per rank, in the order of the ranks.
\<close>

locale dp_call =
  fixes scatter :: "worker_group \<Rightarrow> (nat \<Rightarrow> batch \<Rightarrow> batch res) \<Rightarrow> batch list \<Rightarrow> batch list res"
    and serves :: "worker_group \<Rightarrow> nat \<Rightarrow> bool"
  assumes one_answer_per_rank: "serves g dp \<Longrightarrow> length ps = dp \<Longrightarrow> (\<And>w p. p \<in> set ps \<Longrightarrow> ask w p = Inr (r w p)) \<Longrightarrow>
      \<exists>leader. scatter g ask ps = Inr (map (\<lambda>d. r (leader d) (ps ! d)) [0..<dp])"
begin

lemma gathered_rows:
  assumes g: "serves g dp" and cut: "cut_into b ps parts" and dp: "length parts = dp"
    and ne: "concat parts \<noteq> []" and rows: "row_wise specs ask" and keys: "distinct (map fst specs)"
  shows "bindR (scatter g ask ps) (from_batches pad) =
    Inr (new_batch (map (\<lambda>k. (k, stacked (case pad k of None \<Rightarrow> 0 | Some v \<Rightarrow> v) (the (map_of specs k))
      (map (row b) (concat parts)))) (sort (map fst specs))))"
proof -
  have len: "length ps = dp" using cut dp by (simp add: cut_into_def)
  have shard: "shard_rows b (parts ! s) (ps ! s)" if "s < dp" for s
    using cut that dp by (simp add: cut_into_def)
  have "\<exists>wd. ask w p = Inr (answer specs wd (map (row p) [0..<batch_len p]))" if p: "p \<in> set ps" for w p
  proof -
    obtain s where s: "s < dp" "p = ps ! s" using p len by (metis in_set_conv_nth)
    then have wf: "batch_wf p (length (parts ! s))" using shard by (simp add: shard_rows_def)
    from rows wf have "\<exists>wd. ask w p = Inr (answer specs wd (map (row p) [0..<length (parts ! s)]))"
      unfolding row_wise_def by blast
    then show ?thesis using batch_wf_len[OF wf] by simp
  qed
  then have "\<forall>x. \<exists>wd. snd x \<in> set ps \<longrightarrow>
      ask (fst x) (snd x) = Inr (answer specs wd (map (row (snd x)) [0..<batch_len (snd x)]))"
    by blast
  from choice[OF this] obtain f where f: "snd x \<in> set ps \<Longrightarrow>
      ask (fst x) (snd x) = Inr (answer specs (f x) (map (row (snd x)) [0..<batch_len (snd x)]))" for x
    by blast
  define wd where "wd w p = f (w, p)" for w p
  have ans: "ask w p = Inr (answer specs (wd w p) (map (row p) [0..<batch_len p]))" if "p \<in> set ps" for w p
    using f[of "(w, p)"] that by (simp add: wd_def)
  have "\<exists>leader. scatter g ask ps = Inr (map (\<lambda>d. answer specs (wd (leader d) (ps ! d))
      (map (row (ps ! d)) [0..<batch_len (ps ! d)])) [0..<dp])"
    by (rule one_answer_per_rank[OF g len]) (rule ans)
  then obtain leader where sc: "scatter g ask ps = Inr (map (\<lambda>d. answer specs (wd (leader d) (ps ! d))
      (map (row (ps ! d)) [0..<batch_len (ps ! d)])) [0..<dp])" ..
  let ?qs = "map (\<lambda>d. (wd (leader d) (ps ! d), map (row b) (parts ! d))) [0..<dp]"
  have "map (row (ps ! d)) [0..<batch_len (ps ! d)] = map (row b) (parts ! d)" if "d < dp" for d
    using rows_of_shard[OF shard[OF that]] shard[OF that] batch_wf_len by (auto simp: shard_rows_def)
  then have q: "map (\<lambda>d. answer specs (wd (leader d) (ps ! d)) (map (row (ps ! d)) [0..<batch_len (ps ! d)])) [0..<dp]
      = map (\<lambda>(wd, rows). answer specs wd rows) ?qs"
    by simp
  have all: "concat (map snd ?qs) = map (row b) (concat parts)"
  proof -
    have "map snd ?qs = map (map (row b)) parts"
      using dp by (intro nth_equalityI) simp_all
    then show ?thesis by (simp add: map_concat)
  qed
  have "concat (map snd ?qs) \<noteq> []" using ne unfolding all by simp
  from from_batches_answers[OF this keys, of pad] show ?thesis
    unfolding sc bindR_simps q all .
qed

end

section \<open>The calls of the policy and of vLLM\<close>

lemma call_shards_ok:
  assumes g: "arranged g ds names a" and ax: "names ! a = ''data_parallel''" and len: "length ps = ds ! a"
    and repl: "set repl \<subseteq> set names - {''data_parallel''}" and outs: "set repl \<subseteq> set outs" "''data_parallel'' \<notin> set outs"
    and ask: "\<And>w p. p \<in> set ps \<Longrightarrow> ask w p = Inr (r w p)"
  shows "call_shards g repl outs ask ps = Inr (map (\<lambda>d. r (leader_of ds a d) (ps ! d)) [0..<ds ! a])"
  unfolding call_shards_def ax[symmetric]
  by (rule scatter_results[OF g len]) (use repl outs ask len ax in auto)

definition serves_axis :: "string list \<Rightarrow> nat \<Rightarrow> worker_group \<Rightarrow> nat \<Rightarrow> bool" where
  "serves_axis names a g dp \<longleftrightarrow> (\<exists>ds. arranged g ds names a \<and> ds ! a = dp)"

lemma dp_callI:
  assumes "names ! a = ''data_parallel''" and "set repl \<subseteq> set names - {''data_parallel''}"
    and "set repl \<subseteq> set outs" and "''data_parallel'' \<notin> set outs"
  shows "dp_call (\<lambda>g. call_shards g repl outs) (serves_axis names a)"
proof
  fix g dp and ps :: "batch list" and ask :: "nat \<Rightarrow> batch \<Rightarrow> batch res" and r :: "nat \<Rightarrow> batch \<Rightarrow> batch"
  assume g: "serves_axis names a g dp" and len: "length ps = dp"
    and ask: "\<And>w p. p \<in> set ps \<Longrightarrow> ask w p = Inr (r w p)"
  from g obtain ds where ds: "arranged g ds names a" "ds ! a = dp" by (auto simp: serves_axis_def)
  show "\<exists>leader. call_shards g repl outs ask ps = Inr (map (\<lambda>d. r (leader d) (ps ! d)) [0..<dp])"
    using call_shards_ok[OF ds(1) assms(1) _ assms(2-4) ask] ds(2) len by auto
qed

interpretation policy_calls: dp_call "\<lambda>g. call_shards g REPLICATED_CALL REPLICATED_CALL" "serves_axis POLICY_AXES 1"
  by (rule dp_callI) (auto simp: POLICY_AXES_def REPLICATED_CALL_def)

interpretation policy_generation: dp_call
  "\<lambda>g. call_shards g [''tensor_parallel'', ''pipeline_parallel''] [''tensor_parallel'', ''pipeline_parallel'']"
  "serves_axis POLICY_AXES 1"
  by (rule dp_callI) (auto simp: POLICY_AXES_def)


text \<open>The worker group of a policy: one worker per rank of the cluster\<close>

lemma length_group_workers [simp]: "length (group_workers prefix i rank (pg, bs)) = length bs"
  by (simp add: group_workers_def)

lemma create_loop_length: "create_loop prefix n i rank gs = Inr (ws, ls) \<Longrightarrow> length ws = world_size gs"
  by (induction gs arbitrary: i rank ws ls)
    (auto simp: world_size_def bindR_Inr split: if_splits prod.splits)

lemma single_worker_groups_size:
  "single_worker_groups i (zip pgs (map int pgs)) = Inr gs \<Longrightarrow> world_size gs = sum_list pgs"
  by (induction pgs arbitrary: i gs)
    (auto simp: world_size_def bindR_Inr comp_def sum_list_triv split: if_splits)

lemma new_worker_group_size:
  assumes "new_worker_group pgs per prefix explicit ann = Inr g" and "explicit = None \<longrightarrow> per = Default"
  shows "sharding_annotations g = ann \<and>
    workers g = [0..<(case explicit of None \<Rightarrow> sum_list pgs | Some gs \<Rightarrow> world_size gs)]"
  using assms create_loop_length single_worker_groups_size
  by (auto simp: new_worker_group_def bindR_Inr bundle_indices_list_def workers_per_group_def split: option.splits)

lemma tied_by_node_size [simp]: "world_size (tied_by_node n bs) = length bs"
  by (simp add: world_size_def tied_by_node_def comp_def split_def sum_list_triv)

definition cluster_ok :: "cluster \<Rightarrow> bool" where
  "cluster_ok cl \<longleftrightarrow> sum_list (pg_bundles cl) = cl_world cl \<and>
     (case sorted_bundles cl of None \<Rightarrow> True | Some bs \<Rightarrow> length bs = cl_world cl)"

lemma arranged_dp_size:
  assumes "arranged (p_group p) (p_dims p) POLICY_AXES 1"
  shows "data_parallel_size p = Inr (p_dims p ! 1)"
  using axis_at(3)[OF arange_axes_ok, of "p_dims p" POLICY_AXES 1] assms
  by (simp add: data_parallel_size_def arranged_def POLICY_AXES_def arange_sharding_def)

lemma new_policy_arranged:
  assumes "new_policy env cfg cl Default = Inr p" and "cluster_ok cl"
  shows "p_cfg p = cfg \<and> arranged (p_group p) (p_dims p) POLICY_AXES 1 \<and>
    data_parallel_size p = Inr (p_dims p ! 1)"
proof -
  from assms(1) obtain dp g where dp: "check_world env cfg (cl_world cl) = Inr dp"
    and p: "p_cfg p = cfg" "p_dims p = [stages cfg, dp, cp_size cfg, tp_size cfg]" "p_group p = g"
    and g: "sharding_annotations g = Some (arange_sharding (p_dims p) POLICY_AXES)" "workers g = [0..<cl_world cl]"
  proof -
    assume *: "\<And>dp g. check_world env cfg (cl_world cl) = Inr dp \<Longrightarrow> p_cfg p = cfg \<Longrightarrow>
      p_dims p = [stages cfg, dp, cp_size cfg, tp_size cfg] \<Longrightarrow> p_group p = g \<Longrightarrow>
      sharding_annotations g = Some (arange_sharding (p_dims p) POLICY_AXES) \<Longrightarrow>
      workers g = [0..<cl_world cl] \<Longrightarrow> thesis"
    from assms(1) obtain dp g where d: "check_world env cfg (cl_world cl) = Inr dp"
      and gg: "(case sorted_bundles cl of
                 Some bs \<Rightarrow>
                   bindR (guardR ZeroDivisionError (gpus_per_node cl \<noteq> 0 \<or> bs = [])) (\<lambda>_.
                     new_worker_group (pg_bundles cl) Default ''lm_policy'' (Some (tied_by_node (gpus_per_node cl) bs))
                       (Some (arange_sharding [stages cfg, dp, cp_size cfg, tp_size cfg] POLICY_AXES)))
               | None \<Rightarrow> new_worker_group (pg_bundles cl) Default ''lm_policy'' None
                   (Some (arange_sharding [stages cfg, dp, cp_size cfg, tp_size cfg] POLICY_AXES))) = Inr g"
      and pp: "p = \<lparr>p_cfg = cfg, p_dims = [stages cfg, dp, cp_size cfg, tp_size cfg], p_group = g\<rparr>"
      by (auto simp: new_policy_def bindR_Inr Let_def)
    show thesis
    proof (cases "sorted_bundles cl")
      case None
      with gg new_worker_group_size[of "pg_bundles cl" Default "''lm_policy''" None _ g] assms(2) show ?thesis
        by (intro *[OF d]) (auto simp: pp cluster_ok_def)
    next
      case (Some bs)
      with gg have "new_worker_group (pg_bundles cl) Default ''lm_policy'' (Some (tied_by_node (gpus_per_node cl) bs))
          (Some (arange_sharding [stages cfg, dp, cp_size cfg, tp_size cfg] POLICY_AXES)) = Inr g"
        by (simp add: bindR_Inr)
      from new_worker_group_size[OF this] Some assms(2) show ?thesis
        by (intro *[OF d]) (auto simp: pp cluster_ok_def)
    qed
  qed
  let ?mp = "stages cfg * cp_size cfg * tp_size cfg"
  have world: "?mp \<noteq> 0" "?mp \<le> cl_world cl" "cl_world cl mod ?mp = 0" "dp = cl_world cl div ?mp"
    using dp by (auto simp: check_world_def Let_def bindR_Inr)
  then have "cl_world cl = dp * ?mp" by (metis div_mult_mod_eq add_0_right)
  then have "cl_world cl = prod_list (p_dims p)" by (simp add: p(2) mult.commute mult.left_commute)
  moreover have "0 < dp" using world by (metis div_greater_zero_iff gr0I)
  ultimately have arr: "arranged (p_group p) (p_dims p) POLICY_AXES 1"
    using g p world(1) by (auto simp: arranged_def POLICY_AXES_def)
  then show ?thesis using p arranged_dp_size by simp
qed


text \<open>The worker group of the vLLM generation: tied groups of equal size\<close>

lemma create_loop_leaders:
  "create_loop prefix n i rank gs = Inr (ws, ls) \<Longrightarrow> \<forall>(pg, bs)\<in>set gs. length bs = m \<Longrightarrow> 0 < m \<Longrightarrow>
     ls = map (\<lambda>d. rank + d * m) [0..<length gs]"
proof (induction gs arbitrary: i rank ws ls)
  case (Cons g gs)
  obtain pg bs where g: "g = (pg, bs)" by (cases g)
  from Cons.prems g obtain ws' ls' where r: "create_loop prefix n (Suc i) (rank + m) gs = Inr (ws', ls')"
    "ls = rank # ls'" by (auto simp: bindR_Inr split: if_splits prod.splits)
  from Cons.IH[OF r(1)] Cons.prems(2,3) have "ls' = map (\<lambda>d. rank + m + d * m) [0..<length gs]" by simp
  also have "\<dots> = map (\<lambda>d. rank + d * m) (map Suc [0..<length gs])" by (simp add: algebra_simps)
  finally show ?case
    by (simp add: r(2) map_Suc_upt upt_conv_Cons del: upt_Suc map_map)
qed simp

lemma world_size_equal: "\<forall>(pg, bs)\<in>set gs. length bs = m \<Longrightarrow> world_size gs = length gs * m"
  by (induction gs) (auto simp: world_size_def)

lemma new_worker_group_leaders:
  assumes g: "new_worker_group pgs per prefix explicit ann = Inr g"
    and gs: "bundle_indices_list pgs per explicit = Inr gs" "\<forall>(pg, bs)\<in>set gs. length bs = m" "0 < m"
  shows "sharding_annotations g = ann \<and> workers g = [0..<length gs * m] \<and>
    dp_leader_worker_indices g = map (\<lambda>d. d * m) [0..<length gs]"
proof -
  from g gs(1) obtain ws ls where l: "create_loop prefix (length pgs) 0 0 gs = Inr (ws, ls)"
    "sharding_annotations g = ann" "workers g = [0..<length ws]" "dp_leader_worker_indices g = ls"
    by (auto simp: new_worker_group_def bindR_Inr)
  then show ?thesis
    using create_loop_leaders[OF l(1) gs(2,3)] create_loop_length[OF l(1)] world_size_equal[OF gs(2)] by simp
qed

lemma single_groups_length:
  "single_worker_groups i ps = Inr gs \<Longrightarrow> \<forall>(pg, bs)\<in>set gs. length bs = 1"
  by (induction i ps arbitrary: gs rule: single_worker_groups.induct)
    (auto simp: bindR_Inr split: if_splits)

lemma consecutive_length: "bs \<in> set (consecutive m xs) \<Longrightarrow> length bs = m"
proof -
  assume "bs \<in> set (consecutive m xs)"
  then obtain i where i: "i < length xs div m" "bs = slice (i * m) ((i + 1) * m) xs"
    by (auto simp: consecutive_def)
  have "(i + 1) * m \<le> (length xs div m) * m" using i(1) by (intro mult_le_mono1) simp
  also have "\<dots> \<le> length xs" by simp
  finally show ?thesis using i(2) by (simp add: slice_def)
qed

lemma tied_worker_bundles_length:
  assumes "tied_worker_bundles mp cl table = Inr gs"
  shows "\<forall>(pg, bs)\<in>set gs. length bs = mp"
proof (cases "length (pg_bundles cl) = 1")
  case True
  with assms obtain flat where
    m: "mapR (\<lambda>bs. case map_of (rev table) (hd bs) of None \<Rightarrow> Inl KeyError
        | Some n \<Rightarrow> Inr (length (filter (\<lambda>m. m < n) (nodes_of table)), bs)) (consecutive mp flat) = Inr gs"
    by (auto simp: tied_worker_bundles_def unified_groups_def bindR_Inr)
  then have "list_all2 (\<lambda>bs g. snd g = bs) (consecutive mp flat) gs"
    unfolding mapR_Inr by (rule list_all2_mono) (auto split: option.splits)
  then have "set (map snd gs) \<subseteq> set (consecutive mp flat)"
    by (induction rule: list_all2_induct) auto
  then show ?thesis
    using consecutive_length by fastforce
next
  case False
  with assms show ?thesis
    by (auto simp: tied_worker_bundles_def per_node_groups_def bindR_Inr)
qed

lemma new_vllm_arranged:
  assumes "new_vllm cfg cl table per = Inr v" and "0 < cl_world cl"
  shows "v_cfg v = cfg \<and> arranged (v_group v) (v_dims v) VLLM_AXES 0 \<and>
    dp_leader_worker_indices (v_group v) = map (leader_of (v_dims v) 0) [0..<v_dims v ! 0]"
proof -
  let ?mp = "v_tp cfg * v_pp cfg"
  from assms(1) obtain dp g where dp: "check_vllm cfg (cl_world cl) = Inr dp"
    and g: "(if ?mp > 1
               then bindR (tied_worker_bundles ?mp cl table) (\<lambda>gs. new_worker_group (pg_bundles cl) per ''vllm_policy''
                      (Some gs) (Some (arange_sharding [dp, v_pp cfg, v_tp cfg] VLLM_AXES)))
               else new_worker_group (pg_bundles cl) per ''vllm_policy'' None
                      (Some (arange_sharding [dp, v_pp cfg, v_tp cfg] VLLM_AXES))) = Inr g"
    and size: "dp = group_dp_size g" and v: "v = \<lparr>v_cfg = cfg, v_dims = [dp, v_pp cfg, v_tp cfg], v_group = g\<rparr>"
    by (auto simp: new_vllm_def bindR_Inr Let_def)
  have pos: "0 < ?mp" using dp by (auto simp: check_vllm_def Let_def bindR_Inr)
  obtain gs explicit where e: "new_worker_group (pg_bundles cl) per ''vllm_policy'' explicit
        (Some (arange_sharding [dp, v_pp cfg, v_tp cfg] VLLM_AXES)) = Inr g"
    "bundle_indices_list (pg_bundles cl) per explicit = Inr gs" "\<forall>(pg, bs)\<in>set gs. length bs = ?mp"
  proof (cases "?mp > 1")
    case True
    with g obtain gs where "tied_worker_bundles ?mp cl table = Inr gs"
      "new_worker_group (pg_bundles cl) per ''vllm_policy'' (Some gs)
        (Some (arange_sharding [dp, v_pp cfg, v_tp cfg] VLLM_AXES)) = Inr g"
      by (auto simp: bindR_Inr)
    then show ?thesis
      using that[of "Some gs" gs] tied_worker_bundles_length by (simp add: bundle_indices_list_def)
  next
    case False
    with pos have one: "?mp = 1" by linarith
    from False g have n: "new_worker_group (pg_bundles cl) per ''vllm_policy'' None
        (Some (arange_sharding [dp, v_pp cfg, v_tp cfg] VLLM_AXES)) = Inr g" by simp
    then obtain gs where gs: "bundle_indices_list (pg_bundles cl) per None = Inr gs"
      by (auto simp: new_worker_group_def bindR_Inr)
    then obtain ns where "single_worker_groups 0 (zip (pg_bundles cl) ns) = Inr gs"
      by (auto simp: bundle_indices_list_def bindR_Inr)
    then have "\<forall>(pg, bs)\<in>set gs. length bs = 1"
      by (rule single_groups_length)
    then show ?thesis using that[OF n gs] one by simp
  qed
  note l = new_worker_group_leaders[OF e pos]
  have "length gs = dp" using l size by (simp add: group_dp_size_def)
  moreover have "[dp, v_pp cfg, v_tp cfg] ! 0 = dp" by simp
  moreover have "0 < dp"
  proof -
    have "cl_world cl mod ?mp = 0 \<and> dp = cl_world cl div ?mp"
      using dp by (simp add: check_vllm_def Let_def bindR_Inr)
    then show ?thesis using assms(2) by (metis div_mult_mod_eq add_0_right gr0I mult_0 less_irrefl)
  qed
  ultimately show ?thesis
    using l pos by (auto simp: arranged_def v VLLM_AXES_def leader_of_def mult.commute mult.left_commute)
qed

section \<open>Properties\<close>


section \<open>Properties\<close>

text \<open>The rows of the batch, and what comes back from shards that are reordered\<close>

definition rows_in_order :: "(string \<rightharpoonup> int) \<Rightarrow> (string \<times> column_spec) list \<Rightarrow> batch \<Rightarrow> nat \<Rightarrow> (string \<times> column) list" where
  "rows_in_order pad specs b n =
     map (\<lambda>k. (k, stacked (case pad k of None \<Rightarrow> 0 | Some v \<Rightarrow> v) (the (map_of specs k)) (map (row b) [0..<n])))
       (sort (map fst specs))"

lemma stacked_take:
  assumes perm: "mset ixs = mset [0..<n]"
  shows "stacked v sp (map R ixs) = take_rows (stacked v sp (map R [0..<n])) ixs"
    "col_len (stacked v sp (map R [0..<n])) = n" "col_wf (stacked v sp (map R [0..<n]))"
proof -
  have ix: "\<forall>i\<in>set ixs. i < n" and set: "set ixs = set [0..<n]" using mset_eq_setD[OF perm] by auto
  show "stacked v sp (map R ixs) = take_rows (stacked v sp (map R [0..<n])) ixs"
  proof (cases sp)
    case (ListOf F)
    have "set (map (\<lambda>r. length (F r)) (map R ixs)) = set (map (\<lambda>r. length (F r)) (map R [0..<n]))"
      by (simp only: set_map set)
    with ix show ?thesis unfolding ListOf stacked.simps Let_def by (simp add: pick_def)
  qed (use ix in \<open>simp add: pick_def\<close>)
  show "col_len (stacked v sp (map R [0..<n])) = n" by (cases sp) (simp_all add: Let_def)
  show "col_wf (stacked v sp (map R [0..<n]))"
    by (cases sp) (auto simp: Let_def pad_right_def intro!: le_add_diff_inverse Max_ge)
qed

lemma reorder_answers:
  assumes perm: "mset ixs = mset [0..<n]" and n: "0 < n" and keys: "distinct (map fst specs)" "specs \<noteq> []"
    and out: "columns out = map (\<lambda>k. (k, stacked (v k) (the (map_of specs k)) (map R ixs))) (sort (map fst specs))"
  shows "\<exists>r. reorder_data out ixs = Inr r \<and>
    columns r = map (\<lambda>k. (k, stacked (v k) (the (map_of specs k)) (map R [0..<n]))) (sort (map fst specs))"
proof -
  let ?orig = "new_batch (map (\<lambda>k. (k, stacked (v k) (the (map_of specs k)) (map R [0..<n]))) (sort (map fst specs)))"
  have wf: "batch_wf ?orig n"
    using keys stacked_take(2,3)[OF perm] by (auto simp: batch_wf_def comp_def simp flip: set_empty)
  have "columns out = map_columns (\<lambda>c. take_rows c ixs) ?orig"
    using stacked_take(1)[OF perm] by (simp add: out map_columns_def)
  from reorder_take_rows[OF wf perm this] show ?thesis by simp
qed

lemma logprob_call_rows:
  assumes p: "arranged (p_group p) (p_dims p) POLICY_AXES 1" "data_parallel_size p = Inr (p_dims p ! 1)"
    and wf: "batch_wf data n" and n: "0 < n" and shards: "ok (shard_for_logprob draw p data)"
    and rows: "row_wise specs ask" and keys: "distinct (map fst specs)" "specs \<noteq> []"
  shows "\<exists>out. logprob_call draw p ask data = Inr out \<and> columns out = rows_in_order Map.empty specs data n"
proof -
  obtain dyn pk where ba: "batching_args Logprob (p_cfg p) = (dyn, pk)" by fastforce
  from shards obtain ps r where sh: "shard_for_logprob draw p data = Inr (ps, r)"
    by (auto simp: ok_iff)
  then have run: "shard_by_batch_size draw data (p_dims p ! 1) None False dyn pk = Inr (ps, r)"
    by (simp add: shard_for_logprob_def shard_for_def p(2) ba)
  obtain parts where parts: "length parts = p_dims p ! 1" "mset (concat parts) = mset [0..<n]" "cut_into data ps parts"
    and r: "r \<noteq> None \<longrightarrow> r = Some (concat parts)" and plain: "r = None \<longrightarrow> concat parts = [0..<n]"
    by (rule shard_parts[OF run wf n]) auto
  have "length (concat parts) = n" using parts(2) by (metis diff_zero length_upt size_mset)
  with n have ne: "concat parts \<noteq> []" by auto
  have srv: "serves_axis POLICY_AXES 1 (p_group p) (p_dims p ! 1)"
    using p(1) by (auto simp: serves_axis_def)
  let ?cols = "\<lambda>ixs. map (\<lambda>k. (k, stacked 0 (the (map_of specs k)) (map (row data) ixs))) (sort (map fst specs))"
  have call: "logprob_call draw p ask data =
      (case r of None \<Rightarrow> Inr (new_batch (?cols (concat parts))) | Some ixs \<Rightarrow> reorder_data (new_batch (?cols (concat parts))) ixs)"
    using policy_calls.gathered_rows[OF srv parts(3,1) ne rows keys(1), of Map.empty]
    by (auto simp: logprob_call_def sh bindR_Inr)
  show ?thesis
  proof (cases r)
    case None
    with call plain show ?thesis by (simp add: rows_in_order_def)
  next
    case (Some ixs)
    with r have ixs: "ixs = concat parts" by simp
    have "\<exists>q. reorder_data (new_batch (?cols (concat parts))) ixs = Inr q \<and> columns q = ?cols [0..<n]"
      unfolding ixs by (rule reorder_answers[OF parts(2) n keys]) simp
    with call Some show ?thesis by (auto simp: rows_in_order_def)
  qed
qed

text \<open>
  C14: the log-probabilities of a batch come back row by row in the order of the batch, each the one its own row
  gives, padded to the longest, whether the policy splits the batch plainly, by dynamic batching or
  by packing, and however its workers are arranged over the pipeline, context and tensor axes.
\<close>

theorem logprobs_in_order:
  assumes "new_policy env cfg cl Default = Inr p" and "cluster_ok cl"
    and "batch_wf data n" and "0 < n" and "ok (shard_for_logprob draw p data)"
    and "row_wise [(''logprobs'', ListOf F)] (ask ''get_logprobs'')"
  shows "\<exists>out. get_logprobs draw p ask data = Inr out \<and>
    columns out = rows_in_order Map.empty [(''logprobs'', ListOf F)] data n"
proof -
  have p: "arranged (p_group p) (p_dims p) POLICY_AXES 1" "data_parallel_size p = Inr (p_dims p ! 1)"
    using new_policy_arranged[OF assms(1,2)] by blast+
  show ?thesis
    unfolding get_logprobs_def by (rule logprob_call_rows[OF p assms(3-6)]) simp_all
qed


text \<open>
  the two ways of reaching an engine agree: the worker that a single request for engine \<open>d\<close> goes to is the
  one worker that a batched call sends shard \<open>d\<close> to, and no other worker gets data.
\<close>

theorem single_and_batched_reach_same:
  assumes "new_vllm cfg cl table per = Inr v" and "0 < cl_world cl" and "length ps = v_dims v ! 0"
  shows "fst (run_all_workers_sharded_data (v_group v) [''data_parallel''] [] [] False
      [(''data'', Slices (map Whole ps))] []) =
    \<lparr>futures = map (\<lambda>d. \<lparr>called = projr (get_dp_leader_worker_idx (v_group v) (int d)),
        arguments = [(''data'', Some (Whole (ps ! d)))]\<rparr>) [0..<v_dims v ! 0],
     called_workers = dp_leader_worker_indices (v_group v),
     return_from_workers = dp_leader_worker_indices (v_group v)\<rparr>"
proof -
  note arr = new_vllm_arranged[OF assms(1,2)]
  let ?ds = "v_dims v" and ?g = "v_group v"
  have lay: "arranged ?g ?ds VLLM_AXES 0" and lead: "dp_leader_worker_indices ?g = map (leader_of ?ds 0) [0..<?ds ! 0]"
    using arr by auto
  note L = lay[unfolded arranged_def]
  have gets: "gets_data VLLM_AXES 0 [] ?ds w \<longleftrightarrow> (\<exists>d<?ds ! 0. w = leader_of ?ds 0 d)" if "w < prod_list ?ds" for w
    using zero_but_axis[of 0 ?ds w] that L by (auto simp: gets_data_def)
  have to: "filter (gets_data VLLM_AXES 0 [] ?ds) [0..<prod_list ?ds] = map (leader_of ?ds 0) [0..<?ds ! 0]"
  proof (rule filter_upt_image)
    have "0 < prod_list (drop (Suc 0) ?ds)"
      using L in_set_dropD[of 0 "Suc 0" ?ds] by (force simp: prod_list_zero_iff intro!: gr0I)
    then show "leader_of ?ds 0 d < leader_of ?ds 0 e" if "d < e" "e < ?ds ! 0" for d e
      using that by (simp add: leader_of_def)
    show "leader_of ?ds 0 d < prod_list ?ds" if "d < ?ds ! 0" for d
      using leader_coords(1)[of 0 ?ds d] L that by simp
  qed (rule gets)
  have run: "run_all_workers_sharded_data ?g [VLLM_AXES ! 0] [] [] False [(''data'', Slices (map Whole ps))] [] =
    (\<lparr>futures = map (\<lambda>w. \<lparr>called = w, arguments = [(''data'', Some (Whole (ps ! (coords_at ?ds w ! 0))))]\<rparr>)
        (map (leader_of ?ds 0) [0..<?ds ! 0]),
      called_workers = map (leader_of ?ds 0) [0..<?ds ! 0],
      return_from_workers = map (leader_of ?ds 0) [0..<?ds ! 0]\<rparr>, Inr ())"
    using scatter_calls(1)[OF lay assms(3), of "[]" "[]" "''data''" "[]"] unfolding to Let_def by simp
  have "coords_at ?ds (leader_of ?ds 0 d) ! 0 = d" if "d < ?ds ! 0" for d
    using leader_coords(2)[of 0 ?ds d] L that by simp
  moreover have "VLLM_AXES ! 0 = ''data_parallel''" by (simp add: VLLM_AXES_def)
  moreover have "projr (get_dp_leader_worker_idx ?g (int d)) = leader_of ?ds 0 d" if "d < ?ds ! 0" for d
    using that by (simp add: get_dp_leader_worker_idx_def lead)
  ultimately show ?thesis
    using run lead by simp
qed


section \<open>Metrics of a training step\<close>

definition dict_at :: "(string \<times> 'm list) list \<Rightarrow> string \<Rightarrow> 'm list" where
  "dict_at d k = (case map_of d k of None \<Rightarrow> [] | Some vs \<Rightarrow> vs)"

lemma extend_key_at:
  assumes "distinct (map fst d)"
  shows "distinct (map fst (extend_key k vs d))"
    "dict_at (extend_key k vs d) j = (if j = k then dict_at d j @ vs else dict_at d j)"
proof -
  have keys: "map fst (map (\<lambda>(i, us). if i = k then (i, us @ vs) else (i, us)) d) = map fst d"
    by (auto simp: split_def)
  have "map_of (map (\<lambda>(i, us). if i = k then (i, us @ vs) else (i, us)) d) j =
      (if j = k then map_option (\<lambda>us. us @ vs) (map_of d j) else map_of d j)"
    by (induction d) auto
  moreover have "k \<notin> fst ` set d \<longleftrightarrow> map_of d k = None" by (simp add: map_of_eq_None_iff)
  ultimately show "dict_at (extend_key k vs d) j = (if j = k then dict_at d j @ vs else dict_at d j)"
    by (cases "map_of d k") (auto simp: extend_key_def dict_at_def simp del: image_iff split: option.splits)
  show "distinct (map fst (extend_key k vs d))"
    using assms by (simp add: extend_key_def keys del: map_map)
qed

lemma extend_metrics_at:
  assumes "distinct (map fst d)" and "distinct (map fst (mb_metrics r))"
  shows "distinct (map fst (extend_metrics d r)) \<and> dict_at (extend_metrics d r) j = dict_at d j @ dict_at (mb_metrics r) j"
proof -
  have "distinct (map fst ms) \<Longrightarrow> distinct (map fst d) \<Longrightarrow> distinct (map fst (fold (\<lambda>(k, vs). extend_key k vs) ms d)) \<and>
      dict_at (fold (\<lambda>(k, vs). extend_key k vs) ms d) j = dict_at d j @ dict_at ms j" for ms d
  proof (induction ms arbitrary: d)
    case (Cons m ms)
    obtain k vs where m: "m = (k, vs)" by (cases m)
    have "map_of ms k = None" using Cons.prems(1) m by (simp add: map_of_eq_None_iff)
    with Cons.IH[of "extend_key k vs d"] Cons.prems extend_key_at[OF Cons.prems(2), of k vs] show ?case
      by (auto simp: m dict_at_def)
  qed (simp add: dict_at_def)
  with assms show ?thesis by (simp add: extend_metrics_def)
qed

lemma aggregate_train_at:
  assumes "rs \<noteq> []" and "\<forall>r\<in>set rs. distinct (map fst (mb_metrics r))"
  shows "\<exists>out. aggregate_train rs = Inr out \<and> global_loss out = global_loss (hd rs) \<and>
    (\<forall>k. dict_at (mb_metrics out) k = concat (map (\<lambda>r. dict_at (mb_metrics r) k) rs))"
proof -
  have "\<forall>r\<in>set rs. distinct (map fst (mb_metrics r)) \<Longrightarrow> distinct (map fst d) \<Longrightarrow>
      distinct (map fst (foldl extend_metrics d rs)) \<and>
      dict_at (foldl extend_metrics d rs) k = dict_at d k @ concat (map (\<lambda>r. dict_at (mb_metrics r) k) rs)" for d k
  proof (induction rs arbitrary: d)
    case (Cons r rs)
    with extend_metrics_at[of d r] show ?case by simp
  qed simp
  from this[of "[]"] assms(2) have "dict_at (foldl extend_metrics [] rs) k = concat (map (\<lambda>r. dict_at (mb_metrics r) k) rs)" for k
    by (simp add: dict_at_def)
  with assms(1) show ?thesis by (auto simp: aggregate_train_def neq_Nil_conv)
qed

text \<open>
  C18: a training step reports every microbatch metric once per data-parallel rank, in the order of the
  ranks: the copies that the tensor, context and pipeline twins of a rank hold are not counted again.
\<close>

theorem metrics_once_per_rank:
  assumes "new_policy env cfg cl Default = Inr p" and "cluster_ok cl"
    and "batch_wf data n" and "0 < n" and "shard_for_train draw p data batch_size = Inr ps"
    and "\<And>w q. ask ''train'' w q = Inr (rep w q)" and "\<And>w q. distinct (map fst (mb_metrics (rep w q)))"
  shows "\<exists>out. policy_train draw p ask data batch_size = Inr out \<and>
    dict_at (mb_metrics out) k =
      concat (map (\<lambda>d. dict_at (mb_metrics (rep (leader_of (p_dims p) 1 d) (ps ! d))) k) [0..<p_dims p ! 1])"
proof -
  have p: "arranged (p_group p) (p_dims p) POLICY_AXES 1" "data_parallel_size p = Inr (p_dims p ! 1)"
    using new_policy_arranged[OF assms(1,2)] by blast+
  obtain dyn pk where ba: "batching_args Training (p_cfg p) = (dyn, pk)" by fastforce
  from assms(5) obtain r where run: "shard_by_batch_size draw data (p_dims p ! 1) (Some batch_size) False dyn pk = Inr (ps, r)"
    by (auto simp: shard_for_train_def shard_for_def p(2) ba bindR_Inr)
  obtain parts where "length parts = p_dims p ! 1" "cut_into data ps parts"
    by (rule shard_parts[OF run assms(3,4)])
  then have len: "length ps = p_dims p ! 1" by (simp add: cut_into_def)
  have dp: "0 < p_dims p ! 1" using p(1) by (auto simp: arranged_def POLICY_AXES_def)
  let ?rs = "map (\<lambda>d. rep (leader_of (p_dims p) 1 d) (ps ! d)) [0..<p_dims p ! 1]"
  have "call_shards (p_group p) REPLICATED_CALL REPLICATED_CALL (ask ''train'') ps = Inr ?rs"
    by (rule call_shards_ok[OF p(1) _ len]) (auto simp: POLICY_AXES_def REPLICATED_CALL_def assms(6))
  then have "policy_train draw p ask data batch_size = aggregate_train ?rs"
    by (simp add: policy_train_def assms(5))
  moreover have "?rs \<noteq> []" using dp by simp
  ultimately show ?thesis
    using aggregate_train_at[of ?rs] assms(7) by (auto simp: comp_def)
qed

section \<open>Witnesses\<close>

definition demo_policy_cfg :: policy_cfg where
  "demo_policy_cfg = \<lparr>megatron_enabled = False, dtensor_enabled = True, dtensor_v2 = True, draft_enabled = False,
     lora_enabled = False, sglang_backend = False, dp_replicate_size = 1, tp_size = 2, pp_size = 1, cp_size = 1,
     reserved_port = False, train_micro_batch_size = 1, logprob_batch_size = Some 1, pad_multiple = 1,
     dynamic_batching = Some \<lparr>dc_lp_tokens = 8, dc_train_tokens = 8, dc_round = 2\<rparr>, sequence_packing = None\<rparr>"

definition demo_env :: policy_env where
  "demo_env = \<lparr>arch_list_set = True, ignore_tp_check = False\<rparr>"

definition demo_cluster :: cluster where
  "demo_cluster = \<lparr>pg_bundles = [2, 2], cl_world = 4, gpus_per_node = 2, sorted_bundles = None\<rparr>"

text \<open>A worker that answers with the length of each row, twice\<close>

definition demo_row :: "(string \<Rightarrow> column option) \<Rightarrow> int list" where
  "demo_row r = (case r ''input_lengths'' of Some (Vector [x]) \<Rightarrow> [x, x] | _ \<Rightarrow> [])"

definition demo_ask :: "(string \<times> column_spec) list \<Rightarrow> string \<Rightarrow> nat \<Rightarrow> batch \<Rightarrow> batch res" where
  "demo_ask specs method w p = Inr (answer specs (\<lambda>_. 2) (map (row p) [0..<batch_len p]))"

lemma demo_ask_row_wise: "row_wise specs (demo_ask specs method)"
  unfolding row_wise_def demo_ask_def using batch_wf_len by metis

definition demo_policy :: policy where
  "demo_policy = projr (new_policy demo_env demo_policy_cfg demo_cluster Default)"

lemma demo_policy_new: "new_policy demo_env demo_policy_cfg demo_cluster Default = Inr demo_policy"
proof -
  have "ok (new_policy demo_env demo_policy_cfg demo_cluster Default)"
    by code_simp
  then show ?thesis by (auto simp: ok_iff demo_policy_def)
qed

lemma demo_cluster_ok: "cluster_ok demo_cluster"
  by code_simp

theorem logprobs_in_order_witness:
  "\<exists>out. get_logprobs (\<lambda>_. id) demo_policy (demo_ask [(''logprobs'', ListOf demo_row)]) demo_batch = Inr out \<and>
    columns out = rows_in_order Map.empty [(''logprobs'', ListOf demo_row)] demo_batch 4"
proof -
  have "ok (shard_for_logprob (\<lambda>_. id) demo_policy demo_batch)"
    by code_simp
  then show ?thesis
    by (intro logprobs_in_order[OF demo_policy_new demo_cluster_ok demo_wf _ _ demo_ask_row_wise]) simp_all
qed


definition demo_vllm_cfg :: vllm_cfg where
  "demo_vllm_cfg = \<lparr>v_tp = 2, v_pp = 1, v_ep = 1, async_engine = False, top_k = None, top_p = 1,
     keys_present = True, pad_token_id = 7\<rparr>"


definition demo_vllm :: vllm where
  "demo_vllm = projr (new_vllm demo_vllm_cfg demo_cluster [] Default)"

lemma demo_vllm_new: "new_vllm demo_vllm_cfg demo_cluster [] Default = Inr demo_vllm" "v_dims demo_vllm ! 0 = 2"
proof -
  have "case new_vllm demo_vllm_cfg demo_cluster [] Default of Inl e \<Rightarrow> False | Inr v \<Rightarrow> v_dims v ! 0 = 2"
    by code_simp
  then show "new_vllm demo_vllm_cfg demo_cluster [] Default = Inr demo_vllm" "v_dims demo_vllm ! 0 = 2"
    by (auto simp: demo_vllm_def split: sum.splits)
qed


theorem single_and_batched_reach_same_witness:
  "called_workers (fst (run_all_workers_sharded_data (v_group demo_vllm) [''data_parallel''] [] [] False
      [(''data'', Slices (map Whole [demo_batch, demo_batch]))] [])) = [0, 2]"
proof -
  have "dp_leader_worker_indices (v_group demo_vllm) = [0, 2]"
    by code_simp
  with single_and_batched_reach_same[OF demo_vllm_new(1), of "[demo_batch, demo_batch]"] demo_vllm_new(2)
  show ?thesis by (simp add: demo_cluster_def)
qed

definition demo_report :: "nat \<Rightarrow> nat train_report" where
  "demo_report w = \<lparr>global_loss = 1, report_grad_norm = 2, moe_metrics = None, mtp_metrics = None,
     draft_grad_norm = None, mb_metrics = [(''lr'', [w])]\<rparr>"

theorem metrics_once_per_rank_witness:
  "\<exists>out. policy_train (\<lambda>_. id) demo_policy (\<lambda>_ w _. Inr (demo_report w)) demo_batch 4 = Inr out \<and>
    dict_at (mb_metrics out) ''lr'' = [0, 2]"
proof -
  have "ok (shard_for_train (\<lambda>_. id) demo_policy demo_batch 4)" and d: "p_dims demo_policy = [1, 2, 1, 2]"
    by code_simp+
  then obtain ps where ps: "shard_for_train (\<lambda>_. id) demo_policy demo_batch 4 = Inr ps" by (auto simp: ok_iff)
  have "distinct (map fst (mb_metrics (demo_report w)))" for w by (simp add: demo_report_def)
  with metrics_once_per_rank[OF demo_policy_new demo_cluster_ok demo_wf _ ps, where rep = "\<lambda>w _. demo_report w" and k = "''lr''"]
  show ?thesis by (simp add: d leader_of_def demo_report_def dict_at_def upt_rec numeral_2_eq_2)
qed

end
