(* ===== verification/WireColumns.thy ===== *)
theory WireColumns
  imports NoopClient
begin

text \<open>
  Columns on their way through the data plane (\<open>nemo_rl/data_plane/codec.py\<close>, \<open>column_io.py\<close>, \<open>schema.py\<close>, and
  the pad targets of \<open>driver_mixin.py\<close>).  A per-token field is written as a jagged tensor, which keeps of
  each row its own length, and read back padded.  Token entries are integers; a row of a tensor with
  more dimensions is its list of positions.  Wire-stripped objects and tensor devices are left out.
\<close>

section \<open>Fields\<close>

datatype field =
    Flat "int list" | Rect nat "int list list" | Jagged "int list list" | ObjArray "pyval list" | Other

text \<open>\<open>xs[:l]\<close>: a negative bound counts from the end.\<close>

definition prefix_to :: "int \<Rightarrow> 'a list \<Rightarrow> 'a list" where
  "prefix_to l xs = (if l < 0 then take (length xs - nat (- l)) xs else take (nat l) xs)"

definition to_nested_by_length :: "field \<Rightarrow> int list \<Rightarrow> field res" where
  "to_nested_by_length v lens =
     (case v of
        Rect w rows \<Rightarrow> bindR (guardR ValueError (length lens = length rows)) (\<lambda>_.
          Inr (Jagged (map2 prefix_to lens rows)))
      | _ \<Rightarrow> Inl ValueError)"

definition pack_per_token_field :: "field \<Rightarrow> int list \<Rightarrow> field res" where
  "pack_per_token_field v lens =
     (if lens = [] then Inr v
      else case v of
        Rect w rows \<Rightarrow>
          (if length rows \<noteq> length lens \<or> int w < Max (set lens) then Inr v else to_nested_by_length v lens)
      | _ \<Rightarrow> Inr v)"

definition field_rows :: "field \<Rightarrow> nat" where
  "field_rows v = (case v of Flat xs \<Rightarrow> length xs | Rect w rows \<Rightarrow> length rows | Jagged rows \<Rightarrow> length rows
     | ObjArray xs \<Rightarrow> length xs | Other \<Rightarrow> 0)"

text \<open>A tensor dictionary refuses leaves whose first dimension is not its batch size.\<close>

definition tensor_dict_of :: "nat \<Rightarrow> (string \<times> field) list \<Rightarrow> (string \<times> field) list res" where
  "tensor_dict_of n fs = bindR (guardR RuntimeError (list_all (\<lambda>(k, v). field_rows v = n) fs)) (\<lambda>_. Inr fs)"

definition pack_field :: "int list option \<Rightarrow> string list \<Rightarrow> string \<times> field \<Rightarrow> (string \<times> field) res" where
  "pack_field lens aligned_fields = (\<lambda>(k, v).
     case v of
       Other \<Rightarrow> Inl TypeError
     | ObjArray xs \<Rightarrow> Inr (k, v)
     | _ \<Rightarrow> (case lens of
               Some ls \<Rightarrow> (if k \<in> set aligned_fields then bindR (pack_per_token_field v ls) (\<lambda>u. Inr (k, u))
                         else Inr (k, v))
             | None \<Rightarrow> Inr (k, v)))"

definition pack_jagged_fields :: "(string \<times> field) list \<Rightarrow> int list option \<Rightarrow> string list \<Rightarrow> (string \<times> field) list res" where
  "pack_jagged_fields fs lens aligned_fields =
     bindR (mapR (pack_field lens aligned_fields) fs)
       (tensor_dict_of (case lens of None \<Rightarrow> 0 | Some ls \<Rightarrow> length ls))"

definition stack_or_nest :: "int list list \<Rightarrow> field" where
  "stack_or_nest rows =
     (case rows of
        [] \<Rightarrow> Flat []
      | r # _ \<Rightarrow> (if list_all (\<lambda>q. length q = length r) rows then Rect (length r) rows else Jagged rows))"

text \<open>\<open>xs[a:b]\<close>: negative bounds count from the end.\<close>

definition bound_at :: "nat \<Rightarrow> int \<Rightarrow> nat" where
  "bound_at n i = nat (if i < 0 then int n + i else i)"

definition slice_between :: "int \<Rightarrow> int \<Rightarrow> 'a list \<Rightarrow> 'a list" where
  "slice_between a b xs = slice (bound_at (length xs) a) (bound_at (length xs) b) xs"

text \<open>The response part of jagged rows, shifted left by one; the values lie one row after the other.\<close>

fun response_rows :: "int list \<Rightarrow> nat list \<Rightarrow> nat list \<Rightarrow> int list list" where
  "response_rows values (l # ls) (off # offs) =
     slice_between (int off - int l - 1) (int off - 1) values # response_rows values ls offs"
| "response_rows values _ _ = []"

fun offsets_after :: "nat \<Rightarrow> int list list \<Rightarrow> nat list" where
  "offsets_after k [] = []"
| "offsets_after k (r # rs) = (k + length r) # offsets_after (k + length r) rs"

definition response_from_nested :: "int list list \<Rightarrow> nat list \<Rightarrow> int list list res" where
  "response_from_nested full response_lens =
     bindR (guardR ValueError (length response_lens = length full)) (\<lambda>_.
       Inr (response_rows (concat full) response_lens (offsets_after 0 full)))"

section \<open>Reading\<close>

definition pad_row :: "int \<Rightarrow> nat \<Rightarrow> int list \<Rightarrow> int list" where
  "pad_row v w xs = xs @ replicate (w - length xs) v"

definition widest :: "int list list \<Rightarrow> nat" where
  "widest rows = foldr (\<lambda>r w. max (length r) w) rows 0"

definition widen :: "int \<Rightarrow> nat \<Rightarrow> field \<Rightarrow> field" where
  "widen v target f =
     (case f of
        Rect w rows \<Rightarrow> (if w < target then Rect target (map (pad_row v target) rows) else f)
      | _ \<Rightarrow> f)"

definition materialize_field :: "bool \<Rightarrow> int \<Rightarrow> nat \<Rightarrow> field \<Rightarrow> field res" where
  "materialize_field padded v target f =
     (case f of
        Other \<Rightarrow> Inl TypeError
      | Jagged rows \<Rightarrow>
          Inr (if padded then widen v target (Rect (widest rows) (map (pad_row v (widest rows)) rows)) else f)
      | _ \<Rightarrow> Inr (widen v target f))"

definition materialize ::
  "bool \<Rightarrow> (string \<rightharpoonup> int) \<Rightarrow> nat \<Rightarrow> (string \<times> field) list \<Rightarrow> (string \<times> field) list res" where
  "materialize padded pads target td =
     mapR (\<lambda>(k, f). bindR (materialize_field padded (case pads k of None \<Rightarrow> 0 | Some v \<Rightarrow> v) target f)
       (\<lambda>g. Inr (k, g))) td"

section \<open>Schema\<close>

definition DP_TRAIN_FIELDS :: "string list" where
  "DP_TRAIN_FIELDS = [''input_ids'', ''input_lengths'', ''generation_logprobs'', ''prev_logprobs'',
     ''reference_policy_logprobs'', ''advantages'', ''token_mask'', ''sample_mask'']"

definition LP_SEED_FIELDS :: "string list" where
  "LP_SEED_FIELDS = [''input_ids'', ''input_lengths'', ''token_mask'', ''sample_mask'']"

definition TOKEN_ALIGNED_FIELDS :: "string list" where
  "TOKEN_ALIGNED_FIELDS = [''input_ids'', ''generation_logprobs'', ''prev_logprobs'', ''reference_policy_logprobs'',
     ''teacher_reference_logprobs'', ''advantages'', ''returns'', ''values'', ''token_mask'', ''sample_mask'',
     ''routed_experts'']"

definition fields_with_optional_routed_experts :: "string list \<Rightarrow> bool \<Rightarrow> string list" where
  "fields_with_optional_routed_experts fs enabled =
     (if enabled \<and> ''routed_experts'' \<notin> set fs then fs @ [''routed_experts''] else fs)"

section \<open>Pad targets\<close>

text \<open>\<open>column_io.round_up\<close> leaves the value alone for multiples up to 1.\<close>

definition align_to :: "int \<Rightarrow> int \<Rightarrow> int" where
  "align_to n m = (if m \<le> 1 then n else (n + m - 1) div m * m)"

definition PAD_KEY :: string where
  "PAD_KEY = ''global_forward_pad_seqlen''"

text \<open>\<open>int(...)\<close> of an entry of the extra information\<close>

definition int_of_extra :: "extra_val \<Rightarrow> int res" where
  "int_of_extra x = (case x of XOther (PInt n) \<Rightarrow> Inr n | XOther (PStr s) \<Rightarrow> Inl ValueError | _ \<Rightarrow> Inl TypeError)"

definition get_int :: "(string \<times> extra_val) list \<Rightarrow> string \<Rightarrow> int \<Rightarrow> int res" where
  "get_int extra k d = (case map_of extra k of None \<Rightarrow> Inr d | Some x \<Rightarrow> int_of_extra x)"

definition stamp_pad_seqlen :: "dynamic_args option \<Rightarrow> meta \<Rightarrow> meta res" where
  "stamp_pad_seqlen dyn m =
     (case sequence_lengths m of
        None \<Rightarrow> Inr m
      | Some [] \<Rightarrow> Inr m
      | Some lens \<Rightarrow>
          (if map_of (extra_info m) PAD_KEY \<noteq> None then Inr m
           else bindR (get_int (extra_info m) ''pad_to_multiple'' 1) (\<lambda>mult.
             let step = max mult (case dyn of None \<Rightarrow> 1 | Some a \<Rightarrow> dyn_round a)
             in Inr (m\<lparr>extra_info := AList.update PAD_KEY (XOther (PInt (align_to (Max (set lens)) step)))
                        (extra_info m)\<rparr>))))"

definition isolated_meta :: "dynamic_args option \<Rightarrow> string list \<Rightarrow> string \<Rightarrow> meta \<Rightarrow> meta res" where
  "isolated_meta dyn fs task m =
     bindR (mk_meta (m\<lparr>field_names := Some fs, task_name := Some task,
                        extra_info := AList.delete PAD_KEY (extra_info m)\<rparr>)) (stamp_pad_seqlen dyn)"

definition forward_pad_seqlen :: "meta \<Rightarrow> int res" where
  "forward_pad_seqlen m = get_int (extra_info m) PAD_KEY 0"

section \<open>Column transfers\<close>

text \<open>
  What is handed to \<open>put_samples\<close>: the fields packed with the lengths of the metadata.  Nothing is put
  when there are no fields.
\<close>

definition columns_to_write :: "meta \<Rightarrow> (string \<times> field) list \<Rightarrow> (string \<times> field) list option res" where
  "columns_to_write m fs =
     (if fs = [] then Inr None
      else bindR (pack_jagged_fields fs (sequence_lengths m) TOKEN_ALIGNED_FIELDS) (\<lambda>td. Inr (Some td)))"

text \<open>What a reader makes of the fields it got: padded up to the target of the metadata.\<close>

definition columns_read :: "bool \<Rightarrow> (string \<rightharpoonup> int) \<Rightarrow> meta \<Rightarrow> (string \<times> field) list \<Rightarrow> (string \<times> field) list res" where
  "columns_read padded pads m td =
     bindR (forward_pad_seqlen m) (\<lambda>target. materialize padded pads (nat target) td)"

text \<open>
  The first put of a rollout: the batch size is read off the sample mask.  \<open>extra\<close> is the caller's
  extra information.
\<close>

definition first_write ::
  "(string \<times> field) list \<Rightarrow> string list \<Rightarrow> string \<Rightarrow> (string \<times> extra_val) list \<Rightarrow> string \<Rightarrow> int \<Rightarrow>
   tag list option \<Rightarrow> ((string \<times> field) list \<times> meta) res" where
  "first_write batch sids pid extra task multiple ts =
     (case (map_of batch ''sample_mask'', map_of batch ''input_lengths'') of
        (None, _) \<Rightarrow> Inl KeyError
      | (Some mk, lens) \<Rightarrow>
          (let n = field_rows mk
           in bindR (guardR ValueError (n \<noteq> 0 \<and> length sids = n)) (\<lambda>_.
              bindR (guardR ValueError (case ts of None \<Rightarrow> True | Some xs \<Rightarrow> length xs = n)) (\<lambda>_.
              case lens of
                Some (Flat ls) \<Rightarrow>
                  bindR (pack_jagged_fields (filter (\<lambda>(k, v). v \<noteq> Other) batch) (Some ls) TOKEN_ALIGNED_FIELDS) (\<lambda>td.
                  bindR (mk_meta \<lparr>partition_id = pid, task_name = Some task, sample_ids = sids,
                      field_names = Some (map fst td), sequence_lengths = Some ls,
                      extra_info = (if multiple > 1 then AList.update ''pad_to_multiple'' (XOther (PInt multiple)) extra
                                    else extra), tags = ts\<rparr>) (\<lambda>m. Inr (td, m)))
              | Some _ \<Rightarrow> Inl AttributeError
              | None \<Rightarrow> Inl KeyError))))"

section \<open>Rows on the wire and back\<close>

lemma length_pad_row [simp]: "length xs \<le> w \<Longrightarrow> length (pad_row v w xs) = w"
  by (simp add: pad_row_def)

lemma pad_row_pad_row: "length xs \<le> a \<Longrightarrow> a \<le> b \<Longrightarrow> pad_row v b (pad_row v a xs) = pad_row v b xs"
  by (simp add: pad_row_def flip: replicate_add)

lemma pad_row_same [simp]: "pad_row v (length xs) xs = xs"
  by (simp add: pad_row_def)

lemma widest_ge: "r \<in> set rows \<Longrightarrow> length r \<le> widest rows"
  by (induction rows) (auto simp: widest_def le_max_iff_disj)

lemma widest_le: "widest rows \<le> n \<longleftrightarrow> (\<forall>r\<in>set rows. length r \<le> n)"
  by (induction rows) (auto simp: widest_def)

lemma widest_eq:
  assumes "\<forall>r\<in>set rows. length r \<le> n" and "r \<in> set rows" and "length r = n"
  shows "widest rows = n"
  using widest_ge[OF assms(2)] assms by (intro antisym) (simp_all add: widest_le)

lemma widen_padded:
  assumes "\<forall>r\<in>set rows. length r \<le> w"
  shows "widen v target (Rect w (map (pad_row v w) rows)) = Rect (max w target) (map (pad_row v (max w target)) rows)"
  using assms by (auto simp: widen_def pad_row_pad_row max_def)

text \<open>What a reader gets of jagged rows: all padded to the width of the widest, or to the target.\<close>

lemma materialize_jagged:
  "materialize_field True v target (Jagged rows) =
     Inr (Rect (max (widest rows) target) (map (pad_row v (max (widest rows) target)) rows))"
  by (simp add: materialize_field_def widen_padded widest_ge)

lemma prefix_nth:
  assumes "0 \<le> l" and "l \<le> int (length xs)" and "nat l \<le> W" and "j < W"
  shows "pad_row v W (prefix_to l xs) ! j = (if int j < l then xs ! j else v)"
  using assms by (auto simp: pad_row_def prefix_to_def nth_append min_def)

lemma length_prefix_to: "0 \<le> l \<Longrightarrow> l \<le> int (length xs) \<Longrightarrow> length (prefix_to l xs) = nat l"
  by (auto simp: prefix_to_def)

lemma widest_prefixes:
  assumes "length lens = length rows" and "lens \<noteq> []" and "\<forall>r\<in>set rows. length r = w"
    and "\<forall>l\<in>set lens. 0 \<le> l \<and> l \<le> int w"
  shows "widest (map2 prefix_to lens rows) = nat (Max (set lens))"
proof -
  have len: "length (prefix_to l r) = nat l" if "(l, r) \<in> set (zip lens rows)" for l r
  proof -
    from that have "l \<in> set lens" and "r \<in> set rows"
      by (auto dest: set_zip_leftD set_zip_rightD)
    with assms(3,4) show ?thesis
      by (intro length_prefix_to) auto
  qed
  have "Max (set lens) \<in> set lens"
    using assms(2) by (intro Max_in) simp_all
  then obtain i where i: "i < length lens" "lens ! i = Max (set lens)"
    by (auto simp: in_set_conv_nth)
  have at: "(lens ! i, rows ! i) \<in> set (zip lens rows)"
    using i(1) assms(1) by (auto simp: set_zip)
  show ?thesis
  proof (rule widest_eq)
    show "\<forall>r\<in>set (map2 prefix_to lens rows). length r \<le> nat (Max (set lens))"
      by (auto simp: len intro!: nat_mono Max_ge dest: set_zip_leftD)
    show "prefix_to (lens ! i) (rows ! i) \<in> set (map2 prefix_to lens rows)"
      using at by (auto intro: rev_image_eqI)
    show "length (prefix_to (lens ! i) (rows ! i)) = nat (Max (set lens))"
      using len[OF at] i by simp
  qed
qed

text \<open>The field under which a column travels, and what is read of it.\<close>

definition sent :: "int list \<Rightarrow> string list \<Rightarrow> string \<Rightarrow> field \<Rightarrow> field" where
  "sent lens ns k f =
     (case f of
        Rect w rows \<Rightarrow> (if k \<in> set ns \<and> lens \<noteq> [] \<and> length rows = length lens \<and> Max (set lens) \<le> int w
                       then Jagged (map2 prefix_to lens rows) else f)
      | _ \<Rightarrow> f)"

lemma pack_field_sent: "f \<noteq> Other \<Longrightarrow> pack_field (Some lens) ns (k, f) = Inr (k, sent lens ns k f)"
  by (cases f) (auto simp: pack_field_def pack_per_token_field_def sent_def to_nested_by_length_def not_less
      simp del: Max_less_iff Max_le_iff)

lemma field_rows_sent [simp]: "field_rows (sent lens ns k f) = field_rows f"
  by (cases f) (auto simp: sent_def field_rows_def)

lemma sent_Other [simp]: "sent lens ns k f = Other \<longleftrightarrow> f = Other"
  by (cases f) (simp_all add: sent_def)

lemma pack_jagged_sent:
  assumes "list_all (\<lambda>(k, f). f \<noteq> Other \<and> field_rows f = length lens) fs"
  shows "pack_jagged_fields fs (Some lens) ns = Inr (map (\<lambda>(k, f). (k, sent lens ns k f)) fs)"
proof -
  have "mapR (pack_field (Some lens) ns) fs = Inr (map (\<lambda>(k, f). (k, sent lens ns k f)) fs)"
    using assms by (intro mapR_total) (auto simp: list_all_iff pack_field_sent)
  moreover have "list_all (\<lambda>(k, f). field_rows f = length lens) (map (\<lambda>(k, f). (k, sent lens ns k f)) fs)"
    using assms by (auto simp: list_all_iff)
  ultimately show ?thesis
    by (simp add: pack_jagged_fields_def tensor_dict_of_def)
qed

lemma materialize_all:
  assumes "\<forall>(k, f)\<in>set td. f \<noteq> Other"
  shows "\<exists>g. materialize padded pads target td = Inr (map (\<lambda>(k, f). (k, g k f)) td) \<and>
    (\<forall>(k, f)\<in>set td. materialize_field padded (case pads k of None \<Rightarrow> 0 | Some v \<Rightarrow> v) target f = Inr (g k f))"
proof -
  define g where "g k f = projr (materialize_field padded (case pads k of None \<Rightarrow> 0 | Some v \<Rightarrow> v) target f)" for k f
  have g: "materialize_field padded (case pads k of None \<Rightarrow> 0 | Some v \<Rightarrow> v) target f = Inr (g k f)"
    if "f \<noteq> Other" for k f
    using that by (cases f) (simp_all add: g_def materialize_field_def)
  have "materialize padded pads target td = Inr (map (\<lambda>(k, f). (k, g k f)) td)"
    unfolding materialize_def using assms by (intro mapR_total) (auto simp: g)
  moreover have "\<forall>(k, f)\<in>set td. materialize_field padded (case pads k of None \<Rightarrow> 0 | Some v \<Rightarrow> v) target f = Inr (g k f)"
    using assms by (auto simp: g)
  ultimately show ?thesis
    by blast
qed


text \<open>One pad target for all the ranks\<close>

lemma align_to_ge: "n \<le> align_to n m"
proof (cases "m \<le> 1")
  case False
  have "(n + m - 1) mod m < m"
    using False by simp
  with minus_mod_eq_div_mult[of "n + m - 1" m] have "n \<le> (n + m - 1) div m * m"
    by linarith
  with False show ?thesis
    by (simp add: align_to_def)
qed (simp add: align_to_def)

lemma isolated_stamp:
  assumes "isolated_meta dyn fs task m = Inr m'" and "sequence_lengths m = Some lens" and "lens \<noteq> []"
  obtains P where "map_of (extra_info m') PAD_KEY = Some (XOther (PInt P))" and "\<forall>l\<in>set lens. l \<le> P"
    and "sequence_lengths m' = Some lens"
proof -
  from assms obtain mult where m': "m' = m\<lparr>field_names := Some fs, task_name := Some task,
      extra_info := AList.update PAD_KEY (XOther (PInt (align_to (Max (set lens))
        (max mult (case dyn of None \<Rightarrow> 1 | Some a \<Rightarrow> dyn_round a))))) (AList.delete PAD_KEY (extra_info m))\<rparr>"
    by (auto simp: isolated_meta_def stamp_pad_seqlen_def bindR_Inr Let_def split: list.splits)
  show thesis
  proof (rule that)
    show "map_of (extra_info m') PAD_KEY = Some (XOther (PInt (align_to (Max (set lens))
        (max mult (case dyn of None \<Rightarrow> 1 | Some a \<Rightarrow> dyn_round a)))))"
      by (simp add: m')
    show "\<forall>l\<in>set lens. l \<le> align_to (Max (set lens)) (max mult (case dyn of None \<Rightarrow> 1 | Some a \<Rightarrow> dyn_round a))"
      by (meson List.finite_set Max_ge align_to_ge order.trans)
    show "sequence_lengths m' = Some lens"
      by (simp add: m' assms(2))
  qed
qed

lemma attach_packing_other:
  assumes "k \<notin> {''elem_counts_per_gb'', ''micro_batch_lengths'', ''micro_batch_indices''}"
  shows "map_of (attach_packing s xs) k = map_of xs k"
  using assms by (simp add: attach_packing_def split: option.split)

lemma rank_pad_target:
  assumes "shard_meta_for_dp draw m dp bs pk dyn = Inr (ms, u)" and "r \<in> set ms"
    and "map_of (extra_info m) PAD_KEY = Some (XOther (PInt P))"
  shows "forward_pad_seqlen r = Inr P" and "set (the (sequence_lengths r)) \<subseteq> set (the (sequence_lengths m))"
proof -
  obtain lens shards parts where l: "sequence_lengths m = Some lens" "length lens = meta_size m"
      "mset (concat parts) = mset [0..<meta_size m]" "ms = map2 (rank_meta m lens) shards parts"
    by (rule shard_meta_Inr[OF assms(1)])
  with assms(2) obtain s p where sp: "p \<in> set parts" "r = rank_meta m lens s p"
    by (auto dest: set_zip_rightD)
  have "PAD_KEY \<notin> {''elem_counts_per_gb'', ''micro_batch_lengths'', ''micro_batch_indices''}"
    by (simp add: PAD_KEY_def)
  then show "forward_pad_seqlen r = Inr P"
    by (simp add: forward_pad_seqlen_def get_int_def sp(2) rank_meta_def attach_packing_other assms(3) int_of_extra_def)
  have "set p \<subseteq> set (concat parts)"
    using sp(1) by auto
  also have "\<dots> = {..<length lens}"
    using mset_eq_setD[OF l(3)] l(2) by (simp add: lessThan_atLeast0)
  finally show "set (the (sequence_lengths r)) \<subseteq> set (the (sequence_lengths m))"
    by (auto simp: sp(2) rank_meta_def l(1) pick_def)
qed

lemma read_rows_at:
  assumes "rows \<noteq> []" and "\<forall>q\<in>set rows. length q \<le> P"
  shows "materialize_field True v P (stack_or_nest rows) = Inr (Rect P (map (pad_row v P) rows))"
proof -
  define w where "w = length (hd rows)"
  have nest: "stack_or_nest rows = (if list_all (\<lambda>q. length q = w) rows then Rect w rows else Jagged rows)"
    using assms(1) by (cases rows) (simp_all add: stack_or_nest_def w_def)
  have "w \<le> P"
    using assms by (simp add: w_def)
  show ?thesis
  proof (cases "list_all (\<lambda>q. length q = w) rows")
    case True
    then have all: "\<forall>q\<in>set rows. length q = w"
      by (simp add: list_all_iff)
    then have same: "map (pad_row v w) rows = rows"
      by (intro map_idI) (auto simp: pad_row_def)
    have "widen v P (Rect w (map (pad_row v w) rows)) = Rect (max w P) (map (pad_row v (max w P)) rows)"
      using all by (intro widen_padded) simp
    with True \<open>w \<le> P\<close> show ?thesis
      by (simp add: nest materialize_field_def same max_absorb2)
  next
    case False
    moreover have "max (widest rows) P = P"
      using assms(2) by (simp add: max_absorb2 widest_le)
    ultimately show ?thesis
      by (simp add: nest materialize_jagged)
  qed
qed

section \<open>Properties\<close>

text \<open>
  C17: a batch that is written with its lengths and read back comes back whole: every field that is not
  packed is returned as it was, up to its width, and a per-token field comes back with as many rows and one
  width for all of them, the longest length or the pad target, with the entry of the writer at each position
  before the row's length and the pad value after it.
\<close>

theorem wire_roundtrip:
  assumes "list_all (\<lambda>(k, f). f \<noteq> Other \<and> field_rows f = length lens) fs" and "distinct (map fst fs)"
    and "(k, Rect w rows) \<in> set fs" and "k \<in> set ns" and "lens \<noteq> []"
    and "\<forall>r\<in>set rows. length r = w" and "\<forall>l\<in>set lens. 0 \<le> l \<and> l \<le> int w"
  shows "\<exists>td out W back. pack_jagged_fields fs (Some lens) ns = Inr td \<and> materialize True pads target td = Inr out \<and>
    map fst out = map fst fs \<and> map_of out k = Some (Rect W back) \<and> W = max (nat (Max (set lens))) target \<and>
    length back = length rows \<and>
    (\<forall>i<length rows. \<forall>j<W. back ! i ! j =
       (if int j < lens ! i then rows ! i ! j else (case pads k of None \<Rightarrow> 0 | Some v \<Rightarrow> v)))"
proof -
  let ?td = "map (\<lambda>(k, f). (k, sent lens ns k f)) fs" and ?v = "case pads k of None \<Rightarrow> 0 | Some v \<Rightarrow> v"
  define W where "W = max (nat (Max (set lens))) target"
  have len: "length lens = length rows"
    using assms(1,3) by (auto simp: list_all_iff field_rows_def)
  have "Max (set lens) \<le> int w"
    using assms(5,7) by simp
  then have jag: "sent lens ns k (Rect w rows) = Jagged (map2 prefix_to lens rows)"
    using assms(4,5) len by (simp add: sent_def)
  have "\<forall>(k, f)\<in>set ?td. f \<noteq> Other"
    using assms(1) by (auto simp: list_all_iff)
  then obtain g where g: "materialize True pads target ?td = Inr (map (\<lambda>(k, f). (k, g k f)) ?td)"
    and at: "\<forall>(k, f)\<in>set ?td. materialize_field True (case pads k of None \<Rightarrow> 0 | Some v \<Rightarrow> v) target f = Inr (g k f)"
    using materialize_all by blast
  have "(k, Jagged (map2 prefix_to lens rows)) \<in> set ?td"
    using assms(3) jag by (auto intro!: rev_image_eqI)
  with at have "materialize_field True ?v target (Jagged (map2 prefix_to lens rows)) = Inr (g k (Jagged (map2 prefix_to lens rows)))"
    by blast
  then have col: "g k (Jagged (map2 prefix_to lens rows)) = Rect W (map (pad_row ?v W) (map2 prefix_to lens rows))"
    using widest_prefixes[OF len assms(5,6,7)] by (simp add: materialize_jagged W_def)
  have "map_of (map (\<lambda>(k, f). (k, g k f)) ?td) k = Some (Rect W (map (pad_row ?v W) (map2 prefix_to lens rows)))"
  proof (rule map_of_is_SomeI)
    show "distinct (map fst (map (\<lambda>(k, f). (k, g k f)) ?td))"
      using assms(2) by (simp add: comp_def case_prod_beta)
    show "(k, Rect W (map (pad_row ?v W) (map2 prefix_to lens rows))) \<in> set (map (\<lambda>(k, f). (k, g k f)) ?td)"
      using assms(3) jag col by (auto intro!: rev_image_eqI)
  qed
  moreover have "map (pad_row ?v W) (map2 prefix_to lens rows) ! i ! j = (if int j < lens ! i then rows ! i ! j else ?v)"
    if "i < length rows" "j < W" for i j
  proof -
    have l: "lens ! i \<in> set lens" and "rows ! i \<in> set rows"
      using that len by simp_all
    then have "0 \<le> lens ! i" "lens ! i \<le> int (length (rows ! i))"
      using assms(6,7) by auto
    moreover have "nat (lens ! i) \<le> W"
      using l by (auto simp: W_def intro!: max.coboundedI1 nat_mono)
    ultimately show ?thesis
      using that len by (simp add: prefix_nth)
  qed
  moreover have "map fst (map (\<lambda>(k, f). (k, g k f)) ?td) = map fst fs"
    by (simp add: comp_def case_prod_beta)
  ultimately show ?thesis
    using pack_jagged_sent[OF assms(1)] g len W_def
    by (intro exI[of _ ?td] exI[of _ "map (\<lambda>(k, f). (k, g k f)) ?td"] exI[of _ W]
        exI[of _ "map (pad_row ?v W) (map2 prefix_to lens rows)"]) simp
qed

theorem wire_roundtrip_witness:
  "\<exists>td out W back. pack_jagged_fields [(''input_ids'', Rect 3 [[5, 6, 0], [7, 0, 0]]), (''input_lengths'', Flat [2, 1])]
      (Some [2, 1]) TOKEN_ALIGNED_FIELDS = Inr td \<and>
    materialize True [''input_ids'' \<mapsto> 9] 4 td = Inr out \<and> map_of out ''input_ids'' = Some (Rect W back) \<and> W = 4 \<and>
    back ! 1 ! 0 = 7 \<and> back ! 1 ! 3 = 9"
  using wire_roundtrip[of "[2, 1]" "[(''input_ids'', Rect 3 [[5, 6, 0], [7, 0, 0]]), (''input_lengths'', Flat [2, 1])]"
      "''input_ids''" 3 "[[5, 6, 0], [7, 0, 0]]" TOKEN_ALIGNED_FIELDS "[''input_ids'' \<mapsto> 9]" 4]
  by (auto simp: TOKEN_ALIGNED_FIELDS_def field_rows_def)

text \<open>
  C16: whatever pad target the metadata of a step carried, a dispatch gives its ranks a target of its own:
  every rank, whichever rows it got, reads every per-token column at one common width that holds each row of the batch.
\<close>

theorem ranks_pad_alike:
  assumes iso: "isolated_meta dyn names task m = Inr m'" and lens: "sequence_lengths m = Some lens" "lens \<noteq> []"
    and run: "shard_meta_for_dp draw m' dp bs pk dyn2 = Inr (ms, u)"
  shows "\<exists>P. (\<forall>l\<in>set lens. l \<le> int P) \<and>
    (\<forall>r\<in>set ms. \<forall>rows k. rows \<noteq> [] \<and> list_all2 (\<lambda>q l. int (length q) = l) rows (the (sequence_lengths r)) \<longrightarrow>
       columns_read True pads r [(k, stack_or_nest rows)] =
         Inr [(k, Rect P (map (pad_row (case pads k of None \<Rightarrow> 0 | Some v \<Rightarrow> v) P) rows))])"
proof -
  obtain P where P: "map_of (extra_info m') PAD_KEY = Some (XOther (PInt P))" "\<forall>l\<in>set lens. l \<le> P"
      "sequence_lengths m' = Some lens"
    by (rule isolated_stamp[OF iso lens])
  have "columns_read True pads r [(k, stack_or_nest rows)] =
      Inr [(k, Rect (nat P) (map (pad_row (case pads k of None \<Rightarrow> 0 | Some v \<Rightarrow> v) (nat P)) rows))]"
    if "r \<in> set ms" and "rows \<noteq> []" and fit: "list_all2 (\<lambda>q l. int (length q) = l) rows (the (sequence_lengths r))" for r rows k
  proof -
    note rank = rank_pad_target[OF run that(1) P(1)]
    have "length q \<le> nat P" if "q \<in> set rows" for q
    proof -
      from that fit have "int (length q) \<in> set (the (sequence_lengths r))"
        by (auto simp: list_all2_conv_all_nth in_set_conv_nth)
      with rank(2) P(2,3) have "int (length q) \<le> P"
        by auto
      then show ?thesis
        by simp
    qed
    then show ?thesis
      using that(2) rank(1) by (simp add: columns_read_def materialize_def read_rows_at)
  qed
  moreover have "\<forall>l\<in>set lens. l \<le> int (nat P)"
    using P(2) by auto
  ultimately show ?thesis
    by blast
qed

definition demo_stale :: meta where
  "demo_stale = demo_meta\<lparr>extra_info := [(PAD_KEY, XOther (PInt 2)), (''pad_to_multiple'', XOther (PInt 4))]\<rparr>"

definition demo_isolated :: meta where
  "demo_isolated = projr (isolated_meta None [''input_ids''] ''prev_lp'' demo_stale)"

definition demo_ranks :: "meta list" where
  "demo_ranks = fst (projr (shard_meta_for_dp (\<lambda>_. id) demo_isolated 2 None None None))"

theorem ranks_pad_alike_witness:
  "\<exists>P. 6 \<le> int P \<and>
     columns_read True Map.empty (demo_ranks ! 1) [(''token_mask'', stack_or_nest [[1, 1], [1, 0, 1, 1], [1]])] =
       Inr [(''token_mask'', Rect P (map (pad_row 0 P) [[1, 1], [1, 0, 1, 1], [1]]))]"
proof -
  have "\<not> isl (isolated_meta None [''input_ids''] ''prev_lp'' demo_stale)"
    by code_simp
  then have iso: "isolated_meta None [''input_ids''] ''prev_lp'' demo_stale = Inr demo_isolated"
    by (simp add: demo_isolated_def)
  have "\<not> isl (shard_meta_for_dp (\<lambda>_. id) demo_isolated 2 None None None)"
    by code_simp
  then have run: "shard_meta_for_dp (\<lambda>_. id) demo_isolated 2 None None None = Inr (demo_ranks,
      snd (projr (shard_meta_for_dp (\<lambda>_. id) demo_isolated 2 None None None)))"
    by (simp add: demo_ranks_def)
  have ranks: "map sequence_lengths demo_ranks = [Some [6, 3, 5], Some [2, 4, 1]]"
    by code_simp
  then have len: "length demo_ranks = 2"
    by (metis length_map length_Cons list.size(3) numeral_2_eq_2)
  then have at: "demo_ranks ! 1 \<in> set demo_ranks" and "sequence_lengths (demo_ranks ! 1) = Some [2, 4, 1]"
    using arg_cong[OF ranks, of "\<lambda>xs. xs ! 1"] by simp_all
  then have fit: "list_all2 (\<lambda>q l. int (length q) = l) [[1 :: int, 1], [1, 0, 1, 1], [1]] (the (sequence_lengths (demo_ranks ! 1)))"
    by simp
  have lens: "sequence_lengths demo_stale = Some [6, 3, 5, 2, 4, 1]" "[6, 3, 5, 2, 4, 1 :: int] \<noteq> []"
    by (simp_all add: demo_stale_def demo_meta_def)
  from ranks_pad_alike[OF iso lens run, of Map.empty] at fit show ?thesis
    by (metis (no_types, lifting) list.distinct(1) list.set_intros(1) option.simps(4))
qed

end
