(* ===== verification/TQDispatch.thy ===== *)
theory TQDispatch
  imports PolicyDispatch WireColumns
begin

text \<open>
  A policy over the data plane (\<open>nemo_rl/models/policy/tq_policy.py\<close>, \<open>nemo_rl/data_plane/worker_mixin.py\<close>,
  \<open>driver_mixin.py\<close>): the driver sends metadata, every worker fetches its rows, computes, and one worker of
  each replica writes the result back.  The store is the in-memory client; a cell is an integer that stands for
  the row of a tensor.  What a worker computes on its rows is an argument.  A call is a set of workers whose
  fetches and write-backs interleave.  Timers, traces and the FLOP counter are left out.
\<close>

section \<open>A worker\<close>

text \<open>
  \<open>replica_size\<close> is the size of the group of siblings that hold the same data, if there is one.  The
  configuration is \<open>None\<close> when it is not a dictionary.
\<close>

record tq_worker =
  connected :: bool
  slices_cp_inputs :: bool
  replica_size :: "nat option"
  local_coords :: coords
  w_cfg :: "policy_cfg option"

definition setup_data_plane :: "tq_worker \<Rightarrow> tq_worker \<times> unit res" where
  "setup_data_plane w =
     (if slices_cp_inputs w then (w, Inl NotImplementedError) else (w\<lparr>connected := True\<rparr>, Inr ()))"

definition is_replica_leader :: "tq_worker \<Rightarrow> bool" where
  "is_replica_leader w = is_axis_zero (local_coords w) REPLICATED_AXES"

text \<open>\<open>list(meta.fields)\<close> fails when there are none.\<close>

definition read_meta :: "client \<Rightarrow> meta \<Rightarrow> (string \<times> int list) list res" where
  "read_meta c m =
     (case field_names m of None \<Rightarrow> Inl TypeError | Some fs \<Rightarrow> snd (get_samples c (sample_ids m) (partition_id m) fs))"

text \<open>\<open>from_leader\<close> is what the leader of the replica broadcasts.\<close>

definition fetch ::
  "tq_worker \<Rightarrow> string \<Rightarrow> client \<Rightarrow> (string \<times> int list) list res \<Rightarrow> meta \<Rightarrow> (string \<times> int list) list res" where
  "fetch w fetch_policy c from_leader m =
     bindR (guardR ValueError (fetch_policy \<in> {''auto'', ''independent'', ''leader_broadcast''})) (\<lambda>_.
     let grp = (if fetch_policy \<in> {''auto'', ''leader_broadcast''} then replica_size w else None)
     in bindR (guardR RuntimeError (\<not> (fetch_policy = ''leader_broadcast'' \<and> grp = None))) (\<lambda>_.
        bindR (forward_pad_seqlen m) (\<lambda>_.
          if (case grp of None \<Rightarrow> False | Some n \<Rightarrow> n > 1) \<and> \<not> is_replica_leader w then from_leader
          else bindR (guardR RuntimeError (connected w)) (\<lambda>_. read_meta c m))))"

definition batch_of :: "(string \<times> int list) list \<Rightarrow> batch" where
  "batch_of td = new_batch (map (\<lambda>(k, xs). (k, Vector xs)) td)"

section \<open>The plan of the microbatches\<close>

definition first_shard :: "(batch list \<times> nat list option) res \<Rightarrow> batch res" where
  "first_shard r = bindR r (\<lambda>(ps, _). case ps of [] \<Rightarrow> Inl IndexError | p # _ \<Rightarrow> Inr p)"

definition apply_packing_prep :: "(nat \<Rightarrow> nat \<Rightarrow> nat) \<Rightarrow> policy_cfg option \<Rightarrow> batch \<Rightarrow> batch res" where
  "apply_packing_prep draw cfg b =
     (case cfg of
        None \<Rightarrow> Inr b
      | Some c \<Rightarrow>
          (case (sequence_packing c, dynamic_batching c) of
             (Some sp, _) \<Rightarrow>
               first_shard (shard_by_batch_size draw b 1 None False None (Some (packing_args_for Training (pad_multiple c) sp)))
           | (None, Some dc) \<Rightarrow>
               first_shard (shard_by_batch_size draw b 1 None False (Some (dynamic_args_for Training dc)) None)
           | (None, None) \<Rightarrow> Inr b))"

text \<open>The driver's plan travels in the extra information under three keys.\<close>

fun plan_indices :: "extra_val \<Rightarrow> (nat \<times> nat) list list option" where
  "plan_indices (XIndices ixs) = Some ixs"
| "plan_indices _ = None"

fun plan_lengths :: "extra_val \<Rightarrow> int list list option" where
  "plan_lengths (XLengths ls) = Some ls"
| "plan_lengths _ = None"

definition has_plan :: "meta \<Rightarrow> bool" where
  "has_plan m \<longleftrightarrow> map_of (extra_info m) ''micro_batch_indices'' \<noteq> None \<and>
     map_of (extra_info m) ''micro_batch_lengths'' \<noteq> None"

definition attach_or_repack :: "(nat \<Rightarrow> nat \<Rightarrow> nat) \<Rightarrow> policy_cfg option \<Rightarrow> batch \<Rightarrow> meta \<Rightarrow> batch res" where
  "attach_or_repack draw cfg b m =
     (case (map_of (extra_info m) ''micro_batch_indices'', map_of (extra_info m) ''micro_batch_lengths'') of
        (Some i, Some l) \<Rightarrow>
          Inr (b\<lparr>micro_batch_indices := plan_indices i, micro_batch_lengths := plan_lengths l,
                 elem_counts_per_gb := (case map_of (extra_info m) ''elem_counts_per_gb'' of
                    Some (XCounts ns) \<Rightarrow> Some ns | Some _ \<Rightarrow> None | None \<Rightarrow> elem_counts_per_gb b)\<rparr>)
      | _ \<Rightarrow> apply_packing_prep draw cfg b)"

section \<open>Writing back\<close>

definition leaf_of :: "field \<Rightarrow> leaf" where
  "leaf_of f = (case f of Flat xs \<Rightarrow> TensorLeaf xs | _ \<Rightarrow> OtherLeaf)"

definition write_columns :: "client \<Rightarrow> meta \<Rightarrow> (string \<times> int list) list \<Rightarrow> client \<times> unit res" where
  "write_columns c m cols =
     (case columns_to_write m (map (\<lambda>(k, xs). (k, Flat xs)) cols) of
        Inl e \<Rightarrow> (c, Inl e)
      | Inr None \<Rightarrow> (c, Inr ())
      | Inr (Some td) \<Rightarrow>
          (case put_samples c (sample_ids m) (partition_id m) (Some (map (\<lambda>(k, f). (k, leaf_of f)) td)) None of
             (c', r) \<Rightarrow> (c', bindR r (\<lambda>_. Inr ()))))"

definition write_back :: "tq_worker \<Rightarrow> client \<Rightarrow> meta \<Rightarrow> (string \<times> int list) list \<Rightarrow> client \<times> unit res" where
  "write_back w c m cols =
     (if \<not> is_replica_leader w \<or> cols = [] then (c, Inr ())
      else if \<not> connected w then (c, Inl RuntimeError)
      else write_columns c m cols)"

datatype worker_result = NotMapping | Mapped "(string \<times> leaf) list"

definition write_back_result_field ::
  "tq_worker \<Rightarrow> client \<Rightarrow> meta \<Rightarrow> worker_result \<Rightarrow> string \<Rightarrow> string \<Rightarrow> client \<times> unit res" where
  "write_back_result_field w c m result result_key tq_field =
     (if \<not> connected w then (c, Inr ())
      else case result of
        NotMapping \<Rightarrow> (c, Inl RuntimeError)
      | Mapped cols \<Rightarrow>
          (case map_of cols result_key of
             None \<Rightarrow> (c, Inl RuntimeError)
           | Some OtherLeaf \<Rightarrow> (c, Inl TypeError)
           | Some (TensorLeaf xs) \<Rightarrow>
               (if length xs \<noteq> length (sample_ids m) then (c, Inl ValueError)
                else write_back w c m [(tq_field, xs)])))"

section \<open>The entry points of a worker\<close>

datatype forward = PrevLogprobs | ReferenceLogprobs | TeacherLogprobs | Values

fun result_key :: "forward \<Rightarrow> string" where
  "result_key ReferenceLogprobs = ''reference_logprobs''"
| "result_key Values = ''values''"
| "result_key _ = ''logprobs''"

fun tq_field :: "forward \<Rightarrow> string" where
  "tq_field PrevLogprobs = ''prev_logprobs''"
| "tq_field ReferenceLogprobs = ''reference_policy_logprobs''"
| "tq_field TeacherLogprobs = ''teacher_reference_logprobs''"
| "tq_field Values = ''values''"

definition batching_enabled :: "policy_cfg option \<Rightarrow> bool" where
  "batching_enabled cfg = (case cfg of None \<Rightarrow> False | Some c \<Rightarrow> sequence_packing c \<noteq> None \<or> dynamic_batching c \<noteq> None)"

text \<open>
  An entry point in two steps, the computation and the write-back, with the fetch at the time of the first.
\<close>

definition computes ::
  "(nat \<Rightarrow> nat \<Rightarrow> nat) \<Rightarrow> forward \<Rightarrow> tq_worker \<Rightarrow> (batch \<Rightarrow> worker_result res) \<Rightarrow> client \<Rightarrow>
   (string \<times> int list) list res \<Rightarrow> meta \<Rightarrow> worker_result res" where
  "computes draw fw w body c from_leader m =
     bindR (fetch w ''auto'' c from_leader m) (\<lambda>td.
     bindR (guardR RuntimeError (\<not> (fw = TeacherLogprobs \<and> batching_enabled (w_cfg w) \<and> \<not> has_plan m))) (\<lambda>_.
     bindR (attach_or_repack draw (w_cfg w) (batch_of td) m) body))"

definition commits :: "forward \<Rightarrow> tq_worker \<Rightarrow> client \<Rightarrow> meta \<Rightarrow> worker_result \<Rightarrow> client \<times> unit res" where
  "commits fw w c m result = write_back_result_field w c m result (result_key fw) (tq_field fw)"

definition train_presharded ::
  "(nat \<Rightarrow> nat \<Rightarrow> nat) \<Rightarrow> tq_worker \<Rightarrow> (batch \<Rightarrow> 'm train_report res) \<Rightarrow> client \<Rightarrow>
   (string \<times> int list) list res \<Rightarrow> meta \<Rightarrow> 'm train_report res" where
  "train_presharded draw w train c from_leader m =
     bindR (fetch w ''auto'' c from_leader m) (\<lambda>td.
     bindR (attach_or_repack draw (w_cfg w) (batch_of td) m) train)"


section \<open>The driver\<close>

definition TEACHER_LP_FIELDS :: "string list" where
  "TEACHER_LP_FIELDS = [''input_ids'', ''input_lengths'']"

definition split_metas ::
  "(nat \<Rightarrow> nat \<Rightarrow> nat) \<Rightarrow> policy \<Rightarrow> packing_args option \<Rightarrow> dynamic_args option \<Rightarrow> nat option \<Rightarrow> meta \<Rightarrow> meta list res" where
  "split_metas draw p pk dyn batch_size m =
     bindR (data_parallel_size p) (\<lambda>dp.
     bindR (shard_meta_for_dp draw m dp batch_size pk dyn) (\<lambda>(ms, _). Inr ms))"

definition stage_metas ::
  "(nat \<Rightarrow> nat \<Rightarrow> nat) \<Rightarrow> stage \<Rightarrow> policy \<Rightarrow> string list \<Rightarrow> string \<Rightarrow> nat option \<Rightarrow> meta \<Rightarrow> meta list res" where
  "stage_metas draw st p fs task batch_size m =
     bindR (isolated_meta (fst (batching_args Training (p_cfg p))) fs task m) (\<lambda>im.
       case batching_args st (p_cfg p) of (dyn, pk) \<Rightarrow> split_metas draw p pk dyn batch_size im)"

text \<open>A frozen teacher computes its own pad target and prefers packing to dynamic batches.\<close>

definition teacher_metas :: "(nat \<Rightarrow> nat \<Rightarrow> nat) \<Rightarrow> policy \<Rightarrow> string \<Rightarrow> meta \<Rightarrow> meta list res" where
  "teacher_metas draw p alias m =
     (let cfg = p_cfg p;
          plain = (if sequence_packing cfg \<noteq> None then 1 else pad_multiple cfg);
          mult = (case dynamic_batching cfg of None \<Rightarrow> plain | Some dc \<Rightarrow> max plain (dc_round dc))
      in case sequence_lengths m of
           None \<Rightarrow> Inl ValueError
         | Some [] \<Rightarrow> Inl ValueError
         | Some lens \<Rightarrow>
             bindR (mk_meta (m\<lparr>task_name := Some (''teacher_lp:'' @ alias), field_names := Some TEACHER_LP_FIELDS,
               extra_info := AList.update PAD_KEY (XOther (PInt (align_to (Max (set lens)) mult))) (extra_info m)\<rparr>)) (\<lambda>tm.
             case sequence_packing cfg of
               Some sc \<Rightarrow> split_metas draw p (Some (packing_args_for Logprob (pad_multiple cfg) sc)) None None tm
             | None \<Rightarrow> split_metas draw p None (map_option (dynamic_args_for Logprob) (dynamic_batching cfg)) None tm))"

text \<open>The four forward passes over the data plane: of the policy, of the critic, of a teacher\<close>

definition forward_fields :: "bool \<Rightarrow> forward \<Rightarrow> string list" where
  "forward_fields router_replay fw =
     (case fw of
        TeacherLogprobs \<Rightarrow> TEACHER_LP_FIELDS
      | _ \<Rightarrow> fields_with_optional_routed_experts LP_SEED_FIELDS (router_replay \<and> fw = PrevLogprobs))"

definition forward_metas ::
  "(nat \<Rightarrow> nat \<Rightarrow> nat) \<Rightarrow> forward \<Rightarrow> policy \<Rightarrow> bool \<Rightarrow> string \<Rightarrow> meta \<Rightarrow> meta list res" where
  "forward_metas draw fw p router_replay alias m =
     (case fw of
        TeacherLogprobs \<Rightarrow> teacher_metas draw p alias m
      | PrevLogprobs \<Rightarrow> stage_metas draw Logprob p (forward_fields router_replay fw) ''prev_lp'' None m
      | ReferenceLogprobs \<Rightarrow> stage_metas draw Logprob p (forward_fields router_replay fw) ''ref_lp'' None m
      | Values \<Rightarrow> stage_metas draw Logprob p (forward_fields router_replay fw) ''value_fwd'' None m)"

definition meta_calls :: "policy \<Rightarrow> meta list \<Rightarrow> meta sharded_calls \<times> unit res" where
  "meta_calls p ms =
     run_all_workers_sharded_data (p_group p) [''data_parallel''] REPLICATED_CALL REPLICATED_CALL False
       [(''meta'', Slices (map Whole ms))] []"

text \<open>
  The calls run concurrently on their workers: an event is a worker that fetches and computes, or one that
  writes back.  A worker's result is remembered in between.  The broadcast and the read it comes from are one
  event.
\<close>

datatype dp_event = Computes nat | Commits nat

record running =
  plane :: client
  results :: "nat \<rightharpoonup> worker_result res"
  finished :: "nat \<rightharpoonup> unit res"

definition meta_of_call :: "meta sharded_calls \<Rightarrow> nat \<rightharpoonup> meta" where
  "meta_of_call calls w =
     (case map_of (map (\<lambda>c. (called c, arguments c)) (futures calls)) w of
        None \<Rightarrow> None
      | Some kw \<Rightarrow> (case map_of kw ''meta'' of Some (Some (Whole m)) \<Rightarrow> Some m | _ \<Rightarrow> None))"

record dp_workers =
  worker_of :: "nat \<Rightarrow> tq_worker"
  body_of :: "nat \<Rightarrow> batch \<Rightarrow> worker_result res"
  draws :: "nat \<Rightarrow> nat \<Rightarrow> nat"

fun dp_step :: "forward \<Rightarrow> dp_workers \<Rightarrow> meta sharded_calls \<Rightarrow> dp_event \<Rightarrow> running \<Rightarrow> running" where
  "dp_step fw env calls (Computes w) s =
     (case meta_of_call calls w of
        None \<Rightarrow> s
      | Some m \<Rightarrow>
          s\<lparr>results := (results s)(w \<mapsto>
              computes (draws env) fw (worker_of env w) (body_of env w) (plane s) (read_meta (plane s) m) m)\<rparr>)"
| "dp_step fw env calls (Commits w) s =
     (case (meta_of_call calls w, results s w) of
        (Some m, Some (Inr r)) \<Rightarrow>
          (case commits fw (worker_of env w) (plane s) m r of
             (c', u) \<Rightarrow> s\<lparr>plane := c', finished := (finished s)(w \<mapsto> u)\<rparr>)
      | (Some m, Some (Inl e)) \<Rightarrow> s\<lparr>finished := (finished s)(w \<mapsto> Inl e)\<rparr>
      | _ \<Rightarrow> s)"

definition dp_run :: "forward \<Rightarrow> dp_workers \<Rightarrow> meta sharded_calls \<Rightarrow> client \<Rightarrow> dp_event list \<Rightarrow> running" where
  "dp_run fw env calls c evs =
     fold (dp_step fw env calls) evs \<lparr>plane = c, results = Map.empty, finished = Map.empty\<rparr>"

text \<open>Every called worker computes once and commits once, in this order.\<close>

fun in_turn :: "nat list \<Rightarrow> nat list \<Rightarrow> dp_event list \<Rightarrow> bool" where
  "in_turn todo busy [] \<longleftrightarrow> todo = [] \<and> busy = []"
| "in_turn todo busy (Computes w # evs) \<longleftrightarrow> w \<in> set todo \<and> in_turn (remove1 w todo) (w # busy) evs"
| "in_turn todo busy (Commits w # evs) \<longleftrightarrow> w \<in> set busy \<and> in_turn todo (remove1 w busy) evs"

text \<open>The dispatch: the metadata, the calls, their run, and the wait for all of them.\<close>

definition forward_dispatch ::
  "forward \<Rightarrow> dp_workers \<Rightarrow> policy \<Rightarrow> bool \<Rightarrow> string \<Rightarrow> meta \<Rightarrow> dp_event list \<Rightarrow> client \<Rightarrow> client \<times> unit res" where
  "forward_dispatch fw env p router_replay alias m evs c =
     (case forward_metas (draws env) fw p router_replay alias m of
        Inl e \<Rightarrow> (c, Inl e)
      | Inr ms \<Rightarrow>
          (case meta_calls p ms of
             (calls, Inl e) \<Rightarrow> (c, Inl e)
           | (calls, Inr _) \<Rightarrow>
               (let s = dp_run fw env calls c evs
                in (plane s, bindR (mapR (\<lambda>w. case finished s w of None \<Rightarrow> Inl TimeoutError | Some u \<Rightarrow> u)
                     (called_workers calls)) (\<lambda>_. Inr ())))))"

text \<open>The reports of a step; metrics of multi-token prediction and of a draft model are dropped.\<close>

definition aggregate_tq :: "'m train_report list \<Rightarrow> 'm train_report res" where
  "aggregate_tq rs = bindR (aggregate_train rs) (\<lambda>r. Inr (r\<lparr>mtp_metrics := None, draft_grad_norm := None\<rparr>))"

text \<open>A training step over the data plane; training only reads.\<close>

definition train_from_meta ::
  "(nat \<Rightarrow> nat \<Rightarrow> nat) \<Rightarrow> policy \<Rightarrow> (nat \<Rightarrow> tq_worker) \<Rightarrow> (nat \<Rightarrow> batch \<Rightarrow> 'm train_report res) \<Rightarrow>
   string list \<Rightarrow> string \<Rightarrow> nat \<Rightarrow> client \<Rightarrow> meta \<Rightarrow> 'm train_report res" where
  "train_from_meta draw p worker train fs task batch_size c m =
     bindR (stage_metas draw Training p fs task (Some batch_size) m) (\<lambda>ms.
     bindR (get_all_worker_results
        (\<lambda>w kw. case map_of kw ''meta'' of
             Some (Some (Whole r)) \<Rightarrow> Value (train_presharded draw (worker w) (train w) c (read_meta c r) r)
           | _ \<Rightarrow> Value (Inl TypeError))
        (meta_calls p ms)) aggregate_tq)"


section \<open>One worker\<close>

text \<open>The row of a sample, as a batch shows it, and a worker whose result for a row depends on that row.\<close>

definition cells :: "client \<Rightarrow> string \<Rightarrow> string list \<Rightarrow> string \<Rightarrow> string \<Rightarrow> column option" where
  "cells c pid fs sid f = (if f \<in> set fs then map_option (\<lambda>v. Vector [v]) (read_cell c pid sid f) else None)"

definition forward_rows :: "string \<Rightarrow> ((string \<Rightarrow> column option) \<Rightarrow> int) \<Rightarrow> (batch \<Rightarrow> worker_result res) \<Rightarrow> bool" where
  "forward_rows key F body \<longleftrightarrow> (\<forall>b. columns b = [] \<or> (\<exists>n. batch_wf b n) \<longrightarrow>
     body b = Inr (Mapped [(key, TensorLeaf (map (\<lambda>i. F (row b i)) [0..<batch_len b]))]))"

definition readable :: "client \<Rightarrow> string \<Rightarrow> string list \<Rightarrow> string list \<Rightarrow> bool" where
  "readable c pid ids fs \<longleftrightarrow> map_of (partitions c) pid \<noteq> None \<and> distinct fs \<and> fs \<noteq> [] \<and>
     list_all (\<lambda>sid. list_all (\<lambda>f. read_cell c pid sid f \<noteq> None) fs) ids"

lemma fetch_row_all:
  "\<forall>f\<in>set fs. map_of r f \<noteq> None \<Longrightarrow> fetch_row fs r = Inr (map (\<lambda>f. (f, the (map_of r f))) fs)"
  by (induction fs) auto

lemma get_samples_cells:
  assumes "readable c pid ids fs"
  shows "snd (get_samples c ids pid fs) =
    Inr (if ids = [] then [] else map (\<lambda>f. (f, map (\<lambda>sid. the (read_cell c pid sid f)) ids)) fs)"
proof -
  note ok = assms[unfolded readable_def list_all_iff]
  then obtain rec where rec: "map_of (partitions c) pid = Some rec" by blast
  define rw where "rw sid = get_or [] (p_rows rec) sid" for sid
  have cell: "read_cell c pid sid f = map_of (rw sid) f" for sid f
    by (simp add: read_cell_def rec rw_def)
  have fetched: "(case map_of (p_rows rec) sid of None \<Rightarrow> Inl KeyError | Some r \<Rightarrow> fetch_row fs r) =
      Inr (map (\<lambda>f. (f, the (map_of (rw sid) f))) fs)" if "sid \<in> set ids" for sid
  proof -
    have all: "\<forall>f\<in>set fs. map_of (rw sid) f \<noteq> None" using ok that by (simp add: cell)
    with ok have "map_of (p_rows rec) sid = Some (rw sid)"
      by (cases fs) (auto simp: rw_def get_or_def split: option.splits)
    then show ?thesis using fetch_row_all[OF all] by simp
  qed
  have "mapR (\<lambda>sid. case map_of (p_rows rec) sid of None \<Rightarrow> Inl KeyError | Some r \<Rightarrow> fetch_row fs r) ids =
      Inr (map (\<lambda>sid. map (\<lambda>f. (f, the (map_of (rw sid) f))) fs) ids)"
    by (rule mapR_total) (rule fetched)
  then show ?thesis
    using ok by (auto simp: get_samples_def with_partition_def rec cell comp_def map_of_map_restrict)
qed

lemma batch_of_cells:
  assumes "readable c pid ids fs"
  defines "b \<equiv> batch_of (map (\<lambda>f. (f, map (\<lambda>sid. the (read_cell c pid sid f)) ids)) fs)"
  shows "batch_wf b (length ids)" and "i < length ids \<Longrightarrow> row b i = cells c pid fs (ids ! i)"
proof -
  note ok = assms(1)[unfolded readable_def list_all_iff]
  have cols: "columns b = map (\<lambda>f. (f, Vector (map (\<lambda>sid. the (read_cell c pid sid f)) ids))) fs"
    by (simp add: b_def batch_of_def new_batch_def)
  show "batch_wf b (length ids)"
    using ok by (auto simp: batch_wf_def cols comp_def)
  show "row b i = cells c pid fs (ids ! i)" if i: "i < length ids"
  proof
    fix k
    have "\<exists>v. read_cell c pid (ids ! i) k = Some v" if "k \<in> set fs"
      using ok i that nth_mem[OF i] by blast
    then show "row b i k = cells c pid fs (ids ! i) k"
      using i by (auto simp: row_def cells_def cols map_of_map_restrict restrict_map_def pick_def)
  qed
qed

lemma attach_keeps:
  assumes "batching_enabled cfg \<longrightarrow> has_plan m"
  shows "\<exists>b'. attach_or_repack draw cfg b m = Inr b' \<and> columns b' = columns b"
proof (cases "has_plan m")
  case True
  then show ?thesis
    by (auto simp: attach_or_repack_def has_plan_def)
next
  case False
  with assms have "apply_packing_prep draw cfg b = Inr b"
    by (auto simp: apply_packing_prep_def batching_enabled_def split: option.splits)
  with False show ?thesis
    by (auto simp: attach_or_repack_def has_plan_def split: option.splits)
qed

lemma computes_rows:
  assumes cells: "readable c (partition_id m) (sample_ids m) fs" and fs: "field_names m = Some fs"
    and w: "connected w" "batching_enabled (w_cfg w) \<longrightarrow> has_plan m" and pad: "forward_pad_seqlen m = Inr P"
    and body: "forward_rows key F body"
  shows "computes draw fw w body c (read_meta c m) m =
    Inr (Mapped [(key, TensorLeaf (map (\<lambda>sid. F (cells c (partition_id m) fs sid)) (sample_ids m)))])"
proof -
  define td where "td = (if sample_ids m = [] then []
    else map (\<lambda>f. (f, map (\<lambda>sid. the (read_cell c (partition_id m) sid f)) (sample_ids m))) fs)"
  have "read_meta c m = Inr td"
    using get_samples_cells[OF cells] by (simp add: read_meta_def fs td_def)
  then have f: "fetch w ''auto'' c (read_meta c m) m = Inr td"
    using w(1) pad by (simp add: fetch_def Let_def)
  obtain b where b: "attach_or_repack draw (w_cfg w) (batch_of td) m = Inr b" "columns b = columns (batch_of td)"
    using attach_keeps[OF w(2)] by blast
  have rows: "row b i = row (batch_of td) i" "batch_len b = batch_len (batch_of td)" for i
    by (auto simp: row_def b(2) batch_len_def)
  have "body b = Inr (Mapped [(key, TensorLeaf (map (\<lambda>sid. F (cells c (partition_id m) fs sid)) (sample_ids m)))])"
  proof (cases "sample_ids m = []")
    case True
    then have "columns b = []" by (simp add: b(2) td_def batch_of_def new_batch_def)
    with body True show ?thesis by (simp add: forward_rows_def batch_len_def)
  next
    case False
    then have wf: "batch_wf (batch_of td) (length (sample_ids m))"
      and at: "i < length (sample_ids m) \<Longrightarrow> row (batch_of td) i = cells c (partition_id m) fs (sample_ids m ! i)" for i
      using batch_of_cells[OF cells] by (simp_all add: td_def)
    then have "batch_wf b (length (sample_ids m))" by (simp add: batch_wf_cong[OF b(2)])
    with body have "body b = Inr (Mapped [(key, TensorLeaf (map (\<lambda>i. F (row b i)) [0..<batch_len b]))])"
      unfolding forward_rows_def by blast
    moreover have "map (\<lambda>i. F (row b i)) [0..<batch_len b] = map (\<lambda>sid. F (cells c (partition_id m) fs sid)) (sample_ids m)"
      using batch_wf_len[OF wf] by (intro nth_equalityI) (simp_all add: rows at)
    ultimately show ?thesis by simp
  qed
  with f b(1) w(2) show ?thesis
    by (simp add: computes_def)
qed

lemma put_rows_single:
  "i + length ids \<le> length xs \<Longrightarrow> \<exists>rows'. put_rows [(f, TensorLeaf xs)] i ids rows = (rows', Inr ())"
  by (induction ids arbitrary: i rows) auto

lemma commits_leader:
  assumes "connected w" and "is_replica_leader w" and "map_of (partitions c) (partition_id m) \<noteq> None"
    and "sequence_lengths m = Some lens" and "length lens = length (sample_ids m)" and "length xs = length (sample_ids m)"
  shows "\<exists>c'. commits fw w c m (Mapped [(result_key fw, TensorLeaf xs)]) = (c', Inr ()) \<and>
    put_columns c (partition_id m) (sample_ids m) [(tq_field fw, xs)] = Some c'"
proof -
  obtain rec where rec: "map_of (partitions c) (partition_id m) = Some rec" using assms(3) by blast
  have "pack_jagged_fields [(tq_field fw, Flat xs)] (Some lens) TOKEN_ALIGNED_FIELDS = Inr [(tq_field fw, Flat xs)]"
    using pack_jagged_sent[of lens "[(tq_field fw, Flat xs)]"] assms(5,6) by (simp add: field_rows_def sent_def)
  then have pack: "columns_to_write m [(tq_field fw, Flat xs)] = Inr (Some [(tq_field fw, Flat xs)])"
    by (simp add: columns_to_write_def assms(4))
  obtain rows' where "put_rows [(tq_field fw, TensorLeaf xs)] 0 (sample_ids m) (p_rows rec) = (rows', Inr ())"
    using put_rows_single[of 0 "sample_ids m" xs] assms(6) by auto
  then show ?thesis
    using assms(1,2,6) pack
    by (simp add: commits_def write_back_result_field_def write_back_def write_columns_def leaf_of_def put_columns_def
        put_samples_def with_partition_def rec reject_non_tensor_leaves_def mk_meta_def)
qed

lemma commits_follower:
  assumes "connected w" and "\<not> is_replica_leader w" and "length xs = length (sample_ids m)"
  shows "commits fw w c m (Mapped [(result_key fw, TensorLeaf xs)]) = (c, Inr ())"
  using assms by (simp add: commits_def write_back_result_field_def write_back_def)


section \<open>All workers, interleaved\<close>

text \<open>What a call needs of its workers: \<open>M\<close> gives their metadata.\<close>

definition calls_ok ::
  "forward \<Rightarrow> dp_workers \<Rightarrow> meta sharded_calls \<Rightarrow> (nat \<Rightarrow> meta) \<Rightarrow> nat set \<Rightarrow> string \<Rightarrow> string list \<Rightarrow>
   ((string \<Rightarrow> column option) \<Rightarrow> int) \<Rightarrow> client \<Rightarrow> bool" where
  "calls_ok fw env calls M W pid fs F c \<longleftrightarrow> tq_field fw \<notin> set fs \<and>
     (\<forall>w\<in>W. meta_of_call calls w = Some (M w) \<and> partition_id (M w) = pid \<and> field_names (M w) = Some fs \<and>
        distinct (sample_ids (M w)) \<and> map_option length (sequence_lengths (M w)) = Some (length (sample_ids (M w))) \<and>
        ok (forward_pad_seqlen (M w)) \<and> readable c pid (sample_ids (M w)) fs \<and>
        connected (worker_of env w) \<and> (batching_enabled (w_cfg (worker_of env w)) \<longrightarrow> has_plan (M w)) \<and>
        forward_rows (result_key fw) F (body_of env w))"

definition written :: "dp_workers \<Rightarrow> (nat \<Rightarrow> meta) \<Rightarrow> running \<Rightarrow> string \<Rightarrow> bool" where
  "written env M s k \<longleftrightarrow>
     (\<exists>w\<in>dom (finished s). is_replica_leader (worker_of env w) \<and> k \<in> set (sample_ids (M w)))"

text \<open>
  At every moment the data plane holds what it held before, plus the results of the leaders that have
  finished; a result that waits to be written is the right one.
\<close>

definition run_inv ::
  "forward \<Rightarrow> dp_workers \<Rightarrow> (nat \<Rightarrow> meta) \<Rightarrow> nat set \<Rightarrow> string \<Rightarrow> (string \<Rightarrow> int) \<Rightarrow> client \<Rightarrow> running \<Rightarrow> bool" where
  "run_inv fw env M W pid G c s \<longleftrightarrow>
     map_of (partitions (plane s)) pid \<noteq> None \<and> dom (finished s) \<subseteq> W \<and>
     (\<forall>w r. results s w = Some r \<longrightarrow> w \<in> W \<and> r = Inr (Mapped [(result_key fw, TensorLeaf (map G (sample_ids (M w))))])) \<and>
     (\<forall>w u. finished s w = Some u \<longrightarrow> u = Inr ()) \<and>
     (\<forall>p k f. read_cell (plane s) p k f =
        (if p = pid \<and> f = tq_field fw \<and> written env M s k then Some (G k) else read_cell c p k f))"

lemma put_columns_partition: "put_columns c p ids cols = Some c' \<Longrightarrow> map_of (partitions c') p \<noteq> None"
  by (elim put_columns_Some) simp

lemma readable_kept:
  assumes "readable c pid ids fs" and "map_of (partitions c') pid \<noteq> None"
    and "\<And>k f. f \<in> set fs \<Longrightarrow> read_cell c' pid k f = read_cell c pid k f"
  shows "readable c' pid ids fs" and "cells c' pid fs = cells c pid fs"
  using assms by (auto simp: readable_def list_all_iff cells_def fun_eq_iff)

lemma computes_inv:
  assumes ok: "calls_ok fw env calls M W pid fs F c" and inv: "run_inv fw env M W pid (\<lambda>k. F (cells c pid fs k)) c s"
    and w: "w \<in> W"
  shows "run_inv fw env M W pid (\<lambda>k. F (cells c pid fs k)) c (dp_step fw env calls (Computes w) s) \<and>
    dom (results (dp_step fw env calls (Computes w) s)) = insert w (dom (results s)) \<and>
    dom (finished (dp_step fw env calls (Computes w) s)) = dom (finished s)"
proof -
  note k = ok[unfolded calls_ok_def] and i = inv[unfolded run_inv_def]
  from k w obtain P where m: "meta_of_call calls w = Some (M w)" "partition_id (M w) = pid" "field_names (M w) = Some fs"
      "connected (worker_of env w)" "batching_enabled (w_cfg (worker_of env w)) \<longrightarrow> has_plan (M w)"
      "forward_rows (result_key fw) F (body_of env w)" "readable c pid (sample_ids (M w)) fs" "forward_pad_seqlen (M w) = Inr P"
    by (auto simp: ok_iff)
  have same: "read_cell (plane s) pid j f = read_cell c pid j f" if "f \<in> set fs" for j f
    using k i that by metis
  note here = readable_kept[OF m(7), of "plane s"]
  have "readable (plane s) (partition_id (M w)) (sample_ids (M w)) fs"
    using here(1) i same m(2) by simp
  from computes_rows[OF this m(3,4,5,8,6)]
  have r: "computes (draws env) fw (worker_of env w) (body_of env w) (plane s) (read_meta (plane s) (M w)) (M w) =
      Inr (Mapped [(result_key fw, TensorLeaf (map (\<lambda>k. F (cells c pid fs k)) (sample_ids (M w))))])"
    using here(2) i same m(2) by simp
  show ?thesis
    using i w by (auto simp: run_inv_def m(1) r written_def)
qed

lemma commits_inv:
  assumes ok: "calls_ok fw env calls M W pid fs F c" and inv: "run_inv fw env M W pid G c s"
    and w: "w \<in> dom (results s)"
  shows "run_inv fw env M W pid G c (dp_step fw env calls (Commits w) s) \<and>
    results (dp_step fw env calls (Commits w) s) = results s \<and>
    dom (finished (dp_step fw env calls (Commits w) s)) = insert w (dom (finished s))"
proof -
  note k = ok[unfolded calls_ok_def] and i = inv[unfolded run_inv_def]
  let ?xs = "map G (sample_ids (M w))"
  from i w have W: "w \<in> W" and res: "results s w = Some (Inr (Mapped [(result_key fw, TensorLeaf ?xs)]))"
    by auto
  from k W obtain lens where m: "meta_of_call calls w = Some (M w)" "partition_id (M w) = pid" "distinct (sample_ids (M w))"
      "connected (worker_of env w)" "sequence_lengths (M w) = Some lens" "length lens = length (sample_ids (M w))"
    by auto
  show ?thesis
  proof (cases "is_replica_leader (worker_of env w)")
    case True
    obtain c' where c': "commits fw (worker_of env w) (plane s) (M w) (Mapped [(result_key fw, TensorLeaf ?xs)]) = (c', Inr ())"
        "put_columns (plane s) (partition_id (M w)) (sample_ids (M w)) [(tq_field fw, ?xs)] = Some c'"
      using commits_leader[OF m(4) True _ m(5,6), where c = "plane s" and xs = ?xs and fw = fw] i m(2) by auto
    then have put: "put_columns (plane s) pid (sample_ids (M w)) [(tq_field fw, ?xs)] = Some c'"
      by (simp add: m(2))
    have cell: "read_cell c' p j f =
        (if p = pid \<and> f = tq_field fw \<and> j \<in> set (sample_ids (M w)) then Some (G j) else read_cell (plane s) p j f)" for p j f
    proof (cases "p = pid \<and> f = tq_field fw \<and> j \<in> set (sample_ids (M w))")
      case True
      then obtain n where "n < length (sample_ids (M w))" "j = sample_ids (M w) ! n"
        by (auto simp: in_set_conv_nth)
      with True noop.put_read[OF put m(3)] show ?thesis by simp
    next
      case False
      with noop.put_other[OF put m(3), of p j f] show ?thesis by auto
    qed
    have step: "dp_step fw env calls (Commits w) s = s\<lparr>plane := c', finished := (finished s)(w \<mapsto> Inr ())\<rparr>"
      using c'(1) by (simp add: m(1) res)
    have wr: "written env M (s\<lparr>plane := c', finished := (finished s)(w \<mapsto> Inr ())\<rparr>) j \<longleftrightarrow>
        written env M s j \<or> j \<in> set (sample_ids (M w))" for j
      using True by (auto simp: written_def)
    show ?thesis
      using i W put_columns_partition[OF put] by (auto simp: step run_inv_def wr cell simp del: dp_step.simps)
  next
    case False
    have step: "dp_step fw env calls (Commits w) s = s\<lparr>finished := (finished s)(w \<mapsto> Inr ())\<rparr>"
      using commits_follower[OF m(4) False, of ?xs "M w" fw "plane s"] by (simp add: m(1) res)
    have wr: "written env M (s\<lparr>finished := (finished s)(w \<mapsto> Inr ())\<rparr>) j \<longleftrightarrow> written env M s j" for j
      using False by (auto simp: written_def)
    show ?thesis
      using i W by (auto simp: step run_inv_def wr simp del: dp_step.simps)
  qed
qed

lemma insert_remove1: "x \<in> set xs \<Longrightarrow> insert x (set (remove1 x xs)) = set xs"
  by (induction xs) auto

lemma run_keeps:
  assumes "calls_ok fw env calls M W pid fs F c"
  shows "in_turn todo busy evs \<Longrightarrow> run_inv fw env M W pid (\<lambda>k. F (cells c pid fs k)) c s \<Longrightarrow> set todo \<subseteq> W \<Longrightarrow>
    set busy \<subseteq> dom (results s) \<Longrightarrow>
    run_inv fw env M W pid (\<lambda>k. F (cells c pid fs k)) c (fold (dp_step fw env calls) evs s) \<and>
    dom (finished (fold (dp_step fw env calls) evs s)) = dom (finished s) \<union> set todo \<union> set busy"
proof (induction evs arbitrary: todo busy s)
  case (Cons e evs)
  show ?case
  proof (cases e)
    case (Computes w)
    with Cons.prems have w: "w \<in> set todo" "in_turn (remove1 w todo) (w # busy) evs" by auto
    have "w \<in> W" using w(1) Cons.prems(3) by auto
    note st = computes_inv[OF assms Cons.prems(2) this]
    have "set (remove1 w todo) \<subseteq> W" using Cons.prems(3) set_remove1_subset by fast
    moreover have "set (w # busy) \<subseteq> dom (results (dp_step fw env calls (Computes w) s))"
      using st Cons.prems(4) by (auto simp del: dp_step.simps)
    ultimately show ?thesis
      using Cons.IH[OF w(2), of "dp_step fw env calls (Computes w) s"] st w(1) Cons.prems(3) insert_remove1[OF w(1)]
      by (auto simp: Computes simp del: dp_step.simps)
  next
    case (Commits w)
    with Cons.prems have w: "w \<in> set busy" "in_turn todo (remove1 w busy) evs" by auto
    have "w \<in> dom (results s)" using w(1) Cons.prems(4) by auto
    note st = commits_inv[OF assms Cons.prems(2) this]
    have "set (remove1 w busy) \<subseteq> dom (results (dp_step fw env calls (Commits w) s))"
      using st Cons.prems(4) set_remove1_subset[of w busy] by (metis subset_trans)
    then show ?thesis
      using Cons.IH[OF w(2), of "dp_step fw env calls (Commits w) s"] st w(1) Cons.prems(3,4) insert_remove1[OF w(1)]
      by (auto simp: Commits simp del: dp_step.simps)
  qed
qed simp


section \<open>The ranks' metadata and the calls\<close>

lemma shards_have_plan:
  assumes "shard_by_batch_size draw b k bs False dyn pk = Inr (ps, u)" and "\<not> (dyn = None \<and> pk = None)" and "q \<in> set ps"
  shows "micro_batch_indices q \<noteq> None \<and> micro_batch_lengths q \<noteq> None"
proof (cases dyn)
  case (Some args)
  with assms show ?thesis
    by (auto simp: shard_by_batch_size_def bindR_Inr shard_dynamic_def Let_def)
next
  case None
  with assms obtain args where pk: "pk = Some args" by auto
  with assms(1) None obtain lay ixs where "shard_packed draw lay args b k = Inr (ps, ixs)"
    by (auto simp: shard_by_batch_size_def bindR_Inr)
  then obtain bs' chunks cbs where "mapR (packed_shard b bs' chunks) cbs = Inr ps"
    by (auto simp: shard_packed_def bindR_Inr Let_def)
  with assms(3) obtain cb where "packed_shard b bs' chunks cb = Inr q"
    by (auto simp: mapR_Inr list_all2_conv_all_nth in_set_conv_nth)
  then show ?thesis
    by (auto simp: packed_shard_def bindR_Inr)
qed

lemma ranks_have_plan:
  assumes "shard_meta_for_dp draw m dp bs pk dyn = Inr (ms, u)" and "\<not> (dyn = None \<and> pk = None)" and "r \<in> set ms"
  shows "has_plan r"
proof -
  from assms(1) obtain b ps v lens idxs where run: "shard_by_batch_size draw b dp bs False dyn pk = Inr (ps, v)"
    and ms: "ms = map2 (rank_meta m lens) ps idxs"
    by (auto simp: shard_meta_for_dp_def Let_def bindR_Inr split: if_splits option.splits)
  from assms(3) ms obtain q ix where "q \<in> set ps" "r = rank_meta m lens q ix"
    by (auto dest: set_zip_leftD)
  moreover from this(1) obtain i l where "micro_batch_indices q = Some i" "micro_batch_lengths q = Some l"
    using shards_have_plan[OF run assms(2)] by blast
  ultimately show ?thesis
    by (simp add: has_plan_def rank_meta_def attach_packing_def split: option.split)
qed

lemma ranks_cover:
  assumes run: "shard_meta_for_dp draw m dp bs pk dyn = Inr (ms, u)" and "distinct (sample_ids m)"
  shows "length ms = dp" and "(\<Union>r\<in>set ms. set (sample_ids r)) = set (sample_ids m)"
    and "r \<in> set ms \<Longrightarrow> partition_id r = partition_id m \<and> field_names r = field_names m \<and> distinct (sample_ids r) \<and>
      map_option length (sequence_lengths r) = Some (length (sample_ids r))"
proof -
  obtain lens shards parts where l: "sequence_lengths m = Some lens" "length parts = dp" "length shards = dp"
      "mset (concat parts) = mset [0..<meta_size m]" "ms = map2 (rank_meta m lens) shards parts"
    by (rule shard_meta_Inr[OF run])
  show "length ms = dp" by (simp add: l)
  have ids: "map sample_ids ms = map (pick (sample_ids m)) parts"
    using l(2,3) by (intro nth_equalityI) (simp_all add: l(5) rank_meta_def)
  then have "concat (map sample_ids ms) = pick (sample_ids m) (concat parts)"
    by (simp add: pick_concat)
  then have perm: "mset (concat (map sample_ids ms)) = mset (sample_ids m)"
    using mset_pick[of "concat parts" "sample_ids m"] l(4) by (simp add: meta_size_def)
  from mset_eq_setD[OF perm] show "(\<Union>r\<in>set ms. set (sample_ids r)) = set (sample_ids m)" by simp
  show "partition_id r = partition_id m \<and> field_names r = field_names m \<and> distinct (sample_ids r) \<and>
      map_option length (sequence_lengths r) = Some (length (sample_ids r))" if r: "r \<in> set ms"
  proof -
    from r l(5) obtain q ix where "r = rank_meta m lens q ix" by auto
    moreover have "distinct (concat (map sample_ids ms))"
      using perm assms(2) by (metis mset_eq_imp_distinct_iff)
    then have "distinct (sample_ids r)"
      using r by (simp add: distinct_concat_iff)
    ultimately show ?thesis
      by (auto simp: rank_meta_def pick_def)
  qed
qed

lemma isolated_fields:
  "isolated_meta dyn fs task m = Inr im \<Longrightarrow> partition_id im = partition_id m \<and> sample_ids im = sample_ids m \<and>
     field_names im = Some fs \<and> sequence_lengths im = sequence_lengths m"
  by (auto simp: isolated_meta_def stamp_pad_seqlen_def bindR_Inr Let_def split: option.splits list.splits if_splits)

text \<open>However a forward pass was asked for, it is a split of its own copy of the metadata, with a pad target.\<close>

lemma forward_metas_split:
  assumes "forward_metas draw fw p rr alias m = Inr ms" and dp: "data_parallel_size p = Inr dp"
  obtains im pk dyn u P where "shard_meta_for_dp draw im dp None pk dyn = Inr (ms, u)"
    and "partition_id im = partition_id m" and "sample_ids im = sample_ids m"
    and "field_names im = Some (forward_fields rr fw)" and "map_of (extra_info im) PAD_KEY = Some (XOther (PInt P))"
    and "batching_enabled (Some (p_cfg p)) \<longrightarrow> \<not> (dyn = None \<and> pk = None)"
proof (cases "fw = TeacherLogprobs")
  case True
  with assms show thesis
    by (auto simp: forward_metas_def teacher_metas_def Let_def bindR_Inr split_metas_def batching_enabled_def
        forward_fields_def intro!: that split: option.splits list.splits)
next
  case False
  with assms(1) obtain task where "stage_metas draw Logprob p (forward_fields rr fw) task None m = Inr ms"
    by (cases fw) (auto simp: forward_metas_def)
  moreover obtain dyn pk where args: "batching_args Logprob (p_cfg p) = (dyn, pk)"
    by fastforce
  ultimately obtain im u where im: "isolated_meta (fst (batching_args Training (p_cfg p))) (forward_fields rr fw) task m = Inr im"
    and run: "shard_meta_for_dp draw im dp None pk dyn = Inr (ms, u)"
    by (auto simp: stage_metas_def bindR_Inr split_metas_def dp)
  obtain lens where lens: "sequence_lengths m = Some lens" "length lens = meta_size im"
    by (rule shard_meta_Inr[OF run]) (use isolated_fields[OF im] that in simp)
  have "meta_size im \<noteq> 0"
    using run by (auto simp: shard_meta_for_dp_def Let_def meta_size_def split: if_splits)
  with lens(2) have "lens \<noteq> []" by auto
  then obtain P where "map_of (extra_info im) PAD_KEY = Some (XOther (PInt P))"
    using isolated_stamp[OF im lens(1)] by blast
  moreover have "batching_enabled (Some (p_cfg p)) \<longrightarrow> \<not> (dyn = None \<and> pk = None)"
    using args by (auto simp: batching_enabled_def batching_args_def split: option.splits)
  ultimately show thesis
    using isolated_fields[OF im] by (intro that[OF run]) simp_all
qed

lemma policy_axes_zero:
  assumes "length cs = length POLICY_AXES"
  shows "is_axis_zero (zip POLICY_AXES cs) REPLICATED_AXES \<longleftrightarrow> (\<forall>i<length cs. i \<noteq> 1 \<longrightarrow> cs ! i = 0)"
proof -
  obtain a b c d where "cs = [a, b, c, d]"
    using assms by (auto simp: POLICY_AXES_def length_Suc_conv)
  then show ?thesis
    by (auto simp: is_axis_zero_def POLICY_AXES_def REPLICATED_AXES_def coord_def less_Suc_eq)
qed

text \<open>The leaders of the replicas are one worker per data-parallel rank.\<close>

lemma leader_iff:
  assumes "arranged g ds POLICY_AXES 1" and "w < prod_list ds"
    and "get_worker_coords (arange_sharding ds POLICY_AXES) (int w) = Inr (local_coords v)"
  shows "is_replica_leader v \<longleftrightarrow> (\<exists>d<ds ! 1. w = leader_of ds 1 d)"
proof -
  note lay = assms(1)[unfolded arranged_def]
  have "local_coords v = zip POLICY_AXES (coords_at ds w)"
    using arange_coords[of ds POLICY_AXES w] lay assms(2,3) by (auto simp: POLICY_AXES_def)
  then show ?thesis
    using policy_axes_zero[of "coords_at ds w"] zero_but_axis[of 1 ds w] lay assms(2)
    by (simp add: is_replica_leader_def)
qed

lemma meta_calls_eq:
  assumes arr: "arranged (p_group p) ds POLICY_AXES 1" and len: "length ms = ds ! 1"
  shows "meta_calls p ms =
    (\<lparr>futures = map (\<lambda>w. \<lparr>called = w, arguments = [(''meta'', Some (Whole (ms ! (coords_at ds w ! 1))))]\<rparr>) [0..<prod_list ds],
      called_workers = [0..<prod_list ds], return_from_workers = map (leader_of ds 1) [0..<ds ! 1]\<rparr>, Inr ())"
proof -
  have ax: "POLICY_AXES ! 1 = ''data_parallel''" by (simp add: POLICY_AXES_def)
  have "gets_data POLICY_AXES 1 REPLICATED_CALL ds w" for w
    by (auto simp: gets_data_def POLICY_AXES_def REPLICATED_CALL_def less_Suc_eq)
  then have "filter (gets_data POLICY_AXES 1 REPLICATED_CALL ds) [0..<prod_list ds] = [0..<prod_list ds]"
    by (simp add: filter_id_conv)
  then show ?thesis
    unfolding meta_calls_def ax[symmetric]
    by (subst scatter_calls(1)[OF arr len]) (auto simp: POLICY_AXES_def REPLICATED_CALL_def Let_def)
qed

lemma meta_of_call_at:
  assumes "w < n"
  shows "meta_of_call \<lparr>futures = map (\<lambda>w. \<lparr>called = w, arguments = [(''meta'', Some (Whole (M w)))]\<rparr>) [0..<n],
     called_workers = ws, return_from_workers = rs\<rparr> w = Some (M w)"
  using assms by (simp add: meta_of_call_def comp_def map_of_map_restrict)


section \<open>Properties\<close>

lemma output_not_input: "tq_field fw \<notin> set (forward_fields rr fw)"
  by (cases fw) (simp_all add: forward_fields_def fields_with_optional_routed_experts_def LP_SEED_FIELDS_def
      TEACHER_LP_FIELDS_def)

lemma forward_calls:
  assumes arr: "arranged (p_group p) (p_dims p) POLICY_AXES 1"
    and ms: "forward_metas (draws env) fw p rr alias m = Inr ms" and ids: "distinct (sample_ids m)"
    and rows: "readable c (partition_id m) (sample_ids m) (forward_fields rr fw)"
    and workers: "\<And>w. connected (worker_of env w) \<and> w_cfg (worker_of env w) = Some (p_cfg p)"
    and body: "\<And>w. forward_rows (result_key fw) F (body_of env w)"
  obtains calls M where "meta_calls p ms = (calls, Inr ())" and "called_workers calls = [0..<prod_list (p_dims p)]"
    and "calls_ok fw env calls M {..<prod_list (p_dims p)} (partition_id m) (forward_fields rr fw) F c"
    and "\<forall>w<prod_list (p_dims p). set (sample_ids (M w)) \<subseteq> set (sample_ids m)"
    and "\<forall>k\<in>set (sample_ids m). \<exists>d<p_dims p ! 1. k \<in> set (sample_ids (M (leader_of (p_dims p) 1 d)))"
proof -
  define ds where "ds = p_dims p"
  define M where "M w = ms ! (coords_at ds w ! 1)" for w
  note lay = arr[folded ds_def, unfolded arranged_def]
  obtain im pk dyn u P where run: "shard_meta_for_dp (draws env) im (ds ! 1) None pk dyn = Inr (ms, u)"
    and im: "partition_id im = partition_id m" "sample_ids im = sample_ids m" "field_names im = Some (forward_fields rr fw)"
    and P: "map_of (extra_info im) PAD_KEY = Some (XOther (PInt P))"
    and plan: "batching_enabled (Some (p_cfg p)) \<longrightarrow> \<not> (dyn = None \<and> pk = None)"
    by (rule forward_metas_split[OF ms arranged_dp_size[OF arr], folded ds_def])
  have "distinct (sample_ids im)" using ids im by simp
  note ranks = ranks_cover[OF run this]
  define calls where "calls = fst (meta_calls p ms)"
  have calls: "meta_calls p ms = (calls, Inr ())" "called_workers calls = [0..<prod_list ds]"
    and meta: "w < prod_list ds \<Longrightarrow> meta_of_call calls w = Some (M w)" for w
    using meta_calls_eq[OF arr[folded ds_def] ranks(1)] meta_of_call_at[where M = M] by (simp_all add: calls_def M_def)
  have in_ms: "M w \<in> set ms" if "w < prod_list ds" for w
    using coords_at_less[OF that] lay ranks(1) by (auto simp: M_def list_all2_conv_all_nth intro!: nth_mem)
  have ok: "calls_ok fw env calls M {..<prod_list ds} (partition_id m) (forward_fields rr fw) F c"
    unfolding calls_ok_def
  proof (intro conjI ballI output_not_input)
    fix w assume "w \<in> {..<prod_list ds}"
    then have w: "w < prod_list ds" by simp
    note r = ranks(3)[OF in_ms[OF w]]
    show "meta_of_call calls w = Some (M w)" by (rule meta[OF w])
    show "readable c (partition_id m) (sample_ids (M w)) (forward_fields rr fw)"
      using rows ranks(2) in_ms[OF w] im(2) by (auto simp: readable_def list_all_iff)
    show "ok (forward_pad_seqlen (M w))"
      using rank_pad_target(1)[OF run in_ms[OF w] P] by simp
    show "batching_enabled (w_cfg (worker_of env w)) \<longrightarrow> has_plan (M w)"
      using ranks_have_plan[OF run _ in_ms[OF w]] plan workers by simp
    show "partition_id (M w) = partition_id m" "field_names (M w) = Some (forward_fields rr fw)" "distinct (sample_ids (M w))"
      "map_option length (sequence_lengths (M w)) = Some (length (sample_ids (M w)))"
      using r im by simp_all
  qed (use workers body in simp_all)
  have sub: "\<forall>w<prod_list ds. set (sample_ids (M w)) \<subseteq> set (sample_ids m)"
    using in_ms unfolding ranks(2)[unfolded im(2), symmetric] by blast
  have cover: "\<forall>k\<in>set (sample_ids m). \<exists>d<ds ! 1. k \<in> set (sample_ids (M (leader_of ds 1 d)))"
  proof
    fix k assume "k \<in> set (sample_ids m)"
    then obtain r where "r \<in> set ms" and k: "k \<in> set (sample_ids r)"
      using ranks(2) im(2) by auto
    then obtain d where d: "d < ds ! 1" "ms ! d = r"
      using ranks(1) by (metis in_set_conv_nth)
    have "1 < length ds" and "\<forall>n\<in>set ds. 0 < n" using lay by (simp_all add: POLICY_AXES_def)
    with d(1) have "coords_at ds (leader_of ds 1 d) = (replicate (length ds) 0)[1 := d]" and "1 < length ds"
      using leader_coords(2)[of 1 ds d] by simp_all
    then have "M (leader_of ds 1 d) = r" by (simp add: M_def d(2))
    with d(1) k show "\<exists>d<ds ! 1. k \<in> set (sample_ids (M (leader_of ds 1 d)))" by blast
  qed
  show thesis
    by (rule that[folded ds_def, OF calls ok sub cover])
qed

text \<open>
  C13: a forward pass over the data plane (of the policy, its reference, the critic or a teacher) writes for every
  sample of its metadata exactly the result of that sample's own row, and changes no other cell, however
  the samples are packed over the ranks, whoever broadcasts to whom, and in whatever order the workers fetch,
  compute and write; it never fails when the rows are there.
\<close>

theorem forward_results_committed:
  assumes arr: "arranged (p_group p) (p_dims p) POLICY_AXES 1"
    and ms: "forward_metas (draws env) fw p rr alias m = Inr ms" and ids: "distinct (sample_ids m)"
    and rows: "readable c (partition_id m) (sample_ids m) (forward_fields rr fw)"
    and workers: "\<And>w. connected (worker_of env w) \<and> w_cfg (worker_of env w) = Some (p_cfg p)"
    and body: "\<And>w. forward_rows (result_key fw) F (body_of env w)"
    and coords: "\<And>w. w < prod_list (p_dims p) \<Longrightarrow>
      get_worker_coords (arange_sharding (p_dims p) POLICY_AXES) (int w) = Inr (local_coords (worker_of env w))"
    and turn: "in_turn (called_workers (fst (meta_calls p ms))) [] evs"
  shows "\<exists>c'. forward_dispatch fw env p rr alias m evs c = (c', Inr ()) \<and>
    (\<forall>pid k f. read_cell c' pid k f =
       (if pid = partition_id m \<and> k \<in> set (sample_ids m) \<and> f = tq_field fw
        then Some (F (cells c pid (forward_fields rr fw) k)) else read_cell c pid k f))"
proof -
  let ?fs = "forward_fields rr fw" and ?pid = "partition_id m" and ?n = "prod_list (p_dims p)"
  let ?G = "\<lambda>k. F (cells c ?pid ?fs k)"
  obtain calls M where calls: "meta_calls p ms = (calls, Inr ())" "called_workers calls = [0..<?n]"
    and ok: "calls_ok fw env calls M {..<?n} ?pid ?fs F c"
    and sub: "\<forall>w<?n. set (sample_ids (M w)) \<subseteq> set (sample_ids m)"
    and cover: "\<forall>k\<in>set (sample_ids m). \<exists>d<p_dims p ! 1. k \<in> set (sample_ids (M (leader_of (p_dims p) 1 d)))"
    by (rule forward_calls[OF arr ms ids rows workers body])
  have todo: "set (called_workers calls) = {..<?n}" by (auto simp: calls(2))
  define s where "s = dp_run fw env calls c evs"
  have "run_inv fw env M {..<?n} ?pid ?G c \<lparr>plane = c, results = Map.empty, finished = Map.empty\<rparr>"
    using rows by (simp add: run_inv_def written_def readable_def)
  from run_keeps[OF ok _ this, of "called_workers calls" "[]" evs] turn
  have inv: "run_inv fw env M {..<?n} ?pid ?G c s" and fin: "dom (finished s) = {..<?n}"
    by (simp_all add: todo calls(1) s_def dp_run_def)
  have lead: "leader_of (p_dims p) 1 d < ?n \<and> is_replica_leader (worker_of env (leader_of (p_dims p) 1 d))"
    if "d < p_dims p ! 1" for d
    using leader_coords(1)[of 1 "p_dims p" d] leader_iff[OF arr _ coords] arr that by (auto simp: arranged_def)
  have all: "written env M s k \<longleftrightarrow> k \<in> set (sample_ids m)" for k
    using sub cover lead by (fastforce simp: written_def fin)
  have "finished s w = Some (Inr ())" if "w < ?n" for w
    using inv fin that unfolding run_inv_def by (metis domIff lessThan_iff option.exhaust)
  then have "mapR (\<lambda>w. case finished s w of None \<Rightarrow> Inl TimeoutError | Some u \<Rightarrow> u) (called_workers calls) =
      Inr (map (\<lambda>_. ()) (called_workers calls))"
    by (intro mapR_total) (simp add: calls(2))
  then have "forward_dispatch fw env p rr alias m evs c = (plane s, Inr ())"
    by (simp add: forward_dispatch_def ms calls(1) s_def Let_def)
  with inv show ?thesis
    unfolding run_inv_def all by auto
qed





section \<open>Witnesses\<close>

definition demo_forward :: "(string \<Rightarrow> column option) \<Rightarrow> int" where
  "demo_forward r = (case r ''input_lengths'' of Some (Vector [x]) \<Rightarrow> 10 * x | _ \<Rightarrow> 0)"

definition demo_worker :: "nat \<Rightarrow> tq_worker" where
  "demo_worker w = \<lparr>connected = True, slices_cp_inputs = False, replica_size = Some 2,
     local_coords = zip POLICY_AXES (coords_at [1, 2, 1, 2] w), w_cfg = Some demo_policy_cfg\<rparr>"

definition demo_workers :: dp_workers where
  "demo_workers = \<lparr>worker_of = demo_worker, body_of = (\<lambda>w b. Inr (Mapped [(''logprobs'',
     TensorLeaf (map (\<lambda>i. demo_forward (row b i)) [0..<batch_len b]))])), draws = (\<lambda>_. id)\<rparr>"

definition demo_store :: client where
  "demo_store = fst (put_samples (fst (register_partition new_client ''train'' LP_SEED_FIELDS 6 [''prev_lp''] None None))
     (sample_ids demo_meta) ''train'' (Some (map (\<lambda>f. (f, TensorLeaf [6, 3, 5, 2, 4, 1])) LP_SEED_FIELDS)) None)"

definition demo_schedule :: "dp_event list" where
  "demo_schedule = [Computes 3, Computes 0, Commits 3, Computes 1, Computes 2, Commits 2, Commits 0, Commits 1]"

definition demo_metas :: "meta list" where
  "demo_metas = projr (forward_metas (\<lambda>_. id) PrevLogprobs demo_policy False '''' demo_meta)"

lemma demo_forward_metas: "forward_metas (draws demo_workers) PrevLogprobs demo_policy False '''' demo_meta = Inr demo_metas"
proof -
  have "ok (forward_metas (\<lambda>_. id) PrevLogprobs demo_policy False '''' demo_meta)"
    by code_simp
  then show ?thesis
    by (auto simp: ok_iff demo_metas_def demo_workers_def)
qed

lemma demo_policy_dims: "p_dims demo_policy = [1, 2, 1, 2]"
  by code_simp

lemma demo_policy_facts: "p_cfg demo_policy = demo_policy_cfg" "arranged (p_group demo_policy) (p_dims demo_policy) POLICY_AXES 1"
  using new_policy_arranged[OF demo_policy_new demo_cluster_ok] by simp_all

lemma demo_coords:
  "w < prod_list (p_dims demo_policy) \<Longrightarrow>
     get_worker_coords (arange_sharding (p_dims demo_policy) POLICY_AXES) (int w) = Inr (local_coords (demo_worker w))"
  using arange_coords[of "[1, 2, 1, 2]" POLICY_AXES w] by (simp add: demo_policy_dims demo_worker_def POLICY_AXES_def)

theorem forward_results_committed_witness:
  "\<exists>c'. forward_dispatch PrevLogprobs demo_workers demo_policy False '''' demo_meta demo_schedule demo_store = (c', Inr ()) \<and>
     read_cell c' ''train'' ''c'' ''prev_logprobs'' = Some 50 \<and> read_cell c' ''train'' ''c'' ''input_lengths'' = Some 5"
proof -
  have ids: "distinct (sample_ids demo_meta)" "''c'' \<in> set (sample_ids demo_meta)" and pid: "partition_id demo_meta = ''train''"
    by (simp_all add: demo_meta_def)
  have rows: "readable demo_store (partition_id demo_meta) (sample_ids demo_meta) (forward_fields False PrevLogprobs)"
    by code_simp
  have workers: "connected (worker_of demo_workers w) \<and> w_cfg (worker_of demo_workers w) = Some (p_cfg demo_policy)"
    and body: "forward_rows (result_key PrevLogprobs) demo_forward (body_of demo_workers w)" for w
    by (simp_all add: demo_workers_def demo_worker_def demo_policy_facts forward_rows_def)
  have coords: "get_worker_coords (arange_sharding (p_dims demo_policy) POLICY_AXES) (int w) =
      Inr (local_coords (worker_of demo_workers w))" if "w < prod_list (p_dims demo_policy)" for w
    using demo_coords[OF that] by (simp add: demo_workers_def)
  have turn: "in_turn (called_workers (fst (meta_calls demo_policy demo_metas))) [] demo_schedule"
    by code_simp
  obtain c' where c': "forward_dispatch PrevLogprobs demo_workers demo_policy False '''' demo_meta demo_schedule demo_store = (c', Inr ())"
    and cell: "read_cell c' pid k f = (if pid = partition_id demo_meta \<and> k \<in> set (sample_ids demo_meta) \<and> f = tq_field PrevLogprobs
      then Some (demo_forward (cells demo_store pid (forward_fields False PrevLogprobs) k)) else read_cell demo_store pid k f)" for pid k f
    using forward_results_committed[OF demo_policy_facts(2) demo_forward_metas ids(1) rows workers body coords turn] by blast
  have "demo_forward (cells demo_store ''train'' (forward_fields False PrevLogprobs) ''c'') = 50"
    and "read_cell demo_store ''train'' ''c'' ''input_lengths'' = Some 5"
    by code_simp+
  with c' show ?thesis
    by (simp add: cell ids(2) pid)
qed


end
