(* ===== verification/Spec2Isabelle.thy ===== *)
theory Spec2Isabelle
  imports Metas NoopClient ReplayBuffer TQBuffer Samplers GymRows Router Relay SparseSync Checkpoints TokenSpans
    TQDispatch
begin

text \<open>
  Verification library of NeMo-RL, a post-training framework for language models (\<open>src/nemo_rl\<close>).

  A trainer consumes groups of rollouts that generation workers produce asynchronously.  The library
  models the parts that decide which data is trained on, and where it goes: the host-side logic in
  Python.  The tensors' numbers, the remote-call runtime and the engines are arguments.

  \<^bold>\<open>The parts and their theories.\<close>

  \<^item> \<open>Prelude\<close>: Python's exceptions as \<open>py_error\<close>, a result as \<open>py_error + 'a\<close> (type \<open>res\<close>) with
    \<open>bindR\<close> and \<open>mapR\<close>, list idioms (slices, \<open>pop\<close>, stable sorts, decimal numerals) and their lemmas.
  \<^item> \<open>Packing\<close> (\<open>data/packing/algorithms.py\<close>): the packers of sequences into bins of bounded capacity and
    the adjustment of the number of bins.
  \<^item> \<open>Batches\<close> and \<open>Sharding\<close> (\<open>distributed/batched_data_dict.py\<close>): a batch as named columns of rows, its
    row operations, and \<open>shard_by_batch_size\<close> in its plain, uneven, dynamic and packed modes, with the
    inverse \<open>reorder_data\<close>.
  \<^item> \<open>Metas\<close> (\<open>data_plane/interfaces.py\<close>, \<open>data_plane/preshard.py\<close>): the row metadata that travels instead of the
    data and its split over the ranks, which calls the sharding on a skeleton batch.
  \<^item> \<open>NoopClient\<close> (\<open>data_plane/adapters/noop.py\<close>): the data plane in memory.  Its locale \<open>row_plane\<close> states what
    the buffers rely on (put, clear and keys of rows); \<open>noop_plane\<close> in \<open>TQBuffer\<close> interprets it on the client.
  \<^item> \<open>ReplayBuffer\<close> and \<open>TQBuffer\<close> (\<open>algorithms/async_utils/replay_buffer.py\<close>, \<open>experience/payload.py\<close>): the legacy
    buffer of trajectories, and the buffer of slots whose rows live in the data plane.  A commit of the
    second is a chain of steps, one per await, interleaved with removals, cancellations and other commits.
  \<^item> \<open>Samplers\<close> (\<open>algorithms/async_utils/staleness_sampler.py\<close>): the policies that admit dispatches and select or evict
    slots by weight version, over the slots of \<open>TQBuffer\<close>.
  \<^item> \<open>Failures\<close> (\<open>experience/failures.py\<close>), \<open>Rollouts\<close> and \<open>GymRows\<close> (\<open>experience/rollout_manager.py\<close>): the
    classification of a failed attempt, the retry loop of one prompt over the buffer with its run-wide
    budgets, and the re-dispatch of the rows of a group.
  \<^item> \<open>Fleet\<close> (\<open>models/generation/fleet_health.py\<close>) and \<open>Router\<close> (\<open>models/generation/generation_router.py\<close> and the fleet
    tick of \<open>algorithms/single_controller.py\<close>): the health of the generation shards and the request router.
  \<^item> \<open>SparseCodec\<close>, \<open>Tracker\<close> (\<open>utils/weight_transfer_sparse_codec.py\<close>, \<open>utils/weight_transfer_stream.py\<close>): the wire
    format of sparse weight deltas, and the trainer's side, which compares the weights with a baseline, cuts
    them into chunks over the ranks and groups what has changed into payloads.
  \<^item> \<open>Relay\<close> (\<open>utils/weight_transfer_zmq.py\<close>): the tree of relays that hands every payload to every receiver.
  \<^item> \<open>RefitQueue\<close> (\<open>models/generation/vllm/vllm_sparse_refit.py\<close>) and \<open>SparseApply\<close>
    (\<open>models/generation/vllm/vllm_sparse_delta.py\<close>): the receiver's queue, and the interception of the engine's
    loader that turns its copies into an XOR or an overwrite of the changed elements.
  \<^item> \<open>SparseSync\<close> (\<open>weight_sync/vllm_remote_sparse_weight_synchronizer.py\<close>,
    \<open>models/policy/workers/megatron_remote_sparse_refit.py\<close>): the synchronizer over ranks and receivers, which
    composes all of these; its specification is that the engines hold the weights of the last successful sync.
  \<^item> \<open>Checkpoints\<close> (\<open>utils/checkpoint.py\<close>): the step directories of a run as a file system that maps names to
    directories, the retention policy, the choice of the best and of the latest checkpoint, the swap of
    a temporary directory into place in phases that may be interrupted, and the finalization in the background.
  \<^item> \<open>TokenText\<close>, \<open>TokenAlign\<close> and \<open>TokenSpans\<close> (\<open>algorithms/x_token/token_aligner.py\<close>): the alignment of the tokens
    of two tokenizers.  The first has the canonical form of tokens (strings are lists of code points, with
    the tables of the module), the second the dynamic program with its optimality, anchors, repair and
    the tensors of a batch, the third shows that the pairs cut both sequences into spans.
  \<^item> \<open>NamedAxes\<close> (\<open>distributed/named_sharding.py\<close>) and \<open>WorkerGroups\<close> (\<open>distributed/worker_groups.py\<close>): ranks
    as an array with named axes; the workers of a group over their bundles, the calls that give every worker
    its part of an argument, and the results that are handed back.
  \<^item> \<open>PolicyDispatch\<close> (\<open>models/policy/lm_policy.py\<close>, \<open>models/generation/vllm/vllm_generation.py\<close>): the policy and
    the vLLM generation over such a group: a batch is sharded by \<open>Sharding\<close>, sent, computed by workers that are
    arguments, and assembled.  The locale \<open>dp_call\<close> states what they rely on (one answer per data-parallel
    rank, in order); \<open>policy_calls\<close>, \<open>policy_generation\<close> and \<open>vllm_calls\<close> interpret it on the worker groups.
  \<^item> \<open>WireColumns\<close> (\<open>data_plane/codec.py\<close>, \<open>column_io.py\<close>, \<open>schema.py\<close>, \<open>driver_mixin.py\<close>): the jagged form of
    per-token columns, its reading, and the pad target that a dispatch gives its ranks.
  \<^item> \<open>TQDispatch\<close> (\<open>data_plane/worker_mixin.py\<close>, \<open>models/policy/tq_policy.py\<close>, \<open>teacher_worker_group.py\<close>,
    \<open>models/value/tq_value.py\<close>): the same computations over metadata: the workers fetch their rows from the data
    plane and the leaders of the replicas write the results back, in any interleaving.

  \<^bold>\<open>Conventions.\<close>  A class is a record, a method a function from the record to the new record and its
  result; an exception is \<open>Inl\<close>, and an operation that raises half-way returns the state it leaves.
  Python's integers are \<open>int\<close>, counters that cannot be negative \<open>nat\<close>, floats that are only compared and
  divided \<open>rat\<close>.  A dictionary whose order matters is an association list.  What other tasks, clocks, random
  shuffles and remote calls do is an argument: a list of scripted answers or a function.

  \<^bold>\<open>Groups of lemmas.\<close>  Every component has a well-formedness predicate and the lemmas that each operation keeps
  it (\<open>batch_wf\<close>, \<open>meta_wf\<close>, \<open>client_wf\<close>, \<open>buffer_ok\<close>, \<open>tq_inv\<close>, \<open>slots_ok\<close>, \<open>buf_ok\<close>, \<open>fleet_ok\<close>, \<open>routed\<close>,
  \<open>payload_wf\<close>, \<open>queue_holds\<close>, \<open>net_holds\<close>, \<open>tracker_at\<close>, \<open>in_step\<close>, \<open>cover_from\<close>, \<open>spans_to\<close>, \<open>tiles\<close>,
  \<open>axes_ok\<close>, \<open>arranged\<close>, \<open>run_inv\<close>); lemmas for the loops, generalised over their accumulators; and on top the
  properties, numbered C1 and on, in the theory of their component.  Step relations are read through reachability (\<open>tq_reach\<close>) or through folds
  over event lists (\<open>fleet_run\<close>, \<open>ctl_run\<close>, \<open>serves\<close>, \<open>queue_run\<close>, \<open>net_run\<close>, \<open>sync_run\<close>, \<open>dp_run\<close>).

  \<^bold>\<open>Bounds and fuel.\<close>  Loops of the code are structural recursions or functions with a measure.  The cause chain of
  an exception may be cyclic: the code bounds it by 8, and so does the model.  An admission polls; its
  polls are a list, and the property says that it returns exactly when one of them admits.  The attempts of
  a prompt are a function of the attempt's number, and the number of attempts is bounded by the budgets.
  The walk back through the alignment table has as fuel the number of tokens of both sides; every step
  takes at least one.  The scores of the alignment are multiples of one half, so rationals are exact.

  \<^bold>\<open>Assumptions.\<close>  A slot id is fresh (\<open>uuid4\<close>).  Other tasks may do between the steps of a dispatch whatever keeps
  them off its own slot (\<open>keeps_out\<close>) and keeps the counters consistent (\<open>counters_ok\<close>).  For the sparse refit:
  hosts are little-endian; an engine's loader copies the elements of a tensor to fixed places
  (\<open>loader_follows\<close>); PyTorch's conversion to the same type is the identity (\<open>torch_ok\<close>); an overwrite does not
  have to carry a new not-a-number (\<open>carries\<close>), which the code would drop; a transport that reports success has
  delivered every payload (\<open>transport_delivers\<close>, for the relays the property of their tree).  For the
  checkpoints: a run saves its steps in increasing order (\<open>saves_in_order\<close>).  For the workers: the bundles of
  a cluster are its ranks (\<open>cluster_ok\<close>); what a worker answers for a row depends on that row (\<open>row_wise\<close>, \<open>forward_rows\<close>); a worker
  knows its own coordinates, and its configuration is the driver's.

  \<^bold>\<open>Not modelled.\<close>  Losses, advantages and every other floating-point tensor computation; what the remote
  workers and engines compute; placement of workers on nodes; HTTP, files and sockets as such; data sets, environments and tokenizers; logging and metrics.
\<close>

end
